(* ===== verification/Velox_Prelude.thy ===== *)
theory Velox_Prelude
  imports Main "HOL-Library.Word" "HOL-Library.Monad_Syntax" "HOL-Library.Signed_Division"
begin

text \<open>
  What every theory of the development shares: the names of the engine's scalar types, the
  64-bit two's complement wrap-around of \<^verbatim>\<open>std::int64_t\<close>, checked array accesses, and the
  collections of simplification rules the component proofs use.

  Conventions of the whole model:
  \<^item> C++ undefined behaviour (a null or dangling dereference, an array access out of range) and a
    loop that never ends are the value \<^const>\<open>None\<close> of an outer option; a null pointer or a
    \<^verbatim>\<open>nullptr\<close> result is the value \<^const>\<open>None\<close> of an inner one.
  \<^item> A pointer to a pooled object is the index of its slot in the pool's storage block.
\<close>

unbundle bit_operations_syntax

named_theorems monad_simps \<open>unfolding of the checked accesses and the option monad\<close>
named_theorems wrap_simps \<open>arithmetic of the 64-bit wrap-around\<close>

type_synonym Price = int
type_synonym Quantity = int
type_synonym OrderId = int
type_synonym ParticipantId = int
type_synonym Seq = int
type_synonym ptr = nat

section \<open>64-bit signed wrap-around\<close>

definition wrap64 :: "int \<Rightarrow> int" where
  "wrap64 x = (x + 2 ^ 63) mod 2 ^ 64 - 2 ^ 63"

definition in_i64 :: "int \<Rightarrow> bool" where
  "in_i64 x \<longleftrightarrow> - (2 ^ 63) \<le> x \<and> x < 2 ^ 63"

lemma wrap64_id: "in_i64 x \<Longrightarrow> wrap64 x = x"
  by (simp add: wrap64_def in_i64_def)

lemma wrap64_in_i64 [simp]: "in_i64 (wrap64 x)"
  by (simp add: wrap64_def in_i64_def)

lemma wrap64_add_left [simp, wrap_simps]: "wrap64 (wrap64 a + b) = wrap64 (a + b)"
proof -
  have "(wrap64 a + b + 2 ^ 63) mod 2 ^ 64 = ((a + 2 ^ 63) mod 2 ^ 64 + b) mod (2 ^ 64 :: int)"
    by (simp add: wrap64_def)
  also have "\<dots> = (a + 2 ^ 63 + b) mod 2 ^ 64"
    by (rule mod_add_left_eq)
  finally show ?thesis by (simp add: wrap64_def algebra_simps)
qed

lemma wrap64_diff_left [simp, wrap_simps]: "wrap64 (wrap64 a - b) = wrap64 (a - b)"
  using wrap64_add_left [of a "- b"] by simp

lemma wrap64_0 [simp]: "wrap64 0 = 0"
  by (simp add: wrap64_def)

section \<open>Checked array accesses\<close>

definition nth_opt :: "'a list \<Rightarrow> nat \<Rightarrow> 'a option" where
  "nth_opt xs i = (if i < length xs then Some (xs ! i) else None)"

definition upd_opt :: "'a list \<Rightarrow> nat \<Rightarrow> 'a \<Rightarrow> 'a list option" where
  "upd_opt xs i x = (if i < length xs then Some (xs[i := x]) else None)"

lemma nth_opt_Some [simp, monad_simps]: "i < length xs \<Longrightarrow> nth_opt xs i = Some (xs ! i)"
  by (simp add: nth_opt_def)

lemma upd_opt_Some [simp, monad_simps]: "i < length xs \<Longrightarrow> upd_opt xs i x = Some (xs[i := x])"
  by (simp add: upd_opt_def)

lemma nth_opt_eq_Some_iff: "nth_opt xs i = Some x \<longleftrightarrow> i < length xs \<and> xs ! i = x"
  by (auto simp: nth_opt_def)

lemma bind_eq_SomeI: "m = Some x \<Longrightarrow> f x = r \<Longrightarrow> Option.bind m f = r"
  by simp

section \<open>Lists\<close>

lemma remove1_append_mid: "p \<notin> set xs \<Longrightarrow> remove1 p (xs @ p # ys) = xs @ ys"
  by (simp add: remove1_append)

end
