(* ===== verification/Velox_Types.thy ===== *)
theory Velox_Types
  imports Velox_Prelude
begin

text \<open>
  The engine's plain data: \<^verbatim>\<open>common/types.hpp\<close>, \<^verbatim>\<open>engine/order.hpp\<close>, \<^verbatim>\<open>engine/trade.hpp\<close> and the
  enums and structs at the top of \<^verbatim>\<open>engine/order_book.hpp\<close>. Field names carry a prefix per
  struct because record selectors share one name space.
\<close>

section \<open>common/types.hpp\<close>

definition kPriceScale :: Price where
  "kPriceScale = 10000"

datatype Side = Buy | Sell

fun opposite :: "Side \<Rightarrow> Side" where
  "opposite Buy = Sell"
| "opposite Sell = Buy"

lemma opposite_opposite [simp]: "opposite (opposite s) = s"
  by (cases s) auto

lemma opposite_neq [simp]: "opposite s \<noteq> s" "s \<noteq> opposite s"
  by (cases s; simp)+

definition kBidEmpty :: Price where
  "kBidEmpty = - (2 ^ 63)"

definition kAskEmpty :: Price where
  "kAskEmpty = 2 ^ 63 - 1"

definition emptySentinel :: "Side \<Rightarrow> Price" where
  "emptySentinel s = (if s = Buy then kBidEmpty else kAskEmpty)"

section \<open>engine/order.hpp\<close>

text \<open>
  The address of a price level: the side whose level array holds it and its slot there.
\<close>

type_synonym level_ref = "Side \<times> nat"

record Order =
  o_remaining :: Quantity
  o_participant :: ParticipantId
  o_price :: Price
  o_id :: OrderId
  o_next :: "ptr option"
  o_level :: "level_ref option"
  o_side :: Side
  o_quantity :: Quantity
  o_seq :: Seq
  o_prev :: "ptr option"

section \<open>engine/trade.hpp\<close>

record Trade =
  t_id :: Seq
  t_aggressorId :: OrderId
  t_passiveId :: OrderId
  t_price :: Price
  t_quantity :: Quantity
  t_aggressorSide :: Side

text \<open>
  \<^verbatim>\<open>TradeBuffer\<close> and \<^verbatim>\<open>StpVictimBuffer\<close> have the same shape and the same \<^verbatim>\<open>push\<close>, so the model
  has one record for both: a caller-provided array, its capacity and the number of pushes.
\<close>

record 'a buffer =
  buf_data :: "'a list"
  buf_capacity :: nat
  buf_count :: nat

definition push :: "'a buffer \<Rightarrow> 'a \<Rightarrow> 'a buffer" where
  "push b x =
     (let b' = (if buf_count b < buf_capacity b
                then b\<lparr>buf_data := (buf_data b)[buf_count b := x]\<rparr> else b)
      in b'\<lparr>buf_count := buf_count b' + 1\<rparr>)"

definition overflowed :: "'a buffer \<Rightarrow> bool" where
  "overflowed b \<longleftrightarrow> buf_count b > buf_capacity b"

definition clear :: "'a buffer \<Rightarrow> 'a buffer" where
  "clear b = b\<lparr>buf_count := 0\<rparr>"

section \<open>engine/order_book.hpp\<close>

datatype OrderType = Limit | Market | Ioc | Fok

datatype StpPolicy = CancelAggressor | CancelPassive | CancelBoth

record BookConfig =
  cfg_minPrice :: Price
  cfg_maxPrice :: Price
  cfg_tick :: Price
  cfg_maxOrders :: nat
  cfg_stp :: StpPolicy

definition defaultConfig :: BookConfig where
  "defaultConfig =
     \<lparr>cfg_minPrice = 1 * kPriceScale, cfg_maxPrice = 1000 * kPriceScale,
      cfg_tick = kPriceScale div 100, cfg_maxOrders = 2 ^ 20, cfg_stp = CancelAggressor\<rparr>"

record NewOrder =
  n_id :: OrderId
  n_price :: Price
  n_quantity :: Quantity
  n_participant :: ParticipantId
  n_side :: Side
  n_type :: OrderType

datatype SubmitStatus =
    Ok
  | RejectedPriceOutOfRange
  | RejectedInvalidQuantity
  | RejectedDuplicateId
  | RejectedPoolExhausted
  | RejectedUnknownOrder
  | RejectedMarketIntoEmptyBook
  | RejectedFokUnfillable
  | CancelledBySelfTradePrevention
  | CancelledResidual

record StpVictim =
  v_id :: OrderId
  v_price :: Price
  v_quantity :: Quantity
  v_remaining :: Quantity
  v_participant :: ParticipantId
  v_seq :: Seq
  v_side :: Side

record OrderResult =
  r_status :: SubmitStatus
  r_filled :: Quantity
  r_remaining :: Quantity
  r_rested :: bool
  r_price :: Price
  r_quantity :: Quantity
  r_participant :: ParticipantId
  r_seq :: Seq
  r_side :: Side

definition emptyResult :: OrderResult where
  "emptyResult =
     \<lparr>r_status = Ok, r_filled = 0, r_remaining = 0, r_rested = False, r_price = 0,
      r_quantity = 0, r_participant = 0, r_seq = 0, r_side = Buy\<rparr>"

datatype MatchOutcome = Exhausted | NoLongerCrosses | StpFired

section \<open>What a buffer holds\<close>

definition buf_wf :: "'a buffer \<Rightarrow> bool" where
  "buf_wf b \<longleftrightarrow> length (buf_data b) = buf_capacity b"

definition contents :: "'a buffer \<Rightarrow> 'a list" where
  "contents b = take (buf_count b) (buf_data b)"

lemma buf_wf_push [simp]: "buf_wf (push b x) = buf_wf b"
  by (simp add: buf_wf_def push_def Let_def)

lemma capacity_push [simp]: "buf_capacity (push b x) = buf_capacity b"
  by (simp add: push_def Let_def)

lemma count_push [simp]: "buf_count (push b x) = buf_count b + 1"
  by (simp add: push_def Let_def)

lemma contents_push:
  assumes "buf_wf b"
  shows "contents (push b x) =
           (if buf_count b < buf_capacity b then contents b @ [x] else contents b)"
  using assms
  by (auto simp: contents_def push_def Let_def buf_wf_def take_Suc_conv_app_nth)

lemma foldl_push_facts:
  "buf_wf (foldl push b xs) = buf_wf b"
  "buf_capacity (foldl push b xs) = buf_capacity b"
  "buf_count (foldl push b xs) = buf_count b + length xs"
  by (induction xs arbitrary: b) auto

lemma contents_foldl_push:
  assumes "buf_wf b" and "\<not> overflowed (foldl push b xs)"
  shows "contents (foldl push b xs) = contents b @ xs"
  using assms
proof (induction xs arbitrary: b)
  case Nil
  then show ?case by simp
next
  case (Cons x xs)
  have "buf_count b < buf_capacity b"
    using Cons.prems(2) by (simp add: overflowed_def foldl_push_facts)
  with Cons show ?case by (simp add: contents_push)
qed

lemma contents_clear [simp]: "contents (clear b) = []"
  by (simp add: contents_def clear_def)

end
