(* ===== verification/Object_Pool.thy ===== *)
theory Object_Pool
  imports Velox_Types
begin

text \<open>
  \<^verbatim>\<open>common/object_pool.hpp\<close>: a fixed block of slots with the free list threaded through the free
  ones. A slot is a C++ union, \<^emph>\<open>either\<close> a link of the free list \<^emph>\<open>or\<close> a live object, so it is a
  datatype with those two constructors; a pointer is the index of a slot.

  The interface the order book relies on is the locale \<open>slot_allocator\<close>; the pool interprets it.
\<close>

section \<open>The pool\<close>

datatype 'a Slot = FreeSlot "ptr option" | Live 'a

type_synonym 'a store = "'a Slot list"

record 'a ObjectPool =
  storage :: "'a store"
  free :: "ptr option"
  pool_capacity :: nat
  inUse :: nat

definition newPool :: "nat \<Rightarrow> 'a ObjectPool" where
  "newPool capacity =
     \<lparr>storage = map (\<lambda>i. FreeSlot (if Suc i < capacity then Some (Suc i) else None)) [0..<capacity],
      free = (if capacity > 0 then Some 0 else None),
      pool_capacity = capacity, inUse = 0\<rparr>"

text \<open>Reading the link of a slot that holds a live object is undefined behaviour.\<close>

definition slotNext :: "'a store \<Rightarrow> ptr \<Rightarrow> ptr option option" where
  "slotNext st p = (case nth_opt st p of Some (FreeSlot n) \<Rightarrow> Some n | _ \<Rightarrow> None)"

definition acquire :: "'a ObjectPool \<Rightarrow> (ptr option \<times> 'a ObjectPool) option" where
  "acquire pl =
     (case free pl of
        None \<Rightarrow> Some (None, pl)
      | Some s \<Rightarrow> do {
          n \<leftarrow> slotNext (storage pl) s;
          Some (Some s, pl\<lparr>free := n, inUse := inUse pl + 1\<rparr>)
        })"

definition release :: "'a ObjectPool \<Rightarrow> ptr option \<Rightarrow> 'a ObjectPool option" where
  "release pl p =
     (case p of
        None \<Rightarrow> Some pl
      | Some s \<Rightarrow> do {
          st \<leftarrow> upd_opt (storage pl) s (FreeSlot (free pl));
          Some (pl\<lparr>storage := st, free := Some s, inUse := inUse pl - 1\<rparr>)
        })"

definition available :: "'a ObjectPool \<Rightarrow> nat" where
  "available pl = pool_capacity pl - inUse pl"

text \<open>
  The accesses through the pointers the pool hands out: reading an object, writing every field of
  an acquired slot, and updating fields of a live object.
\<close>

definition deref :: "'a store \<Rightarrow> ptr \<Rightarrow> 'a option" where
  "deref st p = (case nth_opt st p of Some (Live x) \<Rightarrow> Some x | _ \<Rightarrow> None)"

definition writeObj :: "'a store \<Rightarrow> ptr \<Rightarrow> 'a \<Rightarrow> 'a store option" where
  "writeObj st p x = upd_opt st p (Live x)"

definition modifyObj :: "'a store \<Rightarrow> ptr \<Rightarrow> ('a \<Rightarrow> 'a) \<Rightarrow> 'a store option" where
  "modifyObj st p f = do { x \<leftarrow> deref st p; upd_opt st p (Live (f x)) }"

section \<open>Reading and writing objects\<close>

lemma deref_Some_iff: "deref st p = Some x \<longleftrightarrow> p < length st \<and> st ! p = Live x"
  by (auto simp: deref_def nth_opt_def split: option.splits Slot.splits)

lemma deref_update:
  "p < length st \<Longrightarrow>
   deref (st[p := sl]) q =
     (if q = p then (case sl of Live x \<Rightarrow> Some x | FreeSlot _ \<Rightarrow> None) else deref st q)"
  by (auto simp: deref_def nth_opt_def split: option.splits Slot.splits)

lemma deref_write [simp]: "p < length st \<Longrightarrow> deref (st[p := Live x]) q = (if q = p then Some x else deref st q)"
  by (simp add: deref_update)

lemma deref_free [simp]: "p < length st \<Longrightarrow> deref (st[p := FreeSlot n]) q = (if q = p then None else deref st q)"
  by (simp add: deref_update)

lemma deref_less: "deref st p = Some x \<Longrightarrow> p < length st"
  by (simp add: deref_Some_iff)

lemma writeObj_Some [simp]: "p < length st \<Longrightarrow> writeObj st p x = Some (st[p := Live x])"
  by (simp add: writeObj_def)

lemma modifyObj_Some: "deref st p = Some x \<Longrightarrow> modifyObj st p f = Some (st[p := Live (f x)])"
  by (simp add: modifyObj_def deref_less)

section \<open>The free list\<close>

fun free_chain :: "'a store \<Rightarrow> ptr option \<Rightarrow> ptr list \<Rightarrow> bool" where
  "free_chain st fp [] \<longleftrightarrow> fp = None"
| "free_chain st fp (p # ps) \<longleftrightarrow>
     fp = Some p \<and> (\<exists>n. slotNext st p = Some n \<and> free_chain st n ps)"

fun free_walk :: "'a store \<Rightarrow> nat \<Rightarrow> ptr option \<Rightarrow> ptr list" where
  "free_walk st 0 fp = []"
| "free_walk st (Suc k) None = []"
| "free_walk st (Suc k) (Some p) =
     p # (case slotNext st p of None \<Rightarrow> [] | Some n \<Rightarrow> free_walk st k n)"

definition free_list :: "'a ObjectPool \<Rightarrow> ptr list" where
  "free_list pl = free_walk (storage pl) (length (storage pl)) (free pl)"

definition pool_rep :: "'a ObjectPool \<Rightarrow> ptr list \<Rightarrow> bool" where
  "pool_rep pl fl \<longleftrightarrow>
     free_chain (storage pl) (free pl) fl \<and> distinct fl \<and>
     length (storage pl) = pool_capacity pl \<and> inUse pl + length fl = pool_capacity pl"

definition pool_inv :: "'a ObjectPool \<Rightarrow> bool" where
  "pool_inv pl \<longleftrightarrow> pool_rep pl (free_list pl)"

lemma slotNext_Some_iff: "slotNext st p = Some n \<longleftrightarrow> p < length st \<and> st ! p = FreeSlot n"
  by (auto simp: slotNext_def nth_opt_def split: option.splits Slot.splits)

lemma free_chain_not_live: "free_chain st fp fl \<Longrightarrow> p \<in> set fl \<Longrightarrow> deref st p = None \<and> p < length st"
  by (induction fl arbitrary: fp) (auto simp: slotNext_Some_iff deref_def)

lemma free_chain_update:
  "p \<notin> set fl \<Longrightarrow> free_chain (st[p := sl]) fp fl = free_chain st fp fl"
proof (induction fl arbitrary: fp)
  case (Cons q fl)
  then have "slotNext (st[p := sl]) q = slotNext st q"
    by (auto simp: slotNext_def nth_opt_def)
  with Cons show ?case by auto
qed simp

lemma free_walk_chain: "free_chain st fp fl \<Longrightarrow> length fl \<le> k \<Longrightarrow> free_walk st k fp = fl"
proof (induction st k fp arbitrary: fl rule: free_walk.induct)
  case (2 st k)
  then show ?case by (cases fl) auto
next
  case (3 st k p)
  then show ?case by (cases fl) auto
qed simp

lemma free_chain_length:
  assumes "free_chain st fp fl" "distinct fl"
  shows "length fl \<le> length st"
proof -
  have "set fl \<subseteq> {..<length st}"
    using free_chain_not_live [OF assms(1)] by auto
  then have "card (set fl) \<le> length st"
    using card_mono [of "{..<length st}" "set fl"] by simp
  with assms(2) show ?thesis by (simp add: distinct_card)
qed

lemma pool_rep_free_list: "pool_rep pl fl \<Longrightarrow> free_list pl = fl"
  unfolding pool_rep_def free_list_def by (blast intro: free_walk_chain free_chain_length)

lemma pool_rep_inv: "pool_rep pl fl \<Longrightarrow> pool_inv pl"
  by (simp add: pool_inv_def pool_rep_free_list)

lemma pool_invD: "pool_inv pl \<Longrightarrow> pool_rep pl (free_list pl)"
  by (simp add: pool_inv_def)

section \<open>Operations\<close>

lemma free_chain_new:
  "i \<le> n \<Longrightarrow>
   free_chain (map (\<lambda>i. FreeSlot (if Suc i < n then Some (Suc i) else None)) [0..<n])
     (if i < n then Some i else None) [i..<n]"
proof (induction "n - i" arbitrary: i)
  case (Suc k)
  then have i: "i < n" and k: "k = n - (i + 1)" by auto
  from Suc.hyps(1) [OF k] i show ?case
    by (auto simp: upt_rec [of i n] slotNext_def split: if_splits)
qed simp

lemma newPool_rep: "pool_rep (newPool n) [0..<n]"
  using free_chain_new [of 0 n] by (auto simp: pool_rep_def newPool_def)

lemma acquire_exhausted: "pool_rep pl [] \<Longrightarrow> acquire pl = Some (None, pl)"
  by (simp add: acquire_def pool_rep_def)

lemma acquire_next:
  assumes "pool_rep pl (p # fl)"
  obtains n where
    "acquire pl = Some (Some p, pl\<lparr>free := n, inUse := inUse pl + 1\<rparr>)"
    "pool_rep (pl\<lparr>free := n, inUse := inUse pl + 1\<rparr>) fl"
    "p < length (storage pl)" "p \<notin> set fl" "deref (storage pl) p = None"
proof -
  from assms obtain n where n: "slotNext (storage pl) p = Some n" "free pl = Some p"
      "free_chain (storage pl) n fl"
    by (auto simp: pool_rep_def)
  then have "acquire pl = Some (Some p, pl\<lparr>free := n, inUse := inUse pl + 1\<rparr>)"
    by (simp add: acquire_def)
  with assms n show ?thesis
    by (intro that [of n]) (auto simp: pool_rep_def slotNext_Some_iff deref_def nth_opt_def)
qed

lemma release_rep:
  assumes "pool_rep pl fl" and "p < length (storage pl)" and "p \<notin> set fl"
    and "0 < inUse pl"
  shows "release pl (Some p) =
           Some (pl\<lparr>storage := (storage pl)[p := FreeSlot (free pl)], free := Some p,
                    inUse := inUse pl - 1\<rparr>)"
    and "pool_rep (pl\<lparr>storage := (storage pl)[p := FreeSlot (free pl)], free := Some p,
                    inUse := inUse pl - 1\<rparr>) (p # fl)"
  using assms
  by (auto simp: release_def pool_rep_def slotNext_Some_iff free_chain_update)

lemma pool_rep_update:
  assumes "pool_rep pl fl" and "p \<notin> set fl"
  shows "pool_rep (pl\<lparr>storage := (storage pl)[p := sl]\<rparr>) fl"
  using assms by (simp add: pool_rep_def free_chain_update)

section \<open>The allocator interface\<close>

fun alloc_many :: "('p \<Rightarrow> (ptr option \<times> 'p) option) \<Rightarrow> nat \<Rightarrow> 'p \<Rightarrow> (ptr option list \<times> 'p) option" where
  "alloc_many alloc 0 pl = Some ([], pl)"
| "alloc_many alloc (Suc k) pl = do {
     (r, pl') \<leftarrow> alloc pl;
     (rs, pl'') \<leftarrow> alloc_many alloc k pl';
     Some (r # rs, pl'')
   }"

locale slot_allocator =
  fixes alloc :: "'p \<Rightarrow> (ptr option \<times> 'p) option"
    and dealloc :: "'p \<Rightarrow> ptr option \<Rightarrow> 'p option"
    and inv :: "'p \<Rightarrow> bool"
    and frees :: "'p \<Rightarrow> ptr list"
    and slots :: "'p \<Rightarrow> nat"
  assumes alloc_empty: "inv pl \<Longrightarrow> frees pl = [] \<Longrightarrow> alloc pl = Some (None, pl)"
    and alloc_next: "inv pl \<Longrightarrow> frees pl = p # fl \<Longrightarrow>
          \<exists>pl'. alloc pl = Some (Some p, pl') \<and> inv pl' \<and> frees pl' = fl \<and> slots pl' = slots pl"
    and dealloc_slot: "inv pl \<Longrightarrow> p < slots pl \<Longrightarrow> p \<notin> set (frees pl) \<Longrightarrow>
          \<exists>pl'. dealloc pl (Some p) = Some pl' \<and> inv pl' \<and> frees pl' = p # frees pl \<and>
                slots pl' = slots pl"
    and frees_wf: "inv pl \<Longrightarrow> distinct (frees pl) \<and> (\<forall>p\<in>set (frees pl). p < slots pl)"
begin

lemma alloc_many_frees:
  "inv pl \<Longrightarrow> frees pl = ps @ fl \<Longrightarrow>
   \<exists>pl'. alloc_many alloc (length ps) pl = Some (map Some ps, pl') \<and> inv pl' \<and> frees pl' = fl"
proof (induction ps arbitrary: pl)
  case (Cons p ps)
  then obtain pl' where "alloc pl = Some (Some p, pl')" "inv pl'" "frees pl' = ps @ fl"
    using alloc_next [of pl p "ps @ fl"] by auto
  with Cons.IH [of pl'] show ?case by auto
qed auto

lemma alloc_all_distinct:
  assumes "inv pl"
  shows "\<exists>ps pl'. alloc_many alloc (length (frees pl)) pl = Some (map Some ps, pl') \<and>
           distinct ps \<and> (\<forall>p\<in>set ps. p < slots pl) \<and> alloc pl' = Some (None, pl')"
  using alloc_many_frees [of pl "frees pl" "[]"] assms frees_wf [of pl] alloc_empty by auto

lemma dealloc_alloc:
  assumes "inv pl" "p < slots pl" "p \<notin> set (frees pl)"
  shows "\<exists>pl' pl''. dealloc pl (Some p) = Some pl' \<and> alloc pl' = Some (Some p, pl'') \<and>
           frees pl'' = frees pl"
proof -
  obtain pl' where pl': "dealloc pl (Some p) = Some pl'" "inv pl'" "frees pl' = p # frees pl"
    using dealloc_slot [OF assms] by auto
  show ?thesis using alloc_next [OF pl'(2,3)] pl'(1) by auto
qed

end

lemma pool_inUse_pos:
  assumes "pool_rep pl fl" "p < length (storage pl)" "p \<notin> set fl"
  shows "0 < inUse pl"
proof -
  have "set (p # fl) \<subseteq> {..<length (storage pl)}"
    using assms free_chain_not_live [of "storage pl" "free pl" fl] by (auto simp: pool_rep_def)
  then have "card (set (p # fl)) \<le> length (storage pl)"
    using card_mono [of "{..<length (storage pl)}" "set (p # fl)"] by simp
  with assms show ?thesis by (simp add: pool_rep_def distinct_card)
qed

interpretation op: slot_allocator acquire release pool_inv free_list "\<lambda>pl. length (storage pl)"
proof (unfold_locales, goal_cases)
  case (1 pl)
  then show ?case using acquire_exhausted [of pl] by (simp add: pool_inv_def)
next
  case (2 pl p fl)
  then have "pool_rep pl (p # fl)" by (simp add: pool_inv_def)
  then show ?case
    by (rule acquire_next) (auto intro: pool_rep_inv pool_rep_free_list)
next
  case (3 pl p)
  note rep = pool_invD [OF 3(1)]
  from release_rep [OF rep 3(2,3) pool_inUse_pos [OF rep 3(2,3)]]
  show ?case by (auto intro: pool_rep_inv dest: pool_rep_free_list)
next
  case (4 pl)
  then show ?case
    using free_chain_not_live [of "storage pl" "free pl" "free_list pl"]
    by (auto simp: pool_inv_def pool_rep_def)
qed

end
