(* ===== verification/Price_Level.thy ===== *)
theory Price_Level
  imports Object_Pool
begin

text \<open>
  \<^verbatim>\<open>engine/price_level.hpp\<close>: one price level, an intrusive doubly linked FIFO whose nodes are the
  orders themselves. The operations run on the pool's store, because they rewrite the links inside
  the orders; \<open>ref\<close> is the address of the level (the C++ \<^verbatim>\<open>this\<close>).

  \<open>level_rep st ref lv ps\<close> says that the level \<open>lv\<close> holds exactly the orders \<open>ps\<close>, in FIFO order.
\<close>

section \<open>The level and its operations\<close>

record PriceLevel =
  lvl_head :: "ptr option"
  lvl_tail :: "ptr option"
  lvl_price :: Price
  lvl_totalQty :: Quantity
  lvl_count :: nat

definition initLevel :: "Price \<Rightarrow> PriceLevel" where
  "initLevel p = \<lparr>lvl_head = None, lvl_tail = None, lvl_price = p, lvl_totalQty = 0, lvl_count = 0\<rparr>"

definition lvl_empty :: "PriceLevel \<Rightarrow> bool" where
  "lvl_empty lv \<longleftrightarrow> lvl_head lv = None"

definition enqueue :: "level_ref \<Rightarrow> Order store \<Rightarrow> PriceLevel \<Rightarrow> ptr \<Rightarrow> (Order store \<times> PriceLevel) option" where
  "enqueue ref st lv p = do {
     st1 \<leftarrow> modifyObj st p (\<lambda>x. x\<lparr>o_prev := lvl_tail lv, o_next := None, o_level := Some ref\<rparr>);
     (st2, lv1) \<leftarrow>
       (case lvl_tail lv of
          Some t \<Rightarrow> do { st' \<leftarrow> modifyObj st1 t (\<lambda>x. x\<lparr>o_next := Some p\<rparr>); Some (st', lv) }
        | None \<Rightarrow> Some (st1, lv\<lparr>lvl_head := Some p\<rparr>));
     x \<leftarrow> deref st2 p;
     Some (st2, lv1\<lparr>lvl_tail := Some p,
                    lvl_totalQty := wrap64 (lvl_totalQty lv1 + o_remaining x),
                    lvl_count := lvl_count lv1 + 1\<rparr>)
   }"

definition unlink :: "Order store \<Rightarrow> PriceLevel \<Rightarrow> ptr \<Rightarrow> (Order store \<times> PriceLevel) option" where
  "unlink st lv p = do {
     x \<leftarrow> deref st p;
     (st1, lv1) \<leftarrow>
       (case o_prev x of
          Some q \<Rightarrow> do { st' \<leftarrow> modifyObj st q (\<lambda>y. y\<lparr>o_next := o_next x\<rparr>); Some (st', lv) }
        | None \<Rightarrow> Some (st, lv\<lparr>lvl_head := o_next x\<rparr>));
     x1 \<leftarrow> deref st1 p;
     (st2, lv2) \<leftarrow>
       (case o_next x1 of
          Some q \<Rightarrow> do { st' \<leftarrow> modifyObj st1 q (\<lambda>y. y\<lparr>o_prev := o_prev x1\<rparr>); Some (st', lv1) }
        | None \<Rightarrow> Some (st1, lv1\<lparr>lvl_tail := o_prev x1\<rparr>));
     x2 \<leftarrow> deref st2 p;
     st3 \<leftarrow> modifyObj st2 p (\<lambda>y. y\<lparr>o_prev := None, o_next := None, o_level := None\<rparr>);
     Some (st3, lv2\<lparr>lvl_totalQty := wrap64 (lvl_totalQty lv2 - o_remaining x2),
                    lvl_count := lvl_count lv2 - 1\<rparr>)
   }"

definition reduceQuantity :: "PriceLevel \<Rightarrow> Quantity \<Rightarrow> PriceLevel" where
  "reduceQuantity lv by = lv\<lparr>lvl_totalQty := wrap64 (lvl_totalQty lv - by)\<rparr>"

section \<open>Linked segments\<close>

definition first_of :: "ptr list \<Rightarrow> ptr option \<Rightarrow> ptr option" where
  "first_of ps nx = (case ps of [] \<Rightarrow> nx | p # _ \<Rightarrow> Some p)"

definition last_of :: "ptr option \<Rightarrow> ptr list \<Rightarrow> ptr option" where
  "last_of pr ps = (if ps = [] then pr else Some (last ps))"

lemma first_of_simps [simp]:
  "first_of [] nx = nx" "first_of (p # ps) nx = Some p"
  "first_of (xs @ ys) nx = first_of xs (first_of ys nx)"
  by (auto simp: first_of_def split: list.splits)

lemma last_of_simps [simp]:
  "last_of pr [] = pr" "last_of pr (p # ps) = last_of (Some p) ps"
  "last_of pr (xs @ ys) = last_of (last_of pr xs) ys"
  by (auto simp: last_of_def)

fun dseg :: "Order store \<Rightarrow> level_ref \<Rightarrow> ptr option \<Rightarrow> ptr list \<Rightarrow> ptr option \<Rightarrow> bool" where
  "dseg st ref pr [] nx \<longleftrightarrow> True"
| "dseg st ref pr (p # ps) nx \<longleftrightarrow>
     (\<exists>x. deref st p = Some x \<and> o_prev x = pr \<and> o_next x = first_of ps nx \<and> o_level x = Some ref) \<and>
     dseg st ref (Some p) ps nx"

lemma dseg_append:
  "dseg st ref pr (xs @ ys) nx \<longleftrightarrow>
     dseg st ref pr xs (first_of ys nx) \<and> dseg st ref (last_of pr xs) ys nx"
  by (induction xs arbitrary: pr) auto

lemma dseg_cong:
  "(\<And>q. q \<in> set ps \<Longrightarrow> deref st' q = deref st q) \<Longrightarrow> dseg st' ref pr ps nx = dseg st ref pr ps nx"
  by (induction ps arbitrary: pr) auto

lemma dseg_update [simp]: "q \<notin> set ps \<Longrightarrow> q < length st \<Longrightarrow> dseg (st[q := sl]) ref pr ps nx = dseg st ref pr ps nx"
  by (rule dseg_cong) (auto simp: deref_update)

lemma dseg_level: "dseg st ref pr ps nx \<Longrightarrow> p \<in> set ps \<Longrightarrow> \<exists>x. deref st p = Some x \<and> o_level x = Some ref"
  by (induction ps arbitrary: pr) auto

lemma dseg_set_next:
  assumes "dseg st ref pr (xs @ [a]) nx" "a \<notin> set xs" "deref st a = Some x"
  shows "dseg (st[a := Live (x\<lparr>o_next := nx'\<rparr>)]) ref pr (xs @ [a]) nx'"
  using assms deref_less [OF assms(3)] by (auto simp: dseg_append)

lemma dseg_set_prev:
  assumes "dseg st ref pr (a # ys) nx" "a \<notin> set ys" "deref st a = Some x"
  shows "dseg (st[a := Live (x\<lparr>o_prev := pr'\<rparr>)]) ref pr' (a # ys) nx"
  using assms deref_less [OF assms(3)] by auto

section \<open>What an operation leaves alone\<close>

text \<open>
  The payload of an order is everything but its links. An operation on a level rewrites links of
  that level's orders only.
\<close>

definition payload :: "Order \<Rightarrow> Order" where
  "payload x = x\<lparr>o_prev := None, o_next := None, o_level := None\<rparr>"

definition relinked :: "ptr set \<Rightarrow> Order store \<Rightarrow> Order store \<Rightarrow> bool" where
  "relinked S st st' \<longleftrightarrow>
     length st' = length st \<and> (\<forall>q. q \<notin> S \<longrightarrow> st' ! q = st ! q) \<and>
     (\<forall>q. map_option payload (deref st' q) = map_option payload (deref st q))"

lemma relinked_refl [simp]: "relinked S st st"
  by (simp add: relinked_def)

lemma relinked_update:
  assumes "relinked S st st1" "deref st1 p = Some x" "p \<in> S" "payload y = payload x"
  shows "relinked S st (st1[p := Live y])"
proof -
  have "map_option payload (deref st1 p) = map_option payload (deref st p)"
    using assms(1) unfolding relinked_def by blast
  then have "map_option payload (deref st p) = Some (payload x)"
    using assms(2) by simp
  with assms deref_less [OF assms(2)] show ?thesis
    by (auto simp: relinked_def nth_list_update)
qed

lemma relinked_trans: "relinked S st st1 \<Longrightarrow> relinked S st1 st2 \<Longrightarrow> relinked S st st2"
  by (simp add: relinked_def)

lemma relinked_deref_other: "relinked S st st' \<Longrightarrow> q \<notin> S \<Longrightarrow> deref st' q = deref st q"
  by (simp add: relinked_def deref_def nth_opt_def)

lemma payload_simps [simp]:
  "payload (x\<lparr>o_prev := a\<rparr>) = payload x"
  "payload (x\<lparr>o_next := b\<rparr>) = payload x"
  "payload (x\<lparr>o_level := c\<rparr>) = payload x"
  by (simp_all add: payload_def)

lemma payload_eqD:
  assumes "payload x = payload y"
  shows "o_remaining x = o_remaining y" "o_participant x = o_participant y"
    "o_price x = o_price y" "o_id x = o_id y" "o_side x = o_side y"
    "o_quantity x = o_quantity y" "o_seq x = o_seq y"
  using assms by (cases x; cases y; simp add: payload_def)+

lemma relinked_derefE:
  assumes "relinked S st st'" "deref st' q = Some y"
  obtains x where "deref st q = Some x" "payload y = payload x"
proof -
  have "map_option payload (deref st' q) = map_option payload (deref st q)"
    using assms(1) by (simp add: relinked_def)
  with assms(2) that show ?thesis by (cases "deref st q") auto
qed

section \<open>Level representation\<close>

definition rem_at :: "Order store \<Rightarrow> ptr \<Rightarrow> Quantity" where
  "rem_at st p = (case deref st p of Some x \<Rightarrow> o_remaining x | None \<Rightarrow> 0)"

lemma relinked_rem_at:
  assumes "relinked S st st'"
  shows "rem_at st' q = rem_at st q"
proof -
  have "map_option payload (deref st' q) = map_option payload (deref st q)"
    using assms by (simp add: relinked_def)
  then show ?thesis
    by (cases "deref st q"; cases "deref st' q") (auto simp: rem_at_def dest: payload_eqD)
qed

definition level_rep :: "Order store \<Rightarrow> level_ref \<Rightarrow> PriceLevel \<Rightarrow> ptr list \<Rightarrow> bool" where
  "level_rep st ref lv ps \<longleftrightarrow>
     dseg st ref None ps None \<and> distinct ps \<and>
     lvl_head lv = first_of ps None \<and> lvl_tail lv = last_of None ps \<and>
     lvl_totalQty lv = wrap64 (\<Sum>p\<leftarrow>ps. rem_at st p) \<and> lvl_count lv = length ps"

lemma level_rep_empty: "level_rep st ref lv ps \<Longrightarrow> lvl_empty lv \<longleftrightarrow> ps = []"
  by (cases ps) (auto simp: level_rep_def lvl_empty_def)

lemma level_rep_init [simp]: "level_rep st ref (initLevel p) []"
  by (simp add: level_rep_def initLevel_def)

lemma level_rep_level:
  "level_rep st ref lv ps \<Longrightarrow> p \<in> set ps \<Longrightarrow> \<exists>x. deref st p = Some x \<and> o_level x = Some ref"
  unfolding level_rep_def by (blast dest: dseg_level)

lemma level_rep_cong:
  assumes "\<And>q. q \<in> set ps \<Longrightarrow> deref st' q = deref st q"
  shows "level_rep st' ref lv ps = level_rep st ref lv ps"
proof -
  have "map (rem_at st') ps = map (rem_at st) ps"
    using assms by (simp add: rem_at_def)
  moreover have "dseg st' ref None ps None = dseg st ref None ps None"
    using assms by (rule dseg_cong)
  ultimately show ?thesis by (simp only: level_rep_def)
qed

section \<open>Correctness of the operations\<close>

lemma enqueue_rep:
  assumes rep: "level_rep st ref lv ps" and x: "deref st p = Some x" and p: "p \<notin> set ps"
  obtains st' lv' where "enqueue ref st lv p = Some (st', lv')"
    "level_rep st' ref lv' (ps @ [p])" "relinked (insert p (set ps)) st st'"
    "lvl_price lv' = lvl_price lv"
proof -
  define S where "S = insert p (set ps)"
  define x1 where "x1 = x\<lparr>o_prev := lvl_tail lv, o_next := None, o_level := Some ref\<rparr>"
  define st1 where "st1 = st[p := Live x1]"
  note less = deref_less [OF x]
  have m1: "modifyObj st p (\<lambda>x. x\<lparr>o_prev := lvl_tail lv, o_next := None, o_level := Some ref\<rparr>) = Some st1"
    by (simp add: modifyObj_Some [OF x] st1_def x1_def)
  have p1: "deref st1 p = Some x1" using less by (simp add: st1_def)
  have rl1: "relinked S st st1"
    unfolding st1_def by (rule relinked_update [OF relinked_refl x]) (simp_all add: S_def x1_def)
  have remx: "o_remaining x1 = rem_at st p" by (simp add: x1_def rem_at_def x)
  show ?thesis
  proof (cases ps rule: rev_cases)
    case Nil
    then have t: "lvl_tail lv = None" using rep by (simp add: level_rep_def)
    show ?thesis
    proof (rule that)
      show "enqueue ref st lv p =
        Some (st1, lv\<lparr>lvl_head := Some p, lvl_tail := Some p,
          lvl_totalQty := wrap64 (lvl_totalQty lv + o_remaining x1), lvl_count := lvl_count lv + 1\<rparr>)"
        unfolding enqueue_def m1 using p1 by (simp add: t)
    qed (use rep Nil p1 t rl1 in \<open>auto simp: level_rep_def rem_at_def x1_def S_def\<close>)
  next
    case (snoc xs a)
    have a: "lvl_tail lv = Some a" "a \<noteq> p" "a \<notin> set xs" "a \<in> S"
      using rep snoc p by (auto simp: level_rep_def S_def)
    have seg1: "dseg st1 ref None (xs @ [a]) None"
      using rep snoc p less by (simp add: level_rep_def st1_def)
    then obtain y where y: "deref st1 a = Some y" by (auto simp: dseg_append)
    define st2 where "st2 = st1[a := Live (y\<lparr>o_next := Some p\<rparr>)]"
    have rl2: "relinked S st st2"
      unfolding st2_def by (rule relinked_update [OF rl1 y]) (simp_all add: a)
    have p2: "deref st2 p = Some x1"
      using a p1 deref_less [OF y] by (simp add: st2_def)
    have "dseg st2 ref None (xs @ [a]) (Some p)"
      unfolding st2_def by (rule dseg_set_next [OF seg1 a(3) y])
    then have seg2: "dseg st2 ref None (ps @ [p]) None"
      using p2 a by (simp add: snoc dseg_append x1_def)
    show ?thesis
    proof (rule that)
      show "enqueue ref st lv p =
        Some (st2, lv\<lparr>lvl_tail := Some p,
          lvl_totalQty := wrap64 (lvl_totalQty lv + o_remaining x1), lvl_count := lvl_count lv + 1\<rparr>)"
        unfolding enqueue_def m1
        using p2 by (simp add: a modifyObj_Some [OF y] st2_def [symmetric])
      show "level_rep st2 ref (lv\<lparr>lvl_tail := Some p,
          lvl_totalQty := wrap64 (lvl_totalQty lv + o_remaining x1), lvl_count := lvl_count lv + 1\<rparr>) (ps @ [p])"
        using rep p snoc seg2 by (auto simp: level_rep_def relinked_rem_at [OF rl2] remx add.assoc)
    qed (use rl2 in \<open>simp_all add: S_def\<close>)
  qed
qed

text \<open>Unlinking from \<open>xs @ p # ys\<close>: the two neighbours of \<open>p\<close> are joined one after the other.\<close>

lemma unlink_prev_side:
  assumes seg: "dseg st ref None xs (Some p)" "dseg st ref (Some p) ys None"
    and x: "deref st p = Some x" "o_prev x = last_of None xs"
    and dist: "distinct (xs @ p # ys)"
  obtains st1 where
    "(case o_prev x of
        Some q \<Rightarrow> do { st' \<leftarrow> modifyObj st q (\<lambda>y. y\<lparr>o_next := nx\<rparr>); Some (st', lv) }
      | None \<Rightarrow> Some (st, lv\<lparr>lvl_head := nx\<rparr>)) =
        Some (st1, if xs = [] then lv\<lparr>lvl_head := nx\<rparr> else lv)"
    "dseg st1 ref None xs nx" "dseg st1 ref (Some p) ys None" "deref st1 p = Some x"
    "relinked (set (xs @ p # ys)) st st1"
proof (cases xs rule: rev_cases)
  case Nil
  then show ?thesis using that [of st] seg x by simp
next
  case (snoc zs a)
  obtain y where y: "deref st a = Some y" using seg(1) snoc by (auto simp: dseg_append)
  have a: "a \<noteq> p" "a \<notin> set zs" "a \<notin> set ys" using dist snoc by auto
  show ?thesis
  proof (rule that [of "st[a := Live (y\<lparr>o_next := nx\<rparr>)]"])
    show "dseg (st[a := Live (y\<lparr>o_next := nx\<rparr>)]) ref None xs nx"
      unfolding snoc using seg(1) snoc by (intro dseg_set_next [OF _ a(2) y]) simp
    show "relinked (set (xs @ p # ys)) st (st[a := Live (y\<lparr>o_next := nx\<rparr>)])"
      by (rule relinked_update [OF relinked_refl y]) (simp_all add: snoc)
  qed (use seg x a deref_less [OF y] in \<open>simp_all add: snoc modifyObj_Some [OF y]\<close>)
qed

lemma unlink_next_side:
  assumes seg: "dseg st ref None xs (o_next x)" "dseg st ref (Some p) ys None"
    and x: "deref st p = Some x" "o_next x = first_of ys None"
    and dist: "distinct (xs @ p # ys)"
  obtains st1 where
    "(case o_next x of
        Some q \<Rightarrow> do { st' \<leftarrow> modifyObj st q (\<lambda>y. y\<lparr>o_prev := pr\<rparr>); Some (st', lv) }
      | None \<Rightarrow> Some (st, lv\<lparr>lvl_tail := pr\<rparr>)) =
        Some (st1, if ys = [] then lv\<lparr>lvl_tail := pr\<rparr> else lv)"
    "dseg st1 ref None xs (o_next x)" "dseg st1 ref pr ys None" "deref st1 p = Some x"
    "relinked (set (xs @ p # ys)) st st1"
proof (cases ys)
  case Nil
  then show ?thesis using that [of st] seg x by simp
next
  case (Cons b zs)
  obtain y where y: "deref st b = Some y" using seg(2) Cons by auto
  have b: "b \<noteq> p" "b \<notin> set zs" "b \<notin> set xs" using dist Cons by auto
  show ?thesis
  proof (rule that [of "st[b := Live (y\<lparr>o_prev := pr\<rparr>)]"])
    show "dseg (st[b := Live (y\<lparr>o_prev := pr\<rparr>)]) ref pr ys None"
      unfolding Cons by (rule dseg_set_prev [OF seg(2) [unfolded Cons] b(2) y])
    show "relinked (set (xs @ p # ys)) st (st[b := Live (y\<lparr>o_prev := pr\<rparr>)])"
      by (rule relinked_update [OF relinked_refl y]) (simp_all add: Cons)
  qed (use seg x b deref_less [OF y] in \<open>simp_all add: Cons modifyObj_Some [OF y]\<close>)
qed

lemma unlink_rep:
  assumes rep: "level_rep st ref lv ps" and p: "p \<in> set ps"
  obtains st' lv' x where "unlink st lv p = Some (st', lv')"
    "level_rep st' ref lv' (remove1 p ps)" "relinked (set ps) st st'"
    "lvl_price lv' = lvl_price lv" "deref st' p = Some x" "o_level x = None"
proof -
  obtain xs ys where ps: "ps = xs @ p # ys" using p by (meson split_list)
  have dist: "distinct (xs @ p # ys)" using rep ps by (simp add: level_rep_def)
  have seg: "dseg st ref None xs (Some p)" "dseg st ref (Some p) ys None"
    using rep ps by (auto simp: level_rep_def dseg_append)
  obtain x where x: "deref st p = Some x" "o_prev x = last_of None xs" "o_next x = first_of ys None"
    using rep ps by (auto simp: level_rep_def dseg_append)
  define lv1 where "lv1 = (if xs = [] then lv\<lparr>lvl_head := o_next x\<rparr> else lv)"
  define lv2 where "lv2 = (if ys = [] then lv1\<lparr>lvl_tail := o_prev x\<rparr> else lv1)"
  define x3 where "x3 = x\<lparr>o_prev := None, o_next := None, o_level := None\<rparr>"
  define lv3 where "lv3 = lv2\<lparr>lvl_totalQty := wrap64 (lvl_totalQty lv2 - o_remaining x),
                    lvl_count := lvl_count lv2 - 1\<rparr>"
  note lvs = lv3_def lv2_def lv1_def
  obtain st1 where st1:
    "(case o_prev x of
        Some q \<Rightarrow> do { st' \<leftarrow> modifyObj st q (\<lambda>y. y\<lparr>o_next := o_next x\<rparr>); Some (st', lv) }
      | None \<Rightarrow> Some (st, lv\<lparr>lvl_head := o_next x\<rparr>)) = Some (st1, lv1)"
    "dseg st1 ref None xs (o_next x)" "dseg st1 ref (Some p) ys None" "deref st1 p = Some x"
    "relinked (set ps) st st1"
    unfolding lv1_def ps
    by (rule unlink_prev_side [where nx = "o_next x", OF seg x(1,2) dist])
  obtain st2 where st2:
    "(case o_next x of
        Some q \<Rightarrow> do { st' \<leftarrow> modifyObj st1 q (\<lambda>y. y\<lparr>o_prev := o_prev x\<rparr>); Some (st', lv1) }
      | None \<Rightarrow> Some (st1, lv1\<lparr>lvl_tail := o_prev x\<rparr>)) = Some (st2, lv2)"
    "dseg st2 ref None xs (o_next x)" "dseg st2 ref (o_prev x) ys None" "deref st2 p = Some x"
    "relinked (set ps) st1 st2"
    unfolding lv2_def ps
    by (rule unlink_next_side [where pr = "o_prev x", OF st1(2-4) x(3) dist])
  define st3 where "st3 = st2[p := Live x3]"
  have step3: "modifyObj st2 p (\<lambda>y. y\<lparr>o_prev := None, o_next := None, o_level := None\<rparr>) = Some st3"
    by (simp add: modifyObj_Some [OF st2(4)] st3_def x3_def)
  have rl3: "relinked (set ps) st st3"
    unfolding st3_def
    by (rule relinked_update [OF relinked_trans [OF st1(5) st2(5)] st2(4)]) (simp_all add: ps x3_def)
  have rm: "remove1 p ps = xs @ ys" using dist ps by (simp add: remove1_append_mid)
  have seg3: "dseg st3 ref None (xs @ ys) None"
    unfolding st3_def using st2 dist x deref_less [OF st2(4)] by (simp add: dseg_append)
  have ends: "lvl_head lv3 = first_of (xs @ ys) None" "lvl_tail lv3 = last_of None (xs @ ys)"
    using rep x by (cases xs; cases ys; auto simp: lvs level_rep_def ps)+
  have qty: "lvl_totalQty lv3 = wrap64 (\<Sum>q\<leftarrow>xs @ ys. rem_at st3 q)" "lvl_count lv3 = length (xs @ ys)"
    using rep x by (simp_all add: lvs level_rep_def ps rem_at_def [of st p] relinked_rem_at [OF rl3]
        algebra_simps)
  show ?thesis
  proof (rule that)
    show "unlink st lv p = Some (st3, lv3)"
      unfolding unlink_def x(1) using st1 st2 step3 by (simp add: lv3_def)
    show "level_rep st3 ref lv3 (remove1 p ps)"
      using dist seg3 ends qty by (simp add: level_rep_def rm)
    show "deref st3 p = Some x3" using deref_less [OF st2(4)] by (simp add: st3_def)
  qed (simp_all add: rl3 lvs x3_def)
qed

section \<open>Walking a level\<close>

text \<open>The walk \<^verbatim>\<open>for (o = head(); o != nullptr; o = o->next)\<close> visits the orders of the level.\<close>

fun chain_walk :: "Order store \<Rightarrow> nat \<Rightarrow> ptr option \<Rightarrow> ptr list" where
  "chain_walk st 0 c = []"
| "chain_walk st (Suc k) None = []"
| "chain_walk st (Suc k) (Some p) =
     p # (case deref st p of None \<Rightarrow> [] | Some x \<Rightarrow> chain_walk st k (o_next x))"

definition level_ptrs :: "Order store \<Rightarrow> PriceLevel \<Rightarrow> ptr list" where
  "level_ptrs st lv = chain_walk st (length st) (lvl_head lv)"

lemma chain_walk_dseg:
  "dseg st ref pr ps None \<Longrightarrow> length ps \<le> k \<Longrightarrow> chain_walk st k (first_of ps None) = ps"
proof (induction ps arbitrary: pr k)
  case Nil
  then show ?case by (cases k) auto
next
  case (Cons p ps)
  then show ?case by (cases k) auto
qed

lemma level_rep_bounded:
  assumes "level_rep st ref lv ps"
  shows "set ps \<subseteq> {..<length st}" "length ps \<le> length st"
proof -
  show 1: "set ps \<subseteq> {..<length st}"
    using level_rep_level [OF assms] by (auto dest: deref_less)
  show "length ps \<le> length st"
    using card_mono [OF _ 1] assms by (simp add: level_rep_def distinct_card)
qed

lemma level_ptrs_rep: "level_rep st ref lv ps \<Longrightarrow> level_ptrs st lv = ps"
  using chain_walk_dseg [of st ref None ps "length st"] level_rep_bounded [of st ref lv ps]
  by (simp add: level_ptrs_def level_rep_def)

end
