(* ===== verification/Level_Map.thy ===== *)
theory Level_Map
  imports Price_Level
begin

text \<open>
  \<^verbatim>\<open>book/level_map.hpp\<close>: the price levels of one side of the book, in an array indexed by price, with
  a two-level occupancy bitset (\<^verbatim>\<open>l0_\<close>: a bit per slot, \<^verbatim>\<open>l1_\<close>: a bit per word of \<^verbatim>\<open>l0_\<close>) and the
  tracked best price. Bit words are \<open>64 word\<close>s; indices are natural numbers and \<^verbatim>\<open>kNotFound\<close> is the
  largest \<^verbatim>\<open>std::size_t\<close>.
\<close>

section \<open>The structure\<close>

record LevelMap =
  lm_side :: Side
  lm_minPrice :: Price
  lm_maxPrice :: Price
  lm_tick :: Price
  lm_numSlots :: nat
  lm_levels :: "PriceLevel list"
  lm_l0Words :: nat
  lm_l1Words :: nat
  lm_l0 :: "64 word list"
  lm_l1 :: "64 word list"
  lm_best :: Price

definition kBitsPerWord :: nat where
  "kBitsPerWord = 64"

definition kNotFound :: nat where
  "kNotFound = 2 ^ 64 - 1"

definition to_size :: "int \<Rightarrow> nat" where
  "to_size x = nat (x mod 2 ^ 64)"

definition newLevelMap :: "Side \<Rightarrow> Price \<Rightarrow> Price \<Rightarrow> Price \<Rightarrow> LevelMap" where
  "newLevelMap side minPrice maxPrice tick =
     (let numSlots = to_size ((maxPrice - minPrice) sdiv tick) + 1;
          l0Words = (numSlots + kBitsPerWord - 1) div kBitsPerWord;
          l1Words = (l0Words + kBitsPerWord - 1) div kBitsPerWord
      in \<lparr>lm_side = side, lm_minPrice = minPrice, lm_maxPrice = maxPrice, lm_tick = tick,
          lm_numSlots = numSlots,
          lm_levels = map (\<lambda>i. initLevel (minPrice + int i * tick)) [0..<numSlots],
          lm_l0Words = l0Words, lm_l1Words = l1Words,
          lm_l0 = replicate l0Words 0, lm_l1 = replicate l1Words 0,
          lm_best = emptySentinel side\<rparr>)"

definition inRange :: "LevelMap \<Rightarrow> Price \<Rightarrow> bool" where
  "inRange lm p \<longleftrightarrow> p \<ge> lm_minPrice lm \<and> p \<le> lm_maxPrice lm"

definition hasBest :: "LevelMap \<Rightarrow> bool" where
  "hasBest lm \<longleftrightarrow> lm_best lm \<noteq> emptySentinel (lm_side lm)"

definition index :: "LevelMap \<Rightarrow> Price \<Rightarrow> nat" where
  "index lm p = to_size ((p - lm_minPrice lm) sdiv lm_tick lm)"

text \<open>\<^verbatim>\<open>levelAt\<close> returns a pointer to a level: its slot, or \<^verbatim>\<open>nullptr\<close>.\<close>

definition levelAt :: "LevelMap \<Rightarrow> Price \<Rightarrow> nat option" where
  "levelAt lm p = (if \<not> inRange lm p then None else Some (index lm p))"

definition isBetter :: "LevelMap \<Rightarrow> Price \<Rightarrow> Price \<Rightarrow> bool" where
  "isBetter lm a b \<longleftrightarrow> (if lm_side lm = Buy then a > b else a < b)"

definition occupiedBit :: "LevelMap \<Rightarrow> nat \<Rightarrow> bool" where
  "occupiedBit lm i \<longleftrightarrow> lm_l0 lm ! (i div kBitsPerWord) AND push_bit (i mod kBitsPerWord) 1 \<noteq> 0"

definition setOccupied :: "LevelMap \<Rightarrow> nat \<Rightarrow> LevelMap option" where
  "setOccupied lm i = do {
     let w = i div kBitsPerWord;
     x \<leftarrow> nth_opt (lm_l0 lm) w;
     l0 \<leftarrow> upd_opt (lm_l0 lm) w (x OR push_bit (i mod kBitsPerWord) 1);
     y \<leftarrow> nth_opt (lm_l1 lm) (w div kBitsPerWord);
     l1 \<leftarrow> upd_opt (lm_l1 lm) (w div kBitsPerWord) (y OR push_bit (w mod kBitsPerWord) 1);
     Some (lm\<lparr>lm_l0 := l0, lm_l1 := l1\<rparr>)
   }"

definition clearOccupied :: "LevelMap \<Rightarrow> nat \<Rightarrow> LevelMap option" where
  "clearOccupied lm i = do {
     let w = i div kBitsPerWord;
     x \<leftarrow> nth_opt (lm_l0 lm) w;
     let x' = x AND NOT (push_bit (i mod kBitsPerWord) 1);
     l0 \<leftarrow> upd_opt (lm_l0 lm) w x';
     if x' = 0 then do {
       y \<leftarrow> nth_opt (lm_l1 lm) (w div kBitsPerWord);
       l1 \<leftarrow> upd_opt (lm_l1 lm) (w div kBitsPerWord) (y AND NOT (push_bit (w mod kBitsPerWord) 1));
       Some (lm\<lparr>lm_l0 := l0, lm_l1 := l1\<rparr>)
     }
     else Some (lm\<lparr>lm_l0 := l0\<rparr>)
   }"

section \<open>Searching the bitset\<close>

definition countl_zero :: "64 word \<Rightarrow> nat" where
  "countl_zero x = length (takeWhile (\<lambda>k. \<not> bit x (63 - k)) [0..<64])"

definition countr_zero :: "64 word \<Rightarrow> nat" where
  "countr_zero x = length (takeWhile (\<lambda>k. \<not> bit x k) [0..<64])"

fun scanBelow :: "LevelMap \<Rightarrow> nat \<Rightarrow> 64 word \<Rightarrow> nat option" where
  "scanBelow lm curL1 l1mask = do {
     y \<leftarrow> nth_opt (lm_l1 lm) curL1;
     let l1word = y AND l1mask;
     if l1word \<noteq> 0 then do {
       let prevL0 = curL1 * kBitsPerWord + (kBitsPerWord - 1 - countl_zero l1word);
       l0word \<leftarrow> nth_opt (lm_l0 lm) prevL0;
       Some (prevL0 * kBitsPerWord + (kBitsPerWord - 1 - countl_zero l0word))
     }
     else if curL1 = 0 then Some kNotFound
     else scanBelow lm (curL1 - 1) (NOT 0)
   }"

definition findSetBitBelow :: "LevelMap \<Rightarrow> nat \<Rightarrow> nat option" where
  "findSetBitBelow lm idx = do {
     let w = idx div kBitsPerWord;
     let bitInWord = idx mod kBitsPerWord;
     let mask = (if bitInWord = 0 then 0 else push_bit bitInWord 1 - 1);
     x \<leftarrow> nth_opt (lm_l0 lm) w;
     let masked = x AND mask;
     if masked \<noteq> 0 then Some (w * kBitsPerWord + (kBitsPerWord - 1 - countl_zero masked))
     else if w = 0 then Some kNotFound
     else do {
       let curL1 = (w - 1) div kBitsPerWord;
       let l1Bit = (w - 1) mod kBitsPerWord;
       let l1mask = (if l1Bit = kBitsPerWord - 1 then NOT 0 else push_bit (l1Bit + 1) 1 - 1);
       scanBelow lm curL1 l1mask
     }
   }"

function scanAbove :: "LevelMap \<Rightarrow> nat \<Rightarrow> 64 word \<Rightarrow> nat option" where
  "scanAbove lm curL1 l1mask =
     (if curL1 < lm_l1Words lm then do {
        y \<leftarrow> nth_opt (lm_l1 lm) curL1;
        let l1word = y AND l1mask;
        if l1word \<noteq> 0 then do {
          let nextL0 = curL1 * kBitsPerWord + countr_zero l1word;
          if nextL0 \<ge> lm_l0Words lm then Some kNotFound
          else do {
            l0word \<leftarrow> nth_opt (lm_l0 lm) nextL0;
            Some (nextL0 * kBitsPerWord + countr_zero l0word)
          }
        }
        else scanAbove lm (curL1 + 1) (NOT 0)
      }
      else Some kNotFound)"
  by pat_completeness auto
termination
  by (relation "measure (\<lambda>(lm, curL1, _). lm_l1Words lm - curL1)") auto

definition findSetBitAbove :: "LevelMap \<Rightarrow> nat \<Rightarrow> nat option" where
  "findSetBitAbove lm idx = do {
     let w = idx div kBitsPerWord;
     let bitInWord = idx mod kBitsPerWord;
     let mask = (if bitInWord = kBitsPerWord - 1 then 0 else NOT (push_bit bitInWord 2 - 1));
     x \<leftarrow> nth_opt (lm_l0 lm) w;
     let masked = x AND mask;
     if masked \<noteq> 0 then Some (w * kBitsPerWord + countr_zero masked)
     else do {
       let firstNextWord = w + 1;
       if firstNextWord \<ge> lm_l0Words lm then Some kNotFound
       else do {
         let curL1 = firstNextWord div kBitsPerWord;
         let l1Bit = firstNextWord mod kBitsPerWord;
         let l1mask = NOT (push_bit l1Bit 1 - 1);
         scanAbove lm curL1 l1mask
       }
     }
   }"

declare scanBelow.simps [simp del] scanAbove.simps [simp del]

section \<open>Operations\<close>

definition nextOccupied :: "LevelMap \<Rightarrow> Price \<Rightarrow> Price option" where
  "nextOccupied lm from = do {
     let idx = index lm from;
     found \<leftarrow> (if lm_side lm = Buy then findSetBitBelow lm idx else findSetBitAbove lm idx);
     if found = kNotFound then Some (emptySentinel (lm_side lm))
     else do {
       lv \<leftarrow> nth_opt (lm_levels lm) found;
       Some (lvl_price lv)
     }
   }"

definition addOrder :: "Order store \<Rightarrow> LevelMap \<Rightarrow> ptr \<Rightarrow> (Order store \<times> LevelMap) option" where
  "addOrder st lm p = do {
     x \<leftarrow> deref st p;
     let i = index lm (o_price x);
     lvl \<leftarrow> nth_opt (lm_levels lm) i;
     let wasEmpty = lvl_empty lvl;
     (st', lvl') \<leftarrow> enqueue (lm_side lm, i) st lvl p;
     let lm1 = lm\<lparr>lm_levels := (lm_levels lm)[i := lvl']\<rparr>;
     lm2 \<leftarrow> (if wasEmpty then setOccupied lm1 i else Some lm1);
     Some (st', if isBetter lm2 (o_price x) (lm_best lm2) then lm2\<lparr>lm_best := o_price x\<rparr> else lm2)
   }"

definition onLevelEmptied :: "LevelMap \<Rightarrow> Price \<Rightarrow> LevelMap option" where
  "onLevelEmptied lm p = do {
     lm1 \<leftarrow> clearOccupied lm (index lm p);
     if p \<noteq> lm_best lm1 then Some lm1
     else do {
       b \<leftarrow> nextOccupied lm1 p;
       Some (lm1\<lparr>lm_best := b\<rparr>)
     }
   }"

section \<open>The bitset search is exact\<close>

lemma takeWhile_upt_first:
  assumes "\<exists>k<n. P k"
  defines "m \<equiv> length (takeWhile (\<lambda>k. \<not> P k) [0..<n])"
  shows "m < n" "P m" "\<And>j. j < m \<Longrightarrow> \<not> P j"
proof -
  obtain k where k: "k < n" "P k" using assms(1) by blast
  have "m < length [0..<n]"
  proof (rule ccontr)
    assume "\<not> m < length [0..<n]"
    then have "takeWhile (\<lambda>k. \<not> P k) [0..<n] = [0..<n]"
      by (metis m_def length_takeWhile_le takeWhile_eq_take take_all not_less)
    then have "\<forall>x\<in>set [0..<n]. \<not> P x" by (metis takeWhile_eq_all_conv)
    with k show False by simp
  qed
  then show "m < n" by simp
  then show "P m"
    using nth_length_takeWhile [of "\<lambda>k. \<not> P k" "[0..<n]"] by (simp add: m_def)
  fix j assume "j < m"
  then have "takeWhile (\<lambda>k. \<not> P k) [0..<n] ! j \<in> set (takeWhile (\<lambda>k. \<not> P k) [0..<n])"
    unfolding m_def by (rule nth_mem)
  moreover have "takeWhile (\<lambda>k. \<not> P k) [0..<n] ! j = j"
    using \<open>j < m\<close> \<open>m < n\<close> by (simp add: m_def takeWhile_nth)
  ultimately show "\<not> P j" by (metis (mono_tags, lifting) set_takeWhileD)
qed

lemma word_bit_exists: "x \<noteq> 0 \<Longrightarrow> \<exists>k<64. bit x k" for x :: "64 word"
  by (rule ccontr) (auto intro: bit_word_eqI)

lemma countr_zero_spec:
  assumes "x \<noteq> 0"
  shows "countr_zero x < 64" "bit x (countr_zero x)" "\<And>j. j < countr_zero x \<Longrightarrow> \<not> bit x j"
  using takeWhile_upt_first [OF word_bit_exists [OF assms]]
  by (simp_all add: countr_zero_def)

lemma countl_zero_spec:
  assumes "x \<noteq> 0"
  shows "63 - countl_zero x < 64" "bit x (63 - countl_zero x)"
    "\<And>j. 63 - countl_zero x < j \<Longrightarrow> \<not> bit x j"
proof -
  obtain k where "k < 64" "bit x k" using word_bit_exists [OF assms] by blast
  then have ex: "\<exists>k<64. bit x (63 - k)"
    by (intro exI [of _ "63 - k"]) auto
  note tw = takeWhile_upt_first [OF ex]
  show "63 - countl_zero x < 64" "bit x (63 - countl_zero x)"
    using tw by (simp_all add: countl_zero_def)
  fix j assume j: "63 - countl_zero x < j"
  show "\<not> bit x j"
  proof (cases "j < 64")
    case True
    then have "63 - j < countl_zero x" using j by auto
    then have "\<not> bit x (63 - (63 - j))" unfolding countl_zero_def by (rule tw(3))
    with True show ?thesis by simp
  next
    case False
    then show ?thesis using bit_imp_le_length [of x j] by auto
  qed
qed


definition l0_bit :: "LevelMap \<Rightarrow> nat \<Rightarrow> bool" where
  "l0_bit lm i \<longleftrightarrow> bit (lm_l0 lm ! (i div 64)) (i mod 64)"

definition l1_bit :: "LevelMap \<Rightarrow> nat \<Rightarrow> bool" where
  "l1_bit lm w \<longleftrightarrow> bit (lm_l1 lm ! (w div 64)) (w mod 64)"

definition bits_inv :: "LevelMap \<Rightarrow> bool" where
  "bits_inv lm \<longleftrightarrow>
     0 < lm_numSlots lm \<and> lm_numSlots lm \<le> 2 ^ 63 \<and>
     lm_l0Words lm = (lm_numSlots lm + 63) div 64 \<and> lm_l1Words lm = (lm_l0Words lm + 63) div 64 \<and>
     length (lm_l0 lm) = lm_l0Words lm \<and> length (lm_l1 lm) = lm_l1Words lm \<and>
     (\<forall>w < lm_l0Words lm. l1_bit lm w \<longleftrightarrow> lm_l0 lm ! w \<noteq> 0) \<and>
     (\<forall>w. lm_l0Words lm \<le> w \<and> w < 64 * lm_l1Words lm \<longrightarrow> \<not> l1_bit lm w) \<and>
     (\<forall>i. lm_numSlots lm \<le> i \<and> i < 64 * lm_l0Words lm \<longrightarrow> \<not> l0_bit lm i)"

lemma occupiedBit_iff: "occupiedBit lm i \<longleftrightarrow> l0_bit lm i"
  by (auto simp: occupiedBit_def l0_bit_def kBitsPerWord_def and_exp_eq_0_iff_not_bit push_bit_of_1)

lemma bit_low_mask: "b < 64 \<Longrightarrow> bit (push_bit b 1 - 1 :: 64 word) j \<longleftrightarrow> j < b"
  by (auto simp: push_bit_of_1 mask_eq_exp_minus_1 [symmetric] bit_mask_iff)

lemma bit_high_mask: "b < 64 \<Longrightarrow> bit (NOT (push_bit b 1 - 1) :: 64 word) j \<longleftrightarrow> j < 64 \<and> b \<le> j"
  using bit_low_mask [of b j] by (auto simp: bit_not_iff)

lemma l0_bit_split: "j < 64 \<Longrightarrow> l0_bit lm (w * 64 + j) \<longleftrightarrow> bit (lm_l0 lm ! w) j"
  by (simp add: l0_bit_def)

lemma l1_bit_split: "j < 64 \<Longrightarrow> l1_bit lm (w * 64 + j) \<longleftrightarrow> bit (lm_l1 lm ! w) j"
  by (simp add: l1_bit_def)

lemma l0_bit_word: "l0_bit lm i \<Longrightarrow> lm_l0 lm ! (i div 64) \<noteq> 0"
  by (auto simp: l0_bit_def)

definition below_result :: "LevelMap \<Rightarrow> nat \<Rightarrow> nat \<Rightarrow> bool" where
  "below_result lm hi r \<longleftrightarrow>
     (r = kNotFound \<and> (\<forall>w \<le> hi. \<not> l1_bit lm w)) \<or>
     (\<exists>w j. r = w * 64 + j \<and> w \<le> hi \<and> w < lm_l0Words lm \<and>
        (\<forall>w'. w < w' \<and> w' \<le> hi \<longrightarrow> \<not> l1_bit lm w') \<and>
        j < 64 \<and> bit (lm_l0 lm ! w) j \<and> (\<forall>j'>j. \<not> bit (lm_l0 lm ! w) j'))"

lemma below_result_extend:
  assumes "below_result lm hi r" "hi \<le> hi'" "\<And>w. hi < w \<Longrightarrow> w \<le> hi' \<Longrightarrow> \<not> l1_bit lm w"
  shows "below_result lm hi' r"
proof -
  have ext: "\<not> l1_bit lm w" if "w \<le> hi'" "w \<le> hi \<longrightarrow> \<not> l1_bit lm w" for w
    using assms(3) [of w] that by fastforce
  from assms(1) consider "r = kNotFound" "\<forall>w \<le> hi. \<not> l1_bit lm w"
    | w j where "r = w * 64 + j" "w \<le> hi" "w < lm_l0Words lm"
        "\<forall>w'. w < w' \<and> w' \<le> hi \<longrightarrow> \<not> l1_bit lm w'"
        "j < 64" "bit (lm_l0 lm ! w) j" "\<forall>j'>j. \<not> bit (lm_l0 lm ! w) j'"
    unfolding below_result_def by blast
  then show ?thesis
  proof cases
    case 1
    with ext show ?thesis by (auto simp: below_result_def)
  next
    case 2
    with ext assms(2) show ?thesis
      unfolding below_result_def by (intro disjI2 exI [of _ w] exI [of _ j]) auto
  qed
qed

lemma bits_inv_l1:
  assumes "bits_inv lm" "l1_bit lm w" "w < 64 * lm_l1Words lm"
  shows "w < lm_l0Words lm" "lm_l0 lm ! w \<noteq> 0"
proof -
  show "w < lm_l0Words lm" using assms by (meson bits_inv_def not_le_imp_less)
  with assms show "lm_l0 lm ! w \<noteq> 0" by (simp add: bits_inv_def)
qed

lemma and_zero_bit: "x AND m = 0 \<Longrightarrow> bit m j \<Longrightarrow> \<not> bit x j" for x :: "64 word"
proof
  assume "x AND m = 0" "bit m j" "bit x j"
  then have "bit m j \<and> bit x j" by simp
  then have "bit (x AND m) j" by (simp add: bit_and_iff)
  with \<open>x AND m = 0\<close> show False by simp
qed

lemma scanBelow_hit:
  assumes "bits_inv lm" and "cur < lm_l1Words lm" and "k < 64"
    and m: "\<And>j. j < 64 \<Longrightarrow> bit m j \<longleftrightarrow> j \<le> k" and nz: "lm_l1 lm ! cur AND m \<noteq> 0"
  shows "\<exists>r. scanBelow lm cur m = Some r \<and> below_result lm (cur * 64 + k) r"
proof -
  note cz = countl_zero_spec [OF nz]
  define j where "j = 63 - countl_zero (lm_l1 lm ! cur AND m)"
  define w where "w = cur * 64 + j"
  have j: "j < 64" "l1_bit lm w" "j \<le> k"
    using cz m [of j] by (auto simp: j_def w_def l1_bit_split bit_and_iff)
  have w: "w < lm_l0Words lm" "lm_l0 lm ! w \<noteq> 0"
    using bits_inv_l1 [OF assms(1) j(2)] j(1) assms(2) by (auto simp: w_def)
  have gap: "\<not> l1_bit lm w'" if "w < w'" "w' \<le> cur * 64 + k" for w'
  proof -
    define j' where "j' = w' - cur * 64"
    have "w' = cur * 64 + j'" "j < j'" "j' \<le> k" using that by (auto simp: j'_def w_def)
    with cz(3) [of j'] m [of j'] assms(3) show ?thesis
      by (auto simp: j_def l1_bit_split bit_and_iff)
  qed
  have "scanBelow lm cur m = Some (w * 64 + (63 - countl_zero (lm_l0 lm ! w)))"
    using nz assms(1,2) w
    by (subst scanBelow.simps)
       (simp add: kBitsPerWord_def j_def [symmetric] w_def [symmetric] bits_inv_def)
  moreover have "below_result lm (cur * 64 + k) (w * 64 + (63 - countl_zero (lm_l0 lm ! w)))"
    unfolding below_result_def using countl_zero_spec [OF w(2)] j gap w(1)
    by (intro disjI2 exI [of _ w] exI [of _ "63 - countl_zero (lm_l0 lm ! w)"]) (auto simp: w_def)
  ultimately show ?thesis by blast
qed

lemma scanBelow_spec:
  assumes "bits_inv lm" and "cur < lm_l1Words lm" and "k < 64"
    and "\<And>j. j < 64 \<Longrightarrow> bit m j \<longleftrightarrow> j \<le> k"
  shows "\<exists>r. scanBelow lm cur m = Some r \<and> below_result lm (cur * 64 + k) r"
  using assms(2-)
proof (induction cur arbitrary: k m)
  case 0
  show ?case
  proof (cases "lm_l1 lm ! 0 AND m = 0")
    case True
    have "\<not> l1_bit lm j" if "j \<le> k" for j
      using and_zero_bit [OF True, of j] 0 that l1_bit_split [of j lm 0] by auto
    moreover have "scanBelow lm 0 m = Some kNotFound"
      using True 0 assms(1) by (subst scanBelow.simps) (simp add: bits_inv_def)
    ultimately show ?thesis by (auto simp: below_result_def)
  next
    case False
    then show ?thesis using scanBelow_hit [OF assms(1) 0] by simp
  qed
next
  case (Suc c)
  show ?case
  proof (cases "lm_l1 lm ! Suc c AND m = 0")
    case True
    have none: "\<not> l1_bit lm (Suc c * 64 + j)" if "j \<le> k" for j
      using and_zero_bit [OF True, of j] Suc.prems that l1_bit_split [of j lm "Suc c"] by auto
    have "\<not> l1_bit lm w" if "c * 64 + 63 < w" "w \<le> Suc c * 64 + k" for w
      using none [of "w - Suc c * 64"] that by (auto simp: le_add_diff_inverse)
    moreover have "scanBelow lm (Suc c) m = scanBelow lm c (NOT 0)"
      using True Suc.prems assms(1) by (subst scanBelow.simps) (simp add: bits_inv_def)
    moreover have "\<exists>r. scanBelow lm c (NOT 0) = Some r \<and> below_result lm (c * 64 + 63) r"
      using Suc.prems by (intro Suc.IH) (auto simp: bit_not_iff)
    ultimately show ?thesis
      using below_result_extend [of lm "c * 64 + 63" _ "Suc c * 64 + k"] by fastforce
  next
    case False
    then show ?thesis using scanBelow_hit [OF assms(1) Suc.prems] by simp
  qed
qed

lemma below_result_prev:
  assumes inv: "bits_inv lm" and res: "below_result lm hi r" and hi: "hi < lm_l0Words lm"
  shows "(r = kNotFound \<and> (\<forall>i < Suc hi * 64. \<not> l0_bit lm i)) \<or>
         (r < Suc hi * 64 \<and> l0_bit lm r \<and> (\<forall>i. r < i \<and> i < Suc hi * 64 \<longrightarrow> \<not> l0_bit lm i))"
proof -
  have nz: "\<not> l0_bit lm i" if "i div 64 \<le> hi" "\<not> l1_bit lm (i div 64)" for i
    using that inv hi l0_bit_word [of lm i] by (auto simp: bits_inv_def)
  from res consider "r = kNotFound" "\<forall>w \<le> hi. \<not> l1_bit lm w"
    | w j where "r = w * 64 + j" "w \<le> hi" "w < lm_l0Words lm"
        "\<forall>w'. w < w' \<and> w' \<le> hi \<longrightarrow> \<not> l1_bit lm w'"
        "j < 64" "bit (lm_l0 lm ! w) j" "\<forall>j'>j. \<not> bit (lm_l0 lm ! w) j'"
    unfolding below_result_def by blast
  then show ?thesis
  proof cases
    case 1
    have "\<not> l0_bit lm i" if "i < Suc hi * 64" for i
      using nz [of i] 1 that by (auto simp: less_mult_imp_div_less)
    with 1 show ?thesis by blast
  next
    case 2
    have "\<not> l0_bit lm i" if i: "r < i" "i < Suc hi * 64" for i
    proof (cases "i div 64 = w")
      case True
      then have "j < i mod 64" using i 2 by (metis div_mult_mod_eq nat_add_left_cancel_less)
      with 2 True show ?thesis by (simp add: l0_bit_def)
    next
      case False
      have "i div 64 \<le> hi" using i by (auto simp: less_mult_imp_div_less)
      moreover have "w < i div 64"
        using False i 2 by (metis add_leD1 div_le_mono less_imp_le_nat div_mult_self_is_m le_neq_implies_less zero_less_numeral)
      ultimately show ?thesis using nz [of i] 2 by auto
    qed
    moreover have "r < Suc hi * 64" "l0_bit lm r" using 2 by (auto simp: l0_bit_split)
    ultimately show ?thesis by blast
  qed
qed

definition prev_result :: "LevelMap \<Rightarrow> nat \<Rightarrow> nat \<Rightarrow> bool" where
  "prev_result lm idx r \<longleftrightarrow>
     (r = kNotFound \<and> (\<forall>i < idx. \<not> l0_bit lm i)) \<or>
     (r < idx \<and> l0_bit lm r \<and> (\<forall>i. r < i \<and> i < idx \<longrightarrow> \<not> l0_bit lm i))"

definition next_result :: "LevelMap \<Rightarrow> nat \<Rightarrow> nat \<Rightarrow> bool" where
  "next_result lm idx r \<longleftrightarrow>
     (r = kNotFound \<and> (\<forall>i. idx < i \<and> i < lm_numSlots lm \<longrightarrow> \<not> l0_bit lm i)) \<or>
     (idx < r \<and> r < lm_numSlots lm \<and> l0_bit lm r \<and> (\<forall>i. idx < i \<and> i < r \<longrightarrow> \<not> l0_bit lm i))"

lemma bits_inv_words:
  assumes "bits_inv lm" "i < lm_numSlots lm"
  shows "i div 64 < lm_l0Words lm" "w < lm_l0Words lm \<Longrightarrow> w div 64 < lm_l1Words lm"
  using assms by (auto simp: bits_inv_def)

lemma findSetBitBelow_spec:
  assumes inv: "bits_inv lm" and idx: "idx < lm_numSlots lm"
  shows "\<exists>r. findSetBitBelow lm idx = Some r \<and> prev_result lm idx r"
proof -
  define w where "w = idx div 64"
  define b where "b = idx mod 64"
  define m :: "64 word" where "m = (if b = 0 then 0 else push_bit b 1 - 1)"
  have b: "b < 64" and idx_eq: "idx = w * 64 + b" by (auto simp: b_def w_def)
  have mb: "bit m j \<longleftrightarrow> j < b" for j using bit_low_mask [OF b, of j] by (auto simp: m_def)
  have w: "w < lm_l0Words lm" using bits_inv_words(1) [OF inv idx] by (simp add: w_def)
  then have acc: "nth_opt (lm_l0 lm) w = Some (lm_l0 lm ! w)" using inv by (simp add: bits_inv_def)
  show ?thesis
  proof (cases "lm_l0 lm ! w AND m = 0")
    case False
    note cz = countl_zero_spec [OF False]
    define j where "j = 63 - countl_zero (lm_l0 lm ! w AND m)"
    have j: "j < b" "bit (lm_l0 lm ! w) j"
      using cz mb by (auto simp: j_def bit_and_iff)
    have "\<not> l0_bit lm i" if "w * 64 + j < i" "i < idx" for i
    proof -
      define k where "k = i - w * 64"
      have k: "i = w * 64 + k" "j < k" "k < b" using that by (auto simp: k_def idx_eq)
      with cz(3) [of k] mb b show ?thesis by (auto simp: j_def l0_bit_split bit_and_iff)
    qed
    moreover have "findSetBitBelow lm idx = Some (w * 64 + j)"
      unfolding findSetBitBelow_def using False acc
      by (simp add: kBitsPerWord_def Let_def w_def [symmetric] b_def [symmetric] m_def [symmetric] j_def
            del: push_bit_of_1)
    ultimately show ?thesis
      using j b by (auto simp: prev_result_def l0_bit_split idx_eq)
  next
    case True
    have none: "\<not> l0_bit lm i" if "w * 64 \<le> i" "i < idx" for i
      using and_zero_bit [OF True, of "i - w * 64"] that mb b l0_bit_split [of "i - w * 64" lm w]
      by (auto simp: idx_eq)
    show ?thesis
    proof (cases w)
      case 0
      then have "findSetBitBelow lm idx = Some kNotFound"
        unfolding findSetBitBelow_def using True acc
        by (simp add: kBitsPerWord_def Let_def w_def [symmetric] b_def [symmetric] m_def [symmetric]
              del: push_bit_of_1)
      with none 0 show ?thesis by (auto simp: prev_result_def)
    next
      case (Suc v)
      define l1m :: "64 word" where
        "l1m = (if v mod 64 = 63 then NOT 0 else push_bit (v mod 64 + 1) 1 - 1)"
      have l1m: "bit l1m j \<longleftrightarrow> j \<le> v mod 64" if "j < 64" for j
        using bit_low_mask [of "v mod 64 + 1" j] that by (auto simp: l1m_def bit_not_iff)
      have "findSetBitBelow lm idx = scanBelow lm (v div 64) l1m"
        unfolding findSetBitBelow_def using True acc Suc
        by (simp add: kBitsPerWord_def Let_def w_def [symmetric] b_def [symmetric] m_def [symmetric] l1m_def
              del: push_bit_of_1)
      moreover have v: "v < lm_l0Words lm" using w Suc by simp
      moreover obtain r where r: "scanBelow lm (v div 64) l1m = Some r" "below_result lm v r"
        using scanBelow_spec [OF inv bits_inv_words(2) [OF inv idx v], of "v mod 64" l1m] l1m by auto
      moreover have "prev_result lm idx r"
      proof -
        have split: "i < idx \<Longrightarrow> i < Suc v * 64 \<or> \<not> l0_bit lm i" for i
          using none [of i] Suc by fastforce
        have "Suc v * 64 \<le> idx" by (simp add: idx_eq Suc)
        with below_result_prev [OF inv r(2) v] split show ?thesis
          unfolding prev_result_def by (meson less_le_trans)
      qed
      ultimately show ?thesis by auto
    qed
  qed
qed

definition above_result :: "LevelMap \<Rightarrow> nat \<Rightarrow> nat \<Rightarrow> bool" where
  "above_result lm lo r \<longleftrightarrow>
     (r = kNotFound \<and> (\<forall>w. lo \<le> w \<and> w < 64 * lm_l1Words lm \<longrightarrow> \<not> l1_bit lm w)) \<or>
     (\<exists>w j. r = w * 64 + j \<and> lo \<le> w \<and> w < lm_l0Words lm \<and>
        (\<forall>w'. lo \<le> w' \<and> w' < w \<longrightarrow> \<not> l1_bit lm w') \<and>
        j < 64 \<and> bit (lm_l0 lm ! w) j \<and> (\<forall>j'<j. \<not> bit (lm_l0 lm ! w) j'))"

lemma above_resultE:
  assumes "above_result lm lo r"
  obtains "r = kNotFound" "\<And>w. lo \<le> w \<Longrightarrow> w < 64 * lm_l1Words lm \<Longrightarrow> \<not> l1_bit lm w"
    | w j where "r = w * 64 + j" "lo \<le> w" "w < lm_l0Words lm"
        "\<And>w'. lo \<le> w' \<Longrightarrow> w' < w \<Longrightarrow> \<not> l1_bit lm w'"
        "j < 64" "bit (lm_l0 lm ! w) j" "\<And>j'. j' < j \<Longrightarrow> \<not> bit (lm_l0 lm ! w) j'"
  using assms unfolding above_result_def by blast

lemma above_result_extend:
  assumes "above_result lm lo r" "lo' \<le> lo" "\<And>w. lo' \<le> w \<Longrightarrow> w < lo \<Longrightarrow> \<not> l1_bit lm w"
  shows "above_result lm lo' r"
proof -
  have ext: "\<not> l1_bit lm w" if "lo' \<le> w" "lo \<le> w \<Longrightarrow> \<not> l1_bit lm w" for w
    using assms(3) [of w] that by fastforce
  from assms(1) show ?thesis
  proof (cases rule: above_resultE)
    case 1
    with ext show ?thesis by (auto simp: above_result_def)
  next
    case (2 w j)
    with ext assms(2) show ?thesis
      unfolding above_result_def by (intro disjI2 exI [of _ w] exI [of _ j]) auto
  qed
qed

lemma scanAbove_hit:
  assumes "bits_inv lm" and "cur < lm_l1Words lm" and "k < 64"
    and m: "\<And>j. j < 64 \<Longrightarrow> bit m j \<longleftrightarrow> k \<le> j" and nz: "lm_l1 lm ! cur AND m \<noteq> 0"
  shows "\<exists>r. scanAbove lm cur m = Some r \<and> above_result lm (cur * 64 + k) r"
proof -
  note cz = countr_zero_spec [OF nz]
  define j where "j = countr_zero (lm_l1 lm ! cur AND m)"
  define w where "w = cur * 64 + j"
  have j: "j < 64" "l1_bit lm w" "k \<le> j"
    using cz m [of j] by (auto simp: j_def w_def l1_bit_split bit_and_iff)
  have w: "w < lm_l0Words lm" "lm_l0 lm ! w \<noteq> 0"
    using bits_inv_l1 [OF assms(1) j(2)] j(1) assms(2) by (auto simp: w_def)
  have gap: "\<not> l1_bit lm w'" if "cur * 64 + k \<le> w'" "w' < w" for w'
  proof -
    define j' where "j' = w' - cur * 64"
    have "w' = cur * 64 + j'" "j' < j" "k \<le> j'" using that by (auto simp: j'_def w_def)
    with cz(3) [of j'] m [of j'] j(1) show ?thesis
      by (auto simp: j_def l1_bit_split bit_and_iff)
  qed
  have "scanAbove lm cur m = Some (w * 64 + countr_zero (lm_l0 lm ! w))"
    using nz assms(1,2) w
    by (subst scanAbove.simps)
       (simp add: kBitsPerWord_def j_def [symmetric] w_def [symmetric] bits_inv_def)
  moreover have "above_result lm (cur * 64 + k) (w * 64 + countr_zero (lm_l0 lm ! w))"
    unfolding above_result_def using countr_zero_spec [OF w(2)] j gap w(1)
    by (intro disjI2 exI [of _ w] exI [of _ "countr_zero (lm_l0 lm ! w)"]) (auto simp: w_def)
  ultimately show ?thesis by blast
qed

lemma scanAbove_spec:
  assumes "bits_inv lm" and "cur < lm_l1Words lm" and "k < 64"
    and "\<And>j. j < 64 \<Longrightarrow> bit m j \<longleftrightarrow> k \<le> j"
  shows "\<exists>r. scanAbove lm cur m = Some r \<and> above_result lm (cur * 64 + k) r"
  using assms(2-)
proof (induction "lm_l1Words lm - cur" arbitrary: cur k m rule: less_induct)
  case less
  show ?case
  proof (cases "lm_l1 lm ! cur AND m = 0")
    case False
    then show ?thesis using scanAbove_hit [OF assms(1) less.prems] by simp
  next
    case True
    have none: "\<not> l1_bit lm (cur * 64 + j)" if "k \<le> j" "j < 64" for j
      using and_zero_bit [OF True, of j] less.prems that l1_bit_split [of j lm cur] by auto
    have gap: "\<not> l1_bit lm w" if "cur * 64 + k \<le> w" "w < Suc cur * 64" for w
      using none [of "w - cur * 64"] that by (auto simp: le_add_diff_inverse)
    have step: "scanAbove lm cur m = scanAbove lm (Suc cur) (NOT 0)"
      using True less.prems assms(1) by (subst scanAbove.simps) (simp add: bits_inv_def)
    show ?thesis
    proof (cases "Suc cur < lm_l1Words lm")
      case False
      then have "scanAbove lm (Suc cur) (NOT 0) = Some kNotFound"
        by (subst scanAbove.simps) simp
      moreover have "lm_l1Words lm = Suc cur" using False less.prems by simp
      ultimately show ?thesis using step gap by (auto simp: above_result_def)
    next
      case True
      have "\<exists>r. scanAbove lm (Suc cur) (NOT 0) = Some r \<and> above_result lm (Suc cur * 64 + 0) r"
        using True less.prems by (intro less.hyps) (auto simp: bit_not_iff)
      then show ?thesis
        using above_result_extend [of lm "Suc cur * 64 + 0" _ "cur * 64 + k"] gap step less.prems(2)
        by fastforce
    qed
  qed
qed

lemma above_result_next:
  assumes inv: "bits_inv lm" and res: "above_result lm lo r"
  shows "(r = kNotFound \<and> (\<forall>i. lo * 64 \<le> i \<and> i < lm_numSlots lm \<longrightarrow> \<not> l0_bit lm i)) \<or>
         (lo * 64 \<le> r \<and> r < lm_numSlots lm \<and> l0_bit lm r \<and> (\<forall>i. lo * 64 \<le> i \<and> i < r \<longrightarrow> \<not> l0_bit lm i))"
proof -
  have nz: "\<not> l0_bit lm i" if "i < lm_numSlots lm" "\<not> l1_bit lm (i div 64)" for i
    using that inv bits_inv_words(1) [OF inv that(1)] l0_bit_word [of lm i] by (auto simp: bits_inv_def)
  from res show ?thesis
  proof (cases rule: above_resultE)
    case 1
    have "\<not> l0_bit lm i" if "lo * 64 \<le> i" "i < lm_numSlots lm" for i
    proof -
      have "i div 64 < 64 * lm_l1Words lm"
        using bits_inv_words(1) [OF inv that(2)] inv by (auto simp: bits_inv_def)
      moreover have "lo \<le> i div 64" using that(1) by (simp add: less_eq_div_iff_mult_less_eq)
      ultimately show ?thesis using 1(2) nz [OF that(2)] by blast
    qed
    with 1 show ?thesis by blast
  next
    case (2 w j)
    have r: "l0_bit lm r" using 2 by (simp add: l0_bit_split)
    have rn: "r < lm_numSlots lm"
    proof (rule ccontr)
      assume "\<not> r < lm_numSlots lm"
      moreover have "r < 64 * lm_l0Words lm" using 2 by simp
      ultimately show False using inv r by (auto simp: bits_inv_def)
    qed
    have "\<not> l0_bit lm i" if i: "lo * 64 \<le> i" "i < r" for i
    proof (cases "i div 64 = w")
      case True
      then have "i mod 64 < j" using i 2(1) by (metis div_mult_mod_eq nat_add_left_cancel_less)
      with 2 True show ?thesis by (simp add: l0_bit_def)
    next
      case False
      have "lo \<le> i div 64" using i by (simp add: less_eq_div_iff_mult_less_eq)
      moreover have "i div 64 < w" using False i 2(1,5) by auto
      ultimately show ?thesis using nz [of i] 2(4) i rn by simp
    qed
    moreover have "lo * 64 \<le> r" using 2 by simp
    ultimately show ?thesis using r rn by blast
  qed
qed

lemma findSetBitAbove_spec:
  assumes inv: "bits_inv lm" and idx: "idx < lm_numSlots lm"
  shows "\<exists>r. findSetBitAbove lm idx = Some r \<and> next_result lm idx r"
proof -
  define w where "w = idx div 64"
  define b where "b = idx mod 64"
  define m :: "64 word" where "m = (if b = 63 then 0 else NOT (push_bit b 2 - 1))"
  have b: "b < 64" and idx_eq: "idx = w * 64 + b" by (auto simp: b_def w_def)
  have "push_bit b 2 = (push_bit (b + 1) 1 :: 64 word)" by (simp add: push_bit_eq_mult)
  then have mb: "bit m j \<longleftrightarrow> b < j" if "j < 64" for j
    using bit_high_mask [of "b + 1" j] that b by (auto simp: m_def)
  have w: "w < lm_l0Words lm" using bits_inv_words(1) [OF inv idx] by (simp add: w_def)
  then have acc: "nth_opt (lm_l0 lm) w = Some (lm_l0 lm ! w)" using inv by (simp add: bits_inv_def)
  note unf = findSetBitAbove_def kBitsPerWord_def Let_def w_def [symmetric] b_def [symmetric]
  show ?thesis
  proof (cases "lm_l0 lm ! w AND m = 0")
    case False
    note cz = countr_zero_spec [OF False]
    define j where "j = countr_zero (lm_l0 lm ! w AND m)"
    have j: "b < j" "j < 64" "bit (lm_l0 lm ! w) j"
      using cz mb by (auto simp: j_def bit_and_iff)
    have none: "\<not> l0_bit lm i" if "idx < i" "i < w * 64 + j" for i
    proof -
      define k where "k = i - w * 64"
      have k: "i = w * 64 + k" "k < j" "b < k" using that by (auto simp: k_def idx_eq)
      with cz(3) [of k] mb j show ?thesis by (auto simp: j_def l0_bit_split bit_and_iff)
    qed
    have r: "l0_bit lm (w * 64 + j)" using j by (simp add: l0_bit_split)
    have "w * 64 + j < lm_numSlots lm"
    proof (rule ccontr)
      assume "\<not> ?thesis"
      moreover have "w * 64 + j < 64 * lm_l0Words lm" using j w by simp
      ultimately show False using inv r by (auto simp: bits_inv_def)
    qed
    moreover have "findSetBitAbove lm idx = Some (w * 64 + j)"
      using False acc by (simp add: unf m_def [symmetric] j_def)
    ultimately show ?thesis using none r j by (auto simp: next_result_def idx_eq)
  next
    case True
    have none: "\<not> l0_bit lm i" if "idx < i" "i < Suc w * 64" for i
      using and_zero_bit [OF True, of "i - w * 64"] that mb l0_bit_split [of "i - w * 64" lm w]
      by (auto simp: idx_eq)
    show ?thesis
    proof (cases "Suc w < lm_l0Words lm")
      case False
      then have "lm_numSlots lm \<le> Suc w * 64" using inv by (auto simp: bits_inv_def)
      moreover have "findSetBitAbove lm idx = Some kNotFound"
        using True acc False by (simp add: unf m_def [symmetric])
      ultimately show ?thesis using none by (auto simp: next_result_def)
    next
      case sw: True
      define l1m :: "64 word" where "l1m = NOT (push_bit (Suc w mod 64) 1 - 1)"
      have l1m: "bit l1m j \<longleftrightarrow> Suc w mod 64 \<le> j" if "j < 64" for j
        using bit_high_mask [of "Suc w mod 64" j] that by (simp add: l1m_def)
      obtain r where r: "scanAbove lm (Suc w div 64) l1m = Some r" "above_result lm (Suc w) r"
        using scanAbove_spec [OF inv bits_inv_words(2) [OF inv idx sw], of "Suc w mod 64" l1m] l1m
        by auto
      have "findSetBitAbove lm idx = Some r"
        using True acc sw r by (simp add: unf m_def [symmetric] l1m_def)
      moreover have "next_result lm idx r"
      proof -
        have split: "idx < i \<Longrightarrow> Suc w * 64 \<le> i \<or> \<not> l0_bit lm i" for i
          using none [of i] by fastforce
        have "idx < Suc w * 64" using b by (simp add: idx_eq)
        with above_result_next [OF inv r(2)] split show ?thesis
          unfolding next_result_def by (meson less_le_trans)
      qed
      ultimately show ?thesis by blast
    qed
  qed
qed

section \<open>Well-formed level maps\<close>

definition slot_price :: "LevelMap \<Rightarrow> nat \<Rightarrow> Price" where
  "slot_price lm i = lm_minPrice lm + int i * lm_tick lm"

definition lm_wf :: "LevelMap \<Rightarrow> bool" where
  "lm_wf lm \<longleftrightarrow>
     bits_inv lm \<and> 0 < lm_tick lm \<and> lm_minPrice lm \<le> lm_maxPrice lm \<and>
     kBidEmpty < lm_minPrice lm \<and> lm_maxPrice lm < kAskEmpty \<and>
     lm_numSlots lm = nat ((lm_maxPrice lm - lm_minPrice lm) div lm_tick lm) + 1 \<and>
     length (lm_levels lm) = lm_numSlots lm \<and>
     (\<forall>i < lm_numSlots lm. lvl_price (lm_levels lm ! i) = slot_price lm i)"

definition occ :: "LevelMap \<Rightarrow> nat set" where
  "occ lm = {i. i < lm_numSlots lm \<and> l0_bit lm i}"

definition slot_better :: "Side \<Rightarrow> nat \<Rightarrow> nat \<Rightarrow> bool" where
  "slot_better s i j \<longleftrightarrow> (if s = Buy then j < i else i < j)"

definition is_best_slot :: "Side \<Rightarrow> nat set \<Rightarrow> nat \<Rightarrow> bool" where
  "is_best_slot s S i \<longleftrightarrow> i \<in> S \<and> (\<forall>j\<in>S. j = i \<or> slot_better s i j)"

definition best_ok :: "LevelMap \<Rightarrow> bool" where
  "best_ok lm \<longleftrightarrow>
     (occ lm = {} \<and> lm_best lm = emptySentinel (lm_side lm)) \<or>
     (\<exists>i. is_best_slot (lm_side lm) (occ lm) i \<and> lm_best lm = slot_price lm i)"

definition lm_inv :: "LevelMap \<Rightarrow> bool" where
  "lm_inv lm \<longleftrightarrow> lm_wf lm \<and> best_ok lm"

lemma sdiv_nonneg: "0 \<le> a \<Longrightarrow> 0 < b \<Longrightarrow> a sdiv b = a div (b::int)"
  by (cases "a = 0") (simp_all add: signed_divide_int_def)

lemma to_size_id: "0 \<le> x \<Longrightarrow> x < 2 ^ 64 \<Longrightarrow> to_size x = nat x"
  by (simp add: to_size_def)

lemma index_in_range:
  assumes "lm_wf lm" "inRange lm p"
  shows "index lm p = nat ((p - lm_minPrice lm) div lm_tick lm)" "index lm p < lm_numSlots lm"
proof -
  have p: "0 \<le> p - lm_minPrice lm" "p - lm_minPrice lm \<le> lm_maxPrice lm - lm_minPrice lm" "0 < lm_tick lm"
    using assms by (auto simp: lm_wf_def inRange_def)
  have "(p - lm_minPrice lm) div lm_tick lm \<le> p - lm_minPrice lm"
    using p zdiv_mono2 [of "p - lm_minPrice lm" 1 "lm_tick lm"] by simp
  moreover have "lm_maxPrice lm - lm_minPrice lm < 2 ^ 64"
    using assms(1) by (simp add: lm_wf_def kBidEmpty_def kAskEmpty_def)
  ultimately show eq: "index lm p = nat ((p - lm_minPrice lm) div lm_tick lm)"
    unfolding index_def using p by (simp add: sdiv_nonneg to_size_id pos_imp_zdiv_nonneg_iff)
  have "(p - lm_minPrice lm) div lm_tick lm \<le> (lm_maxPrice lm - lm_minPrice lm) div lm_tick lm"
    using p by (intro zdiv_mono1) auto
  then show "index lm p < lm_numSlots lm"
    using assms(1) eq by (simp add: lm_wf_def)
qed

lemma slot_price_range:
  assumes "lm_wf lm" "i < lm_numSlots lm"
  shows "inRange lm (slot_price lm i)" "index lm (slot_price lm i) = i"
    "slot_price lm i \<noteq> kBidEmpty" "slot_price lm i \<noteq> kAskEmpty"
proof -
  let ?d = "lm_maxPrice lm - lm_minPrice lm" and ?t = "lm_tick lm"
  have t: "0 < ?t" "0 \<le> ?d" using assms(1) by (auto simp: lm_wf_def)
  have "0 \<le> ?d div ?t" using t by (simp add: pos_imp_zdiv_nonneg_iff)
  then have "int i \<le> ?d div ?t" using assms by (simp add: lm_wf_def)
  then have "int i * ?t \<le> (?d div ?t) * ?t" using t by (intro mult_right_mono) auto
  also have "\<dots> \<le> ?d" using t div_mult_mod_eq [of ?d ?t] pos_mod_sign [of ?t ?d] by linarith
  finally have "int i * ?t \<le> ?d" .
  then show r: "inRange lm (slot_price lm i)" using t by (simp add: inRange_def slot_price_def)
  then show "slot_price lm i \<noteq> kBidEmpty" "slot_price lm i \<noteq> kAskEmpty"
    using assms(1) by (auto simp: lm_wf_def inRange_def)
  show "index lm (slot_price lm i) = i"
    using index_in_range(1) [OF assms(1) r] t by (simp add: slot_price_def)
qed

lemma slot_price_less: "lm_wf lm \<Longrightarrow> slot_price lm i < slot_price lm j \<longleftrightarrow> i < j"
  by (simp add: slot_price_def lm_wf_def)

lemma slot_price_inj: "lm_wf lm \<Longrightarrow> slot_price lm i = slot_price lm j \<longleftrightarrow> i = j"
  by (auto simp: slot_price_def lm_wf_def)


section \<open>Setting and clearing an occupancy bit\<close>

lemma bit_single: "k < 64 \<Longrightarrow> bit (push_bit k 1 :: 64 word) j \<longleftrightarrow> j = k"
  by (auto simp: push_bit_of_1 bit_exp_iff)

lemma div_mod_64_eq: "i div 64 = j div 64 \<and> i mod 64 = j mod 64 \<longleftrightarrow> i = j" for i j :: nat
  by (metis div_mult_mod_eq)

lemma word_or_nonzero: "k < 64 \<Longrightarrow> x OR push_bit k 1 \<noteq> 0" for x :: "64 word"
proof
  assume k: "k < 64" and "x OR push_bit k 1 = 0"
  then have "\<not> bit (x OR push_bit k 1) k" by simp
  then show False using bit_single [OF k, of k] by (simp only: bit_or_iff) simp
qed

lemma word_list_set_bit:
  assumes "i div 64 < length ws"
  defines "ws' \<equiv> ws[i div 64 := ws ! (i div 64) OR push_bit (i mod 64) (1 :: 64 word)]"
  shows "bit (ws' ! (j div 64)) (j mod 64) \<longleftrightarrow> j = i \<or> bit (ws ! (j div 64)) (j mod 64)"
  using assms bit_single [of "i mod 64" "j mod 64"] div_mod_64_eq [of i j]
  by (cases "j div 64 = i div 64") (auto simp: bit_or_iff)

lemma word_list_clear_bit:
  assumes "i div 64 < length ws"
  defines "ws' \<equiv> ws[i div 64 := ws ! (i div 64) AND NOT (push_bit (i mod 64) (1 :: 64 word))]"
  shows "bit (ws' ! (j div 64)) (j mod 64) \<longleftrightarrow> j \<noteq> i \<and> bit (ws ! (j div 64)) (j mod 64)"
  using assms bit_single [of "i mod 64" "j mod 64"] div_mod_64_eq [of i j]
  by (cases "j div 64 = i div 64") (auto simp: bit_and_iff bit_not_iff)

lemma setOccupied_spec:
  assumes inv: "bits_inv lm" and i: "i < lm_numSlots lm"
  obtains l0 l1 where "setOccupied lm i = Some (lm\<lparr>lm_l0 := l0, lm_l1 := l1\<rparr>)"
    "bits_inv (lm\<lparr>lm_l0 := l0, lm_l1 := l1\<rparr>)"
    "\<And>j. l0_bit (lm\<lparr>lm_l0 := l0, lm_l1 := l1\<rparr>) j \<longleftrightarrow> j = i \<or> l0_bit lm j"
proof -
  define w where "w = i div 64"
  define l0 where "l0 = (lm_l0 lm)[w := lm_l0 lm ! w OR push_bit (i mod 64) 1]"
  define l1 where "l1 = (lm_l1 lm)[w div 64 := lm_l1 lm ! (w div 64) OR push_bit (w mod 64) 1]"
  let ?lm = "lm\<lparr>lm_l0 := l0, lm_l1 := l1\<rparr>"
  have w: "w < lm_l0Words lm" "w div 64 < lm_l1Words lm"
    using bits_inv_words [OF inv i] by (auto simp: w_def)
  then have len: "w < length (lm_l0 lm)" "w div 64 < length (lm_l1 lm)"
    using inv by (auto simp: bits_inv_def)
  have b0: "l0_bit ?lm j \<longleftrightarrow> j = i \<or> l0_bit lm j" for j
    using word_list_set_bit [of i "lm_l0 lm" j] len by (simp add: l0_bit_def l0_def w_def)
  have b1: "l1_bit ?lm v \<longleftrightarrow> v = w \<or> l1_bit lm v" for v
    using word_list_set_bit [of w "lm_l1 lm" v] len by (simp add: l1_bit_def l1_def)
  have z: "l0 ! v \<noteq> 0 \<longleftrightarrow> v = w \<or> lm_l0 lm ! v \<noteq> 0" if "v < lm_l0Words lm" for v
    using len word_or_nonzero [of "i mod 64" "lm_l0 lm ! w"] by (auto simp: l0_def nth_list_update)
  show ?thesis
  proof (rule that [OF _ _ b0])
    show "setOccupied lm i = Some ?lm"
      unfolding setOccupied_def using len
      by (simp add: kBitsPerWord_def w_def [symmetric] l0_def l1_def Let_def)
    show "bits_inv ?lm"
      using inv i w unfolding bits_inv_def
      by (simp add: b0 b1 z) (auto simp: l0_def l1_def)
  qed
qed

lemma clearOccupied_spec:
  assumes inv: "bits_inv lm" and i: "i < lm_numSlots lm"
  obtains l0 l1 where "clearOccupied lm i = Some (lm\<lparr>lm_l0 := l0, lm_l1 := l1\<rparr>)"
    "bits_inv (lm\<lparr>lm_l0 := l0, lm_l1 := l1\<rparr>)"
    "\<And>j. l0_bit (lm\<lparr>lm_l0 := l0, lm_l1 := l1\<rparr>) j \<longleftrightarrow> j \<noteq> i \<and> l0_bit lm j"
proof -
  define w where "w = i div 64"
  define x where "x = lm_l0 lm ! w AND NOT (push_bit (i mod 64) 1)"
  define l0 where "l0 = (lm_l0 lm)[w := x]"
  define l1 where "l1 = (if x = 0
     then (lm_l1 lm)[w div 64 := lm_l1 lm ! (w div 64) AND NOT (push_bit (w mod 64) 1)] else lm_l1 lm)"
  let ?lm = "lm\<lparr>lm_l0 := l0, lm_l1 := l1\<rparr>"
  have w: "w < lm_l0Words lm" "w div 64 < lm_l1Words lm"
    using bits_inv_words [OF inv i] by (auto simp: w_def)
  then have len: "w < length (lm_l0 lm)" "w div 64 < length (lm_l1 lm)"
    using inv by (auto simp: bits_inv_def)
  have b0: "l0_bit ?lm j \<longleftrightarrow> j \<noteq> i \<and> l0_bit lm j" for j
    using word_list_clear_bit [of i "lm_l0 lm" j] len by (simp add: l0_bit_def l0_def w_def x_def)
  have b1: "l1_bit ?lm v \<longleftrightarrow> (v \<noteq> w \<or> x \<noteq> 0) \<and> l1_bit lm v" for v
    using word_list_clear_bit [of w "lm_l1 lm" v] len by (simp add: l1_bit_def l1_def)
  have z: "l0 ! v \<noteq> 0 \<longleftrightarrow> (if v = w then x \<noteq> 0 else lm_l0 lm ! v \<noteq> 0)" if "v < lm_l0Words lm" for v
    using len by (auto simp: l0_def nth_list_update)
  have xz: "x \<noteq> 0 \<Longrightarrow> lm_l0 lm ! w \<noteq> 0" by (auto simp: x_def)
  show ?thesis
  proof (rule that [OF _ _ b0])
    show "clearOccupied lm i = Some ?lm"
      unfolding clearOccupied_def using len
      by (simp add: kBitsPerWord_def w_def [symmetric] x_def l0_def l1_def Let_def)
    show "bits_inv ?lm"
      using inv w xz unfolding bits_inv_def
      by (simp add: b0 b1 z) (auto simp: l0_def l1_def)
  qed
qed

lemma occ_finite [simp]: "finite (occ lm)"
  by (simp add: occ_def)

lemma is_best_slot_unique: "is_best_slot s S i \<Longrightarrow> is_best_slot s S j \<Longrightarrow> i = j"
  by (metis is_best_slot_def slot_better_def less_asym)

lemma nextOccupied_spec:
  assumes wf: "lm_wf lm" and i: "i < lm_numSlots lm"
    and S: "S = {j \<in> occ lm. slot_better (lm_side lm) i j}"
  shows "(S = {} \<and> nextOccupied lm (slot_price lm i) = Some (emptySentinel (lm_side lm))) \<or>
     (\<exists>j. is_best_slot (lm_side lm) S j \<and> nextOccupied lm (slot_price lm i) = Some (slot_price lm j))"
proof -
  have inv: "bits_inv lm" and n: "lm_numSlots lm \<le> 2 ^ 63" using wf by (auto simp: lm_wf_def bits_inv_def)
  note idx = slot_price_range(2) [OF wf i]
  have price: "nth_opt (lm_levels lm) j = Some (lm_levels lm ! j) \<and> lvl_price (lm_levels lm ! j) = slot_price lm j"
    if "j < lm_numSlots lm" for j using wf that by (simp add: lm_wf_def)
  have nf: "j < lm_numSlots lm \<Longrightarrow> j \<noteq> kNotFound" for j using n by (simp add: kNotFound_def)
  show ?thesis
  proof (cases "lm_side lm")
    case Buy
    obtain r where r: "findSetBitBelow lm i = Some r" "prev_result lm i r"
      using findSetBitBelow_spec [OF inv i] by blast
    from r(2) show ?thesis unfolding prev_result_def
    proof (elim disjE conjE)
      assume "r = kNotFound" "\<forall>j < i. \<not> l0_bit lm j"
      then show ?thesis using r(1) Buy
        by (auto simp: S occ_def slot_better_def nextOccupied_def idx)
    next
      assume a: "r < i" "l0_bit lm r" "\<forall>j. r < j \<and> j < i \<longrightarrow> \<not> l0_bit lm j"
      then have "is_best_slot Buy S r" using i Buy
        by (auto simp: S occ_def slot_better_def is_best_slot_def) (meson linorder_neqE_nat)
      then show ?thesis using r(1) Buy nf [of r] price [of r] a(1) i
        by (auto simp: nextOccupied_def idx)
    qed
  next
    case Sell
    obtain r where r: "findSetBitAbove lm i = Some r" "next_result lm i r"
      using findSetBitAbove_spec [OF inv i] by blast
    from r(2) show ?thesis unfolding next_result_def
    proof (elim disjE conjE)
      assume "r = kNotFound" "\<forall>j. i < j \<and> j < lm_numSlots lm \<longrightarrow> \<not> l0_bit lm j"
      then show ?thesis using r(1) Sell
        by (auto simp: S occ_def slot_better_def nextOccupied_def idx)
    next
      assume a: "i < r" "r < lm_numSlots lm" "l0_bit lm r" "\<forall>j. i < j \<and> j < r \<longrightarrow> \<not> l0_bit lm j"
      then have "is_best_slot Sell S r" using Sell
        by (auto simp: S occ_def slot_better_def is_best_slot_def)
      then show ?thesis using r(1) Sell nf [of r] price [of r] a(2)
        by (auto simp: nextOccupied_def idx)
    qed
  qed
qed

lemma lm_wf_bits: "lm_wf lm \<Longrightarrow> bits_inv (lm\<lparr>lm_l0 := l0, lm_l1 := l1\<rparr>) \<Longrightarrow> lm_wf (lm\<lparr>lm_l0 := l0, lm_l1 := l1\<rparr>)"
  by (simp add: lm_wf_def slot_price_def)

lemma lm_wf_best [simp]: "lm_wf (lm\<lparr>lm_best := b\<rparr>) = lm_wf lm"
  by (simp add: lm_wf_def slot_price_def bits_inv_def l0_bit_def l1_bit_def)

lemma occ_best [simp]: "occ (lm\<lparr>lm_best := b\<rparr>) = occ lm"
  by (simp add: occ_def l0_bit_def)

lemma slot_price_simps [simp]:
  "slot_price (lm\<lparr>lm_best := b\<rparr>) i = slot_price lm i"
  "slot_price (lm\<lparr>lm_l0 := l0\<rparr>) i = slot_price lm i"
  "slot_price (lm\<lparr>lm_l1 := l1\<rparr>) i = slot_price lm i"
  "slot_price (lm\<lparr>lm_levels := ls\<rparr>) i = slot_price lm i"
  by (simp_all add: slot_price_def)

lemma index_simps [simp]:
  "index (lm\<lparr>lm_best := b\<rparr>) p = index lm p"
  "index (lm\<lparr>lm_l0 := l0\<rparr>) p = index lm p"
  "index (lm\<lparr>lm_l1 := l1\<rparr>) p = index lm p"
  "index (lm\<lparr>lm_levels := ls\<rparr>) p = index lm p"
  by (simp_all add: index_def)

text \<open>
  What an operation of the map may change: the bits and the best price, never the geometry.
\<close>

definition same_geometry :: "LevelMap \<Rightarrow> LevelMap \<Rightarrow> bool" where
  "same_geometry lm lm' \<longleftrightarrow>
     lm_side lm' = lm_side lm \<and> lm_minPrice lm' = lm_minPrice lm \<and> lm_maxPrice lm' = lm_maxPrice lm \<and>
     lm_tick lm' = lm_tick lm \<and> lm_numSlots lm' = lm_numSlots lm"

lemma onLevelEmptied_spec:
  assumes inv: "lm_inv lm" and i: "i < lm_numSlots lm"
  obtains lm' where "onLevelEmptied lm (slot_price lm i) = Some lm'" "lm_inv lm'"
    "occ lm' = occ lm - {i}" "lm_levels lm' = lm_levels lm" "same_geometry lm lm'"
proof -
  have wf: "lm_wf lm" and bi: "bits_inv lm" using inv by (auto simp: lm_inv_def lm_wf_def)
  obtain l0 l1 where c: "clearOccupied lm i = Some (lm\<lparr>lm_l0 := l0, lm_l1 := l1\<rparr>)"
    "bits_inv (lm\<lparr>lm_l0 := l0, lm_l1 := l1\<rparr>)"
    "\<And>j. l0_bit (lm\<lparr>lm_l0 := l0, lm_l1 := l1\<rparr>) j \<longleftrightarrow> j \<noteq> i \<and> l0_bit lm j"
    using clearOccupied_spec [OF bi i] by metis
  define lm1 where "lm1 = lm\<lparr>lm_l0 := l0, lm_l1 := l1\<rparr>"
  have wf1: "lm_wf lm1" unfolding lm1_def by (rule lm_wf_bits [OF wf c(2)])
  have occ1: "occ lm1 = occ lm - {i}" using c(3) by (auto simp: occ_def lm1_def)
  have lm1 [simp]: "lm_side lm1 = lm_side lm" "lm_numSlots lm1 = lm_numSlots lm" "lm_best lm1 = lm_best lm"
    "slot_price lm1 j = slot_price lm j" "lm_levels lm1 = lm_levels lm" "index lm1 p = index lm p"
    "same_geometry lm lm1" "same_geometry lm (lm1\<lparr>lm_best := b\<rparr>)" for j p b
    by (simp_all add: lm1_def same_geometry_def)
  have eq: "onLevelEmptied lm (slot_price lm i) =
      (if slot_price lm i \<noteq> lm_best lm then Some lm1
       else do { b \<leftarrow> nextOccupied lm1 (slot_price lm i); Some (lm1\<lparr>lm_best := b\<rparr>) })"
    unfolding onLevelEmptied_def by (simp add: slot_price_range [OF wf i] c(1) lm1_def [symmetric])
  show ?thesis
  proof (cases "slot_price lm i = lm_best lm")
    case False
    have "best_ok lm1"
      using inv False slot_price_inj [OF wf]
      by (auto simp: lm_inv_def best_ok_def occ1 is_best_slot_def)
    with that [of lm1] False eq wf1 occ1 show ?thesis by (simp add: lm_inv_def)
  next
    case True
    have worse: "{j \<in> occ lm1. slot_better (lm_side lm1) i j} = occ lm1"
    proof -
      have "lm_best lm \<noteq> emptySentinel (lm_side lm)"
        using slot_price_range [OF wf i] True by (auto simp: emptySentinel_def)
      then have "is_best_slot (lm_side lm) (occ lm) i"
        using inv True slot_price_inj [OF wf] by (auto simp: lm_inv_def best_ok_def)
      then show ?thesis by (auto simp: is_best_slot_def occ1)
    qed
    obtain b where b: "nextOccupied lm1 (slot_price lm1 i) = Some b" "best_ok (lm1\<lparr>lm_best := b\<rparr>)"
      using nextOccupied_spec [OF wf1 _ refl, of i] i unfolding worse by (auto simp: best_ok_def)
    with that [of "lm1\<lparr>lm_best := b\<rparr>"] True eq wf1 occ1 show ?thesis by (simp add: lm_inv_def)
  qed
qed

lemma lm_wf_levels:
  assumes "lm_wf lm" "i < lm_numSlots lm" "lvl_price lv = lvl_price (lm_levels lm ! i)"
  shows "lm_wf (lm\<lparr>lm_levels := (lm_levels lm)[i := lv]\<rparr>)"
  using assms by (auto simp: lm_wf_def nth_list_update bits_inv_def l0_bit_def l1_bit_def slot_price_def)

lemma best_ok_insert:
  assumes wf: "lm_wf lm" and i: "i < lm_numSlots lm" and best: "best_ok lm"
    and occ': "occ lm' = insert i (occ lm)" and geo: "same_geometry lm lm'"
    and b: "lm_best lm' = (if isBetter lm (slot_price lm i) (lm_best lm) then slot_price lm i else lm_best lm)"
  shows "best_ok lm'"
proof -
  have sp: "slot_price lm' = slot_price lm" and sd: "lm_side lm' = lm_side lm"
    using geo by (auto simp: same_geometry_def slot_price_def)
  have sentinel: "isBetter lm (slot_price lm i) (emptySentinel (lm_side lm))"
    using slot_price_range(1) [OF wf i] wf
    by (auto simp: isBetter_def emptySentinel_def inRange_def lm_wf_def)
  have cmp: "isBetter lm (slot_price lm i) (slot_price lm j) \<longleftrightarrow> slot_better (lm_side lm) i j" for j
    by (simp add: isBetter_def slot_better_def slot_price_less [OF wf])
  from best consider "occ lm = {}" "lm_best lm = emptySentinel (lm_side lm)"
    | j where "is_best_slot (lm_side lm) (occ lm) j" "lm_best lm = slot_price lm j"
    by (auto simp: best_ok_def)
  then show ?thesis
  proof cases
    case 1
    then show ?thesis using sentinel b
      by (auto simp: best_ok_def occ' sp sd is_best_slot_def)
  next
    case 2
    have total: "i = j \<or> slot_better (lm_side lm) i j \<or> slot_better (lm_side lm) j i"
      by (auto simp: slot_better_def)
    have "is_best_slot (lm_side lm) (insert i (occ lm)) (if slot_better (lm_side lm) i j then i else j)"
      using 2(1) total by (auto simp: is_best_slot_def slot_better_def split: if_splits)
    then show ?thesis
      using b 2(2) cmp by (auto simp: best_ok_def occ' sp sd split: if_splits)
  qed
qed

lemma addOrder_spec:
  assumes inv: "lm_inv lm" and x: "deref st p = Some x" and i: "i < lm_numSlots lm"
    and price: "o_price x = slot_price lm i"
    and rep: "level_rep st (lm_side lm, i) (lm_levels lm ! i) ps" and p: "p \<notin> set ps"
    and sync: "i \<in> occ lm \<longleftrightarrow> ps \<noteq> []"
  obtains st' lm' lv' where "addOrder st lm p = Some (st', lm')" "lm_inv lm'"
    "lm_levels lm' = (lm_levels lm)[i := lv']" "level_rep st' (lm_side lm, i) lv' (ps @ [p])"
    "relinked (insert p (set ps)) st st'" "occ lm' = insert i (occ lm)" "same_geometry lm lm'"
proof -
  have wf: "lm_wf lm" and best: "best_ok lm" using inv by (auto simp: lm_inv_def)
  obtain st' lv' where e: "enqueue (lm_side lm, i) st (lm_levels lm ! i) p = Some (st', lv')"
    "level_rep st' (lm_side lm, i) lv' (ps @ [p])" "relinked (insert p (set ps)) st st'"
    "lvl_price lv' = lvl_price (lm_levels lm ! i)"
    using enqueue_rep [OF rep x p] by metis
  define lm1 where "lm1 = lm\<lparr>lm_levels := (lm_levels lm)[i := lv']\<rparr>"
  have wf1: "lm_wf lm1" unfolding lm1_def by (rule lm_wf_levels [OF wf i e(4)])
  have occ1: "occ lm1 = occ lm" by (simp add: occ_def lm1_def l0_bit_def)
  have bi1: "bits_inv lm1" and i1: "i < lm_numSlots lm1"
    using wf1 i by (simp_all add: lm_wf_def lm1_def)
  have "\<exists>lm2. (if ps = [] then setOccupied lm1 i else Some lm1) = Some lm2 \<and> lm_wf lm2 \<and>
      occ lm2 = insert i (occ lm) \<and> lm_levels lm2 = (lm_levels lm)[i := lv'] \<and>
      lm_best lm2 = lm_best lm \<and> same_geometry lm lm2"
  proof (cases "ps = []")
    case True
    obtain l0 l1 where s: "setOccupied lm1 i = Some (lm1\<lparr>lm_l0 := l0, lm_l1 := l1\<rparr>)"
      "bits_inv (lm1\<lparr>lm_l0 := l0, lm_l1 := l1\<rparr>)"
      "\<And>j. l0_bit (lm1\<lparr>lm_l0 := l0, lm_l1 := l1\<rparr>) j \<longleftrightarrow> j = i \<or> l0_bit lm1 j"
      using setOccupied_spec [of lm1 i, OF bi1 i1] by metis
    have "occ (lm1\<lparr>lm_l0 := l0, lm_l1 := l1\<rparr>) = insert i (occ lm1)"
      using s(3) i by (auto simp: occ_def lm1_def)
    with True s lm_wf_bits [OF wf1 s(2)] occ1 show ?thesis
      by (auto simp: lm1_def same_geometry_def)
  next
    case False
    with wf1 occ1 sync show ?thesis by (auto simp: lm1_def same_geometry_def insert_absorb)
  qed
  then obtain lm2 where lm2: "(if ps = [] then setOccupied lm1 i else Some lm1) = Some lm2" "lm_wf lm2"
    "occ lm2 = insert i (occ lm)" "lm_levels lm2 = (lm_levels lm)[i := lv']"
    "lm_best lm2 = lm_best lm" "same_geometry lm lm2" by blast
  define lm3 where "lm3 = (if isBetter lm2 (o_price x) (lm_best lm2) then lm2\<lparr>lm_best := o_price x\<rparr> else lm2)"
  have bet: "isBetter lm2 = isBetter lm"
    using lm2(6) by (auto simp: isBetter_def same_geometry_def fun_eq_iff)
  have g3: "same_geometry lm lm3" using lm2(6) by (auto simp: lm3_def same_geometry_def)
  have len: "i < length (lm_levels lm)" using wf i by (simp add: lm_wf_def)
  show ?thesis
  proof (rule that [of st' lm3 lv'])
    show "addOrder st lm p = Some (st', lm3)"
      unfolding addOrder_def x
      using lm2(1) len level_rep_empty [OF rep]
      by (simp add: price slot_price_range [OF wf i] e(1) lm1_def [symmetric] lm3_def)
    show "lm_inv lm3"
      using best_ok_insert [OF wf i best _ g3] lm2 by (auto simp: lm_inv_def lm3_def bet price)
    show "occ lm3 = insert i (occ lm)" "lm_levels lm3 = (lm_levels lm)[i := lv']"
      using lm2 by (auto simp: lm3_def)
  qed (use e g3 in auto)
qed

lemma newLevelMap_inv:
  assumes "0 < tick" "minP \<le> maxP" "kBidEmpty < minP" "maxP < kAskEmpty"
    "(maxP - minP) div tick < 2 ^ 63"
  shows "lm_inv (newLevelMap s minP maxP tick)" "occ (newLevelMap s minP maxP tick) = {}"
    "\<And>i. i < lm_numSlots (newLevelMap s minP maxP tick) \<Longrightarrow>
       lm_levels (newLevelMap s minP maxP tick) ! i = initLevel (minP + int i * tick)"
proof -
  let ?lm = "newLevelMap s minP maxP tick"
  have nn: "0 \<le> (maxP - minP) div tick" using assms by (simp add: pos_imp_zdiv_nonneg_iff)
  have n: "to_size ((maxP - minP) sdiv tick) = nat ((maxP - minP) div tick)"
    using assms nn by (simp add: sdiv_nonneg to_size_id)
  have zero0: "\<not> l0_bit ?lm i" if "i < 64 * lm_l0Words ?lm" for i
    using that by (simp add: l0_bit_def newLevelMap_def Let_def less_mult_imp_div_less)
  have zero1: "\<not> l1_bit ?lm i" if "i < 64 * lm_l1Words ?lm" for i
    using that by (simp add: l1_bit_def newLevelMap_def Let_def less_mult_imp_div_less)
  have words: "lm_l0Words ?lm \<le> 64 * lm_l1Words ?lm" "lm_numSlots ?lm \<le> 64 * lm_l0Words ?lm"
    by (auto simp: newLevelMap_def Let_def kBitsPerWord_def)
  have lens: "length (lm_l0 ?lm) = lm_l0Words ?lm" "length (lm_l1 ?lm) = lm_l1Words ?lm"
    "\<And>w. w < lm_l0Words ?lm \<Longrightarrow> lm_l0 ?lm ! w = 0"
    "lm_l0Words ?lm = (lm_numSlots ?lm + 63) div 64" "lm_l1Words ?lm = (lm_l0Words ?lm + 63) div 64"
    "lm_numSlots ?lm = nat ((maxP - minP) div tick) + 1"
    by (simp_all add: newLevelMap_def Let_def kBitsPerWord_def n)
  have "lm_numSlots ?lm \<le> 2 ^ 63" using assms(5) nn lens(6) by (simp add: nat_less_iff Suc_le_eq)
  moreover have "0 < lm_numSlots ?lm" using lens(6) by simp
  ultimately have bi: "bits_inv ?lm"
    unfolding bits_inv_def using zero0 zero1 words lens(1-3)
    by (intro conjI allI impI lens(4,5)) (auto dest: less_le_trans)
  show occ: "occ ?lm = {}" using zero0 words by (auto simp: occ_def)
  show lv: "lm_levels ?lm ! i = initLevel (minP + int i * tick)" if "i < lm_numSlots ?lm" for i
    using that by (simp add: newLevelMap_def Let_def del: upt_Suc)
  have fields: "lm_side ?lm = s" "lm_minPrice ?lm = minP" "lm_maxPrice ?lm = maxP" "lm_tick ?lm = tick"
    "lm_best ?lm = emptySentinel s" "length (lm_levels ?lm) = lm_numSlots ?lm"
    by (simp_all add: newLevelMap_def Let_def)
  have "lm_wf ?lm"
    unfolding lm_wf_def using bi assms lens(6) lv by (simp add: fields slot_price_def initLevel_def)
  then show "lm_inv ?lm" by (simp add: lm_inv_def best_ok_def occ fields)
qed

end
