(* ===== verification/Order_Id_Map.thy ===== *)
theory Order_Id_Map
  imports Velox_Types
begin

text \<open>
  \<^verbatim>\<open>book/order_id_map.hpp\<close>: order id to order pointer, open addressing with linear probing and
  backward-shift deletion. The three parallel arrays are lists; the probe loops carry the number of
  probes left; the shift loop of \<^verbatim>\<open>erase\<close> is a \<^verbatim>\<open>for (;;)\<close> and is a partial function, so that
  its termination is a theorem and not part of the definition.

  The interface the order book relies on is the locale \<open>id_index\<close>; the map interprets it.
\<close>

section \<open>The map and its operations\<close>

datatype State = Empty | Occupied

record OrderIdMap =
  im_capacity :: nat
  im_mask :: nat
  im_keys :: "OrderId list"
  im_values :: "ptr option list"
  im_state :: "State list"
  im_size :: nat

definition newOrderIdMap :: "nat \<Rightarrow> OrderIdMap" where
  "newOrderIdMap capacityPowerOfTwo =
     \<lparr>im_capacity = capacityPowerOfTwo, im_mask = capacityPowerOfTwo - 1,
      im_keys = replicate capacityPowerOfTwo 0, im_values = replicate capacityPowerOfTwo None,
      im_state = replicate capacityPowerOfTwo Empty, im_size = 0\<rparr>"

definition slot :: "OrderIdMap \<Rightarrow> OrderId \<Rightarrow> nat" where
  "slot m oid =
     unat (drop_bit 32 ((word_of_int oid :: 64 word) * 0x9E3779B97F4A7C15)) AND im_mask m"

definition step :: "OrderIdMap \<Rightarrow> nat \<Rightarrow> nat" where
  "step m i = (i + 1) AND im_mask m"

fun insert_probe :: "OrderIdMap \<Rightarrow> OrderId \<Rightarrow> ptr \<Rightarrow> nat \<Rightarrow> nat \<Rightarrow> (bool \<times> OrderIdMap) option" where
  "insert_probe m oid p i 0 = Some (False, m)"
| "insert_probe m oid p i (Suc n) = do {
     s \<leftarrow> nth_opt (im_state m) i;
     k \<leftarrow> nth_opt (im_keys m) i;
     if s = Occupied \<and> k = oid then Some (False, m)
     else if s \<noteq> Occupied then do {
       ks \<leftarrow> upd_opt (im_keys m) i oid;
       vs \<leftarrow> upd_opt (im_values m) i (Some p);
       ss \<leftarrow> upd_opt (im_state m) i Occupied;
       Some (True, m\<lparr>im_keys := ks, im_values := vs, im_state := ss, im_size := im_size m + 1\<rparr>)
     }
     else insert_probe m oid p (step m i) n
   }"

definition insert_id :: "OrderIdMap \<Rightarrow> OrderId \<Rightarrow> ptr \<Rightarrow> (bool \<times> OrderIdMap) option" where
  "insert_id m oid p = insert_probe m oid p (slot m oid) (im_capacity m)"

fun find_probe :: "OrderIdMap \<Rightarrow> OrderId \<Rightarrow> nat \<Rightarrow> nat \<Rightarrow> ptr option option" where
  "find_probe m oid i 0 = Some None"
| "find_probe m oid i (Suc n) = do {
     s \<leftarrow> nth_opt (im_state m) i;
     if s = Empty then Some None
     else do {
       k \<leftarrow> nth_opt (im_keys m) i;
       if k = oid then nth_opt (im_values m) i
       else find_probe m oid (step m i) n
     }
   }"

definition find_id :: "OrderIdMap \<Rightarrow> OrderId \<Rightarrow> ptr option option" where
  "find_id m oid = find_probe m oid (slot m oid) (im_capacity m)"

text \<open>The first loop of \<^verbatim>\<open>erase\<close>: the slot that holds the id, or nothing.\<close>

fun erase_probe :: "OrderIdMap \<Rightarrow> OrderId \<Rightarrow> nat \<Rightarrow> nat \<Rightarrow> nat option option" where
  "erase_probe m oid i 0 = Some None"
| "erase_probe m oid i (Suc n) = do {
     s \<leftarrow> nth_opt (im_state m) i;
     if s = Empty then Some None
     else do {
       k \<leftarrow> nth_opt (im_keys m) i;
       if k = oid then Some (Some i)
       else erase_probe m oid (step m i) n
     }
   }"

text \<open>The second loop: \<open>i\<close> is the hole, \<open>j\<close> the slot looked at last.\<close>

partial_function (option) shift_back :: "OrderIdMap \<Rightarrow> nat \<Rightarrow> nat \<Rightarrow> (OrderIdMap \<times> nat) option" where
  "shift_back m i j0 = do {
     let j = step m j0;
     s \<leftarrow> nth_opt (im_state m) j;
     if s = Empty then Some (m, i)
     else do {
       k \<leftarrow> nth_opt (im_keys m) j;
       let home = slot m k;
       if (if i \<le> j then home \<le> i \<or> home > j else home \<le> i \<and> home > j) then do {
         v \<leftarrow> nth_opt (im_values m) j;
         ks \<leftarrow> upd_opt (im_keys m) i k;
         vs \<leftarrow> upd_opt (im_values m) i v;
         ss \<leftarrow> upd_opt (im_state m) i Occupied;
         shift_back (m\<lparr>im_keys := ks, im_values := vs, im_state := ss\<rparr>) j j
       }
       else shift_back m i j
     }
   }"

definition erase_id :: "OrderIdMap \<Rightarrow> OrderId \<Rightarrow> (bool \<times> OrderIdMap) option" where
  "erase_id m oid = do {
     r \<leftarrow> erase_probe m oid (slot m oid) (im_capacity m);
     case r of
       None \<Rightarrow> Some (False, m)
     | Some i \<Rightarrow> do {
         (m1, h) \<leftarrow> shift_back m i i;
         ss \<leftarrow> upd_opt (im_state m1) h Empty;
         vs \<leftarrow> upd_opt (im_values m1) h None;
         Some (True, m1\<lparr>im_state := ss, im_values := vs, im_size := im_size m1 - 1\<rparr>)
       }
   }"

text \<open>\<^verbatim>\<open>forEach\<close> visits the occupied slots in slot order.\<close>

definition for_each :: "OrderIdMap \<Rightarrow> (OrderId \<times> ptr option) list" where
  "for_each m =
     map (\<lambda>i. (im_keys m ! i, im_values m ! i))
       (filter (\<lambda>i. im_state m ! i = Occupied) [0..<im_capacity m])"

section \<open>Cyclic distance\<close>

definition cdist :: "nat \<Rightarrow> nat \<Rightarrow> nat \<Rightarrow> nat" where
  "cdist C a b = (if a \<le> b then b - a else b + C - a)"

definition im_occ :: "OrderIdMap \<Rightarrow> nat \<Rightarrow> bool" where
  "im_occ m x \<longleftrightarrow> x < im_capacity m \<and> im_state m ! x = Occupied"

definition home :: "OrderIdMap \<Rightarrow> nat \<Rightarrow> nat" where
  "home m x = slot m (im_keys m ! x)"

definition im_wf :: "OrderIdMap \<Rightarrow> bool" where
  "im_wf m \<longleftrightarrow>
     (\<exists>k. im_capacity m = 2 ^ k) \<and> im_mask m = im_capacity m - 1 \<and>
     length (im_keys m) = im_capacity m \<and> length (im_values m) = im_capacity m \<and>
     length (im_state m) = im_capacity m"

text \<open>
  The probe invariant: every slot from the home of an entry up to the entry is occupied.
\<close>

definition probe_inv :: "OrderIdMap \<Rightarrow> bool" where
  "probe_inv m \<longleftrightarrow>
     (\<forall>x y. im_occ m x \<and> y < im_capacity m \<and>
        cdist (im_capacity m) (home m x) y < cdist (im_capacity m) (home m x) x \<longrightarrow> im_occ m y)"

definition keys_distinct :: "OrderIdMap \<Rightarrow> bool" where
  "keys_distinct m \<longleftrightarrow>
     (\<forall>x y. im_occ m x \<and> im_occ m y \<and> im_keys m ! x = im_keys m ! y \<longrightarrow> x = y)"

definition im_inv :: "OrderIdMap \<Rightarrow> bool" where
  "im_inv m \<longleftrightarrow> im_wf m \<and> probe_inv m \<and> keys_distinct m \<and>
     (\<forall>x. im_occ m x \<longrightarrow> im_values m ! x \<noteq> None) \<and>
     im_size m = card {x. im_occ m x}"

definition im_lookup :: "OrderIdMap \<Rightarrow> OrderId \<Rightarrow> ptr option" where
  "im_lookup m oid = (case find_id m oid of Some r \<Rightarrow> r | None \<Rightarrow> None)"

lemma mask_mod:
  fixes x :: nat
  assumes "im_wf m"
  shows "x AND im_mask m = x mod im_capacity m"
proof -
  obtain k where k: "im_capacity m = 2 ^ k" "im_mask m = mask k"
    using assms by (auto simp: im_wf_def mask_eq_exp_minus_1)
  then show ?thesis by (simp add: take_bit_eq_mask [symmetric] take_bit_eq_mod)
qed

lemma capacity_pos: "im_wf m \<Longrightarrow> 0 < im_capacity m"
  by (auto simp: im_wf_def)

lemma slot_less: "im_wf m \<Longrightarrow> slot m oid < im_capacity m"
  by (simp add: slot_def mask_mod capacity_pos)

lemma step_eq: "im_wf m \<Longrightarrow> i < im_capacity m \<Longrightarrow> step m i = (if i + 1 = im_capacity m then 0 else i + 1)"
  by (auto simp: step_def mask_mod)

lemma step_less: "im_wf m \<Longrightarrow> i < im_capacity m \<Longrightarrow> step m i < im_capacity m"
  by (auto simp: step_eq capacity_pos)

lemma cdist_step:
  "im_wf m \<Longrightarrow> i < im_capacity m \<Longrightarrow> h < im_capacity m \<Longrightarrow> step m i \<noteq> h \<Longrightarrow>
   cdist (im_capacity m) h (step m i) = cdist (im_capacity m) h i + 1"
  by (auto simp: step_eq cdist_def split: if_splits)

lemma cdist_less: "a < C \<Longrightarrow> b < C \<Longrightarrow> cdist C a b < C"
  by (auto simp: cdist_def)

lemma cdist_step_neq:
  "im_wf m \<Longrightarrow> i < im_capacity m \<Longrightarrow> h < im_capacity m \<Longrightarrow> x < im_capacity m \<Longrightarrow>
   cdist (im_capacity m) h i < cdist (im_capacity m) h x \<Longrightarrow> step m i \<noteq> h"
  by (auto simp: step_eq cdist_def split: if_splits)

lemma cdist_inj: "a < C \<Longrightarrow> b < C \<Longrightarrow> c < C \<Longrightarrow> cdist C a b = cdist C a c \<longleftrightarrow> b = c"
  by (auto simp: cdist_def split: if_splits)

section \<open>Probing\<close>

lemma probe_hit:
  assumes wf: "im_wf m" and inv: "probe_inv m" "keys_distinct m"
    and x: "im_occ m x" "im_keys m ! x = oid"
    and "i < im_capacity m" "cdist (im_capacity m) (slot m oid) i \<le> cdist (im_capacity m) (slot m oid) x"
    and "cdist (im_capacity m) (slot m oid) x < cdist (im_capacity m) (slot m oid) i + n"
  shows "find_probe m oid i n = Some (im_values m ! x) \<and> erase_probe m oid i n = Some (Some x) \<and>
    insert_probe m oid p i n = Some (False, m)"
  using assms(6-)
proof (induction n arbitrary: i)
  case (Suc n)
  let ?C = "im_capacity m" and ?h = "slot m oid"
  have h: "?h < ?C" by (rule slot_less [OF wf])
  have xC: "x < ?C" using x by (simp add: im_occ_def)
  have len: "length (im_state m) = ?C" "length (im_keys m) = ?C" "length (im_values m) = ?C"
    using wf by (auto simp: im_wf_def)
  have io: "im_occ m i"
  proof (cases "i = x")
    case False
    then have "cdist ?C ?h i < cdist ?C ?h x"
      using Suc.prems cdist_inj [OF h Suc.prems(1) xC] by linarith
    then show ?thesis using inv(1) x Suc.prems(1) by (auto simp: probe_inv_def home_def)
  qed (use x in simp)
  show ?case
  proof (cases "i = x")
    case True
    then show ?thesis using x xC len by (simp add: im_occ_def)
  next
    case False
    then have "im_keys m ! i \<noteq> oid" using inv(2) io x by (auto simp: keys_distinct_def)
    moreover have lt: "cdist ?C ?h i < cdist ?C ?h x"
      using Suc.prems False cdist_inj [OF h Suc.prems(1) xC] by linarith
    moreover note st = cdist_step [OF wf Suc.prems(1) h cdist_step_neq [OF wf Suc.prems(1) h xC lt]]
    ultimately show ?thesis
      using Suc.IH [OF step_less [OF wf Suc.prems(1)]] Suc.prems io len
      by (simp add: im_occ_def)
  qed
qed simp

lemma probe_miss:
  assumes wf: "im_wf m" and none: "\<And>x. im_occ m x \<Longrightarrow> im_keys m ! x \<noteq> oid"
    and "i < im_capacity m"
  shows "find_probe m oid i n = Some None \<and> erase_probe m oid i n = Some None"
  using assms(3)
proof (induction n arbitrary: i)
  case (Suc n)
  have len: "length (im_state m) = im_capacity m" "length (im_keys m) = im_capacity m"
    using wf by (auto simp: im_wf_def)
  show ?case
    using Suc.IH [OF step_less [OF wf Suc.prems]] Suc.prems len none [of i]
    by (cases "im_state m ! i") (auto simp: im_occ_def)
qed simp

lemma probe_insert:
  assumes wf: "im_wf m" and none: "\<And>x. im_occ m x \<Longrightarrow> im_keys m ! x \<noteq> oid"
    and e: "e < im_capacity m" "im_state m ! e = Empty"
    and gap: "\<And>y. y < im_capacity m \<Longrightarrow>
       cdist (im_capacity m) (slot m oid) y < cdist (im_capacity m) (slot m oid) e \<Longrightarrow> im_occ m y"
    and "i < im_capacity m" "cdist (im_capacity m) (slot m oid) i \<le> cdist (im_capacity m) (slot m oid) e"
    and "cdist (im_capacity m) (slot m oid) e < cdist (im_capacity m) (slot m oid) i + n"
  shows "insert_probe m oid p i n =
    Some (True, m\<lparr>im_keys := (im_keys m)[e := oid], im_values := (im_values m)[e := Some p],
                 im_state := (im_state m)[e := Occupied], im_size := im_size m + 1\<rparr>)"
  using assms(6-)
proof (induction n arbitrary: i)
  case (Suc n)
  let ?C = "im_capacity m" and ?h = "slot m oid"
  have h: "?h < ?C" by (rule slot_less [OF wf])
  have len: "length (im_state m) = ?C" "length (im_keys m) = ?C" "length (im_values m) = ?C"
    using wf by (auto simp: im_wf_def)
  show ?case
  proof (cases "i = e")
    case True
    then show ?thesis using e len by simp
  next
    case False
    then have lt: "cdist ?C ?h i < cdist ?C ?h e"
      using Suc.prems cdist_inj [OF h Suc.prems(1) e(1)] by linarith
    have io: "im_occ m i" by (rule gap [OF Suc.prems(1) lt])
    moreover note st = cdist_step [OF wf Suc.prems(1) h cdist_step_neq [OF wf Suc.prems(1) h e(1) lt]]
    ultimately show ?thesis
      using Suc.IH [OF step_less [OF wf Suc.prems(1)]] Suc.prems len lt none [OF io]
      by (simp add: im_occ_def)
  qed
qed simp


section \<open>Lookup and insertion\<close>

lemma im_occ_finite [simp]: "finite {x. im_occ m x}"
  by (simp add: im_occ_def)

lemma find_id_hit:
  assumes "im_inv m" "im_occ m x" "im_keys m ! x = oid"
  shows "find_id m oid = Some (im_values m ! x)" "im_lookup m oid = im_values m ! x"
    "erase_probe m oid (slot m oid) (im_capacity m) = Some (Some x)"
    "insert_id m oid p = Some (False, m)"
proof -
  have wf: "im_wf m" and x: "x < im_capacity m" using assms by (auto simp: im_inv_def im_occ_def)
  note sl = slot_less [OF wf, of oid]
  have "cdist (im_capacity m) (slot m oid) (slot m oid) = 0" by (simp add: cdist_def)
  then have *: "find_probe m oid (slot m oid) (im_capacity m) = Some (im_values m ! x) \<and>
      erase_probe m oid (slot m oid) (im_capacity m) = Some (Some x) \<and>
      insert_probe m oid p (slot m oid) (im_capacity m) = Some (False, m)"
    using assms cdist_less [OF sl x]
    by (intro probe_hit [OF wf]) (auto simp: im_inv_def sl)
  then show "find_id m oid = Some (im_values m ! x)" "im_lookup m oid = im_values m ! x"
    "erase_probe m oid (slot m oid) (im_capacity m) = Some (Some x)"
    "insert_id m oid p = Some (False, m)"
    by (auto simp: find_id_def im_lookup_def insert_id_def)
qed

lemma find_id_miss:
  assumes "im_inv m" "\<And>x. im_occ m x \<Longrightarrow> im_keys m ! x \<noteq> oid"
  shows "find_id m oid = Some None" "im_lookup m oid = None"
    "erase_probe m oid (slot m oid) (im_capacity m) = Some None"
proof -
  have wf: "im_wf m" using assms(1) by (simp add: im_inv_def)
  have "find_probe m oid (slot m oid) (im_capacity m) = Some None \<and>
      erase_probe m oid (slot m oid) (im_capacity m) = Some None"
    by (rule probe_miss [OF wf assms(2) slot_less [OF wf]])
  then show "find_id m oid = Some None" "im_lookup m oid = None"
    "erase_probe m oid (slot m oid) (im_capacity m) = Some None"
    by (auto simp: find_id_def im_lookup_def)
qed

lemma im_lookup_iff:
  assumes "im_inv m"
  shows "im_lookup m oid = Some p \<longleftrightarrow> (\<exists>x. im_occ m x \<and> im_keys m ! x = oid \<and> im_values m ! x = Some p)"
proof (cases "\<exists>x. im_occ m x \<and> im_keys m ! x = oid")
  case True
  then obtain x where x: "im_occ m x" "im_keys m ! x = oid" by blast
  have uniq: "\<And>y. im_occ m y \<and> im_keys m ! y = oid \<Longrightarrow> y = x"
    using assms x unfolding im_inv_def keys_distinct_def by blast
  show ?thesis unfolding find_id_hit(2) [OF assms x]
  proof
    assume "im_values m ! x = Some p"
    then show "\<exists>x. im_occ m x \<and> im_keys m ! x = oid \<and> im_values m ! x = Some p" using x by blast
  next
    assume "\<exists>x. im_occ m x \<and> im_keys m ! x = oid \<and> im_values m ! x = Some p"
    then show "im_values m ! x = Some p" using uniq by blast
  qed
next
  case False
  then show ?thesis using find_id_miss(2) [OF assms, of oid] by auto
qed

lemma find_id_lookup:
  assumes "im_inv m"
  shows "find_id m oid = Some (im_lookup m oid)"
proof (cases "\<exists>x. im_occ m x \<and> im_keys m ! x = oid")
  case True
  then show ?thesis using find_id_hit(1,2) [OF assms] by auto
next
  case False
  then show ?thesis using find_id_miss(1,2) [OF assms] by auto
qed

lemma im_lookup_None_iff: "im_inv m \<Longrightarrow> im_lookup m oid = None \<longleftrightarrow> (\<forall>x. im_occ m x \<longrightarrow> im_keys m ! x \<noteq> oid)"
  using im_lookup_iff [of m oid] find_id_miss(2) [of m oid] by (auto simp: im_inv_def)

lemma first_empty:
  assumes "e0 < im_capacity m" "im_state m ! e0 = Empty" "h < im_capacity m"
  obtains e where "e < im_capacity m" "im_state m ! e = Empty"
    "\<And>y. y < im_capacity m \<Longrightarrow> cdist (im_capacity m) h y < cdist (im_capacity m) h e \<Longrightarrow> im_occ m y"
proof -
  define P where "P e \<longleftrightarrow> e < im_capacity m \<and> im_state m ! e = Empty" for e
  have "P e0" using assms by (simp add: P_def)
  from ex_has_least_nat [of P e0 "cdist (im_capacity m) h", OF this]
  obtain e where e: "P e" "\<And>y. P y \<Longrightarrow> cdist (im_capacity m) h e \<le> cdist (im_capacity m) h y" by blast
  show ?thesis
  proof (rule that [of e])
    fix y assume "y < im_capacity m" "cdist (im_capacity m) h y < cdist (im_capacity m) h e"
    with e(2) [of y] show "im_occ m y"
      by (cases "im_state m ! y") (auto simp: P_def im_occ_def)
  qed (use e in \<open>auto simp: P_def\<close>)
qed

lemma empty_slot_exists:
  assumes "im_inv m" "im_size m < im_capacity m"
  obtains e where "e < im_capacity m" "im_state m ! e = Empty"
proof -
  have "{x. im_occ m x} \<noteq> {..<im_capacity m}"
    using assms by (auto simp: im_inv_def)
  then obtain e where "e < im_capacity m" "\<not> im_occ m e"
    by (auto simp: im_occ_def)
  with that show ?thesis by (cases "im_state m ! e") (auto simp: im_occ_def)
qed

lemma insert_id_fresh:
  assumes inv: "im_inv m" and fresh: "im_lookup m oid = None" and room: "im_size m < im_capacity m"
  obtains m' where "insert_id m oid p = Some (True, m')" "im_inv m'"
    "im_lookup m' = (im_lookup m)(oid \<mapsto> p)" "im_size m' = im_size m + 1" "im_capacity m' = im_capacity m"
proof -
  let ?C = "im_capacity m" and ?h = "slot m oid"
  have wf: "im_wf m" using inv by (simp add: im_inv_def)
  have none: "\<And>x. im_occ m x \<Longrightarrow> im_keys m ! x \<noteq> oid" using im_lookup_None_iff [OF inv] fresh by blast
  note h = slot_less [OF wf, of oid]
  obtain e0 where "e0 < ?C" "im_state m ! e0 = Empty"
    by (rule empty_slot_exists [OF inv room])
  from first_empty [OF this h] obtain e where e: "e < ?C" "im_state m ! e = Empty"
      "\<And>y. y < ?C \<Longrightarrow> cdist ?C ?h y < cdist ?C ?h e \<Longrightarrow> im_occ m y" by blast
  define m' where "m' = m\<lparr>im_keys := (im_keys m)[e := oid], im_values := (im_values m)[e := Some p],
                 im_state := (im_state m)[e := Occupied], im_size := im_size m + 1\<rparr>"
  have len: "length (im_state m) = ?C" "length (im_keys m) = ?C" "length (im_values m) = ?C"
    using wf by (auto simp: im_wf_def)
  have ins: "insert_id m oid p = Some (True, m')"
    unfolding insert_id_def m'_def using cdist_less [OF h e(1)]
    by (intro probe_insert [OF wf none e]) (auto simp: h cdist_def [of ?C ?h ?h])
  have occ': "im_occ m' x \<longleftrightarrow> x = e \<or> im_occ m x" for x
    using e len by (auto simp: m'_def im_occ_def nth_list_update)
  have neq: "\<not> im_occ m e" using e by (simp add: im_occ_def)
  have cap: "im_capacity m' = ?C" "slot m' = slot m" by (auto simp: m'_def slot_def fun_eq_iff)
  have keys: "im_keys m' ! x = (if x = e then oid else im_keys m ! x)"
    "im_values m' ! x = (if x = e then Some p else im_values m ! x)" if "im_occ m' x" for x
    using that e len by (auto simp: m'_def nth_list_update)
  have pr: "probe_inv m'"
    unfolding probe_inv_def
  proof (intro allI impI, elim conjE)
    fix x y
    assume x: "im_occ m' x" and y: "y < im_capacity m'"
      and d: "cdist (im_capacity m') (home m' x) y < cdist (im_capacity m') (home m' x) x"
    show "im_occ m' y"
    proof (cases "x = e")
      case True
      with y d e(3) [of y] keys(1) [OF x] show ?thesis by (simp add: home_def cap occ')
    next
      case False
      then have "im_occ m x" "home m' x = home m x" using x keys(1) [OF x] by (auto simp: occ' home_def cap)
      then have "im_occ m y"
        using y d inv by (auto simp: cap im_inv_def probe_inv_def)
      then show ?thesis by (simp add: occ')
    qed
  qed
  have "keys_distinct m'"
    unfolding keys_distinct_def
  proof (intro allI impI, elim conjE)
    fix x y assume xy: "im_occ m' x" "im_occ m' y" "im_keys m' ! x = im_keys m' ! y"
    have "im_occ m x \<Longrightarrow> im_occ m y \<Longrightarrow> im_keys m ! x = im_keys m ! y \<Longrightarrow> x = y"
      using inv by (auto simp: im_inv_def keys_distinct_def)
    with xy keys(1) [OF xy(1)] keys(1) [OF xy(2)] none show "x = y"
      by (auto simp: occ' split: if_splits)
  qed
  moreover have "im_size m' = card {x. im_occ m' x}"
  proof -
    have "{x. im_occ m' x} = insert e {x. im_occ m x}" using occ' by auto
    then show ?thesis using inv neq by (simp add: im_inv_def m'_def)
  qed
  moreover have "im_wf m'" using wf by (simp add: im_wf_def m'_def)
  ultimately have inv': "im_inv m'"
    using pr inv keys(2) occ' by (auto simp: im_inv_def)
  have lk: "im_lookup m' k = ((im_lookup m)(oid \<mapsto> p)) k" for k
  proof (cases "\<exists>x. im_occ m' x \<and> im_keys m' ! x = k")
    case True
    then obtain x where x: "im_occ m' x" "im_keys m' ! x = k" by blast
    then show ?thesis
      using find_id_hit(2) [OF inv' x] find_id_hit(2) [OF inv, of x k] keys [OF x(1)] none
      by (cases "x = e") (auto simp: occ')
  next
    case False
    then have "k \<noteq> oid" using keys(1) [of e] by (auto simp: occ')
    moreover have "\<And>x. im_occ m x \<Longrightarrow> im_keys m ! x \<noteq> k"
      using False keys(1) neq by (metis occ')
    ultimately show ?thesis
      using False find_id_miss(2) [OF inv'] find_id_miss(2) [OF inv] by auto
  qed
  show ?thesis
  proof (rule that [OF ins inv'])
    show "im_lookup m' = (im_lookup m)(oid \<mapsto> p)" by (rule ext) (rule lk)
  qed (simp_all add: m'_def)
qed

section \<open>Backward-shift deletion\<close>

text \<open>
  The state of the shift loop: slot \<open>i\<close> is the hole (its state byte is still set), the scan has
  reached \<open>j\<close>. The probe path of every other entry is occupied, and if it runs through the hole
  then the entry lies behind the scan.
\<close>

definition holed :: "OrderIdMap \<Rightarrow> nat \<Rightarrow> nat \<Rightarrow> bool" where
  "holed m i j \<longleftrightarrow> im_wf m \<and> im_occ m i \<and> im_occ m j \<and>
     (\<forall>y < im_capacity m. cdist (im_capacity m) i y \<le> cdist (im_capacity m) i j \<longrightarrow> im_occ m y) \<and>
     (\<forall>x y. im_occ m x \<and> x \<noteq> i \<and> y < im_capacity m \<and>
        cdist (im_capacity m) (home m x) y < cdist (im_capacity m) (home m x) x \<longrightarrow>
        im_occ m y \<and> (y = i \<longrightarrow> cdist (im_capacity m) i j < cdist (im_capacity m) i x)) \<and>
     (\<forall>x y. im_occ m x \<and> im_occ m y \<and> x \<noteq> i \<and> y \<noteq> i \<and> im_keys m ! x = im_keys m ! y \<longrightarrow> x = y) \<and>
     (\<forall>x. im_occ m x \<and> x \<noteq> i \<longrightarrow> im_values m ! x \<noteq> None)"

definition ents :: "OrderIdMap \<Rightarrow> nat \<Rightarrow> (OrderId \<times> ptr option) set" where
  "ents m i = {(im_keys m ! x, im_values m ! x) | x. im_occ m x \<and> x \<noteq> i}"

lemma holedD:
  assumes "holed m i j"
  shows "im_wf m" "im_occ m i" "im_occ m j"
    and "\<forall>y < im_capacity m. cdist (im_capacity m) i y \<le> cdist (im_capacity m) i j \<longrightarrow> im_occ m y"
    and "\<forall>x y. im_occ m x \<and> x \<noteq> i \<and> y < im_capacity m \<and>
        cdist (im_capacity m) (home m x) y < cdist (im_capacity m) (home m x) x \<longrightarrow>
        im_occ m y \<and> (y = i \<longrightarrow> cdist (im_capacity m) i j < cdist (im_capacity m) i x)"
    and "\<forall>x y. im_occ m x \<and> im_occ m y \<and> x \<noteq> i \<and> y \<noteq> i \<and> im_keys m ! x = im_keys m ! y \<longrightarrow> x = y"
    and "\<forall>x. im_occ m x \<and> x \<noteq> i \<longrightarrow> im_values m ! x \<noteq> None"
  using assms unfolding holed_def by - (elim conjE, assumption)+

lemma holed_path:
  assumes "holed m i j" "im_occ m x" "x \<noteq> i" "y < im_capacity m"
    "cdist (im_capacity m) (home m x) y < cdist (im_capacity m) (home m x) x"
  shows "im_occ m y" "y = i \<Longrightarrow> cdist (im_capacity m) i j < cdist (im_capacity m) i x"
  using holedD(5) [OF assms(1), rule_format, of x y] assms(2-) by simp_all

lemma holed_between:
  "holed m i j \<Longrightarrow> y < im_capacity m \<Longrightarrow> cdist (im_capacity m) i y \<le> cdist (im_capacity m) i j \<Longrightarrow> im_occ m y"
  by (drule holedD(4)) simp

lemma holed_keys:
  "holed m i j \<Longrightarrow> im_occ m x \<Longrightarrow> im_occ m y \<Longrightarrow> x \<noteq> i \<Longrightarrow> y \<noteq> i \<Longrightarrow> im_keys m ! x = im_keys m ! y \<Longrightarrow> x = y"
  "holed m i j \<Longrightarrow> im_occ m x \<Longrightarrow> x \<noteq> i \<Longrightarrow> im_values m ! x \<noteq> None"
  by (drule holedD(6), blast) (drule holedD(7), blast)

lemma holedI:
  assumes "im_wf m" "im_occ m i" "im_occ m j"
    and "\<And>y. y < im_capacity m \<Longrightarrow> cdist (im_capacity m) i y \<le> cdist (im_capacity m) i j \<Longrightarrow> im_occ m y"
    and "\<And>x y. im_occ m x \<Longrightarrow> x \<noteq> i \<Longrightarrow> y < im_capacity m \<Longrightarrow>
        cdist (im_capacity m) (home m x) y < cdist (im_capacity m) (home m x) x \<Longrightarrow>
        im_occ m y \<and> (y = i \<longrightarrow> cdist (im_capacity m) i j < cdist (im_capacity m) i x)"
    and "\<And>x y. im_occ m x \<Longrightarrow> im_occ m y \<Longrightarrow> x \<noteq> i \<Longrightarrow> y \<noteq> i \<Longrightarrow> im_keys m ! x = im_keys m ! y \<Longrightarrow> x = y"
    and "\<And>x. im_occ m x \<Longrightarrow> x \<noteq> i \<Longrightarrow> im_values m ! x \<noteq> None"
  shows "holed m i j"
  proof -
  have "\<forall>x y. im_occ m x \<and> x \<noteq> i \<and> y < im_capacity m \<and>
      cdist (im_capacity m) (home m x) y < cdist (im_capacity m) (home m x) x \<longrightarrow>
      im_occ m y \<and> (y = i \<longrightarrow> cdist (im_capacity m) i j < cdist (im_capacity m) i x)"
    by (intro allI impI, elim conjE) (rule assms(5))
  moreover have "\<forall>x y. im_occ m x \<and> im_occ m y \<and> x \<noteq> i \<and> y \<noteq> i \<and> im_keys m ! x = im_keys m ! y \<longrightarrow> x = y"
    by (intro allI impI, elim conjE) (rule assms(6))
  ultimately show ?thesis unfolding holed_def using assms(1-4,7) by blast
qed

lemma move_back_iff:
  assumes "i < C" "j < C" "h < C" "i \<noteq> j"
  shows "(if i \<le> j then h \<le> i \<or> h > j else h \<le> i \<and> h > j) \<longleftrightarrow> cdist C h i < cdist C h j"
  using assms by (auto simp: cdist_def)

lemma cdist_self [simp]: "cdist C a a = 0"
  by (simp add: cdist_def)

lemma cdist_0_iff: "a < C \<Longrightarrow> b < C \<Longrightarrow> cdist C a b = 0 \<longleftrightarrow> a = b"
  by (auto simp: cdist_def)

lemma cdist_add:
  "h < C \<Longrightarrow> i < C \<Longrightarrow> x < C \<Longrightarrow> cdist C h i \<le> cdist C h x \<Longrightarrow> cdist C i x = cdist C h x - cdist C h i"
  by (auto simp: cdist_def split: if_splits)

lemma cdist_via:
  assumes "h < C" "i < C" "x < C" "y < C" "cdist C h i < cdist C h x" "cdist C i y < cdist C i x"
  shows "cdist C h y < cdist C h x"
  using assms cdist_add [of h C i x] cdist_add [of h C i y] by (cases "cdist C h i \<le> cdist C h y") auto

text \<open>The scan moves on from \<open>j\<close>; it meets an empty slot before it returns to the hole.\<close>

lemma scan_step:
  assumes hd: "holed m i j" and e: "e < im_capacity m" "im_state m ! e = Empty"
  shows "step m j < im_capacity m" "step m j \<noteq> i"
    "cdist (im_capacity m) i (step m j) = cdist (im_capacity m) i j + 1"
    "cdist (im_capacity m) (step m j) e < cdist (im_capacity m) j e"
proof -
  have wf: "im_wf m" and i: "i < im_capacity m" and j: "j < im_capacity m" "im_occ m j"
    using holedD(1-3) [OF hd] by (auto simp: im_occ_def)
  have ne: "\<not> im_occ m e" using e by (simp add: im_occ_def)
  show "step m j < im_capacity m" by (rule step_less [OF wf j(1)])
  have lt: "cdist (im_capacity m) i j < cdist (im_capacity m) i e"
    using holed_between [OF hd e(1)] ne by linarith
  show ni: "step m j \<noteq> i" by (rule cdist_step_neq [OF wf j(1) i e(1) lt])
  show "cdist (im_capacity m) i (step m j) = cdist (im_capacity m) i j + 1"
    by (rule cdist_step [OF wf j(1) i ni])
  have "j \<noteq> e" using j ne by auto
  then show "cdist (im_capacity m) (step m j) e < cdist (im_capacity m) j e"
    using wf j(1) e(1) by (auto simp: step_eq cdist_def split: if_splits)
qed

lemma holed_scan_on:
  assumes hd: "holed m i j" and e: "e < im_capacity m" "im_state m ! e = Empty"
    and j': "im_occ m (step m j)"
    and stay: "\<not> cdist (im_capacity m) (home m (step m j)) i < cdist (im_capacity m) (home m (step m j)) (step m j)"
  shows "holed m i (step m j)"
proof -
  let ?C = "im_capacity m" and ?j = "step m j"
  note s = scan_step [OF hd e]
  have i: "i < ?C" using holedD(1-3) [OF hd] by (auto simp: im_occ_def)
  have btw: "im_occ m y" if "y < ?C" "cdist ?C i y \<le> cdist ?C i ?j" for y
  proof (cases "y = ?j")
    case False
    then have "cdist ?C i y \<noteq> cdist ?C i ?j" using cdist_inj [OF i that(1) s(1)] by simp
    then show ?thesis using holed_between [OF hd that(1)] that s(3) by linarith
  qed (use j' in simp)
  have beyond: "cdist ?C i ?j < cdist ?C i x"
    if x: "im_occ m x" "x \<noteq> i" "cdist ?C (home m x) i < cdist ?C (home m x) x" for x
  proof -
    have "cdist ?C i j < cdist ?C i x" by (rule holed_path(2) [OF hd x(1,2) i x(3)]) simp
    moreover have "x \<noteq> ?j" using stay x by auto
    then have "cdist ?C i x \<noteq> cdist ?C i ?j" using cdist_inj [OF i _ s(1)] x by (auto simp: im_occ_def)
    ultimately show ?thesis using s(3) by linarith
  qed
  show ?thesis
  proof (rule holedI)
    fix x y assume *: "im_occ m x" "x \<noteq> i" "y < ?C" "cdist ?C (home m x) y < cdist ?C (home m x) x"
    show "im_occ m y \<and> (y = i \<longrightarrow> cdist ?C i ?j < cdist ?C i x)"
      using holed_path(1) [OF hd *] beyond * by auto
  qed (use j' btw holedD(1,2) [OF hd] holed_keys [OF hd] in blast)+
qed

lemma holed_move:
  assumes hd: "holed m i j" and e: "e < im_capacity m" "im_state m ! e = Empty"
    and j': "im_occ m (step m j)"
    and mvb: "cdist (im_capacity m) (home m (step m j)) i < cdist (im_capacity m) (home m (step m j)) (step m j)"
  defines "m2 \<equiv> m\<lparr>im_keys := (im_keys m)[i := im_keys m ! step m j],
      im_values := (im_values m)[i := im_values m ! step m j], im_state := (im_state m)[i := Occupied]\<rparr>"
  shows "holed m2 (step m j) (step m j)" "ents m2 (step m j) = ents m i" "im_state m2 = im_state m"
proof -
  let ?C = "im_capacity m" and ?j = "step m j"
  note s = scan_step [OF hd e]
  have wf: "im_wf m" and i: "i < ?C" "im_occ m i" using holedD(1-3) [OF hd] by (auto simp: im_occ_def)
  have len: "length (im_state m) = ?C" "length (im_keys m) = ?C" "length (im_values m) = ?C"
    using wf by (auto simp: im_wf_def)
  show st: "im_state m2 = im_state m"
    using i by (simp add: m2_def im_occ_def list_update_same_conv len)
  have occ2: "im_occ m2 x \<longleftrightarrow> im_occ m x" for x using st by (simp add: im_occ_def m2_def)
  have kv: "im_keys m2 ! x = im_keys m ! (if x = i then ?j else x)"
    "im_values m2 ! x = im_values m ! (if x = i then ?j else x)" for x
    using i len by (auto simp: m2_def nth_list_update)
  have hm: "home m2 x = home m (if x = i then ?j else x)" for x
    using kv(1) [of x] by (simp add: home_def slot_def m2_def)
  have cap: "im_capacity m2 = ?C" by (simp add: m2_def)
  define f where "f x = (if x = i then ?j else x)" for x
  have f: "im_occ m (f x)" "f x \<noteq> i" if "im_occ m x" for x
    using that j' s(2) by (auto simp: f_def)
  have finj: "f x = f y \<Longrightarrow> x \<noteq> ?j \<Longrightarrow> y \<noteq> ?j \<Longrightarrow> x = y" for x y by (auto simp: f_def split: if_splits)
  have path: "im_occ m y \<and> (y = ?j \<longrightarrow> 0 < cdist ?C ?j x)"
    if x: "im_occ m x" "x \<noteq> ?j" and y: "y < ?C" "cdist ?C (home m (f x)) y < cdist ?C (home m (f x)) x" for x y
  proof
    have "cdist ?C (home m (f x)) x \<le> cdist ?C (home m (f x)) (f x)"
      using mvb by (auto simp: f_def)
    with y have "cdist ?C (home m (f x)) y < cdist ?C (home m (f x)) (f x)" by linarith
    then show "im_occ m y" by (rule holed_path(1) [OF hd f [OF x(1)] y(1)])
    show "y = ?j \<longrightarrow> 0 < cdist ?C ?j x"
      using cdist_0_iff [OF s(1), of x] x by (auto simp: im_occ_def)
  qed
  have one: "im_occ m y" if "y < ?C" "cdist ?C ?j y \<le> 0" for y
    using that cdist_0_iff [OF s(1) that(1)] j' by auto
  have wf2: "im_wf m2" using wf by (simp add: im_wf_def m2_def)
  have kd: "x = y" if "im_occ m x" "im_occ m y" "x \<noteq> ?j" "y \<noteq> ?j" "im_keys m ! f x = im_keys m ! f y" for x y
    by (rule finj [OF holed_keys(1) [OF hd f(1) [OF that(1)] f(1) [OF that(2)] f(2) [OF that(1)] f(2) [OF that(2)] that(5)] that(3,4)])
  have vn: "im_values m ! f x \<noteq> None" if "im_occ m x" "x \<noteq> ?j" for x
    by (rule holed_keys(2) [OF hd f [OF that(1)]])
  show "holed m2 ?j ?j"
    by (rule holedI, unfold occ2 hm kv cap cdist_self f_def [symmetric])
       (fact wf2 j' one path kd vn)+
  show "ents m2 ?j = ents m i"
  proof -
    have "f ` {x. im_occ m x \<and> x \<noteq> ?j} = {x. im_occ m x \<and> x \<noteq> i}"
    proof (intro equalityI subsetI)
      fix z assume "z \<in> {x. im_occ m x \<and> x \<noteq> i}"
      then have "z = f (if z = ?j then i else z)" "(if z = ?j then i else z) \<in> {x. im_occ m x \<and> x \<noteq> ?j}"
        using i s(2) by (auto simp: f_def)
      then show "z \<in> f ` {x. im_occ m x \<and> x \<noteq> ?j}" by blast
    qed (use f in auto)
    moreover have "ents m2 ?j = (\<lambda>x. (im_keys m ! x, im_values m ! x)) ` f ` {x. im_occ m x \<and> x \<noteq> ?j}"
      unfolding ents_def occ2 kv f_def by auto
    ultimately show ?thesis by (auto simp: ents_def)
  qed
qed

lemma shift_back_correct:
  assumes "holed m i j" "e < im_capacity m" "im_state m ! e = Empty"
  obtains m' h j' where "shift_back m i j = Some (m', h)" "holed m' h j'"
    "im_state m' ! step m' j' = Empty" "step m' j' < im_capacity m'" "ents m' h = ents m i"
    "im_state m' = im_state m" "im_capacity m' = im_capacity m" "im_size m' = im_size m" "im_mask m' = im_mask m"
  using assms
proof (induction "cdist (im_capacity m) j e" arbitrary: m i j thesis rule: less_induct)
  case less
  let ?j = "step m j"
  note s = scan_step [OF less.prems(2-4)]
  have wf: "im_wf m" and i: "i < im_capacity m" using holedD(1-2) [OF less.prems(2)] by (auto simp: im_occ_def)
  have len: "length (im_state m) = im_capacity m" "length (im_keys m) = im_capacity m"
    "length (im_values m) = im_capacity m" using wf by (auto simp: im_wf_def)
  have hl: "home m ?j < im_capacity m" by (simp add: home_def slot_less [OF wf])
  show ?case
  proof (cases "im_state m ! ?j")
    case Empty
    then have "shift_back m i j = Some (m, i)" using s(1) len by (subst shift_back.simps) (simp add: Let_def)
    then show ?thesis by (rule less.prems(1)) (use less.prems Empty s(1) in auto)
  next
    case Occupied
    then have j': "im_occ m ?j" using s(1) by (simp add: im_occ_def)
    note iff = move_back_iff [OF i s(1) hl s(2) [symmetric], unfolded home_def]
    show ?thesis
    proof (cases "cdist (im_capacity m) (home m ?j) i < cdist (im_capacity m) (home m ?j) ?j")
      case True
      define m2 where "m2 = m\<lparr>im_keys := (im_keys m)[i := im_keys m ! ?j],
        im_values := (im_values m)[i := im_values m ! ?j], im_state := (im_state m)[i := Occupied]\<rparr>"
      note mv = holed_move [OF less.prems(2-4) j' True, folded m2_def]
      have c2: "im_capacity m2 = im_capacity m" "im_size m2 = im_size m" "im_mask m2 = im_mask m"
        by (simp_all add: m2_def)
      have "shift_back m i j = shift_back m2 ?j ?j"
        using Occupied s(1) len i True iff
        by (subst shift_back.simps) (simp add: Let_def home_def m2_def)
      moreover obtain m' h j' where "shift_back m2 ?j ?j = Some (m', h)" "holed m' h j'"
        "im_state m' ! step m' j' = Empty" "step m' j' < im_capacity m'" "ents m' h = ents m2 ?j"
        "im_state m' = im_state m2" "im_capacity m' = im_capacity m2" "im_size m' = im_size m2" "im_mask m' = im_mask m2"
        by (rule less.hyps [of m2 ?j ?j]) (use s(4) mv less.prems c2 in auto)
      ultimately show ?thesis using less.prems(1) [of m' h j'] mv c2 by simp
    next
      case False
      note hs = holed_scan_on [OF less.prems(2-4) j' False]
      have "shift_back m i j = shift_back m i ?j"
        using Occupied s(1) len i False iff
        by (subst shift_back.simps) (simp add: Let_def home_def)
      moreover obtain m' h j' where "shift_back m i ?j = Some (m', h)" "holed m' h j'"
        "im_state m' ! step m' j' = Empty" "step m' j' < im_capacity m'" "ents m' h = ents m i"
        "im_state m' = im_state m" "im_capacity m' = im_capacity m" "im_size m' = im_size m" "im_mask m' = im_mask m"
        by (rule less.hyps [of m ?j i]) (use s(4) hs less.prems in auto)
      ultimately show ?thesis using less.prems(1) [of m' h j'] by simp
    qed
  qed
qed

text \<open>When the scan has met an empty slot, no probe path runs through the hole.\<close>

lemma holed_done:
  assumes hd: "holed m h j" and emp: "im_state m ! step m j = Empty" "step m j < im_capacity m"
    and x: "im_occ m x" "x \<noteq> h" and y: "y < im_capacity m"
    and d: "cdist (im_capacity m) (home m x) y < cdist (im_capacity m) (home m x) x"
  shows "im_occ m y \<and> y \<noteq> h"
proof
  show "im_occ m y" by (rule holed_path(1) [OF hd x y d])
  show "y \<noteq> h"
  proof
    assume [simp]: "y = h"
    let ?C = "im_capacity m" and ?j = "step m j"
    have wf: "im_wf m" and xC: "x < ?C" using holedD(1) [OF hd] x by (auto simp: im_occ_def)
    note s = scan_step [OF hd emp(2,1)]
    have "cdist ?C h j < cdist ?C h x" by (rule holed_path(2) [OF hd x y d]) simp
    moreover have "x \<noteq> ?j" using x emp by (auto simp: im_occ_def)
    then have "cdist ?C h x \<noteq> cdist ?C h ?j" using cdist_inj [OF _ xC s(1), of h] y by simp
    ultimately have "cdist ?C h ?j < cdist ?C h x" using s(3) by linarith
    then have "cdist ?C (home m x) ?j < cdist ?C (home m x) x"
      using cdist_via [of "home m x" ?C h x ?j] slot_less [OF wf] y d xC emp by (simp add: home_def)
    then have "im_occ m ?j" by (rule holed_path(1) [OF hd x emp(2)])
    with emp show False by (simp add: im_occ_def)
  qed
qed


lemma holed_start:
  assumes inv: "im_inv m" and x: "im_occ m x"
  shows "holed m x x"
proof (rule holedI)
  fix a y assume *: "im_occ m a" "a \<noteq> x" "y < im_capacity m"
    "cdist (im_capacity m) (home m a) y < cdist (im_capacity m) (home m a) a"
  have "im_occ m y" using inv * by (auto simp: im_inv_def probe_inv_def)
  moreover have "cdist (im_capacity m) x a \<noteq> 0" using cdist_0_iff [of x _ a] * x by (simp add: im_occ_def)
  ultimately show "im_occ m y \<and> (y = x \<longrightarrow> cdist (im_capacity m) x x < cdist (im_capacity m) x a)" by simp
next
  fix y assume "y < im_capacity m" "cdist (im_capacity m) x y \<le> cdist (im_capacity m) x x"
  then show "im_occ m y" using cdist_0_iff [of x _ y] x by (simp add: im_occ_def)
qed (use inv x in \<open>auto simp: im_inv_def keys_distinct_def\<close>)

lemma holed_close:
  assumes hd: "holed m h j" and emp: "im_state m ! step m j = Empty" "step m j < im_capacity m"
    and sz: "im_size m = card {x. im_occ m x}"
  defines "m' \<equiv> m\<lparr>im_state := (im_state m)[h := Empty], im_values := (im_values m)[h := None], im_size := im_size m - 1\<rparr>"
  shows "im_inv m'" "{x. im_occ m' x} = {x. im_occ m x} - {h}"
    "\<And>k p. im_lookup m' k = Some p \<longleftrightarrow> (k, Some p) \<in> ents m h"
proof -
  have h: "h < im_capacity m" "im_occ m h" and wf: "im_wf m" using holedD(1,2) [OF hd] by (auto simp: im_occ_def)
  have len: "length (im_state m) = im_capacity m" "length (im_values m) = im_capacity m"
    using wf by (auto simp: im_wf_def)
  have occ': "im_occ m' x \<longleftrightarrow> im_occ m x \<and> x \<noteq> h" for x
    using h len by (auto simp: m'_def im_occ_def nth_list_update)
  then show occs: "{x. im_occ m' x} = {x. im_occ m x} - {h}" by blast
  have cap: "im_capacity m' = im_capacity m" "home m' = home m" "im_keys m' = im_keys m"
    by (auto simp: m'_def home_def slot_def fun_eq_iff)
  have vals: "im_values m' ! x = im_values m ! x" if "x \<noteq> h" for x using that by (simp add: m'_def)
  have "probe_inv m'"
    unfolding probe_inv_def
  proof (intro allI impI, elim conjE)
    fix x y assume "im_occ m' x" "y < im_capacity m'"
      "cdist (im_capacity m') (home m' x) y < cdist (im_capacity m') (home m' x) x"
    then show "im_occ m' y" using holed_done [OF hd emp, of x y] unfolding occ' cap by blast
  qed
  moreover have "keys_distinct m'"
    unfolding keys_distinct_def occ' cap using holed_keys(1) [OF hd] by blast
  moreover have "im_size m' = card {x. im_occ m' x}"
    using sz h unfolding occs by (simp add: m'_def card_Diff_singleton)
  moreover have "im_wf m'" using wf by (simp add: im_wf_def m'_def)
  ultimately show inv': "im_inv m'"
    using holed_keys(2) [OF hd] by (simp add: im_inv_def occ' vals)
  show "im_lookup m' k = Some p \<longleftrightarrow> (k, Some p) \<in> ents m h" for k p
    unfolding im_lookup_iff [OF inv'] occ' cap ents_def using vals by auto
qed

lemma erase_id_present:
  assumes inv: "im_inv m" and pres: "im_lookup m oid \<noteq> None" and room: "im_size m < im_capacity m"
  obtains m' where "erase_id m oid = Some (True, m')" "im_inv m'"
    "im_lookup m' = (im_lookup m)(oid := None)" "Suc (im_size m') = im_size m" "im_capacity m' = im_capacity m"
proof -
  obtain x where x: "im_occ m x" "im_keys m ! x = oid" using im_lookup_None_iff [OF inv, of oid] pres by auto
  obtain e where e: "e < im_capacity m" "im_state m ! e = Empty" by (rule empty_slot_exists [OF inv room])
  have sz: "im_size m = card {x. im_occ m x}" using inv by (simp add: im_inv_def)
  obtain m1 h j where sb: "shift_back m x x = Some (m1, h)" "holed m1 h j"
      "im_state m1 ! step m1 j = Empty" "step m1 j < im_capacity m1" "ents m1 h = ents m x"
      "im_state m1 = im_state m" "im_capacity m1 = im_capacity m" "im_size m1 = im_size m" "im_mask m1 = im_mask m"
    by (rule shift_back_correct [OF holed_start [OF inv x(1)] e])
  define m' where "m' = m1\<lparr>im_state := (im_state m1)[h := Empty], im_values := (im_values m1)[h := None], im_size := im_size m1 - 1\<rparr>"
  have occ1: "im_occ m1 = im_occ m" using sb by (simp add: im_occ_def fun_eq_iff)
  note cl = holed_close [OF sb(2-4), folded m'_def, unfolded occ1 sb(8), OF sz]
  have h: "h < length (im_state m1)" "h < length (im_values m1)"
    using holedD(1,2) [OF sb(2)] by (auto simp: im_wf_def im_occ_def)
  have pos: "0 < im_size m" using x(1) sz by (auto simp: card_gt_0_iff)
  show ?thesis
  proof (rule that)
    show "erase_id m oid = Some (True, m')"
      using find_id_hit(3) [OF inv x] sb(1) h by (simp add: erase_id_def m'_def)
    show "im_inv m'" by (rule cl(1))
    have "im_lookup m' k = Some p \<longleftrightarrow> ((im_lookup m)(oid := None)) k = Some p" for k p
    proof -
      have "(k, Some p) \<in> ents m x \<longleftrightarrow> (\<exists>y. im_occ m y \<and> y \<noteq> x \<and> im_keys m ! y = k \<and> im_values m ! y = Some p)"
        by (auto simp: ents_def)
      also have "\<dots> \<longleftrightarrow> k \<noteq> oid \<and> im_lookup m k = Some p"
        unfolding im_lookup_iff [OF inv] using x inv by (auto simp: im_inv_def keys_distinct_def)
      finally show ?thesis using cl(3) sb(5) by simp
    qed
    then show "im_lookup m' = (im_lookup m)(oid := None)" by (metis not_None_eq ext)
    show "Suc (im_size m') = im_size m" using pos sb(8) by (simp add: m'_def)
    show "im_capacity m' = im_capacity m" using sb(7) by (simp add: m'_def)
  qed
qed

lemma erase_id_absent: "im_inv m \<Longrightarrow> im_lookup m oid = None \<Longrightarrow> erase_id m oid = Some (False, m)"
  using find_id_miss(3) [of m oid] im_lookup_None_iff [of m oid] by (auto simp: erase_id_def)

lemma insert_id_present: "im_inv m \<Longrightarrow> im_lookup m oid \<noteq> None \<Longrightarrow> insert_id m oid p = Some (False, m)"
  using find_id_hit(4) [of m _ oid p] im_lookup_None_iff [of m oid] by auto

lemma newOrderIdMap_inv:
  assumes "c = 2 ^ k"
  shows "im_inv (newOrderIdMap c)" "im_lookup (newOrderIdMap c) = Map.empty"
    "im_size (newOrderIdMap c) = 0" "im_capacity (newOrderIdMap c) = c"
proof -
  have occ: "\<not> im_occ (newOrderIdMap c) x" for x by (simp add: newOrderIdMap_def im_occ_def)
  show inv: "im_inv (newOrderIdMap c)"
    unfolding im_inv_def probe_inv_def keys_distinct_def
    by (simp add: occ) (use assms in \<open>auto simp: im_wf_def newOrderIdMap_def im_occ_def\<close>)
  show "im_lookup (newOrderIdMap c) = Map.empty" using im_lookup_None_iff [OF inv] occ by auto
qed (simp_all add: newOrderIdMap_def)

lemma for_each_complete:
  assumes "im_inv m"
  shows "set (for_each m) = {(k, Some p) | k p. im_lookup m k = Some p}" "distinct (map fst (for_each m))"
    "length (for_each m) = im_size m"
proof -
  have occ: "set (filter (\<lambda>i. im_state m ! i = Occupied) [0..<im_capacity m]) = {x. im_occ m x}"
    by (auto simp: im_occ_def)
  have "\<And>x. im_occ m x \<Longrightarrow> im_values m ! x \<noteq> None" using assms by (simp add: im_inv_def)
  then show "set (for_each m) = {(k, Some p) | k p. im_lookup m k = Some p}"
    unfolding for_each_def set_map occ im_lookup_iff [OF assms] by auto (metis option.exhaust)+
  have "inj_on (\<lambda>i. im_keys m ! i) {x. im_occ m x}"
    using assms by (auto simp: im_inv_def keys_distinct_def inj_on_def)
  then show "distinct (map fst (for_each m))"
    unfolding for_each_def by (simp add: distinct_map comp_def occ [simplified])
  have "length (for_each m) = card (set (filter (\<lambda>i. im_state m ! i = Occupied) [0..<im_capacity m]))"
    unfolding for_each_def length_map by (rule distinct_card [symmetric]) simp
  then show "length (for_each m) = im_size m" using assms unfolding occ by (simp add: im_inv_def)
qed

section \<open>The index interface\<close>

text \<open>
  What the book relies on: with a slot to spare, the operations are those of a finite map, they
  terminate, and they keep the capacity. \<open>fnd\<close>, \<open>ins\<close> and \<open>del\<close> may fail in general (a probe out
  of range or an endless shift); the laws say that they do not.
\<close>

locale id_index =
  fixes inv :: "'m \<Rightarrow> bool" and lookup :: "'m \<Rightarrow> OrderId \<Rightarrow> ptr option" and size :: "'m \<Rightarrow> nat" and cap :: "'m \<Rightarrow> nat"
    and fnd :: "'m \<Rightarrow> OrderId \<Rightarrow> ptr option option"
    and ins :: "'m \<Rightarrow> OrderId \<Rightarrow> ptr \<Rightarrow> (bool \<times> 'm) option"
    and del :: "'m \<Rightarrow> OrderId \<Rightarrow> (bool \<times> 'm) option"
  assumes fnd_lookup: "inv m \<Longrightarrow> fnd m k = Some (lookup m k)"
    and ins_fresh: "inv m \<Longrightarrow> lookup m k = None \<Longrightarrow> size m < cap m \<Longrightarrow>
      \<exists>m'. ins m k p = Some (True, m') \<and> inv m' \<and> lookup m' = (lookup m)(k \<mapsto> p) \<and> size m' = Suc (size m) \<and> cap m' = cap m"
    and ins_present: "inv m \<Longrightarrow> lookup m k \<noteq> None \<Longrightarrow> ins m k p = Some (False, m)"
    and del_present: "inv m \<Longrightarrow> lookup m k \<noteq> None \<Longrightarrow> size m < cap m \<Longrightarrow>
      \<exists>m'. del m k = Some (True, m') \<and> inv m' \<and> lookup m' = (lookup m)(k := None) \<and> Suc (size m') = size m \<and> cap m' = cap m"
    and del_absent: "inv m \<Longrightarrow> lookup m k = None \<Longrightarrow> del m k = Some (False, m)"
begin

text \<open>Inserting an absent id and erasing it again gives back the same map.\<close>

lemma ins_del:
  assumes "inv m" "lookup m k = None" "Suc (size m) < cap m"
  shows "\<exists>m1 m2. ins m k p = Some (True, m1) \<and> del m1 k = Some (True, m2) \<and> inv m2 \<and> lookup m2 = lookup m \<and> size m2 = size m"
proof -
  obtain m1 where m1: "ins m k p = Some (True, m1)" "inv m1" "lookup m1 = (lookup m)(k \<mapsto> p)" "size m1 = Suc (size m)" "cap m1 = cap m"
    using ins_fresh [OF assms(1,2), of p] assms(3) by auto
  then obtain m2 where "del m1 k = Some (True, m2)" "inv m2" "lookup m2 = (lookup m1)(k := None)" "Suc (size m2) = size m1"
    using del_present [OF m1(2), of k] assms(3) by auto
  then show ?thesis using m1 assms(2) by auto
qed

text \<open>
  A client keeps a set of live pointers with an id each; the index maps exactly the ids of the
  live pointers. Removing a live entry keeps this.
\<close>

lemma del_index:
  assumes "inv m" "size m < cap m" and idx: "\<And>k p. lookup m k = Some p \<longleftrightarrow> p \<in> L \<and> ident p = k" and "q \<in> L"
  shows "\<exists>m'. del m (ident q) = Some (True, m') \<and> inv m' \<and> Suc (size m') = size m \<and> cap m' = cap m \<and>
    (\<forall>k p. lookup m' k = Some p \<longleftrightarrow> p \<in> L - {q} \<and> ident p = k)"
proof -
  have q: "lookup m (ident q) = Some q" using idx \<open>q \<in> L\<close> by simp
  then have "\<And>p. p \<in> L \<Longrightarrow> ident p = ident q \<Longrightarrow> p = q" using idx by (metis option.inject)
  then show ?thesis using del_present [OF assms(1), of "ident q"] assms(2) q idx by fastforce
qed

lemma ins_index:
  assumes "inv m" "size m < cap m" and idx: "\<And>k p. lookup m k = Some p \<longleftrightarrow> p \<in> L \<and> ident p = k"
    and "q \<notin> L" "lookup m (ident q) = None"
  shows "\<exists>m'. ins m (ident q) q = Some (True, m') \<and> inv m' \<and> size m' = Suc (size m) \<and> cap m' = cap m \<and>
    (\<forall>k p. lookup m' k = Some p \<longleftrightarrow> p \<in> insert q L \<and> ident p = k)"
proof -
  obtain m' where m': "ins m (ident q) q = Some (True, m')" "inv m'" "lookup m' = (lookup m)(ident q \<mapsto> q)"
      "size m' = Suc (size m)" "cap m' = cap m"
    using ins_fresh [OF assms(1,5,2), of q] by blast
  have "\<And>p. p \<in> L \<Longrightarrow> ident p \<noteq> ident q" using idx assms(5) by (metis option.distinct(1))
  then have "\<forall>k p. lookup m' k = Some p \<longleftrightarrow> p \<in> insert q L \<and> ident p = k" using m'(3) idx assms(4) by auto
  then show ?thesis using m' by blast
qed

end

interpretation oim: id_index im_inv im_lookup im_size im_capacity find_id insert_id erase_id
proof
  fix m k p
  show "im_inv m \<Longrightarrow> find_id m k = Some (im_lookup m k)" by (rule find_id_lookup)
  show "im_inv m \<Longrightarrow> im_lookup m k \<noteq> None \<Longrightarrow> insert_id m k p = Some (False, m)" by (rule insert_id_present)
  show "im_inv m \<Longrightarrow> im_lookup m k = None \<Longrightarrow> erase_id m k = Some (False, m)" by (rule erase_id_absent)
  show "\<exists>m'. insert_id m k p = Some (True, m') \<and> im_inv m' \<and> im_lookup m' = (im_lookup m)(k \<mapsto> p) \<and>
      im_size m' = Suc (im_size m) \<and> im_capacity m' = im_capacity m"
    if "im_inv m" "im_lookup m k = None" "im_size m < im_capacity m"
    by (rule insert_id_fresh [OF that, of p]) auto
  show "\<exists>m'. erase_id m k = Some (True, m') \<and> im_inv m' \<and> im_lookup m' = (im_lookup m)(k := None) \<and>
      Suc (im_size m') = im_size m \<and> im_capacity m' = im_capacity m"
    if "im_inv m" "im_lookup m k \<noteq> None" "im_size m < im_capacity m"
    by (rule erase_id_present [OF that]) auto
qed

end
