(* ===== verification/Order_Book.thy ===== *)
theory Order_Book
  imports Level_Map Order_Id_Map
begin

text \<open>
  \<^verbatim>\<open>engine/order_book.hpp\<close> and \<^verbatim>\<open>engine/order_book.cpp\<close>: the two sides, the id map and the order
  pool, and the operations that change them. Every operation returns the new book; an outer
  \<^const>\<open>None\<close> is undefined behaviour or a loop that does not end. The two nested loops of
  \<^verbatim>\<open>matchInto\<close> and of \<^verbatim>\<open>availableAgainst\<close> are partial functions.
\<close>

section \<open>The book\<close>

record OrderBook =
  ob_cfg :: BookConfig
  ob_bids :: LevelMap
  ob_asks :: LevelMap
  ob_idMap :: OrderIdMap
  ob_pool :: "Order ObjectPool"
  ob_seq :: Seq
  ob_nextTradeId :: Seq

fun bit_width :: "nat \<Rightarrow> nat" where
  "bit_width n = (if n = 0 then 0 else Suc (bit_width (n div 2)))"

declare bit_width.simps [simp del]

definition nextPowerOfTwo :: "nat \<Rightarrow> nat" where
  "nextPowerOfTwo n = (if n \<le> 1 then 1 else push_bit (bit_width (n - 1)) 1)"

definition newOrderBook :: "BookConfig \<Rightarrow> OrderBook" where
  "newOrderBook cfg =
     \<lparr>ob_cfg = cfg,
      ob_bids = newLevelMap Buy (cfg_minPrice cfg) (cfg_maxPrice cfg) (cfg_tick cfg),
      ob_asks = newLevelMap Sell (cfg_minPrice cfg) (cfg_maxPrice cfg) (cfg_tick cfg),
      ob_idMap = newOrderIdMap (nextPowerOfTwo (cfg_maxOrders cfg * 2)),
      ob_pool = newPool (cfg_maxOrders cfg),
      ob_seq = 0, ob_nextTradeId = 0\<rparr>"

definition sideOf :: "OrderBook \<Rightarrow> Side \<Rightarrow> LevelMap" where
  "sideOf b s = (if s = Buy then ob_bids b else ob_asks b)"

text \<open>Writing through the reference \<^verbatim>\<open>sideOf(s)\<close> returns.\<close>

definition setSide :: "OrderBook \<Rightarrow> Side \<Rightarrow> LevelMap \<Rightarrow> OrderBook" where
  "setSide b s lm = (if s = Buy then b\<lparr>ob_bids := lm\<rparr> else b\<lparr>ob_asks := lm\<rparr>)"

abbreviation orders_of :: "OrderBook \<Rightarrow> Order store" where
  "orders_of b \<equiv> storage (ob_pool b)"

definition setStore :: "OrderBook \<Rightarrow> Order store \<Rightarrow> OrderBook" where
  "setStore b st = b\<lparr>ob_pool := (ob_pool b)\<lparr>storage := st\<rparr>\<rparr>"

text \<open>Writing a level through a \<^verbatim>\<open>PriceLevel*\<close>.\<close>

definition setLevel :: "OrderBook \<Rightarrow> Side \<Rightarrow> nat \<Rightarrow> PriceLevel \<Rightarrow> OrderBook" where
  "setLevel b s i lv =
     setSide b s ((sideOf b s)\<lparr>lm_levels := (lm_levels (sideOf b s))[i := lv]\<rparr>)"

definition bestBid :: "OrderBook \<Rightarrow> Price" where
  "bestBid b = lm_best (ob_bids b)"

definition bestAsk :: "OrderBook \<Rightarrow> Price" where
  "bestAsk b = lm_best (ob_asks b)"

definition restingOrders :: "OrderBook \<Rightarrow> nat" where
  "restingOrders b = im_size (ob_idMap b)"

definition quantityAt :: "OrderBook \<Rightarrow> Side \<Rightarrow> Price \<Rightarrow> Quantity option" where
  "quantityAt b side price =
     (case levelAt (sideOf b side) price of
        None \<Rightarrow> Some 0
      | Some i \<Rightarrow> do { lv \<leftarrow> nth_opt (lm_levels (sideOf b side)) i; Some (lvl_totalQty lv) })"

section \<open>Matching\<close>

definition crosses :: "OrderType \<Rightarrow> Side \<Rightarrow> Price \<Rightarrow> Price \<Rightarrow> bool" where
  "crosses type side price restingPrice \<longleftrightarrow>
     (if type = Market then True
      else if side = Buy then price \<ge> restingPrice else price \<le> restingPrice)"

definition victimOf :: "Order \<Rightarrow> StpVictim" where
  "victimOf x =
     \<lparr>v_id = o_id x, v_price = o_price x, v_quantity = o_quantity x, v_remaining = o_remaining x,
      v_participant = o_participant x, v_seq = o_seq x, v_side = o_side x\<rparr>"

text \<open>The three lines that take an order out of the book: unlink, erase the id, release the slot.\<close>

definition unlinkAndRelease :: "OrderBook \<Rightarrow> Side \<Rightarrow> nat \<Rightarrow> ptr \<Rightarrow> OrderBook option" where
  "unlinkAndRelease b s li p = do {
     level \<leftarrow> nth_opt (lm_levels (sideOf b s)) li;
     (st1, level1) \<leftarrow> unlink (orders_of b) level p;
     let b1 = setStore (setLevel b s li level1) st1;
     x \<leftarrow> deref (orders_of b1) p;
     (_, idMap1) \<leftarrow> erase_id (ob_idMap b1) (o_id x);
     pool1 \<leftarrow> release (ob_pool b1) (Some p);
     Some (b1\<lparr>ob_idMap := idMap1, ob_pool := pool1\<rparr>)
   }"

definition levelEmptied :: "OrderBook \<Rightarrow> Side \<Rightarrow> nat \<Rightarrow> Price \<Rightarrow> OrderBook option" where
  "levelEmptied b s li p = do {
     level \<leftarrow> nth_opt (lm_levels (sideOf b s)) li;
     if lvl_empty level then do {
       lm \<leftarrow> onLevelEmptied (sideOf b s) p;
       Some (setSide b s lm)
     }
     else Some b
   }"

text \<open>The trade against the head of the queue: lines 115 to 147 of the inner loop.\<close>

definition fillHead ::
  "OrderBook \<Rightarrow> NewOrder \<Rightarrow> Side \<Rightarrow> nat \<Rightarrow> ptr \<Rightarrow> Trade buffer \<Rightarrow> Quantity \<Rightarrow>
   (OrderBook \<times> Trade buffer \<times> Quantity) option" where
  "fillHead b ord s li p trades remaining = do {
     x \<leftarrow> deref (orders_of b) p;
     let qty = min remaining (o_remaining x);
     let trades1 = push trades
       \<lparr>t_id = ob_nextTradeId b, t_aggressorId = n_id ord, t_passiveId = o_id x,
        t_price = o_price x, t_quantity = qty, t_aggressorSide = n_side ord\<rparr>;
     st1 \<leftarrow> modifyObj (orders_of b) p (\<lambda>x. x\<lparr>o_remaining := o_remaining x - qty\<rparr>);
     level \<leftarrow> nth_opt (lm_levels (sideOf b s)) li;
     let b1 = setStore (setLevel b s li (reduceQuantity level qty)) st1
                \<lparr>ob_nextTradeId := ob_nextTradeId b + 1\<rparr>;
     x1 \<leftarrow> deref (orders_of b1) p;
     b2 \<leftarrow> (if o_remaining x1 = 0 then unlinkAndRelease b1 s li p else Some b1);
     Some (b2, trades1, remaining - qty)
   }"

text \<open>
  The inner loop: the queue of one level. The last component says that self-trade prevention
  stopped the match.
\<close>

partial_function (option) matchLevel ::
  "OrderBook \<Rightarrow> NewOrder \<Rightarrow> Side \<Rightarrow> nat \<Rightarrow> Price \<Rightarrow> Trade buffer \<Rightarrow> Quantity \<Rightarrow> StpVictim buffer option \<Rightarrow>
   (OrderBook \<times> Trade buffer \<times> Quantity \<times> StpVictim buffer option \<times> bool) option" where
  "matchLevel b ord s li bestOpp trades remaining victims = do {
     level \<leftarrow> nth_opt (lm_levels (sideOf b s)) li;
     if \<not> (remaining > 0 \<and> \<not> lvl_empty level) then Some (b, trades, remaining, victims, False)
     else do {
       resting \<leftarrow> lvl_head level;
       x \<leftarrow> deref (orders_of b) resting;
       if o_participant x = n_participant ord then do {
         let policy = cfg_stp (ob_cfg b);
         if policy = CancelPassive \<or> policy = CancelBoth then do {
           let victims1 = map_option (\<lambda>vb. push vb (victimOf x)) victims;
           b1 \<leftarrow> unlinkAndRelease b s li resting;
           b2 \<leftarrow> levelEmptied b1 s li bestOpp;
           if policy = CancelPassive then matchLevel b2 ord s li bestOpp trades remaining victims1
           else Some (b2, trades, remaining, victims1, True)
         }
         else Some (b, trades, remaining, victims, True)
       }
       else do {
         (b1, trades1, remaining1) \<leftarrow> fillHead b ord s li resting trades remaining;
         matchLevel b1 ord s li bestOpp trades1 remaining1 victims
       }
     }
   }"

partial_function (option) matchInto ::
  "OrderBook \<Rightarrow> NewOrder \<Rightarrow> Trade buffer \<Rightarrow> Quantity \<Rightarrow> StpVictim buffer option \<Rightarrow>
   (OrderBook \<times> Trade buffer \<times> Quantity \<times> StpVictim buffer option \<times> MatchOutcome) option" where
  "matchInto b ord trades remaining victims =
     (let opp = opposite (n_side ord); lm = sideOf b opp; bestOpp = lm_best lm in
      if \<not> (remaining > 0 \<and> hasBest lm) then Some (b, trades, remaining, victims, Exhausted)
      else if \<not> crosses (n_type ord) (n_side ord) (n_price ord) bestOpp then
        Some (b, trades, remaining, victims, NoLongerCrosses)
      else do {
        li \<leftarrow> levelAt lm bestOpp;
        (b1, trades1, remaining1, victims1, stpFired) \<leftarrow>
          matchLevel b ord opp li bestOpp trades remaining victims;
        if stpFired then Some (b1, trades1, remaining1, victims1, StpFired)
        else do {
          b2 \<leftarrow> levelEmptied b1 opp li bestOpp;
          matchInto b2 ord trades1 remaining1 victims1
        }
      })"

section \<open>The fill-or-kill pre-scan\<close>

text \<open>The inner loop returns the sum, and whether \<^verbatim>\<open>availableAgainst\<close> returns with it at once.\<close>

partial_function (option) scanLevel ::
  "OrderBook \<Rightarrow> NewOrder \<Rightarrow> ptr option \<Rightarrow> Quantity \<Rightarrow> (Quantity \<times> bool) option" where
  "scanLevel b ord node acc =
     (case node of
        None \<Rightarrow> Some (acc, False)
      | Some p \<Rightarrow> do {
          x \<leftarrow> deref (orders_of b) p;
          if o_participant x = n_participant ord then
            (if cfg_stp (ob_cfg b) = CancelPassive then scanLevel b ord (o_next x) acc
             else Some (acc, True))
          else do {
            let acc1 = wrap64 (acc + o_remaining x);
            if acc1 \<ge> n_quantity ord then Some (acc1, True)
            else scanLevel b ord (o_next x) acc1
          }
        })"

partial_function (option) scanFrom ::
  "OrderBook \<Rightarrow> NewOrder \<Rightarrow> Price \<Rightarrow> Quantity \<Rightarrow> Quantity option" where
  "scanFrom b ord p acc =
     (let opp = opposite (n_side ord); lm = sideOf b opp in
      if p = emptySentinel opp then Some acc
      else if \<not> crosses (n_type ord) (n_side ord) (n_price ord) p then Some acc
      else do {
        li \<leftarrow> levelAt lm p;
        level \<leftarrow> nth_opt (lm_levels lm) li;
        (acc1, fin) \<leftarrow> scanLevel b ord (lvl_head level) acc;
        if fin then Some acc1
        else do {
          p' \<leftarrow> nextOccupied lm p;
          scanFrom b ord p' acc1
        }
      })"

definition availableAgainst :: "OrderBook \<Rightarrow> NewOrder \<Rightarrow> Quantity option" where
  "availableAgainst b ord = scanFrom b ord (lm_best (sideOf b (opposite (n_side ord)))) 0"

section \<open>Commands\<close>

definition nodeOf :: "NewOrder \<Rightarrow> Seq \<Rightarrow> Quantity \<Rightarrow> Order" where
  "nodeOf ord mySeq remaining =
     \<lparr>o_remaining = remaining, o_participant = n_participant ord, o_price = n_price ord,
      o_id = n_id ord, o_next = None, o_level = None, o_side = n_side ord,
      o_quantity = n_quantity ord, o_seq = mySeq, o_prev = None\<rparr>"

definition restResidual :: "OrderBook \<Rightarrow> NewOrder \<Rightarrow> Seq \<Rightarrow> Quantity \<Rightarrow> (bool \<times> OrderBook) option" where
  "restResidual b ord mySeq remaining = do {
     (node, pool1) \<leftarrow> acquire (ob_pool b);
     case node of
       None \<Rightarrow> Some (False, b\<lparr>ob_pool := pool1\<rparr>)
     | Some p \<Rightarrow> do {
         st1 \<leftarrow> writeObj (storage pool1) p (nodeOf ord mySeq remaining);
         (st2, lm) \<leftarrow> addOrder st1 (sideOf b (n_side ord)) p;
         (_, idMap1) \<leftarrow> insert_id (ob_idMap b) (n_id ord) p;
         Some (True, (setSide b (n_side ord) lm)\<lparr>ob_pool := pool1\<lparr>storage := st2\<rparr>, ob_idMap := idMap1\<rparr>)
       }
   }"

definition submitEx ::
  "OrderBook \<Rightarrow> NewOrder \<Rightarrow> Trade buffer \<Rightarrow> StpVictim buffer option \<Rightarrow>
   (OrderResult \<times> OrderBook \<times> Trade buffer \<times> StpVictim buffer option) option" where
  "submitEx b ord trades victims = do {
     let result = emptyResult\<lparr>r_price := n_price ord, r_quantity := n_quantity ord,
                              r_participant := n_participant ord, r_side := n_side ord\<rparr>;
     let reject = (\<lambda>st. Some (result\<lparr>r_status := st\<rparr>, b, trades, victims));
     if n_quantity ord \<le> 0 then reject RejectedInvalidQuantity
     else if n_type ord \<noteq> Market \<and> \<not> inRange (ob_bids b) (n_price ord) then
       reject RejectedPriceOutOfRange
     else do {
       dup \<leftarrow> find_id (ob_idMap b) (n_id ord);
       if dup \<noteq> None then reject RejectedDuplicateId
       else if n_type ord = Market \<and> \<not> hasBest (sideOf b (opposite (n_side ord))) then
         reject RejectedMarketIntoEmptyBook
       else do {
         unfillable \<leftarrow>
           (if n_type ord = Fok then do {
              avail \<leftarrow> availableAgainst b ord;
              Some (avail < n_quantity ord)
            }
            else Some False);
         if unfillable then reject RejectedFokUnfillable
         else do {
           let mySeq = ob_seq b + 1;
           (b1, trades1, remaining, victims1, outcome) \<leftarrow>
             matchInto (b\<lparr>ob_seq := mySeq\<rparr>) ord trades (n_quantity ord) victims;
           let result1 = result\<lparr>r_seq := mySeq, r_filled := n_quantity ord - remaining,
                                r_remaining := remaining\<rparr>;
           if outcome = StpFired then
             Some (result1\<lparr>r_status := CancelledBySelfTradePrevention\<rparr>, b1, trades1, victims1)
           else
             (case n_type ord of
                Limit \<Rightarrow>
                  (if remaining > 0 then do {
                     (rested, b2) \<leftarrow> restResidual b1 ord mySeq remaining;
                     if \<not> rested then
                       Some (result1\<lparr>r_status := RejectedPoolExhausted\<rparr>, b2, trades1, victims1)
                     else
                       Some (result1\<lparr>r_rested := True, r_status := Ok\<rparr>, b2, trades1, victims1)
                   }
                   else Some (result1\<lparr>r_status := Ok\<rparr>, b1, trades1, victims1))
              | Fok \<Rightarrow>
                  Some (result1\<lparr>r_status := if remaining > 0 then RejectedFokUnfillable else Ok\<rparr>,
                        b1, trades1, victims1)
              | _ \<Rightarrow>
                  Some (result1\<lparr>r_status := if remaining > 0 then CancelledResidual else Ok\<rparr>,
                        b1, trades1, victims1))
         }
       }
     }
   }"

definition submit :: "OrderBook \<Rightarrow> NewOrder \<Rightarrow> Trade buffer \<Rightarrow> (SubmitStatus \<times> OrderBook \<times> Trade buffer) option" where
  "submit b ord trades = do {
     (result, b1, trades1, _) \<leftarrow> submitEx b ord trades None;
     Some (r_status result, b1, trades1)
   }"

definition cancel :: "OrderBook \<Rightarrow> OrderId \<Rightarrow> (OrderResult \<times> OrderBook) option" where
  "cancel b oid = do {
     found \<leftarrow> find_id (ob_idMap b) oid;
     case found of
       None \<Rightarrow> Some (emptyResult\<lparr>r_status := RejectedUnknownOrder\<rparr>, b)
     | Some p \<Rightarrow> do {
         x \<leftarrow> deref (orders_of b) p;
         let result = emptyResult\<lparr>r_remaining := o_remaining x,
               r_filled := o_quantity x - o_remaining x, r_price := o_price x,
               r_quantity := o_quantity x, r_participant := o_participant x, r_seq := o_seq x,
               r_side := o_side x\<rparr>;
         (ls, li) \<leftarrow> o_level x;
         level \<leftarrow> nth_opt (lm_levels (sideOf b ls)) li;
         (st1, level1) \<leftarrow> unlink (orders_of b) level p;
         let b1 = setStore (setLevel b ls li level1) st1;
         b2 \<leftarrow> (if lvl_empty level1 then do {
                   lm \<leftarrow> onLevelEmptied (sideOf b1 (o_side x)) (o_price x);
                   Some (setSide b1 (o_side x) lm)
                 }
                 else Some b1);
         (_, idMap1) \<leftarrow> erase_id (ob_idMap b2) oid;
         pool1 \<leftarrow> release (ob_pool b2) (Some p);
         Some (result\<lparr>r_status := Ok\<rparr>, b2\<lparr>ob_idMap := idMap1, ob_pool := pool1\<rparr>)
       }
   }"

definition restoreResting :: "OrderBook \<Rightarrow> NewOrder \<Rightarrow> Quantity \<Rightarrow> Seq \<Rightarrow> (bool \<times> OrderBook) option" where
  "restoreResting b ord remaining seq = do {
     (node, pool1) \<leftarrow> acquire (ob_pool b);
     case node of
       None \<Rightarrow> Some (False, b\<lparr>ob_pool := pool1\<rparr>)
     | Some p \<Rightarrow> do {
         st1 \<leftarrow> writeObj (storage pool1) p (nodeOf ord seq remaining);
         (inserted, idMap1) \<leftarrow> insert_id (ob_idMap b) (n_id ord) p;
         if \<not> inserted then do {
           pool2 \<leftarrow> release (pool1\<lparr>storage := st1\<rparr>) (Some p);
           Some (False, b\<lparr>ob_pool := pool2, ob_idMap := idMap1\<rparr>)
         }
         else do {
           (st2, lm) \<leftarrow> addOrder st1 (sideOf b (n_side ord)) p;
           Some (True, (setSide b (n_side ord) lm)\<lparr>ob_pool := pool1\<lparr>storage := st2\<rparr>, ob_idMap := idMap1\<rparr>)
         }
       }
   }"

definition restoreCounters :: "OrderBook \<Rightarrow> Seq \<Rightarrow> Seq \<Rightarrow> OrderBook" where
  "restoreCounters b lastSeq nextTradeId = b\<lparr>ob_seq := lastSeq, ob_nextTradeId := nextTradeId\<rparr>"

text \<open>
  \<^verbatim>\<open>replace\<close> also writes the result of the cancel through \<^verbatim>\<open>oldResult\<close>; the model returns it, and
  returns \<^const>\<open>None\<close> when the call leaves \<^verbatim>\<open>*oldResult\<close> unwritten.
\<close>

definition replace ::
  "OrderBook \<Rightarrow> OrderId \<Rightarrow> NewOrder \<Rightarrow> Trade buffer \<Rightarrow> StpVictim buffer option \<Rightarrow>
   (OrderResult \<times> OrderResult option \<times> OrderBook \<times> Trade buffer \<times> StpVictim buffer option) option" where
  "replace b oldId fresh trades victims = do {
     let reject = (\<lambda>st. Some (emptyResult\<lparr>r_status := st\<rparr>, None, b, trades, victims));
     old \<leftarrow> find_id (ob_idMap b) oldId;
     if old = None then reject RejectedUnknownOrder
     else if n_quantity fresh \<le> 0 then reject RejectedInvalidQuantity
     else if n_type fresh \<noteq> Market \<and> \<not> inRange (ob_bids b) (n_price fresh) then
       reject RejectedPriceOutOfRange
     else do {
       dup \<leftarrow> (if n_id fresh \<noteq> oldId then find_id (ob_idMap b) (n_id fresh) else Some None);
       if dup \<noteq> None then reject RejectedDuplicateId
       else do {
         (cancelResult, b1) \<leftarrow> cancel b oldId;
         (result, b2, trades1, victims1) \<leftarrow> submitEx b1 fresh trades victims;
         Some (result, Some cancelResult, b2, trades1, victims1)
       }
     }
   }"

end
