(* ===== verification/Book_Spec.thy ===== *)
theory Book_Spec
  imports Order_Book
begin

text \<open>
  The abstract specification of the book: each side is one list of resting orders in priority
  order (best price first, arrival order within a price), and a command is a function on these two
  lists and the two counters. No pointer, pool, bitset or hash map appears here; the theory
  \<open>Book_Refinement\<close> shows that the operations of the theory \<open>Order_Book\<close> implement these functions.
\<close>

section \<open>The abstract book\<close>

type_synonym Resting = StpVictim

record BookSpec =
  sp_bids :: "Resting list"
  sp_asks :: "Resting list"
  sp_seq :: Seq
  sp_nextTradeId :: Seq

definition spec_side :: "BookSpec \<Rightarrow> Side \<Rightarrow> Resting list" where
  "spec_side A s = (if s = Buy then sp_bids A else sp_asks A)"

definition set_spec_side :: "BookSpec \<Rightarrow> Side \<Rightarrow> Resting list \<Rightarrow> BookSpec" where
  "set_spec_side A s rs = (if s = Buy then A\<lparr>sp_bids := rs\<rparr> else A\<lparr>sp_asks := rs\<rparr>)"

definition spec_orders :: "BookSpec \<Rightarrow> Resting list" where
  "spec_orders A = sp_bids A @ sp_asks A"

definition better :: "Side \<Rightarrow> Price \<Rightarrow> Price \<Rightarrow> bool" where
  "better s p q \<longleftrightarrow> (if s = Buy then p > q else p < q)"

definition trade_with :: "NewOrder \<Rightarrow> Seq \<Rightarrow> Resting \<Rightarrow> Quantity \<Rightarrow> Trade" where
  "trade_with ord tid r q =
     \<lparr>t_id = tid, t_aggressorId = n_id ord, t_passiveId = v_id r, t_price = v_price r,
      t_quantity = q, t_aggressorSide = n_side ord\<rparr>"

abbreviation crosses_with :: "NewOrder \<Rightarrow> Resting \<Rightarrow> bool" where
  "crosses_with ord r \<equiv> crosses (n_type ord) (n_side ord) (n_price ord) (v_price r)"

text \<open>
  Matching against the priority list of the other side: the trades, the victims of self-trade
  prevention, what is left of the list, the unfilled quantity, and how the match ended.
\<close>

fun amatch ::
  "StpPolicy \<Rightarrow> NewOrder \<Rightarrow> Seq \<Rightarrow> Quantity \<Rightarrow> Resting list \<Rightarrow>
   Trade list \<times> Resting list \<times> Resting list \<times> Quantity \<times> MatchOutcome" where
  "amatch pol ord tid remaining [] = ([], [], [], remaining, Exhausted)"
| "amatch pol ord tid remaining (r # rs) =
     (if remaining \<le> 0 then ([], [], r # rs, remaining, Exhausted)
      else if \<not> crosses_with ord r then ([], [], r # rs, remaining, NoLongerCrosses)
      else if v_participant r = n_participant ord then
        (case pol of
           CancelAggressor \<Rightarrow> ([], [], r # rs, remaining, StpFired)
         | CancelBoth \<Rightarrow> ([], [r], rs, remaining, StpFired)
         | CancelPassive \<Rightarrow>
             (case amatch pol ord tid remaining rs of
                (ts, vs, left, rem', oc) \<Rightarrow> (ts, r # vs, left, rem', oc)))
      else if v_remaining r \<le> remaining then
        (case amatch pol ord (tid + 1) (remaining - v_remaining r) rs of
           (ts, vs, left, rem', oc) \<Rightarrow> (trade_with ord tid r (v_remaining r) # ts, vs, left, rem', oc))
      else ([trade_with ord tid r remaining], [],
            r\<lparr>v_remaining := v_remaining r - remaining\<rparr> # rs, 0, Exhausted))"

text \<open>The pre-scan of a fill-or-kill order, with the 64-bit sum of the code.\<close>

fun aavail :: "StpPolicy \<Rightarrow> NewOrder \<Rightarrow> Quantity \<Rightarrow> Resting list \<Rightarrow> Quantity" where
  "aavail pol ord acc [] = acc"
| "aavail pol ord acc (r # rs) =
     (if \<not> crosses_with ord r then acc
      else if v_participant r = n_participant ord then
        (if pol = CancelPassive then aavail pol ord acc rs else acc)
      else if wrap64 (acc + v_remaining r) \<ge> n_quantity ord then wrap64 (acc + v_remaining r)
      else aavail pol ord (wrap64 (acc + v_remaining r)) rs)"

definition rest_in :: "Side \<Rightarrow> Resting \<Rightarrow> Resting list \<Rightarrow> Resting list" where
  "rest_in s r rs =
     takeWhile (\<lambda>y. \<not> better s (v_price r) (v_price y)) rs @ r #
     dropWhile (\<lambda>y. \<not> better s (v_price r) (v_price y)) rs"

definition resting_of :: "NewOrder \<Rightarrow> Seq \<Rightarrow> Quantity \<Rightarrow> Resting" where
  "resting_of ord sq remaining =
     \<lparr>v_id = n_id ord, v_price = n_price ord, v_quantity = n_quantity ord, v_remaining = remaining,
      v_participant = n_participant ord, v_seq = sq, v_side = n_side ord\<rparr>"

definition find_order :: "BookSpec \<Rightarrow> OrderId \<Rightarrow> Resting option" where
  "find_order A oid = find (\<lambda>r. v_id r = oid) (spec_orders A)"

definition cfg_inRange :: "BookConfig \<Rightarrow> Price \<Rightarrow> bool" where
  "cfg_inRange cfg p \<longleftrightarrow> p \<ge> cfg_minPrice cfg \<and> p \<le> cfg_maxPrice cfg"

definition submit_result :: "NewOrder \<Rightarrow> OrderResult" where
  "submit_result ord = emptyResult\<lparr>r_price := n_price ord, r_quantity := n_quantity ord,
                              r_participant := n_participant ord, r_side := n_side ord\<rparr>"

definition submit_guard :: "BookConfig \<Rightarrow> BookSpec \<Rightarrow> NewOrder \<Rightarrow> SubmitStatus option" where
  "submit_guard cfg A ord =
     (if n_quantity ord \<le> 0 then Some RejectedInvalidQuantity
      else if n_type ord \<noteq> Market \<and> \<not> cfg_inRange cfg (n_price ord) then Some RejectedPriceOutOfRange
      else if find_order A (n_id ord) \<noteq> None then Some RejectedDuplicateId
      else if n_type ord = Market \<and> spec_side A (opposite (n_side ord)) = [] then
        Some RejectedMarketIntoEmptyBook
      else if n_type ord = Fok \<and>
          aavail (cfg_stp cfg) ord 0 (spec_side A (opposite (n_side ord))) < n_quantity ord then
        Some RejectedFokUnfillable
      else None)"

text \<open>What becomes of the unfilled quantity when the match ends without self-trade prevention.\<close>

definition final_status :: "OrderType \<Rightarrow> Quantity \<Rightarrow> SubmitStatus" where
  "final_status type remaining =
     (if remaining \<le> 0 then Ok else if type = Fok then RejectedFokUnfillable else CancelledResidual)"

definition asubmit ::
  "BookConfig \<Rightarrow> BookSpec \<Rightarrow> NewOrder \<Rightarrow> OrderResult \<times> BookSpec \<times> Trade list \<times> Resting list" where
  "asubmit cfg A ord =
     (case submit_guard cfg A ord of
        Some st \<Rightarrow> ((submit_result ord)\<lparr>r_status := st\<rparr>, A, [], [])
      | None \<Rightarrow>
          (case amatch (cfg_stp cfg) ord (sp_nextTradeId A) (n_quantity ord)
                  (spec_side A (opposite (n_side ord))) of
             (ts, vs, left, remaining, oc) \<Rightarrow>
               (let sq = sp_seq A + 1;
                    A1 = (set_spec_side A (opposite (n_side ord)) left)
                           \<lparr>sp_seq := sq, sp_nextTradeId := sp_nextTradeId A + int (length ts)\<rparr>;
                    res = (submit_result ord)\<lparr>r_seq := sq, r_filled := n_quantity ord - remaining,
                             r_remaining := remaining\<rparr>
                in if oc = StpFired then
                     (res\<lparr>r_status := CancelledBySelfTradePrevention\<rparr>, A1, ts, vs)
                   else if n_type ord = Limit \<and> remaining > 0 then
                     (if length (spec_orders A1) < cfg_maxOrders cfg then
                        (res\<lparr>r_rested := True, r_status := Ok\<rparr>,
                         set_spec_side A1 (n_side ord)
                           (rest_in (n_side ord) (resting_of ord sq remaining) (spec_side A1 (n_side ord))),
                         ts, vs)
                      else (res\<lparr>r_status := RejectedPoolExhausted\<rparr>, A1, ts, vs))
                   else (res\<lparr>r_status := final_status (n_type ord) remaining\<rparr>, A1, ts, vs))))"

definition cancel_result :: "Resting \<Rightarrow> OrderResult" where
  "cancel_result r = emptyResult\<lparr>r_status := Ok, r_remaining := v_remaining r,
     r_filled := v_quantity r - v_remaining r, r_price := v_price r, r_quantity := v_quantity r,
     r_participant := v_participant r, r_seq := v_seq r, r_side := v_side r\<rparr>"

definition drop_order :: "BookSpec \<Rightarrow> OrderId \<Rightarrow> BookSpec" where
  "drop_order A oid = A\<lparr>sp_bids := filter (\<lambda>r. v_id r \<noteq> oid) (sp_bids A),
                        sp_asks := filter (\<lambda>r. v_id r \<noteq> oid) (sp_asks A)\<rparr>"

definition acancel :: "BookSpec \<Rightarrow> OrderId \<Rightarrow> OrderResult \<times> BookSpec" where
  "acancel A oid =
     (case find_order A oid of
        None \<Rightarrow> (emptyResult\<lparr>r_status := RejectedUnknownOrder\<rparr>, A)
      | Some r \<Rightarrow> (cancel_result r, drop_order A oid))"

definition arestore :: "BookConfig \<Rightarrow> BookSpec \<Rightarrow> NewOrder \<Rightarrow> Quantity \<Rightarrow> Seq \<Rightarrow> bool \<times> BookSpec" where
  "arestore cfg A ord remaining sq =
     (if length (spec_orders A) \<ge> cfg_maxOrders cfg \<or> find_order A (n_id ord) \<noteq> None then (False, A)
      else (True, set_spec_side A (n_side ord)
                    (rest_in (n_side ord) (resting_of ord sq remaining) (spec_side A (n_side ord)))))"

definition replace_guard :: "BookConfig \<Rightarrow> BookSpec \<Rightarrow> OrderId \<Rightarrow> NewOrder \<Rightarrow> SubmitStatus option" where
  "replace_guard cfg A oldId fresh =
     (if find_order A oldId = None then Some RejectedUnknownOrder
      else if n_quantity fresh \<le> 0 then Some RejectedInvalidQuantity
      else if n_type fresh \<noteq> Market \<and> \<not> cfg_inRange cfg (n_price fresh) then Some RejectedPriceOutOfRange
      else if n_id fresh \<noteq> oldId \<and> find_order A (n_id fresh) \<noteq> None then Some RejectedDuplicateId
      else None)"

definition areplace ::
  "BookConfig \<Rightarrow> BookSpec \<Rightarrow> OrderId \<Rightarrow> NewOrder \<Rightarrow>
   OrderResult \<times> OrderResult option \<times> BookSpec \<times> Trade list \<times> Resting list" where
  "areplace cfg A oldId fresh =
     (case replace_guard cfg A oldId fresh of
        Some st \<Rightarrow> (emptyResult\<lparr>r_status := st\<rparr>, None, A, [], [])
      | None \<Rightarrow>
          (case acancel A oldId of (cr, A1) \<Rightarrow>
             (case asubmit cfg A1 fresh of (res, A2, ts, vs) \<Rightarrow> (res, Some cr, A2, ts, vs))))"

end
