(* ===== verification/Book_Rep.thy ===== *)
theory Book_Rep
  imports Book_Spec
begin

text \<open>
  The representation of the abstract book by the concrete one: slots in priority order, the
  invariant \<open>book_rep b Q E\<close> that ties the two level maps, the pool and the id map to the level
  queues \<open>Q\<close>, and how writing one level or taking one order out keeps it.
\<close>

section \<open>Slot order\<close>

text \<open>
  The slots of a side in priority order, and the concatenation of what a function gives for the
  slots of a set. A side's priority list is such a concatenation over its level queues.
\<close>

definition slot_order :: "Side \<Rightarrow> nat \<Rightarrow> nat list" where
  "slot_order s n = (if s = Buy then rev [0..<n] else [0..<n])"

definition side_seq :: "Side \<Rightarrow> nat \<Rightarrow> nat set \<Rightarrow> (nat \<Rightarrow> 'a list) \<Rightarrow> 'a list" where
  "side_seq s n S f = concat (map f (filter (\<lambda>j. j \<in> S) (slot_order s n)))"

lemma set_slot_order [simp]: "set (slot_order s n) = {..<n}"
  by (auto simp: slot_order_def)

lemma distinct_slot_order [simp]: "distinct (slot_order s n)"
  by (simp add: slot_order_def)

lemma slot_order_sorted: "sorted_wrt (slot_better s) (slot_order s n)"
proof -
  have "slot_better Buy = (>)" "slot_better Sell = (<)" by (auto simp: slot_better_def fun_eq_iff)
  then show ?thesis using sorted_wrt_upt [of 0 n] by (cases s) (auto simp: slot_order_def sorted_wrt_rev)
qed

lemma slot_order_split:
  assumes "i < n"
  obtains xs ys where "slot_order s n = xs @ i # ys" "\<forall>j\<in>set xs. slot_better s j i" "\<forall>j\<in>set ys. slot_better s i j"
    "i \<notin> set xs" "i \<notin> set ys"
proof -
  have "i \<in> set (slot_order s n)" using assms by simp
  then obtain xs ys where sp: "slot_order s n = xs @ i # ys" by (meson split_list)
  have srt: "sorted_wrt (slot_better s) (xs @ i # ys)" using slot_order_sorted [of s n] sp by simp
  show ?thesis
    by (rule that [OF sp]) (use srt distinct_slot_order [of s n] in \<open>auto simp: sorted_wrt_append sp\<close>)
qed

lemma slot_better_asym: "slot_better s i j \<Longrightarrow> \<not> slot_better s j i"
  by (auto simp: slot_better_def split: if_splits)

lemma slot_better_irrefl [simp]: "\<not> slot_better s i i"
  by (simp add: slot_better_def)

lemma slot_better_linear: "i \<noteq> j \<Longrightarrow> slot_better s i j \<or> slot_better s j i"
  by (auto simp: slot_better_def)

lemma slot_better_trans: "slot_better s i j \<Longrightarrow> slot_better s j k \<Longrightarrow> slot_better s i k"
  by (auto simp: slot_better_def split: if_splits)

lemma side_seq_best:
  assumes "is_best_slot s S i" "i < n"
  shows "side_seq s n S f = f i @ side_seq s n (S - {i}) f"
proof -
  obtain xs ys where sp: "slot_order s n = xs @ i # ys" "\<forall>j\<in>set xs. slot_better s j i"
      "\<forall>j\<in>set ys. slot_better s i j" "i \<notin> set xs" "i \<notin> set ys"
    by (rule slot_order_split [OF assms(2)])
  have xs: "filter (\<lambda>j. j \<in> S) xs = []" "filter (\<lambda>j. j \<in> S - {i}) xs = []"
    using sp(2) assms(1) slot_better_asym unfolding is_best_slot_def filter_empty_conv by fastforce+
  have ys: "filter (\<lambda>j. j \<in> S - {i}) ys = filter (\<lambda>j. j \<in> S) ys"
    using sp(5) by (intro filter_cong) auto
  have "i \<in> S" using assms(1) by (simp add: is_best_slot_def)
  then show ?thesis unfolding side_seq_def sp(1) filter_append map_append xs
    using xs ys by simp
qed

lemma side_seq_cong:
  "(\<And>j. j \<in> S \<Longrightarrow> j < n \<Longrightarrow> f j = g j) \<Longrightarrow> side_seq s n S f = side_seq s n S g"
  unfolding side_seq_def by (intro arg_cong [of _ _ concat] map_cong) auto

lemma side_seq_empty [simp]: "side_seq s n {} f = []"
  by (simp add: side_seq_def)

lemma concat_filter_Nil:
  "(\<And>j. j \<in> set xs \<Longrightarrow> j \<notin> S \<Longrightarrow> f j = []) \<Longrightarrow> concat (map f (filter (\<lambda>j. j \<in> S) xs)) = concat (map f xs)"
  by (induction xs) auto

lemma side_seq_UNIV: "(\<And>j. j < n \<Longrightarrow> j \<notin> S \<Longrightarrow> f j = []) \<Longrightarrow> side_seq s n S f = side_seq s n UNIV f"
  unfolding side_seq_def by (subst concat_filter_Nil) auto

lemma set_side_seq: "set (side_seq s n S f) = (\<Union>j\<in>{j. j < n \<and> j \<in> S}. set (f j))"
  by (auto simp: side_seq_def)

lemma side_seq_map: "map g (side_seq s n S f) = side_seq s n S (\<lambda>j. map g (f j))"
  by (simp add: side_seq_def map_concat comp_def)

lemma side_seq_split:
  assumes "i < n"
  obtains xs ys where "\<And>f :: nat \<Rightarrow> 'a list. side_seq s n UNIV f = concat (map f xs) @ f i @ concat (map f ys)"
    "\<forall>j\<in>set xs. slot_better s j i" "\<forall>j\<in>set ys. slot_better s i j" "i \<notin> set xs" "i \<notin> set ys"
    "set xs \<subseteq> {..<n}" "set ys \<subseteq> {..<n}"
proof -
  obtain xs ys where sp: "slot_order s n = xs @ i # ys" "\<forall>j\<in>set xs. slot_better s j i"
      "\<forall>j\<in>set ys. slot_better s i j" "i \<notin> set xs" "i \<notin> set ys"
    by (rule slot_order_split [OF assms])
  have "set (slot_order s n) = {..<n}" by simp
  then have "set xs \<subseteq> {..<n}" "set ys \<subseteq> {..<n}" unfolding sp(1) by auto
  then show ?thesis using that [of xs ys] sp by (simp add: side_seq_def)
qed

section \<open>Matching level by level\<close>

lemma amatch_rem_le: "remaining \<le> 0 \<Longrightarrow> amatch pol ord tid remaining rs = ([], [], rs, remaining, Exhausted)"
  by (cases rs) auto

lemma amatch_append_stop:
  assumes "amatch pol ord tid remaining xs = (ts, vs, left, rem', oc)" "oc = StpFired \<or> left \<noteq> []"
  shows "amatch pol ord tid remaining (xs @ ys) = (ts, vs, left @ ys, rem', oc)"
  using assms
proof (induction xs arbitrary: tid remaining ts vs left rem' oc)
  case (Cons r xs)
  obtain ts1 vs1 l1 rem1 oc1 where 1: "amatch pol ord tid remaining xs = (ts1, vs1, l1, rem1, oc1)"
    by (metis prod_cases5)
  obtain ts2 vs2 l2 rem2 oc2 where 2: "amatch pol ord (tid + 1) (remaining - v_remaining r) xs = (ts2, vs2, l2, rem2, oc2)"
    by (metis prod_cases5)
  show ?case
    using Cons.prems Cons.IH [OF 1] Cons.IH [OF 2] 1 2
    by (auto split: if_splits StpPolicy.splits)
qed simp

lemma amatch_append_go:
  assumes "amatch pol ord tid remaining xs = (ts, vs, [], rem', oc)" "oc \<noteq> StpFired"
    and "amatch pol ord (tid + int (length ts)) rem' ys = (ts2, vs2, left, rem2, oc2)"
  shows "amatch pol ord tid remaining (xs @ ys) = (ts @ ts2, vs @ vs2, left, rem2, oc2)"
  using assms
proof (induction xs arbitrary: tid remaining ts vs rem' oc)
  case (Cons r xs)
  obtain ts1 vs1 l1 rem1 oc1 where 1: "amatch pol ord tid remaining xs = (ts1, vs1, l1, rem1, oc1)"
    by (metis prod_cases5)
  obtain ts3 vs3 l3 rem3 oc3 where 3: "amatch pol ord (tid + 1) (remaining - v_remaining r) xs = (ts3, vs3, l3, rem3, oc3)"
    by (metis prod_cases5)
  show ?case
    using Cons.prems Cons.IH [of tid remaining] Cons.IH [of "tid + 1" "remaining - v_remaining r"] 1 3
    by (auto split: if_splits StpPolicy.splits simp: algebra_simps)
qed simp

section \<open>Configuration\<close>

definition cfg_ok :: "BookConfig \<Rightarrow> bool" where
  "cfg_ok cfg \<longleftrightarrow>
     0 < cfg_tick cfg \<and> cfg_minPrice cfg \<le> cfg_maxPrice cfg \<and>
     kBidEmpty < cfg_minPrice cfg \<and> cfg_maxPrice cfg < kAskEmpty \<and>
     (cfg_maxPrice cfg - cfg_minPrice cfg) div cfg_tick cfg < 2 ^ 63 \<and> 0 < cfg_maxOrders cfg"

definition on_tick :: "BookConfig \<Rightarrow> Price \<Rightarrow> bool" where
  "on_tick cfg p \<longleftrightarrow> (p - cfg_minPrice cfg) mod cfg_tick cfg = 0"

definition cfg_slots :: "BookConfig \<Rightarrow> nat" where
  "cfg_slots cfg = nat ((cfg_maxPrice cfg - cfg_minPrice cfg) div cfg_tick cfg) + 1"

definition cfg_price :: "BookConfig \<Rightarrow> nat \<Rightarrow> Price" where
  "cfg_price cfg i = cfg_minPrice cfg + int i * cfg_tick cfg"

section \<open>Field access\<close>

named_theorems book_simps \<open>reading a field of an updated book\<close>

lemma sideOf_setSide [simp, book_simps]: "sideOf (setSide b s lm) s' = (if s' = s then lm else sideOf b s')"
  by (cases s; cases s') (auto simp: sideOf_def setSide_def)

lemma setSide_other [simp, book_simps]:
  "ob_cfg (setSide b s lm) = ob_cfg b" "ob_idMap (setSide b s lm) = ob_idMap b"
  "ob_pool (setSide b s lm) = ob_pool b" "ob_seq (setSide b s lm) = ob_seq b"
  "ob_nextTradeId (setSide b s lm) = ob_nextTradeId b"
  by (auto simp: setSide_def)

lemma sideOf_other [simp, book_simps]:
  "sideOf (b\<lparr>ob_idMap := m\<rparr>) s = sideOf b s" "sideOf (b\<lparr>ob_pool := pl\<rparr>) s = sideOf b s"
  "sideOf (b\<lparr>ob_seq := q\<rparr>) s = sideOf b s" "sideOf (b\<lparr>ob_nextTradeId := q\<rparr>) s = sideOf b s"
  by (auto simp: sideOf_def)

lemma setStore_simps [simp, book_simps]:
  "sideOf (setStore b st) s = sideOf b s" "ob_cfg (setStore b st) = ob_cfg b"
  "ob_idMap (setStore b st) = ob_idMap b" "ob_pool (setStore b st) = (ob_pool b)\<lparr>storage := st\<rparr>"
  "ob_seq (setStore b st) = ob_seq b" "ob_nextTradeId (setStore b st) = ob_nextTradeId b"
  by (auto simp: setStore_def)

lemma setSide_setSide [simp, book_simps]: "setSide (setSide b s lm) s lm' = setSide b s lm'"
  by (auto simp: setSide_def)

lemma setSide_pool_idMap:
  "(setSide b s lm)\<lparr>ob_idMap := m, ob_pool := pl\<rparr> = setSide (b\<lparr>ob_idMap := m, ob_pool := pl\<rparr>) s lm"
  by (cases b) (auto simp: setSide_def)

lemma setLevel_simps [simp, book_simps]:
  "ob_cfg (setLevel b s i lv) = ob_cfg b" "ob_idMap (setLevel b s i lv) = ob_idMap b"
  "ob_pool (setLevel b s i lv) = ob_pool b" "ob_seq (setLevel b s i lv) = ob_seq b"
  "ob_nextTradeId (setLevel b s i lv) = ob_nextTradeId b"
  "sideOf (setLevel b s i lv) s' =
     (if s' = s then (sideOf b s)\<lparr>lm_levels := (lm_levels (sideOf b s))[i := lv]\<rparr> else sideOf b s')"
  by (auto simp: setLevel_def)

section \<open>The representation invariant\<close>

text \<open>
  \<open>Q\<close> gives the queue of every level as a list of pointers. The conjuncts: the geometry of a side
  is that of the configuration; every level holds its queue; a level is marked occupied iff its
  queue is not empty, except for the levels in \<open>E\<close>, which are marked although they may be empty
  (the level the match loop is draining); the live slots of the pool are exactly the queued
  orders; an order lies on the level of its price; the id map maps exactly the ids of the queued
  orders and has room to spare.
\<close>

definition side_geo :: "OrderBook \<Rightarrow> Side \<Rightarrow> bool" where
  "side_geo b s \<longleftrightarrow> lm_inv (sideOf b s) \<and> lm_side (sideOf b s) = s \<and>
     lm_minPrice (sideOf b s) = cfg_minPrice (ob_cfg b) \<and> lm_maxPrice (sideOf b s) = cfg_maxPrice (ob_cfg b) \<and>
     lm_tick (sideOf b s) = cfg_tick (ob_cfg b)"

definition side_rep :: "OrderBook \<Rightarrow> (level_ref \<Rightarrow> ptr list) \<Rightarrow> level_ref set \<Rightarrow> Side \<Rightarrow> bool" where
  "side_rep b Q E s \<longleftrightarrow> side_geo b s \<and>
     (\<forall>i < lm_numSlots (sideOf b s). level_rep (orders_of b) (s, i) (lm_levels (sideOf b s) ! i) (Q (s, i))) \<and>
     (\<forall>i. lm_numSlots (sideOf b s) \<le> i \<longrightarrow> Q (s, i) = []) \<and>
     (\<forall>i < lm_numSlots (sideOf b s). i \<in> occ (sideOf b s) \<longleftrightarrow> Q (s, i) \<noteq> [] \<or> (s, i) \<in> E) \<and>
     (\<forall>i p x. p \<in> set (Q (s, i)) \<and> deref (orders_of b) p = Some x \<longrightarrow>
        o_side x = s \<and> o_price x = slot_price (sideOf b s) i)"

definition live :: "Order store \<Rightarrow> ptr set" where
  "live st = {p. deref st p \<noteq> None}"

definition id_at :: "Order store \<Rightarrow> ptr \<Rightarrow> OrderId" where
  "id_at st p = o_id (the (deref st p))"

definition pool_ok :: "OrderBook \<Rightarrow> (level_ref \<Rightarrow> ptr list) \<Rightarrow> bool" where
  "pool_ok b Q \<longleftrightarrow> pool_inv (ob_pool b) \<and> pool_capacity (ob_pool b) = cfg_maxOrders (ob_cfg b) \<and>
     live (orders_of b) = (\<Union>r. set (Q r)) \<and> inUse (ob_pool b) = card (live (orders_of b))"

definition id_ok :: "OrderBook \<Rightarrow> bool" where
  "id_ok b \<longleftrightarrow> im_inv (ob_idMap b) \<and>
     (\<forall>k p. im_lookup (ob_idMap b) k = Some p \<longleftrightarrow> p \<in> live (orders_of b) \<and> id_at (orders_of b) p = k) \<and>
     im_size (ob_idMap b) = card (live (orders_of b)) \<and> cfg_maxOrders (ob_cfg b) < im_capacity (ob_idMap b)"

definition book_rep :: "OrderBook \<Rightarrow> (level_ref \<Rightarrow> ptr list) \<Rightarrow> level_ref set \<Rightarrow> bool" where
  "book_rep b Q E \<longleftrightarrow> side_rep b Q E Buy \<and> side_rep b Q E Sell \<and> pool_ok b Q \<and> id_ok b"

lemma book_rep_side: "book_rep b Q E \<Longrightarrow> side_rep b Q E s"
  by (cases s) (auto simp: book_rep_def)

lemma book_repI: "(\<And>s. side_rep b Q E s) \<Longrightarrow> pool_ok b Q \<Longrightarrow> id_ok b \<Longrightarrow> book_rep b Q E"
  by (simp add: book_rep_def)

lemma side_repD:
  assumes "side_rep b Q E s"
  shows "side_geo b s" "lm_inv (sideOf b s)" "lm_wf (sideOf b s)" "lm_side (sideOf b s) = s"
    "length (lm_levels (sideOf b s)) = lm_numSlots (sideOf b s)"
    "i < lm_numSlots (sideOf b s) \<Longrightarrow> level_rep (orders_of b) (s, i) (lm_levels (sideOf b s) ! i) (Q (s, i))"
    "i < lm_numSlots (sideOf b s) \<Longrightarrow> i \<in> occ (sideOf b s) \<longleftrightarrow> Q (s, i) \<noteq> [] \<or> (s, i) \<in> E"
    "p \<in> set (Q (s, i)) \<Longrightarrow> i < lm_numSlots (sideOf b s)"
    "p \<in> set (Q (s, i)) \<Longrightarrow> deref (orders_of b) p = Some x \<Longrightarrow> o_side x = s \<and> o_price x = slot_price (sideOf b s) i"
proof -
  show geo: "side_geo b s" using assms by (simp add: side_rep_def)
  then show "lm_inv (sideOf b s)" "lm_side (sideOf b s) = s" by (simp_all add: side_geo_def)
  then show "lm_wf (sideOf b s)" by (simp add: lm_inv_def)
  then show "length (lm_levels (sideOf b s)) = lm_numSlots (sideOf b s)" by (simp add: lm_wf_def)
  show "i < lm_numSlots (sideOf b s) \<Longrightarrow> level_rep (orders_of b) (s, i) (lm_levels (sideOf b s) ! i) (Q (s, i))"
    "i < lm_numSlots (sideOf b s) \<Longrightarrow> i \<in> occ (sideOf b s) \<longleftrightarrow> Q (s, i) \<noteq> [] \<or> (s, i) \<in> E"
    using assms by (auto simp: side_rep_def)
  show "p \<in> set (Q (s, i)) \<Longrightarrow> i < lm_numSlots (sideOf b s)"
    using assms unfolding side_rep_def by (metis empty_iff empty_set not_le_imp_less)
  show "p \<in> set (Q (s, i)) \<Longrightarrow> deref (orders_of b) p = Some x \<Longrightarrow> o_side x = s \<and> o_price x = slot_price (sideOf b s) i"
    using assms unfolding side_rep_def by blast
qed

lemma side_rep_cfg:
  assumes "side_rep b Q E s"
  shows "lm_numSlots (sideOf b s) = cfg_slots (ob_cfg b)" "slot_price (sideOf b s) = cfg_price (ob_cfg b)"
    "inRange (sideOf b s) = cfg_inRange (ob_cfg b)"
  using side_repD(1,3) [OF assms]
  by (auto simp: side_geo_def lm_wf_def cfg_slots_def cfg_price_def slot_price_def fun_eq_iff inRange_def cfg_inRange_def)

lemmas book_rep_cfg = side_rep_cfg [OF book_rep_side]

lemma queued_live:
  assumes "book_rep b Q E" "p \<in> set (Q (s, i))"
  obtains x where "deref (orders_of b) p = Some x" "o_level x = Some (s, i)" "o_side x = s"
    "o_price x = slot_price (sideOf b s) i" "i < lm_numSlots (sideOf b s)"
proof -
  note D = side_repD [OF book_rep_side [OF assms(1)]]
  have i: "i < lm_numSlots (sideOf b s)" by (rule D(8) [OF assms(2)])
  from level_rep_level [OF D(6) [OF i] assms(2)] obtain x where "deref (orders_of b) p = Some x" "o_level x = Some (s, i)" by blast
  then show ?thesis using that D(9) [OF assms(2)] i by blast
qed

lemma queues_disjoint:
  assumes "book_rep b Q E" "p \<in> set (Q r)" "p \<in> set (Q r')"
  shows "r = r'"
proof -
  obtain s i s' i' where r: "r = (s, i)" "r' = (s', i')" by (metis prod.exhaust)
  obtain x where "deref (orders_of b) p = Some x" "o_level x = Some (s, i)"
    using queued_live [OF assms(1)] assms(2) r by metis
  moreover obtain y where "deref (orders_of b) p = Some y" "o_level y = Some (s', i')"
    using queued_live [OF assms(1)] assms(3) r by metis
  ultimately show ?thesis using r by simp
qed

lemma live_queued:
  assumes "book_rep b Q E" "deref (orders_of b) p = Some x"
  shows "\<exists>i. o_level x = Some (o_side x, i) \<and> p \<in> set (Q (o_side x, i))"
proof -
  have "p \<in> live (orders_of b)" using assms(2) by (simp add: live_def)
  then obtain s i where q: "p \<in> set (Q (s, i))" using assms(1) by (auto simp: book_rep_def pool_ok_def)
  obtain y where "deref (orders_of b) p = Some y" "o_level y = Some (s, i)" "o_side y = s"
    by (rule queued_live [OF assms(1) q])
  then show ?thesis using assms(2) q by auto
qed

lemma book_rep_E_nonempty:
  assumes "book_rep b Q E" "Q r \<noteq> []"
  shows "book_rep b Q (insert r E)" "book_rep b Q (E - {r})"
  using assms by (auto simp: book_rep_def side_rep_def)

text \<open>The level map and the identity map of the book are insensitive to the two counters.\<close>

lemma book_rep_counters [simp]:
  "book_rep (b\<lparr>ob_seq := q\<rparr>) Q E = book_rep b Q E" "book_rep (b\<lparr>ob_nextTradeId := t\<rparr>) Q E = book_rep b Q E"
  by (simp_all add: book_rep_def side_rep_def side_geo_def pool_ok_def id_ok_def)

section \<open>Views\<close>

text \<open>What the abstract book sees of an order: its fields without the links.\<close>

definition vw :: "Order store \<Rightarrow> ptr \<Rightarrow> Resting" where
  "vw st p = victimOf (the (deref st p))"

lemma victimOf_payload: "payload x = payload y \<Longrightarrow> victimOf x = victimOf y"
  using payload_eqD [of x y] by (simp add: victimOf_def)

lemma relinked_live: "relinked S st st' \<Longrightarrow> live st' = live st"
  unfolding relinked_def live_def by (metis option.map_disc_iff)

lemma relinked_the:
  assumes "relinked S st st'" "q \<in> live st"
  shows "vw st' q = vw st q" "id_at st' q = id_at st q"
proof -
  obtain x where x: "deref st q = Some x" using assms(2) by (auto simp: live_def)
  obtain y where y: "deref st' q = Some y" using assms x relinked_live [OF assms(1)] by (auto simp: live_def)
  obtain z where "deref st q = Some z" "payload y = payload z" by (rule relinked_derefE [OF assms(1) y])
  then show "vw st' q = vw st q" "id_at st' q = id_at st q"
    using x y victimOf_payload [of y z] payload_eqD(4) [of y z] by (auto simp: vw_def id_at_def)
qed

section \<open>The pool under writes to live slots\<close>

lemma free_chain_cong:
  "(\<And>q. q \<in> set fl \<Longrightarrow> slotNext st' q = slotNext st q) \<Longrightarrow> free_chain st' fp fl = free_chain st fp fl"
  by (induction fl arbitrary: fp) auto

lemma pool_rep_store:
  assumes rep: "pool_rep pl fl" and len: "length st' = length (storage pl)"
    and same: "\<And>q. deref (storage pl) q = None \<Longrightarrow> st' ! q = storage pl ! q"
  shows "pool_rep (pl\<lparr>storage := st'\<rparr>) fl"
proof -
  have "slotNext st' q = slotNext (storage pl) q" if "q \<in> set fl" for q
    using same [of q] free_chain_not_live [of "storage pl" "free pl" fl q] that rep len
    by (simp add: slotNext_def nth_opt_def pool_rep_def)
  then have "free_chain st' (free pl) fl = free_chain (storage pl) (free pl) fl" by (rule free_chain_cong)
  then show ?thesis using rep len by (simp add: pool_rep_def)
qed

lemma pool_rep_not_free: "pool_rep pl fl \<Longrightarrow> deref (storage pl) p = Some x \<Longrightarrow> p \<notin> set fl"
  using free_chain_not_live [of "storage pl" "free pl" fl p] by (auto simp: pool_rep_def)

lemma live_finite [simp]: "finite (live st)"
  by (rule finite_subset [of _ "{..<length st}"]) (auto simp: live_def dest: deref_less)

section \<open>Changing one level\<close>

lemma occ_levels [simp]: "occ (lm\<lparr>lm_levels := ls\<rparr>) = occ lm"
  by (simp add: occ_def l0_bit_def)

lemma best_ok_levels [simp]: "best_ok (lm\<lparr>lm_levels := ls\<rparr>) = best_ok lm"
  by (simp add: best_ok_def)

text \<open>
  A write of one level and of the orders it holds. The other levels see the same orders.
\<close>

lemma side_rep_level:
  assumes rep: "book_rep b Q E" and i: "i < lm_numSlots (sideOf b s)"
    and b': "sideOf b' s = (sideOf b s)\<lparr>lm_levels := (lm_levels (sideOf b s))[i := lv']\<rparr>"
      "sideOf b' (opposite s) = sideOf b (opposite s)" "ob_cfg b' = ob_cfg b"
    and others: "\<And>r q. r \<noteq> (s, i) \<Longrightarrow> q \<in> set (Q r) \<Longrightarrow> deref (orders_of b') q = deref (orders_of b) q"
    and lv: "level_rep (orders_of b') (s, i) lv' ps'" "lvl_price lv' = lvl_price (lm_levels (sideOf b s) ! i)"
    and data: "\<And>q x. q \<in> set ps' \<Longrightarrow> deref (orders_of b') q = Some x \<Longrightarrow> o_side x = s \<and> o_price x = slot_price (sideOf b s) i"
    and sync: "i \<in> occ (sideOf b s) \<longleftrightarrow> ps' \<noteq> [] \<or> (s, i) \<in> E'" "\<And>r. r \<noteq> (s, i) \<Longrightarrow> r \<in> E' \<longleftrightarrow> r \<in> E"
  shows "side_rep b' (Q((s, i) := ps')) E' s'"
proof (cases "s' = s")
  case True
  note D = side_repD [OF book_rep_side [OF rep, of s]]
  have "lm_inv (sideOf b' s)"
    using lm_wf_levels [OF D(3) i lv(2)] D(2) by (simp add: lm_inv_def b')
  then have "side_geo b' s" using D(1) by (simp add: side_geo_def b')
  moreover have "level_rep (orders_of b') (s, j) (lm_levels (sideOf b' s) ! j) ((Q((s, i) := ps')) (s, j))"
    if "j < lm_numSlots (sideOf b s)" for j
  proof (cases "j = i")
    case False
    then have "deref (orders_of b') q = deref (orders_of b) q" if "q \<in> set (Q (s, j))" for q
      using others [of "(s, j)" q] that by simp
    then show ?thesis using D(6) [OF that] False level_rep_cong [of "Q (s, j)" "orders_of b'" "orders_of b"]
      by (simp add: b')
  qed (use lv i D(5) in \<open>simp add: b'\<close>)
  moreover have dt: "o_side x = s \<and> o_price x = slot_price (sideOf b' s) j"
    if "p \<in> set ((Q((s, i) := ps')) (s, j))" "deref (orders_of b') p = Some x" for j p x
    using data [of p x] D(9) [of p j x] others [of "(s, j)" p] that by (simp add: b' split: if_splits)
  moreover have "\<forall>j. lm_numSlots (sideOf b s) \<le> j \<longrightarrow> (Q((s, i) := ps')) (s, j) = []"
    using i book_rep_side [OF rep, of s] by (auto simp: side_rep_def)
  moreover have "\<forall>j < lm_numSlots (sideOf b s). j \<in> occ (sideOf b s) \<longleftrightarrow> (Q((s, i) := ps')) (s, j) \<noteq> [] \<or> (s, j) \<in> E'"
    using D(7) sync by auto
  ultimately show ?thesis unfolding True side_rep_def using dt
    by (intro conjI; blast?) (simp_all add: b')
next
  case False
  then have s': "s' = opposite s" by (cases s; cases s') auto
  note D = side_repD [OF book_rep_side [OF rep, of s']]
  have same: "deref (orders_of b') q = deref (orders_of b) q" if "q \<in> set (Q (s', j))" for q j
    using others that False by blast
  then have "level_rep (orders_of b') (s', j) (lm_levels (sideOf b s') ! j) (Q (s', j))"
    if "j < lm_numSlots (sideOf b s')" for j
    using D(6) [OF that] level_rep_cong [of "Q (s', j)" "orders_of b'" "orders_of b"] by simp
  moreover have "(s', j) \<in> E' \<longleftrightarrow> (s', j) \<in> E" for j using sync(2) False by simp
  moreover have "\<forall>j q x. q \<in> set (Q (s', j)) \<and> deref (orders_of b') q = Some x \<longrightarrow>
      o_side x = s' \<and> o_price x = slot_price (sideOf b s') j"
    using D(9) same by auto
  ultimately show ?thesis
    using book_rep_side [OF rep, of s'] False unfolding side_rep_def side_geo_def b'(2) [folded s'] b'(3)
    by simp
qed

lemma sideOf_setLevel_other: "sideOf (setLevel b s i lv) (opposite s) = sideOf b (opposite s)"
  by simp

section \<open>Taking an order out\<close>

lemma live_release: "p < length st \<Longrightarrow> live (st[p := FreeSlot n]) = live st - {p}"
  by (auto simp: live_def)

lemma pool_remove:
  assumes ok: "pool_ok b Q" and rl: "relinked S (orders_of b) st1" "S \<subseteq> live (orders_of b)"
    and p: "p \<in> live (orders_of b)"
  obtains pl1 n where "release ((ob_pool b)\<lparr>storage := st1\<rparr>) (Some p) = Some pl1" "pool_inv pl1"
    "storage pl1 = st1[p := FreeSlot n]" "p < length st1" "pool_capacity pl1 = pool_capacity (ob_pool b)"
    "inUse pl1 = card (live (storage pl1))" "live (storage pl1) = live (orders_of b) - {p}"
proof -
  let ?pl = "(ob_pool b)\<lparr>storage := st1\<rparr>"
  define fl where "fl = free_list (ob_pool b)"
  have rep: "pool_rep (ob_pool b) fl" using ok by (simp add: fl_def pool_ok_def pool_inv_def)
  have same: "st1 ! q = orders_of b ! q" if "deref (orders_of b) q = None" for q
    using that rl by (auto simp: relinked_def live_def)
  have rep1: "pool_rep ?pl fl"
    by (rule pool_rep_store [OF rep _ same]) (use rl in \<open>auto simp: relinked_def\<close>)
  have lv: "live st1 = live (orders_of b)" by (rule relinked_live [OF rl(1)])
  then obtain x where x: "deref st1 p = Some x" using p by (auto simp: live_def)
  have pf: "p \<notin> set fl" using pool_rep_not_free [OF rep1] x by simp
  note less = deref_less [OF x]
  have "0 < inUse ?pl" using pool_inUse_pos [OF rep1 _ pf] less by simp
  note rr = release_rep [OF rep1 _ pf this]
  have lr: "live (st1[p := FreeSlot (free (ob_pool b))]) = live (orders_of b) - {p}"
    using live_release [OF less] lv by simp
  show ?thesis
  proof (rule that)
    show "release ?pl (Some p) = Some (?pl\<lparr>storage := st1[p := FreeSlot (free (ob_pool b))], free := Some p, inUse := inUse (ob_pool b) - 1\<rparr>)"
      using rr(1) less by simp
    show "pool_inv (?pl\<lparr>storage := st1[p := FreeSlot (free (ob_pool b))], free := Some p, inUse := inUse (ob_pool b) - 1\<rparr>)"
      using pool_rep_inv [OF rr(2)] less by simp
  qed (use lr p ok less in \<open>auto simp: pool_ok_def\<close>)
qed

lemma queues_remove:
  assumes "distinct (Q r)" "\<And>r'. p \<in> set (Q r') \<Longrightarrow> r' = r"
  shows "(\<Union>r'. set ((Q(r := remove1 p (Q r))) r')) = (\<Union>r'. set (Q r')) - {p}"
proof (intro set_eqI iffI)
  fix q assume "q \<in> (\<Union>r'. set ((Q(r := remove1 p (Q r))) r'))"
  then obtain r' where "q \<in> set ((Q(r := remove1 p (Q r))) r')" by blast
  then have "q \<in> set (Q r')" "q \<noteq> p" using assms by (auto simp: set_remove1_eq split: if_splits)
  then show "q \<in> (\<Union>r'. set (Q r')) - {p}" by blast
next
  fix q assume "q \<in> (\<Union>r'. set (Q r')) - {p}"
  then obtain r' where "q \<in> set (Q r')" "q \<noteq> p" by blast
  then have "q \<in> set ((Q(r := remove1 p (Q r))) r')" using assms(1) by (auto simp: set_remove1_eq)
  then show "q \<in> (\<Union>r'. set ((Q(r := remove1 p (Q r))) r'))" by blast
qed

lemma remove_order:
  assumes rep: "book_rep b Q E" and p: "p \<in> set (Q (s, i))"
  obtains st1 lv1 m1 pl1 x1 where
    "unlink (orders_of b) (lm_levels (sideOf b s) ! i) p = Some (st1, lv1)"
    "deref st1 p = Some x1" "o_id x1 = id_at (orders_of b) p"
    "erase_id (ob_idMap b) (id_at (orders_of b) p) = Some (True, m1)"
    "release ((ob_pool b)\<lparr>storage := st1\<rparr>) (Some p) = Some pl1"
    "book_rep ((setLevel b s i lv1)\<lparr>ob_idMap := m1, ob_pool := pl1\<rparr>) (Q((s, i) := remove1 p (Q (s, i)))) (insert (s, i) E)"
    "\<And>q. q \<in> live (orders_of b) \<Longrightarrow> q \<noteq> p \<Longrightarrow> vw (storage pl1) q = vw (orders_of b) q"
    "lvl_empty lv1 \<longleftrightarrow> remove1 p (Q (s, i)) = []"
proof -
  note D = side_repD [OF book_rep_side [OF rep, of s]]
  have i: "i < lm_numSlots (sideOf b s)" by (rule D(8) [OF p])
  obtain st1 lv1 x1 where u: "unlink (orders_of b) (lm_levels (sideOf b s) ! i) p = Some (st1, lv1)"
      "level_rep st1 (s, i) lv1 (remove1 p (Q (s, i)))" "relinked (set (Q (s, i))) (orders_of b) st1"
      "lvl_price lv1 = lvl_price (lm_levels (sideOf b s) ! i)" "deref st1 p = Some x1" "o_level x1 = None"
    by (rule unlink_rep [OF D(6) [OF i] p])
  have pok: "pool_ok b Q" and iok: "id_ok b" using rep by (auto simp: book_rep_def)
  have sub: "set (Q (s, i)) \<subseteq> live (orders_of b)" and dist: "distinct (Q (s, i))"
    using pok D(6) [OF i] by (auto simp: pool_ok_def level_rep_def)
  then have pl: "p \<in> live (orders_of b)" using p by auto
  obtain pl1 n where r: "release ((ob_pool b)\<lparr>storage := st1\<rparr>) (Some p) = Some pl1" "pool_inv pl1"
      "storage pl1 = st1[p := FreeSlot n]" "p < length st1" "pool_capacity pl1 = pool_capacity (ob_pool b)"
      "inUse pl1 = card (live (storage pl1))" "live (storage pl1) = live (orders_of b) - {p}"
    by (rule pool_remove [OF pok u(3) sub pl])
  have same: "vw (storage pl1) q = vw (orders_of b) q" "id_at (storage pl1) q = id_at (orders_of b) q"
    if "q \<in> live (orders_of b)" "q \<noteq> p" for q
    using relinked_the [OF u(3) that(1)] that(2) r(3,4) by (auto simp: vw_def id_at_def)
  have room: "im_size (ob_idMap b) < im_capacity (ob_idMap b)"
  proof -
    have "card (live (orders_of b)) \<le> cfg_maxOrders (ob_cfg b)"
      using pok by (auto simp: pool_ok_def pool_inv_def pool_rep_def)
    then show ?thesis using iok by (auto simp: id_ok_def)
  qed
  obtain m1 where m: "erase_id (ob_idMap b) (id_at (orders_of b) p) = Some (True, m1)" "im_inv m1"
      "Suc (im_size m1) = im_size (ob_idMap b)" "im_capacity m1 = im_capacity (ob_idMap b)"
      "\<forall>k q. im_lookup m1 k = Some q \<longleftrightarrow> q \<in> live (orders_of b) - {p} \<and> id_at (orders_of b) q = k"
    using oim.del_index [OF _ room, of "live (orders_of b)" "id_at (orders_of b)" p] iok pl
    by (auto simp: id_ok_def)
  define b' where "b' = (setLevel b s i lv1)\<lparr>ob_idMap := m1, ob_pool := pl1\<rparr>"
  define Q' where "Q' = Q((s, i) := remove1 p (Q (s, i)))"
  have "side_rep b' Q' (insert (s, i) E) s'" for s'
    unfolding Q'_def
  proof (rule side_rep_level [OF rep i, where lv' = lv1])
    show "level_rep (orders_of b') (s, i) lv1 (remove1 p (Q (s, i)))"
      using u(2) level_rep_cong [of "remove1 p (Q (s, i))" "storage pl1" st1] dist r(3,4)
      by (auto simp: b'_def)
    fix r q assume q: "r \<noteq> (s, i)" "q \<in> set (Q r)"
    then have "q \<notin> set (Q (s, i))" using queues_disjoint [OF rep] by blast
    then show "deref (orders_of b') q = deref (orders_of b) q"
      using relinked_deref_other [OF u(3)] r(3,4) p by (auto simp: b'_def)
  next
    fix q x assume q: "q \<in> set (remove1 p (Q (s, i)))" "deref (orders_of b') q = Some x"
    then have "q \<noteq> p" "q \<in> set (Q (s, i))" using dist by (auto dest: notin_set_remove1)
    moreover from this have "deref st1 q = Some x" using q r(3,4) by (simp add: b'_def)
    from relinked_derefE [OF u(3) this] obtain y where "deref (orders_of b) q = Some y" "payload x = payload y" by blast
    ultimately show "o_side x = s \<and> o_price x = slot_price (sideOf b s) i"
      using D(9) [of q i y] payload_eqD(3,5) [of x y] by simp
  next
    show "(i \<in> occ (sideOf b s)) = (remove1 p (Q (s, i)) \<noteq> [] \<or> (s, i) \<in> insert (s, i) E)"
      using D(7) [OF i] p by auto
  qed (use u(4) in \<open>auto simp: b'_def\<close>)
  moreover have "pool_ok b' Q'"
  proof -
    have "(\<Union>r. set (Q' r)) = (\<Union>r. set (Q r)) - {p}"
      unfolding Q'_def by (rule queues_remove [where r = "(s, i)" and Q = Q, OF dist]) (rule queues_disjoint [OF rep _ p])
    then show ?thesis using pok r by (simp add: b'_def pool_ok_def)
  qed
  moreover have "id_ok b'"
    using iok m same(2) r(7) pl by (auto simp: id_ok_def b'_def card_Diff_singleton)
  ultimately have "book_rep b' Q' (insert (s, i) E)" by (rule book_repI)
  moreover have "o_id x1 = id_at (orders_of b) p"
    using relinked_the(2) [OF u(3) pl] u(5) by (simp add: id_at_def)
  ultimately show ?thesis
    using that [OF u(1,5) _ m(1) r(1)] same(1) level_rep_empty [OF u(2)] by (simp add: b'_def Q'_def)
qed

end
