(* ===== verification/Book_Match.thy ===== *)
theory Book_Match
  imports Book_Rep
begin

text \<open>
  The two loops of \<^verbatim>\<open>OrderBook::matchInto\<close>: they end, dereference only live orders, keep the
  representation, and compute the abstract match of the priority list.
\<close>

section \<open>The steps of the match loop\<close>

lemma unlinkAndRelease_rep:
  assumes rep: "book_rep b Q E" and p: "p \<in> set (Q (s, i))"
  obtains b' where "unlinkAndRelease b s i p = Some b'"
    "book_rep b' (Q((s, i) := remove1 p (Q (s, i)))) (insert (s, i) E)"
    "\<And>q. q \<in> live (orders_of b) \<Longrightarrow> q \<noteq> p \<Longrightarrow> vw (orders_of b') q = vw (orders_of b) q"
    "ob_cfg b' = ob_cfg b" "ob_seq b' = ob_seq b" "ob_nextTradeId b' = ob_nextTradeId b"
proof -
  note D = side_repD [OF book_rep_side [OF rep, of s]]
  have i: "i < length (lm_levels (sideOf b s))" using D(5) D(8) [OF p] by simp
  obtain st1 lv1 m1 pl1 x1 where r:
    "unlink (orders_of b) (lm_levels (sideOf b s) ! i) p = Some (st1, lv1)"
    "deref st1 p = Some x1" "o_id x1 = id_at (orders_of b) p"
    "erase_id (ob_idMap b) (id_at (orders_of b) p) = Some (True, m1)"
    "release ((ob_pool b)\<lparr>storage := st1\<rparr>) (Some p) = Some pl1"
    "book_rep ((setLevel b s i lv1)\<lparr>ob_idMap := m1, ob_pool := pl1\<rparr>) (Q((s, i) := remove1 p (Q (s, i)))) (insert (s, i) E)"
    "\<And>q. q \<in> live (orders_of b) \<Longrightarrow> q \<noteq> p \<Longrightarrow> vw (storage pl1) q = vw (orders_of b) q"
    by (rule remove_order [OF rep p]) blast
  define b' where "b' = (setLevel b s i lv1)\<lparr>ob_idMap := m1, ob_pool := pl1\<rparr>"
  have eq: "(setStore (setLevel b s i lv1) st1)\<lparr>ob_idMap := m1, ob_pool := pl1\<rparr> = b'"
    by (simp add: b'_def setStore_def)
  show ?thesis
  proof (rule that)
    show "unlinkAndRelease b s i p = Some b'"
      using i r(1-5) eq by (simp add: unlinkAndRelease_def)
    show "book_rep b' (Q((s, i) := remove1 p (Q (s, i)))) (insert (s, i) E)" using r(6) by (simp add: b'_def)
  qed (use r(7) in \<open>auto simp: b'_def\<close>)
qed

lemma levelEmptied_rep:
  assumes rep: "book_rep b Q E" and ic: "i < cfg_slots (ob_cfg b)" and E: "E \<subseteq> {(s, i)}"
  obtains b' where "levelEmptied b s i (cfg_price (ob_cfg b) i) = Some b'" "book_rep b' Q {}"
    "orders_of b' = orders_of b" "ob_cfg b' = ob_cfg b" "ob_seq b' = ob_seq b" "ob_nextTradeId b' = ob_nextTradeId b"
proof -
  note D = side_repD [OF book_rep_side [OF rep, of s]]
  note C = book_rep_cfg [OF rep, of s]
  have i: "i < lm_numSlots (sideOf b s)" using ic C by simp
  have ne: "nth_opt (lm_levels (sideOf b s)) i = Some (lm_levels (sideOf b s) ! i)" using D(5) i by simp
  note em = level_rep_empty [OF D(6) [OF i]]
  show ?thesis
  proof (cases "Q (s, i) = []")
    case False
    have "book_rep b Q {}" using book_rep_E_nonempty(2) [OF rep False] E by (metis Diff_eq_empty_iff)
    then show ?thesis by (rule that [rotated]) (use em False ne in \<open>simp_all add: levelEmptied_def\<close>)
  next
    case True
    obtain lm' where lm': "onLevelEmptied (sideOf b s) (slot_price (sideOf b s) i) = Some lm'" "lm_inv lm'"
        "occ lm' = occ (sideOf b s) - {i}" "lm_levels lm' = lm_levels (sideOf b s)" "same_geometry (sideOf b s) lm'"
      by (rule onLevelEmptied_spec [OF D(2) i])
    have sp: "slot_price lm' = slot_price (sideOf b s)" and nb: "lm_numSlots lm' = lm_numSlots (sideOf b s)"
      using lm'(5) by (auto simp: same_geometry_def slot_price_def fun_eq_iff)
    have "side_rep (setSide b s lm') Q {} s'" for s'
    proof (cases "s' = s")
      case s: True
      have "side_geo (setSide b s lm') s" using D(1) lm'(2,5) by (simp add: side_geo_def same_geometry_def)
      moreover have "\<forall>j < lm_numSlots (sideOf b s). j \<in> occ lm' \<longleftrightarrow> Q (s, j) \<noteq> []"
        using D(7) E True by (auto simp: lm'(3))
      ultimately show ?thesis using book_rep_side [OF rep, of s] s
        by (simp add: side_rep_def lm'(4) sp nb)
    next
      case False
      then have "(s', j) \<notin> E" for j using E by auto
      then show ?thesis using book_rep_side [OF rep, of s'] False by (simp add: side_rep_def side_geo_def)
    qed
    then have "book_rep (setSide b s lm') Q {}"
      by (rule book_repI) (use rep in \<open>simp_all add: book_rep_def pool_ok_def id_ok_def\<close>)
    then show ?thesis by (rule that [rotated]) (use em True ne lm'(1) C in \<open>simp_all add: levelEmptied_def\<close>)
  qed
qed

lemma level_rep_fill:
  assumes rep: "level_rep st ref lv ps" and p: "p \<in> set ps" and x: "deref st p = Some x"
  shows "level_rep (st[p := Live (x\<lparr>o_remaining := o_remaining x - q\<rparr>)]) ref (reduceQuantity lv q) ps"
proof -
  let ?st = "st[p := Live (x\<lparr>o_remaining := o_remaining x - q\<rparr>)]"
  note less = deref_less [OF x]
  have "dseg st ref pr ps nx \<Longrightarrow> dseg ?st ref pr ps nx" for pr nx
    by (induction ps arbitrary: pr) (use x less in auto)
  moreover obtain xs ys where ps: "ps = xs @ p # ys" using p by (meson split_list)
  then have np: "p \<notin> set xs" "p \<notin> set ys" using rep by (auto simp: level_rep_def)
  have same: "rem_at ?st r = rem_at st r" if "r \<noteq> p" for r using that less by (simp add: rem_at_def)
  have mp: "map (rem_at ?st) xs = map (rem_at st) xs" "map (rem_at ?st) ys = map (rem_at st) ys"
    by (auto intro!: same simp: np)
  moreover have "rem_at ?st p = rem_at st p - q" using less x by (simp add: rem_at_def)
  ultimately have "(\<Sum>r\<leftarrow>ps. rem_at ?st r) = (\<Sum>r\<leftarrow>ps. rem_at st r) - q"
    unfolding ps map_append sum_list_append list.map mp by simp
  then show ?thesis using rep \<open>\<And>pr nx. dseg st ref pr ps nx \<Longrightarrow> dseg ?st ref pr ps nx\<close>
    by (simp add: level_rep_def reduceQuantity_def)
qed

lemma live_write: "p < length st \<Longrightarrow> live (st[p := Live x]) = insert p (live st)"
  by (auto simp: live_def)

lemma fill_rep:
  fixes q t
  assumes rep: "book_rep b Q E" and p: "p \<in> set (Q (s, i))" and x: "deref (orders_of b) p = Some x"
  defines "b' \<equiv> setStore (setLevel b s i (reduceQuantity (lm_levels (sideOf b s) ! i) q))
      ((orders_of b)[p := Live (x\<lparr>o_remaining := o_remaining x - q\<rparr>)])\<lparr>ob_nextTradeId := t\<rparr>"
  shows "book_rep b' Q E" "vw (orders_of b') r = (if r = p then (vw (orders_of b) p)\<lparr>v_remaining := o_remaining x - q\<rparr> else vw (orders_of b) r)"
proof -
  note D = side_repD [OF book_rep_side [OF rep, of s]]
  note less = deref_less [OF x]
  have i: "i < lm_numSlots (sideOf b s)" by (rule D(8) [OF p])
  have pok: "pool_ok b Q" and iok: "id_ok b" using rep by (auto simp: book_rep_def)
  have st: "orders_of b' = (orders_of b)[p := Live (x\<lparr>o_remaining := o_remaining x - q\<rparr>)]" by (simp add: b'_def)
  show "vw (orders_of b') r = (if r = p then (vw (orders_of b) p)\<lparr>v_remaining := o_remaining x - q\<rparr> else vw (orders_of b) r)"
    unfolding st vw_def using less x by (simp add: victimOf_def)
  have lv: "live (orders_of b') = live (orders_of b)"
    unfolding st using live_write [OF less] x by (auto simp: live_def)
  have ids: "id_at (orders_of b') r = id_at (orders_of b) r" for r
    unfolding st id_at_def using less x by simp
  have "side_rep b' (Q((s, i) := Q (s, i))) E s'" for s'
  proof (rule side_rep_level [OF rep i, where lv' = "reduceQuantity (lm_levels (sideOf b s) ! i) q"])
    show "level_rep (orders_of b') (s, i) (reduceQuantity (lm_levels (sideOf b s) ! i) q) (Q (s, i))"
      unfolding st by (rule level_rep_fill [OF D(6) [OF i] p x])
    show "lvl_price (reduceQuantity (lm_levels (sideOf b s) ! i) q) = lvl_price (lm_levels (sideOf b s) ! i)"
      by (simp add: reduceQuantity_def)
    show "(i \<in> occ (sideOf b s)) = (Q (s, i) \<noteq> [] \<or> (s, i) \<in> E)" by (rule D(7) [OF i])
    show "deref (orders_of b') r' = deref (orders_of b) r'" if "r \<noteq> (s, i)" "r' \<in> set (Q r)" for r r'
      using queues_disjoint [OF rep p, of r] that less by (auto simp: st)
    show "o_side y = s \<and> o_price y = slot_price (sideOf b s) i" if "r \<in> set (Q (s, i))" "deref (orders_of b') r = Some y" for r y
      using D(9) [OF that(1)] D(9) [OF p x] that(2) less by (auto simp: st split: if_splits)
  qed (simp_all add: b'_def)
  moreover have "pool_ok b' Q"
  proof -
    have keep: "orders_of b' ! r = orders_of b ! r" if "deref (orders_of b) r = None" for r
      using that x by (cases "r = p") (auto simp: st)
    have "pool_inv ((ob_pool b)\<lparr>storage := orders_of b'\<rparr>)"
      by (rule pool_rep_inv [OF pool_rep_store [of _ "free_list (ob_pool b)"]])
         (use pok keep in \<open>auto simp: pool_ok_def pool_inv_def st\<close>)
    moreover have "ob_pool b' = (ob_pool b)\<lparr>storage := orders_of b'\<rparr>" by (simp add: b'_def)
    ultimately show ?thesis using pok lv by (simp add: pool_ok_def b'_def)
  qed
  moreover have "id_ok b'"
    using iok unfolding id_ok_def lv ids by (simp add: b'_def)
  ultimately show "book_rep b' Q E" using book_repI [of b' "Q((s, i) := Q (s, i))"] by simp
qed


lemma fillHead_rep:
  assumes rep: "book_rep b Q E" and Q: "Q (s, i) = p # ps" and rem: "0 < remaining"
    and r: "r = vw (orders_of b) p"
  obtains b' where
    "fillHead b ord s i p trades remaining =
       Some (b', push trades (trade_with ord (ob_nextTradeId b) r (min remaining (v_remaining r))), remaining - min remaining (v_remaining r))"
    "v_remaining r \<le> remaining \<Longrightarrow> book_rep b' (Q((s, i) := ps)) (insert (s, i) E)"
    "\<not> v_remaining r \<le> remaining \<Longrightarrow> book_rep b' Q E \<and> vw (orders_of b') p = r\<lparr>v_remaining := v_remaining r - remaining\<rparr>"
    "\<And>q. q \<in> live (orders_of b) \<Longrightarrow> q \<noteq> p \<Longrightarrow> vw (orders_of b') q = vw (orders_of b) q"
    "ob_cfg b' = ob_cfg b" "ob_seq b' = ob_seq b" "ob_nextTradeId b' = ob_nextTradeId b + 1"
proof -
  have p: "p \<in> set (Q (s, i))" using Q by simp
  obtain x where x: "deref (orders_of b) p = Some x" "i < lm_numSlots (sideOf b s)"
    by (rule queued_live [OF rep p])
  note D = side_repD [OF book_rep_side [OF rep, of s]]
  have i: "nth_opt (lm_levels (sideOf b s)) i = Some (lm_levels (sideOf b s) ! i)" using x(2) D(5) by simp
  have rx: "r = victimOf x" using r x by (simp add: vw_def)
  define q where "q = min remaining (o_remaining x)"
  define b1 where "b1 = setStore (setLevel b s i (reduceQuantity (lm_levels (sideOf b s) ! i) q))
      ((orders_of b)[p := Live (x\<lparr>o_remaining := o_remaining x - q\<rparr>)])\<lparr>ob_nextTradeId := ob_nextTradeId b + 1\<rparr>"
  note f = fill_rep [OF rep p x(1), where q = q and t = "ob_nextTradeId b + 1", folded b1_def]
  have fr: "ob_cfg b1 = ob_cfg b" "ob_seq b1 = ob_seq b" "ob_nextTradeId b1 = ob_nextTradeId b + 1"
    "live (orders_of b1) = live (orders_of b)" "deref (orders_of b1) p = Some (x\<lparr>o_remaining := o_remaining x - q\<rparr>)"
    using deref_less [OF x(1)] x(1) by (auto simp: b1_def live_def)
  have eq: "fillHead b ord s i p trades remaining = do {
      b2 \<leftarrow> (if o_remaining x - q = 0 then unlinkAndRelease b1 s i p else Some b1);
      Some (b2, push trades (trade_with ord (ob_nextTradeId b) r q), remaining - q) }"
    using x(1) i fr(5) unfolding b1_def rx q_def
    by (simp add: fillHead_def modifyObj_Some Let_def trade_with_def victimOf_def)
  have vr: "v_remaining r = o_remaining x" by (simp add: rx victimOf_def)
  show ?thesis
  proof (cases "v_remaining r \<le> remaining")
    case True
    then have q: "o_remaining x - q = 0" by (simp add: q_def vr)
    obtain b' where b': "unlinkAndRelease b1 s i p = Some b'"
        "book_rep b' (Q((s, i) := remove1 p (Q (s, i)))) (insert (s, i) E)"
        "\<And>q. q \<in> live (orders_of b1) \<Longrightarrow> q \<noteq> p \<Longrightarrow> vw (orders_of b') q = vw (orders_of b1) q"
        "ob_cfg b' = ob_cfg b1" "ob_seq b' = ob_seq b1" "ob_nextTradeId b' = ob_nextTradeId b1"
      by (rule unlinkAndRelease_rep [OF f(1) p]) blast
    show ?thesis
      by (rule that [of b']) (use eq q b' fr f(2) Q True in \<open>auto simp: q_def vr\<close>)
  next
    case False
    then have q: "o_remaining x - q \<noteq> 0" "q = remaining" by (auto simp: q_def vr)
    show ?thesis
      by (rule that [of b1]) (use eq q f fr False in \<open>auto simp: vr r [symmetric]\<close>)
  qed
qed


section \<open>The inner loop\<close>

lemma matchLevel_stop:
  "i < length (lm_levels (sideOf b s)) \<Longrightarrow> remaining \<le> 0 \<or> lvl_empty (lm_levels (sideOf b s) ! i) \<Longrightarrow>
   matchLevel b ord s i p trades remaining victims = Some (b, trades, remaining, victims, False)"
  by (subst matchLevel.simps) auto

lemma pushes_Cons: "map_option (\<lambda>vb. foldl push vb vs) (map_option (\<lambda>vb. push vb v) victims) = map_option (\<lambda>vb. foldl push vb (v # vs)) victims"
  by (cases victims) auto

text \<open>What the inner loop does to level \<open>(s, i)\<close> with queue \<open>ps\<close>, against the abstract match of that queue.\<close>

definition level_done ::
  "OrderBook \<Rightarrow> (level_ref \<Rightarrow> ptr list) \<Rightarrow> level_ref \<Rightarrow> OrderBook \<Rightarrow> Trade list \<Rightarrow> Resting list \<Rightarrow> MatchOutcome \<Rightarrow> bool" where
  "level_done b Q r b' ts left oc \<longleftrightarrow>
     (\<exists>ps' E'. book_rep b' (Q(r := ps')) E' \<and> E' \<subseteq> {r} \<and> (oc = StpFired \<longrightarrow> E' = {}) \<and>
        map (vw (orders_of b')) ps' = left \<and> set ps' \<subseteq> set (Q r)) \<and>
     (\<forall>q \<in> live (orders_of b). q \<notin> set (Q r) \<longrightarrow> vw (orders_of b') q = vw (orders_of b) q) \<and>
     ob_cfg b' = ob_cfg b \<and> ob_seq b' = ob_seq b \<and> ob_nextTradeId b' = ob_nextTradeId b + int (length ts)"

lemma live_Q: "book_rep b Q E \<Longrightarrow> live (orders_of b) = (\<Union>r. set (Q r))"
  by (simp add: book_rep_def pool_ok_def)

lemma level_done_same:
  assumes "book_rep b Q E" "E \<subseteq> {r}" "oc = StpFired \<Longrightarrow> E = {}" "left = map (vw (orders_of b)) (Q r)"
  shows "level_done b Q r b [] left oc"
  unfolding level_done_def using assms by (auto intro!: exI [of _ "Q r"] exI [of _ E])

text \<open>One step that takes the head out of the queue (or leaves it, reduced), then the rest of the loop.\<close>

lemma level_done_step:
  assumes dn: "level_done b1 (Q(r := ps)) r b' ts left oc" and Q: "Q r = p # ps"
    and rep: "book_rep b Q E" "book_rep b1 (Q(r := ps)) E1"
    and fr: "\<And>q. q \<in> live (orders_of b) \<Longrightarrow> q \<noteq> p \<Longrightarrow> vw (orders_of b1) q = vw (orders_of b) q"
      "ob_cfg b1 = ob_cfg b" "ob_seq b1 = ob_seq b" "ob_nextTradeId b1 = ob_nextTradeId b + int (length us)"
  shows "level_done b Q r b' (us @ ts) left oc"
proof -
  have "vw (orders_of b') q = vw (orders_of b) q" if q: "q \<in> live (orders_of b)" "q \<notin> set (Q r)" for q
  proof -
    obtain r' where r': "q \<in> set (Q r')" using q live_Q [OF rep(1)] by blast
    then have "r' \<noteq> r" using q by auto
    then have "q \<in> live (orders_of b1)" unfolding live_Q [OF rep(2)] using r' by (intro UN_I [of r']) auto
    moreover have "q \<notin> set ps" "q \<noteq> p" using q Q by auto
    ultimately show ?thesis using dn fr(1) [OF q(1)] by (simp add: level_done_def)
  qed
  moreover obtain ps' E' where "book_rep b' (Q(r := ps')) E'" "E' \<subseteq> {r}" "oc = StpFired \<longrightarrow> E' = {}"
      "map (vw (orders_of b')) ps' = left" "set ps' \<subseteq> set ps"
    using dn by (auto simp: level_done_def)
  ultimately show ?thesis using dn Q fr(2-)
    unfolding level_done_def by (auto intro!: exI [of _ ps'] exI [of _ E'])
qed


lemma queue_head:
  assumes rep: "book_rep b Q E" and Q: "Q (s, i) = p # ps"
  obtains x where "deref (orders_of b) p = Some x" "vw (orders_of b) p = victimOf x"
    "v_price (vw (orders_of b) p) = cfg_price (ob_cfg b) i"
    "nth_opt (lm_levels (sideOf b s)) i = Some (lm_levels (sideOf b s) ! i)"
    "lvl_head (lm_levels (sideOf b s) ! i) = Some p" "\<not> lvl_empty (lm_levels (sideOf b s) ! i)"
    "p \<in> set (Q (s, i))" "p \<notin> set ps"
proof -
  note D = side_repD [OF book_rep_side [OF rep, of s]]
  have p: "p \<in> set (Q (s, i))" using Q by simp
  obtain x where x: "deref (orders_of b) p = Some x" "o_price x = cfg_price (ob_cfg b) i" "i < lm_numSlots (sideOf b s)"
    by (rule queued_live [OF rep p]) (use book_rep_cfg [OF rep, of s] in auto)
  show ?thesis
    by (rule that [OF x(1)])
       (use x D(5) D(6) [OF x(3)] Q in \<open>auto simp: level_rep_def lvl_empty_def vw_def victimOf_def\<close>)
qed

lemma map_vw_others:
  assumes "book_rep b Q E" "Q r = p # ps" "p \<notin> set ps"
    and same: "\<And>q. q \<in> live (orders_of b) \<Longrightarrow> q \<noteq> p \<Longrightarrow> vw st q = vw (orders_of b) q"
  shows "map (vw st) ps = map (vw (orders_of b)) ps"
proof (rule map_cong)
  fix q assume q: "q \<in> set ps"
  then have "q \<in> live (orders_of b)" unfolding live_Q [OF assms(1)] by (intro UN_I [of r]) (auto simp: assms(2))
  then show "vw st q = vw (orders_of b) q" using same q assms(3) by auto
qed simp

text \<open>The step that removes a resting order of the aggressor's own participant.\<close>

lemma matchLevel_victim:
  assumes rep: "book_rep b Q E" "E \<subseteq> {(s, i)}" "i < cfg_slots (ob_cfg b)" and Q: "Q (s, i) = p # ps"
    and self: "0 < remaining" "v_participant (vw (orders_of b) p) = n_participant ord" "cfg_stp (ob_cfg b) \<noteq> CancelAggressor"
  obtains b2 where
    "matchLevel b ord s i (cfg_price (ob_cfg b) i) trades remaining victims =
       (if cfg_stp (ob_cfg b) = CancelPassive
        then matchLevel b2 ord s i (cfg_price (ob_cfg b) i) trades remaining (map_option (\<lambda>vb. push vb (vw (orders_of b) p)) victims)
        else Some (b2, trades, remaining, map_option (\<lambda>vb. push vb (vw (orders_of b) p)) victims, True))"
    "book_rep b2 (Q((s, i) := ps)) {}"
    "\<And>q. q \<in> live (orders_of b) \<Longrightarrow> q \<noteq> p \<Longrightarrow> vw (orders_of b2) q = vw (orders_of b) q"
    "ob_cfg b2 = ob_cfg b" "ob_seq b2 = ob_seq b" "ob_nextTradeId b2 = ob_nextTradeId b"
proof -
  obtain x where x: "deref (orders_of b) p = Some x" "vw (orders_of b) p = victimOf x"
    "v_price (vw (orders_of b) p) = cfg_price (ob_cfg b) i"
    "nth_opt (lm_levels (sideOf b s)) i = Some (lm_levels (sideOf b s) ! i)"
    "lvl_head (lm_levels (sideOf b s) ! i) = Some p" "\<not> lvl_empty (lm_levels (sideOf b s) ! i)"
    "p \<in> set (Q (s, i))" "p \<notin> set ps" by (rule queue_head [OF rep(1) Q])
  have xp: "o_participant x = n_participant ord" using self x(2) by (simp add: victimOf_def)
  obtain b1 where b1: "unlinkAndRelease b s i p = Some b1"
      "book_rep b1 (Q((s, i) := remove1 p (Q (s, i)))) (insert (s, i) E)"
      "\<And>q. q \<in> live (orders_of b) \<Longrightarrow> q \<noteq> p \<Longrightarrow> vw (orders_of b1) q = vw (orders_of b) q"
      "ob_cfg b1 = ob_cfg b" "ob_seq b1 = ob_seq b" "ob_nextTradeId b1 = ob_nextTradeId b"
    by (rule unlinkAndRelease_rep [OF rep(1) x(7)]) blast
  have rep1: "book_rep b1 (Q((s, i) := ps)) (insert (s, i) E)" using b1(2) Q by simp
  obtain b2 where b2: "levelEmptied b1 s i (cfg_price (ob_cfg b) i) = Some b2" "book_rep b2 (Q((s, i) := ps)) {}"
      "orders_of b2 = orders_of b1" "ob_cfg b2 = ob_cfg b1" "ob_seq b2 = ob_seq b1" "ob_nextTradeId b2 = ob_nextTradeId b1"
    by (rule levelEmptied_rep [OF rep1, of i s]) (use rep b1(4) in auto)
  show ?thesis
  proof (rule that [OF _ b2(2)])
    show "matchLevel b ord s i (cfg_price (ob_cfg b) i) trades remaining victims =
       (if cfg_stp (ob_cfg b) = CancelPassive
        then matchLevel b2 ord s i (cfg_price (ob_cfg b) i) trades remaining (map_option (\<lambda>vb. push vb (vw (orders_of b) p)) victims)
        else Some (b2, trades, remaining, map_option (\<lambda>vb. push vb (vw (orders_of b) p)) victims, True))"
      by (subst matchLevel.simps)
         (use x self xp b1(1) b2(1) in \<open>cases "cfg_stp (ob_cfg b)"; simp add: Let_def\<close>)
  qed (use b1 b2 in auto)
qed

lemma matchLevel_self:
  assumes IH: "\<And>b2 trades remaining victims vs.
      book_rep b2 (Q((s, i) := ps)) {} \<Longrightarrow> ob_cfg b2 = ob_cfg b \<Longrightarrow>
      amatch (cfg_stp (ob_cfg b)) ord (ob_nextTradeId b2) remaining (map (vw (orders_of b2)) ps) = (ts, vs, left, rem', oc) \<Longrightarrow>
      \<exists>b'. matchLevel b2 ord s i (cfg_price (ob_cfg b) i) trades remaining victims =
        Some (b', foldl push trades ts, rem', map_option (\<lambda>vb. foldl push vb vs) victims, oc = StpFired) \<and>
      level_done b2 (Q((s, i) := ps)) (s, i) b' ts left oc"
    and rep: "book_rep b Q E" "E \<subseteq> {(s, i)}" "i < cfg_slots (ob_cfg b)" and Q: "Q (s, i) = p # ps"
    and cr: "crosses_with ord (vw (orders_of b) p)"
    and self: "0 < remaining" "v_participant (vw (orders_of b) p) = n_participant ord" "cfg_stp (ob_cfg b) \<noteq> CancelAggressor"
    and am: "amatch (cfg_stp (ob_cfg b)) ord (ob_nextTradeId b) remaining (map (vw (orders_of b)) (Q (s, i))) = (ts, vs, left, rem', oc)"
  shows "\<exists>b'. matchLevel b ord s i (cfg_price (ob_cfg b) i) trades remaining victims =
      Some (b', foldl push trades ts, rem', map_option (\<lambda>vb. foldl push vb vs) victims, oc = StpFired) \<and>
    level_done b Q (s, i) b' ts left oc"
proof -
  let ?st = "orders_of b" and ?r = "vw (orders_of b) p"
  obtain b2 where b2:
    "matchLevel b ord s i (cfg_price (ob_cfg b) i) trades remaining victims =
       (if cfg_stp (ob_cfg b) = CancelPassive
        then matchLevel b2 ord s i (cfg_price (ob_cfg b) i) trades remaining (map_option (\<lambda>vb. push vb ?r) victims)
        else Some (b2, trades, remaining, map_option (\<lambda>vb. push vb ?r) victims, True))"
    "book_rep b2 (Q((s, i) := ps)) {}" "\<And>q. q \<in> live ?st \<Longrightarrow> q \<noteq> p \<Longrightarrow> vw (orders_of b2) q = vw ?st q"
    "ob_cfg b2 = ob_cfg b" "ob_seq b2 = ob_seq b" "ob_nextTradeId b2 = ob_nextTradeId b"
    by (rule matchLevel_victim [OF rep Q self]) blast
  have "p \<notin> set ps" by (rule queue_head [OF rep(1) Q])
  note oth = map_vw_others [OF rep(1) Q this b2(3)]
  note step = level_done_step [where us = "[]", OF _ Q rep(1) b2(2-5), simplified]
  show ?thesis
  proof (cases "cfg_stp (ob_cfg b)")
    case CancelPassive
    then obtain vs' where vs': "amatch (cfg_stp (ob_cfg b)) ord (ob_nextTradeId b) remaining (map (vw ?st) ps) = (ts, vs', left, rem', oc)" "vs = ?r # vs'"
      using am self cr Q by (auto split: prod.splits)
    obtain b' where b': "matchLevel b2 ord s i (cfg_price (ob_cfg b) i) trades remaining (map_option (\<lambda>vb. push vb ?r) victims) =
        Some (b', foldl push trades ts, rem', map_option (\<lambda>vb. foldl push vb vs') (map_option (\<lambda>vb. push vb ?r) victims), oc = StpFired)"
      "level_done b2 (Q((s, i) := ps)) (s, i) b' ts left oc"
      using IH [OF b2(2,4), of remaining vs' trades "map_option (\<lambda>vb. push vb ?r) victims"] vs'(1) b2(6) oth by auto
    show ?thesis
      using b2(1,6) b'(1) step [OF b'(2)] CancelPassive vs'(2) unfolding pushes_Cons by auto
  next
    case CancelBoth
    then have res: "ts = []" "vs = [?r]" "left = map (vw ?st) ps" "rem' = remaining" "oc = StpFired"
      using am self cr Q by auto
    have "level_done b2 (Q((s, i) := ps)) (s, i) b2 [] left StpFired"
      by (rule level_done_same [OF b2(2)]) (use res oth in auto)
    then show ?thesis using b2(1,6) CancelBoth res step by auto
  qed (use self in simp)
qed

lemma matchLevel_fill:
  assumes IH: "\<And>b2 trades remaining victims ts E.
      book_rep b2 (Q((s, i) := ps)) E \<Longrightarrow> E \<subseteq> {(s, i)} \<Longrightarrow> ob_cfg b2 = ob_cfg b \<Longrightarrow>
      amatch (cfg_stp (ob_cfg b)) ord (ob_nextTradeId b2) remaining (map (vw (orders_of b2)) ps) = (ts, vs, left, rem', oc) \<Longrightarrow>
      \<exists>b'. matchLevel b2 ord s i (cfg_price (ob_cfg b) i) trades remaining victims =
        Some (b', foldl push trades ts, rem', map_option (\<lambda>vb. foldl push vb vs) victims, oc = StpFired) \<and>
      level_done b2 (Q((s, i) := ps)) (s, i) b' ts left oc"
    and rep: "book_rep b Q E" "E \<subseteq> {(s, i)}" "i < cfg_slots (ob_cfg b)" and Q: "Q (s, i) = p # ps"
    and cr: "crosses_with ord (vw (orders_of b) p)"
    and fill: "0 < remaining" "v_participant (vw (orders_of b) p) \<noteq> n_participant ord"
    and am: "amatch (cfg_stp (ob_cfg b)) ord (ob_nextTradeId b) remaining (map (vw (orders_of b)) (Q (s, i))) = (ts, vs, left, rem', oc)"
  shows "\<exists>b'. matchLevel b ord s i (cfg_price (ob_cfg b) i) trades remaining victims =
      Some (b', foldl push trades ts, rem', map_option (\<lambda>vb. foldl push vb vs) victims, oc = StpFired) \<and>
    level_done b Q (s, i) b' ts left oc"
proof -
  let ?st = "orders_of b" and ?P = "cfg_price (ob_cfg b) i"
  define r where "r = vw ?st p"
  let ?t = "trade_with ord (ob_nextTradeId b) r"
  obtain x where x: "deref ?st p = Some x" "r = victimOf x"
    "nth_opt (lm_levels (sideOf b s)) i = Some (lm_levels (sideOf b s) ! i)"
    "lvl_head (lm_levels (sideOf b s) ! i) = Some p" "\<not> lvl_empty (lm_levels (sideOf b s) ! i)" "p \<notin> set ps"
    by (rule queue_head [OF rep(1) Q]) (simp add: r_def)
  obtain b1 where b1:
    "fillHead b ord s i p trades remaining = Some (b1, push trades (?t (min remaining (v_remaining r))), remaining - min remaining (v_remaining r))"
    "v_remaining r \<le> remaining \<Longrightarrow> book_rep b1 (Q((s, i) := ps)) (insert (s, i) E)"
    "\<not> v_remaining r \<le> remaining \<Longrightarrow> book_rep b1 Q E \<and> vw (orders_of b1) p = r\<lparr>v_remaining := v_remaining r - remaining\<rparr>"
    "\<And>q. q \<in> live ?st \<Longrightarrow> q \<noteq> p \<Longrightarrow> vw (orders_of b1) q = vw ?st q"
    "ob_cfg b1 = ob_cfg b" "ob_seq b1 = ob_seq b" "ob_nextTradeId b1 = ob_nextTradeId b + 1"
    by (rule fillHead_rep [OF rep(1) Q fill(1) r_def, of ord trades]) blast
  have go: "matchLevel b ord s i ?P trades remaining victims =
      matchLevel b1 ord s i ?P (push trades (?t (min remaining (v_remaining r)))) (remaining - min remaining (v_remaining r)) victims"
    by (subst matchLevel.simps) (use x fill b1(1) in \<open>simp add: r_def [symmetric] victimOf_def\<close>)
  note oth = map_vw_others [OF rep(1) Q x(6) b1(4)]
  show ?thesis
  proof (cases "v_remaining r \<le> remaining")
    case True
    note rep1 = b1(2) [OF True]
    obtain ts' where ts': "amatch (cfg_stp (ob_cfg b)) ord (ob_nextTradeId b + 1) (remaining - v_remaining r) (map (vw ?st) ps) = (ts', vs, left, rem', oc)"
        "ts = ?t (v_remaining r) # ts'"
      using am fill cr True Q by (auto split: prod.splits simp: r_def)
    obtain b' where b': "matchLevel b1 ord s i ?P (push trades (?t (v_remaining r))) (remaining - v_remaining r) victims =
        Some (b', foldl push (push trades (?t (v_remaining r))) ts', rem', map_option (\<lambda>vb. foldl push vb vs) victims, oc = StpFired)"
      "level_done b1 (Q((s, i) := ps)) (s, i) b' ts' left oc"
      using IH [OF rep1 _ b1(5), of "remaining - v_remaining r" ts' "push trades (?t (v_remaining r))" victims] ts'(1) b1(7) oth rep(2) by auto
    have "level_done b Q (s, i) b' ([?t (v_remaining r)] @ ts') left oc"
      by (rule level_done_step [OF b'(2) Q rep(1) rep1]) (use b1 in auto)
    then show ?thesis using go True b'(1) ts'(2) by (auto simp: min_def)
  next
    case False
    have res: "ts = [?t remaining]" "vs = []" "rem' = 0" "oc = Exhausted"
        "left = r\<lparr>v_remaining := v_remaining r - remaining\<rparr> # map (vw ?st) ps"
      using am fill cr False Q by (auto simp: r_def)
    note rep1 = b1(3) [OF False, THEN conjunct1]
    have "matchLevel b1 ord s i ?P (push trades (?t remaining)) 0 victims = Some (b1, push trades (?t remaining), 0, victims, False)"
      by (rule matchLevel_stop) (use side_repD(5) [OF book_rep_side [OF rep1, of s]] book_rep_cfg [OF rep1] rep(3) b1(5) in auto)
    moreover have "level_done b Q (s, i) b1 ts left oc"
      unfolding level_done_def using res b1 False oth Q rep1 rep(2)
      by (auto intro!: exI [of _ "p # ps"] exI [of _ E] simp: fun_upd_idem)
    ultimately show ?thesis using go False res by (auto simp: option.map_ident min_def)
  qed
qed

lemma matchLevel_rep:
  assumes "book_rep b Q E" "E \<subseteq> {(s, i)}" "i < cfg_slots (ob_cfg b)"
    and "crosses (n_type ord) (n_side ord) (n_price ord) (cfg_price (ob_cfg b) i)"
    and "amatch (cfg_stp (ob_cfg b)) ord (ob_nextTradeId b) remaining (map (vw (orders_of b)) (Q (s, i))) = (ts, vs, left, rem', oc)"
  shows "\<exists>b'. matchLevel b ord s i (cfg_price (ob_cfg b) i) trades remaining victims =
      Some (b', foldl push trades ts, rem', map_option (\<lambda>vb. foldl push vb vs) victims, oc = StpFired) \<and>
    level_done b Q (s, i) b' ts left oc"
  using assms
proof (induction "Q (s, i)" arbitrary: b Q E remaining ts vs left rem' oc trades victims)
  case Nil
  note D = side_repD [OF book_rep_side [OF Nil.prems(1), of s]]
  have i: "i < lm_numSlots (sideOf b s)" using Nil.prems(3) book_rep_cfg [OF Nil.prems(1)] by simp
  have am: "ts = []" "vs = []" "left = []" "rem' = remaining" "oc = Exhausted"
    using Nil.prems(5) Nil.hyps [symmetric] by auto
  have "matchLevel b ord s i (cfg_price (ob_cfg b) i) trades remaining victims = Some (b, trades, remaining, victims, False)"
    by (rule matchLevel_stop) (use D(5) i level_rep_empty [OF D(6) [OF i]] Nil.hyps in auto)
  moreover have "level_done b Q (s, i) b [] [] Exhausted"
    by (rule level_done_same [OF Nil.prems(1,2)]) (simp_all add: Nil.hyps [symmetric])
  ultimately show ?case using am by (auto simp: option.map_ident)
next
  case (Cons p ps)
  let ?st = "orders_of b" and ?P = "cfg_price (ob_cfg b) i"
  note rep = Cons.prems(1) and Q = Cons.hyps(2) [symmetric]
  obtain x where x: "vw ?st p = victimOf x" "deref ?st p = Some x" "v_price (vw ?st p) = ?P"
    "nth_opt (lm_levels (sideOf b s)) i = Some (lm_levels (sideOf b s) ! i)"
    "lvl_head (lm_levels (sideOf b s) ! i) = Some p" "\<not> lvl_empty (lm_levels (sideOf b s) ! i)"
    by (rule queue_head [OF rep Q])
  have cr: "crosses_with ord (vw ?st p)" using Cons.prems(4) x(3) by simp
  note am = Cons.prems(5)
  have repE: "book_rep b Q {}"
    using book_rep_E_nonempty(2) [OF rep, of "(s, i)"] Q Cons.prems(2) by (simp add: Diff_eq_empty_iff [THEN iffD2])
  have IH: "\<exists>b'. matchLevel b2 ord s i ?P trades2 remaining2 victims2 =
        Some (b', foldl push trades2 ts2, rem2, map_option (\<lambda>vb. foldl push vb vs2) victims2, oc2 = StpFired) \<and>
      level_done b2 (Q((s, i) := ps)) (s, i) b' ts2 left2 oc2"
    if "book_rep b2 (Q((s, i) := ps)) E2" "E2 \<subseteq> {(s, i)}" "ob_cfg b2 = ob_cfg b"
      "amatch (cfg_stp (ob_cfg b)) ord (ob_nextTradeId b2) remaining2 (map (vw (orders_of b2)) ps) = (ts2, vs2, left2, rem2, oc2)"
    for b2 E2 trades2 remaining2 victims2 ts2 vs2 left2 rem2 oc2
    using Cons.hyps(1) [OF _ that(1,2), where remaining = remaining2] that(3,4) Cons.prems(3,4) by simp
  consider (stop) "remaining \<le> 0" | (aggressor) "0 < remaining" "v_participant (vw ?st p) = n_participant ord" "cfg_stp (ob_cfg b) = CancelAggressor"
    | (self) "0 < remaining" "v_participant (vw ?st p) = n_participant ord" "cfg_stp (ob_cfg b) \<noteq> CancelAggressor"
    | (fill) "0 < remaining" "v_participant (vw ?st p) \<noteq> n_participant ord" by linarith
  then show ?case
  proof cases
    case stop
    then have "matchLevel b ord s i ?P trades remaining victims = Some (b, trades, remaining, victims, False)"
      by (intro matchLevel_stop) (use x(4) in \<open>auto simp: nth_opt_eq_Some_iff\<close>)
    moreover have "level_done b Q (s, i) b [] left oc"
      by (rule level_done_same [OF repE]) (use am stop Q in auto)
    ultimately show ?thesis using am stop Q by (auto simp: option.map_ident)
  next
    case aggressor
    then have "matchLevel b ord s i ?P trades remaining victims = Some (b, trades, remaining, victims, True)"
      by (subst matchLevel.simps) (use x in \<open>simp add: Let_def victimOf_def\<close>)
    moreover have "level_done b Q (s, i) b [] left oc"
      by (rule level_done_same [OF repE]) (use am aggressor cr Q in auto)
    ultimately show ?thesis using am aggressor cr Q by (auto simp: option.map_ident)
  next
    case self
    show ?thesis
      by (rule matchLevel_self [OF IH rep Cons.prems(2,3) Q cr self am]) auto
  next
    case fill
    show ?thesis
      by (rule matchLevel_fill [OF IH rep Cons.prems(2,3) Q cr fill am]) auto
  qed
qed

section \<open>The outer loop\<close>

definition queue_of :: "BookConfig \<Rightarrow> (level_ref \<Rightarrow> ptr list) \<Rightarrow> Side \<Rightarrow> ptr list" where
  "queue_of cfg Q s = side_seq s (cfg_slots cfg) UNIV (\<lambda>j. Q (s, j))"

definition view_side :: "OrderBook \<Rightarrow> (level_ref \<Rightarrow> ptr list) \<Rightarrow> Side \<Rightarrow> Resting list" where
  "view_side b Q s = map (vw (orders_of b)) (queue_of (ob_cfg b) Q s)"

lemma set_queue_of:
  assumes "book_rep b Q E"
  shows "set (queue_of (ob_cfg b) Q s) = (\<Union>j. set (Q (s, j)))"
proof -
  have "j < cfg_slots (ob_cfg b)" if "q \<in> set (Q (s, j))" for q j
    using side_repD(8) [OF book_rep_side [OF assms] that] book_rep_cfg [OF assms] by simp
  then show ?thesis by (auto simp: queue_of_def set_side_seq)
qed

lemma best_slot:
  assumes rep: "book_rep b Q {}"
  shows "hasBest (sideOf b s) \<longleftrightarrow> (\<exists>i. Q (s, i) \<noteq> [])"
    and "hasBest (sideOf b s) \<Longrightarrow> \<exists>i. is_best_slot s (occ (sideOf b s)) i \<and> i < cfg_slots (ob_cfg b) \<and>
       Q (s, i) \<noteq> [] \<and> lm_best (sideOf b s) = cfg_price (ob_cfg b) i \<and>
       levelAt (sideOf b s) (cfg_price (ob_cfg b) i) = Some i"
proof -
  note D = side_repD [OF book_rep_side [OF rep, of s]] and C = book_rep_cfg [OF rep, of s]
  have occ: "i \<in> occ (sideOf b s) \<longleftrightarrow> Q (s, i) \<noteq> []" for i
  proof (cases "i < lm_numSlots (sideOf b s)")
    case False
    then have "Q (s, i) = []" using D(8) [of _ i] by (cases "Q (s, i)") auto
    then show ?thesis using False by (auto simp: occ_def)
  qed (use D(7) in auto)
  have range: "i < lm_numSlots (sideOf b s)" if "i \<in> occ (sideOf b s)" for i using that by (simp add: occ_def)
  have best: "best_ok (sideOf b s)" using D(2) by (simp add: lm_inv_def)
  have sent: "slot_price (sideOf b s) i \<noteq> emptySentinel s" if "i \<in> occ (sideOf b s)" for i
    using slot_price_range(3,4) [OF D(3) range [OF that]] by (cases s) (auto simp: emptySentinel_def)
  show iff: "hasBest (sideOf b s) \<longleftrightarrow> (\<exists>i. Q (s, i) \<noteq> [])"
  proof (cases "occ (sideOf b s) = {}")
    case True
    then show ?thesis using best occ by (auto simp: best_ok_def hasBest_def D(4) is_best_slot_def)
  next
    case False
    then obtain i where "i \<in> occ (sideOf b s)" "lm_best (sideOf b s) = slot_price (sideOf b s) i"
      using best by (auto simp: best_ok_def is_best_slot_def)
    then show ?thesis using sent [of i] occ by (auto simp: hasBest_def D(4))
  qed
  show "\<exists>i. is_best_slot s (occ (sideOf b s)) i \<and> i < cfg_slots (ob_cfg b) \<and>
       Q (s, i) \<noteq> [] \<and> lm_best (sideOf b s) = cfg_price (ob_cfg b) i \<and>
       levelAt (sideOf b s) (cfg_price (ob_cfg b) i) = Some i" if hb: "hasBest (sideOf b s)"
  proof -
    obtain i where i: "is_best_slot s (occ (sideOf b s)) i" "lm_best (sideOf b s) = slot_price (sideOf b s) i"
      using best hb by (auto simp: best_ok_def hasBest_def D(4))
    then have io: "i \<in> occ (sideOf b s)" by (simp add: is_best_slot_def)
    have "levelAt (sideOf b s) (slot_price (sideOf b s) i) = Some i"
      using slot_price_range(1,2) [OF D(3) range [OF io]] by (simp add: levelAt_def)
    then show ?thesis using i io occ range [OF io] C by auto
  qed
qed

text \<open>The priority list starts with the queue of the best level.\<close>

lemma queue_of_best:
  assumes rep: "book_rep b Q {}" and best: "is_best_slot s (occ (sideOf b s)) i" and i: "i < cfg_slots (ob_cfg b)"
  shows "queue_of (ob_cfg b) (Q((s, i) := ps)) s = ps @ queue_of (ob_cfg b) (Q((s, i) := [])) s"
proof -
  let ?n = "cfg_slots (ob_cfg b)" and ?S = "occ (sideOf b s)"
  note D = side_repD [OF book_rep_side [OF rep, of s]] and C = book_rep_cfg [OF rep, of s]
  have nil: "Q (s, j) = []" if "j < ?n" "j \<notin> ?S" for j using D(7) [of j] C that by simp
  have io: "i \<in> ?S" using best by (simp add: is_best_slot_def)
  have "queue_of (ob_cfg b) (Q((s, i) := ps)) s = side_seq s ?n ?S (\<lambda>j. (Q((s, i) := ps)) (s, j))"
    unfolding queue_of_def by (rule side_seq_UNIV [symmetric]) (use nil io in auto)
  also have "\<dots> = ps @ side_seq s ?n (?S - {i}) (\<lambda>j. (Q((s, i) := ps)) (s, j))"
    using side_seq_best [OF best i, of "\<lambda>j. (Q((s, i) := ps)) (s, j)"] by simp
  also have "side_seq s ?n (?S - {i}) (\<lambda>j. (Q((s, i) := ps)) (s, j)) = side_seq s ?n (?S - {i}) (\<lambda>j. (Q((s, i) := [])) (s, j))"
    by (rule side_seq_cong) auto
  also have "\<dots> = queue_of (ob_cfg b) (Q((s, i) := [])) s"
    unfolding queue_of_def by (rule side_seq_UNIV) (use nil in auto)
  finally show ?thesis .
qed

lemma amatch_level:
  assumes "amatch pol ord tid remaining rs = (ts, vs, left, rem', oc)" "\<And>r. r \<in> set rs \<Longrightarrow> crosses_with ord r"
  shows "oc \<noteq> NoLongerCrosses" "oc \<noteq> StpFired \<Longrightarrow> left \<noteq> [] \<Longrightarrow> rem' \<le> 0"
proof -
  have "oc \<noteq> NoLongerCrosses \<and> (oc \<noteq> StpFired \<longrightarrow> left \<noteq> [] \<longrightarrow> rem' \<le> 0)"
    using assms
  proof (induction rs arbitrary: tid remaining ts vs)
    case (Cons r rs)
    obtain ts1 vs1 l1 rem1 oc1 where 1: "amatch pol ord tid remaining rs = (ts1, vs1, l1, rem1, oc1)"
      by (metis prod_cases5)
    obtain ts2 vs2 l2 rem2 oc2 where 2: "amatch pol ord (tid + 1) (remaining - v_remaining r) rs = (ts2, vs2, l2, rem2, oc2)"
      by (metis prod_cases5)
    show ?case
      using Cons.prems 1 2 Cons.IH [of tid remaining ts1 vs1] Cons.IH [of "tid + 1" "remaining - v_remaining r" ts2 vs2]
      by (auto split: if_splits StpPolicy.splits)
  qed auto
  then show "oc \<noteq> NoLongerCrosses" "oc \<noteq> StpFired \<Longrightarrow> left \<noteq> [] \<Longrightarrow> rem' \<le> 0" by auto
qed

definition match_done :: "OrderBook \<Rightarrow> (level_ref \<Rightarrow> ptr list) \<Rightarrow> Side \<Rightarrow> OrderBook \<Rightarrow> (level_ref \<Rightarrow> ptr list) \<Rightarrow> nat \<Rightarrow> bool" where
  "match_done b Q s b' Q' k \<longleftrightarrow> book_rep b' Q' {} \<and> (\<forall>j. Q' (opposite s, j) = Q (opposite s, j)) \<and>
     (\<forall>j. \<forall>q \<in> set (Q (opposite s, j)). vw (orders_of b') q = vw (orders_of b) q) \<and>
     ob_cfg b' = ob_cfg b \<and> ob_seq b' = ob_seq b \<and> ob_nextTradeId b' = ob_nextTradeId b + int k"

lemma match_done_trans:
  assumes "match_done b Q s b1 Q1 k1" "match_done b1 Q1 s b2 Q2 k2"
  shows "match_done b Q s b2 Q2 (k1 + k2)"
  using assms unfolding match_done_def by auto

text \<open>One round of the outer loop: the best level, then the bookkeeping of an emptied level.\<close>

lemma matchInto_round:
  assumes rep: "book_rep b Q {}" and s: "s = opposite (n_side ord)"
    and rem: "0 < remaining" and hb: "hasBest (sideOf b s)"
    and cr: "crosses (n_type ord) (n_side ord) (n_price ord) (lm_best (sideOf b s))"
  obtains i b' ps' ts vs left rem' oc where
    "Q (s, i) \<noteq> []" "set ps' \<subseteq> set (Q (s, i))"
    "queue_of (ob_cfg b) Q s = Q (s, i) @ queue_of (ob_cfg b) (Q((s, i) := [])) s"
    "amatch (cfg_stp (ob_cfg b)) ord (ob_nextTradeId b) remaining (map (vw (orders_of b)) (Q (s, i))) = (ts, vs, left, rem', oc)"
    "oc \<noteq> NoLongerCrosses" "oc \<noteq> StpFired \<Longrightarrow> left \<noteq> [] \<Longrightarrow> rem' \<le> 0"
    "matchInto b ord trades remaining victims =
       (if oc = StpFired then Some (b', foldl push trades ts, rem', map_option (\<lambda>vb. foldl push vb vs) victims, StpFired)
        else matchInto b' ord (foldl push trades ts) rem' (map_option (\<lambda>vb. foldl push vb vs) victims))"
    "match_done b Q s b' (Q((s, i) := ps')) (length ts)"
    "view_side b' (Q((s, i) := ps')) s = left @ map (vw (orders_of b)) (queue_of (ob_cfg b) (Q((s, i) := [])) s)"
    "queue_of (ob_cfg b) (Q((s, i) := ps')) s = ps' @ queue_of (ob_cfg b) (Q((s, i) := [])) s" "length ps' = length left"
proof -
  obtain i where i: "is_best_slot s (occ (sideOf b s)) i" "i < cfg_slots (ob_cfg b)" "Q (s, i) \<noteq> []"
      "lm_best (sideOf b s) = cfg_price (ob_cfg b) i" "levelAt (sideOf b s) (cfg_price (ob_cfg b) i) = Some i"
    using best_slot(2) [OF rep hb] by blast
  note C = book_rep_cfg [OF rep, of s]
  have crq: "crosses_with ord r" if r: "r \<in> set (map (vw (orders_of b)) (Q (s, i)))" for r
  proof -
    obtain q where q: "q \<in> set (Q (s, i))" "r = vw (orders_of b) q" using r by auto
    obtain x where "deref (orders_of b) q = Some x" "o_price x = slot_price (sideOf b s) i"
      by (rule queued_live [OF rep q(1)])
    then show ?thesis using q(2) cr i(4) C by (simp add: vw_def victimOf_def)
  qed
  obtain ts vs left rem' oc where am: "amatch (cfg_stp (ob_cfg b)) ord (ob_nextTradeId b) remaining (map (vw (orders_of b)) (Q (s, i))) = (ts, vs, left, rem', oc)"
    by (metis prod_cases5)
  obtain b1 where b1: "matchLevel b ord s i (cfg_price (ob_cfg b) i) trades remaining victims =
      Some (b1, foldl push trades ts, rem', map_option (\<lambda>vb. foldl push vb vs) victims, oc = StpFired)"
      "level_done b Q (s, i) b1 ts left oc"
    using matchLevel_rep [OF rep _ i(2) _ am] cr i(4) by auto
  obtain ps' E' where ps': "book_rep b1 (Q((s, i) := ps')) E'" "E' \<subseteq> {(s, i)}" "oc = StpFired \<longrightarrow> E' = {}"
      "map (vw (orders_of b1)) ps' = left" "set ps' \<subseteq> set (Q (s, i))"
    using b1(2) by (auto simp: level_done_def)
  have fr: "\<And>q. q \<in> live (orders_of b) \<Longrightarrow> q \<notin> set (Q (s, i)) \<Longrightarrow> vw (orders_of b1) q = vw (orders_of b) q"
    "ob_cfg b1 = ob_cfg b" "ob_seq b1 = ob_seq b" "ob_nextTradeId b1 = ob_nextTradeId b + int (length ts)"
    using b1(2) by (auto simp: level_done_def)
  obtain b2 where b2: "levelEmptied b1 s i (cfg_price (ob_cfg b) i) = Some b2" "book_rep b2 (Q((s, i) := ps')) {}"
      "orders_of b2 = orders_of b1" "ob_cfg b2 = ob_cfg b1" "ob_seq b2 = ob_seq b1" "ob_nextTradeId b2 = ob_nextTradeId b1"
    by (rule levelEmptied_rep [OF ps'(1), of i s]) (use i(2) fr(2) ps'(2) in auto)
  define b' where "b' = (if oc = StpFired then b1 else b2)"
  have b': "book_rep b' (Q((s, i) := ps')) {}" "orders_of b' = orders_of b1" "ob_cfg b' = ob_cfg b"
      "ob_seq b' = ob_seq b" "ob_nextTradeId b' = ob_nextTradeId b + int (length ts)"
    using b2 ps' fr by (auto simp: b'_def)
  have vw_same: "vw (orders_of b') q = vw (orders_of b) q" if "q \<in> set (Q r)" "r \<noteq> (s, i)" for q r
  proof -
    have "q \<in> live (orders_of b)" using that live_Q [OF rep] by blast
    moreover have "q \<notin> set (Q (s, i))" using queues_disjoint [OF rep that(1)] that(2) by blast
    ultimately show ?thesis using fr(1) b'(2) by simp
  qed
  note qb = queue_of_best [OF rep i(1,2)]
  have rest: "map (vw (orders_of b')) (queue_of (ob_cfg b) (Q((s, i) := [])) s) = map (vw (orders_of b)) (queue_of (ob_cfg b) (Q((s, i) := [])) s)"
    by (rule map_cong) (auto simp: queue_of_def set_side_seq intro!: vw_same split: if_splits)
  show ?thesis
  proof (rule that [OF i(3) ps'(5) _ am])
    show "queue_of (ob_cfg b) Q s = Q (s, i) @ queue_of (ob_cfg b) (Q((s, i) := [])) s" using qb [of "Q (s, i)"] by simp
    show "matchInto b ord trades remaining victims =
       (if oc = StpFired then Some (b', foldl push trades ts, rem', map_option (\<lambda>vb. foldl push vb vs) victims, StpFired)
        else matchInto b' ord (foldl push trades ts) rem' (map_option (\<lambda>vb. foldl push vb vs) victims))"
      by (subst matchInto.simps) (use rem hb cr s i b1(1) b2(1) in \<open>simp add: Let_def b'_def\<close>)
    show "match_done b Q s b' (Q((s, i) := ps')) (length ts)"
      using b' vw_same by (auto simp: match_done_def)
    show "view_side b' (Q((s, i) := ps')) s = left @ map (vw (orders_of b)) (queue_of (ob_cfg b) (Q((s, i) := [])) s)"
      using qb [of ps'] rest ps'(4) b'(2,3) by (simp add: view_side_def)
    show "queue_of (ob_cfg b) (Q((s, i) := ps')) s = ps' @ queue_of (ob_cfg b) (Q((s, i) := [])) s" by (rule qb)
    show "length ps' = length left" using ps'(4) by (metis length_map)
  qed (use amatch_level [OF am crq] in auto)
qed

lemma matchInto_rep:
  assumes "book_rep b Q {}" "s = opposite (n_side ord)"
    and "amatch (cfg_stp (ob_cfg b)) ord (ob_nextTradeId b) remaining (view_side b Q s) = (ts, vs, left, rem', oc)"
  shows "\<exists>b' Q'. matchInto b ord trades remaining victims =
      Some (b', foldl push trades ts, rem', map_option (\<lambda>vb. foldl push vb vs) victims, oc) \<and>
    match_done b Q s b' Q' (length ts) \<and> view_side b' Q' s = left"
  using assms
proof (induction "length (queue_of (ob_cfg b) Q s)" arbitrary: b Q remaining ts vs left rem' oc trades victims rule: less_induct)
  case less
  note rep = less.prems(1) and s = less.prems(2) and am = less.prems(3)
  have same: "match_done b Q s b Q 0" using rep by (simp add: match_done_def)
  show ?case
  proof (cases "0 < remaining \<and> hasBest (sideOf b s)")
    case False
    then have "matchInto b ord trades remaining victims = Some (b, trades, remaining, victims, Exhausted)"
      by (subst matchInto.simps) (auto simp: s Let_def)
    moreover have "view_side b Q s = [] \<or> remaining \<le> 0"
      using False best_slot(1) [OF rep, of s] by (auto simp: view_side_def queue_of_def side_seq_def)
    then have "ts = [] \<and> vs = [] \<and> left = view_side b Q s \<and> rem' = remaining \<and> oc = Exhausted"
      using am amatch_rem_le [of remaining] by auto
    ultimately show ?thesis using same by (auto simp: option.map_ident)
  next
    case True
    then have rem: "0 < remaining" and hb: "hasBest (sideOf b s)" by auto
    show ?thesis
    proof (cases "crosses (n_type ord) (n_side ord) (n_price ord) (lm_best (sideOf b s))")
      case False
      then have "matchInto b ord trades remaining victims = Some (b, trades, remaining, victims, NoLongerCrosses)"
        by (subst matchInto.simps) (use True s in \<open>auto simp: Let_def\<close>)
      moreover obtain i where i: "is_best_slot s (occ (sideOf b s)) i" "i < cfg_slots (ob_cfg b)" "Q (s, i) \<noteq> []"
          "lm_best (sideOf b s) = cfg_price (ob_cfg b) i" using best_slot(2) [OF rep hb] by blast
      obtain p ps where p: "Q (s, i) = p # ps" using i(3) by (cases "Q (s, i)") auto
      have "v_price (vw (orders_of b) p) = cfg_price (ob_cfg b) i" by (rule queue_head [OF rep p])
      then have "\<not> crosses_with ord (vw (orders_of b) p)" using False i(4) by simp
      moreover have "view_side b Q s = vw (orders_of b) p # map (vw (orders_of b)) (ps @ queue_of (ob_cfg b) (Q((s, i) := [])) s)"
        using queue_of_best [OF rep i(1,2), of "p # ps"] fun_upd_idem [of Q "(s, i)", OF p] by (simp add: view_side_def)
      ultimately show ?thesis using am rem same by (auto simp: option.map_ident)
    next
      case cr: True
      obtain i b1 ps' ts1 vs1 left1 rem1 oc1 where r:
        "Q (s, i) \<noteq> []" "set ps' \<subseteq> set (Q (s, i))"
        "queue_of (ob_cfg b) Q s = Q (s, i) @ queue_of (ob_cfg b) (Q((s, i) := [])) s"
        "amatch (cfg_stp (ob_cfg b)) ord (ob_nextTradeId b) remaining (map (vw (orders_of b)) (Q (s, i))) = (ts1, vs1, left1, rem1, oc1)"
        "oc1 \<noteq> NoLongerCrosses" "oc1 \<noteq> StpFired \<Longrightarrow> left1 \<noteq> [] \<Longrightarrow> rem1 \<le> 0"
        "matchInto b ord trades remaining victims =
           (if oc1 = StpFired then Some (b1, foldl push trades ts1, rem1, map_option (\<lambda>vb. foldl push vb vs1) victims, StpFired)
            else matchInto b1 ord (foldl push trades ts1) rem1 (map_option (\<lambda>vb. foldl push vb vs1) victims))"
        "match_done b Q s b1 (Q((s, i) := ps')) (length ts1)"
        "view_side b1 (Q((s, i) := ps')) s = left1 @ map (vw (orders_of b)) (queue_of (ob_cfg b) (Q((s, i) := [])) s)"
        "queue_of (ob_cfg b) (Q((s, i) := ps')) s = ps' @ queue_of (ob_cfg b) (Q((s, i) := [])) s" "length ps' = length left1"
        by (rule matchInto_round [OF rep s rem hb cr, of trades victims]) blast
      let ?rest = "map (vw (orders_of b)) (queue_of (ob_cfg b) (Q((s, i) := [])) s)"
      have vs0: "view_side b Q s = map (vw (orders_of b)) (Q (s, i)) @ ?rest" using r(3) by (simp add: view_side_def)
      show ?thesis
      proof (cases "oc1 = StpFired \<or> left1 \<noteq> []")
        case stop: True
        have eq: "ts = ts1" "vs = vs1" "left = left1 @ ?rest" "rem' = rem1" "oc = oc1"
          using am amatch_append_stop [OF r(4) stop] vs0 by auto
        have "matchInto b1 ord (foldl push trades ts1) rem1 (map_option (\<lambda>vb. foldl push vb vs1) victims) =
            Some (b1, foldl push trades ts1, rem1, map_option (\<lambda>vb. foldl push vb vs1) victims, Exhausted)" if "oc1 \<noteq> StpFired"
          by (subst matchInto.simps) (use r(6) that stop in \<open>auto simp: Let_def\<close>)
        moreover have "oc1 = StpFired \<or> oc1 = Exhausted" using r(5) by (cases oc1) auto
        ultimately show ?thesis using r(7-9) eq by auto
      next
        case go: False
        obtain ts2 vs2 left2 rem2 oc2 where am2: "amatch (cfg_stp (ob_cfg b)) ord (ob_nextTradeId b + int (length ts1)) rem1 ?rest = (ts2, vs2, left2, rem2, oc2)"
          by (metis prod_cases5)
        have eq: "ts = ts1 @ ts2" "vs = vs1 @ vs2" "left = left2" "rem' = rem2" "oc = oc2"
          using am amatch_append_go [of "cfg_stp (ob_cfg b)" ord "ob_nextTradeId b", OF _ _ am2] r(4) go vs0 by auto
        have b1: "book_rep b1 (Q((s, i) := ps')) {}" "ob_cfg b1 = ob_cfg b" "ob_nextTradeId b1 = ob_nextTradeId b + int (length ts1)"
          using r(8) by (auto simp: match_done_def)
        have "\<exists>b' Q'. matchInto b1 ord (foldl push trades ts1) rem1 (map_option (\<lambda>vb. foldl push vb vs1) victims) =
            Some (b', foldl push (foldl push trades ts1) ts2, rem2, map_option (\<lambda>vb. foldl push vb vs2) (map_option (\<lambda>vb. foldl push vb vs1) victims), oc2) \<and>
          match_done b1 (Q((s, i) := ps')) s b' Q' (length ts2) \<and> view_side b' Q' s = left2"
          by (rule less.hyps [OF _ b1(1) s]) (use r go am2 b1 in auto)
        then obtain b' Q' where b': "matchInto b1 ord (foldl push trades ts1) rem1 (map_option (\<lambda>vb. foldl push vb vs1) victims) =
            Some (b', foldl push trades ts, rem', map_option (\<lambda>vb. foldl push vb vs) victims, oc)"
          "match_done b1 (Q((s, i) := ps')) s b' Q' (length ts2)" "view_side b' Q' s = left"
          using eq by (auto simp: option.map_comp comp_def)
        have "match_done b Q s b' Q' (length ts)" using match_done_trans [OF r(8) b'(2)] eq by simp
        then show ?thesis using r(7) go b' by auto
      qed
    qed
  qed
qed

end
