(* ===== verification/Book_Steps.thy ===== *)
theory Book_Steps
  imports Book_Match
begin

text \<open>
  The fill-or-kill pre-scan computes the abstract pre-scan, and adding an order to its level, the
  pool and the id map keeps the representation.
\<close>

section \<open>The pre-scan\<close>

fun ascan :: "StpPolicy \<Rightarrow> NewOrder \<Rightarrow> Quantity \<Rightarrow> Resting list \<Rightarrow> Quantity \<times> bool" where
  "ascan pol ord acc [] = (acc, False)"
| "ascan pol ord acc (r # rs) =
     (if v_participant r = n_participant ord then
        (if pol = CancelPassive then ascan pol ord acc rs else (acc, True))
      else if wrap64 (acc + v_remaining r) \<ge> n_quantity ord then (wrap64 (acc + v_remaining r), True)
      else ascan pol ord (wrap64 (acc + v_remaining r)) rs)"

lemma aavail_append:
  assumes "\<And>r. r \<in> set rs \<Longrightarrow> crosses_with ord r"
  shows "aavail pol ord acc (rs @ ys) = (case ascan pol ord acc rs of (a, fin) \<Rightarrow> if fin then a else aavail pol ord a ys)"
  using assms by (induction rs arbitrary: acc) auto

lemma scanLevel_dseg:
  assumes "dseg (orders_of b) ref pr ps None"
  shows "scanLevel b ord (first_of ps None) acc = Some (ascan (cfg_stp (ob_cfg b)) ord acc (map (vw (orders_of b)) ps))"
  using assms
proof (induction ps arbitrary: pr acc)
  case Nil
  then show ?case by (subst scanLevel.simps) simp
next
  case (Cons p ps)
  then obtain x where x: "deref (orders_of b) p = Some x" "o_next x = first_of ps None" "dseg (orders_of b) ref (Some p) ps None"
    by auto
  have "vw (orders_of b) p = victimOf x" using x by (simp add: vw_def)
  then show ?case
    using x(1,2) Cons.IH [OF x(3)] by (subst scanLevel.simps) (simp add: Let_def victimOf_def)
qed

text \<open>The occupied slots from slot \<open>i\<close> on, in priority order.\<close>

definition from_slot :: "OrderBook \<Rightarrow> Side \<Rightarrow> nat \<Rightarrow> nat set" where
  "from_slot b s i = {j \<in> occ (sideOf b s). j = i \<or> slot_better s i j}"

lemma from_slot_best: "i \<in> occ (sideOf b s) \<Longrightarrow> is_best_slot s (from_slot b s i) i"
  by (auto simp: from_slot_def is_best_slot_def)

lemma from_slot_next:
  assumes "i \<in> occ (sideOf b s)" "is_best_slot s {j \<in> occ (sideOf b s). slot_better s i j} k"
  shows "from_slot b s i - {i} = from_slot b s k"
proof -
  have k: "slot_better s i k" "k \<in> occ (sideOf b s)" "\<And>j. j \<in> occ (sideOf b s) \<Longrightarrow> slot_better s i j \<Longrightarrow> j = k \<or> slot_better s k j"
    using assms(2) by (auto simp: is_best_slot_def)
  have "slot_better s i j \<longleftrightarrow> j = k \<or> slot_better s k j" if "j \<in> occ (sideOf b s)" for j
    using k that slot_better_trans by blast
  moreover have "i \<noteq> k" "\<not> slot_better s k i" using k(1) slot_better_asym by auto
  ultimately show ?thesis using k(2) assms(1) unfolding from_slot_def by blast
qed

lemma scanFrom_rep:
  assumes rep: "book_rep b Q {}" and s: "s = opposite (n_side ord)" and i: "i \<in> occ (sideOf b s)"
  shows "scanFrom b ord (cfg_price (ob_cfg b) i) acc =
    Some (aavail (cfg_stp (ob_cfg b)) ord acc (map (vw (orders_of b)) (side_seq s (cfg_slots (ob_cfg b)) (from_slot b s i) (\<lambda>j. Q (s, j)))))"
  using i
proof (induction "card (from_slot b s i)" arbitrary: i acc rule: less_induct)
  case less
  note D = side_repD [OF book_rep_side [OF rep, of s]] and C = book_rep_cfg [OF rep, of s]
  let ?n = "cfg_slots (ob_cfg b)" and ?P = "cfg_price (ob_cfg b) i" and ?v = "vw (orders_of b)" and ?pol = "cfg_stp (ob_cfg b)"
  have i: "i < lm_numSlots (sideOf b s)" using less.prems by (simp add: occ_def)
  have sent: "?P \<noteq> emptySentinel s" and lat: "levelAt (sideOf b s) ?P = Some i"
    and lvl: "nth_opt (lm_levels (sideOf b s)) i = Some (lm_levels (sideOf b s) ! i)"
    using slot_price_range [OF D(3) i] C D(5) i by (cases s; auto simp: emptySentinel_def levelAt_def)+
  note seq = side_seq_best [OF from_slot_best [OF less.prems], of ?n "\<lambda>j. Q (s, j)"]
  have pr: "v_price r = ?P" if r: "r \<in> set (map ?v (Q (s, i)))" for r
  proof -
    obtain q where q: "q \<in> set (Q (s, i))" "r = ?v q" using r by auto
    obtain x where "deref (orders_of b) q = Some x" "o_price x = slot_price (sideOf b s) i" by (rule queued_live [OF rep q(1)])
    then show ?thesis using q(2) C by (simp add: vw_def victimOf_def)
  qed
  have ne: "Q (s, i) \<noteq> []" using D(7) [OF i] less.prems by simp
  show ?case
  proof (cases "crosses (n_type ord) (n_side ord) (n_price ord) ?P")
    case False
    then have "scanFrom b ord ?P acc = Some acc" by (subst scanFrom.simps) (auto simp: Let_def)
    moreover obtain p ps where "Q (s, i) = p # ps" using ne by (cases "Q (s, i)") auto
    ultimately show ?thesis using seq i C False pr [of "?v p"] by simp
  next
    case True
    obtain a fin where sc: "ascan ?pol ord acc (map ?v (Q (s, i))) = (a, fin)" by fastforce
    have lv: "scanLevel b ord (lvl_head (lm_levels (sideOf b s) ! i)) acc = Some (a, fin)"
      using scanLevel_dseg [of b "(s, i)" None "Q (s, i)"] D(6) [OF i] sc by (simp add: level_rep_def)
    have av: "aavail ?pol ord acc (map ?v (Q (s, i)) @ ys) = (if fin then a else aavail ?pol ord a ys)" for ys
      using aavail_append [of "map ?v (Q (s, i))" ord ?pol acc ys] pr True sc by simp
    let ?S = "{j \<in> occ (sideOf b s). slot_better s i j}"
    have go: "scanFrom b ord ?P acc = (if fin then Some a else Option.bind (nextOccupied (sideOf b s) ?P) (\<lambda>p'. scanFrom b ord p' a))"
      by (subst scanFrom.simps) (use s sent lat lvl lv True in \<open>simp add: Let_def\<close>)
    consider "?S = {}" "nextOccupied (sideOf b s) ?P = Some (emptySentinel s)"
      | k where "is_best_slot s ?S k" "nextOccupied (sideOf b s) ?P = Some (cfg_price (ob_cfg b) k)"
      using nextOccupied_spec [OF D(3) i refl] C D(4) by auto
    then show ?thesis
    proof cases
      case 1
      then have "from_slot b s i - {i} = {}" by (auto simp: from_slot_def)
      then have "side_seq s ?n (from_slot b s i) (\<lambda>j. Q (s, j)) = Q (s, i)" using seq i C by (simp only: side_seq_empty) simp
      moreover have "scanFrom b ord (emptySentinel s) a = Some a" by (subst scanFrom.simps) (simp add: s Let_def)
      ultimately show ?thesis using go 1(2) av [of "[]"] by simp
    next
      case 2
      note nx = from_slot_next [OF less.prems 2(1)]
      have k: "k \<in> occ (sideOf b s)" using 2(1) by (auto simp: is_best_slot_def)
      have "i \<in> from_slot b s i" "finite (from_slot b s i)" using less.prems by (auto simp: from_slot_def)
      then have "card (from_slot b s k) < card (from_slot b s i)" using nx by (metis card_Diff1_less)
      then show ?thesis using go 2 seq i C av nx less.hyps [OF _ k, of a] by simp
    qed
  qed
qed

lemma availableAgainst_rep:
  assumes rep: "book_rep b Q {}" and s: "s = opposite (n_side ord)"
  shows "availableAgainst b ord = Some (aavail (cfg_stp (ob_cfg b)) ord 0 (view_side b Q s))"
proof (cases "hasBest (sideOf b s)")
  case True
  then obtain i where i: "is_best_slot s (occ (sideOf b s)) i" "lm_best (sideOf b s) = cfg_price (ob_cfg b) i"
    using best_slot(2) [OF rep] by blast
  note D = side_repD [OF book_rep_side [OF rep, of s]] and C = book_rep_cfg [OF rep, of s]
  have io: "i \<in> occ (sideOf b s)" using i(1) by (simp add: is_best_slot_def)
  have "from_slot b s i = occ (sideOf b s)" using i(1) by (auto simp: from_slot_def is_best_slot_def)
  moreover have "side_seq s (cfg_slots (ob_cfg b)) (occ (sideOf b s)) (\<lambda>j. Q (s, j)) = queue_of (ob_cfg b) Q s"
    unfolding queue_of_def by (rule side_seq_UNIV) (use D(7) C in auto)
  ultimately show ?thesis
    using scanFrom_rep [OF rep s io, of 0] i(2) s by (simp add: availableAgainst_def view_side_def)
next
  case False
  then have "lm_best (sideOf b s) = emptySentinel s"
    using side_repD(4) [OF book_rep_side [OF rep, of s]] by (simp add: hasBest_def)
  moreover have "view_side b Q s = []"
    using False best_slot(1) [OF rep, of s] by (auto simp: view_side_def queue_of_def side_seq_def)
  ultimately show ?thesis unfolding availableAgainst_def using s by (subst scanFrom.simps) (simp add: Let_def)
qed

section \<open>Adding an order\<close>

lemma relinked_subset: "relinked S st st' \<Longrightarrow> S \<subseteq> T \<Longrightarrow> relinked T st st'"
  by (auto simp: relinked_def)

text \<open>
  Acquire a slot, write the order, put it on its level, enter its id: the parts of
  \<^verbatim>\<open>restResidual\<close> and \<^verbatim>\<open>restoreResting\<close> that succeed, each on its own field of the book.
\<close>

lemma add_order:
  assumes rep: "book_rep b Q {}" and i: "i < cfg_slots (ob_cfg b)"
    and x: "o_side x = s" "o_price x = cfg_price (ob_cfg b) i" "o_id x = k"
    and fresh: "im_lookup (ob_idMap b) k = None" and room: "card (live (orders_of b)) < cfg_maxOrders (ob_cfg b)"
  obtains p pl1 st2 lm' m' where
    "acquire (ob_pool b) = Some (Some p, pl1)" "p < length (storage pl1)"
    "addOrder ((storage pl1)[p := Live x]) (sideOf b s) p = Some (st2, lm')"
    "insert_id (ob_idMap b) k p = Some (True, m')"
    "book_rep ((setSide b s lm')\<lparr>ob_pool := pl1\<lparr>storage := st2\<rparr>, ob_idMap := m'\<rparr>) (Q((s, i) := Q (s, i) @ [p])) {}"
    "\<And>q. q \<in> live (orders_of b) \<Longrightarrow> vw st2 q = vw (orders_of b) q" "vw st2 p = victimOf x" "p \<notin> live (orders_of b)"
proof -
  note D = side_repD [OF book_rep_side [OF rep, of s]] and C = book_rep_cfg [OF rep, of s]
  have iN: "i < lm_numSlots (sideOf b s)" using i C by simp
  have pok: "pool_ok b Q" and iok: "id_ok b" using rep by (auto simp: book_rep_def)
  have prep: "pool_rep (ob_pool b) (free_list (ob_pool b))" using pok by (simp add: pool_ok_def pool_inv_def)
  obtain p fl where fl: "free_list (ob_pool b) = p # fl"
    using room pok prep by (cases "free_list (ob_pool b)") (auto simp: pool_ok_def pool_rep_def)
  obtain n where ac: "acquire (ob_pool b) = Some (Some p, (ob_pool b)\<lparr>free := n, inUse := inUse (ob_pool b) + 1\<rparr>)"
      "pool_rep ((ob_pool b)\<lparr>free := n, inUse := inUse (ob_pool b) + 1\<rparr>) fl"
      "p < length (orders_of b)" "p \<notin> set fl" "deref (orders_of b) p = None"
    using acquire_next [of "ob_pool b" p fl] prep fl by metis
  define pl1 where "pl1 = (ob_pool b)\<lparr>free := n, inUse := inUse (ob_pool b) + 1\<rparr>"
  define st1 where "st1 = (orders_of b)[p := Live x]"
  have pl: "p \<notin> live (orders_of b)" using ac(5) by (simp add: live_def)
  have pQ: "p \<notin> set (Q r)" for r using pl unfolding live_Q [OF rep] by blast
  have d1: "deref st1 q = (if q = p then Some x else deref (orders_of b) q)" for q using ac(3) by (simp add: st1_def)
  have rep_i: "level_rep st1 (lm_side (sideOf b s), i) (lm_levels (sideOf b s) ! i) (Q (s, i))"
  proof -
    have "deref st1 q = deref (orders_of b) q" if "q \<in> set (Q (s, i))" for q using that d1 pQ by auto
    then show ?thesis using D(4) D(6) [OF iN] level_rep_cong [of "Q (s, i)" st1 "orders_of b"] by simp
  qed
  have dp: "deref st1 p = Some x" and pr: "o_price x = slot_price (sideOf b s) i" using d1 x C by auto
  obtain st2 lm' lv' where add: "addOrder st1 (sideOf b s) p = Some (st2, lm')" "lm_inv lm'"
      "lm_levels lm' = (lm_levels (sideOf b s))[i := lv']" "level_rep st2 (lm_side (sideOf b s), i) lv' (Q (s, i) @ [p])"
      "relinked (insert p (set (Q (s, i)))) st1 st2" "occ lm' = insert i (occ (sideOf b s))" "same_geometry (sideOf b s) lm'"
    by (rule addOrder_spec [OF D(2) dp iN pr rep_i pQ]) (use D(7) [OF iN] in auto)
  have live1: "live st1 = insert p (live (orders_of b))" using live_write [OF ac(3)] by (simp add: st1_def)
  have live2: "live st2 = insert p (live (orders_of b))" using relinked_live [OF add(5)] live1 by simp
  have vw2: "vw st2 q = vw (orders_of b) q" "id_at st2 q = id_at (orders_of b) q" if "q \<in> live (orders_of b)" for q
    using relinked_the [OF add(5), of q] live1 that d1 pl by (auto simp: vw_def id_at_def)
  have vwp: "vw st2 p = victimOf x" "id_at st2 p = k"
    using relinked_the [OF add(5), of p] live1 d1 x by (auto simp: vw_def id_at_def)
  have idx: "im_lookup (ob_idMap b) k' = Some q \<longleftrightarrow> q \<in> live (orders_of b) \<and> id_at st2 q = k'" for k' q
    using iok vw2(2) by (auto simp: id_ok_def)
  have cap: "im_size (ob_idMap b) < im_capacity (ob_idMap b)" using iok room by (auto simp: id_ok_def)
  obtain m' where m': "insert_id (ob_idMap b) k p = Some (True, m')" "im_inv m'" "im_size m' = Suc (im_size (ob_idMap b))"
      "im_capacity m' = im_capacity (ob_idMap b)"
      "\<forall>k' q. im_lookup m' k' = Some q \<longleftrightarrow> q \<in> insert p (live (orders_of b)) \<and> id_at st2 q = k'"
    using oim.ins_index [OF _ cap idx pl] iok fresh vwp(2) by (auto simp: id_ok_def)
  define b' where "b' = (setSide b s lm')\<lparr>ob_pool := pl1\<lparr>storage := st2\<rparr>, ob_idMap := m'\<rparr>"
  define Q' where "Q' = Q((s, i) := Q (s, i) @ [p])"
  have st: "orders_of b' = st2" and sd: "sideOf b' s' = (if s' = s then lm' else sideOf b s')" for s'
    by (simp_all add: b'_def)
  have other: "deref st2 q = deref (orders_of b) q" if "q \<in> set (Q r)" "r \<noteq> (s, i)" for q r
    using relinked_deref_other [OF add(5), of q] queues_disjoint [OF rep that(1), of "(s, i)"] that d1 [of q] pQ [of r] by auto
  have geo: "lm_numSlots lm' = lm_numSlots (sideOf b s)" "slot_price lm' = slot_price (sideOf b s)"
    using add(7) by (auto simp: same_geometry_def slot_price_def fun_eq_iff)
  have data: "o_side y = s \<and> o_price y = slot_price (sideOf b s) i"
    if q: "q \<in> set (Q (s, i) @ [p])" "deref st2 q = Some y" for q y
  proof -
    obtain z where "deref st1 q = Some z" "payload y = payload z" by (rule relinked_derefE [OF add(5) q(2)])
    then show ?thesis using q(1) d1 [of q] D(9) [of q i z] x pr payload_eqD(3,5) [of y z] by (auto split: if_splits)
  qed
  have "side_rep b' Q' {} s'" for s'
  proof (cases "s' = s")
    case True
    have "side_geo b' s" using D(1) add(2,7) by (simp add: side_geo_def same_geometry_def sd b'_def)
    moreover have "level_rep st2 (s, j) (lm_levels lm' ! j) (Q' (s, j))" if "j < lm_numSlots (sideOf b s)" for j
      using add(3,4) D(4-6) that level_rep_cong [of "Q (s, j)" st2 "orders_of b"] other [of _ "(s, j)"]
      by (cases "j = i") (auto simp: Q'_def)
    moreover have "\<forall>j q y. q \<in> set (Q' (s, j)) \<and> deref st2 q = Some y \<longrightarrow> o_side y = s \<and> o_price y = slot_price (sideOf b s) j"
      using data D(9) other by (auto simp: Q'_def split: if_splits)
    moreover have "\<forall>j < lm_numSlots (sideOf b s). j \<in> occ lm' \<longleftrightarrow> Q' (s, j) \<noteq> []" using D(7) by (auto simp: Q'_def add(6))
    moreover have "\<forall>j. lm_numSlots (sideOf b s) \<le> j \<longrightarrow> Q' (s, j) = []"
      using iN book_rep_side [OF rep, of s] by (auto simp: side_rep_def Q'_def)
    ultimately show ?thesis unfolding True side_rep_def st sd by (simp add: geo)
  next
    case False
    note D' = side_repD [OF book_rep_side [OF rep, of s']]
    have "level_rep st2 (s', j) (lm_levels (sideOf b s') ! j) (Q (s', j))" if "j < lm_numSlots (sideOf b s')" for j
      using D'(6) [OF that] level_rep_cong [of "Q (s', j)" st2 "orders_of b"] other [of _ "(s', j)"] False by auto
    moreover have "\<forall>j q y. q \<in> set (Q (s', j)) \<and> deref st2 q = Some y \<longrightarrow> o_side y = s' \<and> o_price y = slot_price (sideOf b s') j"
      using D'(9) other False by auto
    ultimately show ?thesis using book_rep_side [OF rep, of s'] False
      unfolding side_rep_def st sd by (simp add: Q'_def side_geo_def sd b'_def)
  qed
  moreover have "pool_ok b' Q'"
  proof -
    have "pool_rep (pl1\<lparr>storage := st2\<rparr>) fl"
    proof (rule pool_rep_store [of "pl1\<lparr>storage := st1\<rparr>", simplified])
      show "pool_rep (pl1\<lparr>storage := st1\<rparr>) fl"
        using pool_rep_update [OF ac(2,4), of "Live x"] by (simp add: pl1_def st1_def)
      show "length st2 = length st1" using add(5) by (simp add: relinked_def)
      show "st2 ! q = st1 ! q" if "deref st1 q = None" for q
      proof -
        have "q \<notin> set (Q (s, i))" "q \<noteq> p" using level_rep_level [OF rep_i, of q] that dp by auto
        then show ?thesis using add(5) by (simp add: relinked_def)
      qed
    qed
    moreover have "(\<Union>r. set (Q' r)) = insert p (\<Union>r. set (Q r))" by (auto simp: Q'_def split: if_splits)
    moreover have "card (insert p (live (orders_of b))) = Suc (card (live (orders_of b)))" using pl by simp
    ultimately show ?thesis
      using pok pool_rep_inv [of "pl1\<lparr>storage := st2\<rparr>" fl] unfolding pool_ok_def st live2 by (simp add: b'_def pl1_def)
  qed
  moreover have "id_ok b'"
    using iok m' pl by (simp add: id_ok_def b'_def live2)
  ultimately have "book_rep b' Q' {}" by (rule book_repI)
  then show ?thesis
    using that [of p pl1 st2 lm' m'] ac(1,3) add(1) m'(1) vw2(1) vwp(1) pl by (simp add: pl1_def b'_def Q'_def st1_def)
qed

end
