(* ===== verification/Book_Refinement.thy ===== *)
theory Book_Refinement
  imports Book_Steps
begin

text \<open>
  The abstraction function \<open>absb\<close> and the refinement of every command of the book: resting and
  restoring an order, submit, cancel, replace, and the freshly constructed book.
\<close>

section \<open>The abstraction\<close>

definition book_queues :: "OrderBook \<Rightarrow> level_ref \<Rightarrow> ptr list" where
  "book_queues b r = (case r of (s, i) \<Rightarrow>
     if i < lm_numSlots (sideOf b s) then level_ptrs (orders_of b) (lm_levels (sideOf b s) ! i) else [])"

definition absb :: "OrderBook \<Rightarrow> BookSpec" where
  "absb b = \<lparr>sp_bids = view_side b (book_queues b) Buy, sp_asks = view_side b (book_queues b) Sell,
             sp_seq = ob_seq b, sp_nextTradeId = ob_nextTradeId b\<rparr>"

definition book_ok :: "OrderBook \<Rightarrow> bool" where
  "book_ok b \<longleftrightarrow> book_rep b (book_queues b) {}"

lemma book_rep_queues:
  assumes "book_rep b Q E"
  shows "book_queues b = Q"
proof
  fix r :: level_ref
  obtain s i where r: "r = (s, i)" by (cases r)
  note D = side_repD [OF book_rep_side [OF assms, of s]]
  show "book_queues b r = Q r"
  proof (cases "i < lm_numSlots (sideOf b s)")
    case True
    then show ?thesis using level_ptrs_rep [OF D(6) [OF True]] r by (simp add: book_queues_def)
  next
    case False
    then have "Q (s, i) = []" using D(8) [of _ i] by (cases "Q (s, i)") auto
    then show ?thesis using False r by (simp add: book_queues_def)
  qed
qed

lemma book_okI: "book_rep b Q {} \<Longrightarrow> book_ok b"
  using book_rep_queues [of b Q "{}"] by (simp add: book_ok_def)

lemma spec_side_absb: "book_rep b Q {} \<Longrightarrow> spec_side (absb b) s = view_side b Q s"
  using book_rep_queues [of b Q "{}"] by (cases s) (auto simp: spec_side_def absb_def)

lemma BookSpec_eqI:
  "(\<And>s. spec_side A s = spec_side B s) \<Longrightarrow> sp_seq A = sp_seq B \<Longrightarrow> sp_nextTradeId A = sp_nextTradeId B \<Longrightarrow> A = B" for A B :: BookSpec
  by (cases A; cases B) (auto simp: spec_side_def dest: meta_spec [of _ Buy] meta_spec [of _ Sell])

lemma spec_side_set [simp]: "spec_side (set_spec_side A s rs) s' = (if s' = s then rs else spec_side A s')"
  by (cases s; cases s') (auto simp: spec_side_def set_spec_side_def)

lemma set_spec_side_counters [simp]:
  "sp_seq (set_spec_side A s rs) = sp_seq A" "sp_nextTradeId (set_spec_side A s rs) = sp_nextTradeId A"
  "spec_side (A\<lparr>sp_seq := q\<rparr>) s = spec_side A s" "spec_side (A\<lparr>sp_nextTradeId := q\<rparr>) s = spec_side A s"
  by (auto simp: set_spec_side_def spec_side_def)

lemma set_spec_orders: "set (spec_orders A) = set (spec_side A Buy) \<union> set (spec_side A Sell)"
  by (simp add: spec_orders_def spec_side_def)

lemma absb_counters [simp]:
  "sp_seq (absb b) = ob_seq b" "sp_nextTradeId (absb b) = ob_nextTradeId b"
  by (simp_all add: absb_def)

lemma distinct_concat_map:
  assumes "distinct xs" "\<And>x. x \<in> set xs \<Longrightarrow> distinct (f x)" "\<And>x y q. q \<in> set (f x) \<Longrightarrow> q \<in> set (f y) \<Longrightarrow> x = y"
  shows "distinct (concat (map f xs))"
  using assms(1,2)
proof (induction xs)
  case (Cons x xs)
  have "q \<notin> set (f y)" if "q \<in> set (f x)" "y \<in> set xs" for q y
    using assms(3) [OF that(1), of y] that(2) Cons.prems(1) by auto
  with Cons show ?case by auto
qed simp

lemma queue_distinct:
  assumes rep: "book_rep b Q {}"
  shows "distinct (queue_of (ob_cfg b) Q Buy @ queue_of (ob_cfg b) Q Sell)"
    "set (queue_of (ob_cfg b) Q Buy @ queue_of (ob_cfg b) Q Sell) = live (orders_of b)"
proof -
  have dist: "distinct (queue_of (ob_cfg b) Q s)" for s
    unfolding queue_of_def side_seq_def
  proof (rule distinct_concat_map)
    fix x assume "x \<in> set (filter (\<lambda>j. j \<in> UNIV) (slot_order s (cfg_slots (ob_cfg b))))"
    then show "distinct (Q (s, x))"
      using side_repD(6) [OF book_rep_side [OF rep, of s], of x] book_rep_cfg [OF rep, of s] by (simp add: level_rep_def)
  next
    fix x y q assume "q \<in> set (Q (s, x))" "q \<in> set (Q (s, y))"
    then show "x = y" using queues_disjoint [OF rep] by blast
  qed simp
  have un: "(\<Union>j. set (Q (Buy, j))) \<union> (\<Union>j. set (Q (Sell, j))) = (\<Union>r. set (Q r))"
  proof (intro set_eqI iffI)
    fix q assume "q \<in> (\<Union>r. set (Q r))"
    then obtain s j where "q \<in> set (Q (s, j))" by auto
    then show "q \<in> (\<Union>j. set (Q (Buy, j))) \<union> (\<Union>j. set (Q (Sell, j)))" by (cases s) auto
  qed auto
  have "(\<Union>j. set (Q (Buy, j))) \<inter> (\<Union>j. set (Q (Sell, j))) = {}"
  proof (rule ccontr)
    assume "\<not> ?thesis"
    then obtain q i j where "q \<in> set (Q (Buy, i))" "q \<in> set (Q (Sell, j))" by auto
    from queues_disjoint [OF rep this] show False by simp
  qed
  then show "distinct (queue_of (ob_cfg b) Q Buy @ queue_of (ob_cfg b) Q Sell)"
    using dist by (simp add: set_queue_of [OF rep])
  show "set (queue_of (ob_cfg b) Q Buy @ queue_of (ob_cfg b) Q Sell) = live (orders_of b)"
    using un by (simp add: set_queue_of [OF rep] live_Q [OF rep])
qed

lemma spec_orders_absb:
  assumes rep: "book_rep b Q {}"
  shows "spec_orders (absb b) = map (vw (orders_of b)) (queue_of (ob_cfg b) Q Buy @ queue_of (ob_cfg b) Q Sell)"
    "set (spec_orders (absb b)) = vw (orders_of b) ` live (orders_of b)"
    "length (spec_orders (absb b)) = card (live (orders_of b))"
proof -
  show 1: "spec_orders (absb b) = map (vw (orders_of b)) (queue_of (ob_cfg b) Q Buy @ queue_of (ob_cfg b) Q Sell)"
    by (simp add: spec_orders_def absb_def view_side_def book_rep_queues [OF rep])
  show "set (spec_orders (absb b)) = vw (orders_of b) ` live (orders_of b)"
    unfolding 1 set_map queue_distinct(2) [OF rep] ..
  show "length (spec_orders (absb b)) = card (live (orders_of b))"
    unfolding 1 length_map by (metis distinct_card queue_distinct [OF rep])
qed

lemma v_id_vw: "q \<in> live st \<Longrightarrow> v_id (vw st q) = id_at st q"
  by (auto simp: vw_def id_at_def victimOf_def)

lemma find_order_Some_iff:
  assumes "find_order A k = Some r"
  shows "r \<in> set (spec_orders A)" "v_id r = k"
  using assms by (auto simp: find_order_def find_Some_iff)

lemma find_order_None_iff: "find_order A k = None \<longleftrightarrow> (\<forall>r \<in> set (spec_orders A). v_id r \<noteq> k)"
  by (auto simp: find_order_def find_None_iff)

lemma find_order_absb:
  assumes rep: "book_rep b Q {}"
  shows "find_order (absb b) k = map_option (vw (orders_of b)) (im_lookup (ob_idMap b) k)"
proof -
  have idx: "im_lookup (ob_idMap b) k' = Some p \<longleftrightarrow> p \<in> live (orders_of b) \<and> id_at (orders_of b) p = k'" for k' p
    using rep by (simp add: book_rep_def id_ok_def)
  show ?thesis
  proof (cases "find_order (absb b) k")
    case None
    then have "id_at (orders_of b) p \<noteq> k" if "p \<in> live (orders_of b)" for p
      using v_id_vw [OF that] that by (auto simp: find_order_None_iff spec_orders_absb(2) [OF rep])
    then have "im_lookup (ob_idMap b) k = None" using idx by (metis not_None_eq)
    with None show ?thesis by simp
  next
    case (Some r)
    obtain p where p: "p \<in> live (orders_of b)" "r = vw (orders_of b) p"
      using find_order_Some_iff(1) [OF Some] unfolding spec_orders_absb(2) [OF rep] by blast
    then have "im_lookup (ob_idMap b) k = Some p" using idx v_id_vw [OF p(1)] find_order_Some_iff(2) [OF Some] by simp
    then show ?thesis using Some p by simp
  qed
qed

lemma find_id_absb:
  assumes "book_rep b Q {}"
  shows "find_id (ob_idMap b) k = Some (im_lookup (ob_idMap b) k)"
  by (rule oim.fnd_lookup) (use assms in \<open>simp add: book_rep_def id_ok_def\<close>)

section \<open>Resting an order\<close>

lemma cfg_price_better:
  assumes "book_rep b Q {}"
  shows "better s (cfg_price (ob_cfg b) i) (cfg_price (ob_cfg b) j) \<longleftrightarrow> slot_better s i j"
proof -
  have "0 < cfg_tick (ob_cfg b)"
    using side_repD(1,3) [OF book_rep_side [OF assms, of s]] by (simp add: side_geo_def lm_wf_def)
  then show ?thesis by (simp add: better_def slot_better_def cfg_price_def)
qed

lemma rest_in_split:
  assumes "\<And>y. y \<in> set xs \<Longrightarrow> \<not> better s (v_price r) (v_price y)" "\<And>y. y \<in> set ys \<Longrightarrow> better s (v_price r) (v_price y)"
  shows "rest_in s r (xs @ ys) = xs @ r # ys"
proof -
  have "takeWhile (\<lambda>y. \<not> better s (v_price r) (v_price y)) ys = []" "dropWhile (\<lambda>y. \<not> better s (v_price r) (v_price y)) ys = ys"
    using assms(2) by (cases ys; simp)+
  then show ?thesis using assms(1) by (simp add: rest_in_def takeWhile_append2 dropWhile_append2)
qed

lemma view_side_add:
  assumes rep: "book_rep b Q {}" and i: "i < cfg_slots (ob_cfg b)"
    and same: "\<And>q. q \<in> live (orders_of b) \<Longrightarrow> vw st2 q = vw (orders_of b) q"
    and r: "vw st2 p = r" "v_price r = cfg_price (ob_cfg b) i"
  shows "map (vw st2) (queue_of (ob_cfg b) (Q((s, i) := Q (s, i) @ [p])) s) = rest_in s r (view_side b Q s)"
    "map (vw st2) (queue_of (ob_cfg b) Q s') = view_side b Q s'"
proof -
  obtain xs ys where sp: "\<And>f :: nat \<Rightarrow> ptr list. side_seq s (cfg_slots (ob_cfg b)) UNIV f = concat (map f xs) @ f i @ concat (map f ys)"
    "\<forall>j\<in>set xs. slot_better s j i" "\<forall>j\<in>set ys. slot_better s i j" "i \<notin> set xs" "i \<notin> set ys"
    by (rule side_seq_split [OF i, where s = s and 'a = ptr]) blast
  have lv: "map (vw st2) qs = map (vw (orders_of b)) qs" if "set qs \<subseteq> live (orders_of b)" for qs
    using same that by auto
  have live_Q': "set (Q (s, j)) \<subseteq> live (orders_of b)" for s j using live_Q [OF rep] by auto
  have price: "v_price (vw (orders_of b) q) = cfg_price (ob_cfg b) j" if q: "q \<in> set (Q (s, j))" for q j
  proof -
    obtain x where "deref (orders_of b) q = Some x" "o_price x = slot_price (sideOf b s) j" by (rule queued_live [OF rep q])
    then show ?thesis using book_rep_cfg [OF rep, of s] by (simp add: vw_def victimOf_def)
  qed
  have upd: "concat (map (\<lambda>j. (Q((s, i) := ps)) (s, j)) zs) = concat (map (\<lambda>j. Q (s, j)) zs)" if "i \<notin> set zs" for zs ps
    using that by (intro arg_cong [of _ _ concat] map_cong) auto
  let ?f = "\<lambda>j. Q (s, j)" and ?v = "vw (orders_of b)"
  have live_c: "set (concat (map ?f zs)) \<subseteq> live (orders_of b)" for zs using live_Q' by auto
  have "queue_of (ob_cfg b) (Q((s, i) := Q (s, i) @ [p])) s = concat (map ?f xs) @ (Q (s, i) @ [p]) @ concat (map ?f ys)"
    unfolding queue_of_def sp(1) by (simp only: upd [OF sp(4)] upd [OF sp(5)] fun_upd_same)
  then have "map (vw st2) (queue_of (ob_cfg b) (Q((s, i) := Q (s, i) @ [p])) s) =
      (map ?v (concat (map ?f xs)) @ map ?v (Q (s, i))) @ r # map ?v (concat (map ?f ys))"
    by (simp only: map_append lv [OF live_Q'] lv [OF live_c] r(1) list.map append_assoc append.simps)
  also have "\<dots> = rest_in s r ((map ?v (concat (map ?f xs)) @ map ?v (Q (s, i))) @ map ?v (concat (map ?f ys)))"
    by (rule rest_in_split [symmetric])
       (use sp(2,3) price r(2) cfg_price_better [OF rep, of s] slot_better_asym in auto)
  also have "\<dots> = rest_in s r (view_side b Q s)"
    by (simp add: view_side_def queue_of_def sp(1))
  finally show "map (vw st2) (queue_of (ob_cfg b) (Q((s, i) := Q (s, i) @ [p])) s) = rest_in s r (view_side b Q s)" .
  show "map (vw st2) (queue_of (ob_cfg b) Q s') = view_side b Q s'"
    unfolding view_side_def by (rule lv) (use set_queue_of [OF rep, of s'] live_Q' [of s'] in blast)
qed

lemma on_tick_slot:
  assumes rep: "book_rep b Q {}" and "cfg_inRange (ob_cfg b) p" "on_tick (ob_cfg b) p"
  obtains i where "i < cfg_slots (ob_cfg b)" "p = cfg_price (ob_cfg b) i"
proof -
  let ?c = "ob_cfg b"
  have t: "0 < cfg_tick ?c"
    using side_repD(1,3) [OF book_rep_side [OF rep, of Buy]] by (simp add: side_geo_def lm_wf_def)
  define i where "i = nat ((p - cfg_minPrice ?c) div cfg_tick ?c)"
  have ge: "0 \<le> (p - cfg_minPrice ?c) div cfg_tick ?c" using assms(2) t by (simp add: cfg_inRange_def pos_imp_zdiv_nonneg_iff)
  have "p - cfg_minPrice ?c = (p - cfg_minPrice ?c) div cfg_tick ?c * cfg_tick ?c"
    using assms(3) by (metis add.right_neutral div_mult_mod_eq on_tick_def)
  then have "p = cfg_price ?c i" using ge by (simp add: cfg_price_def i_def)
  moreover have "(p - cfg_minPrice ?c) div cfg_tick ?c \<le> (cfg_maxPrice ?c - cfg_minPrice ?c) div cfg_tick ?c"
    using assms(2) t by (intro zdiv_mono1) (auto simp: cfg_inRange_def)
  then have "i < cfg_slots ?c" by (simp add: i_def cfg_slots_def nat_mono less_Suc_eq_le)
  ultimately show ?thesis using that by blast
qed

section \<open>Resting and restoring\<close>

lemma victimOf_nodeOf: "victimOf (nodeOf ord sq remaining) = resting_of ord sq remaining"
  by (simp add: victimOf_def nodeOf_def resting_of_def)

lemma live_le_max: "book_rep b Q E \<Longrightarrow> card (live (orders_of b)) \<le> cfg_maxOrders (ob_cfg b)"
  by (auto simp: book_rep_def pool_ok_def pool_inv_def pool_rep_def)

lemma acquire_full:
  assumes "book_rep b Q E" "\<not> card (live (orders_of b)) < cfg_maxOrders (ob_cfg b)"
  shows "acquire (ob_pool b) = Some (None, ob_pool b)"
proof -
  have "pool_rep (ob_pool b) (free_list (ob_pool b))" "inUse (ob_pool b) = card (live (orders_of b))"
      "pool_capacity (ob_pool b) = cfg_maxOrders (ob_cfg b)"
    using assms(1) by (auto simp: book_rep_def pool_ok_def pool_inv_def)
  moreover from this have "length (free_list (ob_pool b)) = 0" using assms(2) unfolding pool_rep_def by linarith
  ultimately show ?thesis using acquire_exhausted [of "ob_pool b"] by simp
qed

lemma acquire_room:
  assumes "book_rep b Q E" "card (live (orders_of b)) < cfg_maxOrders (ob_cfg b)"
  shows "\<exists>p pl1. acquire (ob_pool b) = Some (Some p, pl1)"
proof -
  have prep: "pool_rep (ob_pool b) (free_list (ob_pool b))" "inUse (ob_pool b) = card (live (orders_of b))"
      "pool_capacity (ob_pool b) = cfg_maxOrders (ob_cfg b)"
    using assms(1) by (auto simp: book_rep_def pool_ok_def pool_inv_def)
  then obtain p fl where "free_list (ob_pool b) = p # fl"
    using assms(2) by (cases "free_list (ob_pool b)") (auto simp: pool_rep_def)
  then show ?thesis using op.alloc_next [OF pool_rep_inv [OF prep(1)]] by blast
qed

text \<open>Releasing a slot right after acquiring and writing it gives back the same pool.\<close>

lemma acquire_release:
  assumes "acquire pl = Some (Some p, pl1)"
  shows "p < length (storage pl1)" "release (pl1\<lparr>storage := (storage pl1)[p := Live x]\<rparr>) (Some p) = Some pl"
proof -
  obtain n where n: "free pl = Some p" "slotNext (storage pl) p = Some n" "pl1 = pl\<lparr>free := n, inUse := inUse pl + 1\<rparr>"
    using assms by (auto simp: acquire_def split: option.splits bind_splits)
  then have "p < length (storage pl)" "storage pl ! p = FreeSlot n" by (auto simp: slotNext_Some_iff)
  then show "p < length (storage pl1)" "release (pl1\<lparr>storage := (storage pl1)[p := Live x]\<rparr>) (Some p) = Some pl"
    using n by (auto simp: release_def list_update_same_conv)
qed

text \<open>The book after a successful \<^verbatim>\<open>restResidual\<close> or \<^verbatim>\<open>restoreResting\<close>.\<close>

lemma add_refines:
  assumes rep: "book_rep b Q {}" and tick: "cfg_inRange (ob_cfg b) (n_price ord)" "on_tick (ob_cfg b) (n_price ord)"
    and fresh: "find_order (absb b) (n_id ord) = None" and room: "length (spec_orders (absb b)) < cfg_maxOrders (ob_cfg b)"
  obtains p pl1 st2 lm' m' b' where
    "acquire (ob_pool b) = Some (Some p, pl1)" "p < length (storage pl1)"
    "addOrder ((storage pl1)[p := Live (nodeOf ord sq remaining)]) (sideOf b (n_side ord)) p = Some (st2, lm')"
    "insert_id (ob_idMap b) (n_id ord) p = Some (True, m')"
    "b' = (setSide b (n_side ord) lm')\<lparr>ob_pool := pl1\<lparr>storage := st2\<rparr>, ob_idMap := m'\<rparr>" "book_ok b'" "ob_cfg b' = ob_cfg b"
    "absb b' = set_spec_side (absb b) (n_side ord) (rest_in (n_side ord) (resting_of ord sq remaining) (spec_side (absb b) (n_side ord)))"
proof -
  let ?s = "n_side ord" and ?x = "nodeOf ord sq remaining"
  obtain i where i: "i < cfg_slots (ob_cfg b)" "n_price ord = cfg_price (ob_cfg b) i" by (rule on_tick_slot [OF rep tick])
  have lk: "im_lookup (ob_idMap b) (n_id ord) = None" using fresh find_order_absb [OF rep] by simp
  have rm: "card (live (orders_of b)) < cfg_maxOrders (ob_cfg b)" using room spec_orders_absb(3) [OF rep] by simp
  obtain p pl1 st2 lm' m' where a:
    "acquire (ob_pool b) = Some (Some p, pl1)" "p < length (storage pl1)"
    "addOrder ((storage pl1)[p := Live ?x]) (sideOf b ?s) p = Some (st2, lm')"
    "insert_id (ob_idMap b) (n_id ord) p = Some (True, m')"
    "book_rep ((setSide b ?s lm')\<lparr>ob_pool := pl1\<lparr>storage := st2\<rparr>, ob_idMap := m'\<rparr>) (Q((?s, i) := Q (?s, i) @ [p])) {}"
    "\<And>q. q \<in> live (orders_of b) \<Longrightarrow> vw st2 q = vw (orders_of b) q" "vw st2 p = victimOf ?x"
    by (rule add_order [OF rep i(1) _ _ _ lk rm, of ?x ?s]) (auto simp: nodeOf_def i(2))
  define b' where "b' = (setSide b ?s lm')\<lparr>ob_pool := pl1\<lparr>storage := st2\<rparr>, ob_idMap := m'\<rparr>"
  let ?r = "resting_of ord sq remaining"
  have vp: "vw st2 p = ?r" "v_price ?r = cfg_price (ob_cfg b) i"
    using a(7) i(2) by (simp_all add: victimOf_nodeOf resting_of_def)
  have other: "queue_of (ob_cfg b) (Q((?s, i) := Q (?s, i) @ [p])) s = queue_of (ob_cfg b) Q s" if "s \<noteq> ?s" for s
    using that by (simp add: queue_of_def)
  have st: "orders_of b' = st2" "ob_cfg b' = ob_cfg b" "ob_seq b' = ob_seq b" "ob_nextTradeId b' = ob_nextTradeId b"
    by (simp_all add: b'_def)
  have rep': "book_rep b' (Q((?s, i) := Q (?s, i) @ [p])) {}" using a(5) by (simp add: b'_def)
  have "absb b' = set_spec_side (absb b) ?s (rest_in ?s ?r (spec_side (absb b) ?s))"
  proof (rule BookSpec_eqI)
    fix s show "spec_side (absb b') s = spec_side (set_spec_side (absb b) ?s (rest_in ?s ?r (spec_side (absb b) ?s))) s"
      using view_side_add [OF rep i(1) a(6) vp, of s] view_side_add [OF rep i(1) a(6) vp, of ?s] other [of s]
      by (cases "s = ?s") (simp_all add: spec_side_absb [OF rep'] spec_side_absb [OF rep] st view_side_def [of b'])
  qed (simp_all add: st)
  then show ?thesis using that [OF a(1-4) b'_def book_okI [OF rep'] st(2)] by simp
qed

lemma restResidual_refines:
  assumes rep: "book_rep b Q {}" and tick: "cfg_inRange (ob_cfg b) (n_price ord)" "on_tick (ob_cfg b) (n_price ord)"
    and fresh: "find_order (absb b) (n_id ord) = None"
  shows "if length (spec_orders (absb b)) < cfg_maxOrders (ob_cfg b)
    then \<exists>b'. restResidual b ord sq remaining = Some (True, b') \<and> book_ok b' \<and> ob_cfg b' = ob_cfg b \<and>
      absb b' = set_spec_side (absb b) (n_side ord) (rest_in (n_side ord) (resting_of ord sq remaining) (spec_side (absb b) (n_side ord)))
    else restResidual b ord sq remaining = Some (False, b)"
proof (cases "length (spec_orders (absb b)) < cfg_maxOrders (ob_cfg b)")
  case True
  show ?thesis
    by (rule add_refines [OF rep tick fresh True, of sq remaining]) (use True in \<open>auto simp: restResidual_def\<close>)
next
  case False
  then show ?thesis using acquire_full [OF rep] spec_orders_absb(3) [OF rep] by (simp add: restResidual_def)
qed

lemma restoreResting_refines:
  assumes ok: "book_ok b" and tick: "cfg_inRange (ob_cfg b) (n_price ord)" "on_tick (ob_cfg b) (n_price ord)"
  shows "\<exists>b'. restoreResting b ord remaining sq = Some (fst (arestore (ob_cfg b) (absb b) ord remaining sq), b') \<and>
    book_ok b' \<and> ob_cfg b' = ob_cfg b \<and> absb b' = snd (arestore (ob_cfg b) (absb b) ord remaining sq)"
proof -
  define Q where "Q = book_queues b"
  have rep: "book_rep b Q {}" using ok by (simp add: book_ok_def Q_def)
  show ?thesis
  proof (cases "length (spec_orders (absb b)) < cfg_maxOrders (ob_cfg b)")
    case False
    then show ?thesis using acquire_full [OF rep] spec_orders_absb(3) [OF rep] ok by (simp add: restoreResting_def arestore_def)
  next
    case room: True
    show ?thesis
    proof (cases "find_order (absb b) (n_id ord) = None")
      case True
      show ?thesis
        by (rule add_refines [OF rep tick True room, of sq remaining]) (use room True in \<open>auto simp: restoreResting_def arestore_def\<close>)
    next
      case False
      then obtain p pl1 where ac: "acquire (ob_pool b) = Some (Some p, pl1)"
        using acquire_room [OF rep] room spec_orders_absb(3) [OF rep] by metis
      note ar = acquire_release(1) [OF ac] acquire_release(2) [OF ac, of "nodeOf ord sq remaining"]
      have "insert_id (ob_idMap b) (n_id ord) p = Some (False, ob_idMap b)"
        by (rule oim.ins_present) (use rep False find_order_absb [OF rep] in \<open>auto simp: book_rep_def id_ok_def\<close>)
      then show ?thesis using ac ar ok room False by (simp add: restoreResting_def arestore_def)
    qed
  qed
qed


section \<open>Submit\<close>

lemma amatch_ids:
  assumes "amatch pol ord tid remaining rs = (ts, vs, left, rem', oc)"
  shows "v_id ` set left \<subseteq> v_id ` set rs"
  using assms
proof (induction rs arbitrary: tid remaining ts vs)
  case (Cons r rs)
  obtain ts1 vs1 l1 rem1 oc1 where 1: "amatch pol ord tid remaining rs = (ts1, vs1, l1, rem1, oc1)"
    by (metis prod_cases5)
  obtain ts2 vs2 l2 rem2 oc2 where 2: "amatch pol ord (tid + 1) (remaining - v_remaining r) rs = (ts2, vs2, l2, rem2, oc2)"
    by (metis prod_cases5)
  show ?case
    using Cons.prems 1 2 Cons.IH [of tid remaining ts1 vs1] Cons.IH [of "tid + 1" "remaining - v_remaining r" ts2 vs2]
    by (auto split: if_splits StpPolicy.splits)
qed auto

lemma hasBest_absb:
  assumes rep: "book_rep b Q {}"
  shows "hasBest (sideOf b s) \<longleftrightarrow> spec_side (absb b) s \<noteq> []"
proof -
  have "spec_side (absb b) s = [] \<longleftrightarrow> set (queue_of (ob_cfg b) Q s) = {}"
    by (simp add: spec_side_absb [OF rep] view_side_def)
  then show ?thesis using best_slot(1) [OF rep, of s] set_queue_of [OF rep, of s] by auto
qed

lemma matchInto_refines:
  assumes ok: "book_rep b Q {}"
    and am: "amatch (cfg_stp (ob_cfg b)) ord (ob_nextTradeId b) remaining (spec_side (absb b) (opposite (n_side ord))) = (ts, vs, left, rem', oc)"
  obtains b1 Q1 where
    "matchInto (b\<lparr>ob_seq := sq\<rparr>) ord trades remaining victims =
       Some (b1, foldl push trades ts, rem', map_option (\<lambda>vb. foldl push vb vs) victims, oc)"
    "book_rep b1 Q1 {}" "ob_cfg b1 = ob_cfg b"
    "absb b1 = (set_spec_side (absb b) (opposite (n_side ord)) left)\<lparr>sp_seq := sq, sp_nextTradeId := ob_nextTradeId b + int (length ts)\<rparr>"
proof -
  let ?b = "b\<lparr>ob_seq := sq\<rparr>" and ?s = "opposite (n_side ord)"
  have rep: "book_rep ?b Q {}" using ok by simp
  have "view_side ?b Q ?s = spec_side (absb b) ?s" by (simp add: spec_side_absb [OF ok] view_side_def)
  then obtain b1 Q1 where m: "matchInto ?b ord trades remaining victims =
      Some (b1, foldl push trades ts, rem', map_option (\<lambda>vb. foldl push vb vs) victims, oc)"
      "match_done ?b Q ?s b1 Q1 (length ts)" "view_side b1 Q1 ?s = left"
    using matchInto_rep [OF rep refl, of ord remaining ts vs left rem' oc trades victims] am by auto
  have d: "book_rep b1 Q1 {}" "\<And>j. Q1 (n_side ord, j) = Q (n_side ord, j)"
      "\<And>j q. q \<in> set (Q (n_side ord, j)) \<Longrightarrow> vw (orders_of b1) q = vw (orders_of b) q"
      "ob_cfg b1 = ob_cfg b" "ob_seq b1 = sq" "ob_nextTradeId b1 = ob_nextTradeId b + int (length ts)"
    using m(2) by (auto simp: match_done_def)
  have q: "queue_of (ob_cfg b) Q1 (n_side ord) = queue_of (ob_cfg b) Q (n_side ord)" using d(2) by (simp add: queue_of_def)
  have own: "view_side b1 Q1 (n_side ord) = view_side b Q (n_side ord)"
    unfolding view_side_def d(4) q
    by (rule map_cong) (use d(3) set_queue_of [OF ok, of "n_side ord"] in auto)
  have sides: "s = ?s \<or> s = n_side ord" for s by (cases s; cases "n_side ord") auto
  have "absb b1 = (set_spec_side (absb b) ?s left)\<lparr>sp_seq := sq, sp_nextTradeId := ob_nextTradeId b + int (length ts)\<rparr>"
  proof (rule BookSpec_eqI)
    fix s show "spec_side (absb b1) s = spec_side ((set_spec_side (absb b) ?s left)\<lparr>sp_seq := sq, sp_nextTradeId := ob_nextTradeId b + int (length ts)\<rparr>) s"
      using m(3) own sides [of s] by (auto simp: spec_side_absb [OF d(1)] spec_side_absb [OF ok])
  qed (simp_all add: d)
  then show ?thesis using that [OF m(1) d(1,4)] by simp
qed

lemma spec_orders_ids:
  "v_id ` set rs \<subseteq> v_id ` set (spec_side A s) \<Longrightarrow> v_id ` set (spec_orders (set_spec_side A s rs)) \<subseteq> v_id ` set (spec_orders A)"
  by (cases s) (auto simp: spec_orders_def spec_side_def set_spec_side_def)

lemma spec_orders_counters [simp]:
  "spec_orders (A\<lparr>sp_seq := q\<rparr>) = spec_orders A" "spec_orders (A\<lparr>sp_nextTradeId := q\<rparr>) = spec_orders A"
  by (simp_all add: spec_orders_def)

lemma submitEx_guard:
  assumes rep: "book_rep b Q {}"
  shows "submitEx b ord trades victims =
     (case submit_guard (ob_cfg b) (absb b) ord of
        Some st \<Rightarrow> Some ((submit_result ord)\<lparr>r_status := st\<rparr>, b, trades, victims)
      | None \<Rightarrow> do {
           let mySeq = ob_seq b + 1;
           (b1, trades1, remaining, victims1, outcome) \<leftarrow>
             matchInto (b\<lparr>ob_seq := mySeq\<rparr>) ord trades (n_quantity ord) victims;
           let result1 = (submit_result ord)\<lparr>r_seq := mySeq, r_filled := n_quantity ord - remaining,
                                r_remaining := remaining\<rparr>;
           if outcome = StpFired then
             Some (result1\<lparr>r_status := CancelledBySelfTradePrevention\<rparr>, b1, trades1, victims1)
           else if n_type ord = Limit \<and> remaining > 0 then do {
                     (rested, b2) \<leftarrow> restResidual b1 ord mySeq remaining;
                     if \<not> rested then
                       Some (result1\<lparr>r_status := RejectedPoolExhausted\<rparr>, b2, trades1, victims1)
                     else
                       Some (result1\<lparr>r_rested := True, r_status := Ok\<rparr>, b2, trades1, victims1)
                   }
           else Some (result1\<lparr>r_status := final_status (n_type ord) remaining\<rparr>, b1, trades1, victims1) })"
proof -
  have dup: "find_id (ob_idMap b) (n_id ord) = Some (im_lookup (ob_idMap b) (n_id ord))" by (rule find_id_absb [OF rep])
  have fo: "find_order (absb b) (n_id ord) = None \<longleftrightarrow> im_lookup (ob_idMap b) (n_id ord) = None"
    by (simp add: find_order_absb [OF rep])
  have hb: "hasBest (sideOf b (opposite (n_side ord))) \<longleftrightarrow> spec_side (absb b) (opposite (n_side ord)) \<noteq> []"
    by (rule hasBest_absb [OF rep])
  have av: "availableAgainst b ord = Some (aavail (cfg_stp (ob_cfg b)) ord 0 (spec_side (absb b) (opposite (n_side ord))))"
    by (simp add: availableAgainst_rep [OF rep refl] spec_side_absb [OF rep])
  have rg: "inRange (ob_bids b) = cfg_inRange (ob_cfg b)" using book_rep_cfg(3) [OF rep, of Buy] by (simp add: sideOf_def)
  show ?thesis
    unfolding submitEx_def submit_guard_def submit_result_def dup hb av rg fo final_status_def Let_def
    by (cases "n_type ord"; cases "matchInto (b\<lparr>ob_seq := ob_seq b + 1\<rparr>) ord trades (n_quantity ord) victims")
       (auto simp: not_less)
qed

theorem submitEx_refines:
  assumes ok: "book_ok b" and tick: "n_type ord = Limit \<Longrightarrow> on_tick (ob_cfg b) (n_price ord)"
    and sp: "asubmit (ob_cfg b) (absb b) ord = (res, A', ts, vs)"
  shows "\<exists>b'. submitEx b ord trades victims = Some (res, b', foldl push trades ts, map_option (\<lambda>vb. foldl push vb vs) victims) \<and>
    book_ok b' \<and> absb b' = A' \<and> ob_cfg b' = ob_cfg b"
proof -
  define Q where "Q = book_queues b"
  have rep: "book_rep b Q {}" using ok by (simp add: book_ok_def Q_def)
  note eq = submitEx_guard [OF rep, of ord trades victims]
  show ?thesis
  proof (cases "submit_guard (ob_cfg b) (absb b) ord")
    case (Some st)
    then show ?thesis using sp ok eq by (auto simp: asubmit_def option.map_ident)
  next
    case None
    let ?sq = "ob_seq b + 1" and ?opp = "opposite (n_side ord)"
    obtain ts1 vs1 left rem' oc where am: "amatch (cfg_stp (ob_cfg b)) ord (ob_nextTradeId b) (n_quantity ord) (spec_side (absb b) ?opp) = (ts1, vs1, left, rem', oc)"
      by (metis prod_cases5)
    obtain b1 Q1 where m: "matchInto (b\<lparr>ob_seq := ?sq\<rparr>) ord trades (n_quantity ord) victims =
         Some (b1, foldl push trades ts1, rem', map_option (\<lambda>vb. foldl push vb vs1) victims, oc)"
      "book_rep b1 Q1 {}" "ob_cfg b1 = ob_cfg b"
      "absb b1 = (set_spec_side (absb b) ?opp left)\<lparr>sp_seq := ?sq, sp_nextTradeId := ob_nextTradeId b + int (length ts1)\<rparr>"
      by (rule matchInto_refines [OF rep am])
    show ?thesis
    proof (cases "oc \<noteq> StpFired \<and> n_type ord = Limit \<and> rem' > 0")
      case True
      have g: "cfg_inRange (ob_cfg b) (n_price ord)" "find_order (absb b) (n_id ord) = None"
        using None True by (auto simp: submit_guard_def split: if_splits)
      have "v_id ` set (spec_orders (absb b1)) \<subseteq> v_id ` set (spec_orders (absb b))"
        using spec_orders_ids [OF amatch_ids [OF am]] by (simp add: m(4))
      then have fresh: "find_order (absb b1) (n_id ord) = None" using g(2) by (force simp: find_order_None_iff)
      have "cfg_inRange (ob_cfg b1) (n_price ord)" "on_tick (ob_cfg b1) (n_price ord)" using g tick True m(3) by auto
      note rr = restResidual_refines [OF m(2) this fresh, of ?sq rem']
      show ?thesis
      proof (cases "length (spec_orders (absb b1)) < cfg_maxOrders (ob_cfg b)")
        case room: True
        then obtain b2 where b2: "restResidual b1 ord ?sq rem' = Some (True, b2)" "book_ok b2" "ob_cfg b2 = ob_cfg b"
            "absb b2 = set_spec_side (absb b1) (n_side ord) (rest_in (n_side ord) (resting_of ord ?sq rem') (spec_side (absb b1) (n_side ord)))"
          using rr m(3) by auto
        have "submitEx b ord trades victims = Some ((submit_result ord)\<lparr>r_seq := ?sq, r_filled := n_quantity ord - rem', r_remaining := rem', r_rested := True, r_status := Ok\<rparr>,
            b2, foldl push trades ts1, map_option (\<lambda>vb. foldl push vb vs1) victims)"
          using eq None True m(1) b2(1) by simp
        moreover have "asubmit (ob_cfg b) (absb b) ord = ((submit_result ord)\<lparr>r_seq := ?sq, r_filled := n_quantity ord - rem', r_remaining := rem', r_rested := True, r_status := Ok\<rparr>, absb b2, ts1, vs1)"
          using None True am room unfolding asubmit_def b2(4) m(4) by (simp add: Let_def)
        ultimately show ?thesis using sp b2 by simp
      next
        case full: False
        then have "restResidual b1 ord ?sq rem' = Some (False, b1)" using rr m(3) by simp
        then have "submitEx b ord trades victims = Some ((submit_result ord)\<lparr>r_seq := ?sq, r_filled := n_quantity ord - rem', r_remaining := rem', r_status := RejectedPoolExhausted\<rparr>,
            b1, foldl push trades ts1, map_option (\<lambda>vb. foldl push vb vs1) victims)"
          using eq None True m(1) by simp
        moreover have "asubmit (ob_cfg b) (absb b) ord = ((submit_result ord)\<lparr>r_seq := ?sq, r_filled := n_quantity ord - rem', r_remaining := rem', r_status := RejectedPoolExhausted\<rparr>, absb b1, ts1, vs1)"
          using None True am full unfolding asubmit_def m(4) by (simp add: Let_def)
        ultimately show ?thesis using sp m(3) book_okI [OF m(2)] by simp
      qed
    next
      case False
      then show ?thesis using sp None am m eq book_okI [OF m(2)]
        by (auto simp: asubmit_def Let_def split: if_splits)
    qed
  qed
qed

section \<open>Cancel\<close>

lemma filter_side_seq: "filter P (side_seq s n S f) = side_seq s n S (\<lambda>j. filter P (f j))"
  by (simp add: side_seq_def filter_concat comp_def)

lemma queue_of_remove:
  assumes rep: "book_rep b Q E" and p: "p \<in> set (Q (s, i))"
  shows "queue_of (ob_cfg b) (Q((s, i) := remove1 p (Q (s, i)))) s' = filter (\<lambda>q. q \<noteq> p) (queue_of (ob_cfg b) Q s')"
proof -
  have "(Q((s, i) := remove1 p (Q (s, i)))) (s', j) = filter (\<lambda>q. q \<noteq> p) (Q (s', j))" for j
  proof (cases "(s', j) = (s, i)")
    case True
    have "distinct (Q (s, i))"
      using side_repD(6,8) [OF book_rep_side [OF rep, of s]] p by (auto simp: level_rep_def)
    then show ?thesis using True by (simp add: distinct_remove1_removeAll removeAll_filter_not_eq) (metis)
  next
    case False
    then have "p \<notin> set (Q (s', j))" using queues_disjoint [OF rep p] by blast
    then have "filter (\<lambda>q. q \<noteq> p) (Q (s', j)) = Q (s', j)" by (auto simp: filter_id_conv)
    then show ?thesis using False by auto
  qed
  then show ?thesis unfolding queue_of_def filter_side_seq by simp
qed

lemma view_side_remove:
  assumes rep: "book_rep b Q {}" and p: "p \<in> set (Q (s, i))" and k: "k = id_at (orders_of b) p"
    and same: "\<And>q. q \<in> live (orders_of b) \<Longrightarrow> q \<noteq> p \<Longrightarrow> vw st q = vw (orders_of b) q"
  shows "map (vw st) (queue_of (ob_cfg b) (Q((s, i) := remove1 p (Q (s, i)))) s') = filter (\<lambda>r. v_id r \<noteq> k) (view_side b Q s')"
proof -
  have live: "set (queue_of (ob_cfg b) Q s') \<subseteq> live (orders_of b)"
    unfolding set_queue_of [OF rep] live_Q [OF rep] by auto
  have pl: "p \<in> live (orders_of b)" using p unfolding live_Q [OF rep] by blast
  have lk: "im_lookup (ob_idMap b) k' = Some q \<longleftrightarrow> q \<in> live (orders_of b) \<and> id_at (orders_of b) q = k'" for k' q
    using rep by (simp add: book_rep_def id_ok_def)
  have iff: "v_id (vw (orders_of b) q) \<noteq> k \<longleftrightarrow> q \<noteq> p" if "q \<in> live (orders_of b)" for q
    using v_id_vw [OF that] lk [of k q] lk [of k p] that pl k by auto
  have "filter (\<lambda>r. v_id r \<noteq> k) (view_side b Q s') = map (vw (orders_of b)) (filter (\<lambda>q. q \<noteq> p) (queue_of (ob_cfg b) Q s'))"
    unfolding view_side_def filter_map using iff live
    by (intro arg_cong [of _ _ "map (vw (orders_of b))"] filter_cong) auto
  also have "\<dots> = map (vw st) (filter (\<lambda>q. q \<noteq> p) (queue_of (ob_cfg b) Q s'))"
    by (rule map_cong) (use same live in auto)
  finally show ?thesis by (simp add: queue_of_remove [OF rep p])
qed

lemma cancel_result_vw:
  "(emptyResult\<lparr>r_remaining := o_remaining x, r_filled := o_quantity x - o_remaining x, r_price := o_price x,
      r_quantity := o_quantity x, r_participant := o_participant x, r_seq := o_seq x, r_side := o_side x\<rparr>)\<lparr>r_status := Ok\<rparr>
   = cancel_result (victimOf x)"
  by (simp add: cancel_result_def victimOf_def emptyResult_def)

lemma setSide_store:
  "(setSide (setStore b st) s lm)\<lparr>ob_idMap := m, ob_pool := pl\<rparr> = setSide (b\<lparr>ob_idMap := m, ob_pool := pl\<rparr>) s lm"
  by (cases b) (auto simp: setSide_def setStore_def)

lemma setStore_pool: "(setStore b st)\<lparr>ob_idMap := m, ob_pool := pl\<rparr> = b\<lparr>ob_idMap := m, ob_pool := pl\<rparr>"
  by (simp add: setStore_def)

lemma cancel_present:
  assumes rep: "book_rep b Q {}" and lk: "im_lookup (ob_idMap b) k = Some p"
  obtains b' where "cancel b k = Some (cancel_result (vw (orders_of b) p), b')" "book_ok b'" "ob_cfg b' = ob_cfg b"
    "\<And>s. spec_side (absb b') s = filter (\<lambda>r. v_id r \<noteq> k) (spec_side (absb b) s)"
    "ob_seq b' = ob_seq b" "ob_nextTradeId b' = ob_nextTradeId b"
proof -
  have pl: "p \<in> live (orders_of b)" "id_at (orders_of b) p = k" using lk rep by (auto simp: book_rep_def id_ok_def)
  then obtain x where x: "deref (orders_of b) p = Some x" by (auto simp: live_def)
  define s where "s = o_side x"
  obtain i where i: "o_level x = Some (s, i)" "p \<in> set (Q (s, i))" using live_queued [OF rep x] by (auto simp: s_def)
  note D = side_repD [OF book_rep_side [OF rep, of s]] and C = book_rep_cfg [OF rep, of s]
  have iN: "i < lm_numSlots (sideOf b s)" by (rule D(8) [OF i(2)])
  have price: "o_price x = cfg_price (ob_cfg b) i" using D(9) [OF i(2) x] C by simp
  obtain st1 lv1 m1 pl1 x1 where r:
    "unlink (orders_of b) (lm_levels (sideOf b s) ! i) p = Some (st1, lv1)"
    "erase_id (ob_idMap b) (id_at (orders_of b) p) = Some (True, m1)"
    "release ((ob_pool b)\<lparr>storage := st1\<rparr>) (Some p) = Some pl1"
    "book_rep ((setLevel b s i lv1)\<lparr>ob_idMap := m1, ob_pool := pl1\<rparr>) (Q((s, i) := remove1 p (Q (s, i)))) (insert (s, i) {})"
    "\<And>q. q \<in> live (orders_of b) \<Longrightarrow> q \<noteq> p \<Longrightarrow> vw (storage pl1) q = vw (orders_of b) q"
    by (rule remove_order [OF rep i(2)]) blast
  define bX where "bX = (setLevel b s i lv1)\<lparr>ob_idMap := m1, ob_pool := pl1\<rparr>"
  obtain b' where b': "levelEmptied bX s i (cfg_price (ob_cfg bX) i) = Some b'" "book_rep b' (Q((s, i) := remove1 p (Q (s, i)))) {}"
    "orders_of b' = orders_of bX" "ob_cfg b' = ob_cfg bX" "ob_seq b' = ob_seq bX" "ob_nextTradeId b' = ob_nextTradeId bX"
    by (rule levelEmptied_rep [OF r(4) [folded bX_def], of i s]) (use iN C in \<open>auto simp: bX_def\<close>)
  have lvl: "nth_opt (lm_levels (sideOf bX s)) i = Some lv1" "nth_opt (lm_levels (sideOf b s)) i = Some (lm_levels (sideOf b s) ! i)"
    using iN D(5) by (simp_all add: bX_def)
  have eq: "cancel b k = Some (cancel_result (vw (orders_of b) p), b')"
    using find_id_absb [OF rep, of k] lk x i(1) lvl r(1-3) b'(1) pl(2) price
    by (auto simp: cancel_def levelEmptied_def bX_def Let_def s_def [symmetric] vw_def cancel_result_vw setSide_store setStore_pool
        split: if_splits bind_splits)
  have sides: "spec_side (absb b') s' = filter (\<lambda>r. v_id r \<noteq> k) (spec_side (absb b) s')" for s'
    using view_side_remove [OF rep i(2) pl(2) [symmetric] r(5), of s'] b'(3,4)
    by (simp add: spec_side_absb [OF b'(2)] spec_side_absb [OF rep] view_side_def bX_def)
  show ?thesis
    by (rule that [OF eq book_okI [OF b'(2)]]) (use sides b' in \<open>auto simp: bX_def\<close>)
qed

theorem cancel_refines:
  assumes ok: "book_ok b"
  shows "\<exists>b'. cancel b k = Some (fst (acancel (absb b) k), b') \<and> book_ok b' \<and> absb b' = snd (acancel (absb b) k) \<and> ob_cfg b' = ob_cfg b"
proof -
  define Q where "Q = book_queues b"
  have rep: "book_rep b Q {}" using ok by (simp add: book_ok_def Q_def)
  note fo = find_order_absb [OF rep, of k]
  show ?thesis
  proof (cases "im_lookup (ob_idMap b) k")
    case None
    then show ?thesis using fo ok find_id_absb [OF rep, of k] by (simp add: cancel_def acancel_def)
  next
    case (Some p)
    obtain b' where b': "cancel b k = Some (cancel_result (vw (orders_of b) p), b')" "book_ok b'" "ob_cfg b' = ob_cfg b"
      "\<And>s. spec_side (absb b') s = filter (\<lambda>r. v_id r \<noteq> k) (spec_side (absb b) s)"
      "ob_seq b' = ob_seq b" "ob_nextTradeId b' = ob_nextTradeId b"
      by (rule cancel_present [OF rep Some]) blast
    have "spec_side (drop_order (absb b) k) s = filter (\<lambda>r. v_id r \<noteq> k) (spec_side (absb b) s)" for s
      by (simp add: drop_order_def spec_side_def)
    then have "absb b' = drop_order (absb b) k"
      by (intro BookSpec_eqI) (use b' in \<open>auto simp: drop_order_def\<close>)
    then show ?thesis using b' fo Some by (simp add: acancel_def)
  qed
qed

section \<open>Replace\<close>

theorem replace_refines:
  assumes ok: "book_ok b" and tick: "n_type fresh = Limit \<Longrightarrow> on_tick (ob_cfg b) (n_price fresh)"
    and sp: "areplace (ob_cfg b) (absb b) oldId fresh = (res, cr, A', ts, vs)"
  shows "\<exists>b'. replace b oldId fresh trades victims = Some (res, cr, b', foldl push trades ts, map_option (\<lambda>vb. foldl push vb vs) victims) \<and>
    book_ok b' \<and> absb b' = A' \<and> ob_cfg b' = ob_cfg b"
proof -
  define Q where "Q = book_queues b"
  have rep: "book_rep b Q {}" using ok by (simp add: book_ok_def Q_def)
  have rg: "inRange (ob_bids b) = cfg_inRange (ob_cfg b)" using book_rep_cfg(3) [OF rep, of Buy] by (simp add: sideOf_def)
  note fi = find_id_absb [OF rep] and fo = find_order_absb [OF rep]
  obtain b1 where b1: "cancel b oldId = Some (fst (acancel (absb b) oldId), b1)" "book_ok b1"
      "absb b1 = snd (acancel (absb b) oldId)" "ob_cfg b1 = ob_cfg b"
    using cancel_refines [OF ok] by blast
  show ?thesis
  proof (cases "replace_guard (ob_cfg b) (absb b) oldId fresh")
    case (Some st)
    then show ?thesis using sp ok
      by (auto simp: replace_def areplace_def replace_guard_def fi fo rg Let_def option.map_ident split: if_splits)
  next
    case None
    obtain res2 A2 ts2 vs2 where as: "asubmit (ob_cfg b1) (absb b1) fresh = (res2, A2, ts2, vs2)" by (metis prod_cases4)
    obtain b2 where b2: "submitEx b1 fresh trades victims = Some (res2, b2, foldl push trades ts2, map_option (\<lambda>vb. foldl push vb vs2) victims)"
        "book_ok b2" "absb b2 = A2" "ob_cfg b2 = ob_cfg b1"
      using submitEx_refines [OF b1(2) _ as] tick b1(4) by auto
    have "replace b oldId fresh trades victims =
        Some (res2, Some (fst (acancel (absb b) oldId)), b2, foldl push trades ts2, map_option (\<lambda>vb. foldl push vb vs2) victims)"
      using None b1(1) b2(1) by (auto simp: replace_def replace_guard_def fi fo rg Let_def split: if_splits)
    moreover have "areplace (ob_cfg b) (absb b) oldId fresh = (res2, Some (fst (acancel (absb b) oldId)), A2, ts2, vs2)"
      using None as b1(3,4) by (simp add: areplace_def split_beta)
    ultimately show ?thesis using sp b2 b1(4) by simp
  qed
qed

section \<open>The empty book\<close>

lemma bit_width_bounds: "n < 2 ^ bit_width n"
proof (induction n rule: bit_width.induct)
  case (1 n)
  show ?case
  proof (cases "n = 0")
    case False
    then have "n div 2 < 2 ^ bit_width (n div 2)" using 1 by simp
    then show ?thesis by (subst bit_width.simps) (use False in simp)
  qed (simp add: bit_width.simps)
qed

lemma nextPowerOfTwo_pow: "\<exists>k. nextPowerOfTwo n = 2 ^ k"
proof (cases "n \<le> 1")
  case True
  then have "nextPowerOfTwo n = 2 ^ 0" by (simp add: nextPowerOfTwo_def)
  then show ?thesis by blast
qed (auto simp: nextPowerOfTwo_def push_bit_eq_mult)

lemma nextPowerOfTwo_ge: "n \<le> nextPowerOfTwo n"
  using bit_width_bounds [of "n - 1"] by (auto simp: nextPowerOfTwo_def push_bit_eq_mult)

lemma cfg_ok_newLevelMap:
  assumes "cfg_ok cfg"
  shows "lm_inv (newLevelMap s (cfg_minPrice cfg) (cfg_maxPrice cfg) (cfg_tick cfg))"
    "occ (newLevelMap s (cfg_minPrice cfg) (cfg_maxPrice cfg) (cfg_tick cfg)) = {}"
    "\<And>i. i < lm_numSlots (newLevelMap s (cfg_minPrice cfg) (cfg_maxPrice cfg) (cfg_tick cfg)) \<Longrightarrow>
       lm_levels (newLevelMap s (cfg_minPrice cfg) (cfg_maxPrice cfg) (cfg_tick cfg)) ! i = initLevel (cfg_minPrice cfg + int i * cfg_tick cfg)"
  using newLevelMap_inv [of "cfg_tick cfg" "cfg_minPrice cfg" "cfg_maxPrice cfg", where s = s] assms by (auto simp: cfg_ok_def)

theorem newOrderBook_rep:
  assumes cfg: "cfg_ok cfg"
  shows "book_rep (newOrderBook cfg) (\<lambda>_. []) {}"
proof (rule book_repI)
  let ?b = "newOrderBook cfg"
  have live: "live (orders_of ?b) = {}"
    by (auto simp: newOrderBook_def newPool_def live_def deref_def nth_opt_def split: Slot.splits)
  show "side_rep ?b (\<lambda>_. []) {} s" for s
  proof -
    have sd: "sideOf ?b s = newLevelMap s (cfg_minPrice cfg) (cfg_maxPrice cfg) (cfg_tick cfg)"
      by (cases s) (simp_all add: sideOf_def newOrderBook_def)
    have "side_geo ?b s" using cfg_ok_newLevelMap(1) [OF cfg, of s]
      unfolding side_geo_def sd by (simp add: newLevelMap_def newOrderBook_def Let_def)
    then show ?thesis unfolding side_rep_def sd
      using cfg_ok_newLevelMap(2,3) [OF cfg, where s = s] by simp
  qed
  have "pool_inv (newPool (cfg_maxOrders cfg) :: Order ObjectPool)"
    using newPool_rep pool_rep_inv by blast
  then show "pool_ok ?b (\<lambda>_. [])"
    using live by (simp add: pool_ok_def newOrderBook_def) (simp add: newPool_def)
  obtain k where k: "nextPowerOfTwo (cfg_maxOrders cfg * 2) = 2 ^ k" using nextPowerOfTwo_pow by blast
  have "cfg_maxOrders cfg * 2 \<le> nextPowerOfTwo (cfg_maxOrders cfg * 2)" by (rule nextPowerOfTwo_ge)
  then have "cfg_maxOrders cfg < nextPowerOfTwo (cfg_maxOrders cfg * 2)" using cfg by (auto simp: cfg_ok_def)
  then show "id_ok ?b"
    using newOrderIdMap_inv [OF k] live by (simp add: id_ok_def newOrderBook_def)
qed

lemma newOrderBook_ok:
  assumes "cfg_ok cfg"
  shows "book_ok (newOrderBook cfg)" "absb (newOrderBook cfg) = \<lparr>sp_bids = [], sp_asks = [], sp_seq = 0, sp_nextTradeId = 0\<rparr>"
    "ob_cfg (newOrderBook cfg) = cfg"
proof -
  note rep = newOrderBook_rep [OF assms]
  show "book_ok (newOrderBook cfg)" by (rule book_okI [OF rep])
  have "view_side (newOrderBook cfg) (\<lambda>_. []) s = []" for s by (simp add: view_side_def queue_of_def side_seq_def)
  then show "absb (newOrderBook cfg) = \<lparr>sp_bids = [], sp_asks = [], sp_seq = 0, sp_nextTradeId = 0\<rparr>"
    unfolding absb_def book_rep_queues [OF rep] by (simp add: newOrderBook_def)
qed (simp add: newOrderBook_def)

lemma restoreCounters_refines:
  "book_ok b \<Longrightarrow> book_ok (restoreCounters b sq tid) \<and> absb (restoreCounters b sq tid) = (absb b)\<lparr>sp_seq := sq, sp_nextTradeId := tid\<rparr>"
  unfolding book_ok_def restoreCounters_def using book_rep_queues [of "b\<lparr>ob_seq := sq, ob_nextTradeId := tid\<rparr>" "book_queues b" "{}"]
  by (simp add: absb_def view_side_def)

end
