(* ===== verification/Book_Laws.thy ===== *)
theory Book_Laws
  imports Book_Refinement
begin

text \<open>
  The laws of the abstract book: what a match conserves, whom it trades with and in which order,
  exactness of the fill-or-kill pre-scan, and the well-formedness invariant that every command
  keeps (sorted by price-time priority, distinct ids, positive quantities, uncrossed).
\<close>

section \<open>Case analysis of a match step\<close>

lemma amatch_ConsE:
  assumes "amatch pol ord tid remaining (r # rs) = (ts, vs, left, rem', oc)"
  obtains (stop) "remaining \<le> 0" "ts = []" "vs = []" "left = r # rs" "rem' = remaining" "oc = Exhausted"
    | (nocross) "0 < remaining" "\<not> crosses_with ord r" "ts = []" "vs = []" "left = r # rs" "rem' = remaining" "oc = NoLongerCrosses"
    | (aggressor) "0 < remaining" "crosses_with ord r" "v_participant r = n_participant ord" "pol = CancelAggressor"
        "ts = []" "vs = []" "left = r # rs" "rem' = remaining" "oc = StpFired"
    | (both) "0 < remaining" "crosses_with ord r" "v_participant r = n_participant ord" "pol = CancelBoth"
        "ts = []" "vs = [r]" "left = rs" "rem' = remaining" "oc = StpFired"
    | (victim) vs' where "0 < remaining" "crosses_with ord r" "v_participant r = n_participant ord" "pol = CancelPassive"
        "amatch pol ord tid remaining rs = (ts, vs', left, rem', oc)" "vs = r # vs'"
    | (full) ts' where "0 < remaining" "crosses_with ord r" "v_participant r \<noteq> n_participant ord" "v_remaining r \<le> remaining"
        "amatch pol ord (tid + 1) (remaining - v_remaining r) rs = (ts', vs, left, rem', oc)"
        "ts = trade_with ord tid r (v_remaining r) # ts'"
    | (part) "0 < remaining" "crosses_with ord r" "v_participant r \<noteq> n_participant ord" "remaining < v_remaining r"
        "ts = [trade_with ord tid r remaining]" "vs = []" "left = r\<lparr>v_remaining := v_remaining r - remaining\<rparr> # rs"
        "rem' = 0" "oc = Exhausted"
  using assms by (cases pol) (auto split: if_splits prod.splits)

section \<open>What a match does\<close>

lemma amatch_conserves:
  assumes "amatch pol ord tid remaining rs = (ts, vs, left, rem', oc)" "0 \<le> remaining"
  shows "rem' + sum_list (map t_quantity ts) = remaining \<and> 0 \<le> rem' \<and>
    sum_list (map v_remaining rs) = sum_list (map v_remaining left) + sum_list (map t_quantity ts) + sum_list (map v_remaining vs)"
  using assms
proof (induction rs arbitrary: tid remaining ts vs)
  case (Cons r rs)
  from Cons.prems(1) show ?case
  proof (cases rule: amatch_ConsE)
    case (victim vs')
    then show ?thesis using Cons.IH [OF victim(5)] Cons.prems(2) by simp
  next
    case (full ts')
    then show ?thesis using Cons.IH [OF full(5)] by (simp add: trade_with_def)
  qed (use Cons.prems(2) in \<open>auto simp: trade_with_def\<close>)
qed auto

lemma amatch_trades:
  assumes "amatch pol ord tid remaining rs = (ts, vs, left, rem', oc)" "\<And>r. r \<in> set rs \<Longrightarrow> 0 < v_remaining r"
  shows "\<forall>t \<in> set ts. \<exists>r \<in> set rs. \<exists>n. t = trade_with ord n r (t_quantity t) \<and> crosses_with ord r \<and>
      v_participant r \<noteq> n_participant ord \<and> 0 < t_quantity t \<and> t_quantity t \<le> v_remaining r"
  using assms
proof (induction rs arbitrary: tid remaining ts vs)
  case (Cons r rs)
  from Cons.prems(1) show ?case
  proof (cases rule: amatch_ConsE)
    case (victim vs')
    show ?thesis using Cons.IH [OF victim(5)] Cons.prems(2) by auto
  next
    case (full ts')
    have "0 < v_remaining r" using Cons.prems(2) by simp
    then have "\<exists>n. trade_with ord tid r (v_remaining r) = trade_with ord n r (t_quantity (trade_with ord tid r (v_remaining r)))"
      "t_quantity (trade_with ord tid r (v_remaining r)) = v_remaining r" by (auto simp: trade_with_def)
    then show ?thesis using Cons.IH [OF full(5)] Cons.prems(2) full by auto
  next
    case part
    then show ?thesis by (auto simp: trade_with_def)
  qed auto
qed auto

lemma amatch_trade_ids:
  assumes "amatch pol ord tid remaining rs = (ts, vs, left, rem', oc)"
  shows "map t_id ts = map (\<lambda>k. tid + int k) [0..<length ts]"
  using assms
proof (induction rs arbitrary: tid remaining ts vs)
  case (Cons r rs)
  from Cons.prems show ?case
  proof (cases rule: amatch_ConsE)
    case (victim vs')
    show ?thesis by (rule Cons.IH [OF victim(5)])
  next
    case (full ts')
    have "map (\<lambda>k. tid + int k) [0..<Suc (length ts')] = tid # map (\<lambda>k. (tid + 1) + int k) [0..<length ts']"
      by (simp add: upt_conv_Cons map_Suc_upt [symmetric] comp_def del: upt_Suc)
    then show ?thesis using full Cons.IH [OF full(5)] by (simp add: trade_with_def del: upt_Suc)
  qed (auto simp: trade_with_def)
qed auto

text \<open>
  Price-time priority: the match consumes a prefix \<open>gone\<close> of the priority list, in order, and at
  most reduces the order behind it. The orders of the prefix are the victims of self-trade
  prevention and the passive sides of the trades.
\<close>

lemma amatch_priority:
  assumes "amatch pol ord tid remaining rs = (ts, vs, left, rem', oc)"
  shows "\<exists>gone rest. rs = gone @ rest \<and> vs = filter (\<lambda>r. v_participant r = n_participant ord) gone \<and>
    (left = rest \<and> map t_passiveId ts = map v_id (filter (\<lambda>r. v_participant r \<noteq> n_participant ord) gone) \<or>
     (\<exists>r rest' q. rest = r # rest' \<and> left = r\<lparr>v_remaining := v_remaining r - q\<rparr> # rest' \<and> 0 < q \<and> q < v_remaining r \<and> rem' = 0 \<and>
        map t_passiveId ts = map v_id (filter (\<lambda>r. v_participant r \<noteq> n_participant ord) gone) @ [v_id r]))"
  using assms
proof (induction rs arbitrary: tid remaining ts vs)
  case (Cons r rs)
  from Cons.prems show ?case
  proof (cases rule: amatch_ConsE)
    case (both)
    then show ?thesis by (intro exI [of _ "[r]"] exI [of _ rs]) simp
  next
    case (victim vs')
    obtain gone rest where g: "rs = gone @ rest" "vs' = filter (\<lambda>r. v_participant r = n_participant ord) gone"
      "left = rest \<and> map t_passiveId ts = map v_id (filter (\<lambda>r. v_participant r \<noteq> n_participant ord) gone) \<or>
       (\<exists>r rest' q. rest = r # rest' \<and> left = r\<lparr>v_remaining := v_remaining r - q\<rparr> # rest' \<and> 0 < q \<and> q < v_remaining r \<and> rem' = 0 \<and>
        map t_passiveId ts = map v_id (filter (\<lambda>r. v_participant r \<noteq> n_participant ord) gone) @ [v_id r])"
      using Cons.IH [OF victim(5)] by blast
    show ?thesis by (intro exI [of _ "r # gone"] exI [of _ rest]) (use g victim in auto)
  next
    case (full ts')
    obtain gone rest where g: "rs = gone @ rest" "vs = filter (\<lambda>r. v_participant r = n_participant ord) gone"
      "left = rest \<and> map t_passiveId ts' = map v_id (filter (\<lambda>r. v_participant r \<noteq> n_participant ord) gone) \<or>
       (\<exists>r rest' q. rest = r # rest' \<and> left = r\<lparr>v_remaining := v_remaining r - q\<rparr> # rest' \<and> 0 < q \<and> q < v_remaining r \<and> rem' = 0 \<and>
        map t_passiveId ts' = map v_id (filter (\<lambda>r. v_participant r \<noteq> n_participant ord) gone) @ [v_id r])"
      using Cons.IH [OF full(5)] by blast
    show ?thesis by (intro exI [of _ "r # gone"] exI [of _ rest]) (use g full in \<open>auto simp: trade_with_def\<close>)
  next
    case part
    show ?thesis
      by (intro exI [of _ "[]"] exI [of _ "r # rs"]) (use part in \<open>auto simp: trade_with_def intro!: exI [of _ remaining]\<close>)
  qed (auto intro!: exI [of _ "[]"])
qed auto

text \<open>How a match that neither fills the order nor hits self-trade prevention ends.\<close>

lemma amatch_outcome:
  assumes "amatch pol ord tid remaining rs = (ts, vs, left, rem', oc)" "0 < rem'"
  shows "oc = Exhausted \<and> left = [] \<or> oc = NoLongerCrosses \<and> (\<exists>r rest. left = r # rest \<and> \<not> crosses_with ord r) \<or> oc = StpFired"
  using assms
proof (induction rs arbitrary: tid remaining ts vs)
  case (Cons r rs)
  from Cons.prems(1) show ?case
  proof (cases rule: amatch_ConsE)
    case (victim vs')
    show ?thesis by (rule Cons.IH [OF victim(5) Cons.prems(2)])
  next
    case (full ts')
    show ?thesis by (rule Cons.IH [OF full(5) Cons.prems(2)])
  qed (use Cons.prems(2) in auto)
qed auto

section \<open>Fill or kill\<close>

text \<open>
  The quantities for which the 64-bit sum of the pre-scan is exact: the sum stays below the order's
  quantity until the last addition.
\<close>

definition no_overflow :: "NewOrder \<Rightarrow> Resting list \<Rightarrow> bool" where
  "no_overflow ord rs \<longleftrightarrow> n_quantity ord \<le> 2 ^ 62 \<and> (\<forall>r \<in> set rs. 0 < v_remaining r \<and> v_remaining r \<le> 2 ^ 62)"

lemma no_overflow_Cons: "no_overflow ord (r # rs) \<longleftrightarrow> 0 < v_remaining r \<and> v_remaining r \<le> 2 ^ 62 \<and> no_overflow ord rs"
  by (auto simp: no_overflow_def)

lemma aavail_exact:
  assumes "amatch pol ord tid remaining rs = (ts, vs, left, rem', oc)" "no_overflow ord rs" "0 < remaining" "remaining \<le> n_quantity ord"
  shows "aavail pol ord (n_quantity ord - remaining) rs \<ge> n_quantity ord \<longleftrightarrow> rem' = 0"
  using assms
proof (induction rs arbitrary: tid remaining ts vs)
  case (Cons r rs)
  have nov: "0 < v_remaining r" "v_remaining r \<le> 2 ^ 62" "no_overflow ord rs" "n_quantity ord \<le> 2 ^ 62"
    using Cons.prems(2) by (auto simp: no_overflow_Cons no_overflow_def)
  have w: "wrap64 (n_quantity ord - remaining + v_remaining r) = n_quantity ord - (remaining - v_remaining r)"
    using nov Cons.prems(3,4) by (subst wrap64_id) (auto simp: in_i64_def)
  from Cons.prems(1) show ?case
  proof (cases rule: amatch_ConsE)
    case (victim vs')
    then show ?thesis using Cons.IH [OF victim(5) nov(3) Cons.prems(3,4)] by simp
  next
    case (full ts')
    show ?thesis
    proof (cases "v_remaining r = remaining")
      case True
      then have "rem' = 0" using full(5) by (cases rs) auto
      then show ?thesis using full w True by simp
    next
      case False
      then have "0 < remaining - v_remaining r" "remaining - v_remaining r \<le> n_quantity ord"
        using full nov Cons.prems(4) by auto
      note IH = Cons.IH [OF full(5) nov(3) this]
      show ?thesis using full w False nov IH by simp
    qed
  qed (use Cons.prems(3,4) nov w in auto)
qed auto

lemma amatch_filled_outcome:
  assumes "amatch pol ord tid remaining rs = (ts, vs, left, rem', oc)" "rem' = 0" "0 < remaining"
  shows "oc = Exhausted"
  using assms
proof (induction rs arbitrary: tid remaining ts vs)
  case (Cons r rs)
  from Cons.prems(1) show ?case
  proof (cases rule: amatch_ConsE)
    case (victim vs')
    show ?thesis by (rule Cons.IH [OF victim(5) Cons.prems(2,3)])
  next
    case (full ts')
    show ?thesis
    proof (cases "0 < remaining - v_remaining r")
      case True
      show ?thesis by (rule Cons.IH [OF full(5) Cons.prems(2) True])
    next
      case False
      then show ?thesis using full(5) by (cases rs) auto
    qed
  qed (use Cons.prems in auto)
qed auto

section \<open>The well-formed abstract book\<close>

definition prio :: "Side \<Rightarrow> Resting \<Rightarrow> Resting \<Rightarrow> bool" where
  "prio s a b \<longleftrightarrow> better s (v_price a) (v_price b) \<or> v_price a = v_price b \<and> v_seq a < v_seq b"

definition order_wf :: "BookConfig \<Rightarrow> Side \<Rightarrow> Seq \<Rightarrow> Resting \<Rightarrow> bool" where
  "order_wf cfg s sq r \<longleftrightarrow> v_side r = s \<and> 0 < v_remaining r \<and> v_remaining r \<le> v_quantity r \<and>
     cfg_inRange cfg (v_price r) \<and> on_tick cfg (v_price r) \<and> v_seq r \<le> sq"

definition side_wf :: "BookConfig \<Rightarrow> Side \<Rightarrow> Seq \<Rightarrow> Resting list \<Rightarrow> bool" where
  "side_wf cfg s sq rs \<longleftrightarrow> sorted_wrt (prio s) rs \<and> (\<forall>r \<in> set rs. order_wf cfg s sq r)"

definition uncrossed :: "BookSpec \<Rightarrow> bool" where
  "uncrossed A \<longleftrightarrow> (\<forall>b \<in> set (sp_bids A). \<forall>a \<in> set (sp_asks A). v_price b < v_price a)"

definition spec_wf :: "BookConfig \<Rightarrow> BookSpec \<Rightarrow> bool" where
  "spec_wf cfg A \<longleftrightarrow> (\<forall>s. side_wf cfg s (sp_seq A) (spec_side A s)) \<and> distinct (map v_id (spec_orders A)) \<and>
     length (spec_orders A) \<le> cfg_maxOrders cfg \<and> uncrossed A"

lemma uncrossed_sides:
  "uncrossed A \<longleftrightarrow> (\<forall>r \<in> set (spec_side A s). \<forall>r' \<in> set (spec_side A (opposite s)). better (opposite s) (v_price r) (v_price r'))"
  by (cases s) (auto simp: uncrossed_def spec_side_def better_def)

lemma distinct_ids_sides:
  "distinct (map v_id (spec_orders A)) \<longleftrightarrow>
     distinct (map v_id (spec_side A s)) \<and> distinct (map v_id (spec_side A (opposite s))) \<and>
     v_id ` set (spec_side A s) \<inter> v_id ` set (spec_side A (opposite s)) = {}"
  by (cases s) (auto simp: spec_orders_def spec_side_def)

lemma length_orders_sides: "length (spec_orders A) = length (spec_side A s) + length (spec_side A (opposite s))"
  by (cases s) (auto simp: spec_orders_def spec_side_def)

lemma spec_wf_sides:
  "spec_wf cfg A \<longleftrightarrow> side_wf cfg s (sp_seq A) (spec_side A s) \<and> side_wf cfg (opposite s) (sp_seq A) (spec_side A (opposite s)) \<and>
     distinct (map v_id (spec_side A s)) \<and> distinct (map v_id (spec_side A (opposite s))) \<and>
     v_id ` set (spec_side A s) \<inter> v_id ` set (spec_side A (opposite s)) = {} \<and>
     length (spec_side A s) + length (spec_side A (opposite s)) \<le> cfg_maxOrders cfg \<and>
     (\<forall>r \<in> set (spec_side A s). \<forall>r' \<in> set (spec_side A (opposite s)). better (opposite s) (v_price r) (v_price r'))"
proof -
  have "(\<forall>s. P s) \<longleftrightarrow> P s \<and> P (opposite s)" for P
  proof
    assume P: "P s \<and> P (opposite s)"
    show "\<forall>s. P s"
    proof
      fix s' show "P s'" using P by (cases s; cases s') auto
    qed
  qed simp
  then show ?thesis
    unfolding spec_wf_def distinct_ids_sides [of A s] uncrossed_sides [of A s] length_orders_sides [of A s]
    by (simp add: conj_assoc)
qed

lemma prio_better: "prio s a b \<Longrightarrow> \<not> better s (v_price b) (v_price a)"
  by (auto simp: prio_def better_def split: if_splits)

lemma better_prio_trans: "better s p (v_price a) \<Longrightarrow> prio s a b \<Longrightarrow> better s p (v_price b)"
  by (auto simp: prio_def better_def split: if_splits)

lemma order_wf_mono: "order_wf cfg s sq r \<Longrightarrow> sq \<le> sq' \<Longrightarrow> order_wf cfg s sq' r"
  by (auto simp: order_wf_def)

lemma side_wf_mono: "side_wf cfg s sq rs \<Longrightarrow> sq \<le> sq' \<Longrightarrow> side_wf cfg s sq' rs"
  by (auto simp: side_wf_def intro: order_wf_mono)

lemma side_wf_filter: "side_wf cfg s sq rs \<Longrightarrow> side_wf cfg s sq (filter P rs)"
  by (auto simp: side_wf_def sorted_wrt_filter)

section \<open>A match keeps the other side well-formed\<close>

lemma amatch_left:
  assumes am: "amatch pol ord tid remaining rs = (ts, vs, left, rem', oc)"
  shows "\<exists>gone. map v_id rs = gone @ map v_id left" "length left \<le> length rs"
    "side_wf cfg s sq rs \<Longrightarrow> side_wf cfg s sq left" "v_price ` set left \<subseteq> v_price ` set rs"
proof -
  obtain gone rest where g: "rs = gone @ rest"
      "left = rest \<or> (\<exists>r rest' q. rest = r # rest' \<and> left = r\<lparr>v_remaining := v_remaining r - q\<rparr> # rest' \<and> 0 < q \<and> q < v_remaining r)"
    using amatch_priority [OF am] by blast
  have ids: "map v_id left = map v_id rest" "map v_price left = map v_price rest" using g(2) by auto
  show "\<exists>gone. map v_id rs = gone @ map v_id left" using g(1) ids by (intro exI [of _ "map v_id gone"]) simp
  show "length left \<le> length rs" using g ids(1) by (metis le_add2 length_append length_map)
  show "v_price ` set left \<subseteq> v_price ` set rs"
    using g(1) ids(2) by (metis image_mono set_append list.set_map sup_ge2)
  assume wf: "side_wf cfg s sq rs"
  have rest: "side_wf cfg s sq rest" using wf g(1) by (auto simp: side_wf_def sorted_wrt_append)
  have "prio s (r\<lparr>v_remaining := x\<rparr>) = prio s r" for r x by (simp add: prio_def fun_eq_iff)
  then show "side_wf cfg s sq left" using g(2) rest by (auto simp: side_wf_def order_wf_def)
qed

section \<open>Resting an order keeps its side well-formed\<close>

lemma set_rest_in: "set (rest_in s r rs) = insert r (set rs)"
  unfolding rest_in_def by (metis (no_types, lifting) Un_insert_right list.simps(15) set_append takeWhile_dropWhile_id)

lemma length_rest_in: "length (rest_in s r rs) = Suc (length rs)"
proof -
  have "length (takeWhile P rs) + length (dropWhile P rs) = length rs" for P
    by (metis length_append takeWhile_dropWhile_id)
  then show ?thesis by (simp add: rest_in_def)
qed

lemma distinct_rest_in:
  assumes "distinct (map v_id rs)" "v_id r \<notin> v_id ` set rs"
  shows "distinct (map v_id (rest_in s r rs))"
proof -
  obtain xs ys where "rs = xs @ ys" "rest_in s r rs = xs @ r # ys"
    unfolding rest_in_def using takeWhile_dropWhile_id [symmetric] by blast
  then show ?thesis using assms by auto
qed

lemma rest_in_sorted:
  assumes "sorted_wrt (prio s) rs" "\<And>y. y \<in> set rs \<Longrightarrow> v_seq y < v_seq r"
  shows "sorted_wrt (prio s) (rest_in s r rs)"
proof -
  define P where "P y \<longleftrightarrow> \<not> better s (v_price r) (v_price y)" for y :: Resting
  define xs ys where "xs = takeWhile P rs" and "ys = dropWhile P rs"
  have rs: "rs = xs @ ys" and ri: "rest_in s r rs = xs @ r # ys" by (simp_all add: xs_def ys_def rest_in_def P_def [abs_def])
  have srt: "sorted_wrt (prio s) (xs @ ys)" using assms(1) rs by simp
  have xs: "prio s y r" if y: "y \<in> set xs" for y
  proof -
    have "P y" "y \<in> set rs" using y set_takeWhileD [of y P rs] by (auto simp: xs_def)
    then show ?thesis using assms(2) [of y] by (auto simp: prio_def better_def P_def split: if_splits)
  qed
  have ys: "prio s r z" if z: "z \<in> set ys" for z
  proof (cases ys)
    case (Cons h t)
    then have "\<not> P h" using hd_dropWhile [of P rs] by (simp add: ys_def)
    moreover have "z = h \<or> prio s h z" using z srt Cons by (auto simp: sorted_wrt_append)
    ultimately have "better s (v_price r) (v_price z)" using better_prio_trans [of s "v_price r" h z] by (auto simp: P_def)
    then show ?thesis by (simp add: prio_def)
  qed (use z in simp)
  show ?thesis unfolding ri using srt xs ys by (auto simp: sorted_wrt_append)
qed

lemma crosses_better:
  "n_type ord \<noteq> Market \<Longrightarrow> \<not> crosses_with ord r \<longleftrightarrow> better (opposite (n_side ord)) (n_price ord) (v_price r)"
  by (cases "n_side ord") (auto simp: crosses_def better_def)

section \<open>Commands keep the abstract book well-formed\<close>

lemma match_wf:
  assumes wf: "spec_wf cfg A" and am: "amatch pol ord tid remaining (spec_side A s) = (ts, vs, left, rem', oc)" and sq: "sp_seq A \<le> sq"
  shows "spec_wf cfg ((set_spec_side A s left)\<lparr>sp_seq := sq, sp_nextTradeId := t\<rparr>)"
proof -
  note l = amatch_left [OF am]
  obtain gone where gone: "map v_id (spec_side A s) = gone @ map v_id left" using l(1) by blast
  then have ids: "v_id ` set left \<subseteq> v_id ` set (spec_side A s)" by (metis image_set set_append sup_ge2)
  have d: "distinct (map v_id (spec_side A s)) \<Longrightarrow> distinct (map v_id left)" using gone by simp
  have pr: "v_price r \<in> v_price ` set (spec_side A s)" if "r \<in> set left" for r using l(4) that by blast
  note w = wf [unfolded spec_wf_sides [of _ _ s]]
  have "better (opposite s) (v_price r) (v_price r')" if r: "r \<in> set left" "r' \<in> set (spec_side A (opposite s))" for r r'
  proof -
    obtain r0 where "r0 \<in> set (spec_side A s)" "v_price r = v_price r0" using pr [OF r(1)] by blast
    then show ?thesis using w r(2) by simp
  qed
  moreover have "v_id ` set left \<inter> v_id ` set (spec_side A (opposite s)) = {}" using w ids by blast
  moreover have "side_wf cfg s sq left" "side_wf cfg (opposite s) sq (spec_side A (opposite s))"
    using w l(3) side_wf_mono [OF _ sq] by blast+
  moreover have "length left + length (spec_side A (opposite s)) \<le> cfg_maxOrders cfg" using w l(2) by linarith
  ultimately show ?thesis unfolding spec_wf_sides [of _ _ s] using w d by simp
qed

lemma rest_wf:
  assumes wf: "spec_wf cfg A" and r: "order_wf cfg s (sp_seq A) r" "v_id r \<notin> v_id ` set (spec_orders A)"
    and seq: "\<And>y. y \<in> set (spec_side A s) \<Longrightarrow> v_seq y < v_seq r"
    and room: "length (spec_orders A) < cfg_maxOrders cfg"
    and unc: "\<And>y. y \<in> set (spec_side A (opposite s)) \<Longrightarrow> better (opposite s) (v_price r) (v_price y)"
  shows "spec_wf cfg (set_spec_side A s (rest_in s r (spec_side A s)))"
proof -
  have ids: "v_id r \<notin> v_id ` set (spec_side A s)" "v_id r \<notin> v_id ` set (spec_side A (opposite s))"
    using r(2) by (cases s; auto simp: set_spec_orders)+
  note w = wf [unfolded spec_wf_sides [of _ _ s]]
  have "side_wf cfg s (sp_seq A) (rest_in s r (spec_side A s))"
    using w r(1) rest_in_sorted [OF _ seq] by (simp add: side_wf_def set_rest_in)
  moreover have "distinct (map v_id (rest_in s r (spec_side A s)))" using w ids(1) distinct_rest_in by simp
  moreover have "length (rest_in s r (spec_side A s)) + length (spec_side A (opposite s)) \<le> cfg_maxOrders cfg"
    using room length_orders_sides [of A s] by (simp add: length_rest_in)
  ultimately show ?thesis
    unfolding spec_wf_sides [of _ _ s] using w ids unc by (simp add: set_rest_in)
qed

lemma asubmit_None:
  assumes "submit_guard cfg A ord = None"
    and "amatch (cfg_stp cfg) ord (sp_nextTradeId A) (n_quantity ord) (spec_side A (opposite (n_side ord))) = (ts, vs, left, remaining, oc)"
  defines "A1 \<equiv> (set_spec_side A (opposite (n_side ord)) left)\<lparr>sp_seq := sp_seq A + 1, sp_nextTradeId := sp_nextTradeId A + int (length ts)\<rparr>"
    and "res \<equiv> (submit_result ord)\<lparr>r_seq := sp_seq A + 1, r_filled := n_quantity ord - remaining, r_remaining := remaining\<rparr>"
  shows "asubmit cfg A ord =
    (if oc = StpFired then (res\<lparr>r_status := CancelledBySelfTradePrevention\<rparr>, A1, ts, vs)
     else if n_type ord = Limit \<and> remaining > 0 then
       (if length (spec_orders A1) < cfg_maxOrders cfg then
          (res\<lparr>r_rested := True, r_status := Ok\<rparr>,
           set_spec_side A1 (n_side ord) (rest_in (n_side ord) (resting_of ord (sp_seq A + 1) remaining) (spec_side A1 (n_side ord))), ts, vs)
        else (res\<lparr>r_status := RejectedPoolExhausted\<rparr>, A1, ts, vs))
     else (res\<lparr>r_status := final_status (n_type ord) remaining\<rparr>, A1, ts, vs))"
  using assms(1,2) by (simp add: asubmit_def A1_def res_def Let_def)

lemma submit_guard_NoneD:
  assumes "submit_guard cfg A ord = None"
  shows "0 < n_quantity ord" "n_type ord \<noteq> Market \<Longrightarrow> cfg_inRange cfg (n_price ord)" "find_order A (n_id ord) = None"
    "n_type ord = Market \<Longrightarrow> spec_side A (opposite (n_side ord)) \<noteq> []"
    "n_type ord = Fok \<Longrightarrow> n_quantity ord \<le> aavail (cfg_stp cfg) ord 0 (spec_side A (opposite (n_side ord)))"
  using assms by (auto simp: submit_guard_def split: if_splits)

lemma asubmit_wf:
  assumes wf: "spec_wf cfg A" and tick: "n_type ord = Limit \<Longrightarrow> on_tick cfg (n_price ord)"
    and sp: "asubmit cfg A ord = (res, A', ts, vs)"
  shows "spec_wf cfg A'"
proof (cases "submit_guard cfg A ord")
  case (Some st)
  then show ?thesis using sp wf by (simp add: asubmit_def)
next
  case None
  let ?s = "n_side ord" and ?opp = "opposite (n_side ord)" and ?sq = "sp_seq A + 1"
  note g = submit_guard_NoneD [OF None]
  obtain ts1 vs1 left rem' oc where am: "amatch (cfg_stp cfg) ord (sp_nextTradeId A) (n_quantity ord) (spec_side A ?opp) = (ts1, vs1, left, rem', oc)"
    by (metis prod_cases5)
  define A1 where "A1 = (set_spec_side A ?opp left)\<lparr>sp_seq := ?sq, sp_nextTradeId := sp_nextTradeId A + int (length ts1)\<rparr>"
  have wf1: "spec_wf cfg A1" unfolding A1_def by (rule match_wf [OF wf am]) simp
  define r where "r = resting_of ord ?sq rem'"
  have sides: "spec_side A1 ?s = spec_side A ?s" "spec_side A1 ?opp = left" "sp_seq A1 = ?sq" by (simp_all add: A1_def)
  have "spec_wf cfg (set_spec_side A1 ?s (rest_in ?s r (spec_side A1 ?s)))"
    if c: "oc \<noteq> StpFired" "n_type ord = Limit" "0 < rem'" "length (spec_orders A1) < cfg_maxOrders cfg"
  proof (rule rest_wf [OF wf1 _ _ _ c(4)])
    have "\<forall>t \<in> set ts1. 0 < t_quantity t"
      using amatch_trades [OF am] wf by (fastforce simp: spec_wf_def side_wf_def order_wf_def)
    then have "0 \<le> sum_list (map t_quantity ts1)" by (intro sum_list_nonneg) auto
    then have "rem' \<le> n_quantity ord" using amatch_conserves [OF am] g(1) by linarith
    then show "order_wf cfg ?s (sp_seq A1) r"
      using c g(2) tick by (simp add: order_wf_def r_def resting_of_def sides)
    have "v_id ` set (spec_orders A1) \<subseteq> v_id ` set (spec_orders A)"
      using spec_orders_ids [OF amatch_ids [OF am]] by (simp add: A1_def)
    then show "v_id r \<notin> v_id ` set (spec_orders A1)" using g(3) by (auto simp: find_order_None_iff r_def resting_of_def)
    show "v_seq y < v_seq r" if "y \<in> set (spec_side A1 ?s)" for y
      using wf that by (auto simp: spec_wf_def side_wf_def order_wf_def sides r_def resting_of_def)
    show "better ?opp (v_price r) (v_price y)" if y: "y \<in> set (spec_side A1 ?opp)" for y
    proof -
      have "left \<noteq> []" using y sides by auto
      then obtain h rest where h: "left = h # rest" "\<not> crosses_with ord h" using amatch_outcome [OF am c(3)] c(1) by auto
      have bh: "better ?opp (n_price ord) (v_price h)" using crosses_better [of ord h] h(2) c(2) by simp
      have "sorted_wrt (prio ?opp) left" using wf1 sides by (auto simp: spec_wf_def side_wf_def)
      then have "y = h \<or> prio ?opp h y" using y h sides by auto
      then have "better ?opp (n_price ord) (v_price y)" using bh better_prio_trans by blast
      then show ?thesis by (simp add: r_def resting_of_def)
    qed
  qed
  then show ?thesis
    using sp wf1 unfolding asubmit_None [OF None am] A1_def [symmetric] r_def by (auto split: if_splits)
qed

lemma drop_order_wf: "spec_wf cfg A \<Longrightarrow> spec_wf cfg (drop_order A k)"
proof -
  assume wf: "spec_wf cfg A"
  have sides: "spec_side (drop_order A k) s = filter (\<lambda>r. v_id r \<noteq> k) (spec_side A s)" for s
    by (simp add: drop_order_def spec_side_def)
  have ords: "spec_orders (drop_order A k) = filter (\<lambda>r. v_id r \<noteq> k) (spec_orders A)"
    by (simp add: drop_order_def spec_orders_def)
  have "distinct (map v_id (filter (\<lambda>r. v_id r \<noteq> k) (spec_orders A)))" using wf by (simp add: spec_wf_def distinct_map_filter)
  moreover have "length (filter (\<lambda>r. v_id r \<noteq> k) (spec_orders A)) \<le> cfg_maxOrders cfg"
    by (rule le_trans [OF length_filter_le]) (use wf in \<open>simp add: spec_wf_def\<close>)
  moreover have "uncrossed (drop_order A k)" using wf by (auto simp: spec_wf_def uncrossed_def drop_order_def)
  ultimately show ?thesis using wf side_wf_filter by (auto simp: spec_wf_def sides ords) (simp add: drop_order_def side_wf_filter)
qed

lemma acancel_wf: "spec_wf cfg A \<Longrightarrow> spec_wf cfg (snd (acancel A k))"
  by (auto simp: acancel_def drop_order_wf split: option.splits)

lemma areplace_wf:
  assumes wf: "spec_wf cfg A" and tick: "n_type fresh = Limit \<Longrightarrow> on_tick cfg (n_price fresh)"
    and sp: "areplace cfg A oldId fresh = (res, cr, A', ts, vs)"
  shows "spec_wf cfg A'"
proof (cases "replace_guard cfg A oldId fresh")
  case (Some st)
  then show ?thesis using sp wf by (simp add: areplace_def)
next
  case None
  obtain res2 A2 ts2 vs2 where as: "asubmit cfg (snd (acancel A oldId)) fresh = (res2, A2, ts2, vs2)" by (metis prod_cases4)
  have "spec_wf cfg A2" by (rule asubmit_wf [OF acancel_wf [OF wf] tick as])
  then show ?thesis using sp None as by (simp add: areplace_def split_beta)
qed

lemma empty_spec_wf: "spec_wf cfg \<lparr>sp_bids = [], sp_asks = [], sp_seq = q, sp_nextTradeId = t\<rparr>"
  by (auto simp: spec_wf_def side_wf_def spec_side_def spec_orders_def uncrossed_def)

section \<open>The invariant of the book\<close>

definition book_inv :: "OrderBook \<Rightarrow> bool" where
  "book_inv b \<longleftrightarrow> book_ok b \<and> spec_wf (ob_cfg b) (absb b)"

lemma book_invD: "book_inv b \<Longrightarrow> book_ok b" "book_inv b \<Longrightarrow> spec_wf (ob_cfg b) (absb b)"
  by (simp_all add: book_inv_def)

lemma submitEx_inv:
  assumes "book_inv b" "n_type ord = Limit \<Longrightarrow> on_tick (ob_cfg b) (n_price ord)"
  obtains b' res ts vs where
    "submitEx b ord trades victims = Some (res, b', foldl push trades ts, map_option (\<lambda>vb. foldl push vb vs) victims)"
    "book_inv b'" "ob_cfg b' = ob_cfg b" "asubmit (ob_cfg b) (absb b) ord = (res, absb b', ts, vs)"
proof -
  obtain res A' ts vs where sp: "asubmit (ob_cfg b) (absb b) ord = (res, A', ts, vs)" by (metis prod_cases4)
  have "spec_wf (ob_cfg b) A'" by (rule asubmit_wf [OF book_invD(2) [OF assms(1)] assms(2) sp])
  then show ?thesis
    using submitEx_refines [OF book_invD(1) [OF assms(1)] assms(2) sp, of trades victims] sp that
    by (auto simp: book_inv_def)
qed

lemma cancel_inv:
  assumes "book_inv b"
  obtains b' res where "cancel b k = Some (res, b')" "book_inv b'" "ob_cfg b' = ob_cfg b" "acancel (absb b) k = (res, absb b')"
proof -
  obtain b' where b': "cancel b k = Some (fst (acancel (absb b) k), b')" "book_ok b'" "absb b' = snd (acancel (absb b) k)" "ob_cfg b' = ob_cfg b"
    using cancel_refines [OF book_invD(1) [OF assms]] by blast
  show ?thesis
    by (rule that [OF b'(1)]) (use b' acancel_wf [OF book_invD(2) [OF assms], of k] in \<open>auto simp: book_inv_def\<close>)
qed

lemma replace_inv:
  assumes "book_inv b" "n_type fresh = Limit \<Longrightarrow> on_tick (ob_cfg b) (n_price fresh)"
  obtains b' res cr ts vs where
    "replace b k fresh trades victims = Some (res, cr, b', foldl push trades ts, map_option (\<lambda>vb. foldl push vb vs) victims)"
    "book_inv b'" "ob_cfg b' = ob_cfg b" "areplace (ob_cfg b) (absb b) k fresh = (res, cr, absb b', ts, vs)"
proof -
  obtain res cr A' ts vs where sp: "areplace (ob_cfg b) (absb b) k fresh = (res, cr, A', ts, vs)" by (metis prod_cases5)
  have "spec_wf (ob_cfg b) A'" by (rule areplace_wf [OF book_invD(2) [OF assms(1)] assms(2) sp])
  then show ?thesis
    using replace_refines [OF book_invD(1) [OF assms(1)] assms(2) sp, of trades victims] sp that
    by (auto simp: book_inv_def)
qed

lemma newOrderBook_inv: "cfg_ok cfg \<Longrightarrow> book_inv (newOrderBook cfg)"
  using newOrderBook_ok [of cfg] empty_spec_wf by (simp add: book_inv_def)

lemma asubmit_cases:
  assumes "asubmit cfg A ord = (res, A', ts, vs)"
  obtains (rejected) st where "submit_guard cfg A ord = Some st" "res = (submit_result ord)\<lparr>r_status := st\<rparr>" "A' = A" "ts = []" "vs = []"
    | (matched) left rem' oc where "submit_guard cfg A ord = None"
        "amatch (cfg_stp cfg) ord (sp_nextTradeId A) (n_quantity ord) (spec_side A (opposite (n_side ord))) = (ts, vs, left, rem', oc)"
        "spec_side A' (opposite (n_side ord)) = left" "r_remaining res = rem'" "r_filled res = n_quantity ord - rem'"
        "r_rested res \<longleftrightarrow> oc \<noteq> StpFired \<and> n_type ord = Limit \<and> 0 < rem' \<and> r_status res = Ok"
        "spec_side A' (n_side ord) =
           (if r_rested res then rest_in (n_side ord) (resting_of ord (sp_seq A + 1) rem') (spec_side A (n_side ord)) else spec_side A (n_side ord))"
        "sp_nextTradeId A' = sp_nextTradeId A + int (length ts)" "sp_seq A' = sp_seq A + 1"
        "oc \<noteq> StpFired \<Longrightarrow> n_type ord \<noteq> Limit \<Longrightarrow> r_status res = final_status (n_type ord) rem'"
proof (cases "submit_guard cfg A ord")
  case (Some st)
  show ?thesis by (rule rejected [OF Some]) (use assms Some in \<open>auto simp: asubmit_def\<close>)
next
  case None
  obtain ts1 vs1 left rem' oc where am: "amatch (cfg_stp cfg) ord (sp_nextTradeId A) (n_quantity ord) (spec_side A (opposite (n_side ord))) = (ts1, vs1, left, rem', oc)"
    by (cases "amatch (cfg_stp cfg) ord (sp_nextTradeId A) (n_quantity ord) (spec_side A (opposite (n_side ord)))")
  note eq = asubmit_None [OF None am]
  have tv: "ts1 = ts" "vs1 = vs" using assms eq by (auto split: if_splits)
  show ?thesis
    by (rule matched [OF None am [unfolded tv]])
       (use assms [unfolded eq] in \<open>auto simp: final_status_def submit_result_def emptyResult_def split: if_splits\<close>)
qed

lemma submitEx_trace:
  assumes "book_inv b" "n_type ord = Limit \<Longrightarrow> on_tick (ob_cfg b) (n_price ord)"
    and "submitEx b ord trades victims = Some (res, b', trades', victims')"
  obtains ts vs where "asubmit (ob_cfg b) (absb b) ord = (res, absb b', ts, vs)" "trades' = foldl push trades ts"
    "victims' = map_option (\<lambda>vb. foldl push vb vs) victims" "book_inv b'" "ob_cfg b' = ob_cfg b"
  by (rule submitEx_inv [OF assms(1,2), of trades victims]) (use assms(3) that in auto)

lemma find_order_iff:
  assumes "distinct (map v_id (spec_orders A))"
  shows "find_order A k = Some r \<longleftrightarrow> r \<in> set (spec_orders A) \<and> v_id r = k"
proof -
  have "find (\<lambda>r. v_id r = k) rs = Some r \<longleftrightarrow> r \<in> set rs \<and> v_id r = k" if "distinct (map v_id rs)" for rs
    using that by (induction rs) auto
  then show ?thesis using assms by (simp add: find_order_def)
qed

lemma find_order_None: "find_order A k = None \<longleftrightarrow> k \<notin> v_id ` set (spec_orders A)"
  by (auto simp: find_order_def find_None_iff)

lemma find_order_drop:
  assumes "distinct (map v_id (spec_orders A))"
  shows "find_order (drop_order A k) j = (if j = k then None else find_order A j)"
proof -
  have "find (\<lambda>r. v_id r = j) (filter (\<lambda>r. v_id r \<noteq> k) rs) = (if j = k then None else find (\<lambda>r. v_id r = j) rs)" for rs
    by (induction rs) auto
  from this [of "sp_bids A @ sp_asks A"] show ?thesis by (simp add: find_order_def drop_order_def spec_orders_def)
qed

lemma spec_orders_set: "set (spec_orders A) = set (spec_side A s) \<union> set (spec_side A (opposite s))"
  by (cases s) (auto simp: spec_orders_def spec_side_def)

lemma rested_found:
  assumes "book_inv b" "spec_side (absb b) s = rest_in s r rs"
  shows "find_order (absb b) (v_id r) = Some r"
proof -
  have "distinct (map v_id (spec_orders (absb b)))" using book_invD(2) [OF assms(1)] by (simp add: spec_wf_def)
  then show ?thesis using assms(2) by (simp add: find_order_iff spec_orders_set [of _ s] set_rest_in)
qed

lemma amatch_untouched:
  assumes am: "amatch pol ord tid remaining rs = (ts, vs, left, remaining, oc)" and pos: "0 \<le> remaining" "\<And>r. r \<in> set rs \<Longrightarrow> 0 < v_remaining r"
    and nostp: "\<forall>r \<in> set rs. v_participant r \<noteq> n_participant ord"
  shows "left = rs \<and> ts = []"
proof -
  have "sum_list (map t_quantity ts) = 0" using amatch_conserves [OF am pos(1)] by simp
  moreover have tp: "\<forall>t \<in> set ts. 0 < t_quantity t" using amatch_trades [OF am pos(2)] by auto
  then have "0 < sum_list (map t_quantity ts)" if "ts \<noteq> []"
  proof (cases ts)
    case (Cons t us)
    have "0 \<le> sum_list (map t_quantity us)" using tp Cons by (intro sum_list_nonneg) force
    then show ?thesis using tp Cons by simp
  qed (use that in simp)
  ultimately have "ts = []" by auto
  obtain gone rest where "rs = gone @ rest" "left = rest \<and> map t_passiveId ts = map v_id (filter (\<lambda>r. v_participant r \<noteq> n_participant ord) gone) \<or> ts \<noteq> []"
    using amatch_priority [OF am] by fastforce
  then show ?thesis using \<open>ts = []\<close> nostp by (cases gone) auto
qed

lemma filter_rest_in:
  assumes "\<not> P r" shows "filter P (rest_in s r rs) = filter P rs"
  using assms filter_append [of P "takeWhile (\<lambda>y. \<not> better s (v_price r) (v_price y)) rs" "dropWhile (\<lambda>y. \<not> better s (v_price r) (v_price y)) rs"]
  by (simp add: rest_in_def)

lemma opposite_cases: "s \<noteq> n_side ord \<Longrightarrow> s = opposite (n_side ord)"
  by (cases s; cases "n_side ord") auto

end
