(* ===== verification/Book_Demo.thy ===== *)
theory Book_Demo
  imports Book_Laws "HOL-Library.Code_Target_Nat"
begin

text \<open>
  A small concrete book, with one resting sell order, on which the properties of the book and of
  the components above it are exercised.
\<close>

section \<open>A small book for the witnesses\<close>

declare matchInto.simps [code] matchLevel.simps [code] scanLevel.simps [code] scanFrom.simps [code] shift_back.simps [code]

definition demo_cfg :: BookConfig where
  "demo_cfg = \<lparr>cfg_minPrice = 100, cfg_maxPrice = 103, cfg_tick = 1, cfg_maxOrders = 3, cfg_stp = CancelAggressor\<rparr>"

definition demo_trades :: "Trade buffer" where
  "demo_trades = \<lparr>buf_data = replicate 2 \<lparr>t_id = 0, t_aggressorId = 0, t_passiveId = 0, t_price = 0, t_quantity = 0, t_aggressorSide = Buy\<rparr>,
     buf_capacity = 2, buf_count = 0\<rparr>"

definition demo_order :: "OrderId \<Rightarrow> Price \<Rightarrow> Quantity \<Rightarrow> Side \<Rightarrow> OrderType \<Rightarrow> NewOrder" where
  "demo_order oid p q s ty = \<lparr>n_id = oid, n_price = p, n_quantity = q, n_participant = oid, n_side = s, n_type = ty\<rparr>"

text \<open>The demo book after a resting sell of 5 at 101.\<close>

definition demo_book :: OrderBook where
  "demo_book = (case submitEx (newOrderBook demo_cfg) (demo_order 1 101 5 Sell Limit) demo_trades None of
     Some (_, b, _) \<Rightarrow> b | None \<Rightarrow> newOrderBook demo_cfg)"

lemma demo_cfg_ok: "cfg_ok demo_cfg"
  by code_simp

lemma demo_on_tick: "on_tick demo_cfg p"
  by (simp add: on_tick_def demo_cfg_def)

lemma demo_book_facts:
  "book_inv demo_book" "ob_cfg demo_book = demo_cfg"
  "absb demo_book = \<lparr>sp_bids = [], sp_asks = [\<lparr>v_id = 1, v_price = 101, v_quantity = 5, v_remaining = 5, v_participant = 1, v_seq = 1, v_side = Sell\<rparr>],
     sp_seq = 1, sp_nextTradeId = 0\<rparr>"
proof -
  let ?o = "demo_order 1 101 5 Sell Limit" and ?b = "newOrderBook demo_cfg"
  note new = newOrderBook_ok [OF demo_cfg_ok]
  obtain b' res ts vs where b': "submitEx ?b ?o demo_trades None = Some (res, b', foldl push demo_trades ts, map_option (\<lambda>vb. foldl push vb vs) None)"
      "book_inv b'" "ob_cfg b' = ob_cfg ?b" "asubmit (ob_cfg ?b) (absb ?b) ?o = (res, absb b', ts, vs)"
    by (rule submitEx_inv [OF newOrderBook_inv [OF demo_cfg_ok], of ?o demo_trades None]) (simp_all add: new demo_on_tick)
  have eq: "demo_book = b'" using b'(1) by (simp add: demo_book_def)
  show "book_inv demo_book" "ob_cfg demo_book = demo_cfg" using b' eq new by simp_all
  have "snd (asubmit demo_cfg \<lparr>sp_bids = [], sp_asks = [], sp_seq = 0, sp_nextTradeId = 0\<rparr> ?o) =
      (\<lparr>sp_bids = [], sp_asks = [\<lparr>v_id = 1, v_price = 101, v_quantity = 5, v_remaining = 5, v_participant = 1, v_seq = 1, v_side = Sell\<rparr>],
       sp_seq = 1, sp_nextTradeId = 0\<rparr>, [], [])"
    by code_simp
  then show "absb demo_book = \<lparr>sp_bids = [], sp_asks = [\<lparr>v_id = 1, v_price = 101, v_quantity = 5, v_remaining = 5, v_participant = 1, v_seq = 1, v_side = Sell\<rparr>],
     sp_seq = 1, sp_nextTradeId = 0\<rparr>"
    using b'(4) eq new by simp
qed

lemma demo_submit:
  obtains res b' trades' victims' where "submitEx demo_book (demo_order k p q s ty) demo_trades None = Some (res, b', trades', victims')"
  by (rule submitEx_inv [OF demo_book_facts(1), of "demo_order k p q s ty" demo_trades None]) (use demo_on_tick demo_book_facts(2) in auto)

lemma demo_fill:
  obtains res b' trades' where "submitEx demo_book (demo_order 2 102 3 Buy Limit) demo_trades None = Some (res, b', trades', None)"
    "r_seq res = 2" "r_status res = Ok" "r_filled res = 3" "r_remaining res = 0"
    "trades' = push demo_trades \<lparr>t_id = 0, t_aggressorId = 2, t_passiveId = 1, t_price = 101, t_quantity = 3, t_aggressorSide = Buy\<rparr>"
proof -
  let ?o = "demo_order 2 102 3 Buy Limit"
  obtain b' res ts vs where b': "submitEx demo_book ?o demo_trades None = Some (res, b', foldl push demo_trades ts, map_option (\<lambda>vb. foldl push vb vs) None)"
      "asubmit (ob_cfg demo_book) (absb demo_book) ?o = (res, absb b', ts, vs)"
    by (rule submitEx_inv [OF demo_book_facts(1), of ?o demo_trades None]) (simp_all add: demo_on_tick demo_book_facts(2))
  have "(let (res, A, ts, vs) = asubmit demo_cfg \<lparr>sp_bids = [], sp_asks = [\<lparr>v_id = 1, v_price = 101, v_quantity = 5, v_remaining = 5, v_participant = 1, v_seq = 1, v_side = Sell\<rparr>],
       sp_seq = 1, sp_nextTradeId = 0\<rparr> ?o in (r_seq res, r_status res, r_filled res, r_remaining res, ts)) =
     (2, Ok, 3, 0, [\<lparr>t_id = 0, t_aggressorId = 2, t_passiveId = 1, t_price = 101, t_quantity = 3, t_aggressorSide = Buy\<rparr>])"
    by code_simp
  then show ?thesis using that [OF b'(1) [simplified]] b'(2) by (simp add: demo_book_facts)
qed

lemma demo_tick: "on_tick (ob_cfg demo_book) p"
  by (simp add: demo_book_facts(2) demo_on_tick)

lemma demo_order_simps:
  "n_type (demo_order k p q s ty) = ty" "n_side (demo_order k p q s ty) = s" "n_price (demo_order k p q s ty) = p"
  "n_quantity (demo_order k p q s ty) = q" "n_id (demo_order k p q s ty) = k"
  by (simp_all add: demo_order_def)

end
