(* ===== verification/Book_Properties.thy ===== *)
theory Book_Properties
  imports Book_Demo
begin

text \<open>
  The properties of the order book that its clients rely on.
\<close>

section \<open>Submit\<close>

text \<open>
  C1: On a book that satisfies the invariant, \<^verbatim>\<open>submitEx\<close> terminates, touches only live orders and array
  elements in range, and implements the abstract submit: same result, same abstract book, the trades
  and the victims of self-trade prevention pushed in order into the caller's buffers; the invariant
  holds again. This is for an order of any type whose price, when it is a limit order, is on the tick
  grid. The code does not check the grid; off it several prices share a level and the claim fails.
\<close>

theorem submitEx_correct:
  assumes "book_inv b" "n_type ord = Limit \<Longrightarrow> on_tick (ob_cfg b) (n_price ord)"
  shows "\<exists>b' res ts vs. submitEx b ord trades victims = Some (res, b', foldl push trades ts, map_option (\<lambda>vb. foldl push vb vs) victims) \<and>
    asubmit (ob_cfg b) (absb b) ord = (res, absb b', ts, vs) \<and> book_inv b' \<and> ob_cfg b' = ob_cfg b"
  by (rule submitEx_inv [OF assms, of trades victims]) auto

theorem submitEx_correct_witness:
  "\<exists>b' res ts vs. submitEx demo_book (demo_order 2 102 3 Buy Limit) demo_trades None = Some (res, b', foldl push demo_trades ts, None) \<and>
    asubmit demo_cfg (absb demo_book) (demo_order 2 102 3 Buy Limit) = (res, absb b', ts, vs) \<and> book_inv b' \<and> ob_cfg b' = demo_cfg"
  using submitEx_correct [OF demo_book_facts(1), of "demo_order 2 102 3 Buy Limit" demo_trades None]
  by (simp add: demo_book_facts(2) demo_on_tick)


text \<open>
  C2: Price-time priority, on a book that satisfies the invariant and for an order that is no limit order
  or has its limit on the tick grid. The opposite side, which is sorted by price and then by arrival, is
  consumed from the front: a prefix \<open>gone\<close> leaves the book, in order, each order of it either
  traded in full or removed by self-trade prevention, and at most the next order is reduced. No
  order behind is touched.
\<close>

theorem submitEx_price_time_priority:
  assumes "book_inv b" "n_type ord = Limit \<Longrightarrow> on_tick (ob_cfg b) (n_price ord)"
    and "submitEx b ord trades victims = Some (res, b', trades', victims')"
  shows "\<exists>ts gone rest. trades' = foldl push trades ts \<and>
    sorted_wrt (prio (opposite (n_side ord))) (spec_side (absb b) (opposite (n_side ord))) \<and>
    spec_side (absb b) (opposite (n_side ord)) = gone @ rest \<and>
    (spec_side (absb b') (opposite (n_side ord)) = rest \<and>
       map t_passiveId ts = map v_id (filter (\<lambda>r. v_participant r \<noteq> n_participant ord) gone) \<or>
     (\<exists>r rest' q. rest = r # rest' \<and> 0 < q \<and> q < v_remaining r \<and> r_remaining res = 0 \<and>
        spec_side (absb b') (opposite (n_side ord)) = r\<lparr>v_remaining := v_remaining r - q\<rparr> # rest' \<and>
        map t_passiveId ts = map v_id (filter (\<lambda>r. v_participant r \<noteq> n_participant ord) gone) @ [v_id r]))"
proof -
  obtain ts vs where t: "asubmit (ob_cfg b) (absb b) ord = (res, absb b', ts, vs)" "trades' = foldl push trades ts"
    by (rule submitEx_trace [OF assms])
  have srt: "sorted_wrt (prio (opposite (n_side ord))) (spec_side (absb b) (opposite (n_side ord)))"
    using book_invD(2) [OF assms(1)] by (simp add: spec_wf_def side_wf_def)
  from t(1) show ?thesis
  proof (cases rule: asubmit_cases)
    case (rejected st)
    then show ?thesis
      by (intro exI [of _ "[]"] exI [of _ "spec_side (absb b) (opposite (n_side ord))"]) (use t(2) srt in auto)
  next
    case (matched left rem' oc)
    show ?thesis using amatch_priority [OF matched(2)] t(2) srt matched(3,4) by blast
  qed
qed

theorem submitEx_price_time_priority_witness:
  "\<exists>res b' trades' victims' ts gone rest. submitEx demo_book (demo_order 2 102 3 Buy Limit) demo_trades None = Some (res, b', trades', victims') \<and>
    trades' = foldl push demo_trades ts \<and> spec_side (absb demo_book) Sell = gone @ rest"
proof -
  obtain res b' trades' victims' where s: "submitEx demo_book (demo_order 2 102 3 Buy Limit) demo_trades None = Some (res, b', trades', victims')"
    by (rule demo_submit)
  have "\<exists>ts gone rest. trades' = foldl push demo_trades ts \<and> spec_side (absb demo_book) Sell = gone @ rest"
    using submitEx_price_time_priority [OF demo_book_facts(1) _ s] demo_on_tick demo_book_facts(2)
    by (auto simp: demo_order_def)
  then show ?thesis using s by blast
qed

text \<open>
  C3: Quantity is conserved on a book that satisfies the invariant, for an order that is not rejected (its result carries an arrival number; the
  result of a rejected order has both quantities zero) and whose price, when it is a limit order, is on the
  tick grid. What the order asked for is what traded plus what is left of it, and the opposite side loses
  exactly the traded quantity and the quantity of the orders removed by self-trade prevention.
\<close>

theorem submitEx_conserves_quantity:
  assumes "book_inv b" "n_type ord = Limit \<Longrightarrow> on_tick (ob_cfg b) (n_price ord)"
    and "submitEx b ord trades victims = Some (res, b', trades', victims')" "r_seq res \<noteq> 0"
  shows "\<exists>ts vs. trades' = foldl push trades ts \<and> victims' = map_option (\<lambda>vb. foldl push vb vs) victims \<and>
    r_filled res = sum_list (map t_quantity ts) \<and> r_filled res + r_remaining res = n_quantity ord \<and> 0 \<le> r_remaining res \<and>
    sum_list (map v_remaining (spec_side (absb b) (opposite (n_side ord)))) =
      sum_list (map v_remaining (spec_side (absb b') (opposite (n_side ord)))) + sum_list (map t_quantity ts) + sum_list (map v_remaining vs)"
proof -
  obtain ts vs where t: "asubmit (ob_cfg b) (absb b) ord = (res, absb b', ts, vs)" "trades' = foldl push trades ts"
      "victims' = map_option (\<lambda>vb. foldl push vb vs) victims"
    by (rule submitEx_trace [OF assms(1-3)])
  from t(1) show ?thesis
  proof (cases rule: asubmit_cases)
    case (rejected st)
    then show ?thesis using assms(4) by (simp add: submit_result_def emptyResult_def)
  next
    case (matched left rem' oc)
    have "0 \<le> n_quantity ord" using submit_guard_NoneD(1) [OF matched(1)] by simp
    from amatch_conserves [OF matched(2) this] show ?thesis
      by (intro exI [of _ ts] exI [of _ vs]) (use matched(3-5) t in simp)
  qed
qed

theorem submitEx_conserves_quantity_witness:
  "\<exists>res b' trades' ts. submitEx demo_book (demo_order 2 102 3 Buy Limit) demo_trades None = Some (res, b', trades', None) \<and>
    trades' = foldl push demo_trades ts \<and> r_filled res = sum_list (map t_quantity ts) \<and> r_filled res + r_remaining res = 3"
proof -
  obtain res b' trades' where s: "submitEx demo_book (demo_order 2 102 3 Buy Limit) demo_trades None = Some (res, b', trades', None)" "r_seq res = 2"
    by (rule demo_fill)
  have "\<exists>ts. trades' = foldl push demo_trades ts \<and> r_filled res = sum_list (map t_quantity ts) \<and> r_filled res + r_remaining res = 3"
    using submitEx_conserves_quantity [OF demo_book_facts(1) _ s(1)] s(2) demo_on_tick demo_book_facts(2)
    by (auto simp: demo_order_def)
  then show ?thesis using s(1) by blast
qed

text \<open>
  Every trade is against an order that was resting on the other side, at that order's price,
  which the aggressor's limit accepts, for a positive quantity not above what rested, and never
  between two orders of one participant; trade ids are consecutive from the book's counter.
\<close>

theorem submitEx_trades:
  assumes "book_inv b" "n_type ord = Limit \<Longrightarrow> on_tick (ob_cfg b) (n_price ord)"
    and "submitEx b ord trades victims = Some (res, b', trades', victims')"
  shows "\<exists>ts. trades' = foldl push trades ts \<and> map t_id ts = map (\<lambda>k. ob_nextTradeId b + int k) [0..<length ts] \<and>
    ob_nextTradeId b' = ob_nextTradeId b + int (length ts) \<and>
    (\<forall>t \<in> set ts. \<exists>r \<in> set (spec_side (absb b) (opposite (n_side ord))).
       t_aggressorId t = n_id ord \<and> t_aggressorSide t = n_side ord \<and> t_passiveId t = v_id r \<and> t_price t = v_price r \<and>
       (n_type ord \<noteq> Market \<longrightarrow> (if n_side ord = Buy then t_price t \<le> n_price ord else n_price ord \<le> t_price t)) \<and>
       v_participant r \<noteq> n_participant ord \<and> 0 < t_quantity t \<and> t_quantity t \<le> v_remaining r)"
proof -
  obtain ts vs where t: "asubmit (ob_cfg b) (absb b) ord = (res, absb b', ts, vs)" "trades' = foldl push trades ts"
    by (rule submitEx_trace [OF assms])
  have pos: "\<And>r. r \<in> set (spec_side (absb b) (opposite (n_side ord))) \<Longrightarrow> 0 < v_remaining r"
    using book_invD(2) [OF assms(1)] by (auto simp: spec_wf_def side_wf_def order_wf_def)
  from t(1) show ?thesis
  proof (cases rule: asubmit_cases)
    case (rejected st)
    then have "sp_nextTradeId (absb b') = sp_nextTradeId (absb b)" by simp
    then show ?thesis using t(2) rejected by (intro exI [of _ "[]"]) (simp add: absb_def)
  next
    case (matched left rem' oc)
    have am: "\<forall>t \<in> set ts. \<exists>r \<in> set (spec_side (absb b) (opposite (n_side ord))). \<exists>n. t = trade_with ord n r (t_quantity t) \<and> crosses_with ord r \<and>
        v_participant r \<noteq> n_participant ord \<and> 0 < t_quantity t \<and> t_quantity t \<le> v_remaining r"
      by (rule amatch_trades [OF matched(2)]) (rule pos)
    have tr: "(n_type ord \<noteq> Market \<longrightarrow> (if n_side ord = Buy then t_price t \<le> n_price ord else n_price ord \<le> t_price t)) \<and>
        t_aggressorId t = n_id ord \<and> t_aggressorSide t = n_side ord \<and> t_passiveId t = v_id r \<and> t_price t = v_price r"
      if eq: "t = trade_with ord n r (t_quantity t)" and cr: "crosses_with ord r" for t n r
    proof -
      have "t_price t = v_price r" "t_aggressorId t = n_id ord" "t_aggressorSide t = n_side ord" "t_passiveId t = v_id r"
        using arg_cong [OF eq, of t_price] arg_cong [OF eq, of t_aggressorId]
          arg_cong [OF eq, of t_aggressorSide] arg_cong [OF eq, of t_passiveId] by (simp_all add: trade_with_def)
      with cr show ?thesis by (simp add: crosses_def)
    qed
    have "\<exists>r \<in> set (spec_side (absb b) (opposite (n_side ord))).
       t_aggressorId t = n_id ord \<and> t_aggressorSide t = n_side ord \<and> t_passiveId t = v_id r \<and> t_price t = v_price r \<and>
       (n_type ord \<noteq> Market \<longrightarrow> (if n_side ord = Buy then t_price t \<le> n_price ord else n_price ord \<le> t_price t)) \<and>
       v_participant r \<noteq> n_participant ord \<and> 0 < t_quantity t \<and> t_quantity t \<le> v_remaining r" if t_in: "t \<in> set ts" for t
    proof -
      obtain r n where r: "r \<in> set (spec_side (absb b) (opposite (n_side ord)))" "t = trade_with ord n r (t_quantity t)" "crosses_with ord r"
          "v_participant r \<noteq> n_participant ord" "0 < t_quantity t" "t_quantity t \<le> v_remaining r"
        by (rule bexE [OF bspec [OF am t_in]]) (elim exE conjE, rule that)
      show ?thesis using tr [OF r(2,3)] r(4-6) by (intro bexI [OF _ r(1)]) blast
    qed
    then show ?thesis
      by (intro exI [of _ ts]) (use amatch_trade_ids [OF matched(2)] matched(8) t(2) in \<open>simp add: absb_def\<close>)
  qed
qed

theorem submitEx_trades_witness:
  "\<exists>res b' trades' ts. submitEx demo_book (demo_order 2 102 3 Buy Limit) demo_trades None = Some (res, b', trades', None) \<and>
    trades' = foldl push demo_trades ts \<and> ob_nextTradeId b' = ob_nextTradeId demo_book + int (length ts) \<and> (\<forall>t \<in> set ts. t_price t \<le> 102)"
proof -
  obtain res b' trades' where s: "submitEx demo_book (demo_order 2 102 3 Buy Limit) demo_trades None = Some (res, b', trades', None)"
    by (rule demo_fill)
  obtain ts where "trades' = foldl push demo_trades ts" "ob_nextTradeId b' = ob_nextTradeId demo_book + int (length ts)" "\<forall>t \<in> set ts. t_price t \<le> 102"
    using submitEx_trades [OF demo_book_facts(1) demo_tick s] unfolding demo_order_simps by auto
  then show ?thesis using s by blast
qed

text \<open>
  C26: A fill-or-kill order is all or nothing: it is filled completely, or the book, the trades and
  the victims are exactly as before. The quantities must be below 2 to the 62, so that the 64-bit
  sum of the pre-scan does not overflow.
\<close>

theorem submitEx_fok_all_or_nothing:
  assumes "book_inv b" "n_type ord = Fok" "no_overflow ord (spec_side (absb b) (opposite (n_side ord)))"
    and "submitEx b ord trades victims = Some (res, b', trades', victims')"
  shows "r_status res = Ok \<and> r_filled res = n_quantity ord \<and> r_remaining res = 0 \<or>
    r_status res \<noteq> Ok \<and> r_filled res = 0 \<and> b' = b \<and> trades' = trades \<and> victims' = victims"
proof -
  have lim: "n_type ord = Limit \<Longrightarrow> on_tick (ob_cfg b) (n_price ord)" using assms(2) by simp
  obtain ts vs where t: "asubmit (ob_cfg b) (absb b) ord = (res, absb b', ts, vs)"
    by (rule submitEx_trace [OF assms(1) lim assms(4)]) auto
  have rep: "book_rep b (book_queues b) {}" using book_invD(1) [OF assms(1)] by (simp add: book_ok_def)
  from t(1) show ?thesis
  proof (cases rule: asubmit_cases)
    case (rejected st)
    have "st \<noteq> Ok" using rejected(1) by (auto simp: submit_guard_def split: if_splits)
    moreover have "b' = b" "trades' = trades" "victims' = victims"
      using submitEx_guard [OF rep, of ord trades victims] rejected(1) assms(4) by simp_all
    ultimately show ?thesis using rejected(2) by (simp add: submit_result_def emptyResult_def)
  next
    case (matched left rem' oc)
    note q = submit_guard_NoneD(1,5) [OF matched(1)]
    have "rem' = 0" using aavail_exact [OF matched(2) assms(3) q(1)] q(2) assms(2) by simp
    moreover have "oc = Exhausted" by (rule amatch_filled_outcome [OF matched(2) \<open>rem' = 0\<close> q(1)])
    ultimately show ?thesis using matched(4,5,10) assms(2) by (simp add: final_status_def)
  qed
qed

theorem submitEx_fok_all_or_nothing_witness:
  "\<exists>res b' trades'. submitEx demo_book (demo_order 2 102 9 Buy Fok) demo_trades None = Some (res, b', trades', None) \<and>
    r_status res = RejectedFokUnfillable \<and> b' = demo_book \<and> trades' = demo_trades"
proof -
  let ?o = "demo_order 2 102 9 Buy Fok"
  obtain b' res ts vs where b': "submitEx demo_book ?o demo_trades None = Some (res, b', foldl push demo_trades ts, map_option (\<lambda>vb. foldl push vb vs) None)"
      "asubmit (ob_cfg demo_book) (absb demo_book) ?o = (res, absb b', ts, vs)"
    by (rule submitEx_inv [OF demo_book_facts(1), of ?o demo_trades None]) (simp_all add: demo_order_def)
  have "r_status (fst (asubmit demo_cfg \<lparr>sp_bids = [], sp_asks = [\<lparr>v_id = 1, v_price = 101, v_quantity = 5, v_remaining = 5, v_participant = 1, v_seq = 1, v_side = Sell\<rparr>],
       sp_seq = 1, sp_nextTradeId = 0\<rparr> ?o)) = RejectedFokUnfillable"
    by code_simp
  then have st: "r_status res = RejectedFokUnfillable" using b'(2) by (simp add: demo_book_facts)
  have "no_overflow ?o (spec_side (absb demo_book) (opposite (n_side ?o)))"
    by (simp add: no_overflow_def demo_book_facts demo_order_def spec_side_def)
  from submitEx_fok_all_or_nothing [OF demo_book_facts(1) _ this b'(1)] st
  have "b' = demo_book \<and> foldl push demo_trades ts = demo_trades" by (auto simp: demo_order_def)
  then show ?thesis using b'(1) st by auto
qed

text \<open>
  C27: An order that fails validation leaves no trace: for each of the four validation statuses the
  book, pool and id map included, and both buffers are returned exactly as they were passed in.
\<close>

theorem submitEx_rejects_untouched:
  assumes "book_inv b" "submitEx b ord trades victims = Some (res, b', trades', victims')"
    and "r_status res \<in> {RejectedPriceOutOfRange, RejectedInvalidQuantity, RejectedDuplicateId, RejectedMarketIntoEmptyBook}"
  shows "b' = b \<and> trades' = trades \<and> victims' = victims \<and> r_seq res = 0"
proof -
  have rep: "book_rep b (book_queues b) {}" using book_invD(1) [OF assms(1)] by (simp add: book_ok_def)
  show ?thesis
  proof (cases "submit_guard (ob_cfg b) (absb b) ord")
    case None
    note eq = submitEx_guard [OF rep, of ord trades victims, unfolded None option.case Let_def]
    obtain b1 trades1 remaining victims1 oc where
      m: "matchInto (b\<lparr>ob_seq := ob_seq b + 1\<rparr>) ord trades (n_quantity ord) victims = Some (b1, trades1, remaining, victims1, oc)"
    proof (cases "matchInto (b\<lparr>ob_seq := ob_seq b + 1\<rparr>) ord trades (n_quantity ord) victims")
      case None
      then show ?thesis using assms(2) eq by simp
    next
      case (Some x)
      then show ?thesis by (cases x) (rule that, simp)
    qed
    have "r_status res \<notin> {RejectedPriceOutOfRange, RejectedInvalidQuantity, RejectedDuplicateId, RejectedMarketIntoEmptyBook}"
    proof (cases "oc = StpFired \<or> n_type ord \<noteq> Limit \<or> remaining \<le> 0")
      case True
      then have "r_status res \<in> {CancelledBySelfTradePrevention, final_status (n_type ord) remaining}"
        using assms(2) [unfolded eq m] by (auto split: if_splits)
      then show ?thesis by (auto simp: final_status_def split: if_splits)
    next
      case False
      then show ?thesis using assms(2) [unfolded eq m]
        by (cases "restResidual b1 ord (ob_seq b + 1) remaining") (auto split: if_splits)
    qed
    with assms(3) show ?thesis by simp
  next
    case (Some st)
    then show ?thesis using submitEx_guard [OF rep, of ord trades victims] assms(2)
      by (auto simp: submit_result_def emptyResult_def)
  qed
qed

theorem submitEx_rejects_untouched_witness:
  "\<exists>res. submitEx demo_book (demo_order 1 102 9 Buy Limit) demo_trades None = Some (res, demo_book, demo_trades, None) \<and>
    r_status res = RejectedDuplicateId"
proof -
  let ?o = "demo_order 1 102 9 Buy Limit"
  obtain b' res ts vs where b': "submitEx demo_book ?o demo_trades None = Some (res, b', foldl push demo_trades ts, map_option (\<lambda>vb. foldl push vb vs) None)"
      "asubmit (ob_cfg demo_book) (absb demo_book) ?o = (res, absb b', ts, vs)"
    by (rule submitEx_inv [OF demo_book_facts(1), of ?o demo_trades None]) (simp_all add: demo_on_tick demo_book_facts(2))
  have "r_status (fst (asubmit demo_cfg \<lparr>sp_bids = [], sp_asks = [\<lparr>v_id = 1, v_price = 101, v_quantity = 5, v_remaining = 5, v_participant = 1, v_seq = 1, v_side = Sell\<rparr>],
       sp_seq = 1, sp_nextTradeId = 0\<rparr> ?o)) = RejectedDuplicateId"
    by code_simp
  then have st: "r_status res = RejectedDuplicateId" using b'(2) by (simp add: demo_book_facts)
  from submitEx_rejects_untouched [OF demo_book_facts(1) b'(1)] st show ?thesis using b'(1) by auto
qed

text \<open>
  What happens to the residual of an order that was matched: only a limit order rests, exactly
  when quantity is left and the status is ok, and then the book holds it under its id with the
  remaining quantity and the arrival number of the result; otherwise the id is not in the book.
\<close>

theorem submitEx_residual:
  assumes "book_inv b" "n_type ord = Limit \<Longrightarrow> on_tick (ob_cfg b) (n_price ord)"
    and "submitEx b ord trades victims = Some (res, b', trades', victims')" "r_seq res \<noteq> 0"
  shows "r_seq res = ob_seq b + 1 \<and>
    (r_rested res \<longrightarrow> n_type ord = Limit \<and> 0 < r_remaining res \<and> r_status res = Ok) \<and>
    find_order (absb b') (n_id ord) = (if r_rested res then Some (resting_of ord (r_seq res) (r_remaining res)) else None)"
proof -
  obtain ts vs where t: "asubmit (ob_cfg b) (absb b) ord = (res, absb b', ts, vs)" and inv': "book_inv b'"
    by (rule submitEx_trace [OF assms(1-3)])
  from t(1) show ?thesis
  proof (cases rule: asubmit_cases)
    case (rejected st)
    then show ?thesis using assms(4) by (simp add: submit_result_def emptyResult_def)
  next
    case (matched left rem' oc)
    have sq: "r_seq res = ob_seq b + 1"
      using t(1) asubmit_None [OF matched(1,2)] by (auto simp: absb_def final_status_def split: if_splits)
    have new: "n_id ord \<notin> v_id ` set (spec_orders (absb b))" using submit_guard_NoneD(3) [OF matched(1)] by (simp add: find_order_None)
    have ids: "v_id ` set left \<subseteq> v_id ` set (spec_side (absb b) (opposite (n_side ord)))"
    proof -
      obtain gone where "map v_id (spec_side (absb b) (opposite (n_side ord))) = gone @ map v_id left"
        using amatch_left(1) [OF matched(2)] by blast
      from arg_cong [OF this, of set] show ?thesis by auto
    qed
    show ?thesis
    proof (cases "r_rested res")
      case True
      have "find_order (absb b') (n_id ord) = Some (resting_of ord (r_seq res) (r_remaining res))"
        using rested_found [OF inv'] matched(4,7) sq True by (fastforce simp: resting_of_def absb_def)
      then show ?thesis using True sq matched(4,6) by simp
    next
      case False
      then have "n_id ord \<notin> v_id ` set (spec_orders (absb b'))"
        using new ids matched(3,7) by (auto simp: spec_orders_set [of _ "n_side ord"])
      then show ?thesis using False sq by (simp add: find_order_None)
    qed
  qed
qed

theorem submitEx_residual_witness:
  "\<exists>res b' trades'. submitEx demo_book (demo_order 2 102 3 Buy Limit) demo_trades None = Some (res, b', trades', None) \<and>
    \<not> r_rested res \<and> find_order (absb b') 2 = None"
proof -
  obtain res b' trades' where s: "submitEx demo_book (demo_order 2 102 3 Buy Limit) demo_trades None = Some (res, b', trades', None)"
    "r_seq res = 2" "r_remaining res = 0" by (rule demo_fill)
  have "on_tick (ob_cfg demo_book) (n_price (demo_order 2 102 3 Buy Limit))" by (simp add: demo_book_facts(2) demo_on_tick)
  from submitEx_residual [OF demo_book_facts(1) this s(1)] s show ?thesis by (auto simp: demo_order_def split: if_splits)
qed

section \<open>Cancel and replace\<close>

text \<open>
  C28: Cancel terminates, implements the abstract cancel and keeps the invariant; afterwards the id
  is unknown and every other order is found as before.
\<close>

theorem cancel_correct:
  assumes "book_inv b"
  shows "\<exists>res b'. cancel b k = Some (res, b') \<and> acancel (absb b) k = (res, absb b') \<and> book_inv b' \<and>
    (\<forall>j. find_order (absb b') j = (if j = k then None else find_order (absb b) j))"
proof -
  obtain b' res where b': "cancel b k = Some (res, b')" "book_inv b'" "acancel (absb b) k = (res, absb b')"
    by (rule cancel_inv [OF assms])
  have dist: "distinct (map v_id (spec_orders (absb b)))" using book_invD(2) [OF assms] by (simp add: spec_wf_def)
  have "find_order (absb b') j = (if j = k then None else find_order (absb b) j)" for j
    using b'(3) find_order_drop [OF dist, of k j] by (auto simp: acancel_def split: option.splits)
  then show ?thesis using b' by blast
qed

theorem cancel_correct_witness:
  "\<exists>res b'. cancel demo_book 1 = Some (res, b') \<and> book_inv b' \<and> find_order (absb b') 1 = None"
  using cancel_correct [OF demo_book_facts(1), of 1] by auto

text \<open>
  C29: Replace is validation, then cancel, then submit: on a book that satisfies the invariant and for a fresh order whose price, when it is a limit order,
  is on the tick grid, it terminates, implements the abstract replace and keeps the invariant. A replace that reports no cancelled order, because it fails validation, is not accepted, makes no trade, and returns the very book it was given,
  the pool, the levels and the id map included.
\<close>

theorem replace_correct:
  assumes "book_inv b" "n_type fresh = Limit \<Longrightarrow> on_tick (ob_cfg b) (n_price fresh)"
  shows "\<exists>b' res cr ts vs. replace b k fresh trades victims = Some (res, cr, b', foldl push trades ts, map_option (\<lambda>vb. foldl push vb vs) victims) \<and>
    areplace (ob_cfg b) (absb b) k fresh = (res, cr, absb b', ts, vs) \<and> book_inv b' \<and> ob_cfg b' = ob_cfg b \<and>
    (cr = None \<longrightarrow> b' = b \<and> ts = [] \<and> r_status res \<noteq> Ok)"
proof -
  obtain b' res cr ts vs where b': "replace b k fresh trades victims = Some (res, cr, b', foldl push trades ts, map_option (\<lambda>vb. foldl push vb vs) victims)"
    "book_inv b'" "ob_cfg b' = ob_cfg b" "areplace (ob_cfg b) (absb b) k fresh = (res, cr, absb b', ts, vs)"
    by (rule replace_inv [OF assms])
  have "b' = b" if "cr = None"
    using b'(1) that by (auto simp: replace_def Let_def split: Option.bind_splits if_splits)
  moreover have "ts = [] \<and> r_status res \<noteq> Ok" if "cr = None"
    using b'(4) that by (auto simp: areplace_def replace_guard_def emptyResult_def split: option.splits prod.splits if_splits)
  ultimately show ?thesis using b' by blast
qed

theorem replace_correct_witness:
  "\<exists>b' res cr ts. replace demo_book 1 (demo_order 2 103 4 Sell Limit) demo_trades None = Some (res, cr, b', foldl push demo_trades ts, None) \<and> book_inv b'"
  using replace_correct [OF demo_book_facts(1), of "demo_order 2 103 4 Sell Limit" 1 demo_trades None]
  by (auto simp: demo_book_facts(2) demo_on_tick)

text \<open>
  Submitting a limit order that rests without trading and then cancelling it gives back the
  book that was there before, the arrival counter apart.
\<close>

theorem submit_cancel_roundtrip:
  assumes "book_inv b" "on_tick (ob_cfg b) (n_price ord)"
    and "submitEx b ord trades victims = Some (res, b1, trades1, victims1)" "r_rested res" "r_filled res = 0"
    and "\<forall>r \<in> set (spec_orders (absb b)). v_participant r \<noteq> n_participant ord"
  shows "\<exists>cres b2. cancel b1 (n_id ord) = Some (cres, b2) \<and> r_status cres = Ok \<and> r_remaining cres = n_quantity ord \<and>
    absb b2 = (absb b)\<lparr>sp_seq := ob_seq b + 1\<rparr>"
proof -
  obtain ts vs where t: "asubmit (ob_cfg b) (absb b) ord = (res, absb b1, ts, vs)" and inv1: "book_inv b1"
    by (rule submitEx_trace [OF assms(1) _ assms(3)]) (use assms(2) in auto)
  obtain b2 cres where c: "cancel b1 (n_id ord) = Some (cres, b2)" "acancel (absb b1) (n_id ord) = (cres, absb b2)"
    by (rule cancel_inv [OF inv1])
  from t show ?thesis
  proof (cases rule: asubmit_cases)
    case (rejected st)
    then show ?thesis using assms(4) by (simp add: submit_result_def emptyResult_def)
  next
    case (matched left rem' oc)
    note guard = submit_guard_NoneD [OF matched(1)]
    have pos: "\<And>r. r \<in> set (spec_side (absb b) (opposite (n_side ord))) \<Longrightarrow> 0 < v_remaining r"
      using book_invD(2) [OF assms(1)] by (auto simp: spec_wf_def side_wf_def order_wf_def)
    have rem: "rem' = n_quantity ord" using matched(5) assms(5) by simp
    have same: "left = spec_side (absb b) (opposite (n_side ord)) \<and> ts = []"
      by (rule amatch_untouched [OF matched(2) [unfolded rem]]) (use guard(1) pos assms(6) in \<open>auto simp: spec_orders_set [of _ "n_side ord"]\<close>)
    let ?r = "resting_of ord (ob_seq b + 1) (n_quantity ord)"
    have own: "spec_side (absb b1) (n_side ord) = rest_in (n_side ord) ?r (spec_side (absb b) (n_side ord))"
      using matched(7) assms(4) rem by (simp add: absb_def)
    have new: "n_id ord \<notin> v_id ` set (spec_side (absb b) s)" for s
      using guard(3) by (cases s) (auto simp: find_order_None spec_orders_set [of _ Buy])
    have keep: "filter (\<lambda>r. v_id r \<noteq> n_id ord) (spec_side (absb b1) s) = spec_side (absb b) s" for s
    proof -
      have old: "filter (\<lambda>r. v_id r \<noteq> n_id ord) (spec_side (absb b) s) = spec_side (absb b) s"
        using new [of s] by (force simp: filter_id_conv)
      show ?thesis
      proof (cases "s = n_side ord")
        case True
        then show ?thesis using own old filter_rest_in [of "\<lambda>r. v_id r \<noteq> n_id ord" ?r] by (simp add: resting_of_def)
      next
        case False
        then show ?thesis using opposite_cases [OF False] same matched(3) old by simp
      qed
    qed
    have "find_order (absb b1) (n_id ord) = Some ?r"
      using rested_found [OF inv1 own] by (simp add: resting_of_def)
    then have "cres = cancel_result ?r" "absb b2 = drop_order (absb b1) (n_id ord)" using c(2) by (simp_all add: acancel_def)
    moreover have "drop_order (absb b1) (n_id ord) = (absb b)\<lparr>sp_seq := ob_seq b + 1\<rparr>"
      using keep [of Buy] keep [of Sell] matched(8,9) same
      by (auto simp: drop_order_def spec_side_def absb_def)
    ultimately show ?thesis using c(1) by (simp add: cancel_result_def emptyResult_def resting_of_def)
  qed
qed


theorem submit_cancel_roundtrip_witness:
  "\<exists>res b1 trades1 cres b2. submitEx demo_book (demo_order 2 100 3 Buy Limit) demo_trades None = Some (res, b1, trades1, None) \<and>
    cancel b1 2 = Some (cres, b2) \<and> absb b2 = (absb demo_book)\<lparr>sp_seq := 2\<rparr>"
proof -
  let ?o = "demo_order 2 100 3 Buy Limit"
  have tick: "on_tick (ob_cfg demo_book) (n_price ?o)" by (simp add: demo_book_facts(2) demo_on_tick)
  obtain b' res ts vs where b': "submitEx demo_book ?o demo_trades None = Some (res, b', foldl push demo_trades ts, map_option (\<lambda>vb. foldl push vb vs) None)"
      "asubmit (ob_cfg demo_book) (absb demo_book) ?o = (res, absb b', ts, vs)"
    by (rule submitEx_inv [OF demo_book_facts(1) tick])
  have "(let res = fst (asubmit demo_cfg \<lparr>sp_bids = [], sp_asks = [\<lparr>v_id = 1, v_price = 101, v_quantity = 5, v_remaining = 5, v_participant = 1, v_seq = 1, v_side = Sell\<rparr>],
       sp_seq = 1, sp_nextTradeId = 0\<rparr> ?o) in (r_rested res, r_filled res)) = (True, 0)"
    by code_simp
  then have "r_rested res" "r_filled res = 0" using b'(2) by (simp_all add: demo_book_facts)
  moreover have "\<forall>r \<in> set (spec_orders (absb demo_book)). v_participant r \<noteq> n_participant ?o"
    by (simp add: demo_book_facts spec_orders_def demo_order_def)
  moreover have "ob_seq demo_book = sp_seq (absb demo_book)" by (simp add: absb_def)
  then have "ob_seq demo_book = 1" by (simp add: demo_book_facts)
  ultimately show ?thesis
    using submit_cancel_roundtrip [OF demo_book_facts(1) tick b'(1)] b'(1) by (auto simp: demo_order_def)
qed

section \<open>Where the code departs from its comments\<close>

text \<open>
  C30: A rejected replace can lose the order it was to replace. The market order that replaces the
  only resting order passes the validation of \<^verbatim>\<open>replace\<close>, the resting order is cancelled, and only
  then \<^verbatim>\<open>submitEx\<close> rejects the new order, because the book is now empty.
\<close>

theorem replace_rejected_loses_order:
  "\<exists>res cr b'. replace demo_book 1 (demo_order 2 0 3 Buy Market) demo_trades None = Some (res, cr, b', demo_trades, None) \<and>
    r_status res = RejectedMarketIntoEmptyBook \<and> find_order (absb demo_book) 1 \<noteq> None \<and> spec_orders (absb b') = []"
proof -
  let ?o = "demo_order 2 0 3 Buy Market"
  obtain b' res cr ts vs where b': "replace demo_book 1 ?o demo_trades None = Some (res, cr, b', foldl push demo_trades ts, map_option (\<lambda>vb. foldl push vb vs) None)"
    "areplace (ob_cfg demo_book) (absb demo_book) 1 ?o = (res, cr, absb b', ts, vs)"
    by (rule replace_inv [OF demo_book_facts(1), of ?o 1 demo_trades None]) (simp_all add: demo_order_def)
  have "(let (res, cr, A, ts, vs) = areplace demo_cfg \<lparr>sp_bids = [], sp_asks = [\<lparr>v_id = 1, v_price = 101, v_quantity = 5, v_remaining = 5, v_participant = 1, v_seq = 1, v_side = Sell\<rparr>],
       sp_seq = 1, sp_nextTradeId = 0\<rparr> 1 ?o in (r_status res, spec_orders A, ts)) = (RejectedMarketIntoEmptyBook, [], [])"
    by code_simp
  then have "r_status res = RejectedMarketIntoEmptyBook" "spec_orders (absb b') = []" "ts = []" using b'(2) by (simp_all add: demo_book_facts)
  then show ?thesis using b'(1) by (auto simp: demo_book_facts find_order_def spec_orders_def)
qed

definition tick_cfg :: BookConfig where
  "tick_cfg = \<lparr>cfg_minPrice = 100, cfg_maxPrice = 109, cfg_tick = 10, cfg_maxOrders = 2, cfg_stp = CancelAggressor\<rparr>"

text \<open>
  Prices off the tick grid are accepted and share a level: with a tick of 10, a sell at 105 and
  then a sell at 100 queue in one level whose tracked best price is 100, and a buy with limit 100
  trades with the head of that queue at 105, above its limit.
\<close>

theorem off_tick_trade_through:
  "(do {
      (r1, b1, t1, v1) \<leftarrow> submitEx (newOrderBook tick_cfg) (demo_order 1 105 5 Sell Limit) demo_trades None;
      (r2, b2, t2, v2) \<leftarrow> submitEx b1 (demo_order 2 100 5 Sell Limit) t1 None;
      (r3, b3, t3, v3) \<leftarrow> submitEx b2 (demo_order 3 100 5 Buy Limit) t2 None;
      Some (r_status r1, r_status r2, r_status r3, map t_price (contents t3)) })
    = Some (Ok, Ok, Ok, [105])"
  by code_simp

end
