(* ===== verification/Matching_Thread.thy ===== *)
theory Matching_Thread
  imports Book_Demo
begin

text \<open>
  The matching thread: the inbound command, the outbound event, and the dispatch of one command
  against the book (\<^verbatim>\<open>ipc/command.hpp\<close>, \<^verbatim>\<open>ipc/outbound_event.hpp\<close>, \<^verbatim>\<open>runtime/matching_thread.hpp\<close>),
  with its abstract counterpart and the interface for running sequences of commands.
\<close>

section \<open>ipc/command.hpp\<close>

datatype CommandKind = New | Cancel | Replace

record Command =
  c_id :: OrderId
  c_newId :: OrderId
  c_price :: Price
  c_quantity :: Quantity
  c_participant :: ParticipantId
  c_kind :: CommandKind
  c_side :: Side
  c_type :: OrderType

definition toNewOrder :: "Command \<Rightarrow> NewOrder" where
  "toNewOrder c = \<lparr>n_id = c_id c, n_price = c_price c, n_quantity = c_quantity c,
     n_participant = c_participant c, n_side = c_side c, n_type = c_type c\<rparr>"

section \<open>ipc/outbound\_event.hpp\<close>

datatype OutboundKind = TradeEvent | StatusEvent | OrderUpdateEvent

datatype UpdateAction = Rested | Cancelled | Rejected | Replaced

record StatusChange =
  s_orderId :: OrderId
  s_status :: SubmitStatus

record OrderUpdate =
  u_orderId :: OrderId
  u_price :: Price
  u_quantity :: Quantity
  u_remaining :: Quantity
  u_participant :: ParticipantId
  u_seq :: Seq

text \<open>
  The payload union. Reading a member other than the one last written would be undefined
  behaviour; as a tagged type that cannot be expressed, and every reader of the code switches on
  \<open>kind\<close>, which the constructors below keep in step with the payload.
\<close>

datatype OutboundPayload =
    PTrade Trade
  | PStatusChange StatusChange
  | POrderUpdate OrderUpdate

record OutboundEvent =
  e_kind :: OutboundKind
  e_side :: Side
  e_status :: SubmitStatus
  e_action :: UpdateAction
  e_reserved :: nat
  e_payload :: OutboundPayload
  e_globalSeq :: Seq

definition zeroTrade :: Trade where
  "zeroTrade = \<lparr>t_id = 0, t_aggressorId = 0, t_passiveId = 0, t_price = 0, t_quantity = 0, t_aggressorSide = Buy\<rparr>"

definition zeroEvent :: OutboundEvent where
  "zeroEvent = \<lparr>e_kind = TradeEvent, e_side = Buy, e_status = Ok, e_action = Rested, e_reserved = 0,
     e_payload = PTrade zeroTrade, e_globalSeq = 0\<rparr>"

definition tradeEvent :: "Trade \<Rightarrow> Seq \<Rightarrow> OutboundEvent" where
  "tradeEvent t globalSeq = zeroEvent\<lparr>e_kind := TradeEvent, e_payload := PTrade t, e_globalSeq := globalSeq\<rparr>"

definition statusEvent :: "OrderId \<Rightarrow> SubmitStatus \<Rightarrow> Seq \<Rightarrow> OutboundEvent" where
  "statusEvent oid st globalSeq =
     zeroEvent\<lparr>e_kind := StatusEvent, e_payload := PStatusChange \<lparr>s_orderId = oid, s_status = st\<rparr>, e_globalSeq := globalSeq\<rparr>"

definition orderUpdateEvent :: "UpdateAction \<Rightarrow> Side \<Rightarrow> OrderUpdate \<Rightarrow> Seq \<Rightarrow> SubmitStatus \<Rightarrow> OutboundEvent" where
  "orderUpdateEvent action side u globalSeq status =
     zeroEvent\<lparr>e_kind := OrderUpdateEvent, e_side := side, e_action := action, e_status := status,
       e_payload := POrderUpdate u, e_globalSeq := globalSeq\<rparr>"

section \<open>runtime/matching\_thread.hpp\<close>

text \<open>
  The state of the matching thread: the book, the dispatch counter, and the two buffers of
  \<^verbatim>\<open>run()\<close> that every dispatch reuses. Publishing is modelled by the list of events in the order
  in which \<^verbatim>\<open>publishOutbound\<close> is called; the ring they go through is the theory of the
  multicast ring. The two assertions after a call into the book are compiled out of a release
  build and do nothing here; \<open>dispatch_no_overflow\<close> below shows when they hold.
\<close>

record MatchingThread =
  mt_book :: OrderBook
  mt_dispatchSeq :: Seq
  mt_buf :: "Trade buffer"
  mt_victims :: "StpVictim buffer"

definition kTradeBufCapacity :: nat where
  "kTradeBufCapacity = 1024"

definition zeroVictim :: StpVictim where
  "zeroVictim = \<lparr>v_id = 0, v_price = 0, v_quantity = 0, v_remaining = 0, v_participant = 0, v_seq = 0, v_side = Buy\<rparr>"

definition newMatchingThread :: "BookConfig \<Rightarrow> MatchingThread" where
  "newMatchingThread cfg = \<lparr>mt_book = newOrderBook cfg, mt_dispatchSeq = 0,
     mt_buf = \<lparr>buf_data = replicate kTradeBufCapacity zeroTrade, buf_capacity = kTradeBufCapacity, buf_count = 0\<rparr>,
     mt_victims = \<lparr>buf_data = replicate kTradeBufCapacity zeroVictim, buf_capacity = kTradeBufCapacity, buf_count = 0\<rparr>\<rparr>"

definition restoreDispatchSeq :: "MatchingThread \<Rightarrow> Seq \<Rightarrow> MatchingThread" where
  "restoreDispatchSeq mt lastSeq = mt\<lparr>mt_dispatchSeq := lastSeq\<rparr>"

definition stored :: "'a buffer \<Rightarrow> 'a list" where
  "stored b = take (min (buf_count b) (buf_capacity b)) (buf_data b)"

definition publishTrades :: "Seq \<Rightarrow> Trade buffer \<Rightarrow> OutboundEvent list" where
  "publishTrades sq buf = map (\<lambda>t. tradeEvent t sq) (stored buf)"

definition victimUpdate :: "StpVictim \<Rightarrow> OrderUpdate" where
  "victimUpdate v = \<lparr>u_orderId = v_id v, u_price = v_price v, u_quantity = v_quantity v,
     u_remaining = v_remaining v, u_participant = v_participant v, u_seq = v_seq v\<rparr>"

definition publishStpVictims :: "Seq \<Rightarrow> StpVictim buffer \<Rightarrow> OutboundEvent list" where
  "publishStpVictims sq victims =
     map (\<lambda>v. orderUpdateEvent Cancelled (v_side v) (victimUpdate v) sq Ok) (stored victims)"

definition resultUpdate :: "OrderId \<Rightarrow> OrderResult \<Rightarrow> OrderUpdate" where
  "resultUpdate oid r = \<lparr>u_orderId = oid, u_price = r_price r, u_quantity = r_quantity r,
     u_remaining = r_remaining r, u_participant = r_participant r, u_seq = r_seq r\<rparr>"

definition emitOrderUpdate :: "Seq \<Rightarrow> OrderId \<Rightarrow> Side \<Rightarrow> OrderResult \<Rightarrow> OutboundEvent list" where
  "emitOrderUpdate sq oid side r =
     (let u = resultUpdate oid r
      in if r_rested r then [orderUpdateEvent Rested (r_side r) u sq Ok]
         else [orderUpdateEvent Rejected side u sq (r_status r)])"

definition dispatch :: "MatchingThread \<Rightarrow> Command \<Rightarrow> (MatchingThread \<times> OutboundEvent list) option" where
  "dispatch mt cmd = do {
     let sq = mt_dispatchSeq mt + 1;
     let buf = clear (mt_buf mt);
     let victims = clear (mt_victims mt);
     case c_kind cmd of
       New \<Rightarrow> do {
         let ord = toNewOrder cmd;
         (r, b1, buf1, victims1) \<leftarrow> submitEx (mt_book mt) ord buf (Some victims);
         victims2 \<leftarrow> victims1;
         Some (\<lparr>mt_book = b1, mt_dispatchSeq = sq, mt_buf = buf1, mt_victims = victims2\<rparr>,
               publishTrades sq buf1 @ publishStpVictims sq victims2 @
               (if r_status r \<noteq> Ok then [statusEvent (c_id cmd) (r_status r) sq] else []) @
               emitOrderUpdate sq (c_id cmd) (n_side ord) r)
       }
     | Cancel \<Rightarrow> do {
         (r, b1) \<leftarrow> cancel (mt_book mt) (c_id cmd);
         Some (\<lparr>mt_book = b1, mt_dispatchSeq = sq, mt_buf = buf, mt_victims = victims\<rparr>,
               [statusEvent (c_id cmd) (r_status r) sq] @
               (if r_status r = Ok
                then [orderUpdateEvent Cancelled (r_side r) (resultUpdate (c_id cmd) r) sq Ok] else []))
       }
     | Replace \<Rightarrow> do {
         let fresh = (toNewOrder cmd)\<lparr>n_id := c_newId cmd\<rparr>;
         (r, old, b1, buf1, victims1) \<leftarrow> replace (mt_book mt) (c_id cmd) fresh buf (Some victims);
         victims2 \<leftarrow> victims1;
         let oldResult = (case old of None \<Rightarrow> emptyResult | Some x \<Rightarrow> x);
         let rejectedBeforeDispatch = r_status r = RejectedUnknownOrder \<or> r_status r = RejectedInvalidQuantity \<or>
               r_status r = RejectedPriceOutOfRange \<or> r_status r = RejectedDuplicateId;
         Some (\<lparr>mt_book = b1, mt_dispatchSeq = sq, mt_buf = buf1, mt_victims = victims2\<rparr>,
               (if \<not> rejectedBeforeDispatch
                then [orderUpdateEvent Cancelled (r_side oldResult) (resultUpdate (c_id cmd) oldResult) sq Ok] else []) @
               publishTrades sq buf1 @ publishStpVictims sq victims2 @
               [statusEvent (c_newId cmd) (r_status r) sq] @
               (if \<not> rejectedBeforeDispatch then emitOrderUpdate sq (c_newId cmd) (n_side fresh) r else []))
       }
   }"

section \<open>The commands the book sees, and the events, at the abstract level\<close>

definition cmd_order :: "Command \<Rightarrow> NewOrder" where
  "cmd_order cmd = (if c_kind cmd = Replace then (toNewOrder cmd)\<lparr>n_id := c_newId cmd\<rparr> else toNewOrder cmd)"

definition cmd_ok :: "BookConfig \<Rightarrow> Command \<Rightarrow> bool" where
  "cmd_ok cfg cmd \<longleftrightarrow> (c_kind cmd \<noteq> Cancel \<and> c_type cmd = Limit \<longrightarrow> on_tick cfg (c_price cmd))"

definition trade_events :: "Seq \<Rightarrow> Trade list \<Rightarrow> Resting list \<Rightarrow> OutboundEvent list" where
  "trade_events sq ts vs = map (\<lambda>t. tradeEvent t sq) (take kTradeBufCapacity ts) @
     map (\<lambda>v. orderUpdateEvent Cancelled (v_side v) (victimUpdate v) sq Ok) (take kTradeBufCapacity vs)"

definition adispatch :: "BookConfig \<Rightarrow> BookSpec \<Rightarrow> Seq \<Rightarrow> Command \<Rightarrow> BookSpec \<times> OutboundEvent list" where
  "adispatch cfg A sq cmd =
     (case c_kind cmd of
        New \<Rightarrow>
          (case asubmit cfg A (cmd_order cmd) of (r, A', ts, vs) \<Rightarrow>
             (A', trade_events sq ts vs @
                (if r_status r \<noteq> Ok then [statusEvent (c_id cmd) (r_status r) sq] else []) @
                emitOrderUpdate sq (c_id cmd) (c_side cmd) r))
      | Cancel \<Rightarrow>
          (case acancel A (c_id cmd) of (r, A') \<Rightarrow>
             (A', [statusEvent (c_id cmd) (r_status r) sq] @
                (if r_status r = Ok
                 then [orderUpdateEvent Cancelled (r_side r) (resultUpdate (c_id cmd) r) sq Ok] else [])))
      | Replace \<Rightarrow>
          (case areplace cfg A (c_id cmd) (cmd_order cmd) of (r, old, A', ts, vs) \<Rightarrow>
             (A', (case old of None \<Rightarrow> []
                   | Some oldResult \<Rightarrow> [orderUpdateEvent Cancelled (r_side oldResult) (resultUpdate (c_id cmd) oldResult) sq Ok]) @
                trade_events sq ts vs @ [statusEvent (c_newId cmd) (r_status r) sq] @
                (if old \<noteq> None then emitOrderUpdate sq (c_newId cmd) (c_side cmd) r else []))))"

definition mt_inv :: "MatchingThread \<Rightarrow> bool" where
  "mt_inv mt \<longleftrightarrow> book_inv (mt_book mt) \<and>
     buf_wf (mt_buf mt) \<and> buf_capacity (mt_buf mt) = kTradeBufCapacity \<and>
     buf_wf (mt_victims mt) \<and> buf_capacity (mt_victims mt) = kTradeBufCapacity"

lemma take_append_take: "take n (take n (xs @ [x]) @ ys) = take n (xs @ x # ys)"
  by (cases "length xs < n") simp_all

lemma stored_push:
  assumes "buf_wf b"
  shows "stored (push b x) = take (buf_capacity b) (stored b @ [x])"
proof (cases "buf_count b < buf_capacity b")
  case True
  then have "stored (push b x) = take (buf_count b) (buf_data b) @ [x]" "stored b = take (buf_count b) (buf_data b)"
    using assms by (simp_all add: stored_def push_def Let_def buf_wf_def take_Suc_conv_app_nth min_def)
  then show ?thesis using True assms by (simp add: buf_wf_def)
next
  case False
  then show ?thesis using assms by (simp add: stored_def push_def Let_def buf_wf_def min_def)
qed

lemma stored_foldl_push_gen:
  assumes "buf_wf b"
  shows "stored (foldl push b xs) = take (buf_capacity b) (stored b @ xs)"
  using assms
proof (induction xs arbitrary: b)
  case Nil
  then show ?case by (simp add: stored_def)
next
  case (Cons x xs)
  have "stored (foldl push (push b x) xs) = take (buf_capacity b) (take (buf_capacity b) (stored b @ [x]) @ xs)"
    using Cons.IH [of "push b x"] Cons.prems by (simp add: stored_push del: take_append)
  then show ?case unfolding take_append_take by simp
qed

lemma stored_foldl_push:
  assumes "buf_wf b"
  shows "stored (foldl push (clear b) xs) = take (buf_capacity b) xs"
proof -
  have "buf_wf (clear b)" "stored (clear b) = []" "buf_capacity (clear b) = buf_capacity b"
    using assms by (simp_all add: buf_wf_def clear_def stored_def)
  then show ?thesis by (simp add: stored_foldl_push_gen)
qed

lemma clear_facts [simp]: "buf_wf (clear b) = buf_wf b" "buf_capacity (clear b) = buf_capacity b"
  by (simp_all add: clear_def buf_wf_def)

text \<open>The four statuses of \<^verbatim>\<open>rejectedBeforeDispatch\<close> are exactly the ones with which the old order was not cancelled.\<close>

lemma asubmit_fresh_status:
  assumes "asubmit cfg A ord = (r, A', ts, vs)" "0 < n_quantity ord" "n_type ord \<noteq> Market \<Longrightarrow> cfg_inRange cfg (n_price ord)" "find_order A (n_id ord) = None"
  shows "r_status r \<notin> {RejectedUnknownOrder, RejectedInvalidQuantity, RejectedPriceOutOfRange, RejectedDuplicateId}"
proof (cases "submit_guard cfg A ord")
  case (Some st)
  then show ?thesis using assms by (auto simp: asubmit_def submit_guard_def split: if_splits)
next
  case None
  obtain ts1 vs1 left rem' oc where am: "amatch (cfg_stp cfg) ord (sp_nextTradeId A) (n_quantity ord) (spec_side A (opposite (n_side ord))) = (ts1, vs1, left, rem', oc)"
    by (cases "amatch (cfg_stp cfg) ord (sp_nextTradeId A) (n_quantity ord) (spec_side A (opposite (n_side ord)))")
  have "r_status r \<in> {CancelledBySelfTradePrevention, Ok, RejectedPoolExhausted, final_status (n_type ord) rem'}"
    using assms(1) [unfolded asubmit_None [OF None am]] by (auto split: if_splits)
  then show ?thesis by (auto simp: final_status_def split: if_splits)
qed

lemma areplace_rejected_iff:
  assumes wf: "distinct (map v_id (spec_orders A))" and rp: "areplace cfg A k ord = (r, old, A', ts, vs)"
  shows "old = None \<longleftrightarrow> r_status r \<in> {RejectedUnknownOrder, RejectedInvalidQuantity, RejectedPriceOutOfRange, RejectedDuplicateId}"
proof (cases "replace_guard cfg A k ord")
  case (Some st)
  then show ?thesis using rp by (auto simp: areplace_def replace_guard_def split: if_splits)
next
  case None
  obtain cr A1 where c: "acancel A k = (cr, A1)" by (cases "acancel A k")
  obtain r2 A2 ts2 vs2 where s: "asubmit cfg A1 ord = (r2, A2, ts2, vs2)" by (cases "asubmit cfg A1 ord")
  have "find_order A k \<noteq> None" using None by (auto simp: replace_guard_def split: if_splits)
  then have A1: "A1 = drop_order A k" using c by (auto simp: acancel_def)
  have "find_order A1 (n_id ord) = None"
    unfolding A1 find_order_drop [OF wf] using None by (auto simp: replace_guard_def split: if_splits)
  with s None have "r_status r2 \<notin> {RejectedUnknownOrder, RejectedInvalidQuantity, RejectedPriceOutOfRange, RejectedDuplicateId}"
    by (intro asubmit_fresh_status) (auto simp: replace_guard_def split: if_splits)
  then show ?thesis using rp None c s by (auto simp: areplace_def)
qed

lemma mt_invD:
  assumes "mt_inv mt"
  shows "book_inv (mt_book mt)" "buf_wf (mt_buf mt)" "buf_capacity (mt_buf mt) = kTradeBufCapacity"
    "buf_wf (mt_victims mt)" "buf_capacity (mt_victims mt) = kTradeBufCapacity"
  using assms by (simp_all add: mt_inv_def)

lemma trade_events_stored:
  assumes "mt_inv mt"
  shows "publishTrades sq (foldl push (clear (mt_buf mt)) ts) @ publishStpVictims sq (foldl push (clear (mt_victims mt)) vs) = trade_events sq ts vs"
  using assms stored_foldl_push [OF mt_invD(2) [OF assms(1)], of ts] stored_foldl_push [OF mt_invD(4) [OF assms(1)], of vs]
  by (simp add: publishTrades_def publishStpVictims_def trade_events_def mt_invD(3,5))

lemma mt_inv_step:
  assumes "mt_inv mt" "book_inv b"
  shows "mt_inv \<lparr>mt_book = b, mt_dispatchSeq = sq, mt_buf = foldl push (clear (mt_buf mt)) ts, mt_victims = foldl push (clear (mt_victims mt)) vs\<rparr>"
  using assms mt_invD [OF assms(1)] by (simp add: mt_inv_def foldl_push_facts)

lemma dispatch_New:
  assumes inv: "mt_inv mt" and ok: "cmd_ok (ob_cfg (mt_book mt)) cmd" and k: "c_kind cmd = New"
    and ad: "asubmit (ob_cfg (mt_book mt)) (absb (mt_book mt)) (cmd_order cmd) = (r, A', ts, vs)"
  shows "\<exists>mt'. dispatch mt cmd = Some (mt', trade_events (mt_dispatchSeq mt + 1) ts vs @
       (if r_status r \<noteq> Ok then [statusEvent (c_id cmd) (r_status r) (mt_dispatchSeq mt + 1)] else []) @
       emitOrderUpdate (mt_dispatchSeq mt + 1) (c_id cmd) (c_side cmd) r) \<and>
    mt_inv mt' \<and> absb (mt_book mt') = A' \<and> ob_cfg (mt_book mt') = ob_cfg (mt_book mt) \<and> mt_dispatchSeq mt' = mt_dispatchSeq mt + 1"
proof -
  have tick: "n_type (cmd_order cmd) = Limit \<Longrightarrow> on_tick (ob_cfg (mt_book mt)) (n_price (cmd_order cmd))"
    using ok k by (simp add: cmd_ok_def cmd_order_def toNewOrder_def)
  have co: "toNewOrder cmd = cmd_order cmd" "n_side (cmd_order cmd) = c_side cmd" using k by (simp_all add: cmd_order_def toNewOrder_def)
  obtain b1 where b1: "submitEx (mt_book mt) (cmd_order cmd) (clear (mt_buf mt)) (Some (clear (mt_victims mt))) =
        Some (r, b1, foldl push (clear (mt_buf mt)) ts, Some (foldl push (clear (mt_victims mt)) vs))"
      "book_inv b1" "ob_cfg b1 = ob_cfg (mt_book mt)" "absb b1 = A'"
    by (rule submitEx_inv [OF mt_invD(1) [OF inv] tick, of "clear (mt_buf mt)" "Some (clear (mt_victims mt))"]) (use ad in auto)
  show ?thesis
    unfolding dispatch_def Let_def k co b1(1) CommandKind.case
    using mt_inv_step [OF inv b1(2)] b1(3,4) trade_events_stored [OF inv, of "mt_dispatchSeq mt + 1", symmetric] co
    by (auto simp: k)
qed

lemma dispatch_Cancel:
  assumes inv: "mt_inv mt" and k: "c_kind cmd = Cancel" and ad: "acancel (absb (mt_book mt)) (c_id cmd) = (r, A')"
  shows "\<exists>mt'. dispatch mt cmd = Some (mt', [statusEvent (c_id cmd) (r_status r) (mt_dispatchSeq mt + 1)] @
       (if r_status r = Ok then [orderUpdateEvent Cancelled (r_side r) (resultUpdate (c_id cmd) r) (mt_dispatchSeq mt + 1) Ok] else [])) \<and>
    mt_inv mt' \<and> absb (mt_book mt') = A' \<and> ob_cfg (mt_book mt') = ob_cfg (mt_book mt) \<and> mt_dispatchSeq mt' = mt_dispatchSeq mt + 1"
proof -
  obtain b1 where b1: "cancel (mt_book mt) (c_id cmd) = Some (r, b1)" "book_inv b1" "ob_cfg b1 = ob_cfg (mt_book mt)" "absb b1 = A'"
    by (rule cancel_inv [OF mt_invD(1) [OF inv], of "c_id cmd"]) (use ad in auto)
  show ?thesis
    unfolding dispatch_def Let_def b1(1)
    using mt_inv_step [OF inv b1(2), of _ "[]" "[]"] b1(3,4) by (auto simp: k)
qed

lemma dispatch_Replace:
  assumes inv: "mt_inv mt" and ok: "cmd_ok (ob_cfg (mt_book mt)) cmd" and k: "c_kind cmd = Replace"
    and ad: "areplace (ob_cfg (mt_book mt)) (absb (mt_book mt)) (c_id cmd) (cmd_order cmd) = (r, old, A', ts, vs)"
  shows "\<exists>mt'. dispatch mt cmd = Some (mt', (case old of None \<Rightarrow> []
         | Some x \<Rightarrow> [orderUpdateEvent Cancelled (r_side x) (resultUpdate (c_id cmd) x) (mt_dispatchSeq mt + 1) Ok]) @
       trade_events (mt_dispatchSeq mt + 1) ts vs @ [statusEvent (c_newId cmd) (r_status r) (mt_dispatchSeq mt + 1)] @
       (if old \<noteq> None then emitOrderUpdate (mt_dispatchSeq mt + 1) (c_newId cmd) (c_side cmd) r else [])) \<and>
    mt_inv mt' \<and> absb (mt_book mt') = A' \<and> ob_cfg (mt_book mt') = ob_cfg (mt_book mt) \<and> mt_dispatchSeq mt' = mt_dispatchSeq mt + 1"
proof -
  have tick: "n_type (cmd_order cmd) = Limit \<Longrightarrow> on_tick (ob_cfg (mt_book mt)) (n_price (cmd_order cmd))"
    using ok k by (simp add: cmd_ok_def cmd_order_def toNewOrder_def)
  have co: "(toNewOrder cmd)\<lparr>n_id := c_newId cmd\<rparr> = cmd_order cmd" "n_side (cmd_order cmd) = c_side cmd"
    using k by (simp_all add: cmd_order_def toNewOrder_def)
  obtain b1 where b1: "replace (mt_book mt) (c_id cmd) (cmd_order cmd) (clear (mt_buf mt)) (Some (clear (mt_victims mt))) =
        Some (r, old, b1, foldl push (clear (mt_buf mt)) ts, Some (foldl push (clear (mt_victims mt)) vs))"
      "book_inv b1" "ob_cfg b1 = ob_cfg (mt_book mt)" "absb b1 = A'"
    by (rule replace_inv [OF mt_invD(1) [OF inv] tick, of "c_id cmd" "clear (mt_buf mt)" "Some (clear (mt_victims mt))"]) (use ad in auto)
  have "distinct (map v_id (spec_orders (absb (mt_book mt))))" using book_invD(2) [OF mt_invD(1) [OF inv]] by (simp add: spec_wf_def)
  from areplace_rejected_iff [OF this ad]
  have rb: "(r_status r = RejectedUnknownOrder \<or> r_status r = RejectedInvalidQuantity \<or>
      r_status r = RejectedPriceOutOfRange \<or> r_status r = RejectedDuplicateId) = (old = None)" by simp
  show ?thesis
    unfolding dispatch_def Let_def co b1(1)
    using mt_inv_step [OF inv b1(2)] b1(3,4) trade_events_stored [OF inv, of "mt_dispatchSeq mt + 1", symmetric] co rb
    by (cases old) (auto simp: k)
qed

lemma dispatch_refines:
  assumes inv: "mt_inv mt" and ok: "cmd_ok (ob_cfg (mt_book mt)) cmd"
    and ad: "adispatch (ob_cfg (mt_book mt)) (absb (mt_book mt)) (mt_dispatchSeq mt + 1) cmd = (A', es)"
  shows "\<exists>mt'. dispatch mt cmd = Some (mt', es) \<and> mt_inv mt' \<and> absb (mt_book mt') = A' \<and>
    ob_cfg (mt_book mt') = ob_cfg (mt_book mt) \<and> mt_dispatchSeq mt' = mt_dispatchSeq mt + 1"
proof (cases "c_kind cmd")
  case New
  obtain r B ts vs where s: "asubmit (ob_cfg (mt_book mt)) (absb (mt_book mt)) (cmd_order cmd) = (r, B, ts, vs)" by (metis prod_cases4)
  show ?thesis using dispatch_New [OF inv ok New s] ad by (simp add: adispatch_def New s)
next
  case Cancel
  obtain r B where s: "acancel (absb (mt_book mt)) (c_id cmd) = (r, B)" by fastforce
  show ?thesis using dispatch_Cancel [OF inv Cancel s] ad by (simp add: adispatch_def Cancel s)
next
  case Replace
  obtain r old B ts vs where s: "areplace (ob_cfg (mt_book mt)) (absb (mt_book mt)) (c_id cmd) (cmd_order cmd) = (r, old, B, ts, vs)" by (metis prod_cases5)
  show ?thesis using dispatch_Replace [OF inv ok Replace s] ad by (simp add: adispatch_def Replace s)
qed

section \<open>Sequences of commands\<close>

text \<open>
  The drain loop of \<^verbatim>\<open>run()\<close> dispatches the commands in ring order. What it does to a sequence of
  commands depends on two facts only, that one step keeps a well-formed state well-formed and that
  it accepts the same commands afterwards; the locale states them and proves what follows.
\<close>

fun run_with :: "('s \<Rightarrow> 'c \<Rightarrow> ('s \<times> 'e list) option) \<Rightarrow> 's \<Rightarrow> 'c list \<Rightarrow> ('s \<times> 'e list) option" where
  "run_with exec s [] = Some (s, [])"
| "run_with exec s (c # cs) = do {
     (s1, es1) \<leftarrow> exec s c;
     (s2, es2) \<leftarrow> run_with exec s1 cs;
     Some (s2, es1 @ es2)
   }"

lemma run_with_append:
  "run_with exec s (cs @ ds) = do {
     (s1, es1) \<leftarrow> run_with exec s cs;
     (s2, es2) \<leftarrow> run_with exec s1 ds;
     Some (s2, es1 @ es2) }"
proof (induction cs arbitrary: s)
  case Nil
  then show ?case by (cases "run_with exec s ds") auto
next
  case (Cons c cs)
  show ?case
  proof (cases "exec s c")
    case (Some p)
    obtain s1 es1 where p: "p = (s1, es1)" by (cases p)
    show ?thesis
    proof (cases "run_with exec s1 cs")
      case (Some q)
      obtain s2 es2 where q: "q = (s2, es2)" by (cases q)
      show ?thesis using Cons.IH [of s1] \<open>exec s c = Some p\<close> Some p q by (cases "run_with exec s2 ds") auto
    qed (use Cons.IH [of s1] Some p in simp)
  qed simp
qed

locale command_processor =
  fixes exec :: "'s \<Rightarrow> 'c \<Rightarrow> ('s \<times> 'e list) option" and good :: "'s \<Rightarrow> bool" and accepts :: "'s \<Rightarrow> 'c \<Rightarrow> bool"
    and abs :: "'s \<Rightarrow> 'a" and astep :: "'a \<Rightarrow> 'c \<Rightarrow> 'a \<times> 'e list"
  assumes step_total: "good s \<Longrightarrow> accepts s c \<Longrightarrow> \<exists>s' es. exec s c = Some (s', es) \<and> good s' \<and> astep (abs s) c = (abs s', es)"
    and accepts_stable: "good s \<Longrightarrow> accepts s c \<Longrightarrow> exec s c = Some (s', es) \<Longrightarrow> accepts s' d = accepts s d"
begin

lemma run_total:
  assumes "good s" "\<forall>c \<in> set cs. accepts s c"
  shows "\<exists>s' es. run_with exec s cs = Some (s', es) \<and> good s' \<and> run_with (\<lambda>a c. Some (astep a c)) (abs s) cs = Some (abs s', es)"
  using assms
proof (induction cs arbitrary: s)
  case (Cons c cs)
  obtain s1 es1 where s1: "exec s c = Some (s1, es1)" "good s1" "astep (abs s) c = (abs s1, es1)"
    using step_total [of s c] Cons.prems by auto
  have "\<forall>d \<in> set cs. accepts s1 d" using accepts_stable [OF Cons.prems(1) _ s1(1)] Cons.prems(2) by simp
  from Cons.IH [OF s1(2) this] show ?case using s1 by auto
qed simp

lemma run_prefix:
  assumes "good s" "\<forall>c \<in> set (cs @ ds). accepts s c" "run_with exec s (cs @ ds) = Some (s', es)"
  shows "\<exists>s1 es1 es2. run_with exec s cs = Some (s1, es1) \<and> good s1 \<and> run_with exec s1 ds = Some (s', es2) \<and> es = es1 @ es2"
proof -
  obtain s1 es1 where "run_with exec s cs = Some (s1, es1)" "good s1" using run_total [of s cs] assms(1,2) by auto
  then show ?thesis using assms(3) by (cases "run_with exec s1 ds") (auto simp: run_with_append)
qed

end

definition mt_abs :: "MatchingThread \<Rightarrow> BookConfig \<times> BookSpec \<times> Seq" where
  "mt_abs mt = (ob_cfg (mt_book mt), absb (mt_book mt), mt_dispatchSeq mt)"

definition astep_mt :: "BookConfig \<times> BookSpec \<times> Seq \<Rightarrow> Command \<Rightarrow> (BookConfig \<times> BookSpec \<times> Seq) \<times> OutboundEvent list" where
  "astep_mt a cmd = (case a of (cfg, A, sq) \<Rightarrow> (case adispatch cfg A (sq + 1) cmd of (A', es) \<Rightarrow> ((cfg, A', sq + 1), es)))"

lemma dispatch_step:
  assumes "mt_inv mt" "cmd_ok (ob_cfg (mt_book mt)) cmd"
  shows "\<exists>mt' es. dispatch mt cmd = Some (mt', es) \<and> mt_inv mt' \<and> astep_mt (mt_abs mt) cmd = (mt_abs mt', es) \<and> ob_cfg (mt_book mt') = ob_cfg (mt_book mt)"
proof -
  obtain A' es where ad: "adispatch (ob_cfg (mt_book mt)) (absb (mt_book mt)) (mt_dispatchSeq mt + 1) cmd = (A', es)" by fastforce
  show ?thesis using dispatch_refines [OF assms ad] ad by (auto simp: mt_abs_def astep_mt_def)
qed

interpretation mt: command_processor dispatch mt_inv "\<lambda>mt. cmd_ok (ob_cfg (mt_book mt))" mt_abs astep_mt
  by unfold_locales (use dispatch_step in fastforce)+

lemma newMatchingThread_inv: "cfg_ok cfg \<Longrightarrow> mt_inv (newMatchingThread cfg)"
  using newOrderBook_inv [of cfg] by (simp add: mt_inv_def newMatchingThread_def buf_wf_def)

section \<open>A small thread\<close>

definition demo_cmd :: "CommandKind \<Rightarrow> OrderId \<Rightarrow> Price \<Rightarrow> Quantity \<Rightarrow> Side \<Rightarrow> Command" where
  "demo_cmd k oid p q s = \<lparr>c_id = oid, c_newId = oid, c_price = p, c_quantity = q, c_participant = oid, c_kind = k, c_side = s, c_type = Limit\<rparr>"

lemma demo_cmd_ok: "cmd_ok demo_cfg (demo_cmd k oid p q s)"
  by (simp add: cmd_ok_def demo_on_tick)

lemma demo_thread: "mt_inv (newMatchingThread demo_cfg)" "ob_cfg (mt_book (newMatchingThread demo_cfg)) = demo_cfg" "mt_dispatchSeq (newMatchingThread demo_cfg) = 0"
  using newMatchingThread_inv [OF demo_cfg_ok] newOrderBook_ok [OF demo_cfg_ok] by (simp_all add: newMatchingThread_def)

end
