(* ===== verification/Dispatch_Properties.thy ===== *)
theory Dispatch_Properties
  imports Matching_Thread
begin

text \<open>
  The properties of the matching thread: one dispatch, and runs over sequences of commands.
\<close>

lemma event_seqs [simp]: "e_globalSeq (tradeEvent t sq) = sq" "e_globalSeq (statusEvent k st sq) = sq" "e_globalSeq (orderUpdateEvent a s u sq st) = sq"
  and event_kinds [simp]: "e_kind (tradeEvent t sq) = TradeEvent" "e_kind (statusEvent k st sq) = StatusEvent" "e_kind (orderUpdateEvent a s u sq st) = OrderUpdateEvent"
  by (simp_all add: tradeEvent_def statusEvent_def orderUpdateEvent_def)

lemma adispatch_seq: "adispatch cfg A sq cmd = (A', es) \<Longrightarrow> e \<in> set es \<Longrightarrow> e_globalSeq e = sq"
  by (auto simp: adispatch_def trade_events_def emitOrderUpdate_def Let_def split: CommandKind.splits prod.splits if_splits option.splits)

text \<open>
  One dispatch terminates without undefined behaviour on every command, advances the dispatch
  counter by one, produces exactly the events of the abstract command, all stamped with the new
  counter, and keeps the invariant of the thread.
\<close>

theorem dispatch_correct:
  assumes "mt_inv mt" "cmd_ok (ob_cfg (mt_book mt)) cmd"
  shows "\<exists>mt' es. dispatch mt cmd = Some (mt', es) \<and> mt_inv mt' \<and> mt_dispatchSeq mt' = mt_dispatchSeq mt + 1 \<and>
    adispatch (ob_cfg (mt_book mt)) (absb (mt_book mt)) (mt_dispatchSeq mt + 1) cmd = (absb (mt_book mt'), es) \<and>
    (\<forall>e \<in> set es. e_globalSeq e = mt_dispatchSeq mt')"
proof -
  obtain A' es where ad: "adispatch (ob_cfg (mt_book mt)) (absb (mt_book mt)) (mt_dispatchSeq mt + 1) cmd = (A', es)" by fastforce
  show ?thesis using dispatch_refines [OF assms ad] ad adispatch_seq [OF ad] by auto
qed

theorem dispatch_correct_witness:
  "\<exists>mt' es. dispatch (newMatchingThread demo_cfg) (demo_cmd New 1 101 5 Sell) = Some (mt', es) \<and> mt_dispatchSeq mt' = 1 \<and> (\<forall>e \<in> set es. e_globalSeq e = 1)"
  using dispatch_correct [OF demo_thread(1), of "demo_cmd New 1 101 5 Sell"] demo_cmd_ok demo_thread by fastforce

text \<open>
  C4: Whatever sequence of new orders, cancels and replaces the matching thread drains from an empty book, provided
  that every limit price in it is on the tick grid (which the code does not check), it never gets stuck,
  and the book is never crossed: every bid is below every ask, ids are unique, the number of resting
  orders is bounded by the pool, every side is in price-time order, and each resting order is on the
  grid with an open quantity between one and what was submitted.
\<close>

theorem run_safe:
  assumes "cfg_ok cfg" "\<forall>cmd \<in> set cmds. cmd_ok cfg cmd"
  shows "\<exists>mt es. run_with dispatch (newMatchingThread cfg) cmds = Some (mt, es) \<and>
    (let A = absb (mt_book mt) in
       (\<forall>b \<in> set (sp_bids A). \<forall>a \<in> set (sp_asks A). v_price b < v_price a) \<and>
       distinct (map v_id (spec_orders A)) \<and> length (spec_orders A) \<le> cfg_maxOrders cfg \<and>
       (\<forall>s. sorted_wrt (prio s) (spec_side A s) \<and>
          (\<forall>r \<in> set (spec_side A s). v_side r = s \<and> 0 < v_remaining r \<and> v_remaining r \<le> v_quantity r \<and>
             cfg_inRange cfg (v_price r) \<and> on_tick cfg (v_price r))))"
proof -
  have cfg: "ob_cfg (mt_book (newMatchingThread cfg)) = cfg" using newOrderBook_ok [OF assms(1)] by (simp add: newMatchingThread_def)
  obtain mt es where run: "run_with dispatch (newMatchingThread cfg) cmds = Some (mt, es)" "mt_inv mt"
      "run_with (\<lambda>a c. Some (astep_mt a c)) (mt_abs (newMatchingThread cfg)) cmds = Some (mt_abs mt, es)"
    using mt.run_total [OF newMatchingThread_inv [OF assms(1)], of cmds] assms(2) cfg by auto
  have "fst a' = fst a" if "run_with (\<lambda>a c. Some (astep_mt a c)) a cmds = Some (a', es)" for a a' es
    using that by (induction cmds arbitrary: a es) (auto simp: astep_mt_def split: prod.splits Option.bind_splits)
  from this [OF run(3)] have "ob_cfg (mt_book mt) = cfg" by (simp add: mt_abs_def cfg)
  then have "spec_wf cfg (absb (mt_book mt))" using book_invD(2) [OF mt_invD(1) [OF run(2)]] by simp
  then show ?thesis using run(1) by (auto simp: Let_def spec_wf_def side_wf_def order_wf_def uncrossed_def)
qed

theorem run_safe_witness:
  "\<exists>mt es. run_with dispatch (newMatchingThread demo_cfg) [demo_cmd New 1 101 5 Sell, demo_cmd New 2 101 3 Buy, demo_cmd Cancel 1 0 0 Buy] = Some (mt, es) \<and>
    length (spec_orders (absb (mt_book mt))) \<le> 3"
  using run_safe [OF demo_cfg_ok, of "[demo_cmd New 1 101 5 Sell, demo_cmd New 2 101 3 Buy, demo_cmd Cancel 1 0 0 Buy]"] demo_cmd_ok
  by (fastforce simp: Let_def demo_cfg_def)

text \<open>
  The sequence numbers on the outbound stream never go back and stay within the commands
  processed: over a run of \<open>n\<close> commands they are sorted and lie between the old counter plus one
  and the old counter plus \<open>n\<close>.
\<close>

theorem run_sequence_numbers:
  assumes "mt_inv mt" "\<forall>cmd \<in> set cmds. cmd_ok (ob_cfg (mt_book mt)) cmd" "run_with dispatch mt cmds = Some (mt', es)"
  shows "sorted (map e_globalSeq es) \<and> mt_dispatchSeq mt' = mt_dispatchSeq mt + int (length cmds) \<and>
    (\<forall>e \<in> set es. mt_dispatchSeq mt < e_globalSeq e \<and> e_globalSeq e \<le> mt_dispatchSeq mt')"
  using assms
proof (induction cmds arbitrary: mt es)
  case (Cons c cs)
  obtain mt1 es1 where s: "dispatch mt c = Some (mt1, es1)" "mt_inv mt1" "ob_cfg (mt_book mt1) = ob_cfg (mt_book mt)" "astep_mt (mt_abs mt) c = (mt_abs mt1, es1)"
    using dispatch_step [of mt c] Cons.prems by auto
  obtain es2 where r: "run_with dispatch mt1 cs = Some (mt', es2)" "es = es1 @ es2"
    using Cons.prems(3) s(1) by (cases "run_with dispatch mt1 cs") auto
  have e1: "mt_dispatchSeq mt1 = mt_dispatchSeq mt + 1" "\<forall>e \<in> set es1. e_globalSeq e = mt_dispatchSeq mt + 1"
    using s(4) adispatch_seq by (auto simp: astep_mt_def mt_abs_def split: prod.splits)
  note ih = Cons.IH [OF s(2) _ r(1)]
  have "sorted (map e_globalSeq es1)" using e1(2) by (induction es1) auto
  then show ?case using ih e1 s(3) Cons.prems(2) r(2) by (auto simp: sorted_append)
qed simp

theorem run_sequence_numbers_witness:
  "\<exists>mt es. run_with dispatch (newMatchingThread demo_cfg) [demo_cmd New 1 101 5 Sell, demo_cmd Cancel 1 0 0 Buy] = Some (mt, es) \<and>
    sorted (map e_globalSeq es) \<and> mt_dispatchSeq mt = 2"
proof -
  let ?cs = "[demo_cmd New 1 101 5 Sell, demo_cmd Cancel 1 0 0 Buy]"
  have ok: "\<forall>cmd \<in> set ?cs. cmd_ok (ob_cfg (mt_book (newMatchingThread demo_cfg))) cmd" using demo_cmd_ok demo_thread(2) by simp
  obtain mt es where r: "run_with dispatch (newMatchingThread demo_cfg) ?cs = Some (mt, es)"
    using mt.run_total [OF demo_thread(1) ok] by auto
  from run_sequence_numbers [OF demo_thread(1) ok r] show ?thesis using r demo_thread(3) by auto
qed

text \<open>
  C32: The fixed trade buffer bounds what a new order (with a limit on the tick grid, on a thread
  that satisfies its invariant) can publish: of the trades that
  \<^verbatim>\<open>submitEx\<close> makes for it on the thread's book, the first 1024 are published, in order, under the new dispatch
  counter, and the others are not, while the trade counter of the book advances by all of them. The trade
  ids run on from that counter.
\<close>

theorem dispatch_publishes_trades:
  assumes "mt_inv mt" "cmd_ok (ob_cfg (mt_book mt)) cmd" "dispatch mt cmd = Some (mt', es)" "c_kind cmd = New"
  shows "\<exists>res b ts vs. submitEx (mt_book mt) (toNewOrder cmd) trades victims = Some (res, b, foldl push trades ts, map_option (\<lambda>vb. foldl push vb vs) victims) \<and>
    absb b = absb (mt_book mt') \<and>
    filter (\<lambda>e. e_kind e = TradeEvent) es = map (\<lambda>t. tradeEvent t (mt_dispatchSeq mt + 1)) (take 1024 ts) \<and>
    map t_id ts = map (\<lambda>k. ob_nextTradeId (mt_book mt) + int k) [0..<length ts] \<and>
    ob_nextTradeId (mt_book mt') = ob_nextTradeId (mt_book mt) + int (length ts)"
proof -
  have co: "cmd_order cmd = toNewOrder cmd" using assms(4) by (simp add: cmd_order_def)
  have tick: "n_type (toNewOrder cmd) = Limit \<Longrightarrow> on_tick (ob_cfg (mt_book mt)) (n_price (toNewOrder cmd))"
    using assms(2,4) by (simp add: cmd_ok_def toNewOrder_def)
  obtain b r ts vs where b: "submitEx (mt_book mt) (toNewOrder cmd) trades victims = Some (r, b, foldl push trades ts, map_option (\<lambda>vb. foldl push vb vs) victims)"
      "asubmit (ob_cfg (mt_book mt)) (absb (mt_book mt)) (cmd_order cmd) = (r, absb b, ts, vs)"
    unfolding co by (rule submitEx_inv [OF mt_invD(1) [OF assms(1)] tick, of trades victims]) auto
  have es: "es = trade_events (mt_dispatchSeq mt + 1) ts vs @
       (if r_status r \<noteq> Ok then [statusEvent (c_id cmd) (r_status r) (mt_dispatchSeq mt + 1)] else []) @
       emitOrderUpdate (mt_dispatchSeq mt + 1) (c_id cmd) (c_side cmd) r" "absb b = absb (mt_book mt')"
    using dispatch_New [OF assms(1,2,4) b(2)] assms(3) by auto
  have "sp_nextTradeId (absb b) = sp_nextTradeId (absb (mt_book mt)) + int (length ts) \<and>
      map t_id ts = map (\<lambda>k. sp_nextTradeId (absb (mt_book mt)) + int k) [0..<length ts]"
    using b(2) by (cases rule: asubmit_cases) (auto simp: amatch_trade_ids)
  moreover have "filter (\<lambda>e. e_kind e = TradeEvent) es = map (\<lambda>t. tradeEvent t (mt_dispatchSeq mt + 1)) (take 1024 ts)"
    unfolding es(1) by (simp add: trade_events_def emitOrderUpdate_def Let_def comp_def filter_map kTradeBufCapacity_def)
  ultimately show ?thesis using b(1) es(2) by (auto simp: absb_counters)
qed

definition demo_trading :: MatchingThread where
  "demo_trading = (newMatchingThread demo_cfg)\<lparr>mt_book := demo_book\<rparr>"

lemma demo_trading_facts: "mt_inv demo_trading" "mt_book demo_trading = demo_book" "mt_dispatchSeq demo_trading = 0"
  using demo_thread demo_book_facts(1) by (simp_all add: demo_trading_def mt_inv_def)

lemma pushed_one:
  assumes "foldl push demo_trades ts = push demo_trades t"
  shows "ts = [t]"
proof -
  have "buf_count (foldl push b ts) = buf_count b + length ts" for b :: "Trade buffer"
    by (induction ts arbitrary: b) (auto simp: push_def Let_def)
  from this [of demo_trades] assms have "length ts = 1" by (simp add: push_def Let_def demo_trades_def)
  then obtain x where "ts = [x]" by (auto simp: length_Suc_conv)
  then show ?thesis using assms by (auto simp: push_def Let_def demo_trades_def numeral_2_eq_2)
qed

theorem dispatch_publishes_trades_witness:
  "\<exists>mt' es. dispatch demo_trading (demo_cmd New 2 102 3 Buy) = Some (mt', es) \<and>
    filter (\<lambda>e. e_kind e = TradeEvent) es =
      [tradeEvent \<lparr>t_id = 0, t_aggressorId = 2, t_passiveId = 1, t_price = 101, t_quantity = 3, t_aggressorSide = Buy\<rparr> 1]"
proof -
  let ?c = "demo_cmd New 2 102 3 Buy" and ?t = "\<lparr>t_id = 0, t_aggressorId = 2, t_passiveId = 1, t_price = 101, t_quantity = 3, t_aggressorSide = Buy\<rparr>"
  have ok: "cmd_ok (ob_cfg (mt_book demo_trading)) ?c" using demo_cmd_ok by (simp add: demo_trading_facts demo_book_facts)
  obtain mt es where r: "dispatch demo_trading ?c = Some (mt, es)" using dispatch_step [OF demo_trading_facts(1) ok] by auto
  have ord: "toNewOrder ?c = demo_order 2 102 3 Buy Limit" by (simp add: toNewOrder_def demo_cmd_def demo_order_def)
  obtain res b' trades' where f: "submitEx demo_book (demo_order 2 102 3 Buy Limit) demo_trades None = Some (res, b', trades', None)" "trades' = push demo_trades ?t"
    by (rule demo_fill)
  have "c_kind ?c = New" by (simp add: demo_cmd_def)
  from dispatch_publishes_trades [OF demo_trading_facts(1) ok r this, of demo_trades None] obtain ts where
    ts: "foldl push demo_trades ts = push demo_trades ?t" "filter (\<lambda>e. e_kind e = TradeEvent) es = map (\<lambda>t. tradeEvent t 1) (take 1024 ts)"
    using f by (auto simp: ord demo_trading_facts)
  have "ts = [?t]" using ts(1) by (rule pushed_one)
  then show ?thesis using r ts(2) by auto
qed

end
