(* ===== verification/Book_Mirror.thy ===== *)
theory Book_Mirror
  imports Matching_Thread "HOL-Library.AList"
begin

text \<open>
  The market-data mirror of the book (\<^verbatim>\<open>marketdata/book_mirror.hpp\<close>), which a subscriber builds from
  the outbound events alone, and the proof that applying the events of a command to a mirror of the
  book gives a mirror of the book after the command.
\<close>

section \<open>marketdata/book\_mirror.hpp\<close>

record MirrorOrder =
  m_id :: OrderId
  m_price :: Price
  m_quantity :: Quantity
  m_remaining :: Quantity
  m_participant :: ParticipantId
  m_seq :: Seq

text \<open>
  A \<^verbatim>\<open>std::map\<close> is the association list of its entries in the order of its comparator, which is
  the order iteration sees: descending prices for the bids, ascending prices for the asks. The
  comparator is \<^const>\<open>better\<close>. The hash map \<^verbatim>\<open>index_\<close> is an association list whose order nothing
  depends on.
\<close>

type_synonym Levels = "(Price \<times> MirrorOrder list) list"

record Location =
  loc_side :: Side
  loc_price :: Price

record BookMirror =
  bm_bids :: Levels
  bm_asks :: Levels
  bm_index :: "(OrderId \<times> Location) list"
  bm_lastSeq :: Seq
  bm_tradeCount :: Seq

definition emptyMirror :: BookMirror where
  "emptyMirror = \<lparr>bm_bids = [], bm_asks = [], bm_index = [], bm_lastSeq = 0, bm_tradeCount = 0\<rparr>"

definition mirror_clear :: "BookMirror \<Rightarrow> BookMirror" where
  "mirror_clear M = M\<lparr>bm_bids := [], bm_asks := [], bm_index := [], bm_lastSeq := 0, bm_tradeCount := 0\<rparr>"

definition levels_of :: "BookMirror \<Rightarrow> Side \<Rightarrow> Levels" where
  "levels_of M s = (if s = Buy then bm_bids M else bm_asks M)"

definition set_levels :: "BookMirror \<Rightarrow> Side \<Rightarrow> Levels \<Rightarrow> BookMirror" where
  "set_levels M s ls = (if s = Buy then M\<lparr>bm_bids := ls\<rparr> else M\<lparr>bm_asks := ls\<rparr>)"

text \<open>\<^verbatim>\<open>levels[price].push_back(o)\<close>: the subscript inserts an empty deque at a new price.\<close>

fun levels_push :: "Side \<Rightarrow> Levels \<Rightarrow> Price \<Rightarrow> MirrorOrder \<Rightarrow> Levels" where
  "levels_push s [] p x = [(p, [x])]"
| "levels_push s ((q, xs) # ls) p x =
     (if p = q then (q, xs @ [x]) # ls
      else if better s p q then (p, [x]) # (q, xs) # ls
      else (q, xs) # levels_push s ls p x)"

fun erase_first :: "OrderId \<Rightarrow> MirrorOrder list \<Rightarrow> MirrorOrder list" where
  "erase_first k [] = []"
| "erase_first k (x # xs) = (if m_id x = k then xs else x # erase_first k xs)"

definition eraseFromLevels :: "Levels \<Rightarrow> Price \<Rightarrow> OrderId \<Rightarrow> Levels" where
  "eraseFromLevels levels p k =
     (case map_of levels p of
        None \<Rightarrow> levels
      | Some deq \<Rightarrow>
          (let deq' = erase_first k deq
           in if deq' = [] then AList.delete p levels else AList.update p deq' levels))"

definition eraseFrom :: "BookMirror \<Rightarrow> Location \<Rightarrow> OrderId \<Rightarrow> BookMirror" where
  "eraseFrom M loc k = set_levels M (loc_side loc) (eraseFromLevels (levels_of M (loc_side loc)) (loc_price loc) k)"

definition mirror_insert :: "BookMirror \<Rightarrow> Side \<Rightarrow> OrderUpdate \<Rightarrow> BookMirror" where
  "mirror_insert M side u =
     (let x = \<lparr>m_id = u_orderId u, m_price = u_price u, m_quantity = u_quantity u,
               m_remaining = u_remaining u, m_participant = u_participant u, m_seq = u_seq u\<rparr>;
          M1 = set_levels M side (levels_push side (levels_of M side) (u_price u) x)
      in M1\<lparr>bm_index := AList.update (u_orderId u) \<lparr>loc_side = side, loc_price = u_price u\<rparr> (bm_index M1)\<rparr>)"

definition mirror_erase :: "BookMirror \<Rightarrow> OrderId \<Rightarrow> BookMirror" where
  "mirror_erase M k =
     (case map_of (bm_index M) k of
        None \<Rightarrow> M
      | Some loc \<Rightarrow> (let M1 = eraseFrom M loc k in M1\<lparr>bm_index := AList.delete k (bm_index M1)\<rparr>))"

definition deque_at :: "BookMirror \<Rightarrow> Location \<Rightarrow> MirrorOrder list option" where
  "deque_at M loc = map_of (levels_of M (loc_side loc)) (loc_price loc)"

text \<open>The loop of \<^verbatim>\<open>reduce\<close> stops at the first order with the id: what it becomes, and the deque with it in place.\<close>

fun reduce_first :: "OrderId \<Rightarrow> Quantity \<Rightarrow> MirrorOrder list \<Rightarrow> (MirrorOrder \<times> MirrorOrder list) option" where
  "reduce_first k qty [] = None"
| "reduce_first k qty (x # xs) =
     (if m_id x = k then (let x' = x\<lparr>m_remaining := m_remaining x - qty\<rparr> in Some (x', x' # xs))
      else map_option (\<lambda>(x', xs'). (x', x # xs')) (reduce_first k qty xs))"

definition mirror_reduce :: "BookMirror \<Rightarrow> OrderId \<Rightarrow> Quantity \<Rightarrow> BookMirror" where
  "mirror_reduce M k qty =
     (case map_of (bm_index M) k of
        None \<Rightarrow> M
      | Some loc \<Rightarrow>
          (case deque_at M loc of
             None \<Rightarrow> M
           | Some deq \<Rightarrow>
               (case reduce_first k qty deq of
                  None \<Rightarrow> M
                | Some (x, deq') \<Rightarrow>
                    (let M1 = set_levels M (loc_side loc) (AList.update (loc_price loc) deq' (levels_of M (loc_side loc)))
                     in if m_remaining x \<le> 0
                        then (let M2 = eraseFrom M1 loc k in M2\<lparr>bm_index := AList.delete k (bm_index M2)\<rparr>)
                        else M1))))"

definition applyTrade :: "BookMirror \<Rightarrow> Trade \<Rightarrow> BookMirror" where
  "applyTrade M t = (let M1 = mirror_reduce M (t_passiveId t) (t_quantity t) in M1\<lparr>bm_tradeCount := bm_tradeCount M1 + 1\<rparr>)"

definition applyOrderUpdate :: "BookMirror \<Rightarrow> UpdateAction \<Rightarrow> Side \<Rightarrow> OrderUpdate \<Rightarrow> BookMirror" where
  "applyOrderUpdate M action side u =
     (let M1 = (if u_seq u > bm_lastSeq M then M\<lparr>bm_lastSeq := u_seq u\<rparr> else M)
      in case action of
           Rested \<Rightarrow> mirror_insert M1 side u
         | Cancelled \<Rightarrow> mirror_erase M1 (u_orderId u)
         | Replaced \<Rightarrow> mirror_erase M1 (u_orderId u)
         | Rejected \<Rightarrow> M1)"

definition mirror_apply :: "BookMirror \<Rightarrow> OutboundEvent \<Rightarrow> BookMirror" where
  "mirror_apply M e =
     (case e_payload e of
        PTrade t \<Rightarrow> applyTrade M t
      | POrderUpdate u \<Rightarrow> applyOrderUpdate M (e_action e) (e_side e) u
      | PStatusChange _ \<Rightarrow> M)"

definition levelTotalIn :: "Levels \<Rightarrow> Price \<Rightarrow> Quantity" where
  "levelTotalIn levels p = (case map_of levels p of None \<Rightarrow> 0 | Some xs \<Rightarrow> foldl (\<lambda>total x. wrap64 (total + m_remaining x)) 0 xs)"

definition levelTotal :: "BookMirror \<Rightarrow> Side \<Rightarrow> Price \<Rightarrow> Quantity" where
  "levelTotal M side p = levelTotalIn (levels_of M side) p"

definition levelOrderCountIn :: "Levels \<Rightarrow> Price \<Rightarrow> 32 word" where
  "levelOrderCountIn levels p = (case map_of levels p of None \<Rightarrow> 0 | Some xs \<Rightarrow> of_nat (length xs))"

definition levelOrderCount :: "BookMirror \<Rightarrow> Side \<Rightarrow> Price \<Rightarrow> 32 word" where
  "levelOrderCount M side p = levelOrderCountIn (levels_of M side) p"

definition remainingIn :: "Levels \<Rightarrow> Price \<Rightarrow> OrderId \<Rightarrow> Quantity" where
  "remainingIn levels p k =
     (case map_of levels p of None \<Rightarrow> 0
      | Some xs \<Rightarrow> (case find (\<lambda>x. m_id x = k) xs of None \<Rightarrow> 0 | Some x \<Rightarrow> m_remaining x))"

definition remainingOf :: "BookMirror \<Rightarrow> OrderId \<Rightarrow> Quantity" where
  "remainingOf M k =
     (case map_of (bm_index M) k of None \<Rightarrow> 0 | Some loc \<Rightarrow> remainingIn (levels_of M (loc_side loc)) (loc_price loc) k)"

definition mirror_restingOrders :: "BookMirror \<Rightarrow> nat" where
  "mirror_restingOrders M = length (bm_index M)"

definition seedCounters :: "BookMirror \<Rightarrow> Seq \<Rightarrow> Seq \<Rightarrow> BookMirror" where
  "seedCounters M lastSeq tradeCount = M\<lparr>bm_lastSeq := lastSeq, bm_tradeCount := tradeCount\<rparr>"

definition forEachOrder :: "BookMirror \<Rightarrow> (Side \<times> MirrorOrder) list" where
  "forEachOrder M =
     concat (map (\<lambda>(p, xs). map (Pair Buy) xs) (bm_bids M)) @ concat (map (\<lambda>(p, xs). map (Pair Sell) xs) (bm_asks M))"

definition forEachLevel :: "BookMirror \<Rightarrow> (Side \<times> Price \<times> Quantity \<times> 32 word) list" where
  "forEachLevel M =
     map (\<lambda>(p, xs). (Buy, p, foldl (\<lambda>total x. wrap64 (total + m_remaining x)) 0 xs, of_nat (length xs))) (bm_bids M) @
     map (\<lambda>(p, xs). (Sell, p, foldl (\<lambda>total x. wrap64 (total + m_remaining x)) 0 xs, of_nat (length xs))) (bm_asks M)"

section \<open>The levels as one list\<close>

definition flat :: "Levels \<Rightarrow> MirrorOrder list" where
  "flat ls = concat (map snd ls)"

fun levels_wf :: "Side \<Rightarrow> Levels \<Rightarrow> bool" where
  "levels_wf s [] \<longleftrightarrow> True"
| "levels_wf s ((p, xs) # ls) \<longleftrightarrow> xs \<noteq> [] \<and> (\<forall>x \<in> set xs. m_price x = p) \<and> (\<forall>q \<in> fst ` set ls. better s p q) \<and> levels_wf s ls"

lemma flat_simps [simp]: "flat [] = []" "flat ((p, xs) # ls) = xs @ flat ls"
  by (simp_all add: flat_def)

lemma better_irrefl [simp]: "\<not> better s p p"
  by (simp add: better_def)

lemma better_trans: "better s p q \<Longrightarrow> better s q r \<Longrightarrow> better s p r"
  by (auto simp: better_def split: if_splits)

lemma better_total: "p \<noteq> q \<Longrightarrow> better s p q \<or> better s q p"
  by (auto simp: better_def)

lemma levels_wf_prices: "levels_wf s ls \<Longrightarrow> x \<in> set (flat ls) \<Longrightarrow> m_price x \<in> fst ` set ls"
  by (induction ls) auto

lemma levels_wf_distinct: "levels_wf s ls \<Longrightarrow> distinct (map fst ls)"
  by (induction s ls rule: levels_wf.induct) force+

lemma levels_push_keys: "fst ` set (levels_push s ls p x) = insert p (fst ` set ls)"
  by (induction s ls p x rule: levels_push.induct) force+

lemma levels_push_wf:
  assumes "levels_wf s ls" "m_price x = p"
  shows "levels_wf s (levels_push s ls p x)"
  using assms
proof (induction ls)
  case (Cons l ls)
  obtain q xs where l: "l = (q, xs)" by (cases l)
  show ?case using Cons better_trans [of s p q] better_total [of p q s] by (auto simp: l levels_push_keys)
qed simp

lemma levels_push_flat:
  assumes "levels_wf s ls" "m_price x = p"
  shows "flat (levels_push s ls p x) =
     takeWhile (\<lambda>y. \<not> better s p (m_price y)) (flat ls) @ x # dropWhile (\<lambda>y. \<not> better s p (m_price y)) (flat ls)"
  using assms
proof (induction ls)
  case (Cons l ls)
  obtain q xs where l: "l = (q, xs)" by (cases l)
  have xs: "xs \<noteq> []" "\<And>y. y \<in> set xs \<Longrightarrow> m_price y = q" using Cons.prems by (auto simp: l)
  have low: "better s q (m_price y)" if "y \<in> set (flat ls)" for y
    using levels_wf_prices [of s ls y] that Cons.prems by (auto simp: l)
  show ?case
  proof (cases "p = q")
    case True
    have "takeWhile (\<lambda>y. \<not> better s p (m_price y)) (flat ls) = []" "dropWhile (\<lambda>y. \<not> better s p (m_price y)) (flat ls) = flat ls"
      using low True by (cases "flat ls"; force)+
    then show ?thesis using xs True by (simp add: l takeWhile_append2 dropWhile_append2)
  next
    case neq: False
    show ?thesis
    proof (cases "better s p q")
      case True
      then have "takeWhile (\<lambda>y. \<not> better s p (m_price y)) (xs @ flat ls) = []" "dropWhile (\<lambda>y. \<not> better s p (m_price y)) (xs @ flat ls) = xs @ flat ls"
        using xs by (cases xs; force)+
      then show ?thesis using True neq by (simp add: l)
    next
      case False
      then show ?thesis using Cons neq xs by (simp add: l takeWhile_append2 dropWhile_append2)
    qed
  qed
qed simp

lemma levels_lookup:
  assumes "levels_wf s ls"
  shows "map_of ls p = (let xs = filter (\<lambda>x. m_price x = p) (flat ls) in if xs = [] then None else Some xs)"
  using assms
proof (induction ls)
  case (Cons l ls)
  obtain q xs where l: "l = (q, xs)" by (cases l)
  have xs: "xs \<noteq> []" "\<And>y. y \<in> set xs \<Longrightarrow> m_price y = q" using Cons.prems by (auto simp: l)
  have "q \<notin> fst ` set ls" using Cons.prems by (auto simp: l)
  then have "filter (\<lambda>x. m_price x = q) (flat ls) = []" using levels_wf_prices [of s ls] Cons.prems by (auto simp: l filter_empty_conv)
  moreover have "filter (\<lambda>x. m_price x = p) xs = (if p = q then xs else [])" using xs by (auto simp: filter_empty_conv filter_id_conv)
  ultimately show ?case using Cons xs by (auto simp: l Let_def)
qed simp


lemma AList_delete_fresh: "k \<notin> fst ` set al \<Longrightarrow> AList.delete k al = al"
  by (induction al) auto

lemma eraseFromLevels_Cons:
  "eraseFromLevels ((q, xs) # ls) p k =
     (if p = q then (if erase_first k xs = [] then AList.delete q ls else (q, erase_first k xs) # ls)
      else (q, xs) # eraseFromLevels ls p k)"
  by (auto simp: eraseFromLevels_def Let_def split: option.splits)

lemma erase_first_filter: "distinct (map m_id xs) \<Longrightarrow> erase_first k xs = filter (\<lambda>x. m_id x \<noteq> k) xs"
  by (induction xs) (auto simp: image_iff intro!: filter_True [symmetric])

lemma eraseFromLevels_keys: "fst ` set (eraseFromLevels ls p k) \<subseteq> fst ` set ls"
proof (induction ls)
  case (Cons l ls)
  obtain q xs where l: "l = (q, xs)" by (cases l)
  have "fst ` set (AList.delete q ls) \<subseteq> fst ` set ls" by (auto simp: AList.delete_eq)
  then show ?case using Cons by (auto simp: l eraseFromLevels_Cons)
qed (simp add: eraseFromLevels_def)

lemma eraseFromLevels_correct:
  assumes "levels_wf s ls" "distinct (map m_id (flat ls))"
  shows "levels_wf s (eraseFromLevels ls p k) \<and>
    flat (eraseFromLevels ls p k) = filter (\<lambda>x. \<not> (m_price x = p \<and> m_id x = k)) (flat ls)"
  using assms
proof (induction ls)
  case (Cons l ls)
  obtain q xs where l: "l = (q, xs)" by (cases l)
  have q: "q \<notin> fst ` set ls" using levels_wf_distinct [OF Cons.prems(1)] by (simp add: l)
  have ef: "erase_first k xs = filter (\<lambda>x. m_id x \<noteq> k) xs" using Cons.prems by (simp add: l erase_first_filter)
  have ids: "\<forall>x \<in> set xs. m_price x = q" "\<forall>x \<in> set (flat ls). m_price x \<noteq> q"
    using Cons.prems(1) q levels_wf_prices [of s ls] by (auto simp: l)
  show ?case
  proof (cases "p = q")
    case True
    have "filter (\<lambda>x. \<not> (m_price x = p \<and> m_id x = k)) xs = filter (\<lambda>x. m_id x \<noteq> k) xs"
      using ids True by (intro filter_cong) auto
    moreover have "filter (\<lambda>x. \<not> (m_price x = p \<and> m_id x = k)) (flat ls) = flat ls"
      using ids(2) True by (intro filter_True) auto
    moreover have "\<forall>x \<in> set (erase_first k xs). m_price x = q" unfolding ef using ids by simp
    ultimately show ?thesis using Cons.prems True ef by (simp add: l eraseFromLevels_Cons AList_delete_fresh [OF q])
  next
    case False
    have "filter (\<lambda>x. \<not> (m_price x = p \<and> m_id x = k)) xs = xs" using ids False by (intro filter_True) auto
    moreover have "\<forall>r \<in> fst ` set (eraseFromLevels ls p k). better s q r"
    proof -
      have "\<forall>r \<in> fst ` set ls. better s q r" using Cons.prems(1) by (simp add: l)
      then show ?thesis using eraseFromLevels_keys [of ls p k] by blast
    qed
    ultimately show ?thesis using Cons False by (simp add: l eraseFromLevels_Cons)
  qed
qed (simp add: eraseFromLevels_def)

definition redx :: "OrderId \<Rightarrow> Quantity \<Rightarrow> MirrorOrder \<Rightarrow> MirrorOrder" where
  "redx k qty x = (if m_id x = k then x\<lparr>m_remaining := m_remaining x - qty\<rparr> else x)"

lemma redx_simps [simp]: "m_id (redx k qty x) = m_id x" "m_price (redx k qty x) = m_price x"
  by (simp_all add: redx_def)

lemma map_redx_id: "k \<notin> m_id ` set xs \<Longrightarrow> map (redx k qty) xs = xs"
  by (induction xs) (auto simp: redx_def)

lemma reduce_first_map:
  assumes "distinct (map m_id xs)" "x \<in> set xs" "m_id x = k"
  shows "reduce_first k qty xs = Some (redx k qty x, map (redx k qty) xs)"
  using assms
proof (induction xs)
  case (Cons y ys)
  show ?case
  proof (cases "m_id y = k")
    case True
    then have "x = y" using Cons.prems by (auto simp: image_iff)
    then show ?thesis using True Cons.prems map_redx_id [of k ys qty] by (simp add: redx_def [of k qty y] Let_def)
  next
    case False
    then show ?thesis using Cons by (auto simp: redx_def)
  qed
qed simp

lemma levels_update_redx:
  assumes "levels_wf s ls" "distinct (map m_id (flat ls))" "x \<in> set (flat ls)" "m_id x = k"
  shows "map_of ls (m_price x) = Some (filter (\<lambda>y. m_price y = m_price x) (flat ls))"
    "levels_wf s (AList.update (m_price x) (map (redx k qty) (filter (\<lambda>y. m_price y = m_price x) (flat ls))) ls)"
    "flat (AList.update (m_price x) (map (redx k qty) (filter (\<lambda>y. m_price y = m_price x) (flat ls))) ls) = map (redx k qty) (flat ls)"
proof -
  show look: "map_of ls (m_price x) = Some (filter (\<lambda>y. m_price y = m_price x) (flat ls))"
    using levels_lookup [OF assms(1)] assms(3) by (auto simp: Let_def filter_empty_conv)
  have "levels_wf s (AList.update p (map (redx k qty) (filter (\<lambda>y. m_price y = p) (flat ls))) ls) \<and>
      flat (AList.update p (map (redx k qty) (filter (\<lambda>y. m_price y = p) (flat ls))) ls) = map (redx k qty) (flat ls)"
    if "x \<in> set (flat ls)" "m_price x = p" "levels_wf s ls" "distinct (map m_id (flat ls))" for p
    using that
  proof (induction ls)
    case (Cons l ls)
    obtain q xs where l: "l = (q, xs)" by (cases l)
    have q: "q \<notin> fst ` set ls" using levels_wf_distinct [OF Cons.prems(3)] by (simp add: l)
    have ids: "\<forall>x \<in> set xs. m_price x = q" "\<forall>x \<in> set (flat ls). m_price x \<noteq> q"
      using Cons.prems(3) q levels_wf_prices [of s ls] by (auto simp: l)
    show ?case
    proof (cases "p = q")
      case True
      have "filter (\<lambda>y. m_price y = q) (xs @ flat ls) = xs" using ids by (simp add: filter_id_conv)
      moreover have "k \<notin> m_id ` set (flat ls)" using Cons.prems(1,2,4) assms(4) ids True by (auto simp: l image_iff)
      ultimately show ?thesis using Cons.prems(3) True map_redx_id [of k "flat ls" qty] by (simp add: l)
    next
      case False
      have "filter (\<lambda>y. m_price y = p) (xs @ flat ls) = filter (\<lambda>y. m_price y = p) (flat ls)" using ids False by (auto simp: filter_empty_conv)
      moreover have "x \<in> set (flat ls)" "k \<notin> m_id ` set xs" using Cons.prems(1,2,4) assms(4) ids False by (auto simp: l image_iff)
      moreover have "fst ` set (AList.update p d ls) = fst ` set ls" for d
        using levels_wf_prices [of s ls x] Cons.prems(2,3) \<open>x \<in> set (flat ls)\<close> by (simp add: l dom_update insert_absorb)
      ultimately show ?thesis using Cons False map_redx_id [of k xs qty] by (simp add: l)
    qed
  qed simp
  from this [OF assms(3) refl assms(1,2)] show
    "levels_wf s (AList.update (m_price x) (map (redx k qty) (filter (\<lambda>y. m_price y = m_price x) (flat ls))) ls)"
    "flat (AList.update (m_price x) (map (redx k qty) (filter (\<lambda>y. m_price y = m_price x) (flat ls))) ls) = map (redx k qty) (flat ls)" by auto
qed

section \<open>The mirror represents a book\<close>

definition mirror_of :: "Resting \<Rightarrow> MirrorOrder" where
  "mirror_of r = \<lparr>m_id = v_id r, m_price = v_price r, m_quantity = v_quantity r, m_remaining = v_remaining r,
     m_participant = v_participant r, m_seq = v_seq r\<rparr>"

lemma mirror_of_simps [simp]:
  "m_id (mirror_of r) = v_id r" "m_price (mirror_of r) = v_price r" "m_remaining (mirror_of r) = v_remaining r"
  by (simp_all add: mirror_of_def)

definition ids_wf :: "BookSpec \<Rightarrow> bool" where
  "ids_wf A \<longleftrightarrow> distinct (map v_id (spec_orders A)) \<and> (\<forall>s. \<forall>r \<in> set (spec_side A s). v_side r = s)"

definition location_of :: "Resting \<Rightarrow> Location" where
  "location_of r = \<lparr>loc_side = v_side r, loc_price = v_price r\<rparr>"

definition mirror_rep :: "BookMirror \<Rightarrow> BookSpec \<Rightarrow> bool" where
  "mirror_rep M A \<longleftrightarrow> ids_wf A \<and> (\<forall>s. levels_wf s (levels_of M s) \<and> flat (levels_of M s) = map mirror_of (spec_side A s)) \<and>
     distinct (map fst (bm_index M)) \<and> (\<forall>k. map_of (bm_index M) k = map_option location_of (find_order A k))"

lemma mirror_repD:
  assumes "mirror_rep M A"
  shows "ids_wf A" "levels_wf s (levels_of M s)" "flat (levels_of M s) = map mirror_of (spec_side A s)"
    "distinct (map fst (bm_index M))" "map_of (bm_index M) k = map_option location_of (find_order A k)"
  using assms by (auto simp: mirror_rep_def)

lemma ids_wf_side: "ids_wf A \<Longrightarrow> distinct (map v_id (spec_side A s))"
  by (cases s) (auto simp: ids_wf_def spec_orders_def spec_side_def)

lemma levels_of_set [simp]:
  "levels_of (set_levels M s ls) s' = (if s' = s then ls else levels_of M s')" "bm_index (set_levels M s ls) = bm_index M"
  "bm_lastSeq (set_levels M s ls) = bm_lastSeq M" "bm_tradeCount (set_levels M s ls) = bm_tradeCount M"
  by (cases s'; cases s; simp add: levels_of_def set_levels_def)+

lemma levels_of_upd [simp]:
  "levels_of (M\<lparr>bm_index := ix\<rparr>) s = levels_of M s" "levels_of (M\<lparr>bm_lastSeq := n\<rparr>) s = levels_of M s" "levels_of (M\<lparr>bm_tradeCount := n\<rparr>) s = levels_of M s"
  by (simp_all add: levels_of_def)

lemma BookSpec_sides_eqI:
  fixes A B :: BookSpec
  assumes "\<And>s. spec_side A s = spec_side B s" "sp_seq A = sp_seq B" "sp_nextTradeId A = sp_nextTradeId B"
  shows "A = B"
  using assms(1) [of Buy] assms(1) [of Sell] assms(2,3) by (simp add: spec_side_def)

lemma mirror_rep_cong:
  assumes "mirror_rep M A" "\<And>s. spec_side B s = spec_side A s" "\<And>s. levels_of M' s = levels_of M s" "bm_index M' = bm_index M"
  shows "mirror_rep M' B"
proof -
  have so: "spec_orders B = spec_orders A" using assms(2) [of Buy] assms(2) [of Sell] by (simp add: spec_orders_def spec_side_def)
  then have "find_order B = find_order A" by (simp add: find_order_def fun_eq_iff)
  then show ?thesis using assms so by (simp add: mirror_rep_def ids_wf_def)
qed

lemma mirror_rep_found:
  assumes rep: "mirror_rep M A" and f: "find_order A k = Some r"
  shows "r \<in> set (spec_side A (v_side r))" "v_id r = k"
proof -
  have ids: "ids_wf A" by (rule mirror_repD(1) [OF rep])
  then have r: "r \<in> set (spec_orders A)" "v_id r = k" using f by (simp_all add: find_order_iff ids_wf_def)
  then show "v_id r = k" by simp
  obtain s where s: "r \<in> set (spec_side A s)" using r(1) by (auto simp: spec_orders_set [of A Buy])
  then show "r \<in> set (spec_side A (v_side r))" using ids by (auto simp: ids_wf_def)
qed

lemma ids_wf_drop: "ids_wf A \<Longrightarrow> ids_wf (drop_order A k)"
  by (auto simp: ids_wf_def drop_order_def spec_orders_def spec_side_def distinct_map_filter
      simp flip: filter_append split: if_splits)

lemma spec_side_drop: "spec_side (drop_order A k) s = filter (\<lambda>r. v_id r \<noteq> k) (spec_side A s)"
  by (simp add: spec_side_def drop_order_def)

lemma other_side_id:
  assumes "ids_wf A" "x \<in> set (spec_side A s)" "y \<in> set (spec_side A t)" "s \<noteq> t"
  shows "v_id x \<noteq> v_id y"
proof -
  have "set (map v_id (spec_side A Buy)) \<inter> set (map v_id (spec_side A Sell)) = {}"
    using assms(1) by (simp add: ids_wf_def spec_orders_def spec_side_def)
  then show ?thesis using assms(2-4) by (cases s; cases t) (auto simp: image_iff)
qed

lemma erase_step_rep:
  assumes rep: "mirror_rep M A" and f: "find_order A k = Some r"
  shows "mirror_rep ((eraseFrom M (location_of r) k)\<lparr>bm_index := AList.delete k (bm_index (eraseFrom M (location_of r) k))\<rparr>) (drop_order A k)"
    (is "mirror_rep ?M' _")
proof -
  note r = mirror_rep_found [OF rep f]
  note ids = mirror_repD(1) [OF rep]
  have dm: "distinct (map m_id (flat (levels_of M s)))" for s
    using ids_wf_side [OF ids, of s] by (simp add: mirror_repD(3) [OF rep] comp_def)
  have lv: "levels_of ?M' s = (if s = v_side r then eraseFromLevels (levels_of M s) (v_price r) k else levels_of M s)" for s
    by (simp add: eraseFrom_def location_of_def)
  have same: "v_price x = v_price r" if "x \<in> set (spec_side A (v_side r))" "v_id x = k" for x
    using ids_wf_side [OF ids, of "v_side r"] that r by (auto simp: distinct_map inj_on_def)
  have other: "v_id x \<noteq> k" if "x \<in> set (spec_side A s)" "s \<noteq> v_side r" for x s
    using other_side_id [OF ids that(1) r(1) that(2)] r(2) by simp
  have "levels_wf s (levels_of ?M' s) \<and> flat (levels_of ?M' s) = map mirror_of (spec_side (drop_order A k) s)" for s
  proof (cases "s = v_side r")
    case True
    have "filter ((\<lambda>x. \<not> (m_price x = v_price r \<and> m_id x = k)) \<circ> mirror_of) (spec_side A (v_side r)) = filter (\<lambda>x. v_id x \<noteq> k) (spec_side A (v_side r))"
      using same by (intro filter_cong) auto
    then show ?thesis
      using eraseFromLevels_correct [OF mirror_repD(2) [OF rep] dm, of "v_side r" "v_price r" k]
      unfolding lv by (simp add: True mirror_repD(3) [OF rep] filter_map spec_side_drop)
  next
    case False
    then show ?thesis using other [of _ s] unfolding lv
      by (simp add: mirror_repD(2,3) [OF rep] spec_side_drop filter_id_conv)
  qed
  moreover have "map_of (bm_index ?M') j = map_option location_of (find_order (drop_order A k) j)" for j
    using mirror_repD(5) [OF rep] ids by (simp add: eraseFrom_def find_order_drop ids_wf_def delete_conv')
  moreover have "distinct (map fst (bm_index ?M'))" using mirror_repD(4) [OF rep] by (simp add: eraseFrom_def distinct_delete)
  ultimately show ?thesis using ids_wf_drop [OF ids] by (simp add: mirror_rep_def)
qed

lemma erase_rep: "mirror_rep M A \<Longrightarrow> mirror_rep (mirror_erase M k) (drop_order A k)"
proof (cases "find_order A k")
  case None
  assume rep: "mirror_rep M A"
  have "spec_side (drop_order A k) s = spec_side A s" for s
    using None by (auto simp: spec_side_drop filter_id_conv find_order_None spec_orders_set [of A s])
  then show ?thesis using mirror_rep_cong [OF rep, of "drop_order A k" M] mirror_repD(5) [OF rep, of k] None
    by (simp add: mirror_erase_def)
next
  case (Some r)
  assume rep: "mirror_rep M A"
  show ?thesis using erase_step_rep [OF rep Some] mirror_repD(5) [OF rep, of k] Some
    by (simp add: mirror_erase_def Let_def)
qed

section \<open>A fill\<close>

lemma find_map_comp: "find P (map f xs) = map_option f (find (P \<circ> f) xs)"
  by (induction xs) auto

lemma spec_orders_sides: "spec_orders A = spec_side A Buy @ spec_side A Sell"
  by (simp add: spec_orders_def spec_side_def)

definition areduce :: "BookSpec \<Rightarrow> OrderId \<Rightarrow> Quantity \<Rightarrow> BookSpec" where
  "areduce A k qty =
     (case find_order A k of
        None \<Rightarrow> A
      | Some r \<Rightarrow>
          if v_remaining r - qty \<le> 0 then drop_order A k
          else set_spec_side A (v_side r) (map (\<lambda>x. if v_id x = k then x\<lparr>v_remaining := v_remaining x - qty\<rparr> else x) (spec_side A (v_side r))))"

lemma reduce_rep:
  assumes rep: "mirror_rep M A"
  shows "mirror_rep (mirror_reduce M k qty) (areduce A k qty)"
proof (cases "find_order A k")
  case None
  then show ?thesis using rep mirror_repD(5) [OF rep, of k] by (simp add: mirror_reduce_def areduce_def)
next
  case (Some r)
  note r = mirror_rep_found [OF rep Some]
  note ids = mirror_repD(1) [OF rep]
  define f where "f = (\<lambda>x :: Resting. if v_id x = k then x\<lparr>v_remaining := v_remaining x - qty\<rparr> else x)"
  define B where "B = set_spec_side A (v_side r) (map f (spec_side A (v_side r)))"
  have dm: "distinct (map m_id (flat (levels_of M (v_side r))))"
    using ids_wf_side [OF ids, of "v_side r"] by (simp add: mirror_repD(3) [OF rep] comp_def)
  have mr: "mirror_of r \<in> set (flat (levels_of M (v_side r)))" "m_id (mirror_of r) = k" using r by (simp_all add: mirror_repD(3) [OF rep])
  note look = levels_update_redx(1) [OF mirror_repD(2) [OF rep] dm mr]
  note up = levels_update_redx(2,3) [OF mirror_repD(2) [OF rep] dm mr, where qty = qty]
  define deq where "deq = filter (\<lambda>y. m_price y = v_price r) (flat (levels_of M (v_side r)))"
  have rf: "reduce_first k qty deq = Some (redx k qty (mirror_of r), map (redx k qty) deq)"
    unfolding deq_def by (rule reduce_first_map) (use dm mr in \<open>auto simp: distinct_map_filter\<close>)
  define M1 where "M1 = set_levels M (v_side r) (AList.update (v_price r) (map (redx k qty) deq) (levels_of M (v_side r)))"
  have fs [simp]: "v_id (f x) = v_id x" "location_of (f x) = location_of x" "mirror_of (f x) = redx k qty (mirror_of x)" "v_side (f x) = v_side x" for x
    by (simp_all add: f_def location_of_def redx_def mirror_of_def)
  have sB: "spec_side B s = map f (spec_side A s)" for s
  proof (cases "s = v_side r")
    case False
    then have "v_id x \<noteq> k" if "x \<in> set (spec_side A s)" for x using that other_side_id [OF ids] r by metis
    then have "map f (spec_side A s) = spec_side A s" by (intro map_idI) (simp add: f_def)
    then show ?thesis using False by (simp add: B_def)
  qed (simp add: B_def)
  have soB: "spec_orders B = map f (spec_orders A)" using sB by (simp add: spec_orders_sides)
  have idsB: "ids_wf B" using ids by (auto simp: ids_wf_def soB sB comp_def)
  have findB: "find_order B j = map_option f (find_order A j)" for j
    by (simp add: find_order_def soB find_map_comp comp_def)
  have repB: "mirror_rep M1 B"
    unfolding mirror_rep_def
  proof (intro conjI allI)
    fix s
    show "levels_wf s (levels_of M1 s)" using mirror_repD(2) [OF rep, of s] up(1) by (simp add: M1_def deq_def)
    show "flat (levels_of M1 s) = map mirror_of (spec_side B s)"
      using mirror_repD(3) [OF rep, of s] up(2) sB [of s] by (cases "s = v_side r") (simp_all add: M1_def deq_def comp_def B_def)
  next
    fix j
    show "map_of (bm_index M1) j = map_option location_of (find_order B j)"
      using mirror_repD(5) [OF rep, of j] by (simp add: M1_def findB option.map_comp comp_def)
  qed (use idsB mirror_repD(4) [OF rep] in \<open>simp_all add: M1_def\<close>)
  have red: "mirror_reduce M k qty =
      (if v_remaining r - qty \<le> 0 then (eraseFrom M1 (location_of r) k)\<lparr>bm_index := AList.delete k (bm_index (eraseFrom M1 (location_of r) k))\<rparr> else M1)"
    using mirror_repD(5) [OF rep, of k] Some look rf r(2)
    by (simp add: mirror_reduce_def deque_at_def location_of_def deq_def M1_def Let_def redx_def [of k qty "mirror_of r"])
  show ?thesis
  proof (cases "v_remaining r - qty \<le> 0")
    case True
    have "find_order B k = Some (f r)" using findB [of k] Some by simp
    from erase_step_rep [OF repB this] have "mirror_rep (mirror_reduce M k qty) (drop_order B k)" using True by (simp add: red)
    moreover have "spec_side (drop_order A k) s = spec_side (drop_order B k) s" for s
      by (auto simp: spec_side_drop sB filter_map comp_def f_def intro!: map_idI [symmetric])
    ultimately show ?thesis using mirror_rep_cong [of _ "drop_order B k" "drop_order A k"] True Some by (simp add: areduce_def)
  next
    case False
    then show ?thesis using repB red Some by (simp add: areduce_def B_def f_def)
  qed
qed

section \<open>A new resting order\<close>

lemma insert_rep:
  assumes rep: "mirror_rep M A" and new: "find_order A (v_id r) = None" and side: "v_side r = s"
  shows "mirror_rep (mirror_insert M s (victimUpdate r)) (set_spec_side A s (rest_in s r (spec_side A s)))" (is "mirror_rep ?M' ?B")
proof -
  note ids = mirror_repD(1) [OF rep]
  have fresh: "v_id r \<notin> v_id ` set (spec_side A t)" for t using new by (auto simp: find_order_None spec_orders_set [of A t])
  have x: "\<lparr>m_id = u_orderId (victimUpdate r), m_price = u_price (victimUpdate r), m_quantity = u_quantity (victimUpdate r),
      m_remaining = u_remaining (victimUpdate r), m_participant = u_participant (victimUpdate r), m_seq = u_seq (victimUpdate r)\<rparr> = mirror_of r"
    by (simp add: victimUpdate_def mirror_of_def)
  have lv: "levels_of ?M' t = (if t = s then levels_push s (levels_of M s) (v_price r) (mirror_of r) else levels_of M t)" for t
    unfolding mirror_insert_def x Let_def by (simp add: victimUpdate_def)
  have ix: "bm_index ?M' = AList.update (v_id r) (location_of r) (bm_index M)"
    using side by (simp add: mirror_insert_def Let_def victimUpdate_def location_of_def)
  have sB: "set (spec_orders ?B) = insert r (set (spec_orders A))"
    by (simp add: spec_orders_set [of _ s] set_rest_in)
  have "distinct (map v_id (spec_orders ?B))"
  proof -
    have "distinct (map v_id (spec_side ?B t))" for t using ids_wf_side [OF ids] fresh distinct_rest_in by simp
    moreover have "v_id ` set (spec_side ?B Buy) \<inter> v_id ` set (spec_side ?B Sell) = {}"
      using ids fresh [of Buy] fresh [of Sell] by (cases s) (simp_all add: set_rest_in ids_wf_def spec_orders_sides)
    ultimately show ?thesis by (simp add: spec_orders_sides)
  qed
  then have idsB: "ids_wf ?B" using ids side by (auto simp: ids_wf_def set_rest_in)
  have "levels_wf t (levels_of ?M' t) \<and> flat (levels_of ?M' t) = map mirror_of (spec_side ?B t)" for t
    using levels_push_wf [OF mirror_repD(2) [OF rep, of s], of "mirror_of r"] levels_push_flat [OF mirror_repD(2) [OF rep, of s], of "mirror_of r"]
      mirror_repD(2,3) [OF rep]
    by (simp add: lv rest_in_def takeWhile_map dropWhile_map comp_def)
  moreover have "find_order ?B j = (if j = v_id r then Some r else find_order A j)" for j
  proof (cases "j = v_id r")
    case True
    then show ?thesis using find_order_iff [of ?B] idsB sB by (simp add: ids_wf_def)
  next
    case False
    show ?thesis
    proof (cases "find_order A j")
      case None
      then have "find_order ?B j = None" using False unfolding find_order_None sB by simp
      then show ?thesis using None False by simp
    next
      case (Some y)
      then have "find_order ?B j = Some y" using find_order_iff [of ?B j y] find_order_iff [of A j y] idsB ids sB by (simp add: ids_wf_def)
      then show ?thesis using Some False by simp
    qed
  qed
  then have "map_of (bm_index ?M') j = map_option location_of (find_order ?B j)" for j
    using mirror_repD(5) [OF rep, of j] by (simp add: ix update_conv')
  moreover have "distinct (map fst (bm_index ?M'))" using mirror_repD(4) [OF rep] by (simp add: ix distinct_update)
  ultimately show ?thesis using idsB by (simp add: mirror_rep_def)
qed

section \<open>The fills and removals of a match\<close>

fun lred :: "OrderId \<Rightarrow> Quantity \<Rightarrow> Resting list \<Rightarrow> Resting list" where
  "lred k q [] = []"
| "lred k q (x # xs) =
     (if v_id x = k then (if v_remaining x - q \<le> 0 then [] else [x\<lparr>v_remaining := v_remaining x - q\<rparr>]) else [x]) @ lred k q xs"

lemma lred_fresh: "k \<notin> v_id ` set xs \<Longrightarrow> lred k q xs = xs"
  by (induction xs) auto

lemma lred_ids: "v_id ` set (lred k q xs) \<subseteq> v_id ` set xs"
  by (induction xs) auto

lemma foldl_lred_ids: "v_id ` set (foldl (\<lambda>xs t. lred (t_passiveId t) (t_quantity t) xs) xs ts) \<subseteq> v_id ` set xs"
  by (induction ts arbitrary: xs) (auto dest!: subsetD [OF lred_ids])

lemma foldl_lred_Cons:
  assumes "v_id r \<notin> t_passiveId ` set ts"
  shows "foldl (\<lambda>xs t. lred (t_passiveId t) (t_quantity t) xs) (r # rs) ts = r # foldl (\<lambda>xs t. lred (t_passiveId t) (t_quantity t) xs) rs ts"
  using assms by (induction ts arbitrary: rs) auto

lemma amatch_passive_ids:
  assumes "amatch pol ord tid remaining rs = (ts, vs, left, rem', oc)"
  shows "t_passiveId ` set ts \<subseteq> v_id ` set rs"
  using assms
proof (induction rs arbitrary: tid remaining ts vs)
  case (Cons r rs)
  from Cons.prems(1) show ?case
  proof (cases rule: amatch_ConsE)
    case (victim vs')
    then show ?thesis using Cons.IH [OF victim(5)] by auto
  next
    case (full ts')
    then show ?thesis using Cons.IH [OF full(5)] by (auto simp: trade_with_def)
  qed (auto simp: trade_with_def)
qed auto

lemma amatch_effect:
  assumes "amatch pol ord tid remaining rs = (ts, vs, left, rem', oc)" "distinct (map v_id rs)"
  shows "foldl (\<lambda>xs v. filter (\<lambda>r. v_id r \<noteq> v_id v) xs) (foldl (\<lambda>xs t. lred (t_passiveId t) (t_quantity t) xs) rs ts) vs = left"
  using assms
proof (induction rs arbitrary: tid remaining ts vs)
  case (Cons r rs)
  have fr: "v_id r \<notin> v_id ` set rs" "filter (\<lambda>x. v_id x \<noteq> v_id r) rs = rs" using Cons.prems(2) by (auto simp: filter_id_conv image_iff)
  from Cons.prems(1) show ?case
  proof (cases rule: amatch_ConsE)
    case both
    then show ?thesis using fr by simp
  next
    case (victim vs')
    let ?rs1 = "foldl (\<lambda>xs t. lred (t_passiveId t) (t_quantity t) xs) rs ts"
    have "v_id r \<notin> t_passiveId ` set ts" using amatch_passive_ids [OF victim(5)] fr(1) by auto
    moreover have "filter (\<lambda>x. v_id x \<noteq> v_id r) ?rs1 = ?rs1"
    proof (rule filter_True, rule ballI)
      fix x assume "x \<in> set ?rs1"
      then have "v_id x \<in> v_id ` set rs" using foldl_lred_ids [of rs ts] by (rule subsetD [OF _ imageI, rotated])
      then show "v_id x \<noteq> v_id r" using fr(1) by auto
    qed
    ultimately show ?thesis using Cons.IH [OF victim(5)] Cons.prems(2) victim(6) by (simp add: foldl_lred_Cons)
  next
    case (full ts')
    then show ?thesis using Cons.IH [OF full(5)] Cons.prems(2) fr(1) by (simp add: trade_with_def lred_fresh)
  next
    case part
    then show ?thesis using fr(1) by (simp add: trade_with_def lred_fresh)
  qed auto
qed auto

lemma spec_side_areduce:
  assumes "ids_wf A"
  shows "spec_side (areduce A k q) s = lred k q (spec_side A s)"
proof (cases "find_order A k")
  case None
  then have "k \<notin> v_id ` set (spec_side A s)" by (auto simp: find_order_None spec_orders_set [of A s])
  then show ?thesis using None by (simp add: areduce_def lred_fresh)
next
  case (Some r)
  then have r: "r \<in> set (spec_orders A)" "v_id r = k" using assms by (simp_all add: find_order_iff ids_wf_def)
  then have rs: "r \<in> set (spec_side A (v_side r))" using assms by (auto simp: spec_orders_set [of A Buy] ids_wf_def)
  show ?thesis
  proof (cases "s = v_side r")
    case False
    then have "k \<notin> v_id ` set (spec_side A s)" using other_side_id [OF assms _ rs] r(2) by force
    then show ?thesis using False lred_fresh [of k "spec_side A s" q]
      by (auto simp: areduce_def Some spec_side_drop filter_id_conv)
  next
    case True
    have one: "x = r" if "x \<in> set (spec_side A s)" "v_id x = k" for x
      using ids_wf_side [OF assms, of s] that rs r(2) True by (auto simp: distinct_map inj_on_def)
    have "lred k q xs = (if v_remaining r - q \<le> 0 then filter (\<lambda>x. v_id x \<noteq> k) xs
        else map (\<lambda>x. if v_id x = k then x\<lparr>v_remaining := v_remaining x - q\<rparr> else x) xs)" if "\<forall>x \<in> set xs. v_id x = k \<longrightarrow> x = r" for xs
      using that by (induction xs) auto
    then show ?thesis using one True by (simp add: areduce_def Some spec_side_drop)
  qed
qed

lemma apply_tradeEvent [simp]: "mirror_apply M (tradeEvent t sq) = applyTrade M t"
  by (simp add: mirror_apply_def tradeEvent_def)

lemma apply_statusEvent [simp]: "mirror_apply M (statusEvent k st sq) = M"
  by (simp add: mirror_apply_def statusEvent_def)

lemma apply_updateEvent [simp]: "mirror_apply M (orderUpdateEvent a s u sq st) = applyOrderUpdate M a s u"
  by (simp add: mirror_apply_def orderUpdateEvent_def)

lemma counters [simp]:
  "bm_lastSeq (mirror_reduce M k q) = bm_lastSeq M" "bm_tradeCount (mirror_reduce M k q) = bm_tradeCount M"
  "bm_lastSeq (mirror_erase M k) = bm_lastSeq M" "bm_tradeCount (mirror_erase M k) = bm_tradeCount M"
  "bm_lastSeq (mirror_insert M s u) = bm_lastSeq M" "bm_tradeCount (mirror_insert M s u) = bm_tradeCount M"
  by (simp_all add: mirror_reduce_def mirror_erase_def mirror_insert_def eraseFrom_def Let_def split: option.splits prod.splits)

lemma foldl_trades_rep:
  assumes "mirror_rep M A"
  shows "\<exists>B. mirror_rep (foldl mirror_apply M (map (\<lambda>t. tradeEvent t sq) ts)) B \<and>
    (\<forall>s. spec_side B s = foldl (\<lambda>xs t. lred (t_passiveId t) (t_quantity t) xs) (spec_side A s) ts) \<and>
    bm_lastSeq (foldl mirror_apply M (map (\<lambda>t. tradeEvent t sq) ts)) = bm_lastSeq M \<and>
    bm_tradeCount (foldl mirror_apply M (map (\<lambda>t. tradeEvent t sq) ts)) = bm_tradeCount M + int (length ts)"
  using assms
proof (induction ts arbitrary: M A)
  case (Cons t ts)
  have "mirror_rep (applyTrade M t) (areduce A (t_passiveId t) (t_quantity t))"
    by (rule mirror_rep_cong [OF reduce_rep [OF Cons.prems]]) (simp_all add: applyTrade_def Let_def)
  from Cons.IH [OF this] show ?case
    using spec_side_areduce [OF mirror_repD(1) [OF Cons.prems]] by (auto simp: applyTrade_def Let_def)
qed auto

lemma seq_step_rep: "mirror_rep M A \<Longrightarrow> mirror_rep (if n > bm_lastSeq M then M\<lparr>bm_lastSeq := n\<rparr> else M) A"
  by (auto intro: mirror_rep_cong)

lemma foldl_victims_rep:
  assumes "mirror_rep M A" "\<forall>v \<in> set vs. v_seq v \<le> bm_lastSeq M"
  shows "\<exists>B. mirror_rep (foldl mirror_apply M (map (\<lambda>v. orderUpdateEvent Cancelled (v_side v) (victimUpdate v) sq Ok) vs)) B \<and>
    (\<forall>s. spec_side B s = foldl (\<lambda>xs v. filter (\<lambda>r. v_id r \<noteq> v_id v) xs) (spec_side A s) vs) \<and>
    bm_lastSeq (foldl mirror_apply M (map (\<lambda>v. orderUpdateEvent Cancelled (v_side v) (victimUpdate v) sq Ok) vs)) = bm_lastSeq M \<and>
    bm_tradeCount (foldl mirror_apply M (map (\<lambda>v. orderUpdateEvent Cancelled (v_side v) (victimUpdate v) sq Ok) vs)) = bm_tradeCount M"
  using assms
proof (induction vs arbitrary: M A)
  case (Cons v vs)
  have eq: "applyOrderUpdate M Cancelled (v_side v) (victimUpdate v) = mirror_erase M (v_id v)"
    using Cons.prems(2) by (simp add: applyOrderUpdate_def victimUpdate_def)
  from Cons.IH [OF erase_rep [OF Cons.prems(1), of "v_id v"]] show ?case
    using Cons.prems(2) by (auto simp: eq spec_side_drop)
qed auto

section \<open>The events of a command\<close>

definition mirror_sync :: "BookMirror \<Rightarrow> BookSpec \<Rightarrow> bool" where
  "mirror_sync M A \<longleftrightarrow> mirror_rep M A \<and> bm_lastSeq M = sp_seq A \<and> bm_tradeCount M = sp_nextTradeId A \<and> 0 \<le> sp_seq A"

lemma foldl_lred_fresh:
  "\<forall>t \<in> set ts. t_passiveId t \<notin> v_id ` set xs \<Longrightarrow> foldl (\<lambda>xs t. lred (t_passiveId t) (t_quantity t) xs) xs ts = xs"
  by (induction ts) (auto simp: lred_fresh)

lemma foldl_filter_fresh:
  assumes "\<forall>v \<in> set vs. v_id v \<notin> v_id ` set xs"
  shows "foldl (\<lambda>xs v. filter (\<lambda>r. v_id r \<noteq> v_id v) xs) xs vs = xs"
  using assms
proof (induction vs)
  case (Cons v vs)
  have "filter (\<lambda>r. v_id r \<noteq> v_id v) xs = xs" using Cons.prems by (intro filter_True) force
  then show ?case using Cons by simp
qed simp

lemma amatch_victims:
  assumes "amatch pol ord tid remaining rs = (ts, vs, left, rem', oc)"
  shows "set vs \<subseteq> set rs" "length ts + length vs \<le> length rs"
proof -
  have "set vs \<subseteq> set rs \<and> length ts + length vs \<le> length rs"
    using assms
  proof (induction rs arbitrary: tid remaining ts vs)
    case (Cons r rs)
    from Cons.prems(1) show ?case
    proof (cases rule: amatch_ConsE)
      case (victim vs')
      then show ?thesis using Cons.IH [OF victim(5)] by auto
    next
      case (full ts')
      then show ?thesis using Cons.IH [OF full(5)] by auto
    qed auto
  qed auto
  then show "set vs \<subseteq> set rs" "length ts + length vs \<le> length rs" by auto
qed

lemma asubmit_result:
  assumes "asubmit cfg A ord = (r, A', ts, vs)"
  shows "r_price r = n_price ord" "r_quantity r = n_quantity ord" "r_participant r = n_participant ord" "r_side r = n_side ord"
    "submit_guard cfg A ord = None \<Longrightarrow> r_seq r = sp_seq A + 1"
proof -
  have "r_price r = n_price ord \<and> r_quantity r = n_quantity ord \<and> r_participant r = n_participant ord \<and> r_side r = n_side ord \<and>
      (submit_guard cfg A ord = None \<longrightarrow> r_seq r = sp_seq A + 1)"
  proof (cases "submit_guard cfg A ord")
    case (Some st)
    then show ?thesis using assms by (auto simp: asubmit_def submit_result_def emptyResult_def)
  next
    case None
    obtain ts1 vs1 left rem' oc where am: "amatch (cfg_stp cfg) ord (sp_nextTradeId A) (n_quantity ord) (spec_side A (opposite (n_side ord))) = (ts1, vs1, left, rem', oc)"
      by (cases "amatch (cfg_stp cfg) ord (sp_nextTradeId A) (n_quantity ord) (spec_side A (opposite (n_side ord)))")
    show ?thesis using assms [unfolded asubmit_None [OF None am]] by (auto simp: submit_result_def split: if_splits)
  qed
  then show "r_price r = n_price ord" "r_quantity r = n_quantity ord" "r_participant r = n_participant ord" "r_side r = n_side ord"
    "submit_guard cfg A ord = None \<Longrightarrow> r_seq r = sp_seq A + 1" by auto
qed

lemma spec_wf_ids: "spec_wf cfg A \<Longrightarrow> ids_wf A"
  by (auto simp: spec_wf_def ids_wf_def side_wf_def order_wf_def)

lemma trade_events_rep:
  assumes sync: "mirror_sync M A" and wf: "spec_wf cfg A"
    and am: "amatch (cfg_stp cfg) ord tid remaining (spec_side A (opposite (n_side ord))) = (ts, vs, left, rem', oc)"
    and room: "length ts \<le> kTradeBufCapacity" "length vs \<le> kTradeBufCapacity"
  shows "\<exists>B. mirror_rep (foldl mirror_apply M (trade_events sq ts vs)) B \<and>
    spec_side B (opposite (n_side ord)) = left \<and> spec_side B (n_side ord) = spec_side A (n_side ord) \<and>
    bm_lastSeq (foldl mirror_apply M (trade_events sq ts vs)) = sp_seq A \<and>
    bm_tradeCount (foldl mirror_apply M (trade_events sq ts vs)) = sp_nextTradeId A + int (length ts)"
proof -
  let ?opp = "opposite (n_side ord)"
  let ?M1 = "foldl mirror_apply M (map (\<lambda>t. tradeEvent t sq) ts)"
  have rep: "mirror_rep M A" "bm_lastSeq M = sp_seq A" "bm_tradeCount M = sp_nextTradeId A" using sync by (simp_all add: mirror_sync_def)
  obtain B1 where B1: "mirror_rep ?M1 B1" "\<forall>s. spec_side B1 s = foldl (\<lambda>xs t. lred (t_passiveId t) (t_quantity t) xs) (spec_side A s) ts"
      "bm_lastSeq ?M1 = sp_seq A" "bm_tradeCount ?M1 = sp_nextTradeId A + int (length ts)"
    using foldl_trades_rep [OF rep(1), of sq ts] rep(2,3) by auto
  have vseq: "\<forall>v \<in> set vs. v_seq v \<le> bm_lastSeq ?M1"
    using wf amatch_victims(1) [OF am] B1(3) by (auto simp: spec_wf_def side_wf_def order_wf_def)
  obtain B2 where B2: "mirror_rep (foldl mirror_apply ?M1 (map (\<lambda>v. orderUpdateEvent Cancelled (v_side v) (victimUpdate v) sq Ok) vs)) B2"
      "\<forall>s. spec_side B2 s = foldl (\<lambda>xs v. filter (\<lambda>r. v_id r \<noteq> v_id v) xs) (spec_side B1 s) vs"
      "bm_lastSeq (foldl mirror_apply ?M1 (map (\<lambda>v. orderUpdateEvent Cancelled (v_side v) (victimUpdate v) sq Ok) vs)) = sp_seq A"
      "bm_tradeCount (foldl mirror_apply ?M1 (map (\<lambda>v. orderUpdateEvent Cancelled (v_side v) (victimUpdate v) sq Ok) vs)) = sp_nextTradeId A + int (length ts)"
    using foldl_victims_rep [OF B1(1) vseq, of sq] B1(3,4) by auto
  note ids = spec_wf_ids [OF wf]
  have "spec_side B2 ?opp = left" using B1(2) B2(2) amatch_effect [OF am ids_wf_side [OF ids]] by simp
  moreover have "spec_side B2 (n_side ord) = spec_side A (n_side ord)"
  proof -
    have ne: "n_side ord \<noteq> ?opp" by (cases "n_side ord") auto
    have "k \<notin> v_id ` set (spec_side A (n_side ord))" if "k \<in> v_id ` set (spec_side A ?opp)" for k
      using other_side_id [OF ids _ _ ne] that by force
    then have fr: "\<forall>t \<in> set ts. t_passiveId t \<notin> v_id ` set (spec_side A (n_side ord))" "\<forall>v \<in> set vs. v_id v \<notin> v_id ` set (spec_side A (n_side ord))"
      using amatch_passive_ids [OF am] amatch_victims(1) [OF am] by blast+
    show ?thesis using B1(2) B2(2) by (simp add: foldl_lred_fresh [OF fr(1)] foldl_filter_fresh [OF fr(2)])
  qed
  ultimately show ?thesis using B2 room by (auto simp: trade_events_def)
qed

lemma submit_events_sync:
  assumes sync: "mirror_sync M A" and wf: "spec_wf cfg A" and sub: "asubmit cfg A ord = (r, A', ts, vs)"
    and room: "length ts \<le> kTradeBufCapacity" "length vs \<le> kTradeBufCapacity" and sts: "\<And>N. foldl mirror_apply N sts = N"
  shows "mirror_sync (foldl mirror_apply M (trade_events sq ts vs @ sts @ emitOrderUpdate sq (n_id ord) (n_side ord) r)) A'"
  using sub
proof (cases rule: asubmit_cases)
  case (rejected st)
  have "u_seq (resultUpdate (n_id ord) r) = 0" "\<not> r_rested r" using rejected by (simp_all add: resultUpdate_def submit_result_def emptyResult_def)
  then show ?thesis using sync rejected sts
    by (simp add: trade_events_def emitOrderUpdate_def Let_def applyOrderUpdate_def mirror_sync_def)
next
  case (matched left rem' oc)
  let ?M1 = "foldl mirror_apply M (trade_events sq ts vs)" and ?r = "resting_of ord (sp_seq A + 1) rem'"
  obtain B where B: "mirror_rep ?M1 B" "spec_side B (opposite (n_side ord)) = left" "spec_side B (n_side ord) = spec_side A (n_side ord)"
      "bm_lastSeq ?M1 = sp_seq A" "bm_tradeCount ?M1 = sp_nextTradeId A + int (length ts)"
    using trade_events_rep [OF sync wf matched(2) room, of sq] by blast
  note res = asubmit_result [OF sub]
  have u: "resultUpdate (n_id ord) r = victimUpdate ?r"
    using res matched(1,4) by (simp add: resultUpdate_def victimUpdate_def resting_of_def)
  let ?M2 = "?M1\<lparr>bm_lastSeq := sp_seq A + 1\<rparr>"
  have M2: "mirror_rep ?M2 B" by (rule mirror_rep_cong [OF B(1)]) auto
  have ev: "foldl mirror_apply M (trade_events sq ts vs @ sts @ emitOrderUpdate sq (n_id ord) (n_side ord) r) =
      (if r_rested r then mirror_insert ?M2 (n_side ord) (victimUpdate ?r) else ?M2)"
    using sts B(4) res(4) by (simp add: emitOrderUpdate_def Let_def u applyOrderUpdate_def) (simp add: victimUpdate_def resting_of_def)
  have sq0: "0 \<le> sp_seq A" using sync by (simp add: mirror_sync_def)
  show ?thesis
  proof (cases "r_rested r")
    case True
    have "v_id ?r \<notin> v_id ` set (spec_orders B)"
    proof -
      have "n_id ord \<notin> v_id ` set (spec_orders A)" using submit_guard_NoneD(3) [OF matched(1)] by (simp add: find_order_None)
      moreover have "v_id ` set left \<subseteq> v_id ` set (spec_side A (opposite (n_side ord)))"
      proof -
        obtain gone where "map v_id (spec_side A (opposite (n_side ord))) = gone @ map v_id left" using amatch_left(1) [OF matched(2)] by blast
        from arg_cong [OF this, of set] show ?thesis by auto
      qed
      ultimately show ?thesis using B(2,3) by (auto simp: spec_orders_set [of _ "n_side ord"] resting_of_def)
    qed
    then have new: "find_order B (v_id ?r) = None" by (simp add: find_order_None)
    have "v_side ?r = n_side ord" by (simp add: resting_of_def)
    from insert_rep [OF M2 new this]
    have "mirror_rep (mirror_insert ?M2 (n_side ord) (victimUpdate ?r)) A'"
    proof (rule mirror_rep_cong)
      show "spec_side A' s = spec_side (set_spec_side B (n_side ord) (rest_in (n_side ord) ?r (spec_side B (n_side ord)))) s" for s
        using matched(3,7) B(2,3) True opposite_cases [of s ord] by auto
    qed auto
    then show ?thesis unfolding ev using True B(5) matched(8,9) sq0 by (simp add: mirror_sync_def)
  next
    case False
    have "spec_side A' s = spec_side B s" for s
      using matched(3,7) B(2,3) False opposite_cases [of s ord] by (cases "s = n_side ord") auto
    then have "mirror_rep ?M2 A'" by (intro mirror_rep_cong [OF M2]) auto
    then show ?thesis unfolding ev using False B(5) matched(8,9) sq0 by (simp add: mirror_sync_def)
  qed
qed

lemma cancel_events_sync:
  assumes sync: "mirror_sync M A" and wf: "spec_wf cfg A" and f: "find_order A k = Some x"
  shows "mirror_sync (mirror_apply M (orderUpdateEvent Cancelled (r_side (cancel_result x)) (resultUpdate k (cancel_result x)) sq Ok)) (drop_order A k)"
proof -
  have rep: "mirror_rep M A" "bm_lastSeq M = sp_seq A" "bm_tradeCount M = sp_nextTradeId A" "0 \<le> sp_seq A" using sync by (simp_all add: mirror_sync_def)
  note x = mirror_rep_found [OF rep(1) f]
  have "v_seq x \<le> sp_seq A" using wf x(1) by (auto simp: spec_wf_def side_wf_def order_wf_def)
  then have "mirror_apply M (orderUpdateEvent Cancelled (r_side (cancel_result x)) (resultUpdate k (cancel_result x)) sq Ok) = mirror_erase M k"
    using rep(2) by (simp add: applyOrderUpdate_def resultUpdate_def cancel_result_def)
  then show ?thesis using erase_rep [OF rep(1), of k] rep by (simp add: mirror_sync_def drop_order_def)
qed

lemma asubmit_lengths:
  assumes "asubmit cfg A ord = (r, A', ts, vs)"
  shows "length ts \<le> length (spec_orders A)" "length vs \<le> length (spec_orders A)"
proof -
  have "length ts + length vs \<le> length (spec_orders A)"
    using assms
  proof (cases rule: asubmit_cases)
    case (matched left rem' oc)
    have "length (spec_side A (opposite (n_side ord))) \<le> length (spec_orders A)" by (simp add: spec_side_def spec_orders_def)
    then show ?thesis using amatch_victims(2) [OF matched(2)] by simp
  qed simp
  then show "length ts \<le> length (spec_orders A)" "length vs \<le> length (spec_orders A)" by simp_all
qed

lemma adispatch_sync:
  assumes sync: "mirror_sync M A" and wf: "spec_wf cfg A" and small: "cfg_maxOrders cfg \<le> kTradeBufCapacity"
    and ad: "adispatch cfg A sq cmd = (A', es)"
  shows "mirror_sync (foldl mirror_apply M es) A'"
proof (cases "c_kind cmd")
  case New
  obtain r B ts vs where s: "asubmit cfg A (cmd_order cmd) = (r, B, ts, vs)" by (cases "asubmit cfg A (cmd_order cmd)")
  have "length (spec_orders A) \<le> kTradeBufCapacity" using wf small by (simp add: spec_wf_def)
  then have room: "length ts \<le> kTradeBufCapacity" "length vs \<le> kTradeBufCapacity" using asubmit_lengths [OF s] by simp_all
  have "n_id (cmd_order cmd) = c_id cmd" "n_side (cmd_order cmd) = c_side cmd" using New by (simp_all add: cmd_order_def toNewOrder_def)
  then show ?thesis using submit_events_sync [OF sync wf s room, of "if r_status r \<noteq> Ok then [statusEvent (c_id cmd) (r_status r) sq] else []" sq] ad
    by (auto simp: adispatch_def New s)
next
  case Cancel
  then show ?thesis using sync cancel_events_sync [OF sync wf, of "c_id cmd" _ sq] ad
    by (cases "find_order A (c_id cmd)") (auto simp: adispatch_def acancel_def cancel_result_def emptyResult_def)
next
  case Replace
  obtain r old B ts vs where rp: "areplace cfg A (c_id cmd) (cmd_order cmd) = (r, old, B, ts, vs)" by (cases "areplace cfg A (c_id cmd) (cmd_order cmd)")
  show ?thesis
  proof (cases "replace_guard cfg A (c_id cmd) (cmd_order cmd)")
    case (Some st)
    then show ?thesis using ad sync by (auto simp: adispatch_def Replace areplace_def trade_events_def)
  next
    case None
    obtain x where x: "find_order A (c_id cmd) = Some x" using None by (auto simp: replace_guard_def split: if_splits)
    let ?A1 = "drop_order A (c_id cmd)"
    have ac: "acancel A (c_id cmd) = (cancel_result x, ?A1)" using x by (simp add: acancel_def)
    obtain r2 A2 ts2 vs2 where s: "asubmit cfg ?A1 (cmd_order cmd) = (r2, A2, ts2, vs2)" by (cases "asubmit cfg ?A1 (cmd_order cmd)")
    have wf1: "spec_wf cfg ?A1" using acancel_wf [OF wf, of "c_id cmd"] ac by simp
    have "length (spec_orders ?A1) \<le> kTradeBufCapacity" using wf1 small by (simp add: spec_wf_def)
    then have room: "length ts2 \<le> kTradeBufCapacity" "length vs2 \<le> kTradeBufCapacity" using asubmit_lengths [OF s] by simp_all
    have "n_id (cmd_order cmd) = c_newId cmd" "n_side (cmd_order cmd) = c_side cmd" using Replace by (simp_all add: cmd_order_def toNewOrder_def)
    then show ?thesis
      using submit_events_sync [OF cancel_events_sync [OF sync wf x, of sq] wf1 s room, of "[statusEvent (c_newId cmd) (r_status r2) sq]" sq] ad
      by (auto simp: adispatch_def Replace areplace_def None ac s)
  qed
qed

end
