(* ===== verification/Mirror_Properties.thy ===== *)
theory Mirror_Properties
  imports Book_Mirror
begin

text \<open>
  The property of the book mirror: the outbound event stream determines the book.
\<close>

lemma forEachOrder_rep:
  assumes "mirror_rep M A"
  shows "forEachOrder M = map (\<lambda>r. (Buy, mirror_of r)) (sp_bids A) @ map (\<lambda>r. (Sell, mirror_of r)) (sp_asks A)"
proof -
  have "concat (map (\<lambda>(p, xs). map (Pair s) xs) ls) = map (Pair s) (flat ls)" for s :: Side and ls by (induction ls) auto
  then show ?thesis using mirror_repD(3) [OF assms, of Buy] mirror_repD(3) [OF assms, of Sell]
    by (simp add: forEachOrder_def levels_of_def spec_side_def comp_def)
qed

lemma restingOrders_rep:
  assumes "mirror_rep M A"
  shows "mirror_restingOrders M = length (spec_orders A)"
proof -
  have "fst ` set (bm_index M) = v_id ` set (spec_orders A)"
  proof (rule set_eqI)
    fix k
    show "k \<in> fst ` set (bm_index M) \<longleftrightarrow> k \<in> v_id ` set (spec_orders A)"
      using mirror_repD(5) [OF assms, of k] find_order_None [of A k] by (cases "find_order A k") (auto simp: map_of_eq_None_iff dom_map_of_conv_image_fst [symmetric])
  qed
  moreover have "distinct (map v_id (spec_orders A))" using mirror_repD(1) [OF assms] by (simp add: ids_wf_def)
  ultimately show ?thesis using mirror_repD(4) [OF assms]
    by (metis distinct_card length_map list.set_map mirror_restingOrders_def)
qed

lemma run_sync:
  assumes "mt_inv mt" "\<forall>c \<in> set cmds. cmd_ok (ob_cfg (mt_book mt)) c" "cfg_maxOrders (ob_cfg (mt_book mt)) \<le> kTradeBufCapacity"
    "run_with dispatch mt cmds = Some (mt', es)" "mirror_sync M (absb (mt_book mt))"
  shows "mirror_sync (foldl mirror_apply M es) (absb (mt_book mt'))"
  using assms
proof (induction cmds arbitrary: mt M es)
  case (Cons c cs)
  obtain mt1 es1 where s: "dispatch mt c = Some (mt1, es1)" "mt_inv mt1" "ob_cfg (mt_book mt1) = ob_cfg (mt_book mt)" "astep_mt (mt_abs mt) c = (mt_abs mt1, es1)"
    using dispatch_step [of mt c] Cons.prems by auto
  obtain es2 where r: "run_with dispatch mt1 cs = Some (mt', es2)" "es = es1 @ es2"
    using Cons.prems(4) s(1) by (cases "run_with dispatch mt1 cs") auto
  have ad: "adispatch (ob_cfg (mt_book mt)) (absb (mt_book mt)) (mt_dispatchSeq mt + 1) c = (absb (mt_book mt1), es1)"
    using s(4) by (auto simp: astep_mt_def mt_abs_def split: prod.splits)
  have "mirror_sync (foldl mirror_apply M es1) (absb (mt_book mt1))"
    by (rule adispatch_sync [OF Cons.prems(5) book_invD(2) [OF mt_invD(1) [OF Cons.prems(1)]] Cons.prems(3) ad])
  from Cons.IH [OF s(2) _ _ r(1) this] show ?case using Cons.prems(2,3) s(3) r(2) by simp
qed simp

lemma emptyMirror_sync: "cfg_ok cfg \<Longrightarrow> mirror_sync emptyMirror (absb (mt_book (newMatchingThread cfg)))"
  using newOrderBook_ok [of cfg]
  by (auto simp: mirror_sync_def newMatchingThread_def mirror_rep_def emptyMirror_def ids_wf_def spec_side_def spec_orders_def find_order_def levels_of_def)

text \<open>
  C5: A consumer of the outbound events alone knows the book, within two limits: the pool holds no more than 1024 orders,
  the size of the trade buffer (the default configuration has 2^20, and with more than 1024 trades of one command events are
  dropped), and every limit price is on the tick grid. Then folding \<^verbatim>\<open>BookMirror::apply\<close> over the events of a run from the
  empty book gives a mirror whose orders, walked best price first and oldest first, are the resting orders of the engine with
  the same ids, prices, quantities, remaining quantities, participants and sequence numbers, and whose counters agree.
\<close>

theorem mirror_reconstructs:
  assumes "cfg_ok cfg" "cfg_maxOrders cfg \<le> kTradeBufCapacity" "\<forall>c \<in> set cmds. cmd_ok cfg c"
    "run_with dispatch (newMatchingThread cfg) cmds = Some (mt, es)"
  shows "let M = foldl mirror_apply emptyMirror es; A = absb (mt_book mt) in
    forEachOrder M = map (\<lambda>r. (Buy, mirror_of r)) (sp_bids A) @ map (\<lambda>r. (Sell, mirror_of r)) (sp_asks A) \<and>
    mirror_restingOrders M = length (spec_orders A) \<and> bm_lastSeq M = ob_seq (mt_book mt) \<and> bm_tradeCount M = ob_nextTradeId (mt_book mt)"
proof -
  have cfg: "ob_cfg (mt_book (newMatchingThread cfg)) = cfg" using newOrderBook_ok [OF assms(1)] by (simp add: newMatchingThread_def)
  have "mirror_sync (foldl mirror_apply emptyMirror es) (absb (mt_book mt))"
    by (rule run_sync [OF newMatchingThread_inv [OF assms(1)] _ _ assms(4) emptyMirror_sync [OF assms(1)]]) (use assms cfg in simp_all)
  then show ?thesis
    using forEachOrder_rep [of _ "absb (mt_book mt)"] restingOrders_rep [of _ "absb (mt_book mt)"]
    by (simp add: mirror_sync_def Let_def absb_counters)
qed

theorem mirror_reconstructs_witness:
  "\<exists>mt es. run_with dispatch (newMatchingThread demo_cfg) [demo_cmd New 1 101 5 Sell, demo_cmd New 2 101 3 Buy, demo_cmd Cancel 1 0 0 Buy] = Some (mt, es) \<and>
    mirror_restingOrders (foldl mirror_apply emptyMirror es) = length (spec_orders (absb (mt_book mt))) \<and>
    bm_tradeCount (foldl mirror_apply emptyMirror es) = ob_nextTradeId (mt_book mt)"
proof -
  let ?cs = "[demo_cmd New 1 101 5 Sell, demo_cmd New 2 101 3 Buy, demo_cmd Cancel 1 0 0 Buy]"
  have ok: "\<forall>c \<in> set ?cs. cmd_ok demo_cfg c" using demo_cmd_ok by simp
  obtain mt es where r: "run_with dispatch (newMatchingThread demo_cfg) ?cs = Some (mt, es)"
    using mt.run_total [OF demo_thread(1), of ?cs] ok demo_thread(2) by auto
  have "cfg_maxOrders demo_cfg \<le> kTradeBufCapacity" by (simp add: demo_cfg_def kTradeBufCapacity_def)
  from mirror_reconstructs [OF demo_cfg_ok this ok r] show ?thesis using r by (auto simp: Let_def)
qed

end
