(* ===== verification/Wire_Codec.thy ===== *)
theory Wire_Codec
  imports Velox_Types
begin

text \<open>
  The binary wire format (\<^verbatim>\<open>protocol/wire.hpp\<close>, \<^verbatim>\<open>message_types.hpp\<close>, \<^verbatim>\<open>messages.hpp\<close>, \<^verbatim>\<open>encoder.cpp\<close>).
  A buffer is a list of bytes; a put returns the bytes it writes and a get reads at the front of the
  list it is given, so \<^verbatim>\<open>wire::getU64(p + 8)\<close> is \<open>getU64 (drop 8 p)\<close>. The locale \<open>wire_field\<close> is the contract of one
  field, interpreted for the four field types of the format; the locale \<open>framed_decoder\<close> is the contract of a
  decoder that reassembles frames, with what it then does on a stream that arrives in pieces.
\<close>

section \<open>protocol/wire.hpp\<close>

type_synonym byte = "8 word"

definition putU8 :: "byte \<Rightarrow> byte list" where
  "putU8 v = [v]"

definition getU8 :: "byte list \<Rightarrow> byte" where
  "getU8 src = src ! 0"

definition putU32 :: "32 word \<Rightarrow> byte list" where
  "putU32 v = map (\<lambda>i. ucast (drop_bit (8 * i) v)) [0..<4]"

definition getU32 :: "byte list \<Rightarrow> 32 word" where
  "getU32 src = foldl (\<lambda>v i. v OR push_bit (8 * i) (ucast (src ! i))) 0 [0..<4]"

definition putU64 :: "64 word \<Rightarrow> byte list" where
  "putU64 v = map (\<lambda>i. ucast (drop_bit (8 * i) v)) [0..<8]"

definition getU64 :: "byte list \<Rightarrow> 64 word" where
  "getU64 src = foldl (\<lambda>v i. v OR push_bit (8 * i) (ucast (src ! i))) 0 [0..<8]"

definition putI64 :: "int \<Rightarrow> byte list" where
  "putI64 v = putU64 (of_int v)"

definition getI64 :: "byte list \<Rightarrow> int" where
  "getI64 src = sint (getU64 src)"

lemma le_get_put:
  fixes v :: "'a::len word"
  assumes "n \<le> m"
  shows "foldl (\<lambda>w i. w OR push_bit (8 * i) (ucast ((map (\<lambda>i. ucast (drop_bit (8 * i) v) :: byte) [0..<m] @ rest) ! i))) 0 [0..<n] = take_bit (8 * n) v"
  using assms
proof (induction n)
  case (Suc n)
  have "take_bit (8 * n) v OR push_bit (8 * n) (take_bit 8 (drop_bit (8 * n) v)) = take_bit (8 * Suc n) v"
    by (rule bit_eqI) (auto simp: bit_simps)
  moreover have "ucast (ucast (drop_bit (8 * n) v) :: byte) = take_bit 8 (drop_bit (8 * n) v)"
    by (rule bit_eqI) (auto simp: bit_simps)
  ultimately show ?case using Suc by (simp add: nth_append)
qed simp

lemma le_get_bits:
  fixes src :: "byte list"
  shows "bit (foldl (\<lambda>w i. w OR push_bit (8 * i) (ucast (src ! i))) (0 :: 'a::len word) [0..<n]) k
    \<longleftrightarrow> k < LENGTH('a) \<and> k < 8 * n \<and> bit (src ! (k div 8)) (k mod 8)"
proof (induction n)
  case (Suc n)
  have byte: "bit (src ! n) j \<Longrightarrow> j < 8" for j using bit_imp_le_length [of "src ! n" j] by simp
  consider "k < 8 * n" | "8 * n \<le> k" "k < 8 * n + 8" | "8 * n + 8 \<le> k" by linarith
  then show ?case
  proof cases
    case 2
    then obtain j where k: "k = 8 * n + j" "j < 8" using le_Suc_ex [of "8 * n" k] by auto
    then have "k div 8 = n" "k mod 8 = j" by auto
    with Suc k show ?thesis by (auto simp: bit_simps)
  next
    case 3
    then have "8 \<le> k - 8 * n" by linarith
    then have "\<not> bit (src ! n) (k - 8 * n)" using byte by force
    with Suc 3 show ?thesis by (simp add: bit_simps)
  qed (use Suc in \<open>simp add: bit_simps\<close>)
qed simp

lemma le_put_get:
  fixes src :: "byte list"
  assumes "n \<le> length src" "8 * n \<le> LENGTH('a::len)"
  shows "map (\<lambda>i. ucast (drop_bit (8 * i) (foldl (\<lambda>w i. w OR push_bit (8 * i) (ucast (src ! i))) (0 :: 'a word) [0..<n])) :: byte) [0..<n]
    = take n src"
proof (rule nth_equalityI)
  fix i assume "i < length (map (\<lambda>i. ucast (drop_bit (8 * i) (foldl (\<lambda>w i. w OR push_bit (8 * i) (ucast (src ! i))) (0 :: 'a word) [0..<n])) :: byte) [0..<n])"
  then have i: "i < n" by simp
  show "map (\<lambda>i. ucast (drop_bit (8 * i) (foldl (\<lambda>w i. w OR push_bit (8 * i) (ucast (src ! i))) (0 :: 'a word) [0..<n])) :: byte) [0..<n] ! i = take n src ! i"
  proof (rule bit_word_eqI)
    fix k assume k: "k < LENGTH(8)"
    then have "(8 * i + k) div 8 = i" "(8 * i + k) mod 8 = k" "8 * i + k < 8 * n" using i by auto
    then show "bit (map (\<lambda>i. ucast (drop_bit (8 * i) (foldl (\<lambda>w i. w OR push_bit (8 * i) (ucast (src ! i))) (0 :: 'a word) [0..<n])) :: byte) [0..<n] ! i) k
      = bit (take n src ! i) k"
      using i k assms by (auto simp: bit_simps le_get_bits)
  qed
qed (use assms in simp)

text \<open>
  A field of the wire format: writing a value gives a fixed number of bytes, and reading at its
  place in a longer buffer gives the value back. What a decoder reads at an offset after the
  preceding fields follows for every such field.
\<close>

locale wire_field =
  fixes put :: "'v \<Rightarrow> byte list" and get :: "byte list \<Rightarrow> 'v" and width :: nat and fits :: "'v \<Rightarrow> bool"
  assumes width [simp]: "length (put v) = width"
    and get_put: "fits v \<Longrightarrow> get (put v @ rest) = v"
    and put_get: "width \<le> length src \<Longrightarrow> put (get src) = take width src"
    and fits_get: "fits (get src)"
begin

lemma get_at: "fits v \<Longrightarrow> length pre = k \<Longrightarrow> get (drop k (pre @ put v @ rest)) = v"
  by (simp add: get_put)

lemma put_inj: "fits v \<Longrightarrow> fits w \<Longrightarrow> put v @ rest = put w @ rest' \<Longrightarrow> v = w \<and> rest = rest'"
  using get_put [of v rest] get_put [of w rest'] by (metis append_eq_append_conv width)

end

interpretation u8: wire_field putU8 getU8 1 "\<lambda>_. True"
  by unfold_locales (auto simp: putU8_def getU8_def take_Suc Suc_le_length_iff)

interpretation u32: wire_field putU32 getU32 4 "\<lambda>_. True"
proof
  show "getU32 (putU32 v @ rest) = v" for v rest
    using le_get_put [of 4 4 v rest] by (simp add: getU32_def putU32_def take_bit_word_eq_self)
  show "4 \<le> length src \<Longrightarrow> putU32 (getU32 src) = take 4 src" for src
    using le_put_get [of 4 src, where 'a = 32] by (simp add: getU32_def putU32_def)
qed (simp_all add: putU32_def)

interpretation u64: wire_field putU64 getU64 8 "\<lambda>_. True"
proof
  show "getU64 (putU64 v @ rest) = v" for v rest
    using le_get_put [of 8 8 v rest] by (simp add: getU64_def putU64_def take_bit_word_eq_self)
  show "8 \<le> length src \<Longrightarrow> putU64 (getU64 src) = take 8 src" for src
    using le_put_get [of 8 src, where 'a = 64] by (simp add: getU64_def putU64_def)
qed (simp_all add: putU64_def)

lemma getI64_in_i64 [simp]: "in_i64 (getI64 src)"
  using sint_ge [of "getU64 src"] sint_lt [of "getU64 src"] by (simp add: getI64_def in_i64_def)

lemma sint_of_int64: "in_i64 v \<Longrightarrow> sint (of_int v :: 64 word) = v"
  by (simp add: in_i64_def signed_of_int signed_take_bit_int_eq_self)

interpretation i64: wire_field putI64 getI64 8 in_i64
proof
  show "in_i64 v \<Longrightarrow> getI64 (putI64 v @ rest) = v" for v rest
    using u64.get_put [of "of_int v" rest] by (simp add: getI64_def putI64_def sint_of_int64)
  show "8 \<le> length src \<Longrightarrow> putI64 (getI64 src) = take 8 src" for src
    using u64.put_get [of src] by (simp add: getI64_def putI64_def)
qed (simp_all add: putI64_def)

lemmas wire_widths = u8.width u32.width u64.width i64.width
lemmas wire_puts = u8.put_get u32.put_get u64.put_get i64.put_get
lemmas wire_gets = u8.get_put u32.get_put u64.get_put i64.get_put

section \<open>protocol/message\_types.hpp\<close>

datatype MessageType =
    MtLogin | MtNewOrder | MtCancel | MtCancelReplace | MtHeartbeat | MtLoginAck | MtLoginReject
  | MtExecReport | MtReject | MtL2Delta | MtL3Order | MtL3Fill | MtTradeTick | MtSnapshotStart
  | MtSnapshotEnd

text \<open>The underlying value of an enumerator.\<close>

fun type_code :: "MessageType \<Rightarrow> byte" where
  "type_code MtLogin = 1" | "type_code MtNewOrder = 2" | "type_code MtCancel = 3"
| "type_code MtCancelReplace = 4" | "type_code MtHeartbeat = 5" | "type_code MtLoginAck = 6"
| "type_code MtLoginReject = 7" | "type_code MtExecReport = 8" | "type_code MtReject = 9"
| "type_code MtL2Delta = 10" | "type_code MtL3Order = 11" | "type_code MtL3Fill = 12"
| "type_code MtTradeTick = 13" | "type_code MtSnapshotStart = 14" | "type_code MtSnapshotEnd = 15"

definition all_types :: "MessageType list" where
  "all_types = [MtLogin, MtNewOrder, MtCancel, MtCancelReplace, MtHeartbeat, MtLoginAck, MtLoginReject, MtExecReport,
     MtReject, MtL2Delta, MtL3Order, MtL3Fill, MtTradeTick, MtSnapshotStart, MtSnapshotEnd]"

text \<open>\<^verbatim>\<open>static_cast<MessageType>(raw)\<close> for a known value; \<^const>\<open>None\<close> is a value with no enumerator.\<close>

definition type_of_code :: "byte \<Rightarrow> MessageType option" where
  "type_of_code raw = find (\<lambda>t. type_code t = raw) all_types"

definition isKnownMessageType :: "byte \<Rightarrow> bool" where
  "isKnownMessageType raw \<longleftrightarrow> type_of_code raw \<noteq> None"

datatype L2Action = L2Add | L2Modify | L2Delete
fun l2_code :: "L2Action \<Rightarrow> byte" where
  "l2_code L2Add = 0" | "l2_code L2Modify = 1" | "l2_code L2Delete = 2"

datatype L3Action = L3Rested | L3Cancelled | L3Replaced
fun l3_code :: "L3Action \<Rightarrow> byte" where
  "l3_code L3Rested = 0" | "l3_code L3Cancelled = 1" | "l3_code L3Replaced = 2"

datatype WireOrderType = WLimit | WMarket
fun wot_code :: "WireOrderType \<Rightarrow> byte" where
  "wot_code WLimit = 0" | "wot_code WMarket = 1"

datatype WireTimeInForce = Day | WIoc | WFok
fun tif_code :: "WireTimeInForce \<Rightarrow> byte" where
  "tif_code Day = 0" | "tif_code WIoc = 1" | "tif_code WFok = 2"

fun side_code :: "Side \<Rightarrow> byte" where
  "side_code Buy = 0" | "side_code Sell = 1"

datatype ExecType = NewAck | PartialFill | Fill | ExCancelled | ExReplaced
fun exec_code :: "ExecType \<Rightarrow> byte" where
  "exec_code NewAck = 0" | "exec_code PartialFill = 1" | "exec_code Fill = 2" | "exec_code ExCancelled = 3" | "exec_code ExReplaced = 4"

datatype RejectReason =
    MalformedFrame | UnknownMessageType | InvalidField | UnknownInstrument | NotAuthenticated
  | DuplicateSeq | SequenceGap | RingFullReason | EngineReject | InvalidTifCombination | AuthFailed | AlreadyAuthenticated
fun reason_code :: "RejectReason \<Rightarrow> byte" where
  "reason_code MalformedFrame = 0" | "reason_code UnknownMessageType = 1" | "reason_code InvalidField = 2"
| "reason_code UnknownInstrument = 3" | "reason_code NotAuthenticated = 4" | "reason_code DuplicateSeq = 5"
| "reason_code SequenceGap = 6" | "reason_code RingFullReason = 7" | "reason_code EngineReject = 8"
| "reason_code InvalidTifCombination = 9" | "reason_code AuthFailed = 10" | "reason_code AlreadyAuthenticated = 11"

definition kFrameHeaderSize :: nat where "kFrameHeaderSize = 4"
definition kMsgTypeSize :: nat where "kMsgTypeSize = 1"
definition kMaxFrame :: nat where "kMaxFrame = 64"

fun expectedPayloadSize :: "MessageType \<Rightarrow> nat" where
  "expectedPayloadSize MtLogin = 48"
| "expectedPayloadSize MtNewOrder = 39"
| "expectedPayloadSize MtCancel = 20"
| "expectedPayloadSize MtCancelReplace = 36"
| "expectedPayloadSize MtHeartbeat = 8"
| "expectedPayloadSize MtLoginAck = 9"
| "expectedPayloadSize MtLoginReject = 2"
| "expectedPayloadSize MtExecReport = 49"
| "expectedPayloadSize MtReject = 17"
| "expectedPayloadSize MtL2Delta = 34"
| "expectedPayloadSize MtL3Order = 54"
| "expectedPayloadSize MtL3Fill = 52"
| "expectedPayloadSize MtTradeTick = 53"
| "expectedPayloadSize MtSnapshotStart = 20"
| "expectedPayloadSize MtSnapshotEnd = 16"

lemma type_of_code_code [simp]: "type_of_code (type_code t) = Some t"
  by (cases t) (simp_all add: type_of_code_def all_types_def)

lemma type_of_code_Some: "type_of_code raw = Some t \<Longrightarrow> type_code t = raw"
  by (auto simp: type_of_code_def find_Some_iff)

lemma payload_fits: "kMsgTypeSize + expectedPayloadSize t \<le> kMaxFrame" "1 \<le> kMsgTypeSize + expectedPayloadSize t"
  by (cases t; simp add: kMsgTypeSize_def kMaxFrame_def)+

section \<open>protocol/messages.hpp\<close>

type_synonym InstrumentId = "32 word"

record LoginMsg =
  lg_participantId :: ParticipantId
  lg_token :: "byte list"
  lg_clientSeqNum :: "64 word"

record NewOrderMsg =
  no_clientSeqNum :: "64 word"
  no_orderId :: OrderId
  no_instrumentId :: InstrumentId
  no_side :: Side
  no_orderType :: WireOrderType
  no_price :: Price
  no_quantity :: Quantity
  no_timeInForce :: WireTimeInForce

record CancelMsg =
  cx_clientSeqNum :: "64 word"
  cx_orderId :: OrderId
  cx_instrumentId :: InstrumentId

record CancelReplaceMsg =
  cr_clientSeqNum :: "64 word"
  cr_orderId :: OrderId
  cr_instrumentId :: InstrumentId
  cr_newPrice :: Price
  cr_newQuantity :: Quantity

record HeartbeatMsg =
  hb_marker :: "64 word"

record LoginAckMsg =
  la_serverSeq :: Seq
  la_status :: byte

text \<open>
  The decoder does not validate \<^verbatim>\<open>reason\<close> and \<^verbatim>\<open>execType\<close>: any byte is cast. These fields hold the
  underlying byte of the enumeration.
\<close>

record LoginRejectMsg =
  lr_reason :: byte
  lr_reserved :: byte

record ExecReportMsg =
  er_orderId :: OrderId
  er_execType :: byte
  er_execQty :: Quantity
  er_leavesQty :: Quantity
  er_tradePrice :: Price
  er_tradeId :: int
  er_globalSeq :: Seq

record RejectMsg =
  rj_orderId :: OrderId
  rj_reason :: byte
  rj_globalSeq :: Seq

section \<open>protocol/encoder.cpp\<close>

text \<open>An encoder writes consecutive fields to \<^verbatim>\<open>dst\<close>; the model returns the bytes written.\<close>

definition writeHeader :: "MessageType \<Rightarrow> nat \<Rightarrow> byte list" where
  "writeHeader type payloadSize = putU32 (of_nat (kMsgTypeSize + payloadSize)) @ putU8 (type_code type)"

definition encodeLogin :: "LoginMsg \<Rightarrow> byte list" where
  "encodeLogin m = writeHeader MtLogin 48 @ putI64 (lg_participantId m) @ lg_token m @ putU64 (lg_clientSeqNum m)"

definition encodeNewOrder :: "NewOrderMsg \<Rightarrow> byte list" where
  "encodeNewOrder m = writeHeader MtNewOrder 39 @ putU64 (no_clientSeqNum m) @ putI64 (no_orderId m) @
     putU32 (no_instrumentId m) @ putU8 (side_code (no_side m)) @ putU8 (wot_code (no_orderType m)) @
     putI64 (no_price m) @ putI64 (no_quantity m) @ putU8 (tif_code (no_timeInForce m))"

definition encodeCancel :: "CancelMsg \<Rightarrow> byte list" where
  "encodeCancel m = writeHeader MtCancel 20 @ putU64 (cx_clientSeqNum m) @ putI64 (cx_orderId m) @ putU32 (cx_instrumentId m)"

definition encodeCancelReplace :: "CancelReplaceMsg \<Rightarrow> byte list" where
  "encodeCancelReplace m = writeHeader MtCancelReplace 36 @ putU64 (cr_clientSeqNum m) @ putI64 (cr_orderId m) @
     putU32 (cr_instrumentId m) @ putI64 (cr_newPrice m) @ putI64 (cr_newQuantity m)"

definition encodeHeartbeat :: "HeartbeatMsg \<Rightarrow> byte list" where
  "encodeHeartbeat m = writeHeader MtHeartbeat 8 @ putU64 (hb_marker m)"

definition encodeLoginAck :: "LoginAckMsg \<Rightarrow> byte list" where
  "encodeLoginAck m = writeHeader MtLoginAck 9 @ putI64 (la_serverSeq m) @ putU8 (la_status m)"

definition encodeLoginReject :: "LoginRejectMsg \<Rightarrow> byte list" where
  "encodeLoginReject m = writeHeader MtLoginReject 2 @ putU8 (lr_reason m) @ putU8 (lr_reserved m)"

definition encodeExecReport :: "ExecReportMsg \<Rightarrow> byte list" where
  "encodeExecReport m = writeHeader MtExecReport 49 @ putI64 (er_orderId m) @ putU8 (er_execType m) @
     putI64 (er_execQty m) @ putI64 (er_leavesQty m) @ putI64 (er_tradePrice m) @ putI64 (er_tradeId m) @ putI64 (er_globalSeq m)"

definition encodeReject :: "RejectMsg \<Rightarrow> byte list" where
  "encodeReject m = writeHeader MtReject 17 @ putI64 (rj_orderId m) @ putU8 (rj_reason m) @ putI64 (rj_globalSeq m)"

section \<open>Frames\<close>

text \<open>The bytes of one frame with payload \<open>p\<close>, as both encoders write it.\<close>

definition frame_bytes :: "MessageType \<Rightarrow> byte list \<Rightarrow> byte list" where
  "frame_bytes t p = writeHeader t (expectedPayloadSize t) @ p"

definition frame_len :: "MessageType \<Rightarrow> nat" where
  "frame_len t = kMsgTypeSize + expectedPayloadSize t"

lemma frame_len_le: "1 \<le> frame_len t" "frame_len t \<le> kMaxFrame"
  using payload_fits by (auto simp: frame_len_def)

lemma unat_frame_len: "unat (of_nat (frame_len t) :: 32 word) = frame_len t"
  using frame_len_le(2) [of t] by (simp add: unat_of_nat kMaxFrame_def)

lemma frame_bytes_length: "length p = expectedPayloadSize t \<Longrightarrow> length (frame_bytes t p) = kFrameHeaderSize + frame_len t"
  by (simp add: frame_bytes_def writeHeader_def frame_len_def kFrameHeaderSize_def kMsgTypeSize_def)

lemma frame_bytes_nonempty: "frame_bytes t p \<noteq> []"
  by (simp add: frame_bytes_def writeHeader_def putU8_def)

text \<open>What the header checks read from a buffer that starts with a frame.\<close>

lemma frame_reads:
  assumes "b = frame_bytes t p @ rest" "length p = expectedPayloadSize t"
  shows "getU32 b = of_nat (frame_len t)" "getU8 (drop kFrameHeaderSize b) = type_code t"
    "drop (kFrameHeaderSize + kMsgTypeSize) b = p @ rest" "kFrameHeaderSize \<le> length b"
    "drop (kFrameHeaderSize + frame_len t) b = rest" "kFrameHeaderSize + frame_len t \<le> length b"
proof -
  have b: "b = putU32 (of_nat (frame_len t)) @ putU8 (type_code t) @ p @ rest"
    using assms(1) by (simp add: frame_bytes_def writeHeader_def frame_len_def)
  show "getU32 b = of_nat (frame_len t)" "getU8 (drop kFrameHeaderSize b) = type_code t"
    "drop (kFrameHeaderSize + kMsgTypeSize) b = p @ rest" "kFrameHeaderSize \<le> length b"
    by (simp_all add: b kFrameHeaderSize_def kMsgTypeSize_def wire_gets)
  show "drop (kFrameHeaderSize + frame_len t) b = rest" "kFrameHeaderSize + frame_len t \<le> length b"
    using frame_bytes_length [OF assms(2)] assms(1) by simp_all
qed

lemma frame_prefix_reads:
  assumes "frame_bytes t p = b @ suf" "suf \<noteq> []" "length p = expectedPayloadSize t" "kFrameHeaderSize \<le> length b"
  shows "getU32 b = of_nat (frame_len t)" "length b < kFrameHeaderSize + frame_len t"
proof -
  have "b = putU32 (of_nat (frame_len t)) @ drop 4 b"
    using assms(1,4) append_eq_append_conv_if [of "putU32 (of_nat (frame_len t))" "putU8 (type_code t) @ p" b suf]
    by (simp add: frame_bytes_def writeHeader_def frame_len_def kFrameHeaderSize_def)
  then show "getU32 b = of_nat (frame_len t)" by (metis wire_gets(2))
  show "length b < kFrameHeaderSize + frame_len t"
    using frame_bytes_length [OF assms(3)] assms(1,2) by (metis length_append length_greater_0_conv less_add_same_cancel1)
qed

text \<open>A buffer is the concatenation of its consecutive fields.\<close>

fun wire_fields :: "nat list \<Rightarrow> 'a list \<Rightarrow> 'a list" where
  "wire_fields [] p = []"
| "wire_fields (w # ws) p = take w p @ wire_fields ws (drop w p)"

lemma wire_fields_take: "wire_fields ws p = take (sum_list ws) p"
  by (induction ws arbitrary: p) (simp_all add: take_add)

text \<open>A buffer that passes the header checks starts with a frame.\<close>

lemma frame_recovered:
  assumes "kFrameHeaderSize + frame_len t \<le> length b" "unat (getU32 b) = frame_len t" "type_code t = getU8 (drop kFrameHeaderSize b)"
  shows "b = frame_bytes t (take (expectedPayloadSize t) (drop (kFrameHeaderSize + kMsgTypeSize) b)) @ drop (kFrameHeaderSize + frame_len t) b"
proof -
  have "of_nat (frame_len t) = getU32 b" using arg_cong [OF assms(2), of "of_nat :: nat \<Rightarrow> 32 word"] by simp
  then have "frame_bytes t (take (expectedPayloadSize t) (drop (kFrameHeaderSize + kMsgTypeSize) b)) = wire_fields [4, 1, expectedPayloadSize t] b"
    using assms(1,3) wire_puts(2) [of b] wire_puts(1) [of "drop 4 b"]
    by (simp add: frame_bytes_def writeHeader_def frame_len_def kFrameHeaderSize_def kMsgTypeSize_def del: of_nat_Suc of_nat_add)
  also have "\<dots> = take (kFrameHeaderSize + frame_len t) b"
    by (simp add: wire_fields_take frame_len_def kFrameHeaderSize_def kMsgTypeSize_def)
  finally show ?thesis by simp
qed

section \<open>Reading frames from a byte stream\<close>

datatype 'm poll = Got 'm | Wait | Bad

text \<open>
  The loop every client of a decoder runs: poll until there is no whole frame left. A bad frame ends it
  without a result.
\<close>

partial_function (option) drain_with :: "('d \<Rightarrow> 'm poll \<times> 'd) \<Rightarrow> 'd \<Rightarrow> ('m list \<times> 'd) option" where
  "drain_with poll d =
     (case poll d of
        (Got m, d') \<Rightarrow> Option.bind (drain_with poll d') (\<lambda>(ms, d''). Some (m # ms, d''))
      | (Wait, d') \<Rightarrow> Some ([], d')
      | (Bad, d') \<Rightarrow> None)"

text \<open>Each read from the connection is fed and then drained; \<^const>\<open>None\<close> is a refused read or a bad frame.\<close>

primrec receive_with :: "('d \<Rightarrow> byte list \<Rightarrow> bool \<times> 'd) \<Rightarrow> ('d \<Rightarrow> 'm poll \<times> 'd) \<Rightarrow> 'd \<Rightarrow> byte list list \<Rightarrow> ('m list \<times> 'd) option" where
  "receive_with feedf poll d [] = Some ([], d)"
| "receive_with feedf poll d (c # cs) =
     (let (ok, d1) = feedf d c
      in if \<not> ok then None
         else Option.bind (drain_with poll d1) (\<lambda>(ms, d2).
                Option.bind (receive_with feedf poll d2 cs) (\<lambda>(ms', d'). Some (ms @ ms', d'))))"

lemma stream_prefix:
  "concat (map f ms) = s @ rest \<Longrightarrow>
   \<exists>k tail. k \<le> length ms \<and> s = concat (map f (take k ms)) @ tail \<and> tail @ rest = concat (map f (drop k ms)) \<and>
     (tail = [] \<or> (\<exists>suf. k < length ms \<and> suf \<noteq> [] \<and> f (ms ! k) = tail @ suf))"
proof (induction ms arbitrary: s)
  case (Cons m ms)
  show ?case
  proof (cases "length (f m) \<le> length s")
    case True
    with Cons.prems obtain s' where s: "s = f m @ s'" "concat (map f ms) = s' @ rest"
      by (auto simp: append_eq_append_conv2)
    from Cons.IH [OF s(2)] obtain k tail where "k \<le> length ms" "s' = concat (map f (take k ms)) @ tail"
      "tail @ rest = concat (map f (drop k ms))" "tail = [] \<or> (\<exists>suf. k < length ms \<and> suf \<noteq> [] \<and> f (ms ! k) = tail @ suf)"
      by blast
    with s(1) show ?thesis by (intro exI [of _ "Suc k"] exI [of _ tail]) auto
  next
    case False
    with Cons.prems obtain suf where "f m = s @ suf" "suf \<noteq> []" by (auto simp: append_eq_append_conv2)
    with Cons.prems show ?thesis by (intro exI [of _ 0] exI [of _ s]) auto
  qed
qed simp

text \<open>The bytes held back are the beginning of the frame that comes next.\<close>

definition pending :: "('m \<Rightarrow> byte list) \<Rightarrow> byte list \<Rightarrow> 'm list \<Rightarrow> bool" where
  "pending enc tail ms \<longleftrightarrow> tail = [] \<or> (\<exists>m ms' suf. ms = m # ms' \<and> suf \<noteq> [] \<and> enc m = tail @ suf)"

text \<open>
  The contract of a reassembling decoder: a whole frame at the front of its buffer is returned and
  consumed, the beginning of a frame makes it wait, and what fits is buffered. The stream lemma holds for
  every such decoder.
\<close>

locale framed_decoder =
  fixes poll :: "'d \<Rightarrow> 'm poll \<times> 'd" and feedf :: "'d \<Rightarrow> byte list \<Rightarrow> bool \<times> 'd"
    and buf :: "'d \<Rightarrow> byte list" and with_buf :: "'d \<Rightarrow> byte list \<Rightarrow> 'd" and live :: "'d \<Rightarrow> bool"
    and ok :: "'d \<Rightarrow> 'm \<Rightarrow> bool" and enc :: "'m \<Rightarrow> byte list" and cap frame_max :: nat
  assumes buf_with: "buf (with_buf d b) = b" "live (with_buf d b) = live d" "ok (with_buf d b) m = ok d m"
      "with_buf (with_buf d b) b' = with_buf d b'"
    and frame: "live d \<Longrightarrow> ok d m \<Longrightarrow> buf d = enc m @ rest \<Longrightarrow> poll d = (Got m, with_buf d rest)"
    and partial: "live d \<Longrightarrow> ok d m \<Longrightarrow> enc m = buf d @ suf \<Longrightarrow> suf \<noteq> [] \<Longrightarrow> poll d = (Wait, d)"
    and empty: "live d \<Longrightarrow> buf d = [] \<Longrightarrow> poll d = (Wait, d)"
    and feed_fits: "live d \<Longrightarrow> length (buf d) + length c \<le> cap \<Longrightarrow> feedf d c = (True, with_buf d (buf d @ c))"
    and enc_size: "ok d m \<Longrightarrow> length (enc m) \<le> frame_max" "enc m \<noteq> []"
    and with_same: "with_buf d (buf d) = d"
begin

lemma drain_stream:
  assumes "live d" "\<forall>m\<in>set ms. ok d m" "buf d = concat (map enc ms) @ tail"
    "tail = [] \<or> (\<exists>m suf. ok d m \<and> suf \<noteq> [] \<and> enc m = tail @ suf)"
  shows "drain_with poll d = Some (ms, with_buf d tail)"
  using assms
proof (induction ms arbitrary: d)
  case Nil
  have "poll d = (Wait, d)"
  proof (cases "tail = []")
    case True
    then show ?thesis using Nil empty by simp
  next
    case False
    then show ?thesis using Nil partial by auto
  qed
  then show ?case using Nil(3) with_same [of d] by (simp add: drain_with.simps)
next
  case (Cons m ms)
  have "poll d = (Got m, with_buf d (concat (map enc ms) @ tail))"
    using frame [of d m "concat (map enc ms) @ tail"] Cons.prems by simp
  moreover have "drain_with poll (with_buf d (concat (map enc ms) @ tail)) = Some (ms, with_buf d tail)"
    using Cons.IH [of "with_buf d (concat (map enc ms) @ tail)"] Cons.prems by (simp add: buf_with)
  ultimately show ?case by (simp add: drain_with.simps [of poll d])
qed

lemma pending_short:
  assumes "pending enc tail ms" "\<forall>m\<in>set ms. ok d m"
  shows "length tail \<le> frame_max"
proof (cases "tail = []")
  case False
  with assms obtain m suf where "ok d m" "suf \<noteq> []" "enc m = tail @ suf" by (auto simp: pending_def)
  then show ?thesis using enc_size(1) [of d m] by simp
qed simp

lemma receive_stream:
  assumes "live d" "\<forall>m\<in>set ms. ok d m" "buf d @ concat cs = concat (map enc ms)" "pending enc (buf d) ms"
    "\<forall>c\<in>set cs. length c + frame_max \<le> cap"
  shows "receive_with feedf poll d cs = Some (ms, with_buf d [])"
  using assms
proof (induction cs arbitrary: d ms)
  case Nil
  have "ms = []"
  proof (cases ms)
    case (Cons m ms')
    with Nil have "buf d = enc m @ concat (map enc ms')" "buf d = [] \<or> (\<exists>suf. suf \<noteq> [] \<and> enc m = buf d @ suf)"
      by (auto simp: pending_def)
    then show ?thesis using enc_size(2) [of m] by auto
  qed simp
  then show ?case using Nil with_same [of d] by simp
next
  case (Cons c cs)
  have "length (buf d) + length c \<le> cap" using pending_short [OF Cons.prems(4,2)] Cons.prems(5) by simp
  with Cons.prems(1) have fed: "feedf d c = (True, with_buf d (buf d @ c))" by (rule feed_fits)
  from Cons.prems(3) have "concat (map enc ms) = (buf d @ c) @ concat cs" by simp
  from stream_prefix [OF this] obtain k tail where k: "k \<le> length ms" "buf d @ c = concat (map enc (take k ms)) @ tail"
    "tail @ concat cs = concat (map enc (drop k ms))" "tail = [] \<or> (\<exists>suf. k < length ms \<and> suf \<noteq> [] \<and> enc (ms ! k) = tail @ suf)"
    by blast
  have oks: "\<forall>m\<in>set (take k ms). ok d m" "\<forall>m\<in>set (drop k ms). ok d m"
    using Cons.prems(2) by (auto dest: in_set_takeD in_set_dropD)
  have next_ok: "tail = [] \<or> (\<exists>m suf. ok d m \<and> suf \<noteq> [] \<and> enc m = tail @ suf)"
    using k(4) Cons.prems(2) nth_mem by blast
  have pend: "pending enc tail (drop k ms)" using k(4) by (auto simp: pending_def Cons_nth_drop_Suc [symmetric])
  have "drain_with poll (with_buf d (buf d @ c)) = Some (take k ms, with_buf d tail)"
    using drain_stream [of "with_buf d (buf d @ c)" "take k ms" tail] Cons.prems(1) oks(1) k(2) next_ok by (simp add: buf_with)
  moreover have "receive_with feedf poll (with_buf d tail) cs = Some (drop k ms, with_buf d [])"
    using Cons.IH [of "with_buf d tail" "drop k ms"] Cons.prems(1,5) oks(2) k(3) pend by (simp add: buf_with)
  ultimately show ?case using fed by simp
qed

end

lemma drop_wire [simp]:
  "drop (Suc 0) (putU8 v @ xs) = xs" "8 \<le> k \<Longrightarrow> drop k (putU64 a @ xs) = drop (k - 8) xs"
  "8 \<le> k \<Longrightarrow> drop k (putI64 b @ xs) = drop (k - 8) xs" "4 \<le> k \<Longrightarrow> drop k (putU32 c @ xs) = drop (k - 4) xs"
  "1 \<le> k \<Longrightarrow> drop k (putU8 v @ xs) = drop (k - 1) xs"
  by simp_all

lemma writeHeader_length [simp]: "length (writeHeader t n) = 5"
  by (simp add: writeHeader_def)

end
