(* ===== verification/Frame_Decoder.thy ===== *)
theory Frame_Decoder
  imports Wire_Codec
begin

text \<open>
  The decoder of the order-entry gateway (\<^verbatim>\<open>protocol/decoder.hpp\<close>, \<^verbatim>\<open>decoder.cpp\<close>) and the set of messages it
  accepts.
\<close>

section \<open>protocol/decoder.hpp\<close>

definition kMaxInstruments :: nat where "kMaxInstruments = 64"

text \<open>The instrument ids in use, \<^verbatim>\<open>ids_[0 .. count_)\<close>.\<close>

type_synonym InstrumentSet = "InstrumentId list"

definition is_contains :: "InstrumentSet \<Rightarrow> InstrumentId \<Rightarrow> bool" where
  "is_contains s i \<longleftrightarrow> i \<in> set s"

definition is_add :: "InstrumentSet \<Rightarrow> InstrumentId \<Rightarrow> InstrumentSet" where
  "is_add s i = (if is_contains s i \<or> length s \<ge> kMaxInstruments then s else s @ [i])"

datatype DecodedMessage =
    DLogin LoginMsg
  | DNewOrder NewOrderMsg
  | DCancel CancelMsg
  | DCancelReplace CancelReplaceMsg
  | DHeartbeat HeartbeatMsg
  | DLoginAck LoginAckMsg
  | DLoginReject LoginRejectMsg
  | DExecReport ExecReportMsg
  | DReject RejectMsg

definition kCapacity :: nat where "kCapacity = 256"

text \<open>\<open>fd_buf\<close> is the used part \<^verbatim>\<open>buf_[0 .. len_)\<close> of the fixed buffer.\<close>

record FrameDecoder =
  fd_instruments :: InstrumentSet
  fd_minPrice :: Price
  fd_maxPrice :: Price
  fd_buf :: "byte list"
  fd_terminal :: bool

definition newFrameDecoder :: "InstrumentSet \<Rightarrow> Price \<Rightarrow> Price \<Rightarrow> FrameDecoder" where
  "newFrameDecoder instruments minPrice maxPrice =
     \<lparr>fd_instruments = instruments, fd_minPrice = minPrice, fd_maxPrice = maxPrice, fd_buf = [], fd_terminal = False\<rparr>"

datatype Result = ROk DecodedMessage | RIncomplete | RInvalid RejectReason

section \<open>protocol/decoder.cpp\<close>

definition side_of_code :: "byte \<Rightarrow> Side" where
  "side_of_code raw = (if raw = 0 then Buy else Sell)"

definition wot_of_code :: "byte \<Rightarrow> WireOrderType" where
  "wot_of_code raw = (if raw = 0 then WLimit else WMarket)"

definition tif_of_code :: "byte \<Rightarrow> WireTimeInForce" where
  "tif_of_code raw = (if raw = 0 then Day else if raw = 1 then WIoc else WFok)"

definition validSide :: "byte \<Rightarrow> bool" where
  "validSide raw \<longleftrightarrow> raw = 0 \<or> raw = 1"

definition validWireOrderType :: "byte \<Rightarrow> bool" where
  "validWireOrderType raw \<longleftrightarrow> raw = 0 \<or> raw = 1"

definition validWireTif :: "byte \<Rightarrow> bool" where
  "validWireTif raw \<longleftrightarrow> raw = 0 \<or> raw = 1 \<or> raw = 2"

definition feed :: "FrameDecoder \<Rightarrow> byte list \<Rightarrow> bool \<times> FrameDecoder" where
  "feed d data =
     (if fd_terminal d \<or> length (fd_buf d) + length data > kCapacity then (False, d)
      else (True, d\<lparr>fd_buf := fd_buf d @ data\<rparr>))"

definition fd_consume :: "FrameDecoder \<Rightarrow> nat \<Rightarrow> FrameDecoder" where
  "fd_consume d n = d\<lparr>fd_buf := drop n (fd_buf d)\<rparr>"

definition fail :: "FrameDecoder \<Rightarrow> RejectReason \<Rightarrow> Result \<times> FrameDecoder" where
  "fail d r = (RInvalid r, d\<lparr>fd_terminal := True\<rparr>)"

text \<open>The field validation of step 6: the message, or the reason it is invalid.\<close>

definition decodeNewOrder :: "FrameDecoder \<Rightarrow> byte list \<Rightarrow> RejectReason + DecodedMessage" where
  "decodeNewOrder d p =
     (let sideRaw = getU8 (drop 20 p);
          typeRaw = getU8 (drop 21 p);
          tifRaw = getU8 (drop 38 p)
      in if \<not> validSide sideRaw \<or> \<not> validWireOrderType typeRaw \<or> \<not> validWireTif tifRaw then Inl InvalidField
         else
           (let m = \<lparr>no_clientSeqNum = getU64 p, no_orderId = getI64 (drop 8 p), no_instrumentId = getU32 (drop 16 p),
                     no_side = side_of_code sideRaw, no_orderType = wot_of_code typeRaw, no_price = getI64 (drop 22 p),
                     no_quantity = getI64 (drop 30 p), no_timeInForce = tif_of_code tifRaw\<rparr>
            in if \<not> is_contains (fd_instruments d) (no_instrumentId m) then Inl UnknownInstrument
               else if no_quantity m \<le> 0 then Inl InvalidField
               else if no_orderType m = WMarket \<and> no_timeInForce m = WFok then Inl InvalidTifCombination
               else if no_orderType m = WLimit then
                 (if no_price m < fd_minPrice d \<or> no_price m > fd_maxPrice d then Inl InvalidField else Inr (DNewOrder m))
               else if no_price m \<noteq> 0 \<and> (no_price m < fd_minPrice d \<or> no_price m > fd_maxPrice d) then Inl InvalidField
               else Inr (DNewOrder m)))"

definition decodeCancel :: "FrameDecoder \<Rightarrow> byte list \<Rightarrow> RejectReason + DecodedMessage" where
  "decodeCancel d p =
     (let m = \<lparr>cx_clientSeqNum = getU64 p, cx_orderId = getI64 (drop 8 p), cx_instrumentId = getU32 (drop 16 p)\<rparr>
      in if \<not> is_contains (fd_instruments d) (cx_instrumentId m) then Inl UnknownInstrument else Inr (DCancel m))"

definition decodeCancelReplace :: "FrameDecoder \<Rightarrow> byte list \<Rightarrow> RejectReason + DecodedMessage" where
  "decodeCancelReplace d p =
     (let m = \<lparr>cr_clientSeqNum = getU64 p, cr_orderId = getI64 (drop 8 p), cr_instrumentId = getU32 (drop 16 p),
               cr_newPrice = getI64 (drop 20 p), cr_newQuantity = getI64 (drop 28 p)\<rparr>
      in if \<not> is_contains (fd_instruments d) (cr_instrumentId m) then Inl UnknownInstrument
         else if cr_newQuantity m \<le> 0 \<or> cr_newPrice m < fd_minPrice d \<or> cr_newPrice m > fd_maxPrice d then Inl InvalidField
         else Inr (DCancelReplace m))"

definition decodePayload :: "FrameDecoder \<Rightarrow> MessageType \<Rightarrow> byte list \<Rightarrow> RejectReason + DecodedMessage" where
  "decodePayload d type p =
     (case type of
        MtLogin \<Rightarrow> Inr (DLogin \<lparr>lg_participantId = getI64 p, lg_token = take 32 (drop 8 p), lg_clientSeqNum = getU64 (drop (8 + 32) p)\<rparr>)
      | MtNewOrder \<Rightarrow> decodeNewOrder d p
      | MtCancel \<Rightarrow> decodeCancel d p
      | MtCancelReplace \<Rightarrow> decodeCancelReplace d p
      | MtHeartbeat \<Rightarrow> Inr (DHeartbeat \<lparr>hb_marker = getU64 p\<rparr>)
      | MtLoginAck \<Rightarrow> Inr (DLoginAck \<lparr>la_serverSeq = getI64 p, la_status = getU8 (drop 8 p)\<rparr>)
      | MtLoginReject \<Rightarrow> Inr (DLoginReject \<lparr>lr_reason = getU8 p, lr_reserved = getU8 (drop 1 p)\<rparr>)
      | MtExecReport \<Rightarrow>
          Inr (DExecReport \<lparr>er_orderId = getI64 p, er_execType = getU8 (drop 8 p), er_execQty = getI64 (drop 9 p),
            er_leavesQty = getI64 (drop 17 p), er_tradePrice = getI64 (drop 25 p), er_tradeId = getI64 (drop 33 p),
            er_globalSeq = getI64 (drop 41 p)\<rparr>)
      | MtReject \<Rightarrow> Inr (DReject \<lparr>rj_orderId = getI64 p, rj_reason = getU8 (drop 8 p), rj_globalSeq = getI64 (drop 9 p)\<rparr>)
      | _ \<Rightarrow> Inl UnknownMessageType)"

definition fd_next :: "FrameDecoder \<Rightarrow> Result \<times> FrameDecoder" where
  "fd_next d =
     (if fd_terminal d then fail d MalformedFrame
      else if length (fd_buf d) < kFrameHeaderSize then (RIncomplete, d)
      else
        (let len = unat (getU32 (fd_buf d))
         in if len < 1 \<or> len > kMaxFrame then fail d MalformedFrame
            else
              (let total = kFrameHeaderSize + len
               in if length (fd_buf d) < total then (RIncomplete, d)
                  else
                    (let rawType = getU8 (drop kFrameHeaderSize (fd_buf d))
                     in if \<not> isKnownMessageType rawType then fail d UnknownMessageType
                        else
                          (let type = the (type_of_code rawType)
                           in if len \<noteq> kMsgTypeSize + expectedPayloadSize type then fail d MalformedFrame
                              else
                                (case decodePayload d type (drop (kFrameHeaderSize + kMsgTypeSize) (fd_buf d)) of
                                   Inl r \<Rightarrow> fail d r
                                 | Inr m \<Rightarrow> (ROk m, fd_consume d total)))))))"

section \<open>What the decoder accepts\<close>

fun msg_type :: "DecodedMessage \<Rightarrow> MessageType" where
  "msg_type (DLogin m) = MtLogin"
| "msg_type (DNewOrder m) = MtNewOrder"
| "msg_type (DCancel m) = MtCancel"
| "msg_type (DCancelReplace m) = MtCancelReplace"
| "msg_type (DHeartbeat m) = MtHeartbeat"
| "msg_type (DLoginAck m) = MtLoginAck"
| "msg_type (DLoginReject m) = MtLoginReject"
| "msg_type (DExecReport m) = MtExecReport"
| "msg_type (DReject m) = MtReject"

text \<open>The encoder function for a message of each type.\<close>

fun encode :: "DecodedMessage \<Rightarrow> byte list" where
  "encode (DLogin m) = encodeLogin m"
| "encode (DNewOrder m) = encodeNewOrder m"
| "encode (DCancel m) = encodeCancel m"
| "encode (DCancelReplace m) = encodeCancelReplace m"
| "encode (DHeartbeat m) = encodeHeartbeat m"
| "encode (DLoginAck m) = encodeLoginAck m"
| "encode (DLoginReject m) = encodeLoginReject m"
| "encode (DExecReport m) = encodeExecReport m"
| "encode (DReject m) = encodeReject m"

text \<open>
  The messages a session may send: the wire_fields are values of their C++ types, and the ranges are those
  of the wire specification.
\<close>

definition price_ok :: "FrameDecoder \<Rightarrow> Price \<Rightarrow> bool" where
  "price_ok d p \<longleftrightarrow> fd_minPrice d \<le> p \<and> p \<le> fd_maxPrice d"

fun msg_ok :: "FrameDecoder \<Rightarrow> DecodedMessage \<Rightarrow> bool" where
  "msg_ok d (DLogin m) \<longleftrightarrow> in_i64 (lg_participantId m) \<and> length (lg_token m) = 32"
| "msg_ok d (DNewOrder m) \<longleftrightarrow>
     in_i64 (no_orderId m) \<and> in_i64 (no_price m) \<and> in_i64 (no_quantity m) \<and> no_instrumentId m \<in> set (fd_instruments d) \<and>
     0 < no_quantity m \<and> \<not> (no_orderType m = WMarket \<and> no_timeInForce m = WFok) \<and>
     (price_ok d (no_price m) \<or> no_orderType m = WMarket \<and> no_price m = 0)"
| "msg_ok d (DCancel m) \<longleftrightarrow> in_i64 (cx_orderId m) \<and> cx_instrumentId m \<in> set (fd_instruments d)"
| "msg_ok d (DCancelReplace m) \<longleftrightarrow>
     in_i64 (cr_orderId m) \<and> in_i64 (cr_newPrice m) \<and> in_i64 (cr_newQuantity m) \<and> cr_instrumentId m \<in> set (fd_instruments d) \<and>
     0 < cr_newQuantity m \<and> price_ok d (cr_newPrice m)"
| "msg_ok d (DHeartbeat m) \<longleftrightarrow> True"
| "msg_ok d (DLoginAck m) \<longleftrightarrow> in_i64 (la_serverSeq m)"
| "msg_ok d (DLoginReject m) \<longleftrightarrow> True"
| "msg_ok d (DExecReport m) \<longleftrightarrow>
     in_i64 (er_orderId m) \<and> in_i64 (er_execQty m) \<and> in_i64 (er_leavesQty m) \<and> in_i64 (er_tradePrice m) \<and>
     in_i64 (er_tradeId m) \<and> in_i64 (er_globalSeq m)"
| "msg_ok d (DReject m) \<longleftrightarrow> in_i64 (rj_orderId m) \<and> in_i64 (rj_globalSeq m)"

lemmas encoder_defs = encodeLogin_def encodeNewOrder_def encodeCancel_def encodeCancelReplace_def encodeHeartbeat_def
  encodeLoginAck_def encodeLoginReject_def encodeExecReport_def encodeReject_def

text \<open>The bytes of a message after its header.\<close>

definition payload :: "DecodedMessage \<Rightarrow> byte list" where
  "payload m = drop (kFrameHeaderSize + kMsgTypeSize) (encode m)"

lemma encode_frame: "encode m = frame_bytes (msg_type m) (payload m)"
  by (cases m) (simp_all add: frame_bytes_def payload_def encoder_defs kFrameHeaderSize_def kMsgTypeSize_def)

lemma payload_length: "msg_ok d m \<Longrightarrow> length (payload m) = expectedPayloadSize (msg_type m)"
  by (cases m) (simp_all add: payload_def encoder_defs kFrameHeaderSize_def kMsgTypeSize_def)

lemma side_codes [simp]: "side_of_code (side_code s) = s" "validSide (side_code s)"
  "validSide b \<Longrightarrow> side_code (side_of_code b) = b"
  by (cases s; auto simp: side_of_code_def validSide_def)+

lemma wot_codes [simp]: "wot_of_code (wot_code t) = t" "validWireOrderType (wot_code t)"
  "validWireOrderType b \<Longrightarrow> wot_code (wot_of_code b) = b"
  by (cases t; auto simp: wot_of_code_def validWireOrderType_def)+

lemma tif_codes [simp]: "tif_of_code (tif_code t) = t" "validWireTif (tif_code t)"
  "validWireTif b \<Longrightarrow> tif_code (tif_of_code b) = b"
  by (cases t; auto simp: tif_of_code_def validWireTif_def)+

lemmas decoder_defs = decodeNewOrder_def decodeCancel_def decodeCancelReplace_def decodePayload_def is_contains_def price_ok_def

lemma decodePayload_encoded: "msg_ok d m \<Longrightarrow> decodePayload d (msg_type m) (payload m @ rest) = Inr m"
  by (cases m) (auto simp: payload_def encoder_defs kFrameHeaderSize_def kMsgTypeSize_def decoder_defs wire_gets Let_def)

lemma decodeNewOrder_sound:
  assumes len: "39 \<le> length p" and dec: "decodeNewOrder d p = Inr m"
  shows "msg_ok d m \<and> msg_type m = MtNewOrder \<and> payload m = take 39 p"
proof -
  define n where "n = \<lparr>no_clientSeqNum = getU64 p, no_orderId = getI64 (drop 8 p), no_instrumentId = getU32 (drop 16 p),
    no_side = side_of_code (getU8 (drop 20 p)), no_orderType = wot_of_code (getU8 (drop 21 p)), no_price = getI64 (drop 22 p),
    no_quantity = getI64 (drop 30 p), no_timeInForce = tif_of_code (getU8 (drop 38 p))\<rparr>"
  have codes: "validSide (getU8 (drop 20 p))" "validWireOrderType (getU8 (drop 21 p))" "validWireTif (getU8 (drop 38 p))"
    and m: "m = DNewOrder n" and range: "no_instrumentId n \<in> set (fd_instruments d)" "0 < no_quantity n"
      "\<not> (no_orderType n = WMarket \<and> no_timeInForce n = WFok)"
      "price_ok d (no_price n) \<or> no_orderType n = WMarket \<and> no_price n = 0"
    using dec unfolding decodeNewOrder_def Let_def n_def [symmetric] is_contains_def price_ok_def
    by (auto simp: not_less not_le split: if_splits intro: WireOrderType.exhaust)
  have "payload m = wire_fields [8, 8, 4, 1, 1, 8, 8, 1] p"
    using len codes by (simp add: m n_def payload_def encoder_defs kFrameHeaderSize_def kMsgTypeSize_def wire_puts)
  then show ?thesis using range by (simp add: m wire_fields_take) (simp add: n_def)
qed

lemma decodePayload_sound:
  assumes "expectedPayloadSize t \<le> length p" "decodePayload d t p = Inr m"
  shows "msg_ok d m \<and> msg_type m = t \<and> payload m = take (expectedPayloadSize t) p"
proof (cases t)
  case MtLogin
  with assms wire_fields_take [of "[8, 32, 8]" p] show ?thesis
    by (auto simp: decoder_defs payload_def encoder_defs kFrameHeaderSize_def kMsgTypeSize_def wire_puts)
next
  case MtNewOrder
  with assms show ?thesis using decodeNewOrder_sound [of p d m] by (simp add: decodePayload_def)
next
  case MtCancel
  with assms wire_fields_take [of "[8, 8, 4]" p] show ?thesis
    by (auto simp: decoder_defs payload_def encoder_defs kFrameHeaderSize_def kMsgTypeSize_def wire_puts Let_def split: if_splits)
next
  case MtCancelReplace
  with assms wire_fields_take [of "[8, 8, 4, 8, 8]" p] show ?thesis
    by (auto simp: decoder_defs payload_def encoder_defs kFrameHeaderSize_def kMsgTypeSize_def wire_puts Let_def split: if_splits)
next
  case MtHeartbeat
  with assms show ?thesis
    by (auto simp: decoder_defs payload_def encoder_defs kFrameHeaderSize_def kMsgTypeSize_def wire_puts)
next
  case MtLoginAck
  with assms wire_fields_take [of "[8, 1]" p] show ?thesis
    by (auto simp: decoder_defs payload_def encoder_defs kFrameHeaderSize_def kMsgTypeSize_def wire_puts)
next
  case MtLoginReject
  with assms wire_fields_take [of "[1, 1]" p] show ?thesis
    by (auto simp: numeral_2_eq_2 decoder_defs payload_def encoder_defs kFrameHeaderSize_def kMsgTypeSize_def wire_puts)
next
  case MtExecReport
  with assms wire_fields_take [of "[8, 1, 8, 8, 8, 8, 8]" p] show ?thesis
    by (auto simp: decoder_defs payload_def encoder_defs kFrameHeaderSize_def kMsgTypeSize_def wire_puts)
next
  case MtReject
  with assms wire_fields_take [of "[8, 1, 8]" p] show ?thesis
    by (auto simp: decoder_defs payload_def encoder_defs kFrameHeaderSize_def kMsgTypeSize_def wire_puts)
qed (use assms(2) in \<open>simp_all add: decodePayload_def\<close>)

text \<open>A whole frame at the front of the buffer is decoded and consumed.\<close>

lemma fd_next_frame:
  assumes "\<not> fd_terminal d" "msg_ok d m" "fd_buf d = encode m @ rest"
  shows "fd_next d = (ROk m, d\<lparr>fd_buf := rest\<rparr>)"
  using assms(1) frame_reads [OF assms(3) [unfolded encode_frame] payload_length [OF assms(2)]] frame_len_le [of "msg_type m"]
    decodePayload_encoded [OF assms(2), of rest]
  by (simp add: fd_next_def unat_frame_len isKnownMessageType_def Let_def fd_consume_def not_less)
    (simp add: frame_len_def)

text \<open>A proper prefix of a frame leaves the decoder waiting.\<close>

lemma fd_next_partial:
  assumes "\<not> fd_terminal d" "msg_ok d m" "encode m = fd_buf d @ suf" "suf \<noteq> []"
  shows "fd_next d = (RIncomplete, d)"
  using frame_prefix_reads [OF assms(3) [unfolded encode_frame] assms(4) payload_length [OF assms(2)]]
    assms(1) frame_len_le [of "msg_type m"]
  by (cases "length (fd_buf d) < kFrameHeaderSize") (simp_all add: fd_next_def unat_frame_len Let_def)

text \<open>What is reported as decoded was at the front of the buffer, byte for byte.\<close>

lemma fd_next_sound:
  assumes "fd_next d = (ROk m, d')"
  shows "\<not> fd_terminal d \<and> msg_ok d m \<and> fd_buf d = encode m @ fd_buf d' \<and> d' = d\<lparr>fd_buf := fd_buf d'\<rparr>"
proof -
  define p where "p = drop (kFrameHeaderSize + kMsgTypeSize) (fd_buf d)"
  obtain t where t: "type_of_code (getU8 (drop kFrameHeaderSize (fd_buf d))) = Some t" and live: "\<not> fd_terminal d"
    and len: "unat (getU32 (fd_buf d)) = frame_len t" and fits: "kFrameHeaderSize + frame_len t \<le> length (fd_buf d)"
    and dec: "decodePayload d t p = Inr m" and d': "d' = fd_consume d (kFrameHeaderSize + frame_len t)"
    using assms by (auto simp: fd_next_def Let_def fail_def isKnownMessageType_def p_def not_less frame_len_def
      split: if_splits sum.splits)
  have sound: "msg_ok d m" "msg_type m = t" "payload m = take (expectedPayloadSize t) p"
    using decodePayload_sound [OF _ dec] fits by (simp_all add: p_def frame_len_def)
  have "fd_buf d = encode m @ fd_buf d'"
    using frame_recovered [OF fits len type_of_code_Some [OF t]] sound by (simp add: encode_frame d' fd_consume_def p_def)
  with live sound(1) show ?thesis by (simp add: d' fd_consume_def)
qed

lemma fd_next_cases:
  obtains (ok) m where "fd_next d = (ROk m, snd (fd_next d))"
  | (wait) "fd_next d = (RIncomplete, d)" "\<not> fd_terminal d"
  | (bad) r where "fd_next d = (RInvalid r, d\<lparr>fd_terminal := True\<rparr>)"
  by (cases "fst (fd_next d)")
    (auto simp: fd_next_def Let_def fail_def split: if_splits sum.splits)

lemma msg_ok_buf [simp]: "msg_ok (d\<lparr>fd_buf := b\<rparr>) x = msg_ok d x"
  by (cases x) (simp_all add: price_ok_def)

section \<open>The decoder on a stream\<close>

definition fd_poll :: "FrameDecoder \<Rightarrow> DecodedMessage poll \<times> FrameDecoder" where
  "fd_poll d = (case fd_next d of (ROk m, d') \<Rightarrow> (Got m, d') | (RIncomplete, d') \<Rightarrow> (Wait, d') | (RInvalid r, d') \<Rightarrow> (Bad, d'))"

interpretation fd: framed_decoder fd_poll feed fd_buf "\<lambda>d b. d\<lparr>fd_buf := b\<rparr>" "\<lambda>d. \<not> fd_terminal d" msg_ok encode kCapacity
  "kFrameHeaderSize + kMaxFrame"
proof unfold_locales
  show "length (encode m) \<le> kFrameHeaderSize + kMaxFrame" if "msg_ok d m" for d m
    using frame_bytes_length [OF payload_length [OF that]] frame_len_le(2) [of "msg_type m"] by (simp add: encode_frame)
  show "fd_poll d = (Wait, d)" if "\<not> fd_terminal d" "fd_buf d = []" for d
    using that by (simp add: fd_poll_def fd_next_def kFrameHeaderSize_def)
qed (simp_all add: fd_poll_def fd_next_frame fd_next_partial feed_def encode_frame frame_bytes_nonempty)

section \<open>Decoder states\<close>

inductive decoder_reach :: "FrameDecoder \<Rightarrow> FrameDecoder \<Rightarrow> bool" for d where
  start: "decoder_reach d d"
| fed: "decoder_reach d d' \<Longrightarrow> decoder_reach d (snd (feed d' c))"
| polled: "decoder_reach d d' \<Longrightarrow> decoder_reach d (snd (fd_next d'))"

lemma fd_next_buf: "length (fd_buf (snd (fd_next d))) \<le> length (fd_buf d)"
  by (cases d rule: fd_next_cases) (auto dest: fd_next_sound)

lemma decoder_reach_bounded:
  assumes "decoder_reach d d'" "length (fd_buf d) \<le> kCapacity"
  shows "length (fd_buf d') \<le> kCapacity"
  using assms
proof induction
  case (polled d')
  then show ?case using fd_next_buf [of d'] by simp
qed (auto simp: feed_def)

lemma decoder_reach_terminal:
  assumes "decoder_reach d d'" "fd_terminal d"
  shows "d' = d"
  using assms by induction (auto simp: feed_def fd_next_def fail_def)

lemma fd_next_progress:
  assumes "kFrameHeaderSize + kMaxFrame \<le> length (fd_buf d)"
  shows "fst (fd_next d) \<noteq> RIncomplete"
  using assms by (auto simp: fd_next_def Let_def fail_def split: sum.splits)

end
