(* ===== verification/Protocol_Properties.thy ===== *)
theory Protocol_Properties
  imports Frame_Decoder
begin

text \<open>
  The properties of the order-entry codec.
\<close>

text \<open>
  C6: A client's byte stream is decoded to exactly the messages it encoded. For every list of valid
  messages and every way the transport splits the concatenated frames into reads of at most 188 bytes,
  which is \<^verbatim>\<open>kCapacity - (kFrameHeaderSize + kMaxFrame)\<close>, feeding and draining each read yields the messages in
  order, no read is refused, and the buffer ends empty. A longer read can be refused.
\<close>

theorem decoder_stream_roundtrip:
  assumes "\<forall>m\<in>set ms. msg_ok (newFrameDecoder instruments lo hi) m"
    "concat reads = concat (map encode ms)"
    "\<forall>c\<in>set reads. length c + (kFrameHeaderSize + kMaxFrame) \<le> kCapacity"
  shows "receive_with feed fd_poll (newFrameDecoder instruments lo hi) reads = Some (ms, newFrameDecoder instruments lo hi)"
  using fd.receive_stream [of "newFrameDecoder instruments lo hi" ms reads] assms by (simp add: newFrameDecoder_def pending_def)

definition demo_msgs :: "DecodedMessage list" where
  "demo_msgs =
     [DLogin \<lparr>lg_participantId = 7, lg_token = replicate 32 65, lg_clientSeqNum = 1\<rparr>,
      DNewOrder \<lparr>no_clientSeqNum = 2, no_orderId = 11, no_instrumentId = 1, no_side = Sell, no_orderType = WLimit,
        no_price = 10000, no_quantity = 5, no_timeInForce = Day\<rparr>]"

lemma demo_msgs_ok: "\<forall>m\<in>set demo_msgs. msg_ok (newFrameDecoder [1] 1 20000) m"
  by (simp add: demo_msgs_def newFrameDecoder_def price_ok_def in_i64_def)

lemma demo_msgs_length: "length (concat (map encode demo_msgs)) = 97"
  by (simp add: demo_msgs_def encoder_defs)

theorem decoder_stream_roundtrip_witness:
  "receive_with feed fd_poll (newFrameDecoder [1] 1 20000) [take 55 (concat (map encode demo_msgs)), drop 55 (concat (map encode demo_msgs))]
    = Some (demo_msgs, newFrameDecoder [1] 1 20000)"
  using decoder_stream_roundtrip [of demo_msgs "[1]" 1 20000
      "[take 55 (concat (map encode demo_msgs)), drop 55 (concat (map encode demo_msgs))]"]
    demo_msgs_ok demo_msgs_length
  by (simp only: concat.simps append_take_drop_id append_Nil2) (simp add: kCapacity_def kFrameHeaderSize_def kMaxFrame_def)

text \<open>
  C33: \<^verbatim>\<open>FrameDecoder::next\<close> accepts a message exactly when it is not terminal, the message is valid for the
  configured instruments and price range, and the buffer starts with that message's encoding byte for byte.
  It then consumes that frame and changes nothing else. So there is one accepted byte form per message.
\<close>

theorem decoder_accepts_exactly:
  "fd_next d = (ROk m, d') \<longleftrightarrow>
     \<not> fd_terminal d \<and> msg_ok d m \<and> fd_buf d = encode m @ fd_buf d' \<and> d' = d\<lparr>fd_buf := fd_buf d'\<rparr>"
  using fd_next_sound [of d m d'] fd_next_frame [of d m "fd_buf d'"] by metis

text \<open>
  No input drives the decoder out of bounds or gets it stuck. After any sequence of \<^verbatim>\<open>feed\<close> and \<^verbatim>\<open>next\<close> calls
  on a new decoder at most \<^verbatim>\<open>kCapacity\<close> bytes are held, \<^verbatim>\<open>next\<close> does not wait for more input once a
  largest frame is buffered, and an invalid frame makes every later call fail without changing the decoder.
\<close>

theorem decoder_safe:
  assumes "decoder_reach (newFrameDecoder instruments lo hi) d"
  shows "length (fd_buf d) \<le> kCapacity \<and>
    (kFrameHeaderSize + kMaxFrame \<le> length (fd_buf d) \<longrightarrow> fst (fd_next d) \<noteq> RIncomplete) \<and>
    (fst (fd_next d) = RInvalid r \<and> decoder_reach (snd (fd_next d)) d' \<longrightarrow>
       d' = snd (fd_next d) \<and> feed d' c = (False, d') \<and> fd_next d' = (RInvalid MalformedFrame, d'))"
proof (intro conjI impI)
  show "length (fd_buf d) \<le> kCapacity"
    by (rule decoder_reach_bounded [OF assms]) (simp add: newFrameDecoder_def)
  show "kFrameHeaderSize + kMaxFrame \<le> length (fd_buf d) \<Longrightarrow> fst (fd_next d) \<noteq> RIncomplete"
    by (rule fd_next_progress)
  assume bad: "fst (fd_next d) = RInvalid r \<and> decoder_reach (snd (fd_next d)) d'"
  then have "fd_terminal (snd (fd_next d))" by (cases d rule: fd_next_cases) (auto dest: arg_cong [where f = fst])
  with decoder_reach_terminal [of "snd (fd_next d)" d'] bad
  show "d' = snd (fd_next d)" "feed d' c = (False, d')" "fd_next d' = (RInvalid MalformedFrame, d')"
    by (simp_all add: feed_def fd_next_def fail_def)
qed

definition demo_bad :: FrameDecoder where
  "demo_bad = snd (feed (newFrameDecoder [1] 1 20000) (replicate 80 255))"

theorem decoder_safe_witness:
  "length (fd_buf demo_bad) \<le> kCapacity \<and> fst (fd_next demo_bad) \<noteq> RIncomplete \<and>
   feed (snd (fd_next demo_bad)) [0] = (False, snd (fd_next demo_bad)) \<and>
   fd_next (snd (fd_next demo_bad)) = (RInvalid MalformedFrame, snd (fd_next demo_bad))"
proof -
  have reach: "decoder_reach (newFrameDecoder [1] 1 20000) demo_bad"
    unfolding demo_bad_def by (intro decoder_reach.intros)
  have buf: "fd_buf demo_bad = replicate 80 255" "\<not> fd_terminal demo_bad"
    by (simp_all add: demo_bad_def feed_def newFrameDecoder_def kCapacity_def)
  then have "getU32 (fd_buf demo_bad) = 0xFFFFFFFF" by (simp add: getU32_def upt_rec)
  with buf have bad: "fst (fd_next demo_bad) = RInvalid MalformedFrame"
    by (simp add: fd_next_def kFrameHeaderSize_def kMaxFrame_def fail_def)
  show ?thesis
    using decoder_safe [OF reach, of MalformedFrame "snd (fd_next demo_bad)" "[0]"] bad decoder_reach.start buf
    by (simp add: kFrameHeaderSize_def kMaxFrame_def)
qed

end
