(* ===== verification/Feed_Codec.thy ===== *)
theory Feed_Codec
  imports Wire_Codec
begin

text \<open>
  The market-data wire format (\<^verbatim>\<open>marketdata/feed_messages.hpp\<close>, \<^verbatim>\<open>feed_encoder.cpp\<close>, \<^verbatim>\<open>feed_decoder.cpp\<close>).
\<close>

section \<open>marketdata/feed\_messages.hpp\<close>

text \<open>
  The feed decoder casts the bytes of \<^verbatim>\<open>side\<close> and \<^verbatim>\<open>action\<close> without a check, so these fields hold the underlying
  byte of the enumeration.
\<close>

record L2DeltaMsg =
  l2_instrumentId :: InstrumentId
  l2_feedSeq :: "64 word"
  l2_side :: byte
  l2_action :: byte
  l2_price :: Price
  l2_totalQty :: Quantity
  l2_orderCount :: "32 word"

record L3OrderMsg =
  l3_instrumentId :: InstrumentId
  l3_feedSeq :: "64 word"
  l3_action :: byte
  l3_orderId :: OrderId
  l3_side :: byte
  l3_price :: Price
  l3_quantity :: Quantity
  l3_remaining :: Quantity
  l3_participant :: ParticipantId

record L3FillMsg =
  lf_instrumentId :: InstrumentId
  lf_feedSeq :: "64 word"
  lf_orderId :: OrderId
  lf_tradeId :: int
  lf_price :: Price
  lf_quantity :: Quantity
  lf_remaining :: Quantity

record TradeTickMsg =
  tk_instrumentId :: InstrumentId
  tk_feedSeq :: "64 word"
  tk_tradeId :: int
  tk_aggressorId :: OrderId
  tk_passiveId :: OrderId
  tk_price :: Price
  tk_quantity :: Quantity
  tk_aggressorSide :: byte

record SnapshotStartMsg =
  ss_instrumentId :: InstrumentId
  ss_feedSeq :: "64 word"
  ss_restingOrders :: "64 word"

record SnapshotEndMsg =
  se_instrumentId :: InstrumentId
  se_feedSeq :: "64 word"
  se_crc32 :: "32 word"

section \<open>marketdata/feed\_encoder.cpp\<close>

definition feed_writeHeader :: "MessageType \<Rightarrow> nat \<Rightarrow> byte list" where
  "feed_writeHeader type payloadSize = putU32 (of_nat (kMsgTypeSize + payloadSize)) @ putU8 (type_code type)"

definition encodeL2Delta :: "L2DeltaMsg \<Rightarrow> byte list" where
  "encodeL2Delta m = feed_writeHeader MtL2Delta 34 @ putU32 (l2_instrumentId m) @ putU64 (l2_feedSeq m) @
     putU8 (l2_side m) @ putU8 (l2_action m) @ putI64 (l2_price m) @ putI64 (l2_totalQty m) @ putU32 (l2_orderCount m)"

definition encodeL3Order :: "L3OrderMsg \<Rightarrow> byte list" where
  "encodeL3Order m = feed_writeHeader MtL3Order 54 @ putU32 (l3_instrumentId m) @ putU64 (l3_feedSeq m) @
     putU8 (l3_action m) @ putI64 (l3_orderId m) @ putU8 (l3_side m) @ putI64 (l3_price m) @ putI64 (l3_quantity m) @
     putI64 (l3_remaining m) @ putI64 (l3_participant m)"

definition encodeL3Fill :: "L3FillMsg \<Rightarrow> byte list" where
  "encodeL3Fill m = feed_writeHeader MtL3Fill 52 @ putU32 (lf_instrumentId m) @ putU64 (lf_feedSeq m) @
     putI64 (lf_orderId m) @ putI64 (lf_tradeId m) @ putI64 (lf_price m) @ putI64 (lf_quantity m) @ putI64 (lf_remaining m)"

definition encodeTradeTick :: "TradeTickMsg \<Rightarrow> byte list" where
  "encodeTradeTick m = feed_writeHeader MtTradeTick 53 @ putU32 (tk_instrumentId m) @ putU64 (tk_feedSeq m) @
     putI64 (tk_tradeId m) @ putI64 (tk_aggressorId m) @ putI64 (tk_passiveId m) @ putI64 (tk_price m) @ putI64 (tk_quantity m) @
     putU8 (tk_aggressorSide m)"

definition encodeSnapshotStart :: "SnapshotStartMsg \<Rightarrow> byte list" where
  "encodeSnapshotStart m = feed_writeHeader MtSnapshotStart 20 @ putU32 (ss_instrumentId m) @ putU64 (ss_feedSeq m) @
     putU64 (ss_restingOrders m)"

definition encodeSnapshotEnd :: "SnapshotEndMsg \<Rightarrow> byte list" where
  "encodeSnapshotEnd m = feed_writeHeader MtSnapshotEnd 16 @ putU32 (se_instrumentId m) @ putU64 (se_feedSeq m) @
     putU32 (se_crc32 m)"

section \<open>marketdata/feed\_decoder.hpp, feed\_decoder.cpp\<close>

datatype DecodedFeedMessage =
    FL2Delta L2DeltaMsg
  | FL3Order L3OrderMsg
  | FL3Fill L3FillMsg
  | FTradeTick TradeTickMsg
  | FSnapshotStart SnapshotStartMsg
  | FSnapshotEnd SnapshotEndMsg

definition feed_kCapacity :: nat where "feed_kCapacity = 256"

record FeedDecoder =
  fe_buf :: "byte list"
  fe_terminal :: bool

definition newFeedDecoder :: FeedDecoder where
  "newFeedDecoder = \<lparr>fe_buf = [], fe_terminal = False\<rparr>"

definition fe_feed :: "FeedDecoder \<Rightarrow> byte list \<Rightarrow> bool \<times> FeedDecoder" where
  "fe_feed d data =
     (if fe_terminal d \<or> length (fe_buf d) + length data > feed_kCapacity then (False, d)
      else (True, d\<lparr>fe_buf := fe_buf d @ data\<rparr>))"

definition fe_fail :: "FeedDecoder \<Rightarrow> DecodedFeedMessage poll \<times> FeedDecoder" where
  "fe_fail d = (Bad, d\<lparr>fe_terminal := True\<rparr>)"

definition fe_consume :: "FeedDecoder \<Rightarrow> nat \<Rightarrow> FeedDecoder" where
  "fe_consume d n = d\<lparr>fe_buf := drop n (fe_buf d)\<rparr>"

text \<open>The switch over the message type; \<^const>\<open>None\<close> is the default case.\<close>

definition feedPayload :: "MessageType \<Rightarrow> byte list \<Rightarrow> DecodedFeedMessage option" where
  "feedPayload type p =
     (case type of
        MtL2Delta \<Rightarrow>
          Some (FL2Delta \<lparr>l2_instrumentId = getU32 p, l2_feedSeq = getU64 (drop 4 p), l2_side = getU8 (drop 12 p),
            l2_action = getU8 (drop 13 p), l2_price = getI64 (drop 14 p), l2_totalQty = getI64 (drop 22 p), l2_orderCount = getU32 (drop 30 p)\<rparr>)
      | MtL3Order \<Rightarrow>
          Some (FL3Order \<lparr>l3_instrumentId = getU32 p, l3_feedSeq = getU64 (drop 4 p), l3_action = getU8 (drop 12 p),
            l3_orderId = getI64 (drop 13 p), l3_side = getU8 (drop 21 p), l3_price = getI64 (drop 22 p), l3_quantity = getI64 (drop 30 p),
            l3_remaining = getI64 (drop 38 p), l3_participant = getI64 (drop 46 p)\<rparr>)
      | MtL3Fill \<Rightarrow>
          Some (FL3Fill \<lparr>lf_instrumentId = getU32 p, lf_feedSeq = getU64 (drop 4 p), lf_orderId = getI64 (drop 12 p),
            lf_tradeId = getI64 (drop 20 p), lf_price = getI64 (drop 28 p), lf_quantity = getI64 (drop 36 p), lf_remaining = getI64 (drop 44 p)\<rparr>)
      | MtTradeTick \<Rightarrow>
          Some (FTradeTick \<lparr>tk_instrumentId = getU32 p, tk_feedSeq = getU64 (drop 4 p), tk_tradeId = getI64 (drop 12 p),
            tk_aggressorId = getI64 (drop 20 p), tk_passiveId = getI64 (drop 28 p), tk_price = getI64 (drop 36 p),
            tk_quantity = getI64 (drop 44 p), tk_aggressorSide = getU8 (drop 52 p)\<rparr>)
      | MtSnapshotStart \<Rightarrow>
          Some (FSnapshotStart \<lparr>ss_instrumentId = getU32 p, ss_feedSeq = getU64 (drop 4 p), ss_restingOrders = getU64 (drop 12 p)\<rparr>)
      | MtSnapshotEnd \<Rightarrow>
          Some (FSnapshotEnd \<lparr>se_instrumentId = getU32 p, se_feedSeq = getU64 (drop 4 p), se_crc32 = getU32 (drop 12 p)\<rparr>)
      | _ \<Rightarrow> None)"

definition fe_next :: "FeedDecoder \<Rightarrow> DecodedFeedMessage poll \<times> FeedDecoder" where
  "fe_next d =
     (if fe_terminal d then fe_fail d
      else if length (fe_buf d) < kFrameHeaderSize then (Wait, d)
      else
        (let len = unat (getU32 (fe_buf d))
         in if len < 1 \<or> len > kMaxFrame then fe_fail d
            else
              (let total = kFrameHeaderSize + len
               in if length (fe_buf d) < total then (Wait, d)
                  else
                    (let rawType = getU8 (drop kFrameHeaderSize (fe_buf d))
                     in if \<not> isKnownMessageType rawType then fe_fail d
                        else
                          (let type = the (type_of_code rawType)
                           in if len \<noteq> kMsgTypeSize + expectedPayloadSize type then fe_fail d
                              else
                                (case feedPayload type (drop (kFrameHeaderSize + kMsgTypeSize) (fe_buf d)) of
                                   None \<Rightarrow> fe_fail d
                                 | Some m \<Rightarrow> (Got m, fe_consume d total)))))))"

section \<open>The messages of the feed\<close>

fun feed_type :: "DecodedFeedMessage \<Rightarrow> MessageType" where
  "feed_type (FL2Delta m) = MtL2Delta"
| "feed_type (FL3Order m) = MtL3Order"
| "feed_type (FL3Fill m) = MtL3Fill"
| "feed_type (FTradeTick m) = MtTradeTick"
| "feed_type (FSnapshotStart m) = MtSnapshotStart"
| "feed_type (FSnapshotEnd m) = MtSnapshotEnd"

fun feed_encode :: "DecodedFeedMessage \<Rightarrow> byte list" where
  "feed_encode (FL2Delta m) = encodeL2Delta m"
| "feed_encode (FL3Order m) = encodeL3Order m"
| "feed_encode (FL3Fill m) = encodeL3Fill m"
| "feed_encode (FTradeTick m) = encodeTradeTick m"
| "feed_encode (FSnapshotStart m) = encodeSnapshotStart m"
| "feed_encode (FSnapshotEnd m) = encodeSnapshotEnd m"

text \<open>The 64-bit fields are values of their type.\<close>

fun feed_ok :: "DecodedFeedMessage \<Rightarrow> bool" where
  "feed_ok (FL2Delta m) \<longleftrightarrow> in_i64 (l2_price m) \<and> in_i64 (l2_totalQty m)"
| "feed_ok (FL3Order m) \<longleftrightarrow> in_i64 (l3_orderId m) \<and> in_i64 (l3_price m) \<and> in_i64 (l3_quantity m) \<and> in_i64 (l3_remaining m) \<and> in_i64 (l3_participant m)"
| "feed_ok (FL3Fill m) \<longleftrightarrow> in_i64 (lf_orderId m) \<and> in_i64 (lf_tradeId m) \<and> in_i64 (lf_price m) \<and> in_i64 (lf_quantity m) \<and> in_i64 (lf_remaining m)"
| "feed_ok (FTradeTick m) \<longleftrightarrow> in_i64 (tk_tradeId m) \<and> in_i64 (tk_aggressorId m) \<and> in_i64 (tk_passiveId m) \<and> in_i64 (tk_price m) \<and> in_i64 (tk_quantity m)"
| "feed_ok (FSnapshotStart m) \<longleftrightarrow> True"
| "feed_ok (FSnapshotEnd m) \<longleftrightarrow> True"

definition feed_body :: "DecodedFeedMessage \<Rightarrow> byte list" where
  "feed_body m = drop (kFrameHeaderSize + kMsgTypeSize) (feed_encode m)"

lemmas feed_encoder_defs = encodeL2Delta_def encodeL3Order_def encodeL3Fill_def encodeTradeTick_def encodeSnapshotStart_def encodeSnapshotEnd_def
lemmas feed_size_defs = kFrameHeaderSize_def kMsgTypeSize_def

lemma feed_writeHeader_same: "feed_writeHeader = writeHeader"
  by (simp add: feed_writeHeader_def writeHeader_def fun_eq_iff)

lemma feed_encode_frame: "feed_encode m = frame_bytes (feed_type m) (feed_body m)"
  by (cases m) (simp_all add: frame_bytes_def feed_body_def feed_encoder_defs feed_size_defs feed_writeHeader_same)

lemma feed_body_length: "length (feed_body m) = expectedPayloadSize (feed_type m)"
  by (cases m) (simp_all add: feed_body_def feed_encoder_defs feed_size_defs feed_writeHeader_same)

lemma feedPayload_encoded: "feed_ok m \<Longrightarrow> feedPayload (feed_type m) (feed_body m @ rest) = Some m"
  by (cases m) (simp_all add: feedPayload_def feed_body_def feed_encoder_defs feed_size_defs feed_writeHeader_same wire_gets)

fun feed_widths :: "MessageType \<Rightarrow> nat list" where
  "feed_widths MtL2Delta = [4, 8, 1, 1, 8, 8, 4]"
| "feed_widths MtL3Order = [4, 8, 1, 8, 1, 8, 8, 8, 8]"
| "feed_widths MtL3Fill = [4, 8, 8, 8, 8, 8, 8]"
| "feed_widths MtTradeTick = [4, 8, 8, 8, 8, 8, 8, 1]"
| "feed_widths MtSnapshotStart = [4, 8, 8]"
| "feed_widths MtSnapshotEnd = [4, 8, 4]"
| "feed_widths _ = []"

lemma feedPayload_sound:
  assumes "expectedPayloadSize t \<le> length p" "feedPayload t p = Some m"
  shows "feed_ok m \<and> feed_type m = t \<and> feed_body m = take (expectedPayloadSize t) p"
proof -
  have "feed_ok m \<and> feed_type m = t \<and> feed_body m = wire_fields (feed_widths t) p"
    using assms by (cases t) (auto simp: feedPayload_def feed_body_def feed_encoder_defs feed_size_defs feed_writeHeader_same wire_puts)
  moreover have "sum_list (feed_widths t) = expectedPayloadSize t" if "feedPayload t p \<noteq> None"
    using that by (cases t) (simp_all add: feedPayload_def)
  ultimately show ?thesis using assms(2) by (simp add: wire_fields_take)
qed

lemma fe_next_frame:
  assumes "\<not> fe_terminal d" "feed_ok m" "fe_buf d = feed_encode m @ rest"
  shows "fe_next d = (Got m, d\<lparr>fe_buf := rest\<rparr>)"
  using assms(1) frame_reads [OF assms(3) [unfolded feed_encode_frame] feed_body_length] frame_len_le [of "feed_type m"]
    feedPayload_encoded [OF assms(2), of rest]
  by (simp add: fe_next_def unat_frame_len isKnownMessageType_def Let_def fe_consume_def not_less)
    (simp add: frame_len_def)

lemma fe_next_partial:
  assumes "\<not> fe_terminal d" "feed_encode m = fe_buf d @ suf" "suf \<noteq> []"
  shows "fe_next d = (Wait, d)"
  using frame_prefix_reads [OF assms(2) [unfolded feed_encode_frame] assms(3) feed_body_length]
    assms(1) frame_len_le [of "feed_type m"]
  by (cases "length (fe_buf d) < kFrameHeaderSize") (simp_all add: fe_next_def unat_frame_len Let_def)

lemma fe_next_sound:
  assumes "fe_next d = (Got m, d')"
  shows "\<not> fe_terminal d \<and> feed_ok m \<and> fe_buf d = feed_encode m @ fe_buf d' \<and> d' = d\<lparr>fe_buf := fe_buf d'\<rparr>"
proof -
  define p where "p = drop (kFrameHeaderSize + kMsgTypeSize) (fe_buf d)"
  obtain t where t: "type_of_code (getU8 (drop kFrameHeaderSize (fe_buf d))) = Some t" and live: "\<not> fe_terminal d"
    and len: "unat (getU32 (fe_buf d)) = frame_len t" and fits: "kFrameHeaderSize + frame_len t \<le> length (fe_buf d)"
    and dec: "feedPayload t p = Some m" and d': "d' = fe_consume d (kFrameHeaderSize + frame_len t)"
    using assms by (auto simp: fe_next_def Let_def fe_fail_def isKnownMessageType_def p_def not_less frame_len_def
      split: if_splits option.splits)
  have sound: "feed_ok m" "feed_type m = t" "feed_body m = take (expectedPayloadSize t) p"
    using feedPayload_sound [OF _ dec] fits by (simp_all add: p_def frame_len_def)
  have "fe_buf d = feed_encode m @ fe_buf d'"
    using frame_recovered [OF fits len type_of_code_Some [OF t]] sound by (simp add: feed_encode_frame d' fe_consume_def p_def)
  with live sound(1) show ?thesis by (simp add: d' fe_consume_def)
qed

interpretation fe: framed_decoder fe_next fe_feed fe_buf "\<lambda>d b. d\<lparr>fe_buf := b\<rparr>" "\<lambda>d. \<not> fe_terminal d" "\<lambda>d. feed_ok" feed_encode feed_kCapacity
  "kFrameHeaderSize + kMaxFrame"
proof unfold_locales
  show "length (feed_encode m) \<le> kFrameHeaderSize + kMaxFrame" for m
    using frame_bytes_length [OF feed_body_length [of m]] frame_len_le(2) [of "feed_type m"] by (simp add: feed_encode_frame)
  show "fe_next d = (Wait, d)" if "\<not> fe_terminal d" "fe_buf d = []" for d
    using that by (simp add: fe_next_def kFrameHeaderSize_def)
qed (simp_all add: fe_next_frame fe_next_partial fe_feed_def feed_encode_frame frame_bytes_nonempty)

end
