(* ===== verification/Feed_Properties.thy ===== *)
theory Feed_Properties
  imports Feed_Codec
begin

text \<open>
  The property of the market-data codec.
\<close>

text \<open>
  A subscriber decodes exactly the feed that was sent: for every list of feed messages and every
  split of their concatenated frames into reads of at most 188 bytes, feeding and draining yields the
  messages in order and leaves the decoder empty.
\<close>

theorem feed_stream_roundtrip:
  assumes "\<forall>m\<in>set ms. feed_ok m" "concat reads = concat (map feed_encode ms)" "\<forall>c\<in>set reads. length c \<le> 188"
  shows "receive_with fe_feed fe_next newFeedDecoder reads = Some (ms, newFeedDecoder)"
proof -
  have "receive_with fe_feed fe_next newFeedDecoder reads = Some (ms, newFeedDecoder\<lparr>fe_buf := []\<rparr>)"
  proof (rule fe.receive_stream [of newFeedDecoder ms reads])
    show "fe_buf newFeedDecoder @ concat reads = concat (map feed_encode ms)" using assms(2) by (simp add: newFeedDecoder_def)
    show "\<forall>c\<in>set reads. length c + (kFrameHeaderSize + kMaxFrame) \<le> feed_kCapacity"
      using assms(3) by (simp add: kFrameHeaderSize_def kMaxFrame_def feed_kCapacity_def)
    show "\<forall>m\<in>set ms. feed_ok m" by (rule assms(1))
  qed (simp_all add: newFeedDecoder_def pending_def)
  then show ?thesis by (simp add: newFeedDecoder_def)
qed

definition demo_feed :: "DecodedFeedMessage list" where
  "demo_feed =
     [FSnapshotStart \<lparr>ss_instrumentId = 1, ss_feedSeq = 1, ss_restingOrders = 0\<rparr>,
      FTradeTick \<lparr>tk_instrumentId = 1, tk_feedSeq = 2, tk_tradeId = 9, tk_aggressorId = 5, tk_passiveId = 4, tk_price = 100,
        tk_quantity = 3, tk_aggressorSide = 1\<rparr>]"

lemma demo_feed_ok: "\<forall>m\<in>set demo_feed. feed_ok m"
  by (simp add: demo_feed_def in_i64_def)

lemma demo_feed_length: "length (concat (map feed_encode demo_feed)) = 83"
  by (simp add: demo_feed_def feed_encoder_defs feed_writeHeader_same)

theorem feed_stream_roundtrip_witness:
  "receive_with fe_feed fe_next newFeedDecoder [take 30 (concat (map feed_encode demo_feed)), drop 30 (concat (map feed_encode demo_feed))]
    = Some (demo_feed, newFeedDecoder)"
  using feed_stream_roundtrip [of demo_feed "[take 30 (concat (map feed_encode demo_feed)), drop 30 (concat (map feed_encode demo_feed))]"]
    demo_feed_ok demo_feed_length
  by (simp only: concat.simps append_take_drop_id append_Nil2) simp

end
