(* ===== verification/Crc32.thy ===== *)
theory Crc32
  imports Wire_Codec
begin

text \<open>
  The checksum of the journal and of the snapshots (\<^verbatim>\<open>common/crc32.hpp\<close>): the table driven loop, the bitwise
  definition it implements, and that it tells any two byte strings apart that differ in one byte.
\<close>

section \<open>common/crc32.hpp\<close>

definition kPoly :: "32 word" where
  "kPoly = 0xEDB88320"

text \<open>One iteration of the inner loop of \<^verbatim>\<open>makeCrc32Table\<close>.\<close>

definition crc_bit :: "32 word \<Rightarrow> 32 word" where
  "crc_bit c = (if c AND 1 \<noteq> 0 then kPoly XOR drop_bit 1 c else drop_bit 1 c)"

definition makeCrc32Table :: "32 word list" where
  "makeCrc32Table = map (\<lambda>i. (crc_bit ^^ 8) (of_nat i)) [0..<256]"

definition crc_step :: "32 word \<Rightarrow> byte \<Rightarrow> 32 word" where
  "crc_step c b = makeCrc32Table ! unat ((c XOR ucast b) AND 0xFF) XOR drop_bit 8 c"

definition crc32 :: "byte list \<Rightarrow> 32 word" where
  "crc32 data = foldl crc_step 0xFFFFFFFF data XOR 0xFFFFFFFF"

section \<open>The table agrees with bit-by-bit division\<close>

lemma and_one_iff: "(c :: 32 word) AND 1 \<noteq> 0 \<longleftrightarrow> bit c 0"
  by (simp add: and_one_eq odd_iff_mod_2_eq_one [symmetric] bit_0)

lemma crc_bit_xor: "crc_bit (a XOR b) = crc_bit a XOR crc_bit b"
  by (cases "bit a 0"; cases "bit b 0") (simp_all add: crc_bit_def and_one_iff bit_xor_iff drop_bit_xor xor.assoc xor.left_commute)

lemma crc_bits_xor: "(crc_bit ^^ n) (a XOR b) = (crc_bit ^^ n) a XOR (crc_bit ^^ n) b"
  by (induction n) (simp_all add: crc_bit_xor)

lemma crc_bits_shift: "(\<forall>i<n. \<not> bit c i) \<Longrightarrow> (crc_bit ^^ n) c = drop_bit n c"
proof (induction n arbitrary: c)
  case (Suc n)
  then have "crc_bit c = drop_bit 1 c" by (simp add: crc_bit_def and_one_iff)
  moreover have "\<forall>i<n. \<not> bit (drop_bit 1 c) i" using Suc.prems by (simp add: bit_simps)
  ultimately show ?case using Suc.IH [of "drop_bit 1 c"] by (simp add: funpow_swap1)
qed simp

text \<open>The routine the table stands for: eight division steps per byte.\<close>

lemma crc_step_bits: "crc_step c b = (crc_bit ^^ 8) (c XOR ucast b)"
proof -
  define x where "x = c XOR ucast b"
  define lo where "lo = x AND 0xFF"
  have mask: "(0xFF :: 32 word) = mask 8" by (simp add: mask_eq_exp_minus_1)
  have lo_bit: "bit lo i \<longleftrightarrow> i < 8 \<and> bit x i" for i by (auto simp: lo_def mask bit_simps)
  have "x = (x XOR lo) XOR lo" by (simp add: xor.assoc)
  then have "(crc_bit ^^ 8) x = (crc_bit ^^ 8) (x XOR lo) XOR (crc_bit ^^ 8) lo" by (metis crc_bits_xor)
  also have "(crc_bit ^^ 8) (x XOR lo) = drop_bit 8 (x XOR lo)" by (rule crc_bits_shift) (simp add: bit_simps lo_bit)
  also have "drop_bit 8 (x XOR lo) = drop_bit 8 c"
    using bit_imp_le_length [of b] by (intro bit_word_eqI) (force simp: bit_simps lo_bit x_def)
  also have "(crc_bit ^^ 8) lo = makeCrc32Table ! unat lo"
  proof -
    have "lo = take_bit 8 x" by (simp add: lo_def mask take_bit_eq_mask)
    then have "unat lo = take_bit 8 (unat x)" by (simp add: unsigned_take_bit_eq)
    then have "unat lo < 256" using take_bit_nat_less_exp [of 8 "unat x"] by simp
    then show ?thesis by (simp add: makeCrc32Table_def)
  qed
  finally show ?thesis by (simp add: crc_step_def x_def lo_def xor.commute)
qed

section \<open>Error detection\<close>

lemma xor_cancel: "a XOR x = a XOR y \<Longrightarrow> x = y" "x XOR a = y XOR a \<Longrightarrow> x = y" for a x y :: "'a::len word"
  by (auto simp: bit_eq_iff bit_simps)

lemma crc_bit_inj: "crc_bit a = crc_bit b \<Longrightarrow> a = b"
proof -
  assume eq: "crc_bit a = crc_bit b"
  have top: "bit kPoly 31" by code_simp
  have "\<not> bit c 32" for c :: "32 word" using bit_imp_le_length [of c 32] by auto
  then have drop: "\<not> bit (drop_bit (Suc 0) c) 31" for c :: "32 word" by (simp add: bit_drop_bit_eq)
  have low: "bit (crc_bit c) 31 \<longleftrightarrow> bit c 0" for c by (simp add: crc_bit_def and_one_iff bit_xor_iff top drop)
  have b0: "bit a 0 \<longleftrightarrow> bit b 0" using low [of a] low [of b] eq by simp
  have "drop_bit 1 a = drop_bit 1 b"
    using eq b0 xor_cancel(1) [of kPoly "drop_bit 1 a" "drop_bit 1 b"] unfolding crc_bit_def and_one_iff by (cases "bit b 0") simp_all
  then have "bit (drop_bit 1 a) n = bit (drop_bit 1 b) n" for n by simp
  then have "bit a (Suc n) = bit b (Suc n)" for n by (simp add: bit_drop_bit_eq)
  then have "bit a n = bit b n" for n using b0 by (cases n) simp_all
  then show "a = b" by (rule bit_eqI)
qed

lemma crc_bits_inj: "(crc_bit ^^ n) a = (crc_bit ^^ n) b \<Longrightarrow> a = b"
  by (induction n) (auto dest: crc_bit_inj)

lemma crc_step_inj: "crc_step c b = crc_step c' b \<Longrightarrow> c = c'" "crc_step c b = crc_step c b' \<Longrightarrow> b = b'"
proof -
  assume "crc_step c b = crc_step c' b"
  then have "c XOR ucast b = c' XOR ucast b" using crc_bits_inj by (auto simp: crc_step_bits)
  then show "c = c'" by (rule xor_cancel(2))
next
  assume "crc_step c b = crc_step c b'"
  then have "c XOR ucast b = c XOR ucast b'" using crc_bits_inj by (auto simp: crc_step_bits)
  then have eq: "(ucast b :: 32 word) = ucast b'" by (rule xor_cancel(1))
  show "b = b'"
  proof (rule bit_word_eqI)
    fix n assume "n < LENGTH(8)"
    moreover have "bit (ucast b :: 32 word) n = bit (ucast b' :: 32 word) n" using eq by simp
    ultimately show "bit b n = bit b' n" by (simp add: bit_simps)
  qed
qed

lemma crc_fold_inj: "foldl crc_step c xs = foldl crc_step c' xs \<Longrightarrow> c = c'"
  by (induction xs arbitrary: c c') (auto dest: crc_step_inj(1))

lemma crc32_one_byte:
  assumes "b \<noteq> b'"
  shows "crc32 (xs @ b # ys) \<noteq> crc32 (xs @ b' # ys)"
proof
  assume "crc32 (xs @ b # ys) = crc32 (xs @ b' # ys)"
  then have "foldl crc_step (foldl crc_step 0xFFFFFFFF xs) (b # ys) = foldl crc_step (foldl crc_step 0xFFFFFFFF xs) (b' # ys)"
    using xor_cancel(2) by (simp add: crc32_def) blast
  then have "crc_step (foldl crc_step 0xFFFFFFFF xs) b = crc_step (foldl crc_step 0xFFFFFFFF xs) b'"
    using crc_fold_inj by auto
  with crc_step_inj(2) assms show False by blast
qed

end
