(* ===== verification/Disk_Model.thy ===== *)
theory Disk_Model
  imports Wire_Codec "HOL-Library.List_Lexorder" "HOL-Library.Char_ord" "HOL-Library.AList"
begin

text \<open>
  Files, directories and the system calls the journal and the snapshots make of them, with a crash as the
  loss of bytes that were never synced; and the decimal file names, which sort like the numbers they print.
\<close>

section \<open>File names\<close>

text \<open>Decimal digits, as \<^verbatim>\<open>snprintf\<close> prints them.\<close>

fun decimal :: "nat \<Rightarrow> string" where
  "decimal n = (if n < 10 then [char_of (48 + n)] else decimal (n div 10) @ [char_of (48 + n mod 10)])"

declare decimal.simps [simp del]

text \<open>The conversion \<^verbatim>\<open>%016llu\<close>: at least sixteen digits, with leading zeros.\<close>

definition fmt016 :: "nat \<Rightarrow> string" where
  "fmt016 n = replicate (16 - length (decimal n)) (CHR ''0'') @ decimal n"

text \<open>\<^verbatim>\<open>std::filesystem::path::extension\<close>: from the last period on, unless that is the first character.\<close>

definition extension :: "string \<Rightarrow> string" where
  "extension name =
     (let r = takeWhile (\<lambda>c. c \<noteq> CHR ''.'') (rev name)
      in if Suc (length r) \<ge> length name then [] else CHR ''.'' # rev r)"

definition digit :: "char \<Rightarrow> nat" where
  "digit c = of_char c - 48"

definition digits_value :: "string \<Rightarrow> nat" where
  "digits_value = foldl (\<lambda>v c. 10 * v + digit c) 0"

definition is_digit :: "char \<Rightarrow> bool" where
  "is_digit c \<longleftrightarrow> 48 \<le> (of_char c :: nat) \<and> (of_char c :: nat) \<le> 57"

lemma digits_value_append [simp]: "digits_value (xs @ [c]) = 10 * digits_value xs + digit c"
  by (simp add: digits_value_def)

lemma digits_value_single [simp]: "digits_value [c] = digit c"
  by (simp add: digits_value_def)

lemma digit_char [simp]: "k < 10 \<Longrightarrow> digit (char_of (48 + k)) = k" "k < 10 \<Longrightarrow> is_digit (char_of (48 + k))"
  by (simp_all add: digit_def is_digit_def of_char_of)

lemma decimal_value: "digits_value (decimal n) = n" "list_all is_digit (decimal n)"
proof (induction n rule: decimal.induct)
  case (1 n)
  { case 1 show ?case using "1.IH"(1) by (subst decimal.simps) simp }
  { case 2 show ?case using "1.IH"(2) by (subst decimal.simps) simp }
qed

lemma digits_value_zeros: "digits_value (replicate k (CHR ''0'') @ xs) = digits_value xs"
  by (induction k) (simp_all add: digits_value_def digit_def)

lemma decimal_length: "n < 10 ^ Suc k \<Longrightarrow> length (decimal n) \<le> Suc k"
proof (induction k arbitrary: n)
  case (Suc k)
  then have "n div 10 < 10 ^ Suc k" by (simp add: less_mult_imp_div_less)
  from Suc.IH [OF this] show ?case by (subst decimal.simps) simp
qed (subst decimal.simps, simp)

lemma fmt016_facts:
  assumes "n < 10 ^ 16"
  shows "length (fmt016 n) = 16" "digits_value (fmt016 n) = n" "list_all is_digit (fmt016 n)"
proof -
  have "length (decimal n) \<le> 16" using decimal_length [of n 15] assms by simp
  then show "length (fmt016 n) = 16" by (simp add: fmt016_def)
  show "digits_value (fmt016 n) = n" by (simp add: fmt016_def digits_value_zeros decimal_value)
  show "list_all is_digit (fmt016 n)" using decimal_value(2) [of n]
    by (auto simp: fmt016_def list_all_iff is_digit_def)
qed

lemma foldl_digits: "foldl (\<lambda>v c. 10 * v + digit c) a xs = a * 10 ^ length xs + digits_value xs"
proof (induction xs arbitrary: a)
  case (Cons x xs)
  have "foldl (\<lambda>v c. 10 * v + digit c) (digit x) xs = digit x * 10 ^ length xs + digits_value xs" by (rule Cons)
  moreover have "digits_value (x # xs) = foldl (\<lambda>v c. 10 * v + digit c) (digit x) xs" by (simp add: digits_value_def)
  ultimately show ?case using Cons [of "10 * a + digit x"] by (simp add: algebra_simps)
qed (simp add: digits_value_def)

lemma digits_value_Cons: "digits_value (x # xs) = digit x * 10 ^ length xs + digits_value xs"
  using foldl_digits [of "digit x" xs] by (simp add: digits_value_def)

lemma digits_value_bound: "list_all is_digit xs \<Longrightarrow> digits_value xs < 10 ^ length xs"
proof (induction xs)
  case (Cons x xs)
  have "digit x \<le> 9" using Cons.prems by (auto simp: digit_def is_digit_def)
  then have "digit x * 10 ^ length xs \<le> 9 * 10 ^ length xs" by (rule mult_le_mono1)
  moreover have "digits_value xs < 10 ^ length xs" using Cons by simp
  ultimately show ?case unfolding digits_value_Cons length_Cons power_Suc by linarith
qed (simp add: digits_value_def)

text \<open>Digit strings of one length sort like the numbers they print.\<close>

lemma digits_less:
  assumes "length xs = length ys" "list_all is_digit xs" "list_all is_digit ys" "digits_value xs < digits_value ys"
  shows "xs @ zs < ys @ zs'"
  using assms
proof (induction xs ys rule: list_induct2)
  case (Cons x xs y ys)
  have bx: "digits_value xs < 10 ^ length ys" "digits_value ys < 10 ^ length ys"
    using digits_value_bound [of xs] digits_value_bound [of ys] Cons by auto
  have "digit x \<le> digit y"
  proof (rule ccontr)
    assume "\<not> digit x \<le> digit y"
    then have "Suc (digit y) * 10 ^ length ys \<le> digit x * 10 ^ length ys" by (intro mult_le_mono1) simp
    then show False using Cons.prems(3) Cons.hyps bx by (simp add: digits_value_Cons)
  qed
  then consider "digit x < digit y" | "digit x = digit y" by linarith
  then show ?case
  proof cases
    case 1
    then have "x < y" using Cons.prems by (simp add: digit_def is_digit_def less_char_def)
    then show ?thesis by simp
  next
    case 2
    have "48 \<le> (of_char x :: nat)" "48 \<le> (of_char y :: nat)" using Cons.prems by (simp_all add: is_digit_def)
    with 2 have "(of_char x :: nat) = of_char y" unfolding digit_def by arith
    then have "x = y" by (rule injD [OF inj_of_char])
    then show ?thesis using Cons 2 by (simp add: digits_value_Cons)
  qed
qed (simp add: digits_value_def)

lemma fmt016_less:
  assumes "m < n" "n < 10 ^ 16"
  shows "pre @ fmt016 m @ zs < pre @ fmt016 n @ zs'"
proof -
  have "fmt016 m @ zs < fmt016 n @ zs'"
    by (rule digits_less) (use assms fmt016_facts [of m] fmt016_facts [of n] in simp_all)
  then show ?thesis by (induction pre) simp_all
qed

section \<open>Files\<close>

text \<open>
  A file is its bytes and the length of the prefix that is known to be on stable storage: \<^verbatim>\<open>fsync\<close> raises it
  to the whole length, and a write leaves it alone. After a crash a file holds some prefix of its
  bytes that is at least that long, and what it holds then is on stable storage.
\<close>

record dfile =
  f_bytes :: "byte list"
  f_synced :: nat

type_synonym dir = "(string \<times> dfile) list"

text \<open>
  The outcome of a system call is chosen by the environment, one choice per call: it succeeds, it fails, or
  a write stores fewer bytes than asked. The number of calls made so far is part of the state.
\<close>

datatype io = Done | Fails | Short nat

type_synonym env = "nat \<Rightarrow> io"

record world =
  w_dir :: dir
  w_calls :: nat

definition tick_call :: "world \<Rightarrow> world" where
  "tick_call w = w\<lparr>w_calls := Suc (w_calls w)\<rparr>"

definition put_file :: "world \<Rightarrow> string \<Rightarrow> dfile \<Rightarrow> world" where
  "put_file w name f = w\<lparr>w_dir := AList.update name f (w_dir w)\<rparr>"

text \<open>\<^verbatim>\<open>open(name, O_WRONLY | O_CREAT | O_TRUNC)\<close>\<close>

definition sys_create :: "env \<Rightarrow> world \<Rightarrow> string \<Rightarrow> bool \<times> world" where
  "sys_create io w name =
     (let w' = tick_call w
      in case io (w_calls w) of Done \<Rightarrow> (True, put_file w' name \<lparr>f_bytes = [], f_synced = 0\<rparr>) | _ \<Rightarrow> (False, w'))"

text \<open>\<^verbatim>\<open>open\<close> of an existing file, and \<^verbatim>\<open>lseek\<close> to its end.\<close>

definition sys_open :: "env \<Rightarrow> world \<Rightarrow> string \<Rightarrow> bool \<times> world" where
  "sys_open io w name = (map_of (w_dir w) name \<noteq> None \<and> io (w_calls w) = Done, tick_call w)"

definition sys_seek :: "env \<Rightarrow> world \<Rightarrow> string \<Rightarrow> bool \<times> world" where
  "sys_seek io w name = (io (w_calls w) = Done, tick_call w)"

text \<open>\<^verbatim>\<open>write\<close> at the end of the file: how many bytes were written, \<^const>\<open>None\<close> for an error.\<close>

definition sys_write :: "env \<Rightarrow> world \<Rightarrow> string \<Rightarrow> byte list \<Rightarrow> nat option \<times> world" where
  "sys_write io w name data =
     (let w' = tick_call w
      in case map_of (w_dir w) name of
           None \<Rightarrow> (None, w')
         | Some f \<Rightarrow>
             (case io (w_calls w) of
                Done \<Rightarrow> (Some (length data), put_file w' name (f\<lparr>f_bytes := f_bytes f @ data\<rparr>))
              | Short n \<Rightarrow> (Some (min n (length data)), put_file w' name (f\<lparr>f_bytes := f_bytes f @ take n data\<rparr>))
              | Fails \<Rightarrow> (None, w')))"

definition sys_fsync :: "env \<Rightarrow> world \<Rightarrow> string \<Rightarrow> bool \<times> world" where
  "sys_fsync io w name =
     (let w' = tick_call w
      in case map_of (w_dir w) name of
           None \<Rightarrow> (False, w')
         | Some f \<Rightarrow>
             (case io (w_calls w) of
                Done \<Rightarrow> (True, put_file w' name (f\<lparr>f_synced := length (f_bytes f)\<rparr>))
              | _ \<Rightarrow> (False, w')))"

text \<open>\<^verbatim>\<open>ftruncate\<close>: the file gets exactly \<open>n\<close> bytes, zeros where it was shorter.\<close>

definition sys_truncate :: "env \<Rightarrow> world \<Rightarrow> string \<Rightarrow> nat \<Rightarrow> bool \<times> world" where
  "sys_truncate io w name n =
     (let w' = tick_call w
      in case map_of (w_dir w) name of
           None \<Rightarrow> (False, w')
         | Some f \<Rightarrow>
             (case io (w_calls w) of
                Done \<Rightarrow> (True, put_file w' name \<lparr>f_bytes = take n (f_bytes f @ replicate n 0), f_synced = min n (f_synced f)\<rparr>)
              | _ \<Rightarrow> (False, w')))"

text \<open>\<^verbatim>\<open>rename\<close> replaces the target if there is one; \<^verbatim>\<open>remove\<close> deletes a name.\<close>

definition sys_rename :: "env \<Rightarrow> world \<Rightarrow> string \<Rightarrow> string \<Rightarrow> bool \<times> world" where
  "sys_rename io w a b =
     (let w' = tick_call w
      in case map_of (w_dir w) a of
           None \<Rightarrow> (False, w')
         | Some f \<Rightarrow>
             (case io (w_calls w) of
                Done \<Rightarrow> (True, w'\<lparr>w_dir := AList.update b f (AList.delete a (w_dir w))\<rparr>)
              | _ \<Rightarrow> (False, w')))"

definition sys_remove :: "env \<Rightarrow> world \<Rightarrow> string \<Rightarrow> world" where
  "sys_remove io w a =
     (let w' = tick_call w
      in case io (w_calls w) of Done \<Rightarrow> w'\<lparr>w_dir := AList.delete a (w_dir w)\<rparr> | _ \<Rightarrow> w')"

text \<open>What a crash may leave of a file and of a directory.\<close>

definition crash_file :: "dfile \<Rightarrow> dfile \<Rightarrow> bool" where
  "crash_file f g \<longleftrightarrow> (\<exists>k. f_synced f \<le> k \<and> k \<le> length (f_bytes f) \<and> g = \<lparr>f_bytes = take k (f_bytes f), f_synced = k\<rparr>)"

definition crash_dir :: "dir \<Rightarrow> dir \<Rightarrow> bool" where
  "crash_dir d e \<longleftrightarrow> map fst e = map fst d \<and> list_all2 (\<lambda>(n, f) (n', g). crash_file f g) d e"

end
