(* ===== verification/Journal_Writer.thy ===== *)
theory Journal_Writer
  imports Crc32 Disk_Model Matching_Thread
begin

text \<open>
  The journal format and its writer (\<^verbatim>\<open>sequencer/journal_format.hpp\<close>, \<^verbatim>\<open>sequencer/journal_writer.hpp\<close>).
\<close>

section \<open>sequencer/journal\_format.hpp\<close>

definition kJournalMagic :: "32 word" where "kJournalMagic = 0x534A5856"
definition kJournalVersion :: "32 word" where "kJournalVersion = 1"

record SegmentHeader =
  sg_magic :: "32 word"
  sg_version :: "32 word"
  sg_firstSeq :: "64 word"
  sg_createdCounter :: "64 word"

definition kSegmentHeaderSize :: nat where "kSegmentHeaderSize = 32"

definition encodeSegmentHeader :: "SegmentHeader \<Rightarrow> byte list" where
  "encodeSegmentHeader h =
     (let out = putU32 (sg_magic h) @ putU32 (sg_version h) @ putU64 (sg_firstSeq h) @ putU64 (sg_createdCounter h) @ putU32 0
      in out @ putU32 (crc32 out))"

text \<open>The fields read, and whether magic, version and checksum are right.\<close>

definition decodeSegmentHeader :: "byte list \<Rightarrow> bool \<times> SegmentHeader" where
  "decodeSegmentHeader b =
     (let h = \<lparr>sg_magic = getU32 b, sg_version = getU32 (drop 4 b), sg_firstSeq = getU64 (drop 8 b), sg_createdCounter = getU64 (drop 16 b)\<rparr>;
          storedCrc = getU32 (drop 28 b);
          crc = crc32 (take 28 b)
      in (sg_magic h = kJournalMagic \<and> sg_version h = kJournalVersion \<and> crc = storedCrc, h))"

text \<open>
  The payload of a record is the memory image of a \<^verbatim>\<open>Command\<close>: five 64-bit fields, three one-byte
  enumerations and five bytes of padding whose contents the language leaves open.
\<close>

definition kCommandSize :: nat where "kCommandSize = 48"
definition kRecordFixedSize :: nat where "kRecordFixedSize = 16"
definition kRecordCrcSize :: nat where "kRecordCrcSize = 4"
definition kRecordSize :: nat where "kRecordSize = kRecordFixedSize + kCommandSize + kRecordCrcSize"

fun kind_code :: "CommandKind \<Rightarrow> byte" where
  "kind_code New = 0" | "kind_code Cancel = 1" | "kind_code Replace = 2"

definition kind_of_code :: "byte \<Rightarrow> CommandKind option" where
  "kind_of_code raw = (if raw = 0 then Some New else if raw = 1 then Some Cancel else if raw = 2 then Some Replace else None)"

fun otype_code :: "OrderType \<Rightarrow> byte" where
  "otype_code Limit = 0" | "otype_code Market = 1" | "otype_code Ioc = 2" | "otype_code Fok = 3"

definition otype_of_code :: "byte \<Rightarrow> OrderType option" where
  "otype_of_code raw =
     (if raw = 0 then Some Limit else if raw = 1 then Some Market else if raw = 2 then Some Ioc else if raw = 3 then Some Fok else None)"

definition oside_of_code :: "byte \<Rightarrow> Side option" where
  "oside_of_code raw = (if raw = 0 then Some Buy else if raw = 1 then Some Sell else None)"

definition cmd_image :: "byte list \<Rightarrow> Command \<Rightarrow> byte list" where
  "cmd_image pad c = putI64 (c_id c) @ putI64 (c_newId c) @ putI64 (c_price c) @ putI64 (c_quantity c) @ putI64 (c_participant c) @
     putU8 (kind_code (c_kind c)) @ putU8 (side_code (c_side c)) @ putU8 (otype_code (c_type c)) @ pad"

text \<open>The command in an image; \<^const>\<open>None\<close> when a byte is no enumerator, which no writer stores.\<close>

definition image_cmd :: "byte list \<Rightarrow> Command option" where
  "image_cmd b =
     (case (kind_of_code (getU8 (drop 40 b)), oside_of_code (getU8 (drop 41 b)), otype_of_code (getU8 (drop 42 b))) of
        (Some k, Some s, Some t) \<Rightarrow>
          Some \<lparr>c_id = getI64 b, c_newId = getI64 (drop 8 b), c_price = getI64 (drop 16 b), c_quantity = getI64 (drop 24 b),
            c_participant = getI64 (drop 32 b), c_kind = k, c_side = s, c_type = t\<rparr>
      | _ \<Rightarrow> None)"

definition encodeRecord :: "byte list \<Rightarrow> Seq \<Rightarrow> CommandKind \<Rightarrow> Command \<Rightarrow> byte list" where
  "encodeRecord pad globalSeq kind cmd =
     (let out = putU32 (of_nat kCommandSize) @ putU64 (of_int globalSeq) @ putU8 (kind_code kind) @ [0, 0, 0] @ cmd_image pad cmd
      in out @ putU32 (crc32 out))"

section \<open>sequencer/journal\_writer.hpp\<close>

datatype FsyncPolicy = PerRecord | Group

text \<open>The descriptor of the open segment is the name of its file.\<close>

record JournalWriter =
  jw_world :: world
  jw_rollBytes :: nat
  jw_policy :: FsyncPolicy
  jw_groupSize :: nat
  jw_fd :: "string option"
  jw_currentPath :: string
  jw_bytesInSegment :: nat
  jw_pendingUnsynced :: nat
  jw_createdCounter :: "64 word"
  jw_lastSeq :: Seq

definition newJournalWriter :: "world \<Rightarrow> nat \<Rightarrow> FsyncPolicy \<Rightarrow> nat \<Rightarrow> JournalWriter" where
  "newJournalWriter w rollBytes policy groupSize =
     \<lparr>jw_world = w, jw_rollBytes = rollBytes, jw_policy = policy, jw_groupSize = (if groupSize = 0 then 1 else groupSize),
      jw_fd = None, jw_currentPath = [], jw_bytesInSegment = 0, jw_pendingUnsynced = 0, jw_createdCounter = 0, jw_lastSeq = 0\<rparr>"

definition segmentName :: "Seq \<Rightarrow> string" where
  "segmentName firstSeq = ''seg-'' @ fmt016 (unat (of_int firstSeq :: 64 word)) @ ''.jnl''"

definition jw_sync :: "env \<Rightarrow> JournalWriter \<Rightarrow> bool \<times> JournalWriter" where
  "jw_sync io jw =
     (case jw_fd jw of
        None \<Rightarrow> (True, jw)
      | Some fd \<Rightarrow>
          (let (ok, w) = sys_fsync io (jw_world jw) fd
           in if \<not> ok then (False, jw\<lparr>jw_world := w\<rparr>) else (True, jw\<lparr>jw_world := w, jw_pendingUnsynced := 0\<rparr>)))"

definition openSegment :: "env \<Rightarrow> JournalWriter \<Rightarrow> Seq \<Rightarrow> bool \<times> JournalWriter" where
  "openSegment io jw firstSeq =
     (let path = segmentName firstSeq;
          (created, w1) = sys_create io (jw_world jw) path;
          jw1 = jw\<lparr>jw_world := w1, jw_currentPath := path\<rparr>
      in if \<not> created then (False, jw1\<lparr>jw_fd := None\<rparr>)
         else
           (let h = \<lparr>sg_magic = kJournalMagic, sg_version = kJournalVersion, sg_firstSeq = of_int firstSeq, sg_createdCounter = jw_createdCounter jw\<rparr>;
                (n, w2) = sys_write io w1 path (encodeSegmentHeader h);
                jw2 = jw1\<lparr>jw_world := w2, jw_createdCounter := jw_createdCounter jw + 1\<rparr>
            in if n \<noteq> Some kSegmentHeaderSize then (False, jw2\<lparr>jw_fd := None\<rparr>)
               else
                 (let (ok, w3) = sys_fsync io w2 path
                  in (ok, jw2\<lparr>jw_world := w3, jw_fd := Some path, jw_bytesInSegment := kSegmentHeaderSize\<rparr>))))"

definition rollSegment :: "env \<Rightarrow> JournalWriter \<Rightarrow> Seq \<Rightarrow> bool \<times> JournalWriter" where
  "rollSegment io jw nextFirstSeq =
     (let (ok, jw1) = jw_sync io jw
      in if \<not> ok then (False, jw1) else openSegment io (jw1\<lparr>jw_fd := None\<rparr>) nextFirstSeq)"

definition jw_append :: "env \<Rightarrow> byte list \<Rightarrow> JournalWriter \<Rightarrow> Seq \<Rightarrow> CommandKind \<Rightarrow> Command \<Rightarrow> bool \<times> JournalWriter" where
  "jw_append io pad jw globalSeq kind cmd =
     (let (ready, jw1) =
            (case jw_fd jw of
               None \<Rightarrow> openSegment io jw globalSeq
             | Some fd \<Rightarrow>
                 if jw_bytesInSegment jw + kRecordSize > jw_rollBytes jw then rollSegment io jw globalSeq else (True, jw))
      in if \<not> ready then (False, jw1)
         else
           (let (n, w) = sys_write io (jw_world jw1) (the (jw_fd jw1)) (encodeRecord pad globalSeq kind cmd);
                jw2 = jw1\<lparr>jw_world := w\<rparr>
            in if n \<noteq> Some kRecordSize then (False, jw2)
               else
                 (let jw3 = jw2\<lparr>jw_bytesInSegment := jw_bytesInSegment jw2 + kRecordSize, jw_lastSeq := globalSeq,
                        jw_pendingUnsynced := jw_pendingUnsynced jw2 + 1\<rparr>
                  in if jw_policy jw3 = PerRecord \<or> jw_pendingUnsynced jw3 \<ge> jw_groupSize jw3 then jw_sync io jw3
                     else (True, jw3))))"

definition jw_close :: "env \<Rightarrow> JournalWriter \<Rightarrow> JournalWriter" where
  "jw_close io jw = (case jw_fd jw of None \<Rightarrow> jw | Some fd \<Rightarrow> (snd (jw_sync io jw))\<lparr>jw_fd := None\<rparr>)"

definition resumeFrom :: "env \<Rightarrow> JournalWriter \<Rightarrow> string \<Rightarrow> nat \<Rightarrow> 64 word \<Rightarrow> Seq \<Rightarrow> bool \<times> JournalWriter" where
  "resumeFrom io jw segmentPath validOffset createdCounter lastSeq =
     (let jw0 = jw_close io jw;
          (opened, w1) = sys_open io (jw_world jw0) segmentPath
      in if \<not> opened then (False, jw0\<lparr>jw_world := w1, jw_fd := None\<rparr>)
         else
           (let (cut, w2) = sys_truncate io w1 segmentPath validOffset
            in if \<not> cut then (False, jw0\<lparr>jw_world := w2, jw_fd := None\<rparr>)
               else
                 (let (sought, w3) = sys_seek io w2 segmentPath
                  in if \<not> sought then (False, jw0\<lparr>jw_world := w3, jw_fd := None\<rparr>)
                     else (True, jw0\<lparr>jw_world := w3, jw_fd := Some segmentPath, jw_currentPath := segmentPath,
                            jw_bytesInSegment := validOffset, jw_createdCounter := createdCounter + 1, jw_lastSeq := lastSeq\<rparr>))))"

end
