(* ===== verification/Journal_Reader.thy ===== *)
theory Journal_Reader
  imports Journal_Writer
begin

text \<open>
  The journal reader and the tailer (\<^verbatim>\<open>sequencer/journal_reader.hpp\<close>, \<^verbatim>\<open>sequencer/journal_tailer.hpp\<close>).
\<close>

section \<open>sequencer/journal\_reader.hpp\<close>

datatype ReadStatus = RdOk | EndOfJournal | TruncatedTail | Corrupt

text \<open>
  \<open>rr_kind\<close> is the kind byte of the record and \<open>rr_command\<close> the command image it carries; both are meaningful
  for \<^const>\<open>RdOk\<close> and \<^const>\<open>Corrupt\<close> only.
\<close>

record ReadResult =
  rr_status :: ReadStatus
  rr_globalSeq :: Seq
  rr_kind :: byte
  rr_command :: "Command option"
  rr_offset :: nat

definition no_record :: "ReadStatus \<Rightarrow> nat \<Rightarrow> ReadResult" where
  "no_record st off = \<lparr>rr_status = st, rr_globalSeq = 0, rr_kind = 0, rr_command = None, rr_offset = off\<rparr>"

record JournalReader =
  jr_segments :: "string list"
  jr_nextSegmentIdx :: nat
  jr_fd :: "string option"
  jr_currentPath :: string
  jr_fileSize :: nat
  jr_offset :: nat
  jr_currentFirstSeq :: Seq
  jr_currentCreatedCounter :: "64 word"
  jr_lastGoodSeq :: Seq

text \<open>
  The reader sees the directory through the file system, so every operation takes the directory as it is at
  the time of the call.
\<close>

definition bytes_of :: "dir \<Rightarrow> string \<Rightarrow> byte list" where
  "bytes_of d name = (case map_of d name of None \<Rightarrow> [] | Some f \<Rightarrow> f_bytes f)"

definition journal_files :: "dir \<Rightarrow> string list" where
  "journal_files d = filter (\<lambda>n. extension n = ''.jnl'') (map fst d)"

definition newJournalReader :: "dir \<Rightarrow> JournalReader" where
  "newJournalReader d =
     \<lparr>jr_segments = sort (journal_files d), jr_nextSegmentIdx = 0, jr_fd = None, jr_currentPath = [], jr_fileSize = 0,
      jr_offset = 0, jr_currentFirstSeq = 0, jr_currentCreatedCounter = 0, jr_lastGoodSeq = 0\<rparr>"

definition hasOpenSegment :: "JournalReader \<Rightarrow> bool" where
  "hasOpenSegment r \<longleftrightarrow> jr_fd r \<noteq> None"

definition closeCurrent :: "JournalReader \<Rightarrow> JournalReader" where
  "closeCurrent r = r\<lparr>jr_fd := None\<rparr>"

definition rescan :: "dir \<Rightarrow> JournalReader \<Rightarrow> JournalReader" where
  "rescan d r =
     (let found = sort (filter (\<lambda>n. \<not> length (bytes_of d n) < kSegmentHeaderSize) (journal_files d));
          known = jr_segments r
      in r\<lparr>jr_segments := foldl (\<lambda>segs p. if segs = [] \<or> (known = [] \<or> p > last known) then segs @ [p] else segs) known found\<rparr>)"

definition refreshFileSize :: "dir \<Rightarrow> JournalReader \<Rightarrow> JournalReader" where
  "refreshFileSize d r = (case jr_fd r of None \<Rightarrow> r | Some fd \<Rightarrow> r\<lparr>jr_fileSize := length (bytes_of d fd)\<rparr>)"

definition openSegmentAtIndex :: "dir \<Rightarrow> JournalReader \<Rightarrow> nat \<Rightarrow> bool \<times> JournalReader" where
  "openSegmentAtIndex d r idx =
     (let path = jr_segments r ! idx;
          r1 = r\<lparr>jr_currentPath := path\<rparr>
      in case map_of d path of
           None \<Rightarrow> (False, r1\<lparr>jr_fd := None\<rparr>)
         | Some f \<Rightarrow>
             (let r2 = r1\<lparr>jr_fd := Some path, jr_fileSize := length (f_bytes f)\<rparr>;
                  hbuf = take kSegmentHeaderSize (f_bytes f)
              in if jr_fileSize r2 < kSegmentHeaderSize \<or> length hbuf \<noteq> kSegmentHeaderSize then (False, closeCurrent r2)
                 else
                   (let (ok, h) = decodeSegmentHeader hbuf
                    in if \<not> ok then (False, closeCurrent r2)
                       else (True, r2\<lparr>jr_currentFirstSeq := sint (sg_firstSeq h), jr_currentCreatedCounter := sg_createdCounter h,
                              jr_offset := kSegmentHeaderSize\<rparr>))))"

function openNextSegment :: "dir \<Rightarrow> JournalReader \<Rightarrow> bool \<times> JournalReader" where
  "openNextSegment d r =
     (if jr_nextSegmentIdx r < length (jr_segments r) then
        (let idx = jr_nextSegmentIdx r;
             (ok, r1) = openSegmentAtIndex d (r\<lparr>jr_nextSegmentIdx := Suc idx\<rparr>) idx
         in if ok then (True, r1) else openNextSegment d r1)
      else (False, r))"
  by auto

lemma openSegmentAtIndex_keeps:
  assumes "openSegmentAtIndex d r idx = (ok, r')"
  shows "jr_segments r' = jr_segments r" "jr_nextSegmentIdx r' = jr_nextSegmentIdx r" "jr_lastGoodSeq r' = jr_lastGoodSeq r"
    "ok \<longleftrightarrow> jr_fd r' \<noteq> None"
  using assms by (auto simp: openSegmentAtIndex_def closeCurrent_def Let_def split: option.splits if_splits prod.splits)

termination openNextSegment
proof (relation "measure (\<lambda>(d, r). length (jr_segments r) - jr_nextSegmentIdx r)")
  fix d r idx x ok r1
  assume a: "jr_nextSegmentIdx r < length (jr_segments r)" "idx = jr_nextSegmentIdx r"
    "x = openSegmentAtIndex d (r\<lparr>jr_nextSegmentIdx := Suc idx\<rparr>) idx" "(ok, r1) = x" "\<not> ok"
  have "openSegmentAtIndex d (r\<lparr>jr_nextSegmentIdx := Suc idx\<rparr>) idx = (ok, r1)" using a(3,4) by simp
  from openSegmentAtIndex_keeps(1,2) [OF this] a(1,2)
  show "((d, r1), d, r) \<in> measure (\<lambda>(d, r). length (jr_segments r) - jr_nextSegmentIdx r)" by simp
qed simp

declare openNextSegment.simps [simp del]

definition torn :: "JournalReader \<Rightarrow> nat \<Rightarrow> ReadResult \<times> JournalReader" where
  "torn r off = (no_record TruncatedTail off, r\<lparr>jr_offset := off\<rparr>)"

definition readOneRecord :: "dir \<Rightarrow> JournalReader \<Rightarrow> ReadResult \<times> JournalReader" where
  "readOneRecord d r =
     (let recordStart = jr_offset r;
          file = bytes_of d (the (jr_fd r))
      in if recordStart = jr_fileSize r then (no_record EndOfJournal recordStart, r)
         else if recordStart + kRecordFixedSize > jr_fileSize r then torn r recordStart
         else
           (let fixed = take kRecordFixedSize (drop recordStart file)
            in if length fixed \<noteq> kRecordFixedSize then torn r recordStart
               else
                 (let payloadLen = unat (getU32 fixed)
                  in if payloadLen \<noteq> kCommandSize then torn r recordStart
                     else
                       (let totalSize = kRecordFixedSize + payloadLen + kRecordCrcSize
                        in if recordStart + totalSize > jr_fileSize r then torn r recordStart
                           else
                             (let buf = take totalSize (drop recordStart file)
                              in if length buf \<noteq> totalSize then torn r recordStart
                                 else
                                   (let storedCrc = getU32 (drop (kRecordFixedSize + payloadLen) buf);
                                        crc = crc32 (take (kRecordFixedSize + payloadLen) buf)
                                    in if crc \<noteq> storedCrc then torn r recordStart
                                       else
                                         (let sq = sint (getU64 (drop 4 buf));
                                              kindByte = getU8 (drop 12 buf);
                                              cmd = image_cmd (take kCommandSize (drop kRecordFixedSize buf));
                                              res = \<lparr>rr_status = RdOk, rr_globalSeq = sq, rr_kind = kindByte, rr_command = cmd, rr_offset = recordStart\<rparr>
                                          in if sq \<noteq> jr_lastGoodSeq r + 1 then (res\<lparr>rr_status := Corrupt\<rparr>, r)
                                             else (res, r\<lparr>jr_offset := recordStart + totalSize, jr_lastGoodSeq := sq\<rparr>))))))))"

lemma readOneRecord_keeps:
  assumes "readOneRecord d r = (res, r')"
  shows "jr_segments r' = jr_segments r" "jr_nextSegmentIdx r' = jr_nextSegmentIdx r" "jr_fd r' = jr_fd r"
  using assms by (auto simp: readOneRecord_def torn_def Let_def split: if_splits)

lemma openNextSegment_keeps:
  assumes "openNextSegment d r = (ok, r')"
  shows "jr_segments r' = jr_segments r" "jr_lastGoodSeq r' = jr_lastGoodSeq r" "ok \<Longrightarrow> jr_nextSegmentIdx r < jr_nextSegmentIdx r'"
    "ok \<Longrightarrow> jr_fd r' \<noteq> None" "ok \<Longrightarrow> jr_nextSegmentIdx r' \<le> length (jr_segments r)" "\<not> ok \<Longrightarrow> jr_fd r = None \<Longrightarrow> jr_fd r' = None"
proof -
  have "jr_segments r' = jr_segments r \<and> jr_lastGoodSeq r' = jr_lastGoodSeq r \<and>
    (ok \<longrightarrow> jr_nextSegmentIdx r < jr_nextSegmentIdx r' \<and> jr_fd r' \<noteq> None \<and> jr_nextSegmentIdx r' \<le> length (jr_segments r)) \<and>
    (\<not> ok \<longrightarrow> jr_fd r = None \<longrightarrow> jr_fd r' = None)"
    using assms
  proof (induction d r arbitrary: ok r' rule: openNextSegment.induct)
    case (1 d r)
    obtain ok1 r1 where o: "openSegmentAtIndex d (r\<lparr>jr_nextSegmentIdx := Suc (jr_nextSegmentIdx r)\<rparr>) (jr_nextSegmentIdx r) = (ok1, r1)" by fastforce
    note k = openSegmentAtIndex_keeps [OF o]
    show ?case
    proof (cases "jr_nextSegmentIdx r < length (jr_segments r) \<and> \<not> ok1")
      case True
      then have "openNextSegment d r1 = (ok, r')" using "1.prems" o by (subst (asm) openNextSegment.simps) simp
      from "1.IH" [OF _ refl o [symmetric] refl _ this] True k show ?thesis by auto
    next
      case False
      then show ?thesis using "1.prems" o k by (subst (asm) openNextSegment.simps) (auto split: if_splits)
    qed
  qed
  then show "jr_segments r' = jr_segments r" "jr_lastGoodSeq r' = jr_lastGoodSeq r" "ok \<Longrightarrow> jr_nextSegmentIdx r < jr_nextSegmentIdx r'"
    "ok \<Longrightarrow> jr_fd r' \<noteq> None" "ok \<Longrightarrow> jr_nextSegmentIdx r' \<le> length (jr_segments r)" "\<not> ok \<Longrightarrow> jr_fd r = None \<Longrightarrow> jr_fd r' = None"
    by auto
qed

text \<open>The loop of \<^verbatim>\<open>next\<close>: a clean end of a segment moves on to the following one.\<close>

function jr_next :: "dir \<Rightarrow> JournalReader \<Rightarrow> ReadResult \<times> JournalReader" where
  "jr_next d r =
     (let (ready, r1) = (if jr_fd r = None then openNextSegment d r else (True, r))
      in if \<not> ready then (no_record EndOfJournal (jr_offset r1), r1)
         else
           (let (res, r2) = readOneRecord d r1
            in if rr_status res = EndOfJournal then jr_next d (closeCurrent r2) else (res, r2)))"
  by auto

termination jr_next
proof (relation "measure (\<lambda>(d, r). 2 * (length (jr_segments r) - jr_nextSegmentIdx r) + (if jr_fd r = None then 0 else 1))")
  fix d r x ready r1 xa res r2
  assume a: "x = (if jr_fd r = None then openNextSegment d r else (True, r))" "(ready, r1) = x" "\<not> \<not> ready"
    "xa = readOneRecord d r1" "(res, r2) = xa" "rr_status res = EndOfJournal"
  have k2: "jr_segments r2 = jr_segments r1" "jr_nextSegmentIdx r2 = jr_nextSegmentIdx r1" "jr_fd r2 = jr_fd r1"
    using readOneRecord_keeps [of d r1 res r2] a by simp_all
  show "((d, closeCurrent r2), d, r) \<in> measure (\<lambda>(d, r). 2 * (length (jr_segments r) - jr_nextSegmentIdx r) + (if jr_fd r = None then 0 else 1))"
  proof (cases "jr_fd r = None")
    case True
    then have "openNextSegment d r = (True, r1)" using a by simp
    from openNextSegment_keeps [OF this] show ?thesis using k2 True by (simp add: closeCurrent_def)
  next
    case False
    then have "r1 = r" using a(1,2) by auto
    then show ?thesis using k2 False by (simp add: closeCurrent_def)
  qed
qed simp

declare jr_next.simps [simp del]

text \<open>The loop of \<^verbatim>\<open>seekTo\<close> over the segments from \<open>idx\<close> on.\<close>

function seekFrom :: "dir \<Rightarrow> JournalReader \<Rightarrow> nat \<Rightarrow> 64 word \<Rightarrow> nat \<Rightarrow> bool \<times> JournalReader" where
  "seekFrom d r idx createdCounter off =
     (if idx < length (jr_segments r) then
        (let (ok, r1) = openSegmentAtIndex d r idx
         in if ok \<and> jr_currentCreatedCounter r1 = createdCounter then (True, r1\<lparr>jr_nextSegmentIdx := Suc idx, jr_offset := off\<rparr>)
            else seekFrom d (if ok then closeCurrent r1 else r1) (Suc idx) createdCounter off)
      else (False, r\<lparr>jr_nextSegmentIdx := length (jr_segments r)\<rparr>))"
  by auto

termination seekFrom
  by (relation "measure (\<lambda>(d, r, idx, c, off). length (jr_segments r) - idx)")
    (auto dest!: openSegmentAtIndex_keeps(1) [OF sym] simp: closeCurrent_def)

declare seekFrom.simps [simp del]

definition seekTo :: "dir \<Rightarrow> JournalReader \<Rightarrow> 64 word \<Rightarrow> nat \<Rightarrow> Seq \<Rightarrow> bool \<times> JournalReader" where
  "seekTo d r createdCounter off lastGoodSeq = seekFrom d ((closeCurrent r)\<lparr>jr_lastGoodSeq := lastGoodSeq\<rparr>) 0 createdCounter off"

section \<open>sequencer/journal\_tailer.hpp\<close>

datatype TailStatus = TOk | NotYet | TCorrupt

record Checkpoint =
  cp_createdCounter :: "64 word"
  cp_offset :: nat
  cp_lastGoodSeq :: Seq

record TailResult =
  tr_status :: TailStatus
  tr_globalSeq :: Seq
  tr_kind :: byte
  tr_command :: "Command option"

record JournalTailer =
  jt_reader :: JournalReader
  jt_needsReseek :: bool

definition isRealCheckpoint :: "Checkpoint \<Rightarrow> bool" where
  "isRealCheckpoint cp \<longleftrightarrow> cp_lastGoodSeq cp \<noteq> 0"

definition newJournalTailer :: "dir \<Rightarrow> Checkpoint \<Rightarrow> JournalTailer" where
  "newJournalTailer d cp =
     (let r = newJournalReader d
      in \<lparr>jt_reader = (if isRealCheckpoint cp then snd (seekTo d r (cp_createdCounter cp) (cp_offset cp) (cp_lastGoodSeq cp)) else r),
          jt_needsReseek = False\<rparr>)"

definition jt_next :: "dir \<Rightarrow> JournalTailer \<Rightarrow> TailResult \<times> JournalTailer" where
  "jt_next d t =
     (let r0 =
            (if jt_needsReseek t then
               (let r = rescan d (jt_reader t)
                in if jr_offset r \<ge> kSegmentHeaderSize
                   then snd (seekTo d r (jr_currentCreatedCounter r) (jr_offset r) (jr_lastGoodSeq r)) else r)
             else if hasOpenSegment (jt_reader t) then refreshFileSize d (jt_reader t)
             else jt_reader t);
          (res, r1) = jr_next d r0
      in case rr_status res of
           RdOk \<Rightarrow> (\<lparr>tr_status = TOk, tr_globalSeq = rr_globalSeq res, tr_kind = rr_kind res, tr_command = rr_command res\<rparr>,
                    \<lparr>jt_reader = r1, jt_needsReseek = False\<rparr>)
         | Corrupt \<Rightarrow> (\<lparr>tr_status = TCorrupt, tr_globalSeq = rr_globalSeq res, tr_kind = rr_kind res, tr_command = rr_command res\<rparr>,
                    \<lparr>jt_reader = r1, jt_needsReseek = False\<rparr>)
         | _ \<Rightarrow> (\<lparr>tr_status = NotYet, tr_globalSeq = 0, tr_kind = 0, tr_command = None\<rparr>, \<lparr>jt_reader = r1, jt_needsReseek = True\<rparr>))"

definition jt_checkpoint :: "JournalTailer \<Rightarrow> Checkpoint" where
  "jt_checkpoint t =
     \<lparr>cp_createdCounter = jr_currentCreatedCounter (jt_reader t), cp_offset = jr_offset (jt_reader t),
      cp_lastGoodSeq = jr_lastGoodSeq (jt_reader t)\<rparr>"

end
