(* ===== verification/Journal_Laws.thy ===== *)
theory Journal_Laws
  imports Journal_Reader
begin

text \<open>
  What the reader returns from a directory of segments whose last file stops anywhere.
\<close>

section \<open>Records round trip\<close>

lemma kind_codes [simp]: "kind_of_code (kind_code k) = Some k"
  by (cases k) (simp_all add: kind_of_code_def)

lemma otype_codes [simp]: "otype_of_code (otype_code t) = Some t"
  by (cases t) (simp_all add: otype_of_code_def)

lemma oside_codes [simp]: "oside_of_code (side_code s) = Some s"
  by (cases s) (simp_all add: oside_of_code_def)

definition cmd_fits :: "Command \<Rightarrow> bool" where
  "cmd_fits c \<longleftrightarrow> in_i64 (c_id c) \<and> in_i64 (c_newId c) \<and> in_i64 (c_price c) \<and> in_i64 (c_quantity c) \<and> in_i64 (c_participant c)"

lemma cmd_image_length [simp]: "length (cmd_image pad c) = 43 + length pad"
  by (simp add: cmd_image_def)

lemma image_cmd_image: "cmd_fits c \<Longrightarrow> image_cmd (cmd_image pad c) = Some c"
  by (simp add: image_cmd_def cmd_image_def cmd_fits_def wire_gets)

text \<open>One appended record: padding, sequence number, kind and command.\<close>

datatype entry = Entry (en_pad: "byte list") (en_seq: Seq) (en_kind: CommandKind) (en_cmd: Command)

definition entry_ok :: "entry \<Rightarrow> bool" where
  "entry_ok e \<longleftrightarrow> length (en_pad e) = 5 \<and> in_i64 (en_seq e) \<and> cmd_fits (en_cmd e)"

definition entry_bytes :: "entry \<Rightarrow> byte list" where
  "entry_bytes e = encodeRecord (en_pad e) (en_seq e) (en_kind e) (en_cmd e)"

text \<open>The part of a record in front of its checksum.\<close>

definition entry_body :: "entry \<Rightarrow> byte list" where
  "entry_body e = putU32 (of_nat kCommandSize) @ putU64 (of_int (en_seq e)) @ putU8 (kind_code (en_kind e)) @ [0, 0, 0] @ cmd_image (en_pad e) (en_cmd e)"

lemma entry_bytes_body: "entry_bytes e = entry_body e @ putU32 (crc32 (entry_body e))"
  by (simp add: entry_bytes_def encodeRecord_def entry_body_def)

lemma entry_body_length: "entry_ok e \<Longrightarrow> length (entry_body e) = kRecordFixedSize + kCommandSize"
  by (simp add: entry_ok_def entry_body_def kRecordFixedSize_def kCommandSize_def)

lemma entry_bytes_length: "entry_ok e \<Longrightarrow> length (entry_bytes e) = kRecordSize"
  by (simp add: entry_bytes_body entry_body_length kRecordSize_def kRecordCrcSize_def)

lemma unat_command_size: "unat (of_nat kCommandSize :: 32 word) = kCommandSize"
  by (simp add: kCommandSize_def)

lemma entry_reads:
  assumes "entry_ok e"
  shows "getU32 (take kRecordFixedSize (entry_bytes e)) = of_nat kCommandSize"
    "getU32 (drop (kRecordFixedSize + kCommandSize) (entry_bytes e)) = crc32 (take (kRecordFixedSize + kCommandSize) (entry_bytes e))"
    "sint (getU64 (drop 4 (entry_bytes e))) = en_seq e" "getU8 (drop 12 (entry_bytes e)) = kind_code (en_kind e)"
    "image_cmd (take kCommandSize (drop kRecordFixedSize (entry_bytes e))) = Some (en_cmd e)"
proof -
  have pad: "length (en_pad e) = 5" "in_i64 (en_seq e)" "cmd_fits (en_cmd e)" using assms by (simp_all add: entry_ok_def)
  show "getU32 (take kRecordFixedSize (entry_bytes e)) = of_nat kCommandSize"
    by (simp add: entry_bytes_body entry_body_def kRecordFixedSize_def wire_gets)
  show "getU32 (drop (kRecordFixedSize + kCommandSize) (entry_bytes e)) = crc32 (take (kRecordFixedSize + kCommandSize) (entry_bytes e))"
    using entry_body_length [OF assms] wire_gets(2) [of "crc32 (entry_body e)" "[]"] by (simp add: entry_bytes_body)
  show "sint (getU64 (drop 4 (entry_bytes e))) = en_seq e"
    using pad(2) by (simp add: entry_bytes_body entry_body_def wire_gets sint_of_int64)
  show "getU8 (drop 12 (entry_bytes e)) = kind_code (en_kind e)"
    by (simp add: entry_bytes_body entry_body_def wire_gets)
  show "image_cmd (take kCommandSize (drop kRecordFixedSize (entry_bytes e))) = Some (en_cmd e)"
    using image_cmd_image [OF pad(3), of "en_pad e"] pad(1)
    by (simp add: entry_bytes_body entry_body_def kRecordFixedSize_def kCommandSize_def)
qed

definition seg_header :: "Seq \<Rightarrow> 64 word \<Rightarrow> SegmentHeader" where
  "seg_header first counter = \<lparr>sg_magic = kJournalMagic, sg_version = kJournalVersion, sg_firstSeq = of_int first, sg_createdCounter = counter\<rparr>"

lemma encodeSegmentHeader_length [simp]: "length (encodeSegmentHeader h) = kSegmentHeaderSize"
  by (simp add: encodeSegmentHeader_def kSegmentHeaderSize_def)

lemma decodeSegmentHeader_header: "decodeSegmentHeader (encodeSegmentHeader (seg_header first counter)) = (True, seg_header first counter)"
  using wire_gets(2) [of _ "[]"]
  by (simp add: decodeSegmentHeader_def encodeSegmentHeader_def seg_header_def wire_gets Let_def)

section \<open>Reading one record\<close>

definition rec_of :: "ReadResult \<Rightarrow> Seq \<times> byte \<times> Command option" where
  "rec_of res = (rr_globalSeq res, rr_kind res, rr_command res)"

definition entry_rec :: "entry \<Rightarrow> Seq \<times> byte \<times> Command option" where
  "entry_rec e = (en_seq e, kind_code (en_kind e), Some (en_cmd e))"

text \<open>A reader with an open segment whose size it knows.\<close>

definition at_file :: "dir \<Rightarrow> JournalReader \<Rightarrow> byte list \<Rightarrow> bool" where
  "at_file d r bytes \<longleftrightarrow> (\<exists>fd. jr_fd r = Some fd \<and> bytes_of d fd = bytes \<and> jr_fileSize r = length bytes)"

lemma readOneRecord_entry:
  assumes at: "at_file d r (pre @ entry_bytes e @ post)" and off: "jr_offset r = length pre" and ok: "entry_ok e"
    and sq: "en_seq e = jr_lastGoodSeq r + 1"
  obtains res where "readOneRecord d r = (res, r\<lparr>jr_offset := length pre + kRecordSize, jr_lastGoodSeq := en_seq e\<rparr>)"
    "rr_status res = RdOk" "rec_of res = entry_rec e"
proof -
  obtain fd where fd: "jr_fd r = Some fd" "bytes_of d fd = pre @ entry_bytes e @ post" "jr_fileSize r = length (pre @ entry_bytes e @ post)"
    using at by (auto simp: at_file_def)
  note len = entry_bytes_length [OF ok] and rd = entry_reads [OF ok]
  have total: "kRecordFixedSize + kCommandSize + kRecordCrcSize = kRecordSize" "kRecordFixedSize \<le> kRecordSize" "0 < kRecordSize"
    by (simp_all add: kRecordSize_def kRecordFixedSize_def)
  have fixed: "take kRecordFixedSize (drop (length pre) (bytes_of d fd)) = take kRecordFixedSize (entry_bytes e)"
    using len total(2) by (simp add: fd)
  have buf: "take kRecordSize (drop (length pre) (bytes_of d fd)) = entry_bytes e" using len by (simp add: fd)
  have sizes: "length pre \<noteq> jr_fileSize r" "\<not> length pre + kRecordFixedSize > jr_fileSize r" "\<not> length pre + kRecordSize > jr_fileSize r"
    using fd(3) len total by auto
  define res where "res = \<lparr>rr_status = RdOk, rr_globalSeq = en_seq e, rr_kind = kind_code (en_kind e), rr_command = Some (en_cmd e), rr_offset = length pre\<rparr>"
  have "readOneRecord d r = (res, r\<lparr>jr_offset := length pre + kRecordSize, jr_lastGoodSeq := en_seq e\<rparr>)"
    using sizes rd sq len total by (simp add: readOneRecord_def fd(1) off fixed buf unat_command_size Let_def min_absorb2 res_def)
  moreover have "rr_status res = RdOk" "rec_of res = entry_rec e" by (simp_all add: res_def rec_of_def entry_rec_def)
  ultimately show ?thesis by (rule that)
qed

text \<open>A record cut short is a torn tail, and the reader stays in front of it.\<close>

lemma readOneRecord_torn:
  assumes at: "at_file d r (pre @ take k (entry_bytes e))" and off: "jr_offset r = length pre" and ok: "entry_ok e"
    and k: "0 < k" "k < kRecordSize"
  shows "readOneRecord d r = (no_record TruncatedTail (length pre), r)"
proof -
  obtain fd where fd: "jr_fd r = Some fd" "bytes_of d fd = pre @ take k (entry_bytes e)" "jr_fileSize r = length (pre @ take k (entry_bytes e))"
    using at by (auto simp: at_file_def)
  note len = entry_bytes_length [OF ok] and rd = entry_reads [OF ok]
  have total: "kRecordFixedSize + kCommandSize + kRecordCrcSize = kRecordSize" by (simp add: kRecordSize_def)
  have size: "jr_fileSize r = length pre + k" using fd(3) len k by simp
  have stay: "torn r (length pre) = (no_record TruncatedTail (length pre), r)" using off by (simp add: torn_def)
  show ?thesis
  proof (cases "k < kRecordFixedSize")
    case True
    then show ?thesis using size stay k off by (simp add: readOneRecord_def Let_def)
  next
    case False
    have "take kRecordFixedSize (drop (length pre) (bytes_of d fd)) = take kRecordFixedSize (entry_bytes e)"
      using False by (simp add: fd min_absorb1)
    then show ?thesis using size stay k off False rd(1) len total fd(1)
      by (simp add: readOneRecord_def Let_def unat_command_size)
  qed
qed

section \<open>Reading a journal to its end\<close>

text \<open>The records a reader returns until the first result that is not a record, that result and the reader then.\<close>

inductive drains :: "dir \<Rightarrow> JournalReader \<Rightarrow> (Seq \<times> byte \<times> Command option) list \<Rightarrow> ReadResult \<Rightarrow> JournalReader \<Rightarrow> bool" for d where
  fin: "jr_next d r = (res, r') \<Longrightarrow> rr_status res \<noteq> RdOk \<Longrightarrow> drains d r [] res r'"
| more: "jr_next d r = (res, r1) \<Longrightarrow> rr_status res = RdOk \<Longrightarrow> drains d r1 rs f r' \<Longrightarrow> drains d r (rec_of res # rs) f r'"

lemma drains_cong: "jr_next d r = jr_next d r1 \<Longrightarrow> drains d r1 rs f r' \<Longrightarrow> drains d r rs f r'"
  by (erule drains.cases) (auto intro: drains.intros)

lemma jr_next_record: "jr_fd r \<noteq> None \<Longrightarrow> readOneRecord d r = (res, r') \<Longrightarrow> rr_status res \<noteq> EndOfJournal \<Longrightarrow> jr_next d r = (res, r')"
  by (subst jr_next.simps) auto

lemma jr_next_segment_end:
  assumes "jr_fd r \<noteq> None" "jr_offset r = jr_fileSize r"
  shows "jr_next d r = jr_next d (closeCurrent r)"
  using assms by (subst jr_next.simps) (auto simp: readOneRecord_def no_record_def)

lemma jr_next_open:
  assumes "jr_fd r = None" "openNextSegment d r = (True, r1)" "jr_fd r1 \<noteq> None"
  shows "jr_next d r = jr_next d r1"
  using assms by (subst (1 2) jr_next.simps) auto

lemma jr_next_no_more:
  assumes "jr_fd r = None" "openNextSegment d r = (False, r1)"
  shows "jr_next d r = (no_record EndOfJournal (jr_offset r1), r1)"
  using assms by (subst jr_next.simps) simp

fun consec :: "Seq \<Rightarrow> entry list \<Rightarrow> bool" where
  "consec s [] \<longleftrightarrow> True"
| "consec s (e # es) \<longleftrightarrow> en_seq e = s + 1 \<and> consec (s + 1) es"

lemma consec_append [simp]: "consec s (es @ fs) \<longleftrightarrow> consec s es \<and> consec (s + int (length es)) fs"
  by (induction es arbitrary: s) (auto simp: algebra_simps)

lemma drains_entries:
  assumes "at_file d r (pre @ concat (map entry_bytes es) @ post)" "jr_offset r = length pre" "\<forall>e \<in> set es. entry_ok e"
    "consec (jr_lastGoodSeq r) es"
    "drains d (r\<lparr>jr_offset := length pre + length es * kRecordSize, jr_lastGoodSeq := jr_lastGoodSeq r + int (length es)\<rparr>) rs f r'"
  shows "drains d r (map entry_rec es @ rs) f r'"
  using assms
proof (induction es arbitrary: r pre)
  case Nil
  then have "r\<lparr>jr_offset := length pre, jr_lastGoodSeq := jr_lastGoodSeq r\<rparr> = r" by (cases r) simp
  with Nil show ?case by simp
next
  case (Cons e es)
  have e: "entry_ok e" "en_seq e = jr_lastGoodSeq r + 1" using Cons.prems by simp_all
  obtain res where res: "readOneRecord d r = (res, r\<lparr>jr_offset := length pre + kRecordSize, jr_lastGoodSeq := en_seq e\<rparr>)"
    "rr_status res = RdOk" "rec_of res = entry_rec e"
    by (rule readOneRecord_entry [of d r pre e "concat (map entry_bytes es) @ post"]) (use Cons.prems e in simp_all)
  let ?r1 = "r\<lparr>jr_offset := length pre + kRecordSize, jr_lastGoodSeq := en_seq e\<rparr>"
  have "jr_fd r \<noteq> None" using Cons.prems(1) by (auto simp: at_file_def)
  then have nx: "jr_next d r = (res, ?r1)" using jr_next_record res by simp
  have "at_file d ?r1 ((pre @ entry_bytes e) @ concat (map entry_bytes es) @ post)"
    using Cons.prems(1) by (simp add: at_file_def)
  then have "drains d ?r1 (map entry_rec es @ rs) f r'"
    by (rule Cons.IH) (use Cons.prems e entry_bytes_length [OF e(1)] in \<open>simp_all add: algebra_simps\<close>)
  then show ?case using drains.more [OF nx res(2)] res(3) by simp
qed

section \<open>Segments\<close>

lemma seg_header_sel: "sg_firstSeq (seg_header first counter) = of_int first" "sg_createdCounter (seg_header first counter) = counter"
  by (simp_all add: seg_header_def)

datatype segment = Segment (sgm_first: Seq) (sgm_counter: "64 word") (sgm_entries: "entry list")

definition seg_name :: "segment \<Rightarrow> string" where
  "seg_name s = segmentName (sgm_first s)"

definition seg_bytes :: "segment \<Rightarrow> byte list" where
  "seg_bytes s = encodeSegmentHeader (seg_header (sgm_first s) (sgm_counter s)) @ concat (map entry_bytes (sgm_entries s))"

definition seg_ok :: "segment \<Rightarrow> bool" where
  "seg_ok s \<longleftrightarrow> in_i64 (sgm_first s) \<and> (\<forall>e \<in> set (sgm_entries s). entry_ok e)"

lemma entries_length: "\<forall>e \<in> set es. entry_ok e \<Longrightarrow> length (concat (map entry_bytes es)) = length es * kRecordSize"
  by (induction es) (simp_all add: entry_bytes_length)

lemma seg_bytes_length: "seg_ok s \<Longrightarrow> length (seg_bytes s) = kSegmentHeaderSize + length (sgm_entries s) * kRecordSize"
  using entries_length [of "sgm_entries s"] by (simp add: seg_bytes_def seg_ok_def)

text \<open>How many whole records are in the first \<open>k\<close> bytes of a segment.\<close>

definition whole :: "nat \<Rightarrow> nat" where
  "whole k = (k - kSegmentHeaderSize) div kRecordSize"

definition opened :: "dir \<Rightarrow> JournalReader \<Rightarrow> segment \<Rightarrow> JournalReader" where
  "opened d r s = r\<lparr>jr_nextSegmentIdx := Suc (jr_nextSegmentIdx r), jr_currentPath := seg_name s, jr_fd := Some (seg_name s),
     jr_fileSize := length (bytes_of d (seg_name s)), jr_currentFirstSeq := sgm_first s, jr_currentCreatedCounter := sgm_counter s,
     jr_offset := kSegmentHeaderSize\<rparr>"

lemma openSegmentAtIndex_seg:
  assumes "idx < length (jr_segments r)" "jr_segments r ! idx = seg_name s" "map_of d (seg_name s) = Some f"
    "f_bytes f = take k (seg_bytes s)" "seg_ok s" "kSegmentHeaderSize \<le> k" "k \<le> length (seg_bytes s)"
  shows "openSegmentAtIndex d r idx = (True, r\<lparr>jr_currentPath := seg_name s, jr_fd := Some (seg_name s),
     jr_fileSize := length (bytes_of d (seg_name s)), jr_currentFirstSeq := sgm_first s, jr_currentCreatedCounter := sgm_counter s,
     jr_offset := kSegmentHeaderSize\<rparr>)"
proof -
  have hd: "take kSegmentHeaderSize (f_bytes f) = encodeSegmentHeader (seg_header (sgm_first s) (sgm_counter s))"
    using assms(4,6) by (simp add: seg_bytes_def min_absorb1)
  have sz: "length (f_bytes f) = k" using assms(4,7) by simp
  show ?thesis using assms sz hd
    by (simp add: openSegmentAtIndex_def Let_def decodeSegmentHeader_header bytes_of_def seg_header_sel seg_ok_def sint_of_int64)
qed

lemma openNextSegment_seg:
  assumes "jr_nextSegmentIdx r < length (jr_segments r)" "jr_segments r ! jr_nextSegmentIdx r = seg_name s" "map_of d (seg_name s) = Some f"
    "f_bytes f = take k (seg_bytes s)" "seg_ok s" "kSegmentHeaderSize \<le> k" "k \<le> length (seg_bytes s)"
  shows "openNextSegment d r = (True, opened d r s)"
  using openSegmentAtIndex_seg [of "jr_nextSegmentIdx r" "r\<lparr>jr_nextSegmentIdx := Suc (jr_nextSegmentIdx r)\<rparr>" s d f k] assms
  by (subst openNextSegment.simps) (simp add: opened_def)

text \<open>A segment cut inside its header is skipped.\<close>

lemma openNextSegment_short:
  assumes "jr_nextSegmentIdx r < length (jr_segments r)" "length (bytes_of d (jr_segments r ! jr_nextSegmentIdx r)) < kSegmentHeaderSize"
    "jr_fd r = None" "Suc (jr_nextSegmentIdx r) = length (jr_segments r)"
  shows "\<exists>r1. openNextSegment d r = (False, r1) \<and> jr_lastGoodSeq r1 = jr_lastGoodSeq r \<and> jr_fd r1 = None"
proof -
  obtain ok r1 where o: "openSegmentAtIndex d (r\<lparr>jr_nextSegmentIdx := Suc (jr_nextSegmentIdx r)\<rparr>) (jr_nextSegmentIdx r) = (ok, r1)" by fastforce
  have "\<not> ok" using o assms(2) by (auto simp: openSegmentAtIndex_def bytes_of_def Let_def split: option.splits if_splits)
  moreover have "openNextSegment d r1 = (False, r1)"
    using openSegmentAtIndex_keeps(1,2) [OF o] assms(4) by (subst openNextSegment.simps) simp
  ultimately have "openNextSegment d r = (False, r1)" using o assms(1) by (subst openNextSegment.simps) simp
  then show ?thesis using openSegmentAtIndex_keeps [OF o] \<open>\<not> ok\<close> by auto
qed

section \<open>A journal directory after a crash\<close>

text \<open>
  The segments are there in full, the last one up to some byte.
\<close>

definition journal_image :: "dir \<Rightarrow> segment list \<Rightarrow> nat \<Rightarrow> bool" where
  "journal_image d segs k \<longleftrightarrow>
     sort (journal_files d) = map seg_name segs \<and> (\<forall>s \<in> set segs. seg_ok s \<and> map_of d (seg_name s) \<noteq> None) \<and>
     (\<forall>s \<in> set (butlast segs). bytes_of d (seg_name s) = seg_bytes s) \<and>
     (segs \<noteq> [] \<longrightarrow> k \<le> length (seg_bytes (last segs)) \<and> bytes_of d (seg_name (last segs)) = take k (seg_bytes (last segs)))"

definition entries_of :: "segment list \<Rightarrow> entry list" where
  "entries_of segs = concat (map sgm_entries segs)"

text \<open>The entries a reader gets from the directory: those of the whole segments and the whole records of the last.\<close>

definition readable :: "segment list \<Rightarrow> nat \<Rightarrow> entry list" where
  "readable segs k = (if segs = [] then [] else entries_of (butlast segs) @ take (whole k) (sgm_entries (last segs)))"

lemma take_entries:
  assumes "\<forall>e \<in> set es. entry_ok e"
  shows "take (n * kRecordSize + m) (concat (map entry_bytes es)) = concat (map entry_bytes (take n es)) @ take m (concat (map entry_bytes (drop n es)))"
proof -
  have "length (concat (map entry_bytes (take n es))) = length (take n es) * kRecordSize"
    by (rule entries_length) (use assms in_set_takeD in fast)
  then have len: "length (concat (map entry_bytes (take n es))) = min n (length es) * kRecordSize" by (simp add: min.commute)
  have split: "concat (map entry_bytes es) = concat (map entry_bytes (take n es)) @ concat (map entry_bytes (drop n es))"
    by (metis append_take_drop_id concat_append map_append)
  show ?thesis
  proof (cases "n \<le> length es")
    case True
    then have "length (concat (map entry_bytes (take n es))) = n * kRecordSize" using len by simp
    then show ?thesis by (subst split) (simp only: take_append take_all add_diff_cancel_left' le_add1)
  next
    case False
    then have "length (concat (map entry_bytes es)) \<le> n * kRecordSize + m"
      using entries_length [OF assms] mult_le_mono1 [of "length es" n kRecordSize] by linarith
    then show ?thesis using False by simp
  qed
qed

lemma no_record_sel [simp]: "rr_status (no_record st off) = st"
  by (simp add: no_record_def)

lemma closeCurrent_sel [simp]: "jr_lastGoodSeq (closeCurrent r) = jr_lastGoodSeq r"
  by (simp add: closeCurrent_def)

lemma drains_stop_clean:
  assumes "jr_fd r \<noteq> None" "jr_offset r = jr_fileSize r" "jr_nextSegmentIdx r = length (jr_segments r)"
  shows "drains d r [] (no_record EndOfJournal (jr_offset r)) (closeCurrent r)"
proof (rule drains.fin)
  have "openNextSegment d (closeCurrent r) = (False, closeCurrent r)"
    using assms(3) by (subst openNextSegment.simps) (simp add: closeCurrent_def)
  then have "jr_next d (closeCurrent r) = (no_record EndOfJournal (jr_offset (closeCurrent r)), closeCurrent r)"
    by (rule jr_next_no_more [rotated]) (simp add: closeCurrent_def)
  then show "jr_next d r = (no_record EndOfJournal (jr_offset r), closeCurrent r)"
    using jr_next_segment_end [OF assms(1,2)] by (simp add: closeCurrent_def)
qed (simp add: no_record_def)

lemma drains_stop_torn:
  assumes "at_file d r (pre @ take k (entry_bytes e))" "jr_offset r = length pre" "entry_ok e" "0 < k" "k < kRecordSize"
  shows "drains d r [] (no_record TruncatedTail (length pre)) r"
proof (rule drains.fin)
  have "jr_fd r \<noteq> None" using assms(1) by (auto simp: at_file_def)
  then show "jr_next d r = (no_record TruncatedTail (length pre), r)"
    using readOneRecord_torn [OF assms] by (rule jr_next_record) (simp add: no_record_def)
qed (simp add: no_record_def)

text \<open>A segment cut at byte \<open>k\<close>: whole records, then \<open>m\<close> bytes of the next one.\<close>

lemma seg_cut:
  assumes ok: "seg_ok s" and k: "kSegmentHeaderSize \<le> k" "k \<le> length (seg_bytes s)"
  obtains m where "m < kRecordSize" "k = kSegmentHeaderSize + whole k * kRecordSize + m" "whole k \<le> length (sgm_entries s)"
    "m \<noteq> 0 \<longrightarrow> whole k < length (sgm_entries s)"
    "take k (seg_bytes s) = encodeSegmentHeader (seg_header (sgm_first s) (sgm_counter s)) @
       concat (map entry_bytes (take (whole k) (sgm_entries s))) @ take m (concat (map entry_bytes (drop (whole k) (sgm_entries s))))"
proof -
  define m where "m = (k - kSegmentHeaderSize) mod kRecordSize"
  have pos: "0 < kRecordSize" by (simp add: kRecordSize_def kRecordFixedSize_def)
  have kk: "k - kSegmentHeaderSize = whole k * kRecordSize + m" by (simp add: whole_def m_def)
  have le: "whole k * kRecordSize + m \<le> length (sgm_entries s) * kRecordSize" using kk k seg_bytes_length [OF ok] by linarith
  then have "whole k * kRecordSize \<le> length (sgm_entries s) * kRecordSize" by linarith
  then have wle: "whole k \<le> length (sgm_entries s)" using pos by simp
  have lt: "m \<noteq> 0 \<longrightarrow> whole k < length (sgm_entries s)" using wle le by (cases "whole k = length (sgm_entries s)") simp_all
  have eok: "\<forall>e \<in> set (sgm_entries s). entry_ok e" using ok by (simp add: seg_ok_def)
  have k_eq: "k = kSegmentHeaderSize + (whole k * kRecordSize + m)" using kk k(1) by linarith
  have cut: "take (kSegmentHeaderSize + x) (seg_bytes s) = encodeSegmentHeader (seg_header (sgm_first s) (sgm_counter s)) @
      take x (concat (map entry_bytes (sgm_entries s)))" for x
    by (simp add: seg_bytes_def)
  have "take k (seg_bytes s) = take (kSegmentHeaderSize + (whole k * kRecordSize + m)) (seg_bytes s)"
    using k_eq by (rule arg_cong)
  then have bytes: "take k (seg_bytes s) = encodeSegmentHeader (seg_header (sgm_first s) (sgm_counter s)) @
       concat (map entry_bytes (take (whole k) (sgm_entries s))) @ take m (concat (map entry_bytes (drop (whole k) (sgm_entries s))))"
    by (simp only: cut take_entries [OF eok])
  have "m < kRecordSize" using pos by (simp add: m_def)
  moreover have "k = kSegmentHeaderSize + whole k * kRecordSize + m" using k_eq by linarith
  ultimately show ?thesis using wle lt bytes by (rule that)
qed

text \<open>
  Where the reader stops in a segment of which \<open>k\<close> bytes are there: behind the last whole record, with the segment open, if a part of another record
  follows, and with no segment open otherwise.
\<close>

definition ends_at :: "segment \<Rightarrow> nat \<Rightarrow> JournalReader \<Rightarrow> bool" where
  "ends_at s k r \<longleftrightarrow>
     (if kSegmentHeaderSize \<le> k \<and> k \<noteq> kSegmentHeaderSize + whole k * kRecordSize
      then jr_fd r = Some (seg_name s) \<and> jr_currentPath r = seg_name s \<and> jr_offset r = kSegmentHeaderSize + whole k * kRecordSize
      else jr_fd r = None)"

lemma drains_last:
  assumes at: "at_file d r (take k (seg_bytes s))" and off: "jr_offset r = kSegmentHeaderSize" and ok: "seg_ok s"
    and sq: "consec (jr_lastGoodSeq r) (sgm_entries s)" and k: "kSegmentHeaderSize \<le> k" "k \<le> length (seg_bytes s)"
    and idx: "jr_nextSegmentIdx r = length (jr_segments r)" and path: "jr_fd r = Some (seg_name s)" "jr_currentPath r = seg_name s"
  shows "\<exists>f r'. drains d r (map entry_rec (take (whole k) (sgm_entries s))) f r' \<and> rr_status f \<in> {EndOfJournal, TruncatedTail} \<and>
    jr_lastGoodSeq r' = jr_lastGoodSeq r + int (whole k) \<and> ends_at s k r'"
proof -
  define es where "es = take (whole k) (sgm_entries s)"
  define pre where "pre = encodeSegmentHeader (seg_header (sgm_first s) (sgm_counter s))"
  obtain m where m: "m < kRecordSize" "k = kSegmentHeaderSize + whole k * kRecordSize + m" "whole k \<le> length (sgm_entries s)"
    "m \<noteq> 0 \<longrightarrow> whole k < length (sgm_entries s)"
    "take k (seg_bytes s) = pre @ concat (map entry_bytes es) @ take m (concat (map entry_bytes (drop (whole k) (sgm_entries s))))"
    by (rule seg_cut [OF ok k, folded es_def pre_def])
  have len: "length pre = kSegmentHeaderSize" "length es = whole k" using m(3) by (simp_all add: pre_def es_def)
  have eok: "\<forall>e \<in> set es. entry_ok e" using ok unfolding seg_ok_def es_def by (blast dest: in_set_takeD)
  define r1 where "r1 = r\<lparr>jr_offset := length pre + length es * kRecordSize, jr_lastGoodSeq := jr_lastGoodSeq r + int (length es)\<rparr>"
  have r1: "jr_fd r1 = jr_fd r" "jr_fileSize r1 = jr_fileSize r" "jr_offset r1 = length pre + length es * kRecordSize"
    "jr_lastGoodSeq r1 = jr_lastGoodSeq r + int (whole k)" "jr_nextSegmentIdx r1 = length (jr_segments r1)"
    "at_file d r1 b = at_file d r b" for b
    using len idx by (simp_all add: r1_def at_file_def)
  have "\<exists>f r'. drains d r1 [] f r' \<and> rr_status f \<in> {EndOfJournal, TruncatedTail} \<and> jr_lastGoodSeq r' = jr_lastGoodSeq r1 \<and> ends_at s k r'"
  proof (cases "m = 0")
    case True
    have fd: "jr_fd r1 \<noteq> None" "jr_fileSize r1 = k" using at k(2) r1 by (auto simp: at_file_def)
    have "jr_offset r1 = jr_fileSize r1" unfolding r1(3) fd(2) len using m(2) True by linarith
    moreover have "ends_at s k (closeCurrent r1)" using m(2) True by (simp add: ends_at_def closeCurrent_def)
    ultimately show ?thesis using drains_stop_clean [OF fd(1) _ r1(5), of d]
      by (intro exI [of _ "no_record EndOfJournal (jr_offset r1)"] exI [of _ "closeCurrent r1"]) simp
  next
    case False
    define e where "e = sgm_entries s ! whole k"
    have eo: "entry_ok e" using ok m(4) False by (simp add: seg_ok_def e_def)
    have "take m (concat (map entry_bytes (drop (whole k) (sgm_entries s)))) = take m (entry_bytes e)"
      using m(1) m(4) False entry_bytes_length [OF eo] by (simp add: Cons_nth_drop_Suc [symmetric] e_def)
    then have "at_file d r1 ((pre @ concat (map entry_bytes es)) @ take m (entry_bytes e))" using at m(5) r1(6) by simp
    then have "drains d r1 [] (no_record TruncatedTail (length (pre @ concat (map entry_bytes es)))) r1"
      by (rule drains_stop_torn) (use eo m(1) False r1(3) entries_length [OF eok] in simp_all)
    moreover have "ends_at s k r1" using m(2) False path r1(3) len k(1) by (simp add: ends_at_def r1_def)
    ultimately show ?thesis
      by (intro exI [of _ "no_record TruncatedTail (length (pre @ concat (map entry_bytes es)))"] exI [of _ r1]) simp
  qed
  then obtain f r' where f: "drains d r1 [] f r'" "rr_status f \<in> {EndOfJournal, TruncatedTail}" "jr_lastGoodSeq r' = jr_lastGoodSeq r1" "ends_at s k r'" by blast
  have "consec (jr_lastGoodSeq r) es" using sq consec_append [of _ es "drop (whole k) (sgm_entries s)"] by (simp add: es_def)
  from drains_entries [OF at [unfolded m(5)] _ eok this f(1) [unfolded r1_def]] have "drains d r (map entry_rec es) f r'"
    using off len by simp
  then show ?thesis using f r1(4) by (auto simp: es_def)
qed

section \<open>The reader on a whole journal\<close>

lemma readable_Cons: "rest \<noteq> [] \<Longrightarrow> readable (s # rest) k = sgm_entries s @ readable rest k"
  by (simp add: readable_def entries_of_def)

lemma readable_single: "readable [s] k = take (whole k) (sgm_entries s)"
  by (simp add: readable_def entries_of_def)

lemma opened_sel [simp]:
  "jr_fd (opened d r s) = Some (seg_name s)" "jr_offset (opened d r s) = kSegmentHeaderSize"
  "jr_lastGoodSeq (opened d r s) = jr_lastGoodSeq r" "jr_segments (opened d r s) = jr_segments r"
  "jr_nextSegmentIdx (opened d r s) = Suc (jr_nextSegmentIdx r)" "jr_currentPath (opened d r s) = seg_name s"
  "at_file d (opened d r s) (bytes_of d (seg_name s))"
  by (simp_all add: opened_def at_file_def)

definition clean :: "ReadResult \<Rightarrow> bool" where
  "clean f \<longleftrightarrow> rr_status f \<in> {EndOfJournal, TruncatedTail}"

text \<open>A segment that is there in full and is followed by others.\<close>

lemma drains_segment:
  assumes seg: "seg_ok s" "map_of d (seg_name s) \<noteq> None" "bytes_of d (seg_name s) = seg_bytes s"
    and r: "jr_nextSegmentIdx r < length (jr_segments r)" "jr_segments r ! jr_nextSegmentIdx r = seg_name s" "jr_fd r = None"
    and sq: "consec (jr_lastGoodSeq r) (sgm_entries s)"
    and rest: "\<And>r1. jr_segments r1 = jr_segments r \<Longrightarrow> jr_nextSegmentIdx r1 = Suc (jr_nextSegmentIdx r) \<Longrightarrow> jr_fd r1 = None \<Longrightarrow>
      jr_lastGoodSeq r1 = jr_lastGoodSeq r + int (length (sgm_entries s)) \<Longrightarrow> \<exists>f r'. drains d r1 xs f r' \<and> P f r'"
  shows "\<exists>f r'. drains d r (map entry_rec (sgm_entries s) @ xs) f r' \<and> P f r'"
proof -
  let ?n = "length (sgm_entries s)" and ?o = "opened d r s"
  obtain g where g: "map_of d (seg_name s) = Some g" using seg(2) by auto
  then have "f_bytes g = take (length (seg_bytes s)) (seg_bytes s)" using seg(3) by (simp add: bytes_of_def)
  then have op: "openNextSegment d r = (True, ?o)"
    by (rule openNextSegment_seg [OF r(1,2) g]) (use seg seg_bytes_length [OF seg(1)] in simp_all)
  define r1 where "r1 = ?o\<lparr>jr_offset := kSegmentHeaderSize + ?n * kRecordSize, jr_lastGoodSeq := jr_lastGoodSeq r + int ?n\<rparr>"
  have "jr_offset r1 = jr_fileSize r1" using seg(3) seg_bytes_length [OF seg(1)] by (simp add: r1_def opened_def)
  then have nx: "jr_next d r1 = jr_next d (closeCurrent r1)" by (intro jr_next_segment_end) (simp_all add: r1_def)
  obtain f r' where r': "drains d (closeCurrent r1) xs f r'" "P f r'"
    using rest [of "closeCurrent r1"] by (auto simp: r1_def closeCurrent_def)
  have "drains d r1 xs f r'" by (rule drains_cong [OF nx r'(1)])
  have "drains d ?o (map entry_rec (sgm_entries s) @ xs) f r'"
  proof (rule drains_entries)
    show "at_file d ?o (encodeSegmentHeader (seg_header (sgm_first s) (sgm_counter s)) @ concat (map entry_bytes (sgm_entries s)) @ [])"
      using opened_sel(7) [of d r s] seg(3) by (simp add: seg_bytes_def)
    show "\<forall>e\<in>set (sgm_entries s). entry_ok e" using seg(1) by (simp add: seg_ok_def)
    show "drains d (?o\<lparr>jr_offset := length (encodeSegmentHeader (seg_header (sgm_first s) (sgm_counter s))) + length (sgm_entries s) * kRecordSize,
        jr_lastGoodSeq := jr_lastGoodSeq ?o + int (length (sgm_entries s))\<rparr>) xs f r'"
      using \<open>drains d r1 xs f r'\<close> by (simp add: r1_def)
  qed (use sq in simp_all)
  from drains_cong [OF jr_next_open [OF r(3) op] this] r'(2) show ?thesis by auto
qed

lemma drains_end:
  assumes "jr_nextSegmentIdx r = length (jr_segments r)" "jr_fd r = None"
  shows "drains d r [] (no_record EndOfJournal (jr_offset r)) r"
proof (rule drains.fin)
  have "openNextSegment d r = (False, r)" using assms(1) by (subst openNextSegment.simps) simp
  then show "jr_next d r = (no_record EndOfJournal (jr_offset r), r)" by (rule jr_next_no_more [OF assms(2)])
qed simp

lemma drains_last_segment:
  assumes seg: "seg_ok s" "map_of d (seg_name s) \<noteq> None" "bytes_of d (seg_name s) = take k (seg_bytes s)" "k \<le> length (seg_bytes s)"
    and r: "Suc (jr_nextSegmentIdx r) = length (jr_segments r)" "jr_segments r ! jr_nextSegmentIdx r = seg_name s" "jr_fd r = None"
    and sq: "consec (jr_lastGoodSeq r) (sgm_entries s)"
  shows "\<exists>f r'. drains d r (map entry_rec (take (whole k) (sgm_entries s))) f r' \<and> clean f \<and> jr_lastGoodSeq r' = jr_lastGoodSeq r + int (whole k) \<and> ends_at s k r'"
proof (cases "kSegmentHeaderSize \<le> k")
  case True
  obtain g where g: "map_of d (seg_name s) = Some g" using seg(2) by auto
  have "f_bytes g = take k (seg_bytes s)" using seg(3) g by (simp add: bytes_of_def)
  then have op: "openNextSegment d r = (True, opened d r s)"
    using openNextSegment_seg [OF _ r(2) g] seg r(1) True by simp
  have "at_file d (opened d r s) (take k (seg_bytes s))" using opened_sel(7) [of d r s] seg(3) by simp
  then obtain f r' where f: "drains d (opened d r s) (map entry_rec (take (whole k) (sgm_entries s))) f r'"
      "rr_status f \<in> {EndOfJournal, TruncatedTail}" "jr_lastGoodSeq r' = jr_lastGoodSeq (opened d r s) + int (whole k)" "ends_at s k r'"
    using drains_last [of d "opened d r s" k s] seg(1,4) sq r(1) True by fastforce
  have "drains d r (map entry_rec (take (whole k) (sgm_entries s))) f r'"
    by (rule drains_cong [OF jr_next_open [OF r(3) op] f(1)]) simp
  then show ?thesis using f(2-4) by (auto simp: clean_def)
next
  case False
  have "length (bytes_of d (jr_segments r ! jr_nextSegmentIdx r)) < kSegmentHeaderSize" using False seg(3) r(2) by simp
  then obtain r1 where r1: "openNextSegment d r = (False, r1)" "jr_lastGoodSeq r1 = jr_lastGoodSeq r" "jr_fd r1 = None"
    using openNextSegment_short [of r d] r by auto
  have "whole k = 0" using False by (simp add: whole_def)
  moreover have "drains d r [] (no_record EndOfJournal (jr_offset r1)) r1"
    by (rule drains.fin [OF jr_next_no_more [OF r(3) r1(1)]]) simp
  ultimately show ?thesis using r1(2,3) False
    by (intro exI [of _ "no_record EndOfJournal (jr_offset r1)"] exI [of _ r1]) (simp add: clean_def no_record_def ends_at_def)
qed

definition all_read :: "segment list \<Rightarrow> nat \<Rightarrow> JournalReader \<Rightarrow> bool" where
  "all_read segs k r \<longleftrightarrow> (if segs = [] then jr_fd r = None else ends_at (last segs) k r)"

lemma drains_rest:
  assumes "\<forall>s \<in> set rest. seg_ok s \<and> map_of d (seg_name s) \<noteq> None" "\<forall>s \<in> set (butlast rest). bytes_of d (seg_name s) = seg_bytes s"
    "rest \<noteq> [] \<longrightarrow> k \<le> length (seg_bytes (last rest)) \<and> bytes_of d (seg_name (last rest)) = take k (seg_bytes (last rest))"
    "jr_segments r = map seg_name (before @ rest)" "jr_nextSegmentIdx r = length before" "jr_fd r = None"
    "consec (jr_lastGoodSeq r) (entries_of rest)"
  shows "\<exists>f r'. drains d r (map entry_rec (readable rest k)) f r' \<and> clean f \<and> all_read rest k r'"
  using assms
proof (induction rest arbitrary: r before)
  case Nil
  then have "drains d r [] (no_record EndOfJournal (jr_offset r)) r" by (intro drains_end) simp_all
  then show ?case by (intro exI [of _ "no_record EndOfJournal (jr_offset r)"] exI [of _ r])
    (use Nil in \<open>simp add: readable_def clean_def no_record_def all_read_def\<close>)
next
  case (Cons s rest)
  have s: "seg_ok s" "map_of d (seg_name s) \<noteq> None" and at: "jr_segments r ! jr_nextSegmentIdx r = seg_name s" "jr_nextSegmentIdx r < length (jr_segments r)"
    and sq: "consec (jr_lastGoodSeq r) (sgm_entries s)" "consec (jr_lastGoodSeq r + int (length (sgm_entries s))) (entries_of rest)"
    using Cons.prems by (simp_all add: nth_append entries_of_def)
  show ?case
  proof (cases "rest = []")
    case True
    have k: "bytes_of d (seg_name s) = take k (seg_bytes s)" "k \<le> length (seg_bytes s)" using Cons.prems(3) True by simp_all
    have "Suc (jr_nextSegmentIdx r) = length (jr_segments r)" using Cons.prems(4,5) True by simp
    from drains_last_segment [OF s k this at(1) Cons.prems(6) sq(1)] show ?thesis
      unfolding True readable_single all_read_def by auto
  next
    case False
    have ih: "\<exists>f r'. drains d r1 (map entry_rec (readable rest k)) f r' \<and> clean f \<and> all_read rest k r'"
      if "jr_segments r1 = jr_segments r" "jr_nextSegmentIdx r1 = Suc (jr_nextSegmentIdx r)" "jr_fd r1 = None"
        "jr_lastGoodSeq r1 = jr_lastGoodSeq r + int (length (sgm_entries s))" for r1
      by (rule Cons.IH [where before = "before @ [s]"]) (use Cons.prems that sq(2) False in \<open>simp_all\<close>)
    have bytes: "bytes_of d (seg_name s) = seg_bytes s" using Cons.prems(2) False by simp
    have all: "all_read (s # rest) k = all_read rest k" using False by (simp add: all_read_def fun_eq_iff)
    show ?thesis unfolding readable_Cons [OF False] map_append all
      by (rule drains_segment [OF s bytes at(2,1) Cons.prems(6) sq(1)]) (rule ih)
  qed
qed

end
