(* ===== verification/Journal_Crash.thy ===== *)
theory Journal_Crash
  imports Journal_Laws
begin

text \<open>
  The directory a writer leaves, whatever the system calls return, and what a reader gets from it after a crash.
\<close>

section \<open>The directory of a writer\<close>

text \<open>
  The directory is given by the closed segments, which are synced, and by the current one: the segment the
  writer has in mind, how many of its bytes are in the file and how many of those are synced.
\<close>

definition closed_file :: "segment \<Rightarrow> string \<times> dfile" where
  "closed_file s = (seg_name s, \<lparr>f_bytes = seg_bytes s, f_synced = length (seg_bytes s)\<rparr>)"

definition current_file :: "segment \<times> nat \<times> nat \<Rightarrow> string \<times> dfile" where
  "current_file = (\<lambda>(s, k, j). (seg_name s, \<lparr>f_bytes = take k (seg_bytes s), f_synced = j\<rparr>))"

definition disk_of :: "segment list \<Rightarrow> (segment \<times> nat \<times> nat) option \<Rightarrow> dir" where
  "disk_of init cur = map closed_file init @ (case cur of None \<Rightarrow> [] | Some c \<Rightarrow> [current_file c])"

definition segments :: "segment list \<Rightarrow> (segment \<times> nat \<times> nat) option \<Rightarrow> segment list" where
  "segments init cur = init @ (case cur of None \<Rightarrow> [] | Some c \<Rightarrow> [fst c])"

definition written :: "segment list \<Rightarrow> (segment \<times> nat \<times> nat) option \<Rightarrow> entry list" where
  "written init cur = entries_of (segments init cur)"

text \<open>How many records are certain to survive a crash.\<close>

definition durable :: "segment list \<Rightarrow> (segment \<times> nat \<times> nat) option \<Rightarrow> nat" where
  "durable init cur = length (entries_of init) + (case cur of None \<Rightarrow> 0 | Some (s, k, j) \<Rightarrow> whole j)"

definition names_ok :: "segment list \<Rightarrow> bool" where
  "names_ok segs \<longleftrightarrow> sorted_wrt (<) (map sgm_first segs) \<and> (\<forall>s \<in> set segs. 0 \<le> sgm_first s \<and> sgm_first s < 10 ^ 16 \<and> seg_ok s)"

text \<open>Nothing is written behind a header that is not synced.\<close>

definition cursor_ok :: "(segment \<times> nat \<times> nat) option \<Rightarrow> bool" where
  "cursor_ok cur \<longleftrightarrow> (case cur of None \<Rightarrow> True
     | Some (s, k, j) \<Rightarrow> j \<le> k \<and> k \<le> length (seg_bytes s) \<and> (j < kSegmentHeaderSize \<longrightarrow> sgm_entries s = []))"

text \<open>The current segment is named after the record that follows those of the closed ones.\<close>

definition placed :: "segment list \<Rightarrow> (segment \<times> nat \<times> nat) option \<Rightarrow> bool" where
  "placed init cur \<longleftrightarrow> (\<forall>s \<in> set init. sgm_first s \<le> int (length (entries_of init))) \<and>
     (case cur of None \<Rightarrow> True | Some (s, k, j) \<Rightarrow> sgm_first s = int (length (entries_of init)) + 1)"

definition journal_state :: "dir \<Rightarrow> segment list \<Rightarrow> (segment \<times> nat \<times> nat) option \<Rightarrow> bool" where
  "journal_state d init cur \<longleftrightarrow>
     d = disk_of init cur \<and> names_ok (segments init cur) \<and> cursor_ok cur \<and> consec 0 (written init cur) \<and> placed init cur"

lemma unat_first: "0 \<le> f \<Longrightarrow> f < 10 ^ 16 \<Longrightarrow> unat (of_int f :: 64 word) = nat f"
  by (simp add: unat_eq_nat_uint uint_word_of_int_eq take_bit_int_eq_self)

lemma seg_name_less:
  assumes "0 \<le> sgm_first s" "sgm_first s < sgm_first t" "sgm_first t < 10 ^ 16"
  shows "seg_name s < seg_name t"
  using fmt016_less [of "nat (sgm_first s)" "nat (sgm_first t)" "''seg-''" "''.jnl''" "''.jnl''"] assms
  by (simp add: seg_name_def segmentName_def unat_first)

lemma names_sorted: "names_ok segs \<Longrightarrow> sorted_wrt (<) (map seg_name segs)"
proof (induction segs)
  case (Cons s segs)
  have "\<forall>t \<in> set segs. seg_name s < seg_name t"
    using Cons.prems by (auto simp: names_ok_def intro!: seg_name_less)
  then show ?case using Cons by (simp add: names_ok_def)
qed simp

lemma names_distinct: "names_ok segs \<Longrightarrow> distinct (map seg_name segs)"
  using names_sorted strict_sorted_iff by blast

lemma extension_segment [simp]: "extension (seg_name s) = ''.jnl''"
  by (simp add: extension_def seg_name_def segmentName_def)

lemma disk_names [simp]: "map fst (disk_of init cur) = map seg_name (segments init cur)"
  by (simp add: disk_of_def segments_def closed_file_def current_file_def o_def split: option.split prod.split)

lemma disk_files:
  assumes "names_ok (segments init cur)"
  shows "s \<in> set init \<Longrightarrow> map_of (disk_of init cur) (seg_name s) = Some (snd (closed_file s))"
    "cur = Some (s, k, j) \<Longrightarrow> map_of (disk_of init cur) (seg_name s) = Some \<lparr>f_bytes = take k (seg_bytes s), f_synced = j\<rparr>"
proof -
  have "distinct (map fst (disk_of init cur))" using names_distinct [OF assms] by simp
  note look = map_of_is_SomeI [OF this]
  show "s \<in> set init \<Longrightarrow> map_of (disk_of init cur) (seg_name s) = Some (snd (closed_file s))"
    by (rule look) (force simp: disk_of_def closed_file_def)
  show "cur = Some (s, k, j) \<Longrightarrow> map_of (disk_of init cur) (seg_name s) = Some \<lparr>f_bytes = take k (seg_bytes s), f_synced = j\<rparr>"
    by (rule look) (simp add: disk_of_def current_file_def)
qed

section \<open>Crashes\<close>

lemma crash_dir_lookup:
  assumes "crash_dir d e" "map_of d n = Some f"
  shows "\<exists>g. map_of e n = Some g \<and> crash_file f g"
proof -
  have "list_all2 (\<lambda>(n, f) (n', g). n = n' \<and> crash_file f g) d e"
    using assms(1) unfolding crash_dir_def list_all2_conv_all_nth by (auto simp: case_prod_beta) (metis nth_map)
  then show ?thesis using assms(2) by (induction rule: list_all2_induct) (auto split: if_splits)
qed

lemma crash_closed:
  assumes "crash_dir (disk_of init cur) e" "names_ok (segments init cur)" "s \<in> set init"
  shows "map_of e (seg_name s) \<noteq> None" "bytes_of e (seg_name s) = seg_bytes s"
proof -
  obtain g where "map_of e (seg_name s) = Some g" "crash_file (snd (closed_file s)) g"
    using crash_dir_lookup [OF assms(1) disk_files(1) [OF assms(2,3)]] by blast
  then show "map_of e (seg_name s) \<noteq> None" "bytes_of e (seg_name s) = seg_bytes s"
    by (auto simp: crash_file_def closed_file_def bytes_of_def)
qed

lemma crash_current:
  assumes "crash_dir (disk_of init (Some (s, k, j))) e" "names_ok (segments init (Some (s, k, j)))" "k \<le> length (seg_bytes s)"
  obtains k' where "j \<le> k'" "k' \<le> k" "map_of e (seg_name s) \<noteq> None" "bytes_of e (seg_name s) = take k' (seg_bytes s)"
proof -
  obtain g where g: "map_of e (seg_name s) = Some g" "crash_file \<lparr>f_bytes = take k (seg_bytes s), f_synced = j\<rparr> g"
    using crash_dir_lookup [OF assms(1) disk_files(2) [OF assms(2) refl]] by blast
  then obtain k' where "j \<le> k'" "k' \<le> k" "f_bytes g = take k' (take k (seg_bytes s))" using assms(3) by (auto simp: crash_file_def)
  then show thesis using that [of k'] g(1) by (simp add: bytes_of_def min_absorb1)
qed

lemma crash_names:
  assumes "crash_dir (disk_of init cur) e" "names_ok (segments init cur)"
  shows "sort (journal_files e) = map seg_name (segments init cur)"
proof -
  have "journal_files e = map seg_name (segments init cur)"
    using assms(1) by (simp add: journal_files_def crash_dir_def filter_map o_def)
  then show ?thesis using names_sorted [OF assms(2)] by (simp add: strict_sorted_iff sorted_sort_id)
qed

lemma crash_image:
  assumes "journal_state d init cur" "crash_dir d e"
  obtains k where "journal_image e (segments init cur) k"
    "\<And>s j' k'. cur = Some (s, k', j') \<Longrightarrow> j' \<le> k"
    "cur = None \<Longrightarrow> init \<noteq> [] \<Longrightarrow> k = length (seg_bytes (last init))"
proof -
  have d: "crash_dir (disk_of init cur) e" "names_ok (segments init cur)" "cursor_ok cur" using assms by (auto simp: journal_state_def)
  note closed = crash_closed [OF d(1,2)] and names = crash_names [OF d(1,2)]
  have ok: "\<forall>s \<in> set (segments init cur). seg_ok s" using d(2) by (simp add: names_ok_def)
  show thesis
  proof (cases cur)
    case None
    have "journal_image e (segments init cur) (length (seg_bytes (last init)))"
      unfolding journal_image_def using names ok closed None by (auto simp: segments_def in_set_butlastD)
    then show thesis using that None by blast
  next
    case (Some c)
    obtain s k j where c: "cur = Some (s, k, j)" using Some by (cases c) auto
    obtain k' where k': "j \<le> k'" "k' \<le> k" "map_of e (seg_name s) \<noteq> None" "bytes_of e (seg_name s) = take k' (seg_bytes s)"
      using crash_current [of init s k j e] d c by (auto simp: cursor_ok_def)
    have "k' \<le> length (seg_bytes s)" using k'(2) d(3) c by (simp add: cursor_ok_def)
    then have "journal_image e (segments init cur) k'"
      unfolding journal_image_def using names ok closed k' c by (auto simp: segments_def)
    then show thesis using that [of k'] k'(1) c by simp
  qed
qed

section \<open>System calls on the current segment\<close>

lemma alist_update_new: "k \<notin> fst ` set xs \<Longrightarrow> AList.update k v xs = xs @ [(k, v)]"
  by (induction xs) auto

lemma alist_update_last: "k \<notin> fst ` set xs \<Longrightarrow> AList.update k v (xs @ [(k, w)]) = xs @ [(k, v)]"
  by (induction xs) auto

lemma closed_names [simp]: "fst ` closed_file ` A = seg_name ` A"
  by (simp add: image_image closed_file_def)

lemma disk_current: "disk_of init (Some (s, k, j)) = map closed_file init @ [(seg_name s, \<lparr>f_bytes = take k (seg_bytes s), f_synced = j\<rparr>)]"
  by (simp add: disk_of_def current_file_def)

lemma disk_update_current:
  assumes "names_ok (segments init (Some (s, k, j)))"
  shows "AList.update (seg_name s) f (disk_of init (Some (s, k, j))) = map closed_file init @ [(seg_name s, f)]"
  using names_distinct [OF assms] by (simp add: disk_current segments_def alist_update_last)

lemma current_calls:
  assumes "w_dir w = disk_of init (Some (s, k, j))" "names_ok (segments init (Some (s, k, j)))"
  shows "sys_fsync io w (seg_name s) =
      (if io (w_calls w) = Done then (True, put_file (tick_call w) (seg_name s) \<lparr>f_bytes = take k (seg_bytes s), f_synced = min (length (seg_bytes s)) k\<rparr>)
       else (False, tick_call w))"
    "sys_write io w (seg_name s) data =
      (case io (w_calls w) of
         Done \<Rightarrow> (Some (length data), put_file (tick_call w) (seg_name s) \<lparr>f_bytes = take k (seg_bytes s) @ data, f_synced = j\<rparr>)
       | Short n \<Rightarrow> (Some (min n (length data)), put_file (tick_call w) (seg_name s) \<lparr>f_bytes = take k (seg_bytes s) @ take n data, f_synced = j\<rparr>)
       | Fails \<Rightarrow> (None, tick_call w))"
    "w_dir (put_file (tick_call w) (seg_name s) f) = map closed_file init @ [(seg_name s, f)]" "w_dir (tick_call w) = w_dir w"
  using disk_files(2) [OF assms(2) refl] disk_update_current [OF assms(2), of f] assms(1)
  by (simp_all add: sys_fsync_def sys_write_def Let_def put_file_def tick_call_def split: io.split)

definition add_entry :: "segment \<Rightarrow> entry \<Rightarrow> segment" where
  "add_entry s e = Segment (sgm_first s) (sgm_counter s) (sgm_entries s @ [e])"

lemma add_entry_simps [simp]:
  "sgm_first (add_entry s e) = sgm_first s" "sgm_entries (add_entry s e) = sgm_entries s @ [e]" "seg_name (add_entry s e) = seg_name s"
  "seg_bytes (add_entry s e) = seg_bytes s @ entry_bytes e" "seg_ok (add_entry s e) \<longleftrightarrow> seg_ok s \<and> entry_ok e"
  by (auto simp: add_entry_def seg_name_def seg_bytes_def seg_ok_def)

lemma segments_simps [simp]: "segments init None = init" "segments init (Some (s, k, j)) = init @ [s]"
  by (simp_all add: segments_def)

lemma entries_of_append [simp]: "entries_of (xs @ ys) = entries_of xs @ entries_of ys" "entries_of [s] = sgm_entries s" "entries_of [] = []"
  by (simp_all add: entries_of_def)

lemma written_simps [simp]:
  "written init None = entries_of init" "written init (Some (s, k, j)) = entries_of init @ sgm_entries s"
  by (simp_all add: written_def)

lemma durable_simps [simp]:
  "durable init None = length (entries_of init)" "durable init (Some (s, k, j)) = length (entries_of init) + whole j"
  by (simp_all add: durable_def)

lemma cursor_simps [simp]: "cursor_ok None" "cursor_ok (Some (s, k, j)) \<longleftrightarrow> j \<le> k \<and> k \<le> length (seg_bytes s) \<and> (j < kSegmentHeaderSize \<longrightarrow> sgm_entries s = [])"
  by (simp_all add: cursor_ok_def)

lemma placed_simps [simp]:
  "placed init None \<longleftrightarrow> (\<forall>s \<in> set init. sgm_first s \<le> int (length (entries_of init)))"
  "placed init (Some (s, k, j)) \<longleftrightarrow> (\<forall>s \<in> set init. sgm_first s \<le> int (length (entries_of init))) \<and> sgm_first s = int (length (entries_of init)) + 1"
  by (simp_all add: placed_def)

lemma whole_mono: "j \<le> k \<Longrightarrow> whole j \<le> whole k"
  by (simp add: whole_def div_le_mono diff_le_mono)

lemma record_size_pos: "0 < kRecordSize"
  by (simp add: kRecordSize_def kRecordFixedSize_def)

lemma whole_full: "seg_ok s \<Longrightarrow> whole (length (seg_bytes s)) = length (sgm_entries s)"
  using record_size_pos by (simp add: whole_def seg_bytes_length)

lemma disk_close: "disk_of init (Some (s, length (seg_bytes s), length (seg_bytes s))) = disk_of (init @ [s]) None"
  by (simp add: disk_of_def current_file_def closed_file_def)

lemma journal_close:
  assumes "journal_state d init (Some (s, length (seg_bytes s), length (seg_bytes s)))" "sgm_entries s \<noteq> []"
  shows "journal_state d (init @ [s]) None"
proof -
  have "1 \<le> length (sgm_entries s)" using assms(2) by (cases "sgm_entries s") simp_all
  then show ?thesis using assms(1) by (fastforce simp: journal_state_def disk_close)
qed

lemma fsync_current:
  assumes "journal_state (w_dir w) init (Some (s, k, j))" "sys_fsync io w (seg_name s) = (ok, w')"
  shows "journal_state (w_dir w') init (Some (s, k, if ok then k else j))"
proof -
  have w: "w_dir w = disk_of init (Some (s, k, j))" and nm: "names_ok (segments init (Some (s, k, j)))" and le: "j \<le> k" "k \<le> length (seg_bytes s)"
    using assms(1) by (simp_all add: journal_state_def)
  note calls = current_calls [OF w nm]
  have "w_dir w' = disk_of init (Some (s, k, if ok then k else j))"
    using assms(2) le w by (auto simp: calls disk_current min_absorb2 split: if_splits)
  then show ?thesis using assms(1) by (auto simp: journal_state_def)
qed

lemma write_current:
  assumes st: "journal_state (w_dir w) init (Some (s, length (seg_bytes s), j))" and e: "entry_ok e"
      "en_seq e = int (length (entries_of init @ sgm_entries s)) + 1"
    and wr: "sys_write io w (seg_name s) (entry_bytes e) = (n, w')" and j: "kSegmentHeaderSize \<le> j"
  obtains k where "journal_state (w_dir w') init (Some (add_entry s e, k, j))" "n = Some kRecordSize \<longrightarrow> k = length (seg_bytes (add_entry s e))"
proof -
  let ?k = "length (seg_bytes s) + (case n of None \<Rightarrow> 0 | Some m \<Rightarrow> m)"
  have w: "w_dir w = disk_of init (Some (s, length (seg_bytes s), j))" and nm: "names_ok (segments init (Some (s, length (seg_bytes s), j)))"
    using st by (simp_all add: journal_state_def)
  note calls = current_calls [OF w nm]
  have "w_dir w' = disk_of init (Some (add_entry s e, ?k, j))" "?k \<le> length (seg_bytes (add_entry s e))"
    using wr w by (auto simp: calls disk_current min_def split: io.splits)
  moreover have "names_ok (segments init (Some (add_entry s e, ?k, j)))" using nm e(1) by (auto simp: names_ok_def)
  ultimately have "journal_state (w_dir w') init (Some (add_entry s e, ?k, j))" using st e j by (simp add: journal_state_def)
  moreover have "n = Some kRecordSize \<longrightarrow> ?k = length (seg_bytes (add_entry s e))" using entry_bytes_length [OF e(1)] by simp
  ultimately show thesis using that by blast
qed

section \<open>Opening a segment\<close>

text \<open>There is no current segment, or there is one with no records; a new one then gets the same name and replaces it.\<close>

definition vacant :: "(segment \<times> nat \<times> nat) option \<Rightarrow> bool" where
  "vacant cur \<longleftrightarrow> (case cur of None \<Rightarrow> True | Some (s, k, j) \<Rightarrow> sgm_entries s = [])"

lemma vacant_simps [simp]: "vacant None" "vacant (Some (s, k, j)) \<longleftrightarrow> sgm_entries s = []"
  by (simp_all add: vacant_def)

lemma vacant_written: "vacant cur \<Longrightarrow> written init cur = entries_of init"
  by (cases cur) auto

lemma vacant_durable: "journal_state d init cur \<Longrightarrow> vacant cur \<Longrightarrow> durable init cur = length (entries_of init)"
  by (cases cur) (auto simp: journal_state_def names_ok_def whole_def seg_bytes_length)

lemma journal_new_segment:
  assumes st: "journal_state d init cur" "vacant cur" and f: "f = int (length (entries_of init)) + 1" "f < 10 ^ 16" "j \<le> k" "k \<le> kSegmentHeaderSize"
  shows "journal_state (disk_of init (Some (Segment f c [], k, j))) init (Some (Segment f c [], k, j))"
proof -
  have "placed init None" "names_ok init" "consec 0 (entries_of init)"
    using st by (cases cur; auto simp: journal_state_def names_ok_def sorted_wrt_append)+
  then show ?thesis using f by (auto simp: journal_state_def names_ok_def sorted_wrt_append seg_ok_def in_i64_def seg_bytes_length)
qed

text \<open>What a writer call leaves alone of the writer's settings.\<close>

definition same_settings :: "JournalWriter \<Rightarrow> JournalWriter \<Rightarrow> bool" where
  "same_settings a b \<longleftrightarrow> jw_policy a = jw_policy b \<and> jw_groupSize a = jw_groupSize b \<and> jw_rollBytes a = jw_rollBytes b"

text \<open>The writer is at the end of its current segment, and everything it has not synced is counted as pending.\<close>

definition at_end :: "JournalWriter \<Rightarrow> (segment \<times> nat \<times> nat) option \<Rightarrow> bool" where
  "at_end jw cur \<longleftrightarrow> (case cur of None \<Rightarrow> jw_fd jw = None
     | Some (s, k, j) \<Rightarrow>
         (if jw_fd jw = None then sgm_entries s = []
          else jw_fd jw = Some (seg_name s) \<and> k = length (seg_bytes s) \<and> jw_bytesInSegment jw = k \<and> kSegmentHeaderSize \<le> j \<and>
            k \<le> j + jw_pendingUnsynced jw * kRecordSize))"

text \<open>A segment without records has room for one.\<close>

definition roomy :: "JournalWriter \<Rightarrow> (segment \<times> nat \<times> nat) option \<Rightarrow> bool" where
  "roomy jw cur \<longleftrightarrow> (case cur of None \<Rightarrow> True | Some (s, k, j) \<Rightarrow> sgm_entries s \<noteq> [] \<or> jw_fd jw = None \<or> kSegmentHeaderSize + kRecordSize \<le> jw_rollBytes jw)"

definition writer_inv :: "JournalWriter \<Rightarrow> segment list \<Rightarrow> (segment \<times> nat \<times> nat) option \<Rightarrow> bool" where
  "writer_inv jw init cur \<longleftrightarrow> journal_state (w_dir (jw_world jw)) init cur \<and> at_end jw cur \<and> roomy jw cur \<and>
     (if jw_policy jw = PerRecord then jw_pendingUnsynced jw = 0 else jw_pendingUnsynced jw < jw_groupSize jw)"

lemma sync_current:
  assumes "journal_state (w_dir (jw_world jw)) init (Some (s, k, j))" "jw_fd jw = Some (seg_name s)" "jw_sync io jw = (ok, jw')"
  shows "journal_state (w_dir (jw_world jw')) init (Some (s, k, if ok then k else j))"
    "same_settings jw' jw" "jw_fd jw' = jw_fd jw" "jw_bytesInSegment jw' = jw_bytesInSegment jw" "ok \<Longrightarrow> jw_pendingUnsynced jw' = 0"
proof -
  obtain w where f: "sys_fsync io (jw_world jw) (seg_name s) = (ok, w)" "jw_world jw' = w"
    using assms(2,3) by (auto simp: jw_sync_def split: prod.splits if_splits)
  from fsync_current [OF assms(1) f(1)] f(2) show "journal_state (w_dir (jw_world jw')) init (Some (s, k, if ok then k else j))" by simp
  show "same_settings jw' jw" "jw_fd jw' = jw_fd jw" "jw_bytesInSegment jw' = jw_bytesInSegment jw" "ok \<Longrightarrow> jw_pendingUnsynced jw' = 0"
    using assms(2,3) by (auto simp: jw_sync_def same_settings_def split: prod.splits if_splits)
qed

lemma take_header: "take kSegmentHeaderSize (seg_bytes (Segment f c [])) = encodeSegmentHeader (seg_header f c)"
  "length (seg_bytes (Segment f c [])) = kSegmentHeaderSize"
  by (simp_all add: seg_bytes_def)

lemma create_segment:
  assumes st: "journal_state (w_dir w) init cur" "vacant cur" and f: "f = int (length (entries_of init)) + 1" "f < 10 ^ 16"
    and cr: "sys_create io w (segmentName f) = (True, w1)"
  shows "w_dir w1 = disk_of init (Some (Segment f c [], 0, 0))"
proof -
  let ?s = "Segment f c []"
  have w: "w_dir w = disk_of init cur" "names_ok (segments init cur)" using st(1) by (simp_all add: journal_state_def)
  have nm: "names_ok (segments init (Some (?s, 0, 0)))" using journal_new_segment [OF st f, of 0 0 c] unfolding journal_state_def by blast
  have name: "segmentName f = seg_name ?s" by (simp add: seg_name_def)
  have w1: "w_dir w1 = AList.update (seg_name ?s) \<lparr>f_bytes = [], f_synced = 0\<rparr> (w_dir w)"
    using cr by (auto simp: name sys_create_def put_file_def tick_call_def Let_def split: io.splits)
  show ?thesis
  proof (cases cur)
    case None
    have "seg_name ?s \<notin> fst ` set (disk_of init None)" using names_distinct [OF nm] by (auto simp: disk_of_def)
    then show ?thesis using w1 w(1) None by (simp add: disk_of_def current_file_def alist_update_new)
  next
    case (Some p)
    obtain s k j where p: "cur = Some (s, k, j)" using Some by (cases p) auto
    have "seg_name ?s = seg_name s" using st(1) f(1) p by (simp add: journal_state_def seg_name_def)
    then show ?thesis using w1 w p disk_update_current [of init s k j] by (simp add: disk_current)
  qed
qed

lemma write_header:
  assumes st: "journal_state (w_dir w) init cur" "vacant cur" and f: "f = int (length (entries_of init)) + 1" "f < 10 ^ 16"
    and cr: "sys_create io w (segmentName f) = (True, w1)" and wr: "sys_write io w1 (segmentName f) (encodeSegmentHeader (seg_header f c)) = (n, w2)"
  obtains k where "journal_state (w_dir w2) init (Some (Segment f c [], k, 0))" "n = Some kSegmentHeaderSize \<longrightarrow> k = kSegmentHeaderSize"
proof -
  let ?s = "Segment f c []" and ?k = "case n of None \<Rightarrow> 0 | Some m \<Rightarrow> m"
  have new: "journal_state (disk_of init (Some (?s, k, 0))) init (Some (?s, k, 0))" if "k \<le> kSegmentHeaderSize" for k
    using journal_new_segment [OF st f, of 0 k c] that by simp
  have nm: "names_ok (segments init (Some (?s, 0, 0)))" using new [of 0] unfolding journal_state_def by blast
  have name: "segmentName f = seg_name ?s" by (simp add: seg_name_def)
  have w1: "w_dir w1 = disk_of init (Some (?s, 0, 0))" by (rule create_segment [OF st f cr])
  have "w_dir w2 = disk_of init (Some (?s, ?k, 0))" "?k \<le> kSegmentHeaderSize"
    using wr w1 by (auto simp: name current_calls [OF w1 nm] disk_current seg_bytes_def min_def split: io.splits)
  then show thesis using that [of ?k] new by auto
qed

lemma openSegment_state:
  assumes st: "journal_state (w_dir (jw_world jw)) init cur0" "vacant cur0" and f: "f = int (length (entries_of init)) + 1" "f < 10 ^ 16"
    and op: "openSegment io jw f = (ok, jw')"
  obtains cur where "journal_state (w_dir (jw_world jw')) init cur" "vacant cur" "same_settings jw' jw" "jw_pendingUnsynced jw' = jw_pendingUnsynced jw"
    "ok \<longrightarrow> at_end jw' cur \<and> cur \<noteq> None \<and> jw_fd jw' \<noteq> None"
proof -
  let ?c = "jw_createdCounter jw"
  have h: "\<lparr>sg_magic = kJournalMagic, sg_version = kJournalVersion, sg_firstSeq = of_int f, sg_createdCounter = ?c\<rparr> = seg_header f ?c"
    by (simp add: seg_header_def)
  note op' = op [unfolded openSegment_def Let_def h]
  obtain b w1 where cr: "sys_create io (jw_world jw) (segmentName f) = (b, w1)" by force
  show thesis
  proof (cases b)
    case False
    then have "w_dir (jw_world jw') = w_dir (jw_world jw)" "\<not> ok" "same_settings jw' jw" "jw_pendingUnsynced jw' = jw_pendingUnsynced jw"
      using op' cr by (auto simp: sys_create_def tick_call_def Let_def same_settings_def split: io.splits)
    then show thesis using that [of cur0] st by simp
  next
    case True
    have cr1: "sys_create io (jw_world jw) (segmentName f) = (True, w1)" using cr True by simp
    obtain n w2 where wr: "sys_write io w1 (segmentName f) (encodeSegmentHeader (seg_header f ?c)) = (n, w2)" by force
    obtain k where k: "journal_state (w_dir w2) init (Some (Segment f ?c [], k, 0))" "n = Some kSegmentHeaderSize \<longrightarrow> k = kSegmentHeaderSize"
      by (rule write_header [OF st f cr1 wr])
    obtain b3 w3 where fs: "sys_fsync io w2 (segmentName f) = (b3, w3)" by force
    have "journal_state (w_dir w3) init (Some (Segment f ?c [], k, if b3 then k else 0))"
      by (rule fsync_current [OF k(1)]) (use fs in \<open>simp add: seg_name_def\<close>)
    then show thesis
      using that [of "Some (Segment f ?c [], k, 0)"] that [of "Some (Segment f ?c [], k, if b3 then k else 0)"] op' cr True wr fs k
      by (auto simp: same_settings_def at_end_def take_header seg_name_def split: if_splits)
  qed
qed

section \<open>Appending\<close>

lemma durable_current:
  assumes "seg_ok s" "length (seg_bytes s) \<le> j + p * kRecordSize"
  shows "length (sgm_entries s) \<le> whole j + p"
proof -
  have "length (sgm_entries s) = (length (sgm_entries s) * kRecordSize) div kRecordSize" using record_size_pos by simp
  also have "\<dots> \<le> ((j - kSegmentHeaderSize) + p * kRecordSize) div kRecordSize"
    using assms seg_bytes_length [OF assms(1)] by (intro div_le_mono) linarith
  finally show ?thesis using record_size_pos by (simp add: whole_def)
qed

lemma writer_state:
  assumes "writer_inv jw init cur"
  shows "journal_state (w_dir (jw_world jw)) init cur" "at_end jw cur" "roomy jw cur"
    "if jw_policy jw = PerRecord then jw_pendingUnsynced jw = 0 else jw_pendingUnsynced jw < jw_groupSize jw"
  using assms by (simp_all add: writer_inv_def)

lemma journal_facts:
  assumes "journal_state d init (Some (s, k, j))"
  shows "seg_ok s" "j \<le> k" "k \<le> length (seg_bytes s)"
  using assms by (auto simp: journal_state_def names_ok_def)

text \<open>The part of \<^const>\<open>jw_append\<close> that makes room: it opens or rolls a segment, or finds room in the current one.\<close>

definition ready :: "env \<Rightarrow> JournalWriter \<Rightarrow> Seq \<Rightarrow> bool \<times> JournalWriter" where
  "ready io jw globalSeq = (case jw_fd jw of None \<Rightarrow> openSegment io jw globalSeq
     | Some fd \<Rightarrow> if jw_bytesInSegment jw + kRecordSize > jw_rollBytes jw then rollSegment io jw globalSeq else (True, jw))"

definition grown :: "JournalWriter \<Rightarrow> JournalWriter \<Rightarrow> segment list \<Rightarrow> (segment \<times> nat \<times> nat) option \<Rightarrow>
    segment list \<Rightarrow> (segment \<times> nat \<times> nat) option \<Rightarrow> bool" where
  "grown jw jw' init cur init' cur' \<longleftrightarrow> journal_state (w_dir (jw_world jw')) init' cur' \<and>
     durable init cur \<le> durable init' cur' \<and> same_settings jw' jw"

lemma ready_open:
  assumes st: "journal_state (w_dir (jw_world jw)) init cur0" "vacant cur0"
    and n: "int (length (entries_of init)) + 1 < 10 ^ 16" and op: "openSegment io jw (int (length (entries_of init)) + 1) = (ok, jw')"
  obtains cur where "grown jw jw' init cur0 init cur" "written init cur = entries_of init" "jw_pendingUnsynced jw' = jw_pendingUnsynced jw"
    "ok \<longrightarrow> at_end jw' cur \<and> cur \<noteq> None \<and> jw_fd jw' \<noteq> None"
proof -
  from openSegment_state [OF st refl n op] obtain cur where c: "journal_state (w_dir (jw_world jw')) init cur" "vacant cur" "same_settings jw' jw"
    "jw_pendingUnsynced jw' = jw_pendingUnsynced jw" "ok \<longrightarrow> at_end jw' cur \<and> cur \<noteq> None \<and> jw_fd jw' \<noteq> None"
    by auto
  then show thesis using that [of cur] vacant_written vacant_durable [OF st] vacant_durable [OF c(1,2)] by (simp add: grown_def)
qed

lemma ready_roll:
  assumes ws: "journal_state (w_dir (jw_world jw)) init (Some (s, length (seg_bytes s), j))" "jw_fd jw = Some (seg_name s)" "sgm_entries s \<noteq> []"
    and n: "int (length (entries_of init @ sgm_entries s)) + 1 < 10 ^ 16"
    and rl: "rollSegment io jw (int (length (entries_of init @ sgm_entries s)) + 1) = (ok, jw')"
  obtains init' cur' where "grown jw jw' init (Some (s, length (seg_bytes s), j)) init' cur'" "written init' cur' = entries_of init @ sgm_entries s"
    "jw_pendingUnsynced jw' \<le> jw_pendingUnsynced jw" "ok \<longrightarrow> at_end jw' cur' \<and> cur' \<noteq> None \<and> jw_fd jw' \<noteq> None"
proof -
  let ?k = "length (seg_bytes s)"
  obtain b jw1 where sy: "jw_sync io jw = (b, jw1)" by force
  note s1 = sync_current [OF ws(1,2) sy]
  have wj: "whole j \<le> whole ?k" by (rule whole_mono [OF journal_facts(2) [OF ws(1)]])
  show thesis
  proof (cases b)
    case False
    then have "\<not> ok" "jw' = jw1" using rl sy by (auto simp: rollSegment_def)
    moreover have "jw_pendingUnsynced jw1 = jw_pendingUnsynced jw" using sy ws(2) False by (auto simp: jw_sync_def split: prod.splits if_splits)
    ultimately show thesis using that [of init "Some (s, ?k, j)"] s1 False by (simp add: grown_def)
  next
    case b: True
    let ?jw1 = "jw1\<lparr>jw_fd := None\<rparr>"
    have st1: "journal_state (w_dir (jw_world ?jw1)) (init @ [s]) None" using s1(1) b ws(3) by (simp add: journal_close)
    have op: "openSegment io ?jw1 (int (length (entries_of (init @ [s]))) + 1) = (ok, jw')" using rl sy b by (simp add: rollSegment_def)
    have full: "whole ?k = length (sgm_entries s)" by (rule whole_full [OF journal_facts(1) [OF ws(1)]])
    obtain cur' where r: "grown ?jw1 jw' (init @ [s]) None (init @ [s]) cur'" "written (init @ [s]) cur' = entries_of (init @ [s])"
      "jw_pendingUnsynced jw' = jw_pendingUnsynced ?jw1" "ok \<longrightarrow> at_end jw' cur' \<and> cur' \<noteq> None \<and> jw_fd jw' \<noteq> None"
      by (rule ready_open [OF st1 _ _ op]) (use n in simp_all)
    have "grown jw jw' init (Some (s, ?k, j)) (init @ [s]) cur'" using r(1) wj full s1(2) by (auto simp: grown_def same_settings_def)
    then show thesis using that [of "init @ [s]" cur'] r(2-4) s1(5) b by simp
  qed
qed

lemma ready_state:
  assumes inv: "writer_inv jw init cur" and n: "int (length (written init cur)) + 1 < 10 ^ 16"
    and rd: "ready io jw (int (length (written init cur)) + 1) = (ok, jw')"
  obtains init' cur' where "grown jw jw' init cur init' cur'" "written init' cur' = written init cur" "jw_pendingUnsynced jw' \<le> jw_pendingUnsynced jw"
    "ok \<longrightarrow> at_end jw' cur' \<and> cur' \<noteq> None \<and> jw_fd jw' \<noteq> None"
proof (cases "jw_fd jw")
  case None
  then have v: "vacant cur" using writer_state(2) [OF inv] by (cases cur) (auto simp: at_end_def)
  have op: "openSegment io jw (int (length (entries_of init)) + 1) = (ok, jw')" using rd None vacant_written [OF v] by (simp add: ready_def)
  obtain cur' where r: "grown jw jw' init cur init cur'" "written init cur' = entries_of init" "jw_pendingUnsynced jw' = jw_pendingUnsynced jw"
    "ok \<longrightarrow> at_end jw' cur' \<and> cur' \<noteq> None \<and> jw_fd jw' \<noteq> None"
    by (rule ready_open [OF writer_state(1) [OF inv] v _ op]) (use n vacant_written [OF v] in simp)
  show thesis using that [of init cur'] r vacant_written [OF v] by simp
next
  case (Some fd)
  then obtain s k j where c: "cur = Some (s, k, j)" using writer_state(2) [OF inv] by (cases cur) (auto simp: at_end_def)
  note ws = writer_state [OF inv, unfolded c]
  have fd: "jw_fd jw = Some (seg_name s)" "k = length (seg_bytes s)" "jw_bytesInSegment jw = k" using ws(2) Some by (simp_all add: at_end_def)
  show thesis
  proof (cases "jw_bytesInSegment jw + kRecordSize > jw_rollBytes jw")
    case False
    then have "ok" "jw' = jw" using rd fd by (auto simp: ready_def)
    then show thesis using that [of init cur] ws c Some by (auto simp: grown_def same_settings_def)
  next
    case True
    have e: "sgm_entries s \<noteq> []"
    proof
      assume e: "sgm_entries s = []"
      then have "k = kSegmentHeaderSize" using fd(2) seg_bytes_length [OF journal_facts(1) [OF ws(1)]] by simp
      then show False using ws(3) e fd True by (simp add: roomy_def)
    qed
    have rl: "rollSegment io jw (int (length (entries_of init @ sgm_entries s)) + 1) = (ok, jw')" using rd fd True c by (simp add: ready_def)
    show thesis
      by (rule ready_roll [OF ws(1) [unfolded fd(2)] fd(1) e _ rl]) (use n c fd(2) in \<open>auto intro: that\<close>)
  qed
qed

lemma jw_append_ready:
  "jw_append io pad jw globalSeq kind cmd =
     (let (ok, jw1) = ready io jw globalSeq
      in if \<not> ok then (False, jw1)
         else
           (let (n, w) = sys_write io (jw_world jw1) (the (jw_fd jw1)) (encodeRecord pad globalSeq kind cmd);
                jw2 = jw1\<lparr>jw_world := w\<rparr>
            in if n \<noteq> Some kRecordSize then (False, jw2)
               else
                 (let jw3 = jw2\<lparr>jw_bytesInSegment := jw_bytesInSegment jw2 + kRecordSize, jw_lastSeq := globalSeq,
                        jw_pendingUnsynced := jw_pendingUnsynced jw2 + 1\<rparr>
                  in if jw_policy jw3 = PerRecord \<or> jw_pendingUnsynced jw3 \<ge> jw_groupSize jw3 then jw_sync io jw3
                     else (True, jw3))))"
  by (simp add: jw_append_def ready_def)

lemma grown_trans: "grown jw jw1 init cur init1 cur1 \<Longrightarrow> grown jw1 jw2 init1 cur1 init2 cur2 \<Longrightarrow> grown jw jw2 init cur init2 cur2"
  by (auto simp: grown_def same_settings_def)

lemma same_settings_sel: "same_settings a b \<Longrightarrow> jw_policy a = jw_policy b \<and> jw_groupSize a = jw_groupSize b"
  by (simp add: same_settings_def)

text \<open>The record is in the file: the writer counts it as pending and syncs where the policy asks for it.\<close>

lemma append_recorded:
  assumes st: "journal_state (w_dir (jw_world jw)) init (Some (s, length (seg_bytes s), j))" and fd: "at_end jw (Some (s, length (seg_bytes s), j))"
    and e: "sgm_entries s \<noteq> []" "jw_fd jw \<noteq> None"
    and fin: "(if jw_policy jw = PerRecord \<or> jw_pendingUnsynced jw \<ge> jw_groupSize jw then jw_sync io jw else (True, jw)) = (ok, jw')"
    and gs: "0 < jw_groupSize jw"
  obtains j' where "grown jw jw' init (Some (s, length (seg_bytes s), j)) init (Some (s, length (seg_bytes s), j'))"
    "ok \<longrightarrow> writer_inv jw' init (Some (s, length (seg_bytes s), j'))"
proof (cases "jw_policy jw = PerRecord \<or> jw_pendingUnsynced jw \<ge> jw_groupSize jw")
  case True
  let ?k = "length (seg_bytes s)" and ?j = "if ok then length (seg_bytes s) else j"
  have fd': "jw_fd jw = Some (seg_name s)" "jw_bytesInSegment jw = ?k" "kSegmentHeaderSize \<le> j" using fd e(2) by (simp_all add: at_end_def)
  have sy: "jw_sync io jw = (ok, jw')" using fin True by simp
  note s1 = sync_current [OF st fd'(1) sy]
  have "grown jw jw' init (Some (s, ?k, j)) init (Some (s, ?k, ?j))"
    using s1(1,2) whole_mono [OF journal_facts(2) [OF st]] by (simp add: grown_def)
  moreover have "ok \<longrightarrow> writer_inv jw' init (Some (s, ?k, ?j))"
    using s1 fd' e gs same_settings_sel [OF s1(2)] journal_facts(2) [OF st] by (auto simp: writer_inv_def at_end_def roomy_def)
  ultimately show thesis using that by blast
next
  case False
  then have "jw' = jw" using fin by simp
  then have "grown jw jw' init (Some (s, length (seg_bytes s), j)) init (Some (s, length (seg_bytes s), j))"
    "writer_inv jw' init (Some (s, length (seg_bytes s), j))"
    using st fd e False by (simp_all add: grown_def same_settings_def writer_inv_def roomy_def)
  then show thesis using that by blast
qed

lemma append_state:
  assumes inv: "writer_inv jw init cur" and n: "int (length (written init cur)) + 1 < 10 ^ 16" and gs: "0 < jw_groupSize jw"
    and e: "entry_ok e" "en_seq e = int (length (written init cur)) + 1"
    and ap: "jw_append io (en_pad e) jw (en_seq e) (en_kind e) (en_cmd e) = (ok, jw')"
  obtains init' cur' where "grown jw jw' init cur init' cur'" "written init' cur' \<in> {written init cur, written init cur @ [e]}"
    "ok \<longrightarrow> writer_inv jw' init' cur' \<and> written init' cur' = written init cur @ [e]"
proof -
  obtain b jw1 where rd: "ready io jw (en_seq e) = (b, jw1)" by force
  obtain init1 cur1 where r: "grown jw jw1 init cur init1 cur1" "written init1 cur1 = written init cur" "jw_pendingUnsynced jw1 \<le> jw_pendingUnsynced jw"
    "b \<longrightarrow> at_end jw1 cur1 \<and> cur1 \<noteq> None \<and> jw_fd jw1 \<noteq> None"
    by (rule ready_state [OF inv n rd [unfolded e(2)]])
  show thesis
  proof (cases b)
    case False
    then have "\<not> ok" "jw' = jw1" using ap rd by (simp_all add: jw_append_ready)
    then show thesis using that [of init1 cur1] r by simp
  next
    case True
    then obtain s k j where c: "cur1 = Some (s, k, j)" using r(4) by (cases cur1) auto
    have ae: "at_end jw1 (Some (s, k, j))" "jw_fd jw1 \<noteq> None" using r(4) True c by simp_all
    have k: "k = length (seg_bytes s)" "jw_fd jw1 = Some (seg_name s)" "kSegmentHeaderSize \<le> j" using ae by (simp_all add: at_end_def)
    have st1: "journal_state (w_dir (jw_world jw1)) init1 (Some (s, length (seg_bytes s), j))" using r(1) c k by (simp add: grown_def)
    have es: "entries_of init1 @ sgm_entries s = written init cur" using r(2) c by simp
    obtain m w where wr: "sys_write io (jw_world jw1) (seg_name s) (entry_bytes e) = (m, w)" by force
    obtain k2 where k2: "journal_state (w_dir w) init1 (Some (add_entry s e, k2, j))" "m = Some kRecordSize \<longrightarrow> k2 = length (seg_bytes (add_entry s e))"
      by (rule write_current [OF st1 e(1) _ wr k(3)]) (use e(2) es in simp)
    have g2: "grown jw (jw1\<lparr>jw_world := w\<rparr>) init cur init1 (Some (add_entry s e, k2, j))"
      using r(1) k2(1) c by (simp add: grown_def same_settings_def)
    have w2: "written init1 (Some (add_entry s e, k2, j)) = written init cur @ [e]" using es by simp
    show thesis
    proof (cases "m = Some kRecordSize")
      case False
      then have "\<not> ok" "jw' = jw1\<lparr>jw_world := w\<rparr>" using ap rd True wr k by (simp_all add: jw_append_ready entry_bytes_def)
      then show thesis using that [of init1 "Some (add_entry s e, k2, j)"] g2 w2 by simp
    next
      case m: True
      define jw3 where "jw3 = jw1\<lparr>jw_world := w, jw_bytesInSegment := jw_bytesInSegment jw1 + kRecordSize, jw_lastSeq := en_seq e,
        jw_pendingUnsynced := jw_pendingUnsynced jw1 + 1\<rparr>"
      have fin: "(if jw_policy jw3 = PerRecord \<or> jw_pendingUnsynced jw3 \<ge> jw_groupSize jw3 then jw_sync io jw3 else (True, jw3)) = (ok, jw')"
        using ap rd True wr k m unfolding jw3_def by (simp add: jw_append_ready entry_bytes_def Let_def cong: if_cong)
      have k2': "k2 = length (seg_bytes (add_entry s e))" using k2(2) m by simp
      have st3: "journal_state (w_dir (jw_world jw3)) init1 (Some (add_entry s e, length (seg_bytes (add_entry s e)), j))"
        using k2(1) by (simp add: jw3_def k2')
      have ae3: "at_end jw3 (Some (add_entry s e, length (seg_bytes (add_entry s e)), j))"
        using ae k entry_bytes_length [OF e(1)] by (simp add: at_end_def jw3_def)
      have g3: "grown jw jw3 init cur init1 (Some (add_entry s e, length (seg_bytes (add_entry s e)), j))"
        using g2 by (simp add: grown_def same_settings_def jw3_def k2')
      have gs3: "0 < jw_groupSize jw3" using gs g3 by (simp add: grown_def same_settings_def)
      have e3: "sgm_entries (add_entry s e) \<noteq> []" "jw_fd jw3 \<noteq> None" using k(2) by (simp_all add: jw3_def)
      from append_recorded [OF st3 ae3 e3 fin gs3] obtain j' where
        "grown jw3 jw' init1 (Some (add_entry s e, length (seg_bytes (add_entry s e)), j)) init1 (Some (add_entry s e, length (seg_bytes (add_entry s e)), j'))"
        "ok \<longrightarrow> writer_inv jw' init1 (Some (add_entry s e, length (seg_bytes (add_entry s e)), j'))" .
      then show thesis using that [of init1 "Some (add_entry s e, length (seg_bytes (add_entry s e)), j')"] grown_trans [OF g3] w2 by simp
    qed
  qed
qed

lemma writer_durable:
  assumes "writer_inv jw init cur"
  shows "length (written init cur) \<le> durable init cur + jw_pendingUnsynced jw"
proof (cases cur)
  case (Some c)
  obtain s k j where c: "cur = Some (s, k, j)" using Some by (cases c) auto
  note ws = writer_state [OF assms, unfolded c]
  have "length (sgm_entries s) \<le> whole j + jw_pendingUnsynced jw"
  proof (cases "jw_fd jw = None")
    case True
    then show ?thesis using ws(2) by (simp add: at_end_def)
  next
    case False
    then show ?thesis using ws by (intro durable_current journal_facts(1)) (auto simp: at_end_def)
  qed
  then show ?thesis using c by simp
qed simp

lemma new_writer_inv:
  assumes "w_dir w = []"
  shows "writer_inv (newJournalWriter w rollBytes policy groupSize) [] None"
  using assms by (simp add: writer_inv_def newJournalWriter_def journal_state_def disk_of_def names_ok_def at_end_def roomy_def)

section \<open>Reading after a crash\<close>

lemma image_reads:
  assumes "journal_image e segs k" "consec 0 (entries_of segs)"
  shows "\<exists>f r'. drains e (newJournalReader e) (map entry_rec (readable segs k)) f r' \<and> clean f \<and> all_read segs k r'"
  by (rule drains_rest [where before = "[]"]) (use assms in \<open>auto simp: journal_image_def newJournalReader_def\<close>)

text \<open>
  Whatever a crash leaves of the directory, the reader returns the records in the order they were written, up to
  some point, without a gap; the ones that were synced are among them.
\<close>

lemma readable_take:
  assumes "segs \<noteq> []" "whole k \<le> length (sgm_entries (last segs))"
  shows "readable segs k = take (length (entries_of (butlast segs)) + whole k) (entries_of segs)"
proof -
  have "entries_of segs = entries_of (butlast segs) @ sgm_entries (last segs)"
    using assms(1) by (metis append_butlast_last_id entries_of_append(1,2))
  then show ?thesis using assms by (simp add: readable_def)
qed

lemma whole_le:
  assumes "seg_ok s" "k \<le> length (seg_bytes s)"
  shows "whole k \<le> length (sgm_entries s)"
  using whole_mono [OF assms(2)] whole_full [OF assms(1)] by simp

lemma crash_reads:
  assumes "journal_state d init cur" "crash_dir d e"
  shows "\<exists>n f r'. drains e (newJournalReader e) (map entry_rec (take n (written init cur))) f r' \<and> clean f \<and>
    durable init cur \<le> n \<and> n \<le> length (written init cur)"
proof -
  let ?segs = "segments init cur"
  obtain k where k: "journal_image e ?segs k" "\<And>s j' k'. cur = Some (s, k', j') \<Longrightarrow> j' \<le> k"
      "cur = None \<Longrightarrow> init \<noteq> [] \<Longrightarrow> k = length (seg_bytes (last init))"
    by (rule crash_image [OF assms]) blast
  have "consec 0 (entries_of ?segs)" using assms(1) by (simp add: journal_state_def written_def)
  from image_reads [OF k(1) this] obtain f r' where r: "drains e (newJournalReader e) (map entry_rec (readable ?segs k)) f r'" "clean f" by blast
  have "\<exists>n. readable ?segs k = take n (written init cur) \<and> durable init cur \<le> n \<and> n \<le> length (written init cur)"
  proof (cases "?segs = []")
    case True
    then show ?thesis by (auto simp: readable_def segments_def durable_def split: option.splits)
  next
    case False
    have ok: "seg_ok (last ?segs)" "k \<le> length (seg_bytes (last ?segs))" using k(1) False by (auto simp: journal_image_def)
    note wl = whole_le [OF this]
    let ?n = "length (entries_of (butlast ?segs)) + whole k"
    have rt: "readable ?segs k = take ?n (written init cur)" using readable_take [OF False wl] by (simp add: written_def)
    have "durable init cur \<le> ?n \<and> ?n \<le> length (written init cur)"
    proof (cases cur)
      case None
      then have l: "init = butlast init @ [last init]" using False by simp
      have "length (entries_of init) = length (entries_of (butlast init)) + length (sgm_entries (last init))"
        by (subst l) (simp only: entries_of_append length_append)
      then show ?thesis using None k(3) False ok whole_full by simp
    next
      case (Some c)
      then obtain s j' k' where c: "cur = Some (s, k', j')" by (cases c) auto
      then show ?thesis using wl whole_mono [OF k(2) [OF c]] by simp
    qed
    then show ?thesis using rt by blast
  qed
  then obtain n where "readable ?segs k = take n (written init cur)" "durable init cur \<le> n" "n \<le> length (written init cur)" by blast
  then show ?thesis using r by (intro exI [of _ n] exI [of _ f] exI [of _ r']) simp
qed

end
