(* ===== verification/Spsc_Ring.thy ===== *)
theory Spsc_Ring
  imports Matching_Thread
begin

text \<open>
  The single-producer single-consumer ring (\<^verbatim>\<open>ipc/spsc_ring.hpp\<close>). The locale \<open>bounded_fifo\<close> is the contract of a ring as one thread
  sees it; the step relation \<open>ring_step\<close> interleaves a producer and a consumer thread at their shared accesses.
\<close>

section \<open>ipc/spsc\_ring.hpp\<close>

text \<open>
  The capacity is a power of two below the range of the cursors; \<open>sr_storage\<close> is the slot array, so the capacity is its
  length. The cursors are 64-bit words, so \<open>+\<close> and \<open>-\<close> wrap as the code's do.
\<close>

record 'a SpscRing =
  sr_storage :: "'a list"
  sr_head :: "64 word"
  sr_tail :: "64 word"
  sr_cachedTail :: "64 word"
  sr_cachedHead :: "64 word"

definition sr_capacity :: "'a SpscRing \<Rightarrow> nat" where
  "sr_capacity r = length (sr_storage r)"

definition newSpscRing :: "'a \<Rightarrow> nat \<Rightarrow> 'a SpscRing" where
  "newSpscRing def capacity =
     \<lparr>sr_storage = replicate capacity def, sr_head = 0, sr_tail = 0, sr_cachedTail = 0, sr_cachedHead = 0\<rparr>"

definition ring_mask :: "nat \<Rightarrow> 64 word \<Rightarrow> nat" where
  "ring_mask capacity cursor = unat (and cursor (of_nat capacity - 1))"

definition sr_tryClaim :: "'a SpscRing \<Rightarrow> nat option \<times> 'a SpscRing" where
  "sr_tryClaim r =
     (let head = sr_head r; cap = of_nat (sr_capacity r)
      in if head - sr_cachedTail r \<ge> cap
         then
           (let r' = r\<lparr>sr_cachedTail := sr_tail r\<rparr>
            in if head - sr_cachedTail r' \<ge> cap then (None, r') else (Some (ring_mask (sr_capacity r) head), r'))
         else (Some (ring_mask (sr_capacity r) head), r))"

definition sr_write :: "'a SpscRing \<Rightarrow> nat \<Rightarrow> 'a \<Rightarrow> 'a SpscRing" where
  "sr_write r i v = r\<lparr>sr_storage := (sr_storage r)[i := v]\<rparr>"

definition sr_publish :: "'a SpscRing \<Rightarrow> 'a SpscRing" where
  "sr_publish r = r\<lparr>sr_head := sr_head r + 1\<rparr>"

definition sr_push :: "'a SpscRing \<Rightarrow> 'a \<Rightarrow> bool \<times> 'a SpscRing" where
  "sr_push r v =
     (case sr_tryClaim r of
        (None, r') \<Rightarrow> (False, r')
      | (Some i, r') \<Rightarrow> (True, sr_publish (sr_write r' i v)))"

definition sr_tryPeek :: "'a SpscRing \<Rightarrow> nat option \<times> 'a SpscRing" where
  "sr_tryPeek r =
     (let tail = sr_tail r
      in if tail = sr_cachedHead r
         then
           (let r' = r\<lparr>sr_cachedHead := sr_head r\<rparr>
            in if tail = sr_cachedHead r' then (None, r') else (Some (ring_mask (sr_capacity r) tail), r'))
         else (Some (ring_mask (sr_capacity r) tail), r))"

definition sr_consume :: "'a SpscRing \<Rightarrow> 'a SpscRing" where
  "sr_consume r = r\<lparr>sr_tail := sr_tail r + 1\<rparr>"

definition sr_pop :: "'a SpscRing \<Rightarrow> 'a option \<times> 'a SpscRing" where
  "sr_pop r =
     (case sr_tryPeek r of
        (None, r') \<Rightarrow> (None, r')
      | (Some i, r') \<Rightarrow> (Some (sr_storage r' ! i), sr_consume r'))"

section \<open>Cursors as counters\<close>

text \<open>
  A cursor is the low 64 bits of a counter that never wraps. As long as the counters of the two sides are at most the capacity
  apart, the differences and comparisons of the cursors are those of the counters.
\<close>

definition ring_size :: "nat \<Rightarrow> bool" where
  "ring_size c \<longleftrightarrow> (\<exists>n<64. c = 2 ^ n)"

lemma ring_size_bound:
  assumes "ring_size c"
  shows "0 < c" "c < 2 ^ 64"
proof -
  obtain n where n: "c = 2 ^ n" "n < 64" using assms by (auto simp: ring_size_def)
  show "0 < c" "c < 2 ^ 64" using power_strict_increasing [OF n(2), of "2::nat"] by (simp_all add: n(1))
qed

lemma ring_mask_mod:
  assumes "ring_size c"
  shows "ring_mask c (of_nat p) = p mod c"
proof -
  obtain n where n: "c = 2 ^ n" "n < 64" using assms by (auto simp: ring_size_def)
  have "(of_nat c - 1 :: 64 word) = mask n" by (simp add: n mask_eq_exp_minus_1)
  then have "ring_mask c (of_nat p) = unat (take_bit n (of_nat p :: 64 word))" by (simp add: ring_mask_def take_bit_eq_mask)
  also have "\<dots> = take_bit n (take_bit 64 p)" by (simp only: unsigned_take_bit_eq unsigned_of_nat of_nat_id len_num0 len_bit0 len_num1) simp
  also have "\<dots> = take_bit n p" using n(2) by (simp only: take_bit_take_bit min_absorb1 less_imp_le)
  also have "\<dots> = p mod c" by (simp add: take_bit_eq_mod n)
  finally show ?thesis .
qed

lemma cursor_minus:
  assumes "q \<le> p" "p - q < 2 ^ 64"
  shows "unat (of_nat p - of_nat q :: 64 word) = p - q"
proof -
  have "(of_nat p - of_nat q :: 64 word) = of_nat (p - q)" using assms(1) by (simp add: of_nat_diff)
  then show ?thesis using assms(2) by (simp add: unat_of_nat)
qed

lemma cursor_full:
  assumes "ring_size c" "q \<le> p" "p \<le> q + c"
  shows "(of_nat p - of_nat q :: 64 word) \<ge> of_nat c \<longleftrightarrow> p = q + c"
proof -
  note c = ring_size_bound [OF assms(1)]
  have "unat (of_nat p - of_nat q :: 64 word) = p - q" by (rule cursor_minus) (use assms c in linarith)+
  moreover have "unat (of_nat c :: 64 word) = c" using c by (simp add: unat_of_nat)
  ultimately show ?thesis using assms by (auto simp: word_le_nat_alt)
qed

lemma cursor_eq:
  assumes "ring_size c" "q \<le> p" "p \<le> q + c"
  shows "(of_nat q :: 64 word) = of_nat p \<longleftrightarrow> q = p"
proof -
  note c = ring_size_bound [OF assms(1)]
  have "unat (of_nat p - of_nat q :: 64 word) = p - q" by (rule cursor_minus) (use assms c in linarith)+
  then show ?thesis using assms(2) by auto
qed

text \<open>
  The counters behind the cursors: \<open>p\<close> values published, \<open>q\<close> retired. The flags say that the producer holds a claimed slot
  and that the consumer holds a readable one.
\<close>

definition counters :: "'a SpscRing \<Rightarrow> nat \<Rightarrow> nat \<Rightarrow> bool \<Rightarrow> bool \<Rightarrow> bool" where
  "counters r p q claimed peeked \<longleftrightarrow> ring_size (sr_capacity r) \<and> sr_head r = of_nat p \<and> sr_tail r = of_nat q \<and>
     (\<exists>ct ch. sr_cachedTail r = of_nat ct \<and> sr_cachedHead r = of_nat ch \<and> ct \<le> q \<and> q \<le> ch \<and> ch \<le> p \<and> p \<le> ct + sr_capacity r \<and>
       (claimed \<longrightarrow> p < ct + sr_capacity r) \<and> (peeked \<longrightarrow> q < ch))"

lemma countersE:
  assumes "counters r p q b c"
  obtains ct ch where "ring_size (sr_capacity r)" "sr_head r = of_nat p" "sr_tail r = of_nat q" "sr_cachedTail r = of_nat ct"
    "sr_cachedHead r = of_nat ch" "ct \<le> q" "q \<le> ch" "ch \<le> p" "p \<le> ct + sr_capacity r"
    "b \<longrightarrow> p < ct + sr_capacity r" "c \<longrightarrow> q < ch"
  using assms by (auto simp: counters_def)

lemma countersI:
  assumes "ring_size (sr_capacity r)" "sr_head r = of_nat p" "sr_tail r = of_nat q" "sr_cachedTail r = of_nat ct"
    "sr_cachedHead r = of_nat ch" "ct \<le> q" "q \<le> ch" "ch \<le> p" "p \<le> ct + sr_capacity r"
    "b \<longrightarrow> p < ct + sr_capacity r" "c \<longrightarrow> q < ch"
  shows "counters r p q b c"
  using assms unfolding counters_def by blast

lemma counters_bounds:
  assumes "counters r p q b c"
  shows "q \<le> p" "p \<le> q + sr_capacity r" "ring_size (sr_capacity r)" "b \<Longrightarrow> p < q + sr_capacity r" "c \<Longrightarrow> q < p"
  using assms by (auto elim!: countersE)

lemma tryClaim_room:
  assumes "counters r p q b c" "p < q + sr_capacity r"
  obtains r' where "sr_tryClaim r = (Some (p mod sr_capacity r), r')" "counters r' p q True c" "sr_storage r' = sr_storage r"
proof -
  obtain ct ch where k: "ring_size (sr_capacity r)" "sr_head r = of_nat p" "sr_tail r = of_nat q" "sr_cachedTail r = of_nat ct"
    "sr_cachedHead r = of_nat ch" "ct \<le> q" "q \<le> ch" "ch \<le> p" "p \<le> ct + sr_capacity r" "c \<longrightarrow> q < ch"
    using assms(1) by (rule countersE)
  have f1: "of_nat (sr_capacity r) \<le> (of_nat p - of_nat ct :: 64 word) \<longleftrightarrow> p = ct + sr_capacity r"
    by (rule cursor_full) (use k in linarith)+
  have "of_nat (sr_capacity r) \<le> (of_nat p - of_nat q :: 64 word) \<longleftrightarrow> p = q + sr_capacity r"
    by (rule cursor_full) (use k in linarith)+
  then have f2: "\<not> of_nat (sr_capacity r) \<le> (of_nat p - of_nat q :: 64 word)" using assms(2) by simp
  define r' where "r' = (if of_nat (sr_capacity r) \<le> (of_nat p - of_nat ct :: 64 word) then r\<lparr>sr_cachedTail := sr_tail r\<rparr> else r)"
  have "sr_tryClaim r = (Some (p mod sr_capacity r), r')"
    using f2 by (simp add: sr_tryClaim_def Let_def ring_mask_mod [OF k(1)] r'_def k(2-4))
  moreover have "sr_storage r' = sr_storage r" by (simp add: r'_def)
  moreover have "counters r' p q True c"
    unfolding r'_def f1 by (rule countersI [where ct = "if p = ct + sr_capacity r then q else ct" and ch = ch])
      (use k assms(2) in \<open>auto simp: sr_capacity_def\<close>)
  ultimately show thesis using that by blast
qed

lemma tryClaim_full:
  assumes "counters r p q b c" "p = q + sr_capacity r"
  obtains r' where "sr_tryClaim r = (None, r')" "counters r' p q b c" "sr_storage r' = sr_storage r"
proof -
  obtain ct ch where k: "ring_size (sr_capacity r)" "sr_head r = of_nat p" "sr_tail r = of_nat q" "sr_cachedTail r = of_nat ct"
    "sr_cachedHead r = of_nat ch" "ct \<le> q" "q \<le> ch" "ch \<le> p" "p \<le> ct + sr_capacity r" "b \<longrightarrow> p < ct + sr_capacity r" "c \<longrightarrow> q < ch"
    using assms(1) by (rule countersE)
  then have ct: "ct = q" using assms(2) by simp
  have f: "of_nat (sr_capacity r) \<le> (of_nat p - of_nat q :: 64 word) \<longleftrightarrow> p = q + sr_capacity r"
    by (rule cursor_full) (use k in linarith)+
  have "sr_tryClaim r = (None, r\<lparr>sr_cachedTail := sr_tail r\<rparr>)"
    using k(2-4) ct f assms(2) by (simp add: sr_tryClaim_def Let_def)
  moreover have "r\<lparr>sr_cachedTail := sr_tail r\<rparr> = r" using k(3,4) ct by simp
  ultimately show thesis using that assms(1) by auto
qed

lemma tryPeek_some:
  assumes "counters r p q b c" "q < p"
  obtains r' where "sr_tryPeek r = (Some (q mod sr_capacity r), r')" "counters r' p q b True" "sr_storage r' = sr_storage r"
proof -
  obtain ct ch where k: "ring_size (sr_capacity r)" "sr_head r = of_nat p" "sr_tail r = of_nat q" "sr_cachedTail r = of_nat ct"
    "sr_cachedHead r = of_nat ch" "ct \<le> q" "q \<le> ch" "ch \<le> p" "p \<le> ct + sr_capacity r" "b \<longrightarrow> p < ct + sr_capacity r"
    using assms(1) by (rule countersE)
  have f1: "(of_nat q :: 64 word) = of_nat ch \<longleftrightarrow> q = ch" by (rule cursor_eq [OF k(1)]) (use k in linarith)+
  have "(of_nat q :: 64 word) = of_nat p \<longleftrightarrow> q = p" by (rule cursor_eq [OF k(1)]) (use k in linarith)+
  then have f2: "(of_nat q :: 64 word) \<noteq> of_nat p" using assms(2) by simp
  have g: "sr_tail r \<noteq> sr_head r" "ring_mask (sr_capacity r) (sr_tail r) = q mod sr_capacity r" "sr_tail r = sr_cachedHead r \<longleftrightarrow> q = ch"
    using f1 f2 ring_mask_mod [OF k(1)] by (simp_all only: k(2-5)) simp_all
  define r' where "r' = (if sr_tail r = sr_cachedHead r then r\<lparr>sr_cachedHead := sr_head r\<rparr> else r)"
  have "sr_tryPeek r = (Some (q mod sr_capacity r), r')"
    using g(1,2) by (auto simp: sr_tryPeek_def Let_def r'_def)
  moreover have "sr_storage r' = sr_storage r" by (simp add: r'_def)
  moreover have "counters r' p q b True"
    unfolding r'_def g(3) by (rule countersI [where ct = ct and ch = "if q = ch then p else ch"])
      (use k assms(2) in \<open>auto simp: sr_capacity_def\<close>)
  ultimately show thesis using that by blast
qed

lemma tryPeek_none:
  assumes "counters r p p b c"
  obtains r' where "sr_tryPeek r = (None, r')" "counters r' p p b c" "sr_storage r' = sr_storage r"
proof -
  obtain ct ch where k: "sr_head r = of_nat p" "sr_tail r = of_nat p" "sr_cachedHead r = of_nat ch" "p \<le> ch" "ch \<le> p"
    using assms by (rule countersE)
  then have "sr_tryPeek r = (None, r\<lparr>sr_cachedHead := sr_head r\<rparr>)" "r\<lparr>sr_cachedHead := sr_head r\<rparr> = r"
    by (simp_all add: sr_tryPeek_def)
  then show thesis using that assms by auto
qed

lemma counters_write [simp]: "counters (sr_write r i v) p q b c = counters r p q b c"
  by (simp add: counters_def sr_write_def sr_capacity_def)

lemma counters_publish: "counters r p q True c \<Longrightarrow> counters (sr_publish r) (Suc p) q False c"
  by (erule countersE, rule countersI) (auto simp: sr_publish_def sr_capacity_def add.commute)

lemma counters_consume: "counters r p q b True \<Longrightarrow> counters (sr_consume r) p (Suc q) b False"
  by (erule countersE, rule countersI) (auto simp: sr_consume_def sr_capacity_def add.commute)

lemma counters_weaken: "counters r p q b c \<Longrightarrow> counters r p q False False"
  by (auto simp: counters_def)

lemma counters_new: "ring_size c \<Longrightarrow> counters (newSpscRing d c) 0 0 False False"
  by (simp add: counters_def newSpscRing_def sr_capacity_def)

text \<open>The slots in use.\<close>

definition window :: "'a SpscRing \<Rightarrow> nat \<Rightarrow> nat \<Rightarrow> 'a list" where
  "window r q p = map (\<lambda>i. sr_storage r ! (i mod sr_capacity r)) [q..<p]"

lemma mod_window: 
  assumes "(i::nat) \<le> j" "j < i + c" "i mod c = j mod c"
  shows "i = j"
proof -
  have "(j - i) mod c = 0" by (metis assms(1,3) mod_eq_dvd_iff_nat dvd_imp_mod_0)
  then show ?thesis using assms(1,2) by simp
qed

lemma window_publish:
  assumes "counters r p q b c" "p < q + sr_capacity r"
  shows "window (sr_publish (sr_write r (p mod sr_capacity r) v)) q (Suc p) = window r q p @ [v]"
proof -
  have c: "0 < sr_capacity r" using counters_bounds(3) [OF assms(1)] by (rule ring_size_bound)
  have "sr_storage (sr_write r (p mod sr_capacity r) v) ! (i mod sr_capacity r) = sr_storage r ! (i mod sr_capacity r)" if "i \<in> set [q..<p]" for i
  proof -
    have "i mod sr_capacity r \<noteq> p mod sr_capacity r" using mod_window [of i p "sr_capacity r"] that assms(2) by auto
    then show ?thesis by (simp add: sr_write_def)
  qed
  moreover have "sr_storage (sr_write r (p mod sr_capacity r) v) ! (p mod sr_capacity r) = v" using c by (simp add: sr_write_def sr_capacity_def)
  ultimately show ?thesis using counters_bounds(1) [OF assms(1)]
    by (simp add: window_def sr_publish_def sr_capacity_def sr_write_def)
qed

section \<open>A bounded queue\<close>

text \<open>
  The contract of a ring as one thread sees it: a push succeeds exactly when there is room and then adds at the back, a pop
  succeeds exactly when there is something and takes it from the front.
\<close>

datatype 'a fifo_op = Push 'a | Pop

fun fifo_run :: "('r \<Rightarrow> 'a \<Rightarrow> bool \<times> 'r) \<Rightarrow> ('r \<Rightarrow> 'a option \<times> 'r) \<Rightarrow> 'r \<Rightarrow> 'a fifo_op list \<Rightarrow> 'a list \<times> 'a list \<times> 'r" where
  "fifo_run enq deq r [] = ([], [], r)"
| "fifo_run enq deq r (Push v # ops) =
     (let (ok, r1) = enq r v; (ins, outs, r2) = fifo_run enq deq r1 ops in (if ok then v # ins else ins, outs, r2))"
| "fifo_run enq deq r (Pop # ops) =
     (let (x, r1) = deq r; (ins, outs, r2) = fifo_run enq deq r1 ops
      in (ins, (case x of None \<Rightarrow> outs | Some v \<Rightarrow> v # outs), r2))"

locale bounded_fifo =
  fixes inv :: "'r \<Rightarrow> bool" and contents :: "'r \<Rightarrow> 'a list" and cap :: "'r \<Rightarrow> nat"
    and push :: "'r \<Rightarrow> 'a \<Rightarrow> bool \<times> 'r" and pop :: "'r \<Rightarrow> 'a option \<times> 'r"
  assumes bounded: "inv r \<Longrightarrow> length (contents r) \<le> cap r"
    and push_room: "inv r \<Longrightarrow> length (contents r) < cap r \<Longrightarrow>
      \<exists>r'. push r v = (True, r') \<and> inv r' \<and> contents r' = contents r @ [v] \<and> cap r' = cap r"
    and push_full: "inv r \<Longrightarrow> length (contents r) = cap r \<Longrightarrow>
      \<exists>r'. push r v = (False, r') \<and> inv r' \<and> contents r' = contents r \<and> cap r' = cap r"
    and pop_some: "inv r \<Longrightarrow> contents r = v # vs \<Longrightarrow> \<exists>r'. pop r = (Some v, r') \<and> inv r' \<and> contents r' = vs \<and> cap r' = cap r"
    and pop_none: "inv r \<Longrightarrow> contents r = [] \<Longrightarrow> \<exists>r'. pop r = (None, r') \<and> inv r' \<and> contents r' = [] \<and> cap r' = cap r"
begin

lemma push_cases:
  assumes "inv r"
  obtains r' where "length (contents r) < cap r" "push r v = (True, r')" "inv r'" "contents r' = contents r @ [v]" "cap r' = cap r"
  | r' where "length (contents r) = cap r" "push r v = (False, r')" "inv r'" "contents r' = contents r" "cap r' = cap r"
  using bounded [OF assms] push_room [OF assms, of v] push_full [OF assms, of v] by (meson le_neq_implies_less)

lemma pop_cases:
  assumes "inv r"
  obtains v r' where "contents r = v # contents r'" "pop r = (Some v, r')" "inv r'" "cap r' = cap r"
  | r' where "contents r = []" "contents r' = []" "pop r = (None, r')" "inv r'" "cap r' = cap r"
proof (cases "contents r")
  case Nil
  then show thesis using pop_none [OF assms] that(2) by blast
next
  case (Cons v vs)
  then show thesis using pop_some [OF assms] that(1) by blast
qed

lemma run_fifo:
  assumes "inv r" "fifo_run push pop r ops = (ins, outs, r')"
  shows "contents r @ ins = outs @ contents r' \<and> inv r' \<and> length (contents r') \<le> cap r"
  using assms
proof (induction ops arbitrary: r ins outs)
  case Nil
  then show ?case using bounded by simp
next
  case (Cons op ops)
  show ?case
  proof (cases op)
    case (Push v)
    from Cons.prems(1) show ?thesis
    proof (cases rule: push_cases [where v = v])
      case (1 r1)
      obtain ins1 outs1 r2 where "fifo_run push pop r1 ops = (ins1, outs1, r2)" by (cases "fifo_run push pop r1 ops") auto
      then show ?thesis using Cons.IH [of r1 ins1 outs1] Cons.prems(2) 1 Push by simp
    next
      case (2 r1)
      obtain ins1 outs1 r2 where "fifo_run push pop r1 ops = (ins1, outs1, r2)" by (cases "fifo_run push pop r1 ops") auto
      then show ?thesis using Cons.IH [of r1 ins1 outs1] Cons.prems(2) 2 Push by simp
    qed
  next
    case Pop
    from Cons.prems(1) show ?thesis
    proof (cases rule: pop_cases)
      case (1 v r1)
      obtain ins1 outs1 r2 where "fifo_run push pop r1 ops = (ins1, outs1, r2)" by (cases "fifo_run push pop r1 ops") auto
      then show ?thesis using Cons.IH [of r1 ins1 outs1] Cons.prems(2) 1 Pop by auto
    next
      case (2 r1)
      obtain ins1 outs1 r2 where "fifo_run push pop r1 ops = (ins1, outs1, r2)" by (cases "fifo_run push pop r1 ops") auto
      then show ?thesis using Cons.IH [of r1 ins1 outs1] Cons.prems(2) 2 Pop by auto
    qed
  qed
qed

end

definition sr_inv :: "'a SpscRing \<Rightarrow> bool" where
  "sr_inv r \<longleftrightarrow> (\<exists>p q. counters r p q False False)"

definition sr_contents :: "'a SpscRing \<Rightarrow> 'a list" where
  "sr_contents r = map (\<lambda>i. sr_storage r ! ring_mask (sr_capacity r) (sr_tail r + of_nat i)) [0..<unat (sr_head r - sr_tail r)]"

lemma contents_window:
  assumes "counters r p q b c"
  shows "sr_contents r = window r q p"
proof -
  have k: "ring_size (sr_capacity r)" "sr_head r = of_nat p" "sr_tail r = of_nat q" using assms by (auto elim: countersE)
  note le = counters_bounds(1,2) [OF assms] and c = ring_size_bound(2) [OF k(1)]
  have d: "unat (sr_head r - sr_tail r) = p - q" using cursor_minus [of q p] le c unfolding k by linarith
  have m: "ring_mask (sr_capacity r) (sr_tail r + of_nat i) = (i + q) mod sr_capacity r" for i
    using ring_mask_mod [OF k(1), of "i + q"] by (simp add: k(3) add.commute)
  have "[q..<p] = map (\<lambda>i. i + q) [0..<p - q]" using le(1) by (simp add: map_add_upt)
  then show ?thesis unfolding sr_contents_def window_def d by (simp add: m o_def)
qed

lemma window_length [simp]: "length (window r q p) = p - q"
  by (simp add: window_def)

lemma sr_capacity_eq [simp]:
  "sr_capacity (sr_write r i v) = sr_capacity r" "sr_capacity (sr_publish r) = sr_capacity r" "sr_capacity (sr_consume r) = sr_capacity r"
  by (simp_all add: sr_capacity_def sr_write_def sr_publish_def sr_consume_def)

lemma sr_push_room:
  assumes "counters r p q False c" "p < q + sr_capacity r"
  obtains r' where "sr_push r v = (True, r')" "counters r' (Suc p) q False c" "window r' q (Suc p) = window r q p @ [v]" "sr_capacity r' = sr_capacity r"
proof -
  obtain r1 where r1: "sr_tryClaim r = (Some (p mod sr_capacity r), r1)" "counters r1 p q True c" "sr_storage r1 = sr_storage r"
    using tryClaim_room [OF assms] by blast
  have cap: "sr_capacity r1 = sr_capacity r" using r1(3) by (simp add: sr_capacity_def)
  have "window r1 q p = window r q p" by (simp add: window_def cap r1(3))
  then show thesis
    using that [of "sr_publish (sr_write r1 (p mod sr_capacity r) v)"] r1 cap counters_publish [of "sr_write r1 (p mod sr_capacity r) v" p q c]
      window_publish [OF r1(2), of v] assms(2) by (simp add: sr_push_def)
qed

lemma sr_pop_some:
  assumes "counters r p q b False" "q < p"
  obtains r' where "sr_pop r = (Some (hd (window r q p)), r')" "counters r' p (Suc q) b False" "window r' (Suc q) p = tl (window r q p)"
    "sr_capacity r' = sr_capacity r"
proof -
  obtain r1 where r1: "sr_tryPeek r = (Some (q mod sr_capacity r), r1)" "counters r1 p q b True" "sr_storage r1 = sr_storage r"
    using tryPeek_some [OF assms] by blast
  have cap: "sr_capacity r1 = sr_capacity r" using r1(3) by (simp add: sr_capacity_def)
  have w: "window r q p = (sr_storage r ! (q mod sr_capacity r)) # window r (Suc q) p" using assms(2) by (simp add: window_def upt_rec)
  have "window (sr_consume r1) (Suc q) p = window r (Suc q) p" by (simp add: window_def cap r1(3) sr_consume_def sr_capacity_def)
  then show thesis using that [of "sr_consume r1"] r1 cap counters_consume [OF r1(2)] w by (simp add: sr_pop_def)
qed

interpretation sr: bounded_fifo sr_inv sr_contents sr_capacity sr_push sr_pop
proof unfold_locales
  fix r :: "'a SpscRing" and v :: 'a and vs :: "'a list"
  assume "sr_inv r"
  then obtain p q where c: "counters r p q False False" by (auto simp: sr_inv_def)
  note w = contents_window [OF c] and b = counters_bounds(1,2) [OF c]
  show "length (sr_contents r) \<le> sr_capacity r" using w b by simp
  show "\<exists>r'. sr_push r v = (True, r') \<and> sr_inv r' \<and> sr_contents r' = sr_contents r @ [v] \<and> sr_capacity r' = sr_capacity r"
    if "length (sr_contents r) < sr_capacity r"
  proof -
    note room = that
    obtain r' where r': "sr_push r v = (True, r')" "counters r' (Suc p) q False False" "window r' q (Suc p) = window r q p @ [v]" "sr_capacity r' = sr_capacity r"
      by (rule sr_push_room [OF c]) (use room w b in auto)
    then show ?thesis using w contents_window [OF r'(2)] by (auto simp: sr_inv_def)
  qed
  show "\<exists>r'. sr_push r v = (False, r') \<and> sr_inv r' \<and> sr_contents r' = sr_contents r \<and> sr_capacity r' = sr_capacity r"
    if "length (sr_contents r) = sr_capacity r"
  proof -
    note full = that
    obtain r' where r': "sr_tryClaim r = (None, r')" "counters r' p q False False" "sr_storage r' = sr_storage r"
      by (rule tryClaim_full [OF c]) (use full w b in auto)
    then have "window r' q p = window r q p" by (simp add: window_def sr_capacity_def)
    then show ?thesis using r' w contents_window [OF r'(2)] by (auto simp: sr_inv_def sr_push_def sr_capacity_def)
  qed
  show "\<exists>r'. sr_pop r = (Some v, r') \<and> sr_inv r' \<and> sr_contents r' = vs \<and> sr_capacity r' = sr_capacity r"
    if "sr_contents r = v # vs"
  proof -
    have "window r q p = v # vs" using that w by simp
    moreover have "length (window r q p) = p - q" by simp
    ultimately have "q < p" by (metis length_greater_0_conv list.simps(3) zero_less_diff)
    then obtain r' where r': "sr_pop r = (Some (hd (window r q p)), r')" "counters r' p (Suc q) False False" "window r' (Suc q) p = tl (window r q p)"
        "sr_capacity r' = sr_capacity r"
      by (rule sr_pop_some [OF c])
    then show ?thesis using that w contents_window [OF r'(2)] by (auto simp: sr_inv_def)
  qed
  show "\<exists>r'. sr_pop r = (None, r') \<and> sr_inv r' \<and> sr_contents r' = [] \<and> sr_capacity r' = sr_capacity r"
    if "sr_contents r = []"
  proof -
    have "length (window r q p) = 0" using that w by simp
    then have "q = p" using b by simp
    then obtain r' where r': "sr_tryPeek r = (None, r')" "counters r' p p False False" "sr_storage r' = sr_storage r"
      using tryPeek_none c by blast
    then show ?thesis using contents_window [OF r'(2)] by (auto simp: sr_inv_def sr_pop_def window_def sr_capacity_def)
  qed
qed

section \<open>One producer and one consumer thread\<close>

text \<open>
  The two threads interleave at their shared accesses: the producer loads the consumer's cursor (inside \<^const>\<open>sr_tryClaim\<close>),
  writes the slot and stores its own cursor, the consumer loads the producer's cursor, reads the slot and stores its own.
  \<open>th_sent\<close> and \<open>th_got\<close> record what was published and what was read.
\<close>

datatype 'a producer = PIdle | PClaimed nat 'a | PWritten 'a

datatype consumer = CIdle | CPeeked nat | CRead

record 'a ring_threads =
  th_ring :: "'a SpscRing"
  th_producer :: "'a producer"
  th_consumer :: consumer
  th_sent :: "'a list"
  th_got :: "'a list"

definition start_threads :: "'a SpscRing \<Rightarrow> 'a ring_threads" where
  "start_threads r = \<lparr>th_ring = r, th_producer = PIdle, th_consumer = CIdle, th_sent = [], th_got = []\<rparr>"

inductive ring_step :: "'a ring_threads \<Rightarrow> 'a ring_threads \<Rightarrow> bool" where
  claim: "th_producer s = PIdle \<Longrightarrow> sr_tryClaim (th_ring s) = (Some i, r) \<Longrightarrow> ring_step s (s\<lparr>th_ring := r, th_producer := PClaimed i v\<rparr>)"
| full: "th_producer s = PIdle \<Longrightarrow> sr_tryClaim (th_ring s) = (None, r) \<Longrightarrow> ring_step s (s\<lparr>th_ring := r\<rparr>)"
| wrt: "th_producer s = PClaimed i v \<Longrightarrow> ring_step s (s\<lparr>th_ring := sr_write (th_ring s) i v, th_producer := PWritten v\<rparr>)"
| publ: "th_producer s = PWritten v \<Longrightarrow> ring_step s (s\<lparr>th_ring := sr_publish (th_ring s), th_producer := PIdle, th_sent := th_sent s @ [v]\<rparr>)"
| peek: "th_consumer s = CIdle \<Longrightarrow> sr_tryPeek (th_ring s) = (Some i, r) \<Longrightarrow> ring_step s (s\<lparr>th_ring := r, th_consumer := CPeeked i\<rparr>)"
| empty: "th_consumer s = CIdle \<Longrightarrow> sr_tryPeek (th_ring s) = (None, r) \<Longrightarrow> ring_step s (s\<lparr>th_ring := r\<rparr>)"
| rd: "th_consumer s = CPeeked i \<Longrightarrow> ring_step s (s\<lparr>th_consumer := CRead, th_got := th_got s @ [sr_storage (th_ring s) ! i]\<rparr>)"
| cons: "th_consumer s = CRead \<Longrightarrow> ring_step s (s\<lparr>th_ring := sr_consume (th_ring s), th_consumer := CIdle\<rparr>)"

definition retired :: "'a ring_threads \<Rightarrow> nat" where
  "retired s = (if th_consumer s = CRead then length (th_got s) - 1 else length (th_got s))"

fun producer_ok :: "'a list \<Rightarrow> nat \<Rightarrow> 'a producer \<Rightarrow> bool" where
  "producer_ok xs p PIdle \<longleftrightarrow> True"
| "producer_ok xs p (PClaimed i v) \<longleftrightarrow> i = p mod length xs"
| "producer_ok xs p (PWritten v) \<longleftrightarrow> xs ! (p mod length xs) = v"

fun consumer_ok :: "nat \<Rightarrow> nat \<Rightarrow> 'a list \<Rightarrow> consumer \<Rightarrow> bool" where
  "consumer_ok c q got CIdle \<longleftrightarrow> True"
| "consumer_ok c q got (CPeeked i) \<longleftrightarrow> i = q mod c"
| "consumer_ok c q got CRead \<longleftrightarrow> got \<noteq> []"

definition threads_inv :: "'a ring_threads \<Rightarrow> bool" where
  "threads_inv s \<longleftrightarrow>
     (let r = th_ring s; p = length (th_sent s); q = retired s; c = sr_capacity r
      in counters r p q (th_producer s \<noteq> PIdle) (th_consumer s \<noteq> CIdle) \<and>
         window r q p = drop q (th_sent s) \<and>
         producer_ok (sr_storage r) p (th_producer s) \<and>
         take (length (th_got s)) (th_sent s) = th_got s \<and>
         consumer_ok c q (th_got s) (th_consumer s))"

lemma threads_invD:
  assumes "threads_inv s" "p = length (th_sent s)" "q = retired s"
  shows "counters (th_ring s) p q (th_producer s \<noteq> PIdle) (th_consumer s \<noteq> CIdle)" "window (th_ring s) q p = drop q (th_sent s)"
    "\<And>i v. th_producer s = PClaimed i v \<Longrightarrow> i = p mod sr_capacity (th_ring s)"
    "\<And>v. th_producer s = PWritten v \<Longrightarrow> sr_storage (th_ring s) ! (p mod sr_capacity (th_ring s)) = v"
    "take (length (th_got s)) (th_sent s) = th_got s"
    "\<And>i. th_consumer s = CPeeked i \<Longrightarrow> i = q mod sr_capacity (th_ring s)" "th_consumer s = CRead \<Longrightarrow> th_got s \<noteq> []"
  using assms by (auto simp: threads_inv_def Let_def sr_capacity_def)

text \<open>The slot the producer is writing is never one of the slots in use.\<close>

lemma slot_apart:
  assumes "counters r p q True c" "q \<le> i" "i < p"
  shows "p mod sr_capacity r \<noteq> i mod sr_capacity r"
  using mod_window [of i p "sr_capacity r"] assms counters_bounds(4) [OF assms(1)] by auto

lemma window_write:
  assumes "counters r p q True c"
  shows "window (sr_write r (p mod sr_capacity r) v) q p = window r q p"
  unfolding window_def using slot_apart [OF assms] by (simp add: sr_write_def sr_capacity_def)

lemma threads_inv_ring:
  assumes "threads_inv s" "sr_storage r = sr_storage (th_ring s)"
    "counters r (length (th_sent s)) (retired s) (th_producer s \<noteq> PIdle) (th_consumer s \<noteq> CIdle)"
  shows "threads_inv (s\<lparr>th_ring := r\<rparr>)"
proof -
  have w: "window r q p = window (th_ring s) q p" "sr_capacity r = sr_capacity (th_ring s)" for q p
    using assms(2) by (simp_all add: window_def sr_capacity_def)
  have q: "retired (s\<lparr>th_ring := r\<rparr>) = retired s" by (simp add: retired_def)
  show ?thesis using assms(1,3) by (simp add: threads_inv_def Let_def w q assms(2))
qed

lemma retired_simps [simp]:
  "retired (s\<lparr>th_ring := r\<rparr>) = retired s" "retired (s\<lparr>th_producer := x\<rparr>) = retired s" "retired (s\<lparr>th_sent := xs\<rparr>) = retired s"
  by (simp_all add: retired_def)

lemma step_claim:
  assumes inv: "threads_inv s" and idle: "th_producer s = PIdle" and cl: "sr_tryClaim (th_ring s) = (Some i, r)"
  shows "threads_inv (s\<lparr>th_ring := r, th_producer := PClaimed i v\<rparr>)"
proof -
  let ?p = "length (th_sent s)" and ?q = "retired s" and ?c = "sr_capacity (th_ring s)"
  note c = threads_invD(1) [OF inv refl refl]
  have "?p \<noteq> ?q + ?c" using tryClaim_full [OF c] cl by auto
  then have "?p < ?q + ?c" using counters_bounds(2) [OF c] by linarith
  with c obtain r' where r': "sr_tryClaim (th_ring s) = (Some (?p mod ?c), r')" "counters r' ?p ?q True (th_consumer s \<noteq> CIdle)"
      "sr_storage r' = sr_storage (th_ring s)"
    by (rule tryClaim_room)
  then have eq: "r = r'" "i = ?p mod ?c" using cl by simp_all
  have w: "window r q p = window (th_ring s) q p" "sr_capacity r = ?c" for q p
    using r'(3) eq by (simp_all add: window_def sr_capacity_def)
  show ?thesis using inv r'(2,3) idle w by (simp add: threads_inv_def Let_def eq sr_capacity_def)
qed

lemma step_peek:
  assumes inv: "threads_inv s" and idle: "th_consumer s = CIdle" and pk: "sr_tryPeek (th_ring s) = (Some i, r)"
  shows "threads_inv (s\<lparr>th_ring := r, th_consumer := CPeeked i\<rparr>)"
proof -
  let ?p = "length (th_sent s)" and ?q = "retired s" and ?c = "sr_capacity (th_ring s)"
  note c = threads_invD(1) [OF inv refl refl]
  have "?q \<noteq> ?p" using tryPeek_none [of "th_ring s" ?p] c pk by (metis option.distinct(1) prod.inject)
  then have "?q < ?p" using counters_bounds(1) [OF c] by linarith
  with c obtain r' where r': "sr_tryPeek (th_ring s) = (Some (?q mod ?c), r')" "counters r' ?p ?q (th_producer s \<noteq> PIdle) True"
      "sr_storage r' = sr_storage (th_ring s)"
    by (rule tryPeek_some)
  then have eq: "r = r'" "i = ?q mod ?c" using pk by simp_all
  have w: "window r q p = window (th_ring s) q p" "sr_capacity r = ?c" for q p
    using r'(3) eq by (simp_all add: window_def sr_capacity_def)
  have q: "retired (s\<lparr>th_ring := r, th_consumer := CPeeked i\<rparr>) = ?q" using idle by (simp add: retired_def)
  show ?thesis using inv r'(2,3) idle w q by (simp add: threads_inv_def Let_def eq sr_capacity_def)
qed

lemma step_full:
  assumes inv: "threads_inv s" and cl: "sr_tryClaim (th_ring s) = (None, r)"
  shows "threads_inv (s\<lparr>th_ring := r\<rparr>)"
proof -
  let ?p = "length (th_sent s)" and ?q = "retired s"
  note c = threads_invD(1) [OF inv refl refl]
  have "\<not> ?p < ?q + sr_capacity (th_ring s)" using tryClaim_room [OF c] cl by auto
  then have "?p = ?q + sr_capacity (th_ring s)" using counters_bounds(2) [OF c] by linarith
  with c obtain r' where "sr_tryClaim (th_ring s) = (None, r')" "counters r' ?p ?q (th_producer s \<noteq> PIdle) (th_consumer s \<noteq> CIdle)"
      "sr_storage r' = sr_storage (th_ring s)"
    by (rule tryClaim_full)
  then show ?thesis using threads_inv_ring [OF inv] cl by simp
qed

lemma step_empty:
  assumes inv: "threads_inv s" and pk: "sr_tryPeek (th_ring s) = (None, r)"
  shows "threads_inv (s\<lparr>th_ring := r\<rparr>)"
proof -
  let ?p = "length (th_sent s)" and ?q = "retired s"
  note c = threads_invD(1) [OF inv refl refl]
  have "\<not> ?q < ?p" using tryPeek_some [OF c] pk by auto
  then have qp: "?q = ?p" using counters_bounds(1) [OF c] by linarith
  obtain r' where "sr_tryPeek (th_ring s) = (None, r')" "counters r' ?p ?p (th_producer s \<noteq> PIdle) (th_consumer s \<noteq> CIdle)"
      "sr_storage r' = sr_storage (th_ring s)"
    by (rule tryPeek_none [OF c [unfolded qp]])
  then show ?thesis using threads_inv_ring [OF inv] pk qp by simp
qed

lemma step_write:
  assumes inv: "threads_inv s" and cl: "th_producer s = PClaimed i v"
  shows "threads_inv (s\<lparr>th_ring := sr_write (th_ring s) i v, th_producer := PWritten v\<rparr>)"
proof -
  let ?p = "length (th_sent s)" and ?c = "sr_capacity (th_ring s)"
  note c = threads_invD(1) [OF inv refl refl, unfolded cl, simplified]
  have i: "i = ?p mod ?c" by (rule threads_invD(3) [OF inv refl refl cl])
  have "0 < ?c" using counters_bounds(3) [OF c] by (rule ring_size_bound)
  then have "producer_ok (sr_storage (sr_write (th_ring s) i v)) ?p (PWritten v)" by (simp add: sr_write_def i sr_capacity_def)
  moreover have "window (sr_write (th_ring s) i v) (retired s) ?p = window (th_ring s) (retired s) ?p" unfolding i by (rule window_write [OF c])
  ultimately show ?thesis using inv cl c by (simp add: threads_inv_def Let_def del: producer_ok.simps(3))
qed

lemma got_le: "take (length xs) ys = xs \<Longrightarrow> length xs \<le> length ys"
proof -
  assume "take (length xs) ys = xs"
  then have "length (take (length xs) ys) = length xs" by (rule arg_cong)
  then show ?thesis by simp
qed

lemma step_publish:
  assumes inv: "threads_inv s" and wr: "th_producer s = PWritten v"
  shows "threads_inv (s\<lparr>th_ring := sr_publish (th_ring s), th_producer := PIdle, th_sent := th_sent s @ [v]\<rparr>)"
proof -
  let ?p = "length (th_sent s)" and ?q = "retired s" and ?c = "sr_capacity (th_ring s)"
  note c = threads_invD(1) [OF inv refl refl, unfolded wr, simplified]
  note d = threads_invD [OF inv refl refl]
  have le: "?q \<le> ?p" by (rule counters_bounds(1) [OF c])
  have "window (sr_publish (th_ring s)) ?q (Suc ?p) = window (th_ring s) ?q ?p @ [v]"
    using d(4) [OF wr] le by (simp add: window_def sr_publish_def sr_capacity_def)
  then have w: "window (sr_publish (th_ring s)) ?q (Suc ?p) = drop ?q (th_sent s @ [v])" using d(2) le by simp
  have g: "take (length (th_got s)) (th_sent s @ [v]) = th_got s" using d(5) got_le [OF d(5)] by simp
  have q: "retired (s\<lparr>th_ring := sr_publish (th_ring s), th_producer := PIdle, th_sent := th_sent s @ [v]\<rparr>) = ?q" by (simp add: retired_def)
  show ?thesis using inv counters_publish [OF c] w g q by (simp add: threads_inv_def Let_def)
qed

lemma step_read:
  assumes inv: "threads_inv s" and pk: "th_consumer s = CPeeked i"
  shows "threads_inv (s\<lparr>th_consumer := CRead, th_got := th_got s @ [sr_storage (th_ring s) ! i]\<rparr>)"
proof -
  let ?p = "length (th_sent s)" and ?q = "retired s" and ?c = "sr_capacity (th_ring s)"
  note c = threads_invD(1) [OF inv refl refl, unfolded pk, simplified] and d = threads_invD [OF inv refl refl]
  have q: "?q = length (th_got s)" using pk by (simp add: retired_def)
  have lt: "?q < ?p" by (rule counters_bounds(5) [OF c]) simp
  have "hd (window (th_ring s) ?q ?p) = sr_storage (th_ring s) ! (?q mod ?c)" using lt by (simp add: window_def upt_rec)
  then have "sr_storage (th_ring s) ! i = th_sent s ! ?q" using d(2) d(6) [OF pk] lt by (simp add: hd_drop_conv_nth)
  then have "th_got s @ [sr_storage (th_ring s) ! i] = take (Suc ?q) (th_sent s)"
    using d(5) lt by (simp add: take_Suc_conv_app_nth q [symmetric])
  then show ?thesis using inv c q lt by (auto simp: threads_inv_def Let_def retired_def pk)
qed

lemma step_consume:
  assumes inv: "threads_inv s" and rd: "th_consumer s = CRead"
  shows "threads_inv (s\<lparr>th_ring := sr_consume (th_ring s), th_consumer := CIdle\<rparr>)"
proof -
  let ?p = "length (th_sent s)" and ?q = "retired s"
  note c = threads_invD(1) [OF inv refl refl, unfolded rd, simplified] and d = threads_invD [OF inv refl refl]
  have q: "length (th_got s) = Suc ?q" using d(7) [OF rd] rd by (cases "th_got s") (simp_all add: retired_def)
  have lt: "?q < ?p" by (rule counters_bounds(5) [OF c]) simp
  have "window (sr_consume (th_ring s)) (Suc ?q) ?p = tl (window (th_ring s) ?q ?p)"
    using lt by (simp add: window_def sr_consume_def sr_capacity_def upt_rec)
  then have w: "window (sr_consume (th_ring s)) (Suc ?q) ?p = drop (Suc ?q) (th_sent s)" using d(2) by (simp add: drop_Suc tl_drop)
  have st: "sr_storage (sr_consume (th_ring s)) = sr_storage (th_ring s)" by (simp add: sr_consume_def)
  have rt: "retired (s\<lparr>th_ring := sr_consume (th_ring s), th_consumer := CIdle\<rparr>) = Suc ?q" unfolding q [symmetric] by (simp add: retired_def)
  show ?thesis using inv counters_consume [OF c] w st rt by (simp add: threads_inv_def Let_def)
qed

lemma ring_step_inv: "ring_step s t \<Longrightarrow> threads_inv s \<Longrightarrow> threads_inv t"
  by (induction rule: ring_step.induct)
    (simp_all add: step_claim step_full step_write step_publish step_peek step_empty step_read step_consume)

lemma ring_reach_inv: "ring_step\<^sup>*\<^sup>* s t \<Longrightarrow> threads_inv s \<Longrightarrow> threads_inv t"
  by (induction rule: rtranclp_induct) (simp_all add: ring_step_inv)

lemma start_inv: "ring_size c \<Longrightarrow> threads_inv (start_threads (newSpscRing d c))"
  by (simp add: threads_inv_def start_threads_def retired_def counters_new window_def)

lemma ring_step_capacity: "ring_step s t \<Longrightarrow> sr_capacity (th_ring t) = sr_capacity (th_ring s)"
  by (induction rule: ring_step.induct) (auto simp: sr_tryClaim_def sr_tryPeek_def Let_def sr_capacity_def sr_write_def sr_publish_def sr_consume_def split: if_splits)

lemma ring_reach_capacity: "ring_step\<^sup>*\<^sup>* s t \<Longrightarrow> sr_capacity (th_ring t) = sr_capacity (th_ring s)"
  by (induction rule: rtranclp_induct) (simp_all add: ring_step_capacity)

text \<open>What the invariant says of what was read, and of the slots the two threads hold.\<close>

lemma threads_safe:
  assumes inv: "threads_inv s"
  shows "take (length (th_got s)) (th_sent s) = th_got s" "length (th_sent s) \<le> length (th_got s) + sr_capacity (th_ring s)"
    "th_producer s = PClaimed i v \<Longrightarrow> th_consumer s = CPeeked j \<Longrightarrow> i \<noteq> j"
    "th_producer s = PClaimed i v \<Longrightarrow> i < sr_capacity (th_ring s)" "th_consumer s = CPeeked j \<Longrightarrow> j < sr_capacity (th_ring s)"
proof -
  note d = threads_invD [OF inv refl refl]
  have q: "retired s \<le> length (th_got s)" by (simp add: retired_def)
  show "take (length (th_got s)) (th_sent s) = th_got s" by (rule d(5))
  show "length (th_sent s) \<le> length (th_got s) + sr_capacity (th_ring s)" using counters_bounds(2) [OF d(1)] q by linarith
  have pos: "0 < sr_capacity (th_ring s)" using counters_bounds(3) [OF d(1)] by (rule ring_size_bound)
  show "th_producer s = PClaimed i v \<Longrightarrow> i < sr_capacity (th_ring s)" using d(3) pos by simp
  show "th_consumer s = CPeeked j \<Longrightarrow> j < sr_capacity (th_ring s)" using d(6) pos by simp
  show "th_producer s = PClaimed i v \<Longrightarrow> th_consumer s = CPeeked j \<Longrightarrow> i \<noteq> j"
    using d(1) d(3) d(6) slot_apart [of "th_ring s" "length (th_sent s)" "retired s"] counters_bounds(5) [OF d(1)] by simp
qed

section \<open>Progress\<close>

text \<open>From every reachable state the consumer alone reads everything that was published.\<close>

lemma consumer_to_idle:
  assumes "threads_inv s"
  obtains t where "ring_step\<^sup>*\<^sup>* s t" "th_consumer t = CIdle" "th_sent t = th_sent s" "length (th_got s) \<le> length (th_got t)"
proof (cases "th_consumer s")
  case CIdle
  then show thesis using that by blast
next
  case (CPeeked i)
  let ?t = "s\<lparr>th_consumer := CRead, th_got := th_got s @ [sr_storage (th_ring s) ! i]\<rparr>"
  have "ring_step s ?t" using CPeeked by (rule ring_step.rd)
  moreover have "ring_step ?t (?t\<lparr>th_ring := sr_consume (th_ring ?t), th_consumer := CIdle\<rparr>)" by (rule ring_step.cons) simp
  ultimately have "ring_step\<^sup>*\<^sup>* s (?t\<lparr>th_ring := sr_consume (th_ring ?t), th_consumer := CIdle\<rparr>)" by (meson r_into_rtranclp rtranclp_trans)
  then show thesis using that by force
next
  case CRead
  have "ring_step s (s\<lparr>th_ring := sr_consume (th_ring s), th_consumer := CIdle\<rparr>)" using CRead by (rule ring_step.cons)
  then show thesis using that [of "s\<lparr>th_ring := sr_consume (th_ring s), th_consumer := CIdle\<rparr>"] by auto
qed

lemma consumer_progress:
  assumes "threads_inv s" "th_consumer s = CIdle" "length (th_got s) < length (th_sent s)"
  obtains t where "ring_step\<^sup>*\<^sup>* s t" "th_consumer t = CIdle" "th_sent t = th_sent s" "length (th_got t) = Suc (length (th_got s))"
proof -
  note c = threads_invD(1) [OF assms(1) refl refl]
  have "retired s < length (th_sent s)" using assms(2,3) by (simp add: retired_def)
  from tryPeek_some [OF c this] obtain r where pk: "sr_tryPeek (th_ring s) = (Some (retired s mod sr_capacity (th_ring s)), r)" by blast
  let ?i = "retired s mod sr_capacity (th_ring s)"
  let ?s1 = "s\<lparr>th_ring := r, th_consumer := CPeeked ?i\<rparr>"
  let ?s2 = "?s1\<lparr>th_consumer := CRead, th_got := th_got ?s1 @ [sr_storage (th_ring ?s1) ! ?i]\<rparr>"
  let ?s3 = "?s2\<lparr>th_ring := sr_consume (th_ring ?s2), th_consumer := CIdle\<rparr>"
  have "ring_step s ?s1" by (rule ring_step.peek [OF assms(2) pk])
  moreover have "ring_step ?s1 ?s2" by (rule ring_step.rd) simp
  moreover have "ring_step ?s2 ?s3" by (rule ring_step.cons) simp
  ultimately have "ring_step\<^sup>*\<^sup>* s ?s3" by (meson r_into_rtranclp rtranclp_trans)
  then show thesis using that [of ?s3] by simp
qed

lemma consumer_drains:
  assumes "threads_inv s"
  shows "\<exists>t. ring_step\<^sup>*\<^sup>* s t \<and> th_sent t = th_sent s \<and> th_got t = th_sent s"
proof -
  have "\<exists>t. ring_step\<^sup>*\<^sup>* s t \<and> th_sent t = th_sent s \<and> th_got t = th_sent s" if "threads_inv s" "th_consumer s = CIdle" for s :: "'a ring_threads"
    using that
  proof (induction "length (th_sent s) - length (th_got s)" arbitrary: s)
    case 0
    then have "take (length (th_got s)) (th_sent s) = th_sent s" by simp
    with threads_safe(1) [OF 0(2)] have "th_got s = th_sent s" by simp
    then show ?case by blast
  next
    case (Suc n)
    from Suc.hyps(2) have lt: "length (th_got s) < length (th_sent s)" by simp
    obtain t where t: "ring_step\<^sup>*\<^sup>* s t" "th_consumer t = CIdle" "th_sent t = th_sent s" "length (th_got t) = Suc (length (th_got s))"
      by (rule consumer_progress [OF Suc.prems lt])
    have "n = length (th_sent t) - length (th_got t)" using t(3,4) Suc.hyps(2) by simp
    from Suc.hyps(1) [OF this ring_reach_inv [OF t(1) Suc.prems(1)] t(2)] t(1,3) show ?case by (metis rtranclp_trans)
  qed
  moreover obtain t where "ring_step\<^sup>*\<^sup>* s t" "th_consumer t = CIdle" "th_sent t = th_sent s"
    by (rule consumer_to_idle [OF assms])
  ultimately show ?thesis using ring_reach_inv [OF _ assms] by (metis rtranclp_trans)
qed

end
