(* ===== verification/Sequencing.thy ===== *)
theory Sequencing
  imports Journal_Crash Spsc_Ring
begin

text \<open>
  The sequencer (\<^verbatim>\<open>sequencer/sequencer.hpp\<close>) between the journal and the inbound ring: what is acknowledged, what the consumer
  takes from the ring and what a crash leaves in the journal.
\<close>

section \<open>sequencer/sequencer.hpp\<close>

datatype Outcome = Sequenced | RingFull | DurabilityFailure

record TrySubmitResult =
  ts_outcome :: Outcome
  ts_seq :: Seq

record Sequencer =
  sq_journal :: JournalWriter
  sq_ring :: "Command SpscRing"
  sq_seq :: Seq

definition trySubmit :: "env \<Rightarrow> byte list \<Rightarrow> Sequencer \<Rightarrow> CommandKind \<Rightarrow> Command \<Rightarrow> TrySubmitResult \<times> Sequencer" where
  "trySubmit io pad sq kind cmd =
     (case sr_tryClaim (sq_ring sq) of
        (None, r) \<Rightarrow> (\<lparr>ts_outcome = RingFull, ts_seq = 0\<rparr>, sq\<lparr>sq_ring := r\<rparr>)
      | (Some i, r) \<Rightarrow>
          (let mySeq = sq_seq sq + 1;
               (ok, jw) = jw_append io pad (sq_journal sq) mySeq kind cmd
           in if \<not> ok then (\<lparr>ts_outcome = DurabilityFailure, ts_seq = 0\<rparr>, sq\<lparr>sq_ring := r, sq_journal := jw\<rparr>)
              else (\<lparr>ts_outcome = Sequenced, ts_seq = mySeq\<rparr>,
                sq\<lparr>sq_ring := sr_publish (sr_write r i cmd), sq_journal := jw, sq_seq := mySeq\<rparr>)))"

text \<open>
  The blocking \<^verbatim>\<open>submit\<close> spins on a full ring. The consumer runs meanwhile: \<open>takes n\<close> is how many commands it takes after the
  \<open>n\<close>-th failed push. \<^const>\<open>None\<close> is a spin that never ends.
\<close>

fun sr_popn :: "nat \<Rightarrow> 'a SpscRing \<Rightarrow> 'a SpscRing" where
  "sr_popn 0 r = r"
| "sr_popn (Suc n) r = sr_popn n (snd (sr_pop r))"

partial_function (option) push_spin :: "(nat \<Rightarrow> nat) \<Rightarrow> nat \<Rightarrow> 'a SpscRing \<Rightarrow> 'a \<Rightarrow> 'a SpscRing option" where
  "push_spin takes n r v =
     (let (ok, r') = sr_push r v
      in if ok then Some r' else push_spin takes (Suc n) (sr_popn (takes n) r') v)"

definition submit_blocking :: "env \<Rightarrow> byte list \<Rightarrow> (nat \<Rightarrow> nat) \<Rightarrow> Sequencer \<Rightarrow> CommandKind \<Rightarrow> Command \<Rightarrow> (Seq \<times> Sequencer) option" where
  "submit_blocking io pad takes sq kind cmd =
     (let mySeq = sq_seq sq + 1;
          (ok, jw) = jw_append io pad (sq_journal sq) mySeq kind cmd
      in if \<not> ok then Some (0, sq\<lparr>sq_journal := jw\<rparr>)
         else
           (case push_spin takes 0 (sq_ring sq) cmd of
              None \<Rightarrow> None
            | Some r \<Rightarrow> Some (mySeq, sq\<lparr>sq_journal := jw, sq_seq := mySeq, sq_ring := r\<rparr>)))"

text \<open>
  A session with the sequencer: commands are submitted and the consumer takes commands from the ring. A durability failure ends it,
  since the caller must treat it as a hard stop.
\<close>

datatype seq_op = Submit "byte list" CommandKind Command | Take

fun session :: "env \<Rightarrow> Sequencer \<Rightarrow> seq_op list \<Rightarrow> (Seq \<times> CommandKind \<times> Command) list \<times> Command list \<times> Sequencer" where
  "session io sq [] = ([], [], sq)"
| "session io sq (Submit pad kind cmd # ops) =
     (let (res, sq1) = trySubmit io pad sq kind cmd
      in case ts_outcome res of
           DurabilityFailure \<Rightarrow> ([], [], sq1)
         | RingFull \<Rightarrow> session io sq1 ops
         | Sequenced \<Rightarrow> (let (acked, taken, sq2) = session io sq1 ops in ((ts_seq res, kind, cmd) # acked, taken, sq2)))"
| "session io sq (Take # ops) =
     (let (x, r) = sr_pop (sq_ring sq);
          (acked, taken, sq2) = session io (sq\<lparr>sq_ring := r\<rparr>) ops
      in (acked, (case x of None \<Rightarrow> taken | Some c \<Rightarrow> c # taken), sq2))"

definition op_ok :: "(CommandKind \<Rightarrow> Command \<Rightarrow> bool) \<Rightarrow> seq_op \<Rightarrow> bool" where
  "op_ok P op \<longleftrightarrow> (case op of Submit pad kind cmd \<Rightarrow> length pad = 5 \<and> cmd_fits cmd \<and> P kind cmd | Take \<Rightarrow> True)"

section \<open>What a session keeps\<close>

definition seq_inv :: "Sequencer \<Rightarrow> segment list \<Rightarrow> (segment \<times> nat \<times> nat) option \<Rightarrow> bool" where
  "seq_inv sq init cur \<longleftrightarrow> writer_inv (sq_journal sq) init cur \<and> sr_inv (sq_ring sq) \<and> 0 < jw_groupSize (sq_journal sq) \<and>
     sq_seq sq = int (length (written init cur))"

definition ack_entry :: "byte list \<Rightarrow> Seq \<times> CommandKind \<times> Command \<Rightarrow> entry" where
  "ack_entry pad = (\<lambda>(s, k, c). Entry pad s k c)"

lemma claim_push: "sr_tryClaim r = (Some i, r') \<Longrightarrow> sr_push r v = (True, sr_publish (sr_write r' i v))"
  "sr_tryClaim r = (None, r') \<Longrightarrow> sr_push r v = (False, r')"
  by (simp_all add: sr_push_def)

lemma trySubmit_full:
  assumes "seq_inv sq init cur" "trySubmit io pad sq kind cmd = (res, sq')" "ts_outcome res = RingFull"
  shows "seq_inv sq' init cur" "sr_contents (sq_ring sq') = sr_contents (sq_ring sq)" "length (sr_contents (sq_ring sq)) = sr_capacity (sq_ring sq)"
    "sq_journal sq' = sq_journal sq" "sq_seq sq' = sq_seq sq"
proof -
  obtain r where cl: "sr_tryClaim (sq_ring sq) = (None, r)" and sq': "sq' = sq\<lparr>sq_ring := r\<rparr>"
    using assms(2,3) by (auto simp: trySubmit_def Let_def split: option.splits prod.splits if_splits)
  have inv: "sr_inv (sq_ring sq)" using assms(1) by (simp add: seq_inv_def)
  from sr.push_cases [OF inv, of cmd] claim_push(2) [OF cl] have f: "sr_inv r" "sr_contents r = sr_contents (sq_ring sq)" "length (sr_contents (sq_ring sq)) = sr_capacity (sq_ring sq)" by auto
  then show "seq_inv sq' init cur" "sr_contents (sq_ring sq') = sr_contents (sq_ring sq)" "length (sr_contents (sq_ring sq)) = sr_capacity (sq_ring sq)"
    "sq_journal sq' = sq_journal sq" "sq_seq sq' = sq_seq sq"
    using assms(1) sq' by (simp_all add: seq_inv_def)
qed

lemma trySubmit_journaled:
  assumes inv: "seq_inv sq init cur" and n: "int (length (written init cur)) + 1 < 10 ^ 16" and fits: "length pad = 5" "cmd_fits cmd"
    and ts: "trySubmit io pad sq kind cmd = (res, sq')" and nf: "ts_outcome res \<noteq> RingFull"
  obtains init' cur' e where "grown (sq_journal sq) (sq_journal sq') init cur init' cur'" "e = Entry pad (sq_seq sq + 1) kind cmd"
    "written init' cur' \<in> {written init cur, written init cur @ [e]}"
    "ts_outcome res = Sequenced \<longrightarrow> seq_inv sq' init' cur' \<and> written init' cur' = written init cur @ [e] \<and> ts_seq res = sq_seq sq + 1 \<and>
       sr_contents (sq_ring sq') = sr_contents (sq_ring sq) @ [cmd]"
proof -
  obtain i r where cl: "sr_tryClaim (sq_ring sq) = (Some i, r)"
    using ts nf by (auto simp: trySubmit_def split: option.splits prod.splits)
  obtain ok jw where ap: "jw_append io pad (sq_journal sq) (sq_seq sq + 1) kind cmd = (ok, jw)" by force
  define e where "e = Entry pad (sq_seq sq + 1) kind cmd"
  have sq: "sq_seq sq = int (length (written init cur))" "writer_inv (sq_journal sq) init cur" "0 < jw_groupSize (sq_journal sq)" "sr_inv (sq_ring sq)"
    using inv by (simp_all add: seq_inv_def)
  have e: "entry_ok e" "en_seq e = int (length (written init cur)) + 1"
    using fits n sq(1) by (simp_all add: e_def entry_ok_def in_i64_def)
  have jw': "sq_journal sq' = jw" "ok \<longleftrightarrow> ts_outcome res = Sequenced"
    using ts cl ap by (auto simp: trySubmit_def Let_def split: if_splits)
  obtain init' cur' where g: "grown (sq_journal sq) jw init cur init' cur'" "written init' cur' \<in> {written init cur, written init cur @ [e]}"
    "ok \<longrightarrow> writer_inv jw init' cur' \<and> written init' cur' = written init cur @ [e]"
    by (rule append_state [OF sq(2) n sq(3) e, of io ok jw]) (use ap in \<open>simp_all add: e_def\<close>)
  have ring: "sr_inv (sr_publish (sr_write r i cmd)) \<and> sr_contents (sr_publish (sr_write r i cmd)) = sr_contents (sq_ring sq) @ [cmd]"
    using sr.push_cases [OF sq(4), of cmd] claim_push(1) [OF cl, of cmd] by auto
  have "ok \<longrightarrow> seq_inv sq' init' cur' \<and> ts_seq res = sq_seq sq + 1 \<and> sr_contents (sq_ring sq') = sr_contents (sq_ring sq) @ [cmd]"
    using ts cl ap ring g sq by (auto simp: trySubmit_def Let_def seq_inv_def grown_def same_settings_def)
  then show thesis using that [of init' cur' e] g jw' e_def by blast
qed

text \<open>How many acknowledged records the fsync policy may leave unsynced.\<close>

definition unsynced_bound :: "JournalWriter \<Rightarrow> nat" where
  "unsynced_bound jw = (if jw_policy jw = PerRecord then 0 else jw_groupSize jw - 1)"

definition entry_key :: "entry \<Rightarrow> Seq \<times> CommandKind \<times> Command" where
  "entry_key e = (en_seq e, en_kind e, en_cmd e)"

lemma unsynced_bound_settings: "same_settings a b \<Longrightarrow> unsynced_bound a = unsynced_bound b"
  by (simp add: unsynced_bound_def same_settings_def)

lemma seq_durable:
  assumes "seq_inv sq init cur"
  shows "length (written init cur) \<le> durable init cur + unsynced_bound (sq_journal sq)"
proof -
  have w: "writer_inv (sq_journal sq) init cur" using assms by (simp add: seq_inv_def)
  have "jw_pendingUnsynced (sq_journal sq) \<le> unsynced_bound (sq_journal sq)" using writer_state(4) [OF w] by (auto simp: unsynced_bound_def split: if_splits)
  then show ?thesis using writer_durable [OF w] by linarith
qed

definition session_end :: "(CommandKind \<Rightarrow> Command \<Rightarrow> bool) \<Rightarrow> Sequencer \<Rightarrow> segment list \<Rightarrow> (segment \<times> nat \<times> nat) option \<Rightarrow>
    (Seq \<times> CommandKind \<times> Command) list \<Rightarrow> Command list \<Rightarrow> Sequencer \<Rightarrow> bool" where
  "session_end P sq init cur acked taken sq' \<longleftrightarrow>
     (\<exists>init' cur' es extra. journal_state (w_dir (jw_world (sq_journal sq'))) init' cur' \<and>
        written init' cur' = written init cur @ es @ extra \<and> map entry_key es = acked \<and> length extra \<le> 1 \<and>
        (\<forall>e \<in> set (es @ extra). P (en_kind e) (en_cmd e)) \<and>
        length (written init cur) + length acked \<le> durable init' cur' + unsynced_bound (sq_journal sq)) \<and>
     sr_contents (sq_ring sq) @ map (\<lambda>(s, k, c). c) acked = taken @ sr_contents (sq_ring sq') \<and> map fst acked = map (\<lambda>i. sq_seq sq + 1 + int i) [0..<length acked]"

lemma session_stop:
  assumes inv: "seq_inv sq init cur" and n: "int (length (written init cur)) + 1 < 10 ^ 16" and fits: "length pad = 5" "cmd_fits cmd" "P kind cmd"
    and ts: "trySubmit io pad sq kind cmd = (res, sq')" and f: "ts_outcome res = DurabilityFailure"
  shows "session_end P sq init cur [] [] sq'"
proof -
  obtain init' cur' e where g: "grown (sq_journal sq) (sq_journal sq') init cur init' cur'" "e = Entry pad (sq_seq sq + 1) kind cmd"
    "written init' cur' \<in> {written init cur, written init cur @ [e]}"
    by (rule trySubmit_journaled [OF inv n fits(1,2) ts]) (use f in auto)
  obtain extra where x: "written init' cur' = written init cur @ [] @ extra" "length extra \<le> 1" "set extra \<subseteq> {e}"
    using g(3) that [of "[]"] that [of "[e]"] by auto
  have px: "\<forall>x \<in> set ([] @ extra). P (en_kind x) (en_cmd x)" using x(3) g(2) fits(3) by auto
  have "sr_contents (sq_ring sq') = sr_contents (sq_ring sq)"
  proof -
    obtain i r where cl: "sr_tryClaim (sq_ring sq) = (Some i, r)" "sq_ring sq' = r"
      using ts f by (auto simp: trySubmit_def Let_def split: option.splits prod.splits if_splits)
    obtain p q where c: "counters (sq_ring sq) p q False False" using inv by (auto simp: seq_inv_def sr_inv_def)
    have "p < q + sr_capacity (sq_ring sq)" using tryClaim_full [OF c] cl(1) counters_bounds(2) [OF c] by fastforce
    then obtain r' where r': "sr_tryClaim (sq_ring sq) = (Some (p mod sr_capacity (sq_ring sq)), r')" "counters r' p q True False"
        "sr_storage r' = sr_storage (sq_ring sq)"
      by (rule tryClaim_room [OF c])
    then have "r = r'" using cl(1) by simp
    then show ?thesis using contents_window [OF r'(2)] contents_window [OF c] r'(3) cl(2) by (simp add: window_def sr_capacity_def)
  qed
  moreover have "length (written init cur) \<le> durable init' cur' + unsynced_bound (sq_journal sq)"
    using seq_durable [OF inv] g(1) by (simp add: grown_def)
  moreover have "journal_state (w_dir (jw_world (sq_journal sq'))) init' cur'" using g(1) by (simp add: grown_def)
  ultimately show ?thesis using x(1,2) px unfolding session_end_def
    by (intro conjI exI [of _ init'] exI [of _ cur'] exI [of _ "[]"] exI [of _ extra]) simp_all
qed

lemma session_step:
  assumes inv: "seq_inv sq init cur" and g: "grown (sq_journal sq) (sq_journal sq1) init cur init1 cur1" "written init1 cur1 = written init cur @ [e]"
    "sr_contents (sq_ring sq1) = sr_contents (sq_ring sq) @ [c]" "sq_seq sq1 = sq_seq sq + 1" "entry_key e = (sq_seq sq + 1, k, c)" and pe: "P k c"
    and se: "session_end P sq1 init1 cur1 acked taken sq2"
  shows "session_end P sq init cur ((sq_seq sq + 1, k, c) # acked) taken sq2"
proof -
  obtain init' cur' es extra where x: "journal_state (w_dir (jw_world (sq_journal sq2))) init' cur'"
    "written init' cur' = written init1 cur1 @ es @ extra" "map entry_key es = acked" "length extra \<le> 1" "\<forall>x \<in> set (es @ extra). P (en_kind x) (en_cmd x)"
    "length (written init1 cur1) + length acked \<le> durable init' cur' + unsynced_bound (sq_journal sq1)"
    using se by (auto simp: session_end_def)
  have u: "unsynced_bound (sq_journal sq1) = unsynced_bound (sq_journal sq)" using g(1) unsynced_bound_settings by (simp add: grown_def)
  have "map fst ((sq_seq sq + 1, k, c) # acked) = map (\<lambda>i. sq_seq sq + 1 + int i) [0..<Suc (length acked)]"
    using se g(4) by (simp add: session_end_def upt_conv_Cons map_Suc_upt [symmetric] o_def add.assoc del: upt_Suc)
  moreover have "\<forall>x \<in> set ((e # es) @ extra). P (en_kind x) (en_cmd x)" using x(5) g(5) pe by (simp add: entry_key_def)
  ultimately show ?thesis using x g se u unfolding session_end_def
    by (intro conjI exI [of _ init'] exI [of _ cur'] exI [of _ "e # es"] exI [of _ extra]) simp_all
qed

lemma session_take:
  assumes inv: "seq_inv sq init cur" and pop: "sr_pop (sq_ring sq) = (x, r)" and se: "session_end P (sq\<lparr>sq_ring := r\<rparr>) init cur acked taken sq2"
  shows "session_end P sq init cur acked (case x of None \<Rightarrow> taken | Some c \<Rightarrow> c # taken) sq2" "seq_inv (sq\<lparr>sq_ring := r\<rparr>) init cur"
proof -
  have i: "sr_inv (sq_ring sq)" using inv by (simp add: seq_inv_def)
  have "sr_inv r \<and> sr_contents (sq_ring sq) = (case x of None \<Rightarrow> sr_contents r | Some c \<Rightarrow> c # sr_contents r)"
    using i by (cases rule: sr.pop_cases) (use pop in auto)
  then show "session_end P sq init cur acked (case x of None \<Rightarrow> taken | Some c \<Rightarrow> c # taken) sq2" "seq_inv (sq\<lparr>sq_ring := r\<rparr>) init cur"
    using se inv by (auto simp: session_end_def seq_inv_def split: option.splits)
qed

lemma session_inv:
  assumes "seq_inv sq init cur" "list_all (op_ok P) ops" "length (written init cur) + length ops < 10 ^ 16" "session io sq ops = (acked, taken, sq')"
  shows "session_end P sq init cur acked taken sq'"
  using assms
proof (induction ops arbitrary: sq init cur acked taken sq')
  case Nil
  then show ?case using seq_durable [OF Nil(1)] unfolding session_end_def seq_inv_def
    by (intro conjI exI [of _ init] exI [of _ cur] exI [of _ "[]"]) (simp_all add: writer_inv_def)
next
  case (Cons op ops)
  show ?case
  proof (cases op)
    case Take
    obtain x r where pop: "sr_pop (sq_ring sq) = (x, r)" by force
    obtain a t s where rest: "session io (sq\<lparr>sq_ring := r\<rparr>) ops = (a, t, s)" by (metis prod_cases3)
    have i1: "seq_inv (sq\<lparr>sq_ring := r\<rparr>) init cur"
      using Cons.prems(1) sr.pop_cases [of "sq_ring sq"] pop by (auto simp: seq_inv_def)
    have "session_end P (sq\<lparr>sq_ring := r\<rparr>) init cur a t s" by (rule Cons.IH [OF i1 _ _ rest]) (use Cons.prems in simp_all)
    from session_take(1) [OF Cons.prems(1) pop this] Cons.prems(4) show ?thesis by (simp add: Take pop rest)
  next
    case (Submit pad kind cmd)
    have fits: "length pad = 5" "cmd_fits cmd" "P kind cmd" using Cons.prems(2) Submit by (simp_all add: op_ok_def)
    have n: "int (length (written init cur)) + 1 < 10 ^ 16" using Cons.prems(3) by simp
    obtain res sq1 where ts: "trySubmit io pad sq kind cmd = (res, sq1)" by force
    obtain a t s where rest: "session io sq1 ops = (a, t, s)" by (metis prod_cases3)
    show ?thesis
    proof (cases "ts_outcome res")
      case DurabilityFailure
      then show ?thesis using session_stop [where P = P, OF Cons.prems(1) n fits ts] Cons.prems(4) Submit ts by simp
    next
      case RingFull
      note f = trySubmit_full [OF Cons.prems(1) ts RingFull]
      have "session_end P sq1 init cur a t s" by (rule Cons.IH [OF f(1) _ _ rest]) (use Cons.prems in simp_all)
      then show ?thesis using Cons.prems(4) f by (simp add: Submit ts RingFull rest session_end_def)
    next
      case Sequenced
      obtain init1 cur1 e where g: "grown (sq_journal sq) (sq_journal sq1) init cur init1 cur1" "e = Entry pad (sq_seq sq + 1) kind cmd"
        "seq_inv sq1 init1 cur1" "written init1 cur1 = written init cur @ [e]" "ts_seq res = sq_seq sq + 1"
        "sr_contents (sq_ring sq1) = sr_contents (sq_ring sq) @ [cmd]"
        by (rule trySubmit_journaled [OF Cons.prems(1) n fits(1,2) ts]) (use Sequenced in auto)
      have sq: "sq_seq sq1 = sq_seq sq + 1" using g(3,4) Cons.prems(1) by (simp add: seq_inv_def)
      have "session_end P sq1 init1 cur1 a t s" by (rule Cons.IH [OF g(3) _ _ rest]) (use Cons.prems g(4) in simp_all)
      from session_step [OF Cons.prems(1) g(1,4,6) sq _ fits(3) this] show ?thesis
        using Cons.prems(4) g(2,5) by (simp add: Submit ts Sequenced rest entry_key_def)
    qed
  qed
qed

definition newSequencer :: "JournalWriter \<Rightarrow> Command SpscRing \<Rightarrow> Seq \<Rightarrow> Sequencer" where
  "newSequencer jw r startSeq = \<lparr>sq_journal = jw, sq_ring = r, sq_seq = startSeq\<rparr>"

lemma new_seq_inv:
  assumes "w_dir w = []" "ring_size c"
  shows "seq_inv (newSequencer (newJournalWriter w rollBytes policy groupSize) (newSpscRing d c) 0) [] None"
proof -
  have "sr_inv (newSpscRing d c)" using counters_new [OF assms(2), of d] unfolding sr_inv_def by blast
  then show ?thesis using new_writer_inv [OF assms(1)] by (simp add: seq_inv_def newSequencer_def) (simp add: newJournalWriter_def)
qed

definition read_back :: "Seq \<times> CommandKind \<times> Command \<Rightarrow> Seq \<times> byte \<times> Command option" where
  "read_back = (\<lambda>(s, k, c). (s, kind_code k, Some c))"

lemma entry_rec_key: "entry_rec e = read_back (entry_key e)"
  by (simp add: entry_rec_def read_back_def entry_key_def)

lemma consec_seqs: "consec s es \<Longrightarrow> map en_seq es = map (\<lambda>i. s + 1 + int i) [0..<length es]"
proof (induction es arbitrary: s)
  case (Cons e es)
  from Cons.prems have "map en_seq es = map (\<lambda>i. s + 1 + 1 + int i) [0..<length es]" by (intro Cons.IH) simp
  moreover have "map (\<lambda>i. s + 1 + int i) [0..<Suc (length es)] = (s + 1) # map (\<lambda>i. s + 1 + 1 + int i) [0..<length es]"
    by (simp add: map_upt_Suc algebra_simps del: upt_Suc)
  ultimately show ?case using Cons.prems by (simp del: upt_Suc)
qed simp

lemma session_crash:
  assumes inv: "seq_inv sq [] None" and ops: "list_all (op_ok P) ops" "length ops < 10 ^ 16" and ss: "session io sq ops = (acked, taken, sq')"
    and crash: "crash_dir (w_dir (jw_world (sq_journal sq'))) d"
  shows "\<exists>extra n f r. drains d (newJournalReader d) (map read_back (take n (acked @ extra))) f r \<and> clean f \<and> length extra \<le> 1 \<and>
    (\<forall>(s, k, c) \<in> set (acked @ extra). P k c) \<and> map fst (acked @ extra) = map (\<lambda>i. 1 + int i) [0..<length (acked @ extra)] \<and>
    length acked \<le> n + unsynced_bound (sq_journal sq) \<and> sr_contents (sq_ring sq) @ map (\<lambda>(s, k, c). c) acked = taken @ sr_contents (sq_ring sq')"
proof -
  have "session_end P sq [] None acked taken sq'" by (rule session_inv [OF inv ops(1) _ ss]) (use ops(2) in simp)
  then obtain init' cur' es extra where x: "journal_state (w_dir (jw_world (sq_journal sq'))) init' cur'"
    "written init' cur' = es @ extra" "map entry_key es = acked" "length extra \<le> 1" "\<forall>x \<in> set (es @ extra). P (en_kind x) (en_cmd x)"
    "length acked \<le> durable init' cur' + unsynced_bound (sq_journal sq)"
    "sr_contents (sq_ring sq) @ map (\<lambda>(s, k, c). c) acked = taken @ sr_contents (sq_ring sq')"
    by (auto simp: session_end_def)
  obtain n f r where r: "drains d (newJournalReader d) (map entry_rec (take n (es @ extra))) f r" "clean f" "durable init' cur' \<le> n"
    using crash_reads [OF x(1) crash] unfolding x(2) by blast
  have "map entry_rec (take n (es @ extra)) = map read_back (take n (acked @ map entry_key extra))"
    unfolding x(3) [symmetric] map_append [symmetric] take_map map_map o_def entry_rec_key ..
  moreover have "\<forall>(s, k, c) \<in> set (acked @ map entry_key extra). P k c" using x(3,5) by (auto simp: entry_key_def)
  moreover have "map fst (acked @ map entry_key extra) = map (\<lambda>i. 1 + int i) [0..<length (acked @ map entry_key extra)]"
    using consec_seqs [of 0 "es @ extra"] x(1-3) by (auto simp: journal_state_def entry_key_def o_def)
  ultimately show ?thesis using r x by (intro exI [of _ "map entry_key extra"] exI [of _ n] exI [of _ f] exI [of _ r]) simp
qed

section \<open>The blocking path\<close>

text \<open>The spin ends as soon as the consumer takes something.\<close>

lemma popn_inv:
  assumes "sr_inv r"
  shows "sr_inv (sr_popn n r) \<and> sr_capacity (sr_popn n r) = sr_capacity r \<and> sr_contents (sr_popn n r) = drop n (sr_contents r)"
  using assms
proof (induction n arbitrary: r)
  case (Suc n)
  from Suc.prems show ?case
  proof (cases rule: sr.pop_cases)
    case (1 v r')
    then show ?thesis using Suc.IH [of r'] by simp
  next
    case (2 r')
    then show ?thesis using Suc.IH [of r'] by simp
  qed
qed simp

lemma push_spin_returns:
  assumes "sr_inv r" "0 < sr_capacity r" "0 < takes (n + k)"
  shows "\<exists>r' j. push_spin takes n r v = Some r' \<and> sr_inv r' \<and> sr_contents r' = drop j (sr_contents r) @ [v]"
  using assms
proof (induction k arbitrary: n r)
  case 0
  from 0(1) show ?case
  proof (cases rule: sr.push_cases [where v = v])
    case (1 r')
    then show ?thesis by (subst push_spin.simps) (auto intro: exI [of _ 0])
  next
    case (2 r')
    let ?r = "sr_popn (takes n) r'"
    have p: "sr_inv ?r" "sr_capacity ?r = sr_capacity r" "sr_contents ?r = drop (takes n) (sr_contents r)" using popn_inv [OF 2(3), of "takes n"] 2 by simp_all
    have "length (sr_contents ?r) < sr_capacity ?r" using p 2 0(2,3) by simp
    from sr.push_room [OF p(1) this, of v] obtain r2 where "sr_push ?r v = (True, r2)" "sr_inv r2" "sr_contents r2 = sr_contents ?r @ [v]" by blast
    then have "push_spin takes (Suc n) ?r v = Some r2" "sr_contents r2 = drop (takes n) (sr_contents r) @ [v]" "sr_inv r2"
      using p(3) by (simp_all add: push_spin.simps [of takes "Suc n" ?r v])
    then show ?thesis using 2(2) by (subst push_spin.simps) auto
  qed
next
  case (Suc k)
  from Suc.prems(1) show ?case
  proof (cases rule: sr.push_cases [where v = v])
    case (1 r')
    then show ?thesis by (subst push_spin.simps) (auto intro: exI [of _ 0])
  next
    case (2 r')
    let ?r = "sr_popn (takes n) r'"
    have p: "sr_inv ?r" "sr_capacity ?r = sr_capacity r" "sr_contents ?r = drop (takes n) (sr_contents r)" using popn_inv [OF 2(3), of "takes n"] 2 by simp_all
    obtain r2 j where r2: "push_spin takes (Suc n) ?r v = Some r2" "sr_inv r2" "sr_contents r2 = drop j (sr_contents ?r) @ [v]"
      using Suc.IH [of ?r "Suc n"] Suc.prems(2,3) p by auto
    then have "push_spin takes n r v = Some r2" using 2(2) by (subst push_spin.simps) simp
    moreover have "sr_contents r2 = drop (j + takes n) (sr_contents r) @ [v]" using r2(3) p(3) by simp
    ultimately show ?thesis using r2(2) by blast
  qed
qed

end
