(* ===== verification/Gateway.thy ===== *)
theory Gateway
  imports Sequencing Frame_Decoder
begin

text \<open>
  The order-entry gateway (\<^verbatim>\<open>gateway/auth.hpp\<close>, \<^verbatim>\<open>gateway/session.hpp\<close>, \<^verbatim>\<open>gateway/session.cpp\<close>, \<^verbatim>\<open>gateway/gateway.hpp\<close>): client sessions,
  their handlers, the routes back to the clients, and the step relation \<open>gw_step\<close> of everything that can happen next.
\<close>

section \<open>gateway/auth.hpp\<close>

type_synonym Token = "byte list"

definition addCredential :: "(ParticipantId \<rightharpoonup> Token) \<Rightarrow> ParticipantId \<Rightarrow> Token \<Rightarrow> (ParticipantId \<rightharpoonup> Token)" where
  "addCredential creds i token = creds(i \<mapsto> token)"

definition authenticate :: "(ParticipantId \<rightharpoonup> Token) \<Rightarrow> ParticipantId \<Rightarrow> Token \<Rightarrow> bool" where
  "authenticate creds i token =
     (let found = creds i \<noteq> None;
          expected = (case creds i of Some t \<Rightarrow> t | None \<Rightarrow> replicate 32 0);
          diff = foldl (\<lambda>d k. or d (xor (expected ! k) (token ! k))) 0 [0..<32]
      in found \<and> diff = 0)"

section \<open>gateway/session.hpp\<close>

datatype SessionState = AwaitingLogin | Authenticated | Closing

text \<open>
  \<open>cs_reading\<close> says that an asynchronous read is outstanding, \<open>cs_authTimer\<close> and \<open>cs_heartbeatTimer\<close> that the timers are
  armed, and \<open>cs_wire\<close> is what has been written to the socket; the other components are the members of the class.
\<close>

record ClientSession =
  cs_decoder :: FrameDecoder
  cs_writing :: bool
  cs_pendingWrites :: "byte list list"
  cs_state :: SessionState
  cs_participantId :: ParticipantId
  cs_lastClientSeq :: "64 word"
  cs_readSuspended :: bool
  cs_closed :: bool
  cs_hasPending :: bool
  cs_pendingKind :: CommandKind
  cs_pendingCmd :: Command
  cs_pendingShardIdx :: int
  cs_missedHeartbeats :: int
  cs_reading :: bool
  cs_authTimer :: bool
  cs_heartbeatTimer :: bool
  cs_wire :: "byte list list"

definition kReadChunk :: nat where "kReadChunk = 128"
definition kMaxMissedHeartbeats :: int where "kMaxMissedHeartbeats = 3"

definition zeroCommand :: Command where
  "zeroCommand = \<lparr>c_id = 0, c_newId = 0, c_price = 0, c_quantity = 0, c_participant = 0, c_kind = New, c_side = Buy, c_type = Limit\<rparr>"

definition newClientSession :: "InstrumentSet \<Rightarrow> Price \<Rightarrow> Price \<Rightarrow> ClientSession" where
  "newClientSession instruments minPrice maxPrice =
     \<lparr>cs_decoder = newFrameDecoder instruments minPrice maxPrice, cs_writing = False, cs_pendingWrites = [], cs_state = AwaitingLogin,
      cs_participantId = 0, cs_lastClientSeq = 0, cs_readSuspended = False, cs_closed = False, cs_hasPending = False,
      cs_pendingKind = New, cs_pendingCmd = zeroCommand, cs_pendingShardIdx = -1, cs_missedHeartbeats = 0,
      cs_reading = False, cs_authTimer = False, cs_heartbeatTimer = False, cs_wire = []\<rparr>"

section \<open>gateway/gateway.hpp: the state\<close>

record RouteEntry =
  rt_session :: nat
  rt_clientSeqNum :: "64 word"

record ShardCtx =
  sx_instrumentId :: InstrumentId
  sx_sequencer :: Sequencer
  sx_routes :: "OrderId \<rightharpoonup> RouteEntry"
  sx_droppedRoutes :: nat

text \<open>What the router threads post to the thread of the sessions.\<close>

datatype posted = PostFrame nat "byte list" | PostRetry

text \<open>
  Sessions are named by their position in \<open>gw_sessions\<close>. \<open>gw_log\<close> is not a member of the class: it records every command that
  was sequenced, with the session, the client's sequence number, the shard and the number the sequencer gave it.
\<close>

record GatewayServer =
  gw_auth :: "ParticipantId \<rightharpoonup> Token"
  gw_shardCtxs :: "ShardCtx list"
  gw_instruments :: InstrumentSet
  gw_minPrice :: Price
  gw_maxPrice :: Price
  gw_sessions :: "ClientSession list"
  gw_posted :: "posted list"
  gw_log :: "(nat \<times> 64 word \<times> nat \<times> Command \<times> Seq) list"

text \<open>\<^verbatim>\<open>ShardSet::indexOf\<close> and \<^verbatim>\<open>ShardSet::instrumentSet\<close>\<close>

fun indexOf :: "ShardCtx list \<Rightarrow> InstrumentId \<Rightarrow> int \<Rightarrow> int" where
  "indexOf [] i k = -1"
| "indexOf (s # ss) i k = (if sx_instrumentId s = i then k else indexOf ss i (k + 1))"

definition instrumentSet :: "ShardCtx list \<Rightarrow> InstrumentSet" where
  "instrumentSet ss = foldl (\<lambda>s x. is_add s (sx_instrumentId x)) [] ss"

definition newGatewayServer :: "ShardCtx list \<Rightarrow> (ParticipantId \<rightharpoonup> Token) \<Rightarrow> Price \<Rightarrow> Price \<Rightarrow> GatewayServer" where
  "newGatewayServer shards auth minPrice maxPrice =
     \<lparr>gw_auth = auth, gw_shardCtxs = shards, gw_instruments = instrumentSet shards, gw_minPrice = minPrice, gw_maxPrice = maxPrice,
      gw_sessions = [], gw_posted = [], gw_log = []\<rparr>"

definition newShardCtx :: "InstrumentId \<Rightarrow> Sequencer \<Rightarrow> ShardCtx" where
  "newShardCtx i sq = \<lparr>sx_instrumentId = i, sx_sequencer = sq, sx_routes = Map.empty, sx_droppedRoutes = 0\<rparr>"

definition shardIndexFor :: "GatewayServer \<Rightarrow> InstrumentId \<Rightarrow> int" where
  "shardIndexFor gw i = indexOf (gw_shardCtxs gw) i 0"

definition loginAckSeq :: "GatewayServer \<Rightarrow> Seq" where
  "loginAckSeq gw = (case gw_shardCtxs gw of [] \<Rightarrow> 0 | s # _ \<Rightarrow> sq_seq (sx_sequencer s))"

definition registerRoute :: "GatewayServer \<Rightarrow> nat \<Rightarrow> OrderId \<Rightarrow> nat \<Rightarrow> 64 word \<Rightarrow> GatewayServer" where
  "registerRoute gw k i sid clientSeqNum =
     (let ctx = gw_shardCtxs gw ! k
      in gw\<lparr>gw_shardCtxs := (gw_shardCtxs gw)[k := ctx\<lparr>sx_routes := (sx_routes ctx)(i \<mapsto> \<lparr>rt_session = sid, rt_clientSeqNum = clientSeqNum\<rparr>)\<rparr>]\<rparr>)"

definition eraseRoute :: "GatewayServer \<Rightarrow> nat \<Rightarrow> OrderId \<Rightarrow> GatewayServer" where
  "eraseRoute gw k i =
     (let ctx = gw_shardCtxs gw ! k
      in gw\<lparr>gw_shardCtxs := (gw_shardCtxs gw)[k := ctx\<lparr>sx_routes := (sx_routes ctx)(i := None)\<rparr>]\<rparr>)"

section \<open>gateway/session.cpp\<close>

definition closeSession :: "ClientSession \<Rightarrow> ClientSession" where
  "closeSession cs =
     (if cs_closed cs then cs
      else cs\<lparr>cs_closed := True, cs_state := Closing, cs_authTimer := False, cs_heartbeatTimer := False\<rparr>)"

definition doWrite :: "ClientSession \<Rightarrow> ClientSession" where
  "doWrite cs = (if cs_pendingWrites cs = [] then cs\<lparr>cs_writing := False\<rparr> else cs\<lparr>cs_writing := True\<rparr>)"

text \<open>The completion of an asynchronous write of the front of the queue.\<close>

definition onWritten :: "ClientSession \<Rightarrow> bool \<Rightarrow> ClientSession" where
  "onWritten cs failed =
     (if failed then closeSession cs
      else doWrite (cs\<lparr>cs_wire := cs_wire cs @ [hd (cs_pendingWrites cs)], cs_pendingWrites := tl (cs_pendingWrites cs)\<rparr>))"

definition sendFrame :: "ClientSession \<Rightarrow> byte list \<Rightarrow> ClientSession" where
  "sendFrame cs data =
     (if cs_closed cs then cs
      else
        (let cs1 = cs\<lparr>cs_pendingWrites := cs_pendingWrites cs @ [data]\<rparr>
         in if \<not> cs_writing cs1 then doWrite cs1 else cs1))"

definition doRead :: "ClientSession \<Rightarrow> ClientSession" where
  "doRead cs = (if cs_closed cs \<or> cs_readSuspended cs then cs else cs\<lparr>cs_reading := True\<rparr>)"

definition stopReading :: "ClientSession \<Rightarrow> ClientSession" where
  "stopReading cs = cs\<lparr>cs_readSuspended := True\<rparr>"

definition resumeReading :: "ClientSession \<Rightarrow> ClientSession" where
  "resumeReading cs = (if \<not> cs_readSuspended cs \<or> cs_closed cs then cs else doRead (cs\<lparr>cs_readSuspended := False\<rparr>))"

definition armAuthTimeout :: "ClientSession \<Rightarrow> ClientSession" where
  "armAuthTimeout cs = cs\<lparr>cs_authTimer := True\<rparr>"

definition armHeartbeatTimer :: "ClientSession \<Rightarrow> ClientSession" where
  "armHeartbeatTimer cs = cs\<lparr>cs_heartbeatTimer := True\<rparr>"

definition session_start :: "ClientSession \<Rightarrow> ClientSession" where
  "session_start cs = doRead (armHeartbeatTimer (armAuthTimeout cs))"

text \<open>The handlers of the two timers.\<close>

definition onAuthTimeout :: "ClientSession \<Rightarrow> ClientSession" where
  "onAuthTimeout cs = (if cs_state cs \<noteq> AwaitingLogin then cs else closeSession cs)"

definition onHeartbeatTimer :: "ClientSession \<Rightarrow> ClientSession" where
  "onHeartbeatTimer cs =
     (if cs_state cs = Closing then cs
      else
        (let cs1 = cs\<lparr>cs_missedHeartbeats := cs_missedHeartbeats cs + 1\<rparr>
         in if cs_missedHeartbeats cs1 \<ge> kMaxMissedHeartbeats then closeSession cs1
            else armHeartbeatTimer (sendFrame cs1 (encodeHeartbeat \<lparr>hb_marker = 0\<rparr>))))"

definition sendReject :: "ClientSession \<Rightarrow> OrderId \<Rightarrow> RejectReason \<Rightarrow> Seq \<Rightarrow> ClientSession" where
  "sendReject cs i reason globalSeq = sendFrame cs (encodeReject \<lparr>rj_orderId = i, rj_reason = reason_code reason, rj_globalSeq = globalSeq\<rparr>)"

definition sendLoginReject :: "ClientSession \<Rightarrow> RejectReason \<Rightarrow> ClientSession" where
  "sendLoginReject cs reason = sendFrame cs (encodeLoginReject \<lparr>lr_reason = reason_code reason, lr_reserved = 0\<rparr>)"

definition sendNewAckIfApplicable :: "ClientSession \<Rightarrow> Command \<Rightarrow> Seq \<Rightarrow> ClientSession" where
  "sendNewAckIfApplicable cs cmd sq =
     (if c_kind cmd \<noteq> New then cs
      else sendFrame cs (encodeExecReport \<lparr>er_orderId = c_id cmd, er_execType = exec_code NewAck, er_execQty = 0,
             er_leavesQty = c_quantity cmd, er_tradePrice = 0, er_tradeId = 0, er_globalSeq = sq\<rparr>))"

definition handleHeartbeat :: "ClientSession \<Rightarrow> ClientSession" where
  "handleHeartbeat cs = cs\<lparr>cs_missedHeartbeats := 0\<rparr>"

definition handleLogin :: "GatewayServer \<Rightarrow> ClientSession \<Rightarrow> LoginMsg \<Rightarrow> ClientSession" where
  "handleLogin gw cs m =
     (if \<not> authenticate (gw_auth gw) (lg_participantId m) (lg_token m)
      then closeSession (sendLoginReject cs AuthFailed)
      else
        (let cs1 = cs\<lparr>cs_participantId := lg_participantId m, cs_lastClientSeq := lg_clientSeqNum m, cs_state := Authenticated,
               cs_authTimer := False\<rparr>
         in sendFrame cs1 (encodeLoginAck \<lparr>la_serverSeq = loginAckSeq gw, la_status = 0\<rparr>)))"

definition checkClientSeq :: "ClientSession \<Rightarrow> 64 word \<Rightarrow> OrderId \<Rightarrow> bool \<times> ClientSession" where
  "checkClientSeq cs n orderIdForReject =
     (if n \<le> cs_lastClientSeq cs then (False, sendReject cs orderIdForReject DuplicateSeq 0)
      else if n > cs_lastClientSeq cs + 1 then (False, closeSession (sendReject cs orderIdForReject SequenceGap 0))
      else (True, cs\<lparr>cs_lastClientSeq := n\<rparr>))"

definition routedId :: "Command \<Rightarrow> OrderId" where
  "routedId cmd = (if c_kind cmd = Replace then c_newId cmd else c_id cmd)"

text \<open>
  \<^verbatim>\<open>shardSequencer(k).trySubmit\<close>. Every shard has its own disk (\<open>io k\<close>), and \<open>pads k s\<close> are the padding bytes of the
  image of the command that is given the number \<open>s\<close>.
\<close>

definition shardSubmit :: "(nat \<Rightarrow> env) \<Rightarrow> (nat \<Rightarrow> Seq \<Rightarrow> byte list) \<Rightarrow> GatewayServer \<Rightarrow> nat \<Rightarrow> CommandKind \<Rightarrow> Command \<Rightarrow> TrySubmitResult \<times> GatewayServer" where
  "shardSubmit io pads gw k kind cmd =
     (let ctx = gw_shardCtxs gw ! k;
          (r, sq) = trySubmit (io k) (pads k (sq_seq (sx_sequencer ctx) + 1)) (sx_sequencer ctx) kind cmd
      in (r, gw\<lparr>gw_shardCtxs := (gw_shardCtxs gw)[k := ctx\<lparr>sx_sequencer := sq\<rparr>]\<rparr>))"

definition logSequenced :: "GatewayServer \<Rightarrow> nat \<Rightarrow> ClientSession \<Rightarrow> nat \<Rightarrow> Command \<Rightarrow> Seq \<Rightarrow> GatewayServer" where
  "logSequenced gw sid cs k cmd sq = gw\<lparr>gw_log := gw_log gw @ [(sid, cs_lastClientSeq cs, k, cmd, sq)]\<rparr>"

definition submitOrPend ::
  "(nat \<Rightarrow> env) \<Rightarrow> (nat \<Rightarrow> Seq \<Rightarrow> byte list) \<Rightarrow> GatewayServer \<Rightarrow> nat \<Rightarrow> ClientSession \<Rightarrow> Command \<Rightarrow> int \<Rightarrow> GatewayServer \<times> ClientSession" where
  "submitOrPend io pads gw sid cs cmd shardIdx =
     (let k = nat shardIdx;
          gw1 = registerRoute gw k (routedId cmd) sid (cs_lastClientSeq cs);
          (r, gw2) = shardSubmit io pads gw1 k (c_kind cmd) cmd
      in case ts_outcome r of
           Sequenced \<Rightarrow> (logSequenced gw2 sid cs k cmd (ts_seq r), sendNewAckIfApplicable cs cmd (ts_seq r))
         | RingFull \<Rightarrow>
             (gw2, stopReading (cs\<lparr>cs_hasPending := True, cs_pendingKind := c_kind cmd, cs_pendingCmd := cmd, cs_pendingShardIdx := shardIdx\<rparr>))
         | DurabilityFailure \<Rightarrow> (eraseRoute gw2 k (routedId cmd), closeSession (sendReject cs (routedId cmd) EngineReject 0)))"

definition wireType :: "NewOrderMsg \<Rightarrow> OrderType" where
  "wireType m =
     (if no_orderType m = WMarket then Market
      else if no_timeInForce m = WIoc then Ioc
      else if no_timeInForce m = WFok then Fok
      else Limit)"

definition handleNewOrder ::
  "(nat \<Rightarrow> env) \<Rightarrow> (nat \<Rightarrow> Seq \<Rightarrow> byte list) \<Rightarrow> GatewayServer \<Rightarrow> nat \<Rightarrow> ClientSession \<Rightarrow> NewOrderMsg \<Rightarrow> GatewayServer \<times> ClientSession" where
  "handleNewOrder io pads gw sid cs m =
     (let (ok, cs1) = checkClientSeq cs (no_clientSeqNum m) (no_orderId m)
      in if \<not> ok then (gw, cs1)
         else
           (let shardIdx = shardIndexFor gw (no_instrumentId m)
            in if shardIdx < 0 then (gw, sendReject cs1 (no_orderId m) EngineReject 0)
               else
                 (let cmd = zeroCommand\<lparr>c_id := no_orderId m, c_newId := 0, c_price := no_price m, c_quantity := no_quantity m,
                        c_participant := cs_participantId cs1, c_kind := New, c_side := no_side m, c_type := wireType m\<rparr>
                  in submitOrPend io pads gw sid cs1 cmd shardIdx)))"

definition handleCancel ::
  "(nat \<Rightarrow> env) \<Rightarrow> (nat \<Rightarrow> Seq \<Rightarrow> byte list) \<Rightarrow> GatewayServer \<Rightarrow> nat \<Rightarrow> ClientSession \<Rightarrow> CancelMsg \<Rightarrow> GatewayServer \<times> ClientSession" where
  "handleCancel io pads gw sid cs m =
     (let (ok, cs1) = checkClientSeq cs (cx_clientSeqNum m) (cx_orderId m)
      in if \<not> ok then (gw, cs1)
         else
           (let shardIdx = shardIndexFor gw (cx_instrumentId m)
            in if shardIdx < 0 then (gw, sendReject cs1 (cx_orderId m) EngineReject 0)
               else
                 (let cmd = zeroCommand\<lparr>c_id := cx_orderId m, c_participant := cs_participantId cs1, c_kind := Cancel\<rparr>
                  in submitOrPend io pads gw sid cs1 cmd shardIdx)))"

definition handleCancelReplace ::
  "(nat \<Rightarrow> env) \<Rightarrow> (nat \<Rightarrow> Seq \<Rightarrow> byte list) \<Rightarrow> GatewayServer \<Rightarrow> nat \<Rightarrow> ClientSession \<Rightarrow> CancelReplaceMsg \<Rightarrow> GatewayServer \<times> ClientSession" where
  "handleCancelReplace io pads gw sid cs m =
     (let (ok, cs1) = checkClientSeq cs (cr_clientSeqNum m) (cr_orderId m)
      in if \<not> ok then (gw, cs1)
         else
           (let shardIdx = shardIndexFor gw (cr_instrumentId m)
            in if shardIdx < 0 then (gw, sendReject cs1 (cr_orderId m) EngineReject 0)
               else
                 (let cmd = zeroCommand\<lparr>c_id := cr_orderId m, c_newId := cr_orderId m, c_price := cr_newPrice m, c_quantity := cr_newQuantity m,
                        c_participant := cs_participantId cs1, c_kind := Replace, c_type := Limit\<rparr>
                  in submitOrPend io pads gw sid cs1 cmd shardIdx)))"

text \<open>One turn of the loop of \<^verbatim>\<open>processDecoded\<close>: whether it goes on, the server and the session.\<close>

definition awaitingStep :: "GatewayServer \<Rightarrow> ClientSession \<Rightarrow> DecodedMessage \<Rightarrow> bool \<times> ClientSession" where
  "awaitingStep gw cs msg =
     (case msg of
        DLogin m \<Rightarrow> (let cs1 = handleLogin gw cs m in (\<not> cs_closed cs1, cs1))
      | DHeartbeat m \<Rightarrow> (let cs1 = handleHeartbeat cs in (\<not> cs_closed cs1, cs1))
      | _ \<Rightarrow> (False, closeSession (sendLoginReject cs NotAuthenticated)))"

definition authenticatedStep ::
  "(nat \<Rightarrow> env) \<Rightarrow> (nat \<Rightarrow> Seq \<Rightarrow> byte list) \<Rightarrow> GatewayServer \<Rightarrow> nat \<Rightarrow> ClientSession \<Rightarrow> DecodedMessage \<Rightarrow> bool \<times> GatewayServer \<times> ClientSession" where
  "authenticatedStep io pads gw sid cs msg =
     (case msg of
        DLogin m \<Rightarrow> (False, gw, closeSession (sendLoginReject cs AlreadyAuthenticated))
      | _ \<Rightarrow>
          (let (known, gw1, cs1) =
                 (case msg of
                    DNewOrder m \<Rightarrow> (True, handleNewOrder io pads gw sid cs m)
                  | DCancel m \<Rightarrow> (True, handleCancel io pads gw sid cs m)
                  | DCancelReplace m \<Rightarrow> (True, handleCancelReplace io pads gw sid cs m)
                  | DHeartbeat m \<Rightarrow> (True, gw, handleHeartbeat cs)
                  | _ \<Rightarrow> (False, gw, closeSession cs))
           in (known \<and> \<not> (cs_closed cs1 \<or> cs_readSuspended cs1), gw1, cs1)))"

definition decodedStep ::
  "(nat \<Rightarrow> env) \<Rightarrow> (nat \<Rightarrow> Seq \<Rightarrow> byte list) \<Rightarrow> GatewayServer \<Rightarrow> nat \<Rightarrow> ClientSession \<Rightarrow> bool \<times> GatewayServer \<times> ClientSession" where
  "decodedStep io pads gw sid cs =
     (let (res, d) = fd_next (cs_decoder cs);
          cs1 = cs\<lparr>cs_decoder := d\<rparr>
      in case res of
           RIncomplete \<Rightarrow> (False, gw, cs1)
         | RInvalid reason \<Rightarrow> (False, gw, closeSession cs1)
         | ROk msg \<Rightarrow>
             (if cs_state cs1 = AwaitingLogin then (let (go, cs2) = awaitingStep gw cs1 msg in (go, gw, cs2))
              else authenticatedStep io pads gw sid cs1 msg))"

section \<open>The read loop ends\<close>

lemma sendFrame_simps [simp]:
  "cs_decoder (sendFrame cs b) = cs_decoder cs" "cs_state (sendFrame cs b) = cs_state cs" "cs_participantId (sendFrame cs b) = cs_participantId cs"
  "cs_lastClientSeq (sendFrame cs b) = cs_lastClientSeq cs" "cs_readSuspended (sendFrame cs b) = cs_readSuspended cs" "cs_closed (sendFrame cs b) = cs_closed cs"
  "cs_hasPending (sendFrame cs b) = cs_hasPending cs" "cs_pendingKind (sendFrame cs b) = cs_pendingKind cs" "cs_pendingCmd (sendFrame cs b) = cs_pendingCmd cs"
  "cs_pendingShardIdx (sendFrame cs b) = cs_pendingShardIdx cs" "cs_reading (sendFrame cs b) = cs_reading cs"
  by (simp_all add: sendFrame_def doWrite_def Let_def)

lemma closeSession_simps [simp]:
  "cs_decoder (closeSession cs) = cs_decoder cs" "cs_participantId (closeSession cs) = cs_participantId cs"
  "cs_lastClientSeq (closeSession cs) = cs_lastClientSeq cs" "cs_readSuspended (closeSession cs) = cs_readSuspended cs" "cs_closed (closeSession cs)"
  "cs_hasPending (closeSession cs) = cs_hasPending cs" "cs_pendingKind (closeSession cs) = cs_pendingKind cs" "cs_pendingCmd (closeSession cs) = cs_pendingCmd cs"
  "cs_pendingShardIdx (closeSession cs) = cs_pendingShardIdx cs" "cs_reading (closeSession cs) = cs_reading cs"
  by (simp_all add: closeSession_def)

lemmas session_defs = sendReject_def sendLoginReject_def sendNewAckIfApplicable_def handleHeartbeat_def stopReading_def

lemma submitOrPend_decoder: "submitOrPend io pads gw sid cs cmd k = (gw', cs') \<Longrightarrow> cs_decoder cs' = cs_decoder cs"
  by (auto simp: submitOrPend_def Let_def session_defs split: Outcome.splits prod.splits)

lemma checkClientSeq_decoder: "checkClientSeq cs n i = (ok, cs') \<Longrightarrow> cs_decoder cs' = cs_decoder cs"
  by (auto simp: checkClientSeq_def session_defs split: if_splits)

lemma handle_decoder:
  "handleNewOrder io pads gw sid cs no = (gw', cs') \<Longrightarrow> cs_decoder cs' = cs_decoder cs"
  "handleCancel io pads gw sid cs cx = (gw', cs') \<Longrightarrow> cs_decoder cs' = cs_decoder cs"
  "handleCancelReplace io pads gw sid cs cr = (gw', cs') \<Longrightarrow> cs_decoder cs' = cs_decoder cs"
  by (auto simp: handleNewOrder_def handleCancel_def handleCancelReplace_def Let_def session_defs split: prod.splits if_splits
      dest!: checkClientSeq_decoder submitOrPend_decoder)

lemma handleLogin_decoder [simp]: "cs_decoder (handleLogin gw cs m) = cs_decoder cs"
  by (simp add: handleLogin_def Let_def session_defs)

lemma decodedStep_decoder:
  assumes "decodedStep io pads gw sid cs = (go, gw', cs')"
  shows "cs_decoder cs' = snd (fd_next (cs_decoder cs))"
proof -
  obtain res d where n: "fd_next (cs_decoder cs) = (res, d)" by fastforce
  show ?thesis using assms n
    by (auto simp: decodedStep_def awaitingStep_def authenticatedStep_def Let_def session_defs split: Result.splits if_splits DecodedMessage.splits prod.splits
        dest!: handle_decoder)
qed

lemma decodedStep_shrinks:
  assumes "decodedStep io pads gw sid cs = (True, gw', cs')"
  shows "length (fd_buf (cs_decoder cs')) < length (fd_buf (cs_decoder cs))"
proof -
  obtain res d where n: "fd_next (cs_decoder cs) = (res, d)" by fastforce
  with assms obtain m where "res = ROk m" by (cases res) (auto simp: decodedStep_def)
  with n have "fd_buf (cs_decoder cs) = encode m @ fd_buf d" using fd_next_sound by blast
  then show ?thesis using decodedStep_decoder [OF assms] n fd.enc_size(2) [of m] by simp
qed

function processDecoded ::
  "(nat \<Rightarrow> env) \<Rightarrow> (nat \<Rightarrow> Seq \<Rightarrow> byte list) \<Rightarrow> GatewayServer \<Rightarrow> nat \<Rightarrow> ClientSession \<Rightarrow> GatewayServer \<times> ClientSession" where
  "processDecoded io pads gw sid cs =
     (let (go, gw1, cs1) = decodedStep io pads gw sid cs
      in if go then processDecoded io pads gw1 sid cs1 else (gw1, cs1))"
  by auto

termination processDecoded
  by (relation "measure (\<lambda>(io, pads, gw, sid, cs). length (fd_buf (cs_decoder cs)))") (auto dest: decodedStep_shrinks [OF sym])

declare processDecoded.simps [simp del]

definition onRead ::
  "(nat \<Rightarrow> env) \<Rightarrow> (nat \<Rightarrow> Seq \<Rightarrow> byte list) \<Rightarrow> GatewayServer \<Rightarrow> nat \<Rightarrow> ClientSession \<Rightarrow> byte list \<Rightarrow> GatewayServer \<times> ClientSession" where
  "onRead io pads gw sid cs data =
     (let (fed, d) = feed (cs_decoder cs) data;
          cs1 = cs\<lparr>cs_missedHeartbeats := 0, cs_decoder := d\<rparr>
      in if \<not> fed then (gw, closeSession cs1)
         else
           (let (gw1, cs2) = processDecoded io pads gw sid cs1
            in (gw1, if \<not> cs_closed cs2 then doRead cs2 else cs2)))"

definition retryPending ::
  "(nat \<Rightarrow> env) \<Rightarrow> (nat \<Rightarrow> Seq \<Rightarrow> byte list) \<Rightarrow> GatewayServer \<Rightarrow> nat \<Rightarrow> ClientSession \<Rightarrow> GatewayServer \<times> ClientSession" where
  "retryPending io pads gw sid cs =
     (if \<not> cs_hasPending cs \<or> cs_closed cs then (gw, cs)
      else
        (let k = nat (cs_pendingShardIdx cs);
             (r, gw1) = shardSubmit io pads gw k (cs_pendingKind cs) (cs_pendingCmd cs)
         in case ts_outcome r of
              RingFull \<Rightarrow> (gw1, cs)
            | DurabilityFailure \<Rightarrow>
                (eraseRoute gw1 k (routedId (cs_pendingCmd cs)),
                 closeSession (sendReject (cs\<lparr>cs_hasPending := False\<rparr>) (routedId (cs_pendingCmd cs)) EngineReject 0))
            | Sequenced \<Rightarrow>
                (logSequenced gw1 sid cs k (cs_pendingCmd cs) (ts_seq r),
                 resumeReading (sendNewAckIfApplicable (cs\<lparr>cs_hasPending := False\<rparr>) (cs_pendingCmd cs) (ts_seq r)))))"

section \<open>gateway/gateway.hpp: accepting, routing, retrying\<close>

definition doAccept :: "GatewayServer \<Rightarrow> GatewayServer" where
  "doAccept gw =
     gw\<lparr>gw_sessions := gw_sessions gw @ [session_start (newClientSession (gw_instruments gw) (gw_minPrice gw) (gw_maxPrice gw))]\<rparr>"

definition putSession :: "nat \<Rightarrow> GatewayServer \<times> ClientSession \<Rightarrow> GatewayServer" where
  "putSession sid = (\<lambda>(gw, cs). gw\<lparr>gw_sessions := (gw_sessions gw)[sid := cs]\<rparr>)"

text \<open>
  \<^verbatim>\<open>retryAllPending\<close> walks over the sessions in the order they were accepted. A session that has expired is closed and is
  skipped by \<^const>\<open>retryPending\<close>.
\<close>

definition retryOne :: "(nat \<Rightarrow> env) \<Rightarrow> (nat \<Rightarrow> Seq \<Rightarrow> byte list) \<Rightarrow> GatewayServer \<Rightarrow> nat \<Rightarrow> GatewayServer" where
  "retryOne io pads gw sid =
     (let cs = gw_sessions gw ! sid
      in if cs_readSuspended cs then putSession sid (retryPending io pads gw sid cs) else gw)"

definition retryAllPending :: "(nat \<Rightarrow> env) \<Rightarrow> (nat \<Rightarrow> Seq \<Rightarrow> byte list) \<Rightarrow> GatewayServer \<Rightarrow> GatewayServer" where
  "retryAllPending io pads gw = foldl (retryOne io pads) gw [0..<length (gw_sessions gw)]"

text \<open>\<open>expired\<close> are the sessions whose object is gone, so that the weak pointer of a route cannot be locked.\<close>

definition dropRoute :: "GatewayServer \<Rightarrow> nat \<Rightarrow> GatewayServer" where
  "dropRoute gw k =
     (let ctx = gw_shardCtxs gw ! k
      in gw\<lparr>gw_shardCtxs := (gw_shardCtxs gw)[k := ctx\<lparr>sx_droppedRoutes := sx_droppedRoutes ctx + 1\<rparr>]\<rparr>)"

definition postFrame :: "GatewayServer \<Rightarrow> nat \<Rightarrow> byte list \<Rightarrow> GatewayServer" where
  "postFrame gw sid data = gw\<lparr>gw_posted := gw_posted gw @ [PostFrame sid data]\<rparr>"

definition routeExecReport ::
  "(nat \<Rightarrow> bool) \<Rightarrow> GatewayServer \<Rightarrow> nat \<Rightarrow> OrderId \<Rightarrow> ExecType \<Rightarrow> Quantity \<Rightarrow> Quantity \<Rightarrow> Price \<Rightarrow> int \<Rightarrow> Seq \<Rightarrow> GatewayServer" where
  "routeExecReport expired gw k orderId type execQty leavesQty price tradeId globalSeq =
     (case sx_routes (gw_shardCtxs gw ! k) orderId of
        None \<Rightarrow> dropRoute gw k
      | Some rt \<Rightarrow>
          if expired (rt_session rt) then dropRoute gw k
          else postFrame gw (rt_session rt) (encodeExecReport \<lparr>er_orderId = orderId, er_execType = exec_code type, er_execQty = execQty,
                 er_leavesQty = leavesQty, er_tradePrice = price, er_tradeId = tradeId, er_globalSeq = globalSeq\<rparr>))"

definition routeReject :: "(nat \<Rightarrow> bool) \<Rightarrow> GatewayServer \<Rightarrow> nat \<Rightarrow> OrderId \<Rightarrow> RejectReason \<Rightarrow> Seq \<Rightarrow> GatewayServer" where
  "routeReject expired gw k orderId reason globalSeq =
     (case sx_routes (gw_shardCtxs gw ! k) orderId of
        None \<Rightarrow> dropRoute gw k
      | Some rt \<Rightarrow>
          (let gw1 = eraseRoute gw k orderId
           in if expired (rt_session rt) then dropRoute gw1 k
              else postFrame gw1 (rt_session rt) (encodeReject \<lparr>rj_orderId = orderId, rj_reason = reason_code reason, rj_globalSeq = globalSeq\<rparr>)))"

definition routeOne :: "(nat \<Rightarrow> bool) \<Rightarrow> nat \<Rightarrow> GatewayServer \<Rightarrow> OutboundEvent \<Rightarrow> GatewayServer" where
  "routeOne expired k gw ev =
     (case e_payload ev of
        PTrade t \<Rightarrow>
          (let gw1 = routeExecReport expired gw k (t_aggressorId t) Fill (t_quantity t) 0 (t_price t) (t_id t) (e_globalSeq ev)
           in routeExecReport expired gw1 k (t_passiveId t) Fill (t_quantity t) 0 (t_price t) (t_id t) (e_globalSeq ev))
      | PStatusChange sc \<Rightarrow>
          (if s_status sc = Ok then routeExecReport expired gw k (s_orderId sc) NewAck 0 0 0 0 (e_globalSeq ev)
           else routeReject expired gw k (s_orderId sc) EngineReject (e_globalSeq ev))
      | POrderUpdate u \<Rightarrow> gw)"

text \<open>One turn of the router of shard \<open>k\<close>: the events its ring holds, and then a retry for everybody.\<close>

definition routerTurn :: "(nat \<Rightarrow> bool) \<Rightarrow> nat \<Rightarrow> GatewayServer \<Rightarrow> OutboundEvent list \<Rightarrow> GatewayServer" where
  "routerTurn expired k gw evs =
     (let gw1 = foldl (routeOne expired k) gw evs
      in if evs \<noteq> [] then gw1\<lparr>gw_posted := gw_posted gw1 @ [PostRetry]\<rparr> else gw1)"

fun runPosted :: "(nat \<Rightarrow> env) \<Rightarrow> (nat \<Rightarrow> Seq \<Rightarrow> byte list) \<Rightarrow> GatewayServer \<Rightarrow> posted \<Rightarrow> GatewayServer" where
  "runPosted io pads gw (PostFrame sid data) = putSession sid (gw, sendFrame (gw_sessions gw ! sid) data)"
| "runPosted io pads gw PostRetry = retryAllPending io pads gw"

section \<open>The gateway as a transition system\<close>

text \<open>
  What can happen next: a connection, the completion of an asynchronous operation of some session, a timer, a posted function, a
  turn of some router on whatever events the engine has published, or the matching thread of a shard taking a command. Closing the
  socket aborts an outstanding read; a read that had completed before and is still queued is outside this relation.
\<close>

definition takeCommand :: "GatewayServer \<Rightarrow> nat \<Rightarrow> GatewayServer" where
  "takeCommand gw k =
     (let ctx = gw_shardCtxs gw ! k; sq = sx_sequencer ctx
      in gw\<lparr>gw_shardCtxs := (gw_shardCtxs gw)[k := ctx\<lparr>sx_sequencer := sq\<lparr>sq_ring := snd (sr_pop (sq_ring sq))\<rparr>\<rparr>]\<rparr>)"

inductive gw_step :: "(nat \<Rightarrow> env) \<Rightarrow> (nat \<Rightarrow> Seq \<Rightarrow> byte list) \<Rightarrow> GatewayServer \<Rightarrow> GatewayServer \<Rightarrow> bool" for io pads where
  accept: "gw_step io pads gw (doAccept gw)"
| read: "sid < length (gw_sessions gw) \<Longrightarrow> cs_reading (gw_sessions gw ! sid) \<Longrightarrow> \<not> cs_closed (gw_sessions gw ! sid) \<Longrightarrow>
    0 < length data \<Longrightarrow> length data \<le> kReadChunk \<Longrightarrow>
    gw_step io pads gw (putSession sid (onRead io pads gw sid ((gw_sessions gw ! sid)\<lparr>cs_reading := False\<rparr>) data))"
| read_error: "sid < length (gw_sessions gw) \<Longrightarrow> cs_reading (gw_sessions gw ! sid) \<Longrightarrow>
    gw_step io pads gw (putSession sid (gw, closeSession ((gw_sessions gw ! sid)\<lparr>cs_reading := False\<rparr>)))"
| auth_timeout: "sid < length (gw_sessions gw) \<Longrightarrow> cs_authTimer (gw_sessions gw ! sid) \<Longrightarrow>
    gw_step io pads gw (putSession sid (gw, onAuthTimeout ((gw_sessions gw ! sid)\<lparr>cs_authTimer := False\<rparr>)))"
| heartbeat: "sid < length (gw_sessions gw) \<Longrightarrow> cs_heartbeatTimer (gw_sessions gw ! sid) \<Longrightarrow>
    gw_step io pads gw (putSession sid (gw, onHeartbeatTimer ((gw_sessions gw ! sid)\<lparr>cs_heartbeatTimer := False\<rparr>)))"
| written: "sid < length (gw_sessions gw) \<Longrightarrow> cs_writing (gw_sessions gw ! sid) \<Longrightarrow>
    gw_step io pads gw (putSession sid (gw, onWritten (gw_sessions gw ! sid) failed))"
| run: "gw_posted gw = p # ps \<Longrightarrow> gw_step io pads gw (runPosted io pads (gw\<lparr>gw_posted := ps\<rparr>) p)"
| route: "k < length (gw_shardCtxs gw) \<Longrightarrow> gw_step io pads gw (routerTurn expired k gw evs)"
| take: "k < length (gw_shardCtxs gw) \<Longrightarrow> gw_step io pads gw (takeCommand gw k)"

end
