(* ===== verification/Gateway_Laws.thy ===== *)
theory Gateway_Laws
  imports Gateway
begin

text \<open>
  What every step of the gateway keeps: the invariant of a session, and that the journals of the shards hold what was sequenced.
\<close>

section \<open>A disk that never fails\<close>

text \<open>With every system call succeeding, a writer that is in order accepts every record.\<close>

lemma write_done: "map_of (w_dir w) n \<noteq> None \<Longrightarrow> \<forall>i. io i = Done \<Longrightarrow>
    \<exists>w'. sys_write io w n data = (Some (length data), w') \<and> map_of (w_dir w') n \<noteq> None"
  by (auto simp: sys_write_def Let_def put_file_def update_conv)

lemma fsync_done: "map_of (w_dir w) n \<noteq> None \<Longrightarrow> \<forall>i. io i = Done \<Longrightarrow> fst (sys_fsync io w n)"
  by (auto simp: sys_fsync_def Let_def)

lemma fsync_keeps: "map_of (w_dir w) n \<noteq> None \<Longrightarrow> map_of (w_dir (snd (sys_fsync io w m))) n \<noteq> None"
  by (auto simp: sys_fsync_def Let_def put_file_def update_conv tick_call_def split: option.split io.split)

lemma openSegment_done:
  assumes "\<forall>i. io i = Done"
  obtains jw' fd where "openSegment io jw f = (True, jw')" "jw_fd jw' = Some fd" "map_of (w_dir (jw_world jw')) fd \<noteq> None"
proof -
  let ?p = "segmentName f"
  obtain w1 where w1: "sys_create io (jw_world jw) ?p = (True, w1)" "map_of (w_dir w1) ?p \<noteq> None"
    using assms by (auto simp: sys_create_def put_file_def update_conv Let_def)
  let ?h = "encodeSegmentHeader \<lparr>sg_magic = kJournalMagic, sg_version = kJournalVersion, sg_firstSeq = of_int f, sg_createdCounter = jw_createdCounter jw\<rparr>"
  obtain w2 where w2: "sys_write io w1 ?p ?h = (Some (length ?h), w2)" "map_of (w_dir w2) ?p \<noteq> None" using write_done [OF w1(2) assms, of ?h] by blast
  obtain w3 where w3: "sys_fsync io w2 ?p = (True, w3)" using fsync_done [OF w2(2) assms] by (metis prod.collapse)
  have "map_of (w_dir w3) ?p \<noteq> None" using fsync_keeps [OF w2(2), of io ?p] w3 by simp
  moreover have "fst (openSegment io jw f)" "jw_fd (snd (openSegment io jw f)) = Some ?p" "jw_world (snd (openSegment io jw f)) = w3"
    by (simp_all add: openSegment_def w1(1) w2(1) w3 Let_def)
  ultimately show thesis using that [of "snd (openSegment io jw f)" ?p] by (metis prod.collapse)
qed

lemma ready_done:
  assumes inv: "writer_inv jw init cur" and io: "\<forall>i. io i = Done"
  obtains jw' fd where "ready io jw s = (True, jw')" "jw_fd jw' = Some fd" "map_of (w_dir (jw_world jw')) fd \<noteq> None"
proof (cases "jw_fd jw")
  case None
  then show thesis using openSegment_done [OF io, of jw s] that by (auto simp: ready_def)
next
  case (Some fd)
  obtain sg k j where cur: "cur = Some (sg, k, j)" "fd = seg_name sg" using writer_state(2) [OF inv] Some by (auto simp: at_end_def split: option.splits)
  have there: "map_of (w_dir (jw_world jw)) fd \<noteq> None"
    using writer_state(1) [OF inv] disk_files(2) [of init cur sg k j] cur by (auto simp: journal_state_def)
  obtain jw1 where s: "jw_sync io jw = (True, jw1)" using fsync_done [OF there io] Some by (auto simp: jw_sync_def Let_def case_prod_beta)
  obtain jw2 fd2 where o: "openSegment io (jw1\<lparr>jw_fd := None\<rparr>) s = (True, jw2)" "jw_fd jw2 = Some fd2" "map_of (w_dir (jw_world jw2)) fd2 \<noteq> None"
    by (rule openSegment_done [OF io])
  show thesis
  proof (cases "jw_bytesInSegment jw + kRecordSize > jw_rollBytes jw")
    case True
    then show thesis using that [of jw2 fd2] o s Some by (simp add: ready_def rollSegment_def)
  next
    case False
    then show thesis using that [of jw fd] Some there by (simp add: ready_def)
  qed
qed

lemma append_done:
  assumes inv: "writer_inv jw init cur" and io: "\<forall>i. io i = Done" and pad: "length pad = 5"
  shows "fst (jw_append io pad jw s kind cmd)"
proof -
  obtain jw1 fd where r: "ready io jw s = (True, jw1)" "jw_fd jw1 = Some fd" "map_of (w_dir (jw_world jw1)) fd \<noteq> None" by (rule ready_done [OF inv io])
  let ?b = "encodeRecord pad s kind cmd"
  have len: "length ?b = kRecordSize" using pad by (simp add: encodeRecord_def Let_def kRecordSize_def kRecordFixedSize_def kCommandSize_def kRecordCrcSize_def)
  obtain w where w: "sys_write io (jw_world jw1) fd ?b = (Some (length ?b), w)" "map_of (w_dir w) fd \<noteq> None" using write_done [OF r(3) io, of ?b] by blast
  have "fst (jw_sync io j)" if "jw_fd j = Some fd" "jw_world j = w" for j
    using that fsync_done [OF w(2) io] by (simp add: jw_sync_def Let_def case_prod_beta)
  then show ?thesis using r w(1) len by (simp add: jw_append_ready Let_def)
qed

lemma trySubmit_done:
  assumes "seq_inv sq init cur" "\<forall>i. io i = Done" "length pad = 5"
  shows "ts_outcome (fst (trySubmit io pad sq kind cmd)) \<noteq> DurabilityFailure"
proof -
  have "writer_inv (sq_journal sq) init cur" using assms(1) by (simp add: seq_inv_def)
  from append_done [OF this assms(2,3), of "sq_seq sq + 1" kind cmd] show ?thesis
    by (simp add: trySubmit_def Let_def case_prod_beta split: option.split)
qed

section \<open>What every step keeps\<close>

definition log_of :: "GatewayServer \<Rightarrow> nat \<Rightarrow> (nat \<times> 64 word \<times> nat \<times> Command \<times> Seq) list" where
  "log_of gw sid = filter (\<lambda>e. fst e = sid) (gw_log gw)"

definition seqs_of :: "GatewayServer \<Rightarrow> nat \<Rightarrow> 64 word list" where
  "seqs_of gw sid = map (\<lambda>(s, n, k, c, q). n) (log_of gw sid)"

definition following :: "64 word \<Rightarrow> nat \<Rightarrow> 64 word list" where
  "following start n = map (\<lambda>i. start + 1 + of_nat i) [0..<n]"

lemma following_Suc: "following start (Suc n) = following start n @ [start + 1 + of_nat n]"
  by (simp add: following_def)

text \<open>What the decoder has checked of a command: the widths of its fields, its quantity and its price.\<close>

definition cmd_typed :: "GatewayServer \<Rightarrow> Command \<Rightarrow> bool" where
  "cmd_typed gw c \<longleftrightarrow> cmd_fits c \<and>
     (c_kind c \<noteq> Cancel \<longrightarrow> 0 < c_quantity c \<and> (gw_minPrice gw \<le> c_price c \<and> c_price c \<le> gw_maxPrice gw \<or> c_type c = Market \<and> c_price c = 0))"

text \<open>The participant of a session, once it is logged in, and its commands.\<close>

definition identity_inv :: "GatewayServer \<Rightarrow> nat \<Rightarrow> ClientSession \<Rightarrow> bool" where
  "identity_inv gw sid cs \<longleftrightarrow>
     in_i64 (cs_participantId cs) \<and> (cs_state cs = Authenticated \<longrightarrow> gw_auth gw (cs_participantId cs) \<noteq> None) \<and>
     (cs_hasPending cs \<longrightarrow> cmd_typed gw (cs_pendingCmd cs) \<and> c_participant (cs_pendingCmd cs) = cs_participantId cs \<and> gw_auth gw (cs_participantId cs) \<noteq> None) \<and>
     (\<forall>(s, n, k, c, q) \<in> set (log_of gw sid). cmd_typed gw c \<and> c_participant c = cs_participantId cs \<and> gw_auth gw (cs_participantId cs) \<noteq> None)"

text \<open>A decoder set up with the instruments and the price band of the server.\<close>

definition checks_for :: "GatewayServer \<Rightarrow> FrameDecoder \<Rightarrow> bool" where
  "checks_for gw d \<longleftrightarrow> fd_instruments d = gw_instruments gw \<and> fd_minPrice d = gw_minPrice gw \<and> fd_maxPrice d = gw_maxPrice gw"

text \<open>The phases of a session: when it reads, waits for room in a ring, or is closed.\<close>

definition phase_inv :: "GatewayServer \<Rightarrow> nat \<Rightarrow> ClientSession \<Rightarrow> bool" where
  "phase_inv gw sid cs \<longleftrightarrow>
     (cs_closed cs \<longleftrightarrow> cs_state cs = Closing) \<and> checks_for gw (cs_decoder cs) \<and>
     (cs_state cs = AwaitingLogin \<longrightarrow> log_of gw sid = [] \<and> \<not> cs_hasPending cs) \<and>
     (\<not> cs_closed cs \<longrightarrow> (cs_readSuspended cs \<longleftrightarrow> cs_hasPending cs)) \<and>
     (cs_readSuspended cs \<and> \<not> cs_closed cs \<longrightarrow> \<not> cs_reading cs) \<and>
     (cs_hasPending cs \<longrightarrow> nat (cs_pendingShardIdx cs) < length (gw_shardCtxs gw) \<and> cs_pendingKind cs = c_kind (cs_pendingCmd cs))"

text \<open>The client's sequence numbers: those sequenced are consecutive, and the one waiting for room follows them.\<close>

definition numbers_inv :: "GatewayServer \<Rightarrow> nat \<Rightarrow> ClientSession \<Rightarrow> bool" where
  "numbers_inv gw sid cs \<longleftrightarrow>
     (\<exists>start n. seqs_of gw sid = following start n \<and>
        (cs_state cs = Authenticated \<longrightarrow> cs_lastClientSeq cs = start + of_nat n + (if cs_hasPending cs then 1 else 0)))"

definition client_inv :: "GatewayServer \<Rightarrow> nat \<Rightarrow> ClientSession \<Rightarrow> bool" where
  "client_inv gw sid cs \<longleftrightarrow> identity_inv gw sid cs \<and> phase_inv gw sid cs \<and> numbers_inv gw sid cs"

lemmas client_inv_defs = client_inv_def identity_inv_def phase_inv_def numbers_inv_def

definition same_server :: "GatewayServer \<Rightarrow> GatewayServer \<Rightarrow> bool" where
  "same_server gw gw' \<longleftrightarrow> gw_auth gw' = gw_auth gw \<and> gw_instruments gw' = gw_instruments gw \<and> gw_sessions gw' = gw_sessions gw \<and>
     gw_minPrice gw' = gw_minPrice gw \<and> gw_maxPrice gw' = gw_maxPrice gw \<and>
     map sx_instrumentId (gw_shardCtxs gw') = map sx_instrumentId (gw_shardCtxs gw)"

lemma same_server_refl [simp]: "same_server gw gw"
  by (simp add: same_server_def)

lemma same_server_trans: "same_server a b \<Longrightarrow> same_server b c \<Longrightarrow> same_server a c"
  by (simp add: same_server_def)

lemma same_server_length: "same_server gw gw' \<Longrightarrow> length (gw_shardCtxs gw') = length (gw_shardCtxs gw)"
  by (metis same_server_def length_map)

text \<open>Another session's invariant looks at its own part of the log and at what never changes.\<close>

lemma client_inv_frame:
  assumes "same_server gw gw'" "log_of gw' sid = log_of gw sid"
  shows "client_inv gw' sid cs = client_inv gw sid cs"
  using assms same_server_length [OF assms(1)] by (simp add: client_inv_defs seqs_of_def same_server_def cmd_typed_def checks_for_def)

lemma client_inv_send [simp]: "client_inv gw sid (sendFrame cs b) = client_inv gw sid cs"
  by (simp add: client_inv_defs)

lemma closeSession_state: "cs_state (closeSession cs) = (if cs_closed cs then cs_state cs else Closing)"
  by (simp add: closeSession_def)

lemma client_inv_close:
  assumes "client_inv gw sid cs"
  shows "client_inv gw sid (closeSession cs)"
  using assms unfolding client_inv_defs by (cases "cs_closed cs") (auto simp: closeSession_state)

definition server_inv :: "GatewayServer \<Rightarrow> bool" where
  "server_inv gw \<longleftrightarrow> set (gw_instruments gw) \<subseteq> set (map sx_instrumentId (gw_shardCtxs gw))"

lemma server_inv_frame: "same_server gw gw' \<Longrightarrow> server_inv gw' = server_inv gw"
  by (simp add: server_inv_def same_server_def del: set_map)

lemma instrumentSet_sub:
  "set (foldl (\<lambda>s x. is_add s (sx_instrumentId x)) acc ss) \<subseteq> set acc \<union> set (map sx_instrumentId ss)"
proof (induction ss arbitrary: acc)
  case (Cons x ss)
  have "set (is_add acc (sx_instrumentId x)) \<subseteq> insert (sx_instrumentId x) (set acc)" by (auto simp: is_add_def)
  with Cons.IH [of "is_add acc (sx_instrumentId x)"] show ?case by auto
qed simp

lemma indexOf_cases: "indexOf ss i k = -1 \<and> i \<notin> set (map sx_instrumentId ss) \<or>
    (\<exists>j<length ss. indexOf ss i k = k + int j \<and> sx_instrumentId (ss ! j) = i)"
proof (induction ss arbitrary: k)
  case (Cons s ss)
  show ?case
  proof (cases "sx_instrumentId s = i")
    case False
    from Cons.IH [of "k + 1"] show ?thesis
    proof
      assume "\<exists>j<length ss. indexOf ss i (k + 1) = k + 1 + int j \<and> sx_instrumentId (ss ! j) = i"
      then obtain j where "j < length ss" "indexOf ss i (k + 1) = k + 1 + int j" "sx_instrumentId (ss ! j) = i" by blast
      then have "Suc j < length (s # ss) \<and> indexOf (s # ss) i k = k + int (Suc j) \<and> sx_instrumentId ((s # ss) ! Suc j) = i" using False by simp
      then show ?thesis by blast
    qed (use False in simp)
  qed (auto intro: exI [of _ 0])
qed simp

lemma shardIndexFor_known:
  assumes "server_inv gw" "i \<in> set (gw_instruments gw)"
  obtains j where "shardIndexFor gw i = int j" "j < length (gw_shardCtxs gw)" "sx_instrumentId (gw_shardCtxs gw ! j) = i"
  using indexOf_cases [of "gw_shardCtxs gw" i 0] assms by (auto simp: shardIndexFor_def server_inv_def)

section \<open>Submitting\<close>

lemma update_ids: "k < length ss \<Longrightarrow> sx_instrumentId x = sx_instrumentId (ss ! k) \<Longrightarrow> map sx_instrumentId (ss[k := x]) = map sx_instrumentId ss"
  by (metis list_update_id map_update)

lemma routes_same [simp]:
  "gw_log (registerRoute gw k i sid n) = gw_log gw" "gw_log (eraseRoute gw k i) = gw_log gw"
  "k < length (gw_shardCtxs gw) \<Longrightarrow> same_server gw (registerRoute gw k i sid n)" "k < length (gw_shardCtxs gw) \<Longrightarrow> same_server gw (eraseRoute gw k i)"
  by (simp_all add: registerRoute_def eraseRoute_def same_server_def Let_def update_ids)

lemma shardSubmit_same:
  assumes "shardSubmit io pads gw k kind cmd = (r, gw')" "k < length (gw_shardCtxs gw)"
  shows "gw_log gw' = gw_log gw" "same_server gw gw'"
  using assms by (auto simp: shardSubmit_def same_server_def Let_def update_ids split: prod.splits)

lemma log_of_same: "gw_log gw' = gw_log gw \<Longrightarrow> log_of gw' sid = log_of gw sid"
  by (simp add: log_of_def)

lemma logSequenced_same [simp]: "same_server gw (logSequenced gw sid cs k cmd q)"
  by (simp add: logSequenced_def same_server_def)

lemma log_of_logSequenced:
  "log_of (logSequenced gw sid cs k cmd q) s = log_of gw s @ (if s = sid then [(sid, cs_lastClientSeq cs, k, cmd, q)] else [])"
  by (simp add: log_of_def logSequenced_def)

text \<open>
  The journal of a shard has what was sequenced on it, as long as no system call fails. This depends on the sequencers and on the
  log alone.
\<close>

definition shard_log :: "GatewayServer \<Rightarrow> nat \<Rightarrow> (Seq \<times> CommandKind \<times> Command) list" where
  "shard_log gw k = map (\<lambda>(s, n, j, c, q). (q, c_kind c, c)) (filter (\<lambda>(s, n, j, c, q). j = k) (gw_log gw))"

definition shard_ok :: "Sequencer \<Rightarrow> (Seq \<times> CommandKind \<times> Command) list \<Rightarrow> bool" where
  "shard_ok sq xs \<longleftrightarrow> (\<exists>init cur. seq_inv sq init cur \<and> map entry_key (written init cur) = xs) \<and> jw_policy (sq_journal sq) = PerRecord"

definition shards_ok :: "GatewayServer \<Rightarrow> bool" where
  "shards_ok gw \<longleftrightarrow> (\<forall>k<length (gw_shardCtxs gw). shard_ok (sx_sequencer (gw_shardCtxs gw ! k)) (shard_log gw k))"

definition good_disk :: "(nat \<Rightarrow> env) \<Rightarrow> (nat \<Rightarrow> Seq \<Rightarrow> byte list) \<Rightarrow> GatewayServer \<Rightarrow> bool" where
  "good_disk io pads gw \<longleftrightarrow> (\<forall>k n. io k n = Done) \<and> (\<forall>k s. length (pads k s) = 5) \<and> length (gw_log gw) < 10 ^ 16 - 1"

definition kept :: "(nat \<Rightarrow> env) \<Rightarrow> (nat \<Rightarrow> Seq \<Rightarrow> byte list) \<Rightarrow> GatewayServer \<Rightarrow> GatewayServer \<Rightarrow> bool" where
  "kept io pads gw gw' \<longleftrightarrow> length (gw_log gw) \<le> length (gw_log gw') \<and> (good_disk io pads gw' \<longrightarrow> shards_ok gw \<longrightarrow> shards_ok gw')"

lemma kept_refl [simp]: "kept io pads gw gw"
  by (simp add: kept_def)

lemma kept_trans: "kept io pads a b \<Longrightarrow> kept io pads b c \<Longrightarrow> kept io pads a c"
  by (auto simp: kept_def good_disk_def)

text \<open>Changes of the routes are of no interest here.\<close>

definition same_sequencers :: "GatewayServer \<Rightarrow> GatewayServer \<Rightarrow> bool" where
  "same_sequencers gw gw' \<longleftrightarrow> map sx_sequencer (gw_shardCtxs gw') = map sx_sequencer (gw_shardCtxs gw) \<and> gw_log gw' = gw_log gw"

lemma shards_ok_same:
  assumes "same_sequencers gw gw'"
  shows "shards_ok gw' = shards_ok gw"
proof -
  have m: "map sx_sequencer (gw_shardCtxs gw') = map sx_sequencer (gw_shardCtxs gw)" "gw_log gw' = gw_log gw" using assms by (simp_all add: same_sequencers_def)
  have len: "length (gw_shardCtxs gw') = length (gw_shardCtxs gw)" using arg_cong [OF m(1), of length] by simp
  have "sx_sequencer (gw_shardCtxs gw' ! k) = sx_sequencer (gw_shardCtxs gw ! k)" if "k < length (gw_shardCtxs gw)" for k
    using arg_cong [OF m(1), of "\<lambda>xs. xs ! k"] that len by simp
  then show ?thesis using len m(2) by (simp add: shards_ok_def shard_log_def)
qed

lemma kept_same: "same_sequencers gw gw' \<Longrightarrow> kept io pads gw gw'"
  using shards_ok_same [of gw gw'] by (simp add: kept_def) (simp add: same_sequencers_def)

lemma update_sequencers: "k < length ss \<Longrightarrow> sx_sequencer x = sx_sequencer (ss ! k) \<Longrightarrow> map sx_sequencer (ss[k := x]) = map sx_sequencer ss"
  by (metis list_update_id map_update)

lemma routes_sequencers [simp]:
  "k < length (gw_shardCtxs gw) \<Longrightarrow> same_sequencers gw (registerRoute gw k i sid n)" "k < length (gw_shardCtxs gw) \<Longrightarrow> same_sequencers gw (eraseRoute gw k i)"
  by (simp_all add: registerRoute_def eraseRoute_def same_sequencers_def Let_def update_sequencers)

lemma shard_log_length: "length (shard_log gw k) \<le> length (gw_log gw)"
  by (simp add: shard_log_def)

lemma shard_ok_submit:
  assumes ok: "shard_ok sq xs" and fits: "length pad = 5" "cmd_fits cmd" "length xs < 10 ^ 16 - 1" and ts: "trySubmit io pad sq (c_kind cmd) cmd = (r, sq')"
    and io: "\<forall>i. io i = Done"
  shows "ts_outcome r = RingFull \<and> shard_ok sq' xs \<or> ts_outcome r = Sequenced \<and> shard_ok sq' (xs @ [(ts_seq r, c_kind cmd, cmd)])"
proof -
  obtain init cur where inv: "seq_inv sq init cur" and xs: "map entry_key (written init cur) = xs" and pol: "jw_policy (sq_journal sq) = PerRecord"
    using ok by (auto simp: shard_ok_def)
  have n: "int (length (written init cur)) + 1 < 10 ^ 16" using fits(3) xs by auto
  show ?thesis
  proof (cases "ts_outcome r")
    case RingFull
    then show ?thesis using trySubmit_full [OF inv ts RingFull] xs pol by (auto simp: shard_ok_def)
  next
    case DurabilityFailure
    then show ?thesis using trySubmit_done [OF inv io fits(1), of "c_kind cmd" cmd] ts by simp
  next
    case Sequenced
    obtain init1 cur1 e where g: "grown (sq_journal sq) (sq_journal sq') init cur init1 cur1" "e = Entry pad (sq_seq sq + 1) (c_kind cmd) cmd"
      "seq_inv sq' init1 cur1" "written init1 cur1 = written init cur @ [e]" "ts_seq r = sq_seq sq + 1"
      by (rule trySubmit_journaled [OF inv n fits(1,2) ts]) (use Sequenced in auto)
    have "jw_policy (sq_journal sq') = PerRecord" using g(1) pol by (simp add: grown_def same_settings_def)
    moreover have "map entry_key (written init1 cur1) = xs @ [(ts_seq r, c_kind cmd, cmd)]" using g xs by (simp add: entry_key_def)
    ultimately show ?thesis using Sequenced g(3) by (auto simp: shard_ok_def)
  qed
qed

lemma shard_log_logSequenced:
  "shard_log (logSequenced gw sid cs k cmd q) j = shard_log gw j @ (if j = k then [(q, c_kind cmd, cmd)] else [])"
  by (simp add: shard_log_def logSequenced_def)

lemma shardSubmit_kept:
  assumes s: "shardSubmit io pads gw k (c_kind cmd) cmd = (r, gw')" and k: "k < length (gw_shardCtxs gw)" and fits: "cmd_fits cmd"
  shows "ts_outcome r = Sequenced \<Longrightarrow> kept io pads gw (logSequenced gw' sid cs k cmd (ts_seq r))" "ts_outcome r \<noteq> Sequenced \<Longrightarrow> kept io pads gw gw'"
proof -
  let ?ctx = "gw_shardCtxs gw ! k"
  let ?sq = "sx_sequencer ?ctx"
  obtain sq where ts: "trySubmit (io k) (pads k (sq_seq ?sq + 1)) ?sq (c_kind cmd) cmd = (r, sq)" "gw' = gw\<lparr>gw_shardCtxs := (gw_shardCtxs gw)[k := ?ctx\<lparr>sx_sequencer := sq\<rparr>]\<rparr>"
    using s by (auto simp: shardSubmit_def Let_def split: prod.splits)
  have log: "gw_log gw' = gw_log gw" "shard_log gw' = shard_log gw" by (simp_all add: ts(2) shard_log_def fun_eq_iff)
  have sub: "ts_outcome r = RingFull \<and> shard_ok sq (shard_log gw k) \<or> ts_outcome r = Sequenced \<and> shard_ok sq (shard_log gw k @ [(ts_seq r, c_kind cmd, cmd)])"
    if "good_disk io pads gw" "shards_ok gw"
  proof (rule shard_ok_submit [OF _ _ fits _ ts(1)])
    show "shard_ok ?sq (shard_log gw k)" using that(2) k by (simp add: shards_ok_def)
    show "length (pads k (sq_seq ?sq + 1)) = 5" "\<forall>i. io k i = Done" using that(1) by (simp_all add: good_disk_def)
    show "length (shard_log gw k) < 10 ^ 16 - 1" using that(1) shard_log_length [of gw k] unfolding good_disk_def by linarith
  qed
  have seqr: "length (gw_shardCtxs gw') = length (gw_shardCtxs gw)"
      "j < length (gw_shardCtxs gw) \<Longrightarrow> sx_sequencer (gw_shardCtxs gw' ! j) = (if j = k then sq else sx_sequencer (gw_shardCtxs gw ! j))" for j
    using k by (simp_all add: ts(2) nth_list_update)
  have ctxs: "gw_shardCtxs (logSequenced gw' sid cs k cmd (ts_seq r)) = gw_shardCtxs gw'" by (simp add: logSequenced_def)
  show "kept io pads gw (logSequenced gw' sid cs k cmd (ts_seq r))" if sq: "ts_outcome r = Sequenced"
    unfolding kept_def
  proof (intro conjI impI)
    show "length (gw_log gw) \<le> length (gw_log (logSequenced gw' sid cs k cmd (ts_seq r)))" by (simp add: logSequenced_def log)
    assume good: "good_disk io pads (logSequenced gw' sid cs k cmd (ts_seq r))" and ok: "shards_ok gw"
    then have "good_disk io pads gw" by (simp add: good_disk_def logSequenced_def log)
    then have "shard_ok sq (shard_log gw k @ [(ts_seq r, c_kind cmd, cmd)])" using sub ok sq by simp
    then show "shards_ok (logSequenced gw' sid cs k cmd (ts_seq r))"
      using ok unfolding shards_ok_def ctxs shard_log_logSequenced log(2) seqr(1) by (auto simp: seqr(2))
  qed
  show "kept io pads gw gw'" if sq: "ts_outcome r \<noteq> Sequenced"
    unfolding kept_def
  proof (intro conjI impI)
    show "length (gw_log gw) \<le> length (gw_log gw')" by (simp add: log)
    assume good: "good_disk io pads gw'" and ok: "shards_ok gw"
    then have "good_disk io pads gw" by (simp add: good_disk_def log)
    then have "shard_ok sq (shard_log gw k)" using sub ok sq by auto
    then show "shards_ok gw'" using ok unfolding shards_ok_def log(2) seqr(1) by (auto simp: seqr(2))
  qed
qed

text \<open>What a handler of session \<open>sid\<close> may do: its own invariant, and nothing to the others.\<close>

definition handled :: "(nat \<Rightarrow> env) \<Rightarrow> (nat \<Rightarrow> Seq \<Rightarrow> byte list) \<Rightarrow> nat \<Rightarrow> GatewayServer \<Rightarrow> GatewayServer \<times> ClientSession \<Rightarrow> bool" where
  "handled io pads sid gw = (\<lambda>(gw', cs'). same_server gw gw' \<and> client_inv gw' sid cs' \<and> (\<forall>s. s \<noteq> sid \<longrightarrow> log_of gw' s = log_of gw s) \<and>
     kept io pads gw gw')"

text \<open>A command that was accepted: its number is used up, and it is neither sequenced nor waiting yet.\<close>

definition accepted :: "GatewayServer \<Rightarrow> nat \<Rightarrow> ClientSession \<Rightarrow> bool" where
  "accepted gw sid cs \<longleftrightarrow> cs_state cs = Authenticated \<and> \<not> cs_hasPending cs \<and> identity_inv gw sid cs \<and> phase_inv gw sid cs \<and>
     (\<exists>start n. seqs_of gw sid = following start n \<and> cs_lastClientSeq cs = start + of_nat n + 1)"

lemma accepted_sequenced:
  assumes acc: "accepted gw sid cs" and cmd: "c_participant cmd = cs_participantId cs" "cmd_typed gw cmd" and gw': "same_server gw gw'" "gw_log gw' = gw_log gw"
    and kp: "kept io pads gw (logSequenced gw' sid cs k cmd q)"
  shows "handled io pads sid gw (logSequenced gw' sid cs k cmd q, sendNewAckIfApplicable cs cmd q)"
proof -
  obtain start n where n: "seqs_of gw sid = following start n" "cs_lastClientSeq cs = start + of_nat n + 1" using acc by (auto simp: accepted_def)
  let ?gw = "logSequenced gw' sid cs k cmd q"
  have st: "cs_state cs = Authenticated" "\<not> cs_hasPending cs" using acc by (simp_all add: accepted_def)
  have same: "same_server gw ?gw" by (rule same_server_trans [OF gw'(1)]) simp
  have log: "log_of ?gw sid = log_of gw sid @ [(sid, cs_lastClientSeq cs, k, cmd, q)]" using log_of_same [OF gw'(2)] by (simp add: log_of_logSequenced)
  then have "seqs_of ?gw sid = following start (Suc n)" using n by (simp add: seqs_of_def following_Suc algebra_simps)
  then have "numbers_inv ?gw sid cs" unfolding numbers_inv_def using n(2) st by (intro exI [of _ start] exI [of _ "Suc n"]) (simp add: algebra_simps)
  moreover have "identity_inv ?gw sid cs" using acc cmd log same by (auto simp: identity_inv_def accepted_def same_server_def cmd_typed_def checks_for_def)
  moreover have "phase_inv ?gw sid cs" using acc st same_server_length [OF same] same by (auto simp: phase_inv_def accepted_def same_server_def checks_for_def)
  ultimately have "client_inv ?gw sid (sendNewAckIfApplicable cs cmd q)" by (simp add: client_inv_def sendNewAckIfApplicable_def) (simp add: identity_inv_def phase_inv_def numbers_inv_def)
  then show ?thesis using same kp log_of_same [OF gw'(2)] by (simp add: handled_def log_of_logSequenced)
qed

lemma client_inv_same:
  assumes "same_server gw gw'" "gw_log gw' = gw_log gw"
  shows "client_inv gw' sid cs = client_inv gw sid cs" "accepted gw' sid cs = accepted gw sid cs"
  using client_inv_frame [OF assms(1) log_of_same [OF assms(2)]] assms same_server_length [OF assms(1)] log_of_same [OF assms(2), of sid]
  by (simp_all add: accepted_def identity_inv_def phase_inv_def seqs_of_def same_server_def cmd_typed_def checks_for_def)

lemma accepted_pending:
  assumes acc: "accepted gw sid cs" and cmd: "c_participant cmd = cs_participantId cs" "cmd_typed gw cmd" and k: "nat k < length (gw_shardCtxs gw)" and rd: "\<not> cs_reading cs"
  shows "client_inv gw sid (stopReading (cs\<lparr>cs_hasPending := True, cs_pendingKind := c_kind cmd, cs_pendingCmd := cmd, cs_pendingShardIdx := k\<rparr>))"
proof -
  obtain start n where n: "seqs_of gw sid = following start n" "cs_lastClientSeq cs = start + of_nat n + 1" using acc by (auto simp: accepted_def)
  show ?thesis unfolding client_inv_def
  proof (intro conjI)
    let ?cs = "stopReading (cs\<lparr>cs_hasPending := True, cs_pendingKind := c_kind cmd, cs_pendingCmd := cmd, cs_pendingShardIdx := k\<rparr>)"
    show "identity_inv gw sid ?cs" using acc cmd by (auto simp: identity_inv_def accepted_def stopReading_def)
    show "phase_inv gw sid ?cs" using acc k rd by (auto simp: phase_inv_def accepted_def stopReading_def)
    show "numbers_inv gw sid ?cs" unfolding numbers_inv_def using n by (intro exI [of _ start] exI [of _ n]) (simp add: stopReading_def)
  qed
qed

lemma accepted_closed:
  assumes "accepted gw sid cs"
  shows "client_inv gw sid (closeSession (sendFrame cs b))"
proof -
  have "\<not> cs_closed cs" using assms by (auto simp: accepted_def phase_inv_def)
  then show ?thesis using assms unfolding client_inv_defs accepted_def by (auto simp: closeSession_state)
qed

lemma submitOrPend_handled:
  assumes acc: "accepted gw sid cs" and cmd: "c_participant cmd = cs_participantId cs" "cmd_typed gw cmd" and k: "nat k < length (gw_shardCtxs gw)" and rd: "\<not> cs_reading cs"
  shows "handled io pads sid gw (submitOrPend io pads gw sid cs cmd k)"
proof -
  let ?gw1 = "registerRoute gw (nat k) (routedId cmd) sid (cs_lastClientSeq cs)"
  obtain r gw2 where s: "shardSubmit io pads ?gw1 (nat k) (c_kind cmd) cmd = (r, gw2)" by fastforce
  have g1: "same_server gw ?gw1" "gw_log ?gw1 = gw_log gw" using k by simp_all
  have k1: "nat k < length (gw_shardCtxs ?gw1)" using same_server_length [OF g1(1)] k by simp
  have g2: "same_server gw gw2" "gw_log gw2 = gw_log gw"
    using shardSubmit_same [OF s k1] g1 same_server_trans by auto
  have k2: "nat k < length (gw_shardCtxs gw2)" using same_server_length [OF g2(1)] k by simp
  have fits: "cmd_fits cmd" and cmd2: "cmd_typed gw2 cmd" using cmd(2) g2(1) by (simp_all add: cmd_typed_def same_server_def)
  have "kept io pads gw ?gw1" using k by (simp add: kept_same)
  note kp = kept_trans [OF this shardSubmit_kept(1) [OF s k1 fits]] kept_trans [OF this shardSubmit_kept(2) [OF s k1 fits]]
  show ?thesis
  proof (cases "ts_outcome r")
    case Sequenced
    then show ?thesis using accepted_sequenced [OF acc cmd g2 kp(1)] s by (simp add: submitOrPend_def Let_def)
  next
    case RingFull
    have "accepted gw2 sid cs" using acc client_inv_same(2) [OF g2] by simp
    from accepted_pending [OF this cmd(1) cmd2 k2 rd] RingFull g2 kp(2) log_of_same [OF g2(2)] s show ?thesis by (simp add: submitOrPend_def Let_def handled_def)
  next
    case DurabilityFailure
    let ?gw3 = "eraseRoute gw2 (nat k) (routedId cmd)"
    have g3: "same_server gw ?gw3" "gw_log ?gw3 = gw_log gw" using g2 k2 same_server_trans by auto
    have "accepted ?gw3 sid cs" using acc client_inv_same(2) [OF g3] by simp
    have "kept io pads gw ?gw3" by (rule kept_trans [OF kp(2) kept_same]) (use DurabilityFailure k2 in simp_all)
    with accepted_closed [OF \<open>accepted ?gw3 sid cs\<close>] DurabilityFailure g3 log_of_same [OF g3(2)] s show ?thesis
      by (simp add: submitOrPend_def Let_def handled_def sendReject_def)
  qed
qed

section \<open>Handling a message\<close>

lemma handled_refl: "client_inv gw sid cs \<Longrightarrow> handled io pads sid gw (gw, cs)"
  by (simp add: handled_def)

lemma handled_trans: "handled io pads sid gw (gw1, cs1) \<Longrightarrow> handled io pads sid gw1 x \<Longrightarrow> handled io pads sid gw x"
  by (auto simp: handled_def intro: same_server_trans kept_trans)

text \<open>The check of the client's number either uses it up or leaves the session with a reject.\<close>

lemma checkClientSeq_inv:
  assumes "client_inv gw sid cs" "cs_state cs = Authenticated" "\<not> cs_hasPending cs" "checkClientSeq cs n i = (ok, cs')"
  shows "ok \<Longrightarrow> accepted gw sid cs' \<and> cs_participantId cs' = cs_participantId cs \<and> cs_reading cs' = cs_reading cs" "\<not> ok \<Longrightarrow> client_inv gw sid cs'"
proof -
  assume "ok"
  then have n: "n > cs_lastClientSeq cs" "n \<le> cs_lastClientSeq cs + 1" "cs' = cs\<lparr>cs_lastClientSeq := n\<rparr>"
    using assms(4) by (auto simp: checkClientSeq_def split: if_splits)
  have "n = cs_lastClientSeq cs + 1" using n(1,2) by (metis inc_le order_antisym)
  then have eq: "cs_lastClientSeq cs' = cs_lastClientSeq cs + 1" using n(3) by simp
  obtain start k where "seqs_of gw sid = following start k" "cs_lastClientSeq cs = start + of_nat k"
    using assms(1-3) by (auto simp: client_inv_def numbers_inv_def)
  then have "\<exists>start k. seqs_of gw sid = following start k \<and> cs_lastClientSeq cs' = start + of_nat k + 1" using eq by auto
  then show "accepted gw sid cs' \<and> cs_participantId cs' = cs_participantId cs \<and> cs_reading cs' = cs_reading cs"
    using assms(1-3) n(3) by (auto simp: accepted_def client_inv_def identity_inv_def phase_inv_def)
next
  assume "\<not> ok"
  then show "client_inv gw sid cs'" using assms(1,4) client_inv_close [of gw sid] by (auto simp: checkClientSeq_def sendReject_def split: if_splits)
qed

lemmas handle_defs = handleNewOrder_def handleCancel_def handleCancelReplace_def

text \<open>The three handlers share their shape: check the number, find the shard, build the command, submit it.\<close>

definition submitMessage ::
  "(nat \<Rightarrow> env) \<Rightarrow> (nat \<Rightarrow> Seq \<Rightarrow> byte list) \<Rightarrow> GatewayServer \<Rightarrow> nat \<Rightarrow> ClientSession \<Rightarrow> 64 word \<Rightarrow> OrderId \<Rightarrow> InstrumentId \<Rightarrow>
    Command \<Rightarrow> GatewayServer \<times> ClientSession" where
  "submitMessage io pads gw sid cs n oid i cmd =
     (let (ok, cs1) = checkClientSeq cs n oid
      in if \<not> ok then (gw, cs1)
         else
           (let idx = shardIndexFor gw i
            in if idx < 0 then (gw, sendReject cs1 oid EngineReject 0)
               else submitOrPend io pads gw sid cs1 (cmd\<lparr>c_participant := cs_participantId cs1\<rparr>) idx))"

lemma handlers_submit:
  "handleNewOrder io pads gw sid cs no = submitMessage io pads gw sid cs (no_clientSeqNum no) (no_orderId no) (no_instrumentId no)
     (zeroCommand\<lparr>c_id := no_orderId no, c_newId := 0, c_price := no_price no, c_quantity := no_quantity no, c_kind := New, c_side := no_side no, c_type := wireType no\<rparr>)"
  "handleCancel io pads gw sid cs cx = submitMessage io pads gw sid cs (cx_clientSeqNum cx) (cx_orderId cx) (cx_instrumentId cx)
     (zeroCommand\<lparr>c_id := cx_orderId cx, c_kind := Cancel\<rparr>)"
  "handleCancelReplace io pads gw sid cs cr = submitMessage io pads gw sid cs (cr_clientSeqNum cr) (cr_orderId cr) (cr_instrumentId cr)
     (zeroCommand\<lparr>c_id := cr_orderId cr, c_newId := cr_orderId cr, c_price := cr_newPrice cr, c_quantity := cr_newQuantity cr, c_kind := Replace, c_type := Limit\<rparr>)"
  by (simp_all add: handle_defs submitMessage_def zeroCommand_def Let_def case_prod_beta)

lemma submitMessage_handled:
  assumes inv: "server_inv gw" "client_inv gw sid cs" "cs_state cs = Authenticated" "\<not> cs_hasPending cs" "\<not> cs_reading cs"
    and i: "i \<in> set (gw_instruments gw)" and typed: "cmd_typed gw cmd"
  shows "handled io pads sid gw (submitMessage io pads gw sid cs n oid i cmd)"
proof -
  obtain ok cs1 where c: "checkClientSeq cs n oid = (ok, cs1)" by fastforce
  obtain j where j: "shardIndexFor gw i = int j" "j < length (gw_shardCtxs gw)" by (rule shardIndexFor_known [OF inv(1) i])
  note ci = checkClientSeq_inv [OF inv(2-4) c]
  show ?thesis
  proof (cases ok)
    case True
    have acc: "accepted gw sid cs1" "\<not> cs_reading cs1" using ci(1) [OF True] inv(5) by simp_all
    then have "in_i64 (cs_participantId cs1)" by (simp add: accepted_def identity_inv_def)
    then have "cmd_typed gw (cmd\<lparr>c_participant := cs_participantId cs1\<rparr>)" using typed by (simp add: cmd_typed_def cmd_fits_def)
    then have "handled io pads sid gw (submitOrPend io pads gw sid cs1 (cmd\<lparr>c_participant := cs_participantId cs1\<rparr>) (int j))"
      using acc j by (intro submitOrPend_handled) simp_all
    then show ?thesis using c True j by (simp add: submitMessage_def)
  next
    case False
    then show ?thesis using c ci(2) handled_refl by (simp add: submitMessage_def)
  qed
qed

lemma handlers_handled:
  assumes inv: "server_inv gw" "client_inv gw sid cs" "cs_state cs = Authenticated" "\<not> cs_hasPending cs" "\<not> cs_reading cs" and d: "checks_for gw d"
  shows "msg_ok d (DNewOrder no) \<Longrightarrow> handled io pads sid gw (handleNewOrder io pads gw sid cs no)"
    "msg_ok d (DCancel cx) \<Longrightarrow> handled io pads sid gw (handleCancel io pads gw sid cs cx)"
    "msg_ok d (DCancelReplace cr) \<Longrightarrow> handled io pads sid gw (handleCancelReplace io pads gw sid cs cr)"
proof -
  have zero: "in_i64 0" by (simp add: in_i64_def)
  note sub = submitMessage_handled [OF inv, of _ _ io pads]
  note typed = cmd_typed_def cmd_fits_def zeroCommand_def checks_for_def price_ok_def wireType_def
  show "handled io pads sid gw (handleNewOrder io pads gw sid cs no)" if "msg_ok d (DNewOrder no)"
    unfolding handlers_submit by (rule sub) (use that d zero in \<open>auto simp: typed\<close>)
  show "handled io pads sid gw (handleCancel io pads gw sid cs cx)" if "msg_ok d (DCancel cx)"
    unfolding handlers_submit by (rule sub) (use that d zero in \<open>simp_all add: typed\<close>)
  show "handled io pads sid gw (handleCancelReplace io pads gw sid cs cr)" if "msg_ok d (DCancelReplace cr)"
    unfolding handlers_submit by (rule sub) (use that d zero in \<open>simp_all add: typed\<close>)
qed

text \<open>A session that may take the next frame.\<close>

definition may_read :: "GatewayServer \<Rightarrow> nat \<Rightarrow> ClientSession \<Rightarrow> bool" where
  "may_read gw sid cs \<longleftrightarrow> server_inv gw \<and> client_inv gw sid cs \<and> \<not> cs_closed cs \<and> \<not> cs_readSuspended cs \<and> \<not> cs_reading cs"

lemma may_read_pending: "may_read gw sid cs \<Longrightarrow> \<not> cs_hasPending cs"
  by (auto simp: may_read_def client_inv_def phase_inv_def)

lemma fd_next_checks: "checks_for gw (snd (fd_next d)) = checks_for gw d"
  by (simp add: checks_for_def fd_next_def fail_def fd_consume_def Let_def split: sum.splits option.splits)

lemma client_inv_decoder:
  "checks_for gw d = checks_for gw (cs_decoder cs) \<Longrightarrow> client_inv gw sid (cs\<lparr>cs_decoder := d\<rparr>) = client_inv gw sid cs"
  by (simp add: client_inv_defs)

lemma authenticate_known: "authenticate creds i token \<Longrightarrow> creds i \<noteq> None"
  by (simp add: authenticate_def Let_def)

lemma handleLogin_inv:
  assumes "may_read gw sid cs" "cs_state cs = AwaitingLogin" "in_i64 (lg_participantId m)"
  shows "client_inv gw sid (handleLogin gw cs m)"
proof (cases "authenticate (gw_auth gw) (lg_participantId m) (lg_token m)")
  case True
  let ?cs = "cs\<lparr>cs_participantId := lg_participantId m, cs_lastClientSeq := lg_clientSeqNum m, cs_state := Authenticated, cs_authTimer := False\<rparr>"
  have log: "log_of gw sid = []" "\<not> cs_hasPending cs" using assms by (simp_all add: may_read_def client_inv_def phase_inv_def)
  have "numbers_inv gw sid ?cs" unfolding numbers_inv_def
    using log by (intro exI [of _ "lg_clientSeqNum m"] exI [of _ 0]) (simp add: seqs_of_def following_def)
  moreover have "identity_inv gw sid ?cs" using log authenticate_known [OF True] assms(3) by (simp add: identity_inv_def)
  moreover have "phase_inv gw sid ?cs" using assms log by (simp add: may_read_def client_inv_def phase_inv_def)
  ultimately show ?thesis using True by (simp add: handleLogin_def Let_def) (simp add: client_inv_def)
next
  case False
  then show ?thesis using assms client_inv_close [of gw sid "sendLoginReject cs AuthFailed"] by (simp add: handleLogin_def may_read_def sendLoginReject_def)
qed

lemma handleHeartbeat_inv [simp]: "client_inv gw sid (handleHeartbeat cs) = client_inv gw sid cs"
  by (simp add: handleHeartbeat_def client_inv_defs)

lemma authenticatedStep_handled:
  assumes inv: "server_inv gw" "client_inv gw sid cs" "cs_state cs = Authenticated" "\<not> cs_hasPending cs" "\<not> cs_reading cs"
    and msg: "msg_ok d msg" "checks_for gw d" and st: "authenticatedStep io pads gw sid cs msg = (go, gw', cs')"
  shows "handled io pads sid gw (gw', cs')"
proof -
  note hd = handlers_handled [OF inv msg(2), of _ io pads]
  have close: "handled io pads sid gw (gw, closeSession cs)" "handled io pads sid gw (gw, closeSession (sendLoginReject cs AlreadyAuthenticated))"
    using client_inv_close inv(2) by (auto simp: sendLoginReject_def intro!: handled_refl)
  have "handled io pads sid gw (snd (authenticatedStep io pads gw sid cs msg))"
    using msg(1) hd close inv(2) by (cases msg) (simp_all add: authenticatedStep_def handled_refl Let_def case_prod_beta del: msg_ok.simps)
  then show ?thesis using st by simp
qed

lemma awaitingStep_inv:
  assumes "may_read gw sid cs" "cs_state cs = AwaitingLogin" "awaitingStep gw cs msg = (go, cs')" "msg_ok d msg"
  shows "client_inv gw sid cs'"
proof -
  have "client_inv gw sid cs" using assms(1) by (simp add: may_read_def)
  then show ?thesis using assms handleLogin_inv [OF assms(1,2)] client_inv_close [of gw sid "sendLoginReject cs NotAuthenticated"]
    by (cases msg) (auto simp: awaitingStep_def Let_def sendLoginReject_def)
qed

lemma decodedStep_handled:
  assumes rdy: "may_read gw sid cs" and st: "decodedStep io pads gw sid cs = (go, gw', cs')"
  shows "handled io pads sid gw (gw', cs')"
proof -
  obtain res d where n: "fd_next (cs_decoder cs) = (res, d)" by fastforce
  let ?cs = "cs\<lparr>cs_decoder := d\<rparr>"
  have fi: "checks_for gw d = checks_for gw (cs_decoder cs)" using fd_next_checks [of gw "cs_decoder cs"] n by simp
  have inv: "server_inv gw" "client_inv gw sid ?cs" "\<not> cs_hasPending ?cs" "\<not> cs_reading ?cs" "\<not> cs_closed ?cs"
    using rdy may_read_pending [OF rdy] client_inv_decoder [OF fi] by (simp_all add: may_read_def)
  show ?thesis
  proof (cases res)
    case (ROk msg)
    have ok: "msg_ok (cs_decoder cs) msg" using fd_next_sound n ROk by blast
    have ins: "checks_for gw (cs_decoder cs)" using rdy by (simp add: may_read_def client_inv_def phase_inv_def)
    show ?thesis
    proof (cases "cs_state cs = AwaitingLogin")
      case True
      have "may_read gw sid ?cs" using rdy inv(2) by (simp add: may_read_def)
      then show ?thesis using st n ROk True awaitingStep_inv [of gw sid ?cs msg _ _ "cs_decoder cs"] ok
        by (auto simp: decodedStep_def intro!: handled_refl split: prod.splits)
    next
      case False
      then have auth: "cs_state ?cs = Authenticated" using rdy by (cases "cs_state cs") (auto simp: may_read_def client_inv_def phase_inv_def)
      from False st n ROk have "authenticatedStep io pads gw sid ?cs msg = (go, gw', cs')" by (simp add: decodedStep_def)
      then show ?thesis by (rule authenticatedStep_handled [OF inv(1,2) auth inv(3,4) ok ins])
    qed
  next
    case RIncomplete
    then show ?thesis using st n inv(2) handled_refl by (simp add: decodedStep_def)
  next
    case (RInvalid r)
    then show ?thesis using st n client_inv_close [OF inv(2)] handled_refl by (simp add: decodedStep_def)
  qed
qed

lemma submitOrPend_reading: "cs_reading (snd (submitOrPend io pads gw sid cs cmd k)) = cs_reading cs"
  by (simp add: submitOrPend_def Let_def session_defs case_prod_beta split: Outcome.split)

lemma checkClientSeq_reading: "cs_reading (snd (checkClientSeq cs n i)) = cs_reading cs"
  by (simp add: checkClientSeq_def session_defs)

lemma handle_reading:
  "cs_reading (snd (handleNewOrder io pads gw sid cs no)) = cs_reading cs"
  "cs_reading (snd (handleCancel io pads gw sid cs cx)) = cs_reading cs"
  "cs_reading (snd (handleCancelReplace io pads gw sid cs cr)) = cs_reading cs"
  by (simp_all add: handle_defs Let_def case_prod_beta submitOrPend_reading checkClientSeq_reading session_defs)

lemma decodedStep_reading:
  assumes "decodedStep io pads gw sid cs = (go, gw', cs')"
  shows "cs_reading cs' = cs_reading cs"
proof -
  have "cs_reading (snd (snd (decodedStep io pads gw sid cs))) = cs_reading cs"
    by (simp add: decodedStep_def awaitingStep_def authenticatedStep_def handleLogin_def Let_def case_prod_beta session_defs handle_reading
        split: Result.split DecodedMessage.split)
  then show ?thesis using assms by simp
qed

lemma decodedStep_suspended:
  assumes "decodedStep io pads gw sid cs = (True, gw', cs')" "\<not> cs_readSuspended cs"
  shows "\<not> cs_closed cs'" "\<not> cs_readSuspended cs'"
proof -
  have "fst (decodedStep io pads gw sid cs) \<Longrightarrow> \<not> cs_closed (snd (snd (decodedStep io pads gw sid cs))) \<and> \<not> cs_readSuspended (snd (snd (decodedStep io pads gw sid cs)))"
    using assms(2) by (auto simp: decodedStep_def awaitingStep_def authenticatedStep_def handleLogin_def Let_def case_prod_beta session_defs
        split: Result.splits DecodedMessage.splits if_splits)
  then show "\<not> cs_closed cs'" "\<not> cs_readSuspended cs'" using assms(1) by simp_all
qed

lemma decodedStep_go:
  assumes rdy: "may_read gw sid cs" and st: "decodedStep io pads gw sid cs = (True, gw', cs')"
  shows "may_read gw' sid cs'"
  using decodedStep_handled [OF rdy st] decodedStep_reading [OF st] decodedStep_suspended [OF st] server_inv_frame [of gw gw'] rdy
  by (simp add: may_read_def handled_def)

lemma processDecoded_handled: "may_read gw sid cs \<Longrightarrow> handled io pads sid gw (processDecoded io pads gw sid cs)"
proof (induction io pads gw sid cs rule: processDecoded.induct)
  case (1 io pads gw sid cs)
  obtain go gw1 cs1 where s: "decodedStep io pads gw sid cs = (go, gw1, cs1)" by (metis prod_cases3)
  note h = decodedStep_handled [OF "1.prems" s]
  show ?case
  proof (cases go)
    case True
    have "handled io pads sid gw1 (processDecoded io pads gw1 sid cs1)" using "1.IH" [OF s [symmetric] refl refl] True decodedStep_go [OF "1.prems"] s by simp
    from handled_trans [OF h this] True s show ?thesis by (subst processDecoded.simps) simp
  next
    case False
    then show ?thesis using h s by (subst processDecoded.simps) simp
  qed
qed

section \<open>The other handlers\<close>

lemma processDecoded_reading:
  "cs_reading (snd (processDecoded io pads gw sid cs)) = cs_reading cs"
proof (induction io pads gw sid cs rule: processDecoded.induct)
  case (1 io pads gw sid cs)
  obtain go gw1 cs1 where s: "decodedStep io pads gw sid cs = (go, gw1, cs1)" by (metis prod_cases3)
  show ?case using "1.IH" [OF s [symmetric] refl refl] s decodedStep_reading [OF s] by (subst processDecoded.simps) auto
qed

lemma doRead_inv: "client_inv gw sid cs \<Longrightarrow> client_inv gw sid (doRead cs)"
  by (auto simp: doRead_def client_inv_defs)

lemma onRead_handled:
  assumes "server_inv gw" "client_inv gw sid cs" "\<not> cs_closed cs" "\<not> cs_readSuspended cs" "\<not> cs_reading cs"
  shows "handled io pads sid gw (onRead io pads gw sid cs data)"
proof -
  obtain fed d where f: "feed (cs_decoder cs) data = (fed, d)" by fastforce
  let ?cs = "cs\<lparr>cs_missedHeartbeats := 0, cs_decoder := d\<rparr>"
  have fi: "checks_for gw d = checks_for gw (cs_decoder cs)" using f by (auto simp: feed_def checks_for_def split: if_splits)
  then have inv: "client_inv gw sid ?cs" using assms(2) by (simp add: client_inv_defs)
  show ?thesis
  proof (cases fed)
    case True
    obtain gw1 cs2 where p: "processDecoded io pads gw sid ?cs = (gw1, cs2)" by fastforce
    have "may_read gw sid ?cs" using assms inv by (simp add: may_read_def)
    from processDecoded_handled [OF this, of io pads] p have "handled io pads sid gw (gw1, cs2)" by simp
    then show ?thesis using f True p doRead_inv [of gw1 sid cs2] by (auto simp: onRead_def handled_def)
  next
    case False
    then show ?thesis using f client_inv_close [OF inv] by (simp add: onRead_def handled_refl)
  qed
qed

lemma sendFrame_resumed: "(sendFrame cs b)\<lparr>cs_readSuspended := x\<rparr> = sendFrame (cs\<lparr>cs_readSuspended := x\<rparr>) b"
  by (cases cs) (simp add: sendFrame_def doWrite_def Let_def)

lemma retryPending_handled:
  assumes "client_inv gw sid cs"
  shows "handled io pads sid gw (retryPending io pads gw sid cs)"
proof (cases "cs_hasPending cs \<and> \<not> cs_closed cs")
  case True
  let ?k = "nat (cs_pendingShardIdx cs)" and ?cs = "cs\<lparr>cs_hasPending := False\<rparr>" and ?cmd = "cs_pendingCmd cs"
  have pend: "?k < length (gw_shardCtxs gw)" "cs_readSuspended cs" "\<not> cs_reading cs" "cs_pendingKind cs = c_kind ?cmd" "c_participant ?cmd = cs_participantId cs"
    "cs_state cs = Authenticated" "gw_auth gw (cs_participantId cs) \<noteq> None"
    using assms True by (cases "cs_state cs"; auto simp: client_inv_def phase_inv_def identity_inv_def)+
  obtain start n where n: "seqs_of gw sid = following start n" "cs_lastClientSeq cs = start + of_nat n + 1"
    using assms pend(6) True by (auto simp: client_inv_def numbers_inv_def)
  obtain r gw1 where s: "shardSubmit io pads gw ?k (cs_pendingKind cs) ?cmd = (r, gw1)" by fastforce
  note g1 = shardSubmit_same [OF s pend(1)]
  have fits: "cmd_typed gw ?cmd" "cmd_fits ?cmd" using assms True by (simp_all add: client_inv_def identity_inv_def) (simp add: cmd_typed_def)
  note kp = shardSubmit_kept [OF s [unfolded pend(4)] pend(1) fits(2)]
  have len: "?k < length (gw_shardCtxs gw1)" using same_server_length [OF g1(2)] pend(1) by simp
  show ?thesis
  proof (cases "ts_outcome r")
    case Sequenced
    have acc: "accepted gw sid (?cs\<lparr>cs_readSuspended := False\<rparr>)"
      using assms True n pend unfolding accepted_def by (auto simp: client_inv_def identity_inv_def phase_inv_def)
    have "handled io pads sid gw (logSequenced gw1 sid (?cs\<lparr>cs_readSuspended := False\<rparr>) ?k ?cmd (ts_seq r), sendNewAckIfApplicable (?cs\<lparr>cs_readSuspended := False\<rparr>) ?cmd (ts_seq r))"
      by (rule accepted_sequenced [OF acc _ fits(1) g1(2,1) kp(1)]) (use pend Sequenced in simp_all)
    moreover have "resumeReading (sendNewAckIfApplicable ?cs ?cmd (ts_seq r)) = doRead (sendNewAckIfApplicable (?cs\<lparr>cs_readSuspended := False\<rparr>) ?cmd (ts_seq r))"
      using True pend(2) by (simp add: resumeReading_def sendNewAckIfApplicable_def sendFrame_resumed)
    moreover have "logSequenced gw1 sid (?cs\<lparr>cs_readSuspended := False\<rparr>) ?k ?cmd (ts_seq r) = logSequenced gw1 sid cs ?k ?cmd (ts_seq r)"
      by (simp add: logSequenced_def)
    ultimately show ?thesis using True s Sequenced doRead_inv by (auto simp: retryPending_def handled_def)
  next
    case RingFull
    then show ?thesis using True s assms client_inv_same(1) [OF g1(2,1)] g1 kp(2) log_of_same [OF g1(1)] by (simp add: retryPending_def handled_def)
  next
    case DurabilityFailure
    let ?gw2 = "eraseRoute gw1 ?k (routedId ?cmd)"
    have g2: "same_server gw ?gw2" "gw_log ?gw2 = gw_log gw" using g1 len same_server_trans by auto
    have "client_inv ?gw2 sid (closeSession (sendFrame ?cs b))" for b
      unfolding client_inv_same(1) [OF g2] using assms True n by (auto simp: client_inv_defs closeSession_state)
    moreover have "kept io pads gw ?gw2" by (rule kept_trans [OF kp(2) kept_same]) (use DurabilityFailure len in simp_all)
    ultimately show ?thesis using True s DurabilityFailure g2 log_of_same [OF g2(2)] by (simp add: retryPending_def handled_def sendReject_def)
  qed
qed (use assms in \<open>auto simp: retryPending_def handled_refl\<close>)

section \<open>Reachable gateways\<close>

definition gw_inv :: "GatewayServer \<Rightarrow> bool" where
  "gw_inv gw \<longleftrightarrow> server_inv gw \<and> (\<forall>i<length (gw_sessions gw). client_inv gw i (gw_sessions gw ! i)) \<and> (\<forall>e \<in> set (gw_log gw). fst e < length (gw_sessions gw))"

lemma client_inv_sessions [simp]: "client_inv (gw\<lparr>gw_sessions := ss\<rparr>) i cs = client_inv gw i cs"
  "client_inv (gw\<lparr>gw_posted := ps\<rparr>) i cs = client_inv gw i cs"
  by (simp_all add: client_inv_defs seqs_of_def log_of_def cmd_typed_def checks_for_def)

lemma server_inv_sessions [simp]: "server_inv (gw\<lparr>gw_sessions := ss\<rparr>) = server_inv gw" "server_inv (gw\<lparr>gw_posted := ps\<rparr>) = server_inv gw"
  by (simp_all add: server_inv_def)

lemma put_inv:
  assumes inv: "gw_inv gw" and h: "handled io pads sid gw (gw', cs')" and sid: "sid < length (gw_sessions gw)"
  shows "gw_inv (putSession sid (gw', cs'))" "length (gw_sessions (putSession sid (gw', cs'))) = length (gw_sessions gw)"
proof -
  have ss: "gw_sessions gw' = gw_sessions gw" using h by (simp add: handled_def same_server_def)
  have same: "same_server gw gw'" using h by (simp add: handled_def)
  have "client_inv gw' i ((gw_sessions gw)[sid := cs'] ! i)" if "i < length (gw_sessions gw)" for i
    using that inv h client_inv_frame [OF same, of i] by (cases "i = sid") (simp_all add: handled_def gw_inv_def)
  moreover have "fst e < length (gw_sessions gw)" if "e \<in> set (gw_log gw')" for e
  proof (cases "fst e = sid")
    case False
    have "e \<in> set (log_of gw' (fst e))" using that by (simp add: log_of_def)
    moreover have "log_of gw' (fst e) = log_of gw (fst e)" using h False by (simp add: handled_def)
    ultimately have "e \<in> set (log_of gw (fst e))" by simp
    then have "e \<in> set (gw_log gw)" by (simp add: log_of_def)
    then show ?thesis using inv by (simp add: gw_inv_def)
  qed (use sid in simp)
  ultimately show "gw_inv (putSession sid (gw', cs'))" "length (gw_sessions (putSession sid (gw', cs'))) = length (gw_sessions gw)"
    using inv server_inv_frame [OF same] ss by (simp_all add: gw_inv_def putSession_def)
qed

lemma put_kept: "handled io pads sid gw x \<Longrightarrow> kept io pads gw (putSession sid x)"
  by (cases x) (simp add: handled_def putSession_def kept_def good_disk_def shards_ok_def shard_log_def)

lemma gw_inv_same:
  assumes "gw_inv gw" "same_server gw gw'" "gw_log gw' = gw_log gw"
  shows "gw_inv gw'"
  using assms server_inv_frame [OF assms(2)] client_inv_same(1) [OF assms(2,3)] by (simp add: gw_inv_def) (simp add: same_server_def)

lemma same_sequencers_trans: "same_sequencers a b \<Longrightarrow> same_sequencers b c \<Longrightarrow> same_sequencers a c"
  by (simp add: same_sequencers_def)

definition same_state :: "GatewayServer \<Rightarrow> GatewayServer \<Rightarrow> bool" where
  "same_state gw gw' \<longleftrightarrow> same_server gw gw' \<and> same_sequencers gw gw'"

lemma same_state_trans: "same_state a b \<Longrightarrow> same_state b c \<Longrightarrow> same_state a c"
  using same_server_trans same_sequencers_trans by (auto simp: same_state_def)

lemma same_state_refl [simp]: "same_state gw gw"
  by (simp add: same_state_def same_sequencers_def)

lemma same_state_length: "same_state gw gw' \<Longrightarrow> length (gw_shardCtxs gw') = length (gw_shardCtxs gw)"
  using same_server_length by (auto simp: same_state_def)

text \<open>The router touches routes, its counters and the posted functions.\<close>

lemma route_parts:
  assumes "k < length (gw_shardCtxs gw)"
  shows "same_state gw (dropRoute gw k)" "same_state gw (postFrame gw sid data)" "same_state gw (eraseRoute gw k i)"
  using assms by (simp_all add: same_state_def dropRoute_def postFrame_def Let_def same_server_def same_sequencers_def update_ids update_sequencers)
    (simp_all add: eraseRoute_def Let_def update_ids update_sequencers)

lemma route_reports:
  assumes "k < length (gw_shardCtxs gw)"
  shows "same_state gw (routeExecReport expired gw k i t a b p x q)" "same_state gw (routeReject expired gw k i rs q)"
proof -
  show "same_state gw (routeExecReport expired gw k i t a b p x q)" using route_parts [OF assms] by (simp add: routeExecReport_def split: option.split)
  have e: "same_state gw (eraseRoute gw k i)" by (rule route_parts(3) [OF assms])
  then have "k < length (gw_shardCtxs (eraseRoute gw k i))" using same_state_length assms by simp
  note after = route_parts [OF this]
  show "same_state gw (routeReject expired gw k i rs q)"
    using route_parts(1) [OF assms] same_state_trans [OF e after(1)] same_state_trans [OF e after(2)] by (simp add: routeReject_def Let_def split: option.split)
qed

lemma route_same:
  assumes "k < length (gw_shardCtxs gw)"
  shows "same_state gw (routeOne expired k gw ev)"
proof (cases "e_payload ev")
  case (PTrade t)
  let ?g = "routeExecReport expired gw k (t_aggressorId t) Fill (t_quantity t) 0 (t_price t) (t_id t) (e_globalSeq ev)"
  have g: "same_state gw ?g" by (rule route_reports(1) [OF assms])
  then have "k < length (gw_shardCtxs ?g)" using same_state_length assms by simp
  from same_state_trans [OF g route_reports(1) [OF this]] show ?thesis by (simp add: routeOne_def PTrade Let_def)
qed (use route_reports [OF assms] in \<open>simp_all add: routeOne_def\<close>)

lemma routes_all: "k < length (gw_shardCtxs gw) \<Longrightarrow> same_state gw (foldl (routeOne expired k) gw evs)"
proof (induction evs arbitrary: gw)
  case (Cons ev evs)
  note r = route_same [OF Cons.prems, of expired ev]
  have "k < length (gw_shardCtxs (routeOne expired k gw ev))" using same_state_length [OF r] Cons.prems by simp
  from Cons.IH [OF this] same_state_trans [OF r] show ?case by simp
qed simp

lemma retryOne_inv:
  assumes "gw_inv gw" "sid < length (gw_sessions gw)"
  shows "gw_inv (retryOne io pads gw sid) \<and> length (gw_sessions (retryOne io pads gw sid)) = length (gw_sessions gw) \<and> kept io pads gw (retryOne io pads gw sid)"
proof -
  let ?cs = "gw_sessions gw ! sid"
  obtain gw' cs' where r: "retryPending io pads gw sid ?cs = (gw', cs')" by fastforce
  have "client_inv gw sid ?cs" using assms by (simp add: gw_inv_def)
  from retryPending_handled [OF this, of io pads] r have "handled io pads sid gw (gw', cs')" by simp
  from put_inv [OF assms(1) this assms(2)] put_kept [OF this] r assms(1) show ?thesis by (simp add: retryOne_def Let_def)
qed

lemma retryAllPending_inv:
  assumes "gw_inv gw"
  shows "gw_inv (retryAllPending io pads gw) \<and> kept io pads gw (retryAllPending io pads gw)"
proof -
  have "gw_inv g \<Longrightarrow> \<forall>i \<in> set is. i < length (gw_sessions g) \<Longrightarrow> gw_inv (foldl (retryOne io pads) g is) \<and> kept io pads g (foldl (retryOne io pads) g is)" for g "is"
  proof (induction "is" arbitrary: g)
    case (Cons i "is")
    then show ?case using retryOne_inv [of g i io pads] by (auto intro: kept_trans)
  qed simp
  then show ?thesis using assms by (simp add: retryAllPending_def)
qed

lemma session_only:
  assumes "gw_inv gw" "sid < length (gw_sessions gw)" "client_inv gw sid (gw_sessions gw ! sid) \<Longrightarrow> client_inv gw sid cs'"
  shows "gw_inv (putSession sid (gw, cs')) \<and> kept io pads gw (putSession sid (gw, cs'))"
proof -
  have h: "handled io pads sid gw (gw, cs')" using assms by (simp add: handled_refl gw_inv_def)
  show ?thesis using put_inv(1) [OF assms(1) h assms(2)] put_kept [OF h] by simp
qed

lemma timers_inv:
  "client_inv gw sid cs \<Longrightarrow> client_inv gw sid (onAuthTimeout (cs\<lparr>cs_authTimer := False\<rparr>))"
  "client_inv gw sid cs \<Longrightarrow> client_inv gw sid (onHeartbeatTimer (cs\<lparr>cs_heartbeatTimer := False\<rparr>))"
  "client_inv gw sid cs \<Longrightarrow> client_inv gw sid (onWritten cs failed)"
  "client_inv gw sid cs \<Longrightarrow> client_inv gw sid (closeSession (cs\<lparr>cs_reading := False\<rparr>))"
proof -
  assume inv: "client_inv gw sid cs"
  have same: "client_inv gw sid (cs\<lparr>cs_authTimer := False\<rparr>)" "client_inv gw sid (cs\<lparr>cs_reading := False\<rparr>)"
    "client_inv gw sid (cs\<lparr>cs_heartbeatTimer := False\<rparr>)" "client_inv gw sid (cs\<lparr>cs_heartbeatTimer := False, cs_missedHeartbeats := n\<rparr>)" for n
    using inv by (simp_all add: client_inv_defs)
  show "client_inv gw sid (onAuthTimeout (cs\<lparr>cs_authTimer := False\<rparr>))"
    using same(1) client_inv_close by (simp add: onAuthTimeout_def)
  have arm: "client_inv gw sid (armHeartbeatTimer c) = client_inv gw sid c" for c by (simp add: armHeartbeatTimer_def client_inv_defs)
  show "client_inv gw sid (onHeartbeatTimer (cs\<lparr>cs_heartbeatTimer := False\<rparr>))"
    using same(3,4) client_inv_close by (simp add: onHeartbeatTimer_def arm Let_def)
  show "client_inv gw sid (onWritten cs failed)"
    using inv client_inv_close [OF inv] by (simp add: onWritten_def doWrite_def) (simp add: client_inv_defs)
  show "client_inv gw sid (closeSession (cs\<lparr>cs_reading := False\<rparr>))" by (rule client_inv_close [OF same(2)])
qed

lemma doAccept_inv:
  assumes "gw_inv gw"
  shows "gw_inv (doAccept gw)"
proof -
  let ?cs = "session_start (newClientSession (gw_instruments gw) (gw_minPrice gw) (gw_maxPrice gw))" and ?n = "length (gw_sessions gw)"
  have log: "log_of gw ?n = []" using assms by (auto simp: log_of_def gw_inv_def filter_empty_conv)
  have "numbers_inv gw ?n ?cs" unfolding numbers_inv_def using log
    by (intro exI [of _ 0] exI [of _ 0])
      (simp add: seqs_of_def following_def session_start_def doRead_def armHeartbeatTimer_def armAuthTimeout_def newClientSession_def)
  then have "client_inv gw ?n ?cs" using log
    by (simp add: client_inv_def identity_inv_def phase_inv_def session_start_def doRead_def armHeartbeatTimer_def armAuthTimeout_def newClientSession_def
        newFrameDecoder_def in_i64_def checks_for_def)
  then have "client_inv gw i ((gw_sessions gw @ [?cs]) ! i)" if "i < Suc ?n" for i
    using that assms by (cases "i = ?n") (simp_all add: nth_append gw_inv_def)
  then show ?thesis using assms by (auto simp: doAccept_def gw_inv_def less_Suc_eq)
qed

lemma takeCommand_kept:
  assumes k: "k < length (gw_shardCtxs gw)"
  shows "kept io pads gw (takeCommand gw k)"
proof -
  let ?sq = "sx_sequencer (gw_shardCtxs gw ! k)"
  have "shard_ok (?sq\<lparr>sq_ring := snd (sr_pop (sq_ring ?sq))\<rparr>) xs" if ok: "shard_ok ?sq xs" for xs
  proof -
    obtain init cur where inv: "seq_inv ?sq init cur" "map entry_key (written init cur) = xs" "jw_policy (sq_journal ?sq) = PerRecord"
      using ok by (auto simp: shard_ok_def)
    have "sr_inv (sq_ring ?sq)" using inv(1) by (simp add: seq_inv_def)
    then have "sr_inv (snd (sr_pop (sq_ring ?sq)))" by (cases rule: sr.pop_cases) simp_all
    then have "seq_inv (?sq\<lparr>sq_ring := snd (sr_pop (sq_ring ?sq))\<rparr>) init cur" using inv(1) by (simp add: seq_inv_def)
    then show ?thesis using inv(2,3) by (auto simp: shard_ok_def)
  qed
  then show ?thesis using k by (auto simp: kept_def takeCommand_def Let_def shards_ok_def shard_log_def nth_list_update)
qed

lemma gw_step_inv: "gw_step io pads gw gw' \<Longrightarrow> gw_inv gw \<Longrightarrow> gw_inv gw' \<and> kept io pads gw gw'"
proof (induction rule: gw_step.induct)
  case (accept gw)
  have "kept io pads gw (doAccept gw)" by (simp add: doAccept_def kept_def shards_ok_def shard_log_def)
  then show ?case using doAccept_inv [OF accept] by simp
next
  case (read sid gw data)
  let ?cs = "(gw_sessions gw ! sid)\<lparr>cs_reading := False\<rparr>"
  have inv: "client_inv gw sid (gw_sessions gw ! sid)" using read by (simp add: gw_inv_def)
  then have "client_inv gw sid ?cs" "\<not> cs_readSuspended ?cs" using read(2,3) by (auto simp: client_inv_defs)
  then have h: "handled io pads sid gw (onRead io pads gw sid ?cs data)" using read by (intro onRead_handled) (simp_all add: gw_inv_def)
  then show ?case using put_inv(1) [OF read.prems _ read(1)] put_kept [OF h] by (cases "onRead io pads gw sid ?cs data") auto
next
  case (read_error sid gw)
  show ?case by (rule session_only [OF read_error.prems read_error(1)]) (rule timers_inv(4))
next
  case (auth_timeout sid gw)
  show ?case by (rule session_only [OF auth_timeout.prems auth_timeout(1)]) (rule timers_inv(1))
next
  case (heartbeat sid gw)
  show ?case by (rule session_only [OF heartbeat.prems heartbeat(1)]) (rule timers_inv(2))
next
  case (written sid gw failed)
  show ?case by (rule session_only [OF written.prems written(1)]) (rule timers_inv(3))
next
  case (run gw p ps)
  let ?gw = "gw\<lparr>gw_posted := ps\<rparr>"
  have inv: "gw_inv ?gw" "kept io pads gw ?gw" using run.prems by (simp_all add: gw_inv_def kept_def shards_ok_def shard_log_def)
  have "gw_inv (runPosted io pads ?gw p) \<and> kept io pads ?gw (runPosted io pads ?gw p)"
  proof (cases p)
    case (PostFrame sid data)
    show ?thesis
    proof (cases "sid < length (gw_sessions gw)")
      case True
      then show ?thesis using PostFrame session_only [OF inv(1), of sid] by simp
    next
      case False
      then show ?thesis using PostFrame inv by (simp add: putSession_def list_update_beyond gw_inv_def kept_def shards_ok_def shard_log_def)
    qed
  next
    case PostRetry
    then show ?thesis using retryAllPending_inv [OF inv(1)] by simp
  qed
  then show ?case using kept_trans [OF inv(2)] by blast
next
  case (route k gw expired evs)
  let ?g = "foldl (routeOne expired k) gw evs"
  have r: "same_server gw ?g" "same_sequencers gw ?g" "gw_log ?g = gw_log gw" using routes_all [OF route(1)] by (simp_all add: same_state_def same_sequencers_def)
  have "same_sequencers gw (routerTurn expired k gw evs)" using r(2) by (simp add: routerTurn_def Let_def same_sequencers_def)
  from kept_same [OF this] gw_inv_same [OF route.prems r(1,3)] route.prems show ?case
    by (cases "evs = []") (simp_all add: routerTurn_def Let_def gw_inv_def)
next
  case (take k gw)
  have "gw_inv (takeCommand gw k)"
    by (rule gw_inv_same [OF take.prems]) (use take(1) in \<open>simp_all add: takeCommand_def Let_def same_server_def update_ids\<close>)
  then show ?case using takeCommand_kept [OF take(1)] by simp
qed

lemma gw_reach_inv:
  assumes "(gw_step io pads)\<^sup>*\<^sup>* gw gw'" "gw_inv gw"
  shows "gw_inv gw' \<and> kept io pads gw gw'"
  using assms by (induction rule: rtranclp_induct) (auto dest: gw_step_inv intro: kept_trans)

lemma newGatewayServer_inv: "gw_inv (newGatewayServer shards auth minPrice maxPrice)"
  using instrumentSet_sub [of "[]" shards] by (simp add: gw_inv_def newGatewayServer_def server_inv_def instrumentSet_def)

text \<open>The credentials, the price band and the instruments of the shards are never changed.\<close>

definition settings :: "GatewayServer \<Rightarrow> (ParticipantId \<rightharpoonup> Token) \<times> Price \<times> Price \<times> InstrumentId list" where
  "settings gw = (gw_auth gw, gw_minPrice gw, gw_maxPrice gw, map sx_instrumentId (gw_shardCtxs gw))"

lemma update_instrument: "sx_instrumentId x = sx_instrumentId (ss ! k) \<Longrightarrow> map sx_instrumentId (ss[k := x]) = map sx_instrumentId ss"
  by (cases "k < length ss") (simp_all add: update_ids list_update_beyond)

lemma settings_shards [simp]:
  "settings (registerRoute gw k i sid n) = settings gw" "settings (eraseRoute gw k i) = settings gw" "settings (dropRoute gw k) = settings gw"
  "settings (snd (shardSubmit io pads gw k kind cmd)) = settings gw" "settings (takeCommand gw k) = settings gw"
  "settings (logSequenced gw sid cs k cmd q) = settings gw" "settings (postFrame gw sid b) = settings gw"
  "settings (putSession sid x) = settings (fst x)" "settings (doAccept gw) = settings gw"
  "settings (gw\<lparr>gw_posted := ps\<rparr>) = settings gw"
  by (simp_all add: settings_def registerRoute_def eraseRoute_def dropRoute_def shardSubmit_def takeCommand_def logSequenced_def postFrame_def
      putSession_def doAccept_def Let_def case_prod_beta update_instrument)

lemma settings_submit [simp]: "settings (fst (submitOrPend io pads gw sid cs cmd k)) = settings gw" "settings (fst (retryPending io pads gw sid cs)) = settings gw"
  by (simp_all add: submitOrPend_def retryPending_def Let_def case_prod_beta split: Outcome.split)

lemma settings_handle [simp]:
  "settings (fst (handleNewOrder io pads gw sid cs no)) = settings gw" "settings (fst (handleCancel io pads gw sid cs cx)) = settings gw"
  "settings (fst (handleCancelReplace io pads gw sid cs cr)) = settings gw"
  by (simp_all add: handle_defs Let_def case_prod_beta)

lemma settings_decoded: "settings (fst (snd (decodedStep io pads gw sid cs))) = settings gw"
  by (simp add: decodedStep_def authenticatedStep_def Let_def case_prod_beta split: Result.split DecodedMessage.split)

lemma settings_process: "settings (fst (processDecoded io pads gw sid cs)) = settings gw"
proof (induction io pads gw sid cs rule: processDecoded.induct)
  case (1 io pads gw sid cs)
  show ?case using 1 [OF refl prod.collapse prod.collapse] settings_decoded [of io pads gw sid cs]
    by (subst processDecoded.simps) (simp add: case_prod_beta)
qed

lemma settings_route: "settings (routeOne expired k gw e) = settings gw"
  by (simp add: routeOne_def routeExecReport_def routeReject_def Let_def split: OutboundPayload.split option.split)

lemma settings_fold: "(\<And>gw x. settings (f gw x) = settings gw) \<Longrightarrow> settings (foldl f gw xs) = settings gw"
  by (induction xs arbitrary: gw) simp_all

lemma settings_retry: "settings (retryAllPending io pads gw) = settings gw"
  unfolding retryAllPending_def by (rule settings_fold) (simp add: retryOne_def Let_def)

lemma gw_step_settings:
  assumes "gw_step io pads gw gw'"
  shows "settings gw' = settings gw"
  using assms
proof cases
  case (run p ps)
  then show ?thesis by (cases p) (simp_all add: settings_retry)
qed (simp_all add: onRead_def settings_process routerTurn_def Let_def case_prod_beta settings_fold [OF settings_route])

lemma gw_reach_settings: "(gw_step io pads)\<^sup>*\<^sup>* gw gw' \<Longrightarrow> settings gw' = settings gw"
  by (induction rule: rtranclp_induct) (simp_all add: gw_step_settings)

end
