(* ===== verification/Book_Walk.thy ===== *)
theory Book_Walk
  imports Book_Mirror
begin

text \<open>
  The walk over the resting orders of a book in canonical order, which the digests and the snapshots use.
\<close>

section \<open>The canonical walk\<close>

text \<open>
  The loop that \<^verbatim>\<open>computeDigest\<close>, \<^verbatim>\<open>SnapshotWriter::write\<close> and \<^verbatim>\<open>loadMirrorFromBook\<close> share: the levels of a side from the
  best price on, and the orders of a level from its head on. The model returns the orders in the sequence in
  which the loop body sees them.
\<close>

partial_function (option) walkLevel :: "OrderBook \<Rightarrow> ptr option \<Rightarrow> Order list option" where
  "walkLevel b node =
     (case node of
        None \<Rightarrow> Some []
      | Some p \<Rightarrow> do {
          x \<leftarrow> deref (orders_of b) p;
          xs \<leftarrow> walkLevel b (o_next x);
          Some (x # xs)
        })"

partial_function (option) walkFrom :: "OrderBook \<Rightarrow> Side \<Rightarrow> Price \<Rightarrow> Order list option" where
  "walkFrom b side p =
     (let lm = sideOf b side in
      if p = emptySentinel side then Some []
      else do {
        li \<leftarrow> levelAt lm p;
        level \<leftarrow> nth_opt (lm_levels lm) li;
        xs \<leftarrow> walkLevel b (lvl_head level);
        p' \<leftarrow> nextOccupied lm p;
        ys \<leftarrow> walkFrom b side p';
        Some (xs @ ys)
      })"

definition walkSide :: "OrderBook \<Rightarrow> Side \<Rightarrow> Order list option" where
  "walkSide b side = walkFrom b side (lm_best (sideOf b side))"

definition walkBook :: "OrderBook \<Rightarrow> Order list option" where
  "walkBook b = do { xs \<leftarrow> walkSide b Buy; ys \<leftarrow> walkSide b Sell; Some (xs @ ys) }"

lemma walkLevel_dseg:
  assumes "dseg (orders_of b) ref pr ps None"
  shows "walkLevel b (first_of ps None) = Some (map (\<lambda>p. the (deref (orders_of b) p)) ps)"
  using assms
proof (induction ps arbitrary: pr)
  case Nil
  then show ?case by (subst walkLevel.simps) simp
next
  case (Cons p ps)
  then obtain x where x: "deref (orders_of b) p = Some x" "o_next x = first_of ps None" "dseg (orders_of b) ref (Some p) ps None"
    by auto
  then show ?case using Cons.IH [OF x(3)] by (subst walkLevel.simps) simp
qed

lemma walkFrom_rep:
  assumes rep: "book_rep b Q {}" and i: "i \<in> occ (sideOf b s)"
  shows "walkFrom b s (cfg_price (ob_cfg b) i) =
    Some (map (\<lambda>p. the (deref (orders_of b) p)) (side_seq s (cfg_slots (ob_cfg b)) (from_slot b s i) (\<lambda>j. Q (s, j))))"
  using i
proof (induction "card (from_slot b s i)" arbitrary: i rule: less_induct)
  case less
  note D = side_repD [OF book_rep_side [OF rep, of s]] and C = book_rep_cfg [OF rep, of s]
  let ?n = "cfg_slots (ob_cfg b)" and ?P = "cfg_price (ob_cfg b) i"
  have i: "i < lm_numSlots (sideOf b s)" using less.prems by (simp add: occ_def)
  have sent: "?P \<noteq> emptySentinel s" and lat: "levelAt (sideOf b s) ?P = Some i"
    and lvl: "nth_opt (lm_levels (sideOf b s)) i = Some (lm_levels (sideOf b s) ! i)"
    using slot_price_range [OF D(3) i] C D(5) i by (cases s; auto simp: emptySentinel_def levelAt_def)+
  note seq = side_seq_best [OF from_slot_best [OF less.prems], of ?n "\<lambda>j. Q (s, j)"]
  have lv: "walkLevel b (lvl_head (lm_levels (sideOf b s) ! i)) = Some (map (\<lambda>p. the (deref (orders_of b) p)) (Q (s, i)))"
    using walkLevel_dseg [of b "(s, i)" None "Q (s, i)"] D(6) [OF i] by (simp add: level_rep_def)
  let ?S = "{j \<in> occ (sideOf b s). slot_better s i j}"
  have go: "walkFrom b s ?P = Option.bind (nextOccupied (sideOf b s) ?P) (\<lambda>p'. Option.bind (walkFrom b s p')
      (\<lambda>ys. Some (map (\<lambda>p. the (deref (orders_of b) p)) (Q (s, i)) @ ys)))"
    by (subst walkFrom.simps) (use sent lat lvl lv in \<open>simp add: Let_def\<close>)
  consider "?S = {}" "nextOccupied (sideOf b s) ?P = Some (emptySentinel s)"
    | k where "is_best_slot s ?S k" "nextOccupied (sideOf b s) ?P = Some (cfg_price (ob_cfg b) k)"
    using nextOccupied_spec [OF D(3) i refl] C D(4) by auto
  then show ?case
  proof cases
    case 1
    then have "from_slot b s i - {i} = {}" by (auto simp: from_slot_def)
    then have "side_seq s ?n (from_slot b s i) (\<lambda>j. Q (s, j)) = Q (s, i)" using seq i C by (simp only: side_seq_empty) simp
    moreover have "walkFrom b s (emptySentinel s) = Some []" by (subst walkFrom.simps) (simp add: Let_def)
    ultimately show ?thesis using go 1(2) by simp
  next
    case 2
    note nx = from_slot_next [OF less.prems 2(1)]
    have k: "k \<in> occ (sideOf b s)" using 2(1) by (auto simp: is_best_slot_def)
    have "i \<in> from_slot b s i" "finite (from_slot b s i)" using less.prems by (auto simp: from_slot_def)
    then have "card (from_slot b s k) < card (from_slot b s i)" using nx by (metis card_Diff1_less)
    then show ?thesis using go 2 seq i C nx less.hyps [OF _ k] by simp
  qed
qed

lemma walkSide_rep:
  assumes rep: "book_rep b Q {}"
  shows "walkSide b s = Some (map (\<lambda>p. the (deref (orders_of b) p)) (queue_of (ob_cfg b) Q s))"
proof (cases "hasBest (sideOf b s)")
  case True
  then obtain i where i: "is_best_slot s (occ (sideOf b s)) i" "lm_best (sideOf b s) = cfg_price (ob_cfg b) i"
    using best_slot(2) [OF rep] by blast
  note D = side_repD [OF book_rep_side [OF rep, of s]] and C = book_rep_cfg [OF rep, of s]
  have io: "i \<in> occ (sideOf b s)" using i(1) by (auto simp: is_best_slot_def)
  have "from_slot b s i = occ (sideOf b s)" using i(1) by (auto simp: from_slot_def is_best_slot_def)
  moreover have "side_seq s (cfg_slots (ob_cfg b)) (occ (sideOf b s)) (\<lambda>j. Q (s, j)) = queue_of (ob_cfg b) Q s"
    unfolding queue_of_def by (rule side_seq_UNIV) (use D(7) C in auto)
  ultimately show ?thesis using walkFrom_rep [OF rep io] i(2) by (simp add: walkSide_def)
next
  case False
  then have "lm_best (sideOf b s) = emptySentinel s"
    using side_repD(4) [OF book_rep_side [OF rep, of s]] by (simp add: hasBest_def)
  moreover have "queue_of (ob_cfg b) Q s = []"
    using False best_slot(1) [OF rep, of s] by (auto simp: queue_of_def side_seq_def)
  ultimately show ?thesis unfolding walkSide_def by (subst walkFrom.simps) (simp add: Let_def)
qed

text \<open>The walk sees the abstract book: bids then asks, each in priority order.\<close>

lemma walkBook_absb:
  assumes "book_ok b"
  obtains xs ys where "walkSide b Buy = Some xs" "walkSide b Sell = Some ys" "walkBook b = Some (xs @ ys)"
    "map victimOf xs = sp_bids (absb b)" "map victimOf ys = sp_asks (absb b)" "map victimOf (xs @ ys) = spec_orders (absb b)"
proof -
  define Q where "Q = book_queues b"
  have rep: "book_rep b Q {}" using assms by (simp add: book_ok_def Q_def)
  define xs ys where "xs = map (\<lambda>p. the (deref (orders_of b) p)) (queue_of (ob_cfg b) Q Buy)"
    and "ys = map (\<lambda>p. the (deref (orders_of b) p)) (queue_of (ob_cfg b) Q Sell)"
  have "walkSide b Buy = Some xs" "walkSide b Sell = Some ys"
    using walkSide_rep [OF rep, of Buy] walkSide_rep [OF rep, of Sell] by (simp_all add: xs_def ys_def)
  moreover have "map victimOf xs = sp_bids (absb b)" "map victimOf ys = sp_asks (absb b)"
    using spec_side_absb [OF rep, of Buy] spec_side_absb [OF rep, of Sell]
    by (simp_all add: xs_def ys_def spec_side_def view_side_def vw_def comp_def)
  ultimately show ?thesis using that [of xs ys] by (simp add: walkBook_def spec_orders_def)
qed

lemma restingOrders_absb:
  assumes "book_ok b"
  shows "restingOrders b = length (spec_orders (absb b))"
  using assms spec_orders_absb(3) [of b "book_queues b"]
  by (simp add: book_ok_def restingOrders_def book_rep_def id_ok_def)

end
