(* ===== verification/Snapshots.thy ===== *)
theory Snapshots
  imports Journal_Crash Book_Walk
begin

text \<open>
  Snapshots of a book (\<^verbatim>\<open>sequencer/snapshot_format.hpp\<close>, \<^verbatim>\<open>snapshot_writer.hpp\<close>, \<^verbatim>\<open>snapshot_reader.hpp\<close>) and the digest of its state
  (\<^verbatim>\<open>recovery/state_digest.hpp\<close>).
\<close>

section \<open>sequencer/snapshot\_format.hpp\<close>

definition kSnapshotMagic :: "32 word" where "kSnapshotMagic = 0x4E535856"
definition kSnapshotVersion :: "32 word" where "kSnapshotVersion = 1"
definition kSnapshotHeaderSize :: nat where "kSnapshotHeaderSize = 80"
definition kOrderRecordSize :: nat where "kOrderRecordSize = 56"
definition kSnapshotTrailerSize :: nat where "kSnapshotTrailerSize = 4"

record SnapshotHeader =
  sh_magic :: "32 word"
  sh_version :: "32 word"
  sh_globalSeq :: "64 word"
  sh_bookSeq :: "64 word"
  sh_nextTradeId :: "64 word"
  sh_minPrice :: int
  sh_maxPrice :: int
  sh_tick :: int
  sh_maxOrders :: "64 word"
  sh_stpPolicy :: byte
  sh_orderCount :: "64 word"

definition encodeSnapshotHeader :: "SnapshotHeader \<Rightarrow> byte list" where
  "encodeSnapshotHeader h =
     putU32 (sh_magic h) @ putU32 (sh_version h) @ putU64 (sh_globalSeq h) @ putU64 (sh_bookSeq h) @ putU64 (sh_nextTradeId h) @
     putI64 (sh_minPrice h) @ putI64 (sh_maxPrice h) @ putI64 (sh_tick h) @ putU64 (sh_maxOrders h) @
     putU8 (sh_stpPolicy h) @ replicate 7 0 @ putU64 (sh_orderCount h)"

definition decodeSnapshotHeader :: "byte list \<Rightarrow> SnapshotHeader" where
  "decodeSnapshotHeader src =
     \<lparr>sh_magic = getU32 src, sh_version = getU32 (drop 4 src), sh_globalSeq = getU64 (drop 8 src), sh_bookSeq = getU64 (drop 16 src),
      sh_nextTradeId = getU64 (drop 24 src), sh_minPrice = getI64 (drop 32 src), sh_maxPrice = getI64 (drop 40 src),
      sh_tick = getI64 (drop 48 src), sh_maxOrders = getU64 (drop 56 src), sh_stpPolicy = getU8 (drop 64 src),
      sh_orderCount = getU64 (drop 72 src)\<rparr>"

record OrderRecord =
  or_id :: OrderId
  or_price :: Price
  or_quantity :: Quantity
  or_remaining :: Quantity
  or_participant :: ParticipantId
  or_seq :: Seq
  or_side :: byte

definition encodeOrderRecord :: "OrderRecord \<Rightarrow> byte list" where
  "encodeOrderRecord r =
     putI64 (or_id r) @ putI64 (or_price r) @ putI64 (or_quantity r) @ putI64 (or_remaining r) @ putI64 (or_participant r) @
     putI64 (or_seq r) @ putU8 (or_side r) @ replicate 7 0"

definition decodeOrderRecord :: "byte list \<Rightarrow> OrderRecord" where
  "decodeOrderRecord src =
     \<lparr>or_id = getI64 src, or_price = getI64 (drop 8 src), or_quantity = getI64 (drop 16 src), or_remaining = getI64 (drop 24 src),
      or_participant = getI64 (drop 32 src), or_seq = getI64 (drop 40 src), or_side = getU8 (drop 48 src)\<rparr>"

section \<open>sequencer/snapshot\_writer.hpp\<close>

record SnapshotWriter =
  sw_world :: world
  sw_retention :: nat

definition orderRecordOf :: "Order \<Rightarrow> OrderRecord" where
  "orderRecordOf x = \<lparr>or_id = o_id x, or_price = o_price x, or_quantity = o_quantity x, or_remaining = o_remaining x,
     or_participant = o_participant x, or_seq = o_seq x, or_side = side_code (o_side x)\<rparr>"

fun stp_code :: "StpPolicy \<Rightarrow> byte" where
  "stp_code CancelAggressor = 0" | "stp_code CancelPassive = 1" | "stp_code CancelBoth = 2"

definition snapshotHeaderOf :: "OrderBook \<Rightarrow> Seq \<Rightarrow> BookConfig \<Rightarrow> nat \<Rightarrow> SnapshotHeader" where
  "snapshotHeaderOf b globalSeq cfg orderCount =
     \<lparr>sh_magic = kSnapshotMagic, sh_version = kSnapshotVersion, sh_globalSeq = of_int globalSeq, sh_bookSeq = of_int (ob_seq b),
      sh_nextTradeId = of_int (ob_nextTradeId b), sh_minPrice = cfg_minPrice cfg, sh_maxPrice = cfg_maxPrice cfg, sh_tick = cfg_tick cfg,
      sh_maxOrders = of_nat (cfg_maxOrders cfg), sh_stpPolicy = stp_code (cfg_stp cfg), sh_orderCount = of_nat orderCount\<rparr>"

definition snapshotBuf :: "OrderBook \<Rightarrow> Seq \<Rightarrow> BookConfig \<Rightarrow> byte list option" where
  "snapshotBuf b globalSeq cfg = do {
     xs \<leftarrow> walkBook b;
     Some (encodeSnapshotHeader (snapshotHeaderOf b globalSeq cfg (length xs)) @ concat (map (encodeOrderRecord \<circ> orderRecordOf) xs))
   }"

definition finalName :: "Seq \<Rightarrow> string" where
  "finalName seq = ''snap-'' @ fmt016 (unat (of_int seq :: 64 word)) @ ''.snap''"

definition snapshot_files :: "dir \<Rightarrow> string list" where
  "snapshot_files d = filter (\<lambda>n. extension n = ''.snap'') (map fst d)"

fun removeAll_files :: "env \<Rightarrow> world \<Rightarrow> string list \<Rightarrow> world" where
  "removeAll_files io w [] = w"
| "removeAll_files io w (n # ns) = removeAll_files io (sys_remove io w n) ns"

definition prune :: "env \<Rightarrow> SnapshotWriter \<Rightarrow> SnapshotWriter" where
  "prune io sw =
     (let snaps = sort (snapshot_files (w_dir (sw_world sw)))
      in sw\<lparr>sw_world := removeAll_files io (sw_world sw) (take (length snaps - sw_retention sw) snaps)\<rparr>)"

definition sw_write :: "env \<Rightarrow> SnapshotWriter \<Rightarrow> OrderBook \<Rightarrow> Seq \<Rightarrow> BookConfig \<Rightarrow> (bool \<times> SnapshotWriter) option" where
  "sw_write io sw b globalSeq cfg = do {
     buf \<leftarrow> snapshotBuf b globalSeq cfg;
     let tmpPath = ''snap.tmp'';
     let trailer = putU32 (crc32 buf);
     let (opened, w1) = sys_create io (sw_world sw) tmpPath;
     if \<not> opened then Some (False, sw\<lparr>sw_world := w1\<rparr>)
     else do {
       let (n1, w2) = sys_write io w1 tmpPath buf;
       let ok1 = (n1 = Some (length buf));
       let (ok2, w3) = (if ok1 then let (n2, w) = sys_write io w2 tmpPath trailer in (n2 = Some kSnapshotTrailerSize, w) else (False, w2));
       let (ok3, w4) = (if ok2 then sys_fsync io w3 tmpPath else (False, w3));
       if \<not> ok3 then Some (False, sw\<lparr>sw_world := sys_remove io w4 tmpPath\<rparr>)
       else do {
         let (renamed, w5) = sys_rename io w4 tmpPath (finalName globalSeq);
         if \<not> renamed then Some (False, sw\<lparr>sw_world := w5\<rparr>)
         else Some (True, prune io (sw\<lparr>sw_world := tick_call w5\<rparr>))
       }
     }
   }"

section \<open>sequencer/snapshot\_reader.hpp\<close>

record LoadedSnapshot =
  ls_header :: SnapshotHeader
  ls_orders :: "OrderRecord list"

text \<open>
  The size check is 64-bit arithmetic, so an order count that makes the product wrap passes it; the \<^verbatim>\<open>resize\<close> that follows then throws.
  The outer \<^const>\<open>None\<close> stands for that exception.
\<close>

definition tryLoad :: "dir \<Rightarrow> string \<Rightarrow> LoadedSnapshot option option" where
  "tryLoad d p =
     (case map_of d p of
        None \<Rightarrow> Some None
      | Some f \<Rightarrow>
          (let bytes = f_bytes f
           in if length bytes < kSnapshotHeaderSize + kSnapshotTrailerSize then Some None
              else
                (let headerAndBodySize = length bytes - kSnapshotTrailerSize;
                     storedCrc = getU32 (drop headerAndBodySize bytes)
                 in if crc32 (take headerAndBodySize bytes) \<noteq> storedCrc then Some None
                    else
                      (let h = decodeSnapshotHeader bytes
                       in if sh_magic h \<noteq> kSnapshotMagic \<or> sh_version h \<noteq> kSnapshotVersion then Some None
                          else if of_nat headerAndBodySize \<noteq> of_nat kSnapshotHeaderSize + sh_orderCount h * of_nat kOrderRecordSize then Some None
                          else if unat (sh_orderCount h) * kOrderRecordSize \<ge> 2 ^ 63 then None
                          else Some (Some \<lparr>ls_header = h,
                            ls_orders = map (\<lambda>i. decodeOrderRecord (drop (kSnapshotHeaderSize + i * kOrderRecordSize) bytes)) [0..<unat (sh_orderCount h)]\<rparr>)))))"

fun first_valid :: "dir \<Rightarrow> string list \<Rightarrow> LoadedSnapshot option option" where
  "first_valid d [] = Some None"
| "first_valid d (p # ps) = do {
     loaded \<leftarrow> tryLoad d p;
     case loaded of Some l \<Rightarrow> Some (Some l) | None \<Rightarrow> first_valid d ps
   }"

definition loadNewestValid :: "dir \<Rightarrow> LoadedSnapshot option option" where
  "loadNewestValid d = first_valid d (rev (sort (snapshot_files d)))"

section \<open>Snapshots round trip\<close>

definition header_fits :: "SnapshotHeader \<Rightarrow> bool" where
  "header_fits h \<longleftrightarrow> in_i64 (sh_minPrice h) \<and> in_i64 (sh_maxPrice h) \<and> in_i64 (sh_tick h)"

definition record_fits :: "OrderRecord \<Rightarrow> bool" where
  "record_fits r \<longleftrightarrow> in_i64 (or_id r) \<and> in_i64 (or_price r) \<and> in_i64 (or_quantity r) \<and> in_i64 (or_remaining r) \<and>
     in_i64 (or_participant r) \<and> in_i64 (or_seq r)"

lemma encodeSnapshotHeader_length [simp]: "length (encodeSnapshotHeader h) = kSnapshotHeaderSize"
  by (simp add: encodeSnapshotHeader_def kSnapshotHeaderSize_def)

lemma encodeOrderRecord_length [simp]: "length (encodeOrderRecord r) = kOrderRecordSize"
  by (simp add: encodeOrderRecord_def kOrderRecordSize_def)

lemma decode_snapshot_header: "header_fits h \<Longrightarrow> decodeSnapshotHeader (encodeSnapshotHeader h @ rest) = h"
  by (simp add: decodeSnapshotHeader_def encodeSnapshotHeader_def header_fits_def wire_gets)

lemma decode_order_record: "record_fits r \<Longrightarrow> decodeOrderRecord (encodeOrderRecord r @ rest) = r"
  by (simp add: decodeOrderRecord_def encodeOrderRecord_def record_fits_def wire_gets)

definition snapshot_image :: "SnapshotHeader \<Rightarrow> OrderRecord list \<Rightarrow> byte list" where
  "snapshot_image h rs = encodeSnapshotHeader h @ concat (map encodeOrderRecord rs)"

lemma records_length: "length (concat (map encodeOrderRecord rs)) = length rs * kOrderRecordSize"
  by (induction rs) simp_all

lemma decode_records:
  assumes "\<forall>r \<in> set rs. record_fits r"
  shows "map (\<lambda>i. decodeOrderRecord (drop (i * kOrderRecordSize) (concat (map encodeOrderRecord rs) @ rest))) [0..<length rs] = rs"
  using assms
proof (induction rs)
  case (Cons r rs)
  have "decodeOrderRecord (drop (Suc i * kOrderRecordSize) (concat (map encodeOrderRecord (r # rs)) @ rest)) =
      decodeOrderRecord (drop (i * kOrderRecordSize) (concat (map encodeOrderRecord rs) @ rest))" for i by simp
  then show ?case using Cons by (simp add: map_upt_Suc decode_order_record del: upt_Suc)
qed simp

text \<open>A file whose contents are a snapshot image and its checksum loads as that snapshot.\<close>

lemma tryLoad_image:
  assumes f: "map_of d p = Some f" "f_bytes f = snapshot_image h rs @ putU32 (crc32 (snapshot_image h rs))"
    and h: "header_fits h" "sh_magic h = kSnapshotMagic" "sh_version h = kSnapshotVersion" "sh_orderCount h = of_nat (length rs)"
    and rs: "\<forall>r \<in> set rs. record_fits r" "length rs * kOrderRecordSize < 2 ^ 63"
  shows "tryLoad d p = Some (Some \<lparr>ls_header = h, ls_orders = rs\<rparr>)"
proof -
  let ?img = "snapshot_image h rs"
  have len: "length ?img = kSnapshotHeaderSize + length rs * kOrderRecordSize" by (simp add: snapshot_image_def records_length)
  have crc: "getU32 (putU32 (crc32 ?img)) = crc32 ?img" using u32.get_put [of "crc32 ?img" "[]"] by simp
  have dec: "decodeSnapshotHeader (?img @ rest) = h" for rest using decode_snapshot_header [OF h(1)] by (simp add: snapshot_image_def)
  have cnt: "unat (of_nat (length rs) :: 64 word) = length rs"
    using rs(2) by (simp add: unat_of_nat kOrderRecordSize_def)
  have body: "drop kSnapshotHeaderSize (?img @ rest) = concat (map encodeOrderRecord rs) @ rest" for rest by (simp add: snapshot_image_def)
  have "drop (kSnapshotHeaderSize + m) (?img @ rest) = drop m (drop kSnapshotHeaderSize (?img @ rest))" for m rest by (simp only: drop_drop add.commute)
  then have "drop (kSnapshotHeaderSize + i * kOrderRecordSize) (?img @ rest) = drop (i * kOrderRecordSize) (concat (map encodeOrderRecord rs) @ rest)" for i rest
    unfolding body .
  then show ?thesis using f h rs len crc dec cnt decode_records [OF rs(1)]
    by (simp add: tryLoad_def Let_def kSnapshotTrailerSize_def)
qed

text \<open>A snapshot with one byte changed is not loaded, wherever the byte is.\<close>

lemma crc_changed:
  assumes "i < length img" "img ! i \<noteq> b"
  shows "crc32 (img[i := b]) \<noteq> crc32 img"
  using crc32_one_byte [of b "img ! i" "take i img" "drop (Suc i) img"] assms
  by (simp add: upd_conv_take_nth_drop id_take_nth_drop [of i img, symmetric])

lemma tryLoad_corrupt:
  assumes f: "map_of d p = Some f" "f_bytes f = (img @ putU32 (crc32 img))[i := b]" "i < length (img @ putU32 (crc32 img))"
    "(img @ putU32 (crc32 img)) ! i \<noteq> b"
  shows "tryLoad d p = Some None"
proof -
  let ?bs = "(img @ putU32 (crc32 img))[i := b]"
  have n: "length ?bs - kSnapshotTrailerSize = length img" by (simp add: kSnapshotTrailerSize_def)
  have "crc32 (take (length img) ?bs) \<noteq> getU32 (drop (length img) ?bs)"
  proof (cases "i < length img")
    case True
    have "getU32 (putU32 (crc32 img)) = crc32 img" using u32.get_put [of "crc32 img" "[]"] by simp
    then show ?thesis using True crc_changed [OF True] f(4) by (simp add: list_update_append nth_append)
  next
    case False
    let ?t = "(putU32 (crc32 img))[i - length img := b]"
    have "?t \<noteq> putU32 (crc32 img)"
    proof
      assume "?t = putU32 (crc32 img)"
      then have "?t ! (i - length img) = putU32 (crc32 img) ! (i - length img)" by simp
      then show False using f(3,4) False by (simp add: nth_append)
    qed
    moreover have "putU32 (getU32 ?t) = ?t" using u32.put_get [of ?t] by simp
    ultimately have "getU32 ?t \<noteq> crc32 img" by metis
    then show ?thesis using False f(3) by (simp add: list_update_append)
  qed
  then show ?thesis using f(1,2) n by (simp add: tryLoad_def Let_def)
qed

section \<open>What the writer leaves\<close>

lemma snapshotBuf_image:
  "walkBook b = Some xs \<Longrightarrow> snapshotBuf b sq cfg = Some (snapshot_image (snapshotHeaderOf b sq cfg (length xs)) (map orderRecordOf xs))"
  by (simp add: snapshotBuf_def snapshot_image_def o_def)

lemma sorted_le_last: "sorted xs \<Longrightarrow> x \<in> set xs \<Longrightarrow> x \<le> last xs"
  by (induction xs) auto

lemma sort_Nil [simp]: "sort xs = [] \<longleftrightarrow> xs = []"
  by (metis length_0_conv length_sort)

lemma last_sort:
  assumes "n \<in> set xs" "\<forall>m \<in> set xs. m \<le> n"
  shows "last (sort xs) = n"
proof (rule antisym)
  have "sort xs \<noteq> []" using assms(1) by auto
  then have "last (sort xs) \<in> set (sort xs)" by (rule last_in_set)
  then show "last (sort xs) \<le> n" using assms(2) by simp
  show "n \<le> last (sort xs)" using assms(1) by (intro sorted_le_last) simp_all
qed

lemma take_butlast: "m < length xs \<Longrightarrow> set (take m xs) \<subseteq> set (butlast xs)"
  by (simp add: butlast_conv_take set_take_subset_set_take)

lemma map_of_delete_other: "n \<noteq> a \<Longrightarrow> map_of (AList.delete a d) n = map_of d n"
  by (simp add: AList.delete_conv')

lemma map_of_update: "map_of (AList.update a f d) n = (if n = a then Some f else map_of d n)"
  by (simp add: update_conv')

lemma delete_keys: "set (map fst (AList.delete a d)) = set (map fst d) - {a}"
  by (auto simp: AList.delete_eq image_iff)

lemma distinct_delete: "distinct (map fst d) \<Longrightarrow> distinct (map fst (AList.delete a d))"
  by (simp add: AList.distinct_delete)

lemma remove_file:
  assumes "distinct (map fst (w_dir w))"
  shows "distinct (map fst (w_dir (sys_remove io w a)))" "set (map fst (w_dir (sys_remove io w a))) \<subseteq> set (map fst (w_dir w))"
    "n \<noteq> a \<Longrightarrow> map_of (w_dir (sys_remove io w a)) n = map_of (w_dir w) n"
  using assms delete_keys [of a "w_dir w"]
  by (auto simp: sys_remove_def Let_def tick_call_def distinct_delete map_of_delete_other split: io.splits)

lemma remove_files:
  assumes "distinct (map fst (w_dir w))"
  shows "distinct (map fst (w_dir (removeAll_files io w ns)))" "set (map fst (w_dir (removeAll_files io w ns))) \<subseteq> set (map fst (w_dir w))"
    "n \<notin> set ns \<Longrightarrow> map_of (w_dir (removeAll_files io w ns)) n = map_of (w_dir w) n"
proof -
  show "distinct (map fst (w_dir (removeAll_files io w ns)))" using assms by (induction ns arbitrary: w) (simp_all add: remove_file(1))
  show "set (map fst (w_dir (removeAll_files io w ns))) \<subseteq> set (map fst (w_dir w))" using assms
  proof (induction ns arbitrary: w)
    case (Cons a ns)
    have "set (map fst (w_dir (removeAll_files io (sys_remove io w a) ns))) \<subseteq> set (map fst (w_dir (sys_remove io w a)))"
      by (rule Cons.IH [OF remove_file(1) [OF Cons.prems]])
    from subset_trans [OF this remove_file(2) [OF Cons.prems]] show ?case by simp
  qed simp
  show "n \<notin> set ns \<Longrightarrow> map_of (w_dir (removeAll_files io w ns)) n = map_of (w_dir w) n" using assms
  proof (induction ns arbitrary: w)
    case (Cons a ns)
    then show ?case using remove_file(1) [OF Cons.prems(2), of io a] remove_file(3) [OF Cons.prems(2), of n a io] by simp
  qed simp
qed

text \<open>A write that succeeds leaves the whole image under the final name, and every other snapshot as it was, before it prunes.\<close>

lemma sw_write_file:
  assumes wr: "sw_write io sw b sq cfg = Some (True, sw')" and buf: "snapshotBuf b sq cfg = Some img" and d: "distinct (map fst (w_dir (sw_world sw)))"
  obtains w where "distinct (map fst (w_dir w))" "sw' = prune io (sw\<lparr>sw_world := w\<rparr>)"
    "map_of (w_dir w) (finalName sq) = Some \<lparr>f_bytes = img @ putU32 (crc32 img), f_synced = length img + kSnapshotTrailerSize\<rparr>"
    "set (map fst (w_dir w)) \<subseteq> insert (finalName sq) (set (map fst (w_dir (sw_world sw))))"
proof -
  let ?t = "''snap.tmp''" and ?tr = "putU32 (crc32 img)"
  obtain w1 where w1: "sys_create io (sw_world sw) ?t = (True, w1)"
    using wr buf by (cases "sys_create io (sw_world sw) ?t") (auto simp: sw_write_def Let_def split: if_splits)
  obtain n1 w2 where w2: "sys_write io w1 ?t img = (n1, w2)" by force
  obtain n2 w3 where w3: "sys_write io w2 ?t ?tr = (n2, w3)" by force
  obtain b3 w4 where w4: "sys_fsync io w3 ?t = (b3, w4)" by force
  obtain b4 w5 where w5: "sys_rename io w4 ?t (finalName sq) = (b4, w5)" by force
  have ok: "n1 = Some (length img)" "n2 = Some kSnapshotTrailerSize" "b3" "b4" "sw' = prune io (sw\<lparr>sw_world := tick_call w5\<rparr>)"
    using wr buf w1 w2 w3 w4 w5 by (auto simp: sw_write_def Let_def split: if_splits)
  have d1: "w_dir w1 = AList.update ?t \<lparr>f_bytes = [], f_synced = 0\<rparr> (w_dir (sw_world sw))"
    using w1 by (auto simp: sys_create_def Let_def put_file_def tick_call_def split: io.splits)
  have m1: "map_of (w_dir w1) ?t = Some \<lparr>f_bytes = [], f_synced = 0\<rparr>" by (simp add: d1 map_of_update)
  have d2: "w_dir w2 = AList.update ?t \<lparr>f_bytes = img, f_synced = 0\<rparr> (w_dir w1)"
    using w2 ok(1) m1 by (auto simp: sys_write_def Let_def put_file_def tick_call_def split: io.splits)
  have m2: "map_of (w_dir w2) ?t = Some \<lparr>f_bytes = img, f_synced = 0\<rparr>" by (simp add: d2 map_of_update)
  have d3: "w_dir w3 = AList.update ?t \<lparr>f_bytes = img @ ?tr, f_synced = 0\<rparr> (w_dir w2)"
    using w3 ok(2) m2 by (auto simp: sys_write_def Let_def put_file_def tick_call_def kSnapshotTrailerSize_def split: io.splits)
  have m3: "map_of (w_dir w3) ?t = Some \<lparr>f_bytes = img @ ?tr, f_synced = 0\<rparr>" by (simp add: d3 map_of_update)
  let ?f = "\<lparr>f_bytes = img @ ?tr, f_synced = length img + kSnapshotTrailerSize\<rparr>"
  have d4: "w_dir w4 = AList.update ?t ?f (w_dir w3)"
    using w4 ok(3) m3 by (auto simp: sys_fsync_def Let_def put_file_def tick_call_def kSnapshotTrailerSize_def split: io.splits)
  have m4: "map_of (w_dir w4) ?t = Some ?f" by (simp add: d4 map_of_update)
  have d5: "w_dir w5 = AList.update (finalName sq) ?f (AList.delete ?t (w_dir w4))"
    using w5 ok(4) m4 by (auto simp: sys_rename_def Let_def tick_call_def split: io.splits)
  have keys: "set (map fst (w_dir w5)) \<subseteq> insert (finalName sq) (set (map fst (w_dir (sw_world sw))))"
    unfolding d5 d4 d3 d2 d1 set_map AList.dom_update delete_keys [unfolded set_map] by blast
  have "distinct (map fst (w_dir w5))" using d by (simp add: d5 d4 d3 d2 d1 AList.distinct_update distinct_delete)
  then show thesis using that [of "tick_call w5"] ok(5) keys by (simp add: tick_call_def d5 map_of_update)
qed

lemma prune_keeps:
  assumes d: "distinct (map fst (w_dir (sw_world sw)))" and ret: "0 < sw_retention sw" and n: "n \<in> set (snapshot_files (w_dir (sw_world sw)))"
    and newest: "\<forall>m \<in> set (snapshot_files (w_dir (sw_world sw))). m \<le> n"
  shows "map_of (w_dir (sw_world (prune io sw))) n = map_of (w_dir (sw_world sw)) n"
    "hd (rev (sort (snapshot_files (w_dir (sw_world (prune io sw)))))) = n" "snapshot_files (w_dir (sw_world (prune io sw))) \<noteq> []"
proof -
  let ?w = "sw_world sw" and ?snaps = "sort (snapshot_files (w_dir (sw_world sw)))"
  let ?del = "take (length ?snaps - sw_retention sw) ?snaps"
  have w': "sw_world (prune io sw) = removeAll_files io ?w ?del" by (simp add: prune_def Let_def)
  have ne: "0 < length ?snaps" using n by (cases "snapshot_files (w_dir ?w)") simp_all
  have last: "last ?snaps = n" by (rule last_sort [OF n newest])
  have "distinct ?snaps" using d by (simp add: snapshot_files_def)
  moreover have "?snaps = butlast ?snaps @ [n]" using append_butlast_last_id [of ?snaps] last ne by simp
  ultimately have "n \<notin> set (butlast ?snaps)" by (metis distinct_append disjoint_iff list.set_intros(1))
  moreover have "set ?del \<subseteq> set (butlast ?snaps)" by (rule take_butlast) (use ret ne in linarith)
  ultimately have nd: "n \<notin> set ?del" by blast
  show m: "map_of (w_dir (sw_world (prune io sw))) n = map_of (w_dir ?w) n" unfolding w' by (rule remove_files(3) [OF d nd])
  have sub: "set (snapshot_files (w_dir (sw_world (prune io sw)))) \<subseteq> set (snapshot_files (w_dir ?w))"
    using remove_files(2) [OF d, of io ?del] unfolding w' snapshot_files_def by auto
  have "map_of (w_dir ?w) n \<noteq> None" using n by (auto simp: snapshot_files_def map_of_eq_None_iff)
  then have "n \<in> set (map fst (w_dir (sw_world (prune io sw))))" using m by (metis map_of_eq_None_iff set_map)
  then have mem: "n \<in> set (snapshot_files (w_dir (sw_world (prune io sw))))" using n by (simp add: snapshot_files_def)
  then show "snapshot_files (w_dir (sw_world (prune io sw))) \<noteq> []" by force
  show "hd (rev (sort (snapshot_files (w_dir (sw_world (prune io sw)))))) = n"
    unfolding hd_rev by (rule last_sort [OF mem]) (use sub newest in blast)
qed

section \<open>The snapshot of a book\<close>

definition resting_fits :: "Resting \<Rightarrow> bool" where
  "resting_fits r \<longleftrightarrow> in_i64 (v_id r) \<and> in_i64 (v_price r) \<and> in_i64 (v_quantity r) \<and> in_i64 (v_remaining r) \<and>
     in_i64 (v_participant r) \<and> in_i64 (v_seq r)"

definition record_of :: "Resting \<Rightarrow> OrderRecord" where
  "record_of r = \<lparr>or_id = v_id r, or_price = v_price r, or_quantity = v_quantity r, or_remaining = v_remaining r,
     or_participant = v_participant r, or_seq = v_seq r, or_side = side_code (v_side r)\<rparr>"

lemma orderRecordOf_victim: "orderRecordOf x = record_of (victimOf x)"
  by (simp add: orderRecordOf_def record_of_def victimOf_def)

lemma record_of_fits [simp]: "record_fits (record_of r) = resting_fits r"
  by (simp add: record_fits_def resting_fits_def record_of_def)

definition cfg_fits :: "BookConfig \<Rightarrow> bool" where
  "cfg_fits cfg \<longleftrightarrow> in_i64 (cfg_minPrice cfg) \<and> in_i64 (cfg_maxPrice cfg) \<and> in_i64 (cfg_tick cfg) \<and> cfg_maxOrders cfg * kOrderRecordSize < 2 ^ 63"

definition snapshot_of :: "OrderBook \<Rightarrow> Seq \<Rightarrow> BookConfig \<Rightarrow> LoadedSnapshot" where
  "snapshot_of b sq cfg = \<lparr>ls_header = snapshotHeaderOf b sq cfg (length (spec_orders (absb b))), ls_orders = map record_of (spec_orders (absb b))\<rparr>"

lemma extension_final [simp]: "extension (finalName sq) = ''.snap''"
  by (simp add: extension_def finalName_def)

lemma book_buf:
  assumes "book_ok b"
  shows "snapshotBuf b sq cfg = Some (snapshot_image (ls_header (snapshot_of b sq cfg)) (ls_orders (snapshot_of b sq cfg)))"
proof -
  obtain xs ys where w: "walkBook b = Some (xs @ ys)" "map victimOf (xs @ ys) = spec_orders (absb b)" by (rule walkBook_absb [OF assms])
  have len: "length (xs @ ys) = length (spec_orders (absb b))" using arg_cong [OF w(2), of length] by simp
  have rs: "map orderRecordOf (xs @ ys) = map record_of (spec_orders (absb b))" unfolding w(2) [symmetric] by (simp add: orderRecordOf_victim o_def)
  show ?thesis using snapshotBuf_image [OF w(1), of sq cfg] unfolding len rs by (simp add: snapshot_of_def)
qed

lemma snapshot_loads:
  assumes ok: "book_ok b" and fits: "cfg_fits cfg" "\<forall>r \<in> set (spec_orders (absb b)). resting_fits r" "length (spec_orders (absb b)) \<le> cfg_maxOrders cfg"
    and wr: "sw_write io sw b sq cfg = Some (True, sw')" and d: "distinct (map fst (w_dir (sw_world sw)))" and ret: "0 < sw_retention sw"
    and newest: "\<forall>n \<in> set (snapshot_files (w_dir (sw_world sw))). n \<le> finalName sq"
  shows "loadNewestValid (w_dir (sw_world sw')) = Some (Some (snapshot_of b sq cfg))"
proof -
  let ?s = "snapshot_of b sq cfg"
  let ?img = "snapshot_image (ls_header ?s) (ls_orders ?s)"
  obtain w where w: "distinct (map fst (w_dir w))" "sw' = prune io (sw\<lparr>sw_world := w\<rparr>)"
    "map_of (w_dir w) (finalName sq) = Some \<lparr>f_bytes = ?img @ putU32 (crc32 ?img), f_synced = length ?img + kSnapshotTrailerSize\<rparr>"
    "set (map fst (w_dir w)) \<subseteq> insert (finalName sq) (set (map fst (w_dir (sw_world sw))))"
    by (rule sw_write_file [OF wr book_buf [OF ok] d])
  have mem: "finalName sq \<in> set (snapshot_files (w_dir (sw_world (sw\<lparr>sw_world := w\<rparr>))))"
    using w(3) by (simp add: snapshot_files_def) (metis domI dom_map_of_conv_image_fst)
  have new: "\<forall>n \<in> set (snapshot_files (w_dir (sw_world (sw\<lparr>sw_world := w\<rparr>)))). n \<le> finalName sq"
    using w(4) newest by (simp add: snapshot_files_def del: set_map) blast
  note pk = prune_keeps [OF _ _ mem new, of io]
  have h: "header_fits (ls_header ?s)" "sh_magic (ls_header ?s) = kSnapshotMagic" "sh_version (ls_header ?s) = kSnapshotVersion"
      "sh_orderCount (ls_header ?s) = of_nat (length (ls_orders ?s))"
    using fits(1) by (simp_all add: snapshot_of_def snapshotHeaderOf_def header_fits_def cfg_fits_def)
  have cnt: "length (ls_orders ?s) * kOrderRecordSize < 2 ^ 63"
    using fits(1) le_less_trans [OF mult_le_mono1 [OF fits(3), of kOrderRecordSize]] by (simp add: snapshot_of_def cfg_fits_def del: mult_le_cancel2)
  have "map_of (w_dir (sw_world sw')) (finalName sq) = Some \<lparr>f_bytes = ?img @ putU32 (crc32 ?img), f_synced = length ?img + kSnapshotTrailerSize\<rparr>"
    using pk(1) w(1-3) ret by simp
  then have "tryLoad (w_dir (sw_world sw')) (finalName sq) = Some (Some \<lparr>ls_header = ls_header ?s, ls_orders = ls_orders ?s\<rparr>)"
    by (rule tryLoad_image) (use h cnt fits(2) in \<open>simp_all add: snapshot_of_def\<close>)
  then have ld: "tryLoad (w_dir (sw_world sw')) (finalName sq) = Some (Some ?s)" by simp
  have "rev (sort (snapshot_files (w_dir (sw_world sw')))) \<noteq> []" "hd (rev (sort (snapshot_files (w_dir (sw_world sw'))))) = finalName sq"
    using pk(2,3) w(1,2) ret by simp_all
  then obtain ns where "rev (sort (snapshot_files (w_dir (sw_world sw')))) = finalName sq # ns" by (metis list.exhaust_sel)
  then show ?thesis using ld by (simp add: loadNewestValid_def)
qed

section \<open>recovery/state\_digest.hpp\<close>

record StateDigest =
  dg_lastSeq :: Seq
  dg_nextTradeId :: Seq
  dg_restingOrders :: nat
  dg_bodyCrc32 :: "32 word"

definition computeDigest :: "OrderBook \<Rightarrow> StateDigest option" where
  "computeDigest b = do {
     xs \<leftarrow> walkBook b;
     let body = concat (map (encodeOrderRecord \<circ> orderRecordOf) xs);
     Some \<lparr>dg_lastSeq = ob_seq b, dg_nextTradeId = ob_nextTradeId b, dg_restingOrders = restingOrders b, dg_bodyCrc32 = crc32 body\<rparr>
   }"

text \<open>The digest of the abstract book.\<close>

definition adigest :: "BookSpec \<Rightarrow> StateDigest" where
  "adigest A = \<lparr>dg_lastSeq = sp_seq A, dg_nextTradeId = sp_nextTradeId A, dg_restingOrders = length (spec_orders A),
     dg_bodyCrc32 = crc32 (concat (map (encodeOrderRecord \<circ> record_of) (spec_orders A)))\<rparr>"

lemma computeDigest_absb:
  assumes "book_ok b"
  shows "computeDigest b = Some (adigest (absb b))"
proof -
  obtain xs ys where w: "walkBook b = Some (xs @ ys)" "map victimOf (xs @ ys) = spec_orders (absb b)" by (rule walkBook_absb [OF assms])
  have "map (encodeOrderRecord \<circ> orderRecordOf) (xs @ ys) = map (encodeOrderRecord \<circ> record_of) (spec_orders (absb b))"
    unfolding w(2) [symmetric] by (simp add: orderRecordOf_victim)
  then show ?thesis using w(1) restingOrders_absb [OF assms] by (simp add: computeDigest_def adigest_def Let_def)
qed

end
