(* ===== verification/Recovery.thy ===== *)
theory Recovery
  imports Snapshots Sequencing
begin

text \<open>
  Recovery (\<^verbatim>\<open>recovery/recovery_manager.hpp\<close>) and the snapshot thread (\<^verbatim>\<open>sequencer/snapshot_thread.hpp\<close>): restoring a snapshot and
  replaying the journal both lead to the abstract book of the commands they cover.
\<close>

section \<open>recovery/recovery\_manager.hpp\<close>

datatype RecoveryStatus = RecoveryOk | TornTail | RecoveryCorrupt

record RecoveryResult =
  rv_status :: RecoveryStatus
  rv_lastSeq :: Seq
  rv_hasJournalSegment :: bool
  rv_resumeSegmentPath :: string
  rv_resumeOffset :: nat
  rv_resumeSegmentCreatedCounter :: "64 word"

definition emptyRecovery :: RecoveryResult where
  "emptyRecovery = \<lparr>rv_status = RecoveryOk, rv_lastSeq = 0, rv_hasJournalSegment = False, rv_resumeSegmentPath = [], rv_resumeOffset = 0,
     rv_resumeSegmentCreatedCounter = 0\<rparr>"

definition recordOrder :: "OrderRecord \<Rightarrow> Side \<Rightarrow> NewOrder" where
  "recordOrder rec side = \<lparr>n_id = or_id rec, n_price = or_price rec, n_quantity = or_quantity rec,
     n_participant = or_participant rec, n_side = side, n_type = Limit\<rparr>"

fun restoreOrders :: "OrderBook \<Rightarrow> OrderRecord list \<Rightarrow> (bool \<times> OrderBook) option" where
  "restoreOrders b [] = Some (True, b)"
| "restoreOrders b (rec # recs) = do {
     side \<leftarrow> oside_of_code (or_side rec);
     (ok, b1) \<leftarrow> restoreResting b (recordOrder rec side) (or_remaining rec) (or_seq rec);
     if \<not> ok then Some (False, b1) else restoreOrders b1 recs
   }"

definition emptyTrades :: "nat \<Rightarrow> Trade buffer" where
  "emptyTrades n = \<lparr>buf_data = replicate n zeroTrade, buf_capacity = n, buf_count = 0\<rparr>"

definition applyRecord :: "OrderBook \<Rightarrow> ReadResult \<Rightarrow> OrderBook option" where
  "applyRecord b r = do {
     cmd \<leftarrow> rr_command r;
     (case kind_of_code (rr_kind r) of
        None \<Rightarrow> Some b
      | Some New \<Rightarrow> do { (_, b1, _) \<leftarrow> submit b (toNewOrder cmd) (emptyTrades 64); Some b1 }
      | Some Cancel \<Rightarrow> do { (_, b1) \<leftarrow> cancel b (c_id cmd); Some b1 }
      | Some Replace \<Rightarrow> do {
          let fresh = (toNewOrder cmd)\<lparr>n_id := c_newId cmd\<rparr>;
          (_, _, b1, _, _) \<leftarrow> replace b (c_id cmd) fresh (emptyTrades 64) None;
          Some b1
        })
   }"

partial_function (option) replayTail ::
  "dir \<Rightarrow> Seq \<Rightarrow> JournalReader \<Rightarrow> OrderBook \<Rightarrow> Seq \<Rightarrow> (RecoveryStatus \<times> JournalReader \<times> OrderBook \<times> Seq) option" where
  "replayTail d snapshotSeq reader b lastApplied =
     (let (r, reader1) = jr_next d reader
      in if rr_status r = EndOfJournal then Some (RecoveryOk, reader1, b, lastApplied)
         else if rr_status r = TruncatedTail then Some (TornTail, reader1, b, lastApplied)
         else if rr_status r = Corrupt then Some (RecoveryCorrupt, reader1, b, lastApplied)
         else if rr_globalSeq r \<le> snapshotSeq then replayTail d snapshotSeq reader1 b lastApplied
         else do {
           b1 \<leftarrow> applyRecord b r;
           replayTail d snapshotSeq reader1 b1 (rr_globalSeq r)
         })"

definition recover :: "dir \<Rightarrow> dir \<Rightarrow> OrderBook \<Rightarrow> (RecoveryResult \<times> OrderBook) option" where
  "recover journalDir snapshotDir b = do {
     snap \<leftarrow> loadNewestValid snapshotDir;
     (restored, b1, snapshotSeq) \<leftarrow>
       (case snap of
          None \<Rightarrow> Some (True, b, 0)
        | Some s \<Rightarrow> do {
            (ok, b1) \<leftarrow> restoreOrders b (ls_orders s);
            if \<not> ok then Some (False, b1, 0)
            else Some (True, restoreCounters b1 (sint (sh_bookSeq (ls_header s))) (sint (sh_nextTradeId (ls_header s))),
                       sint (sh_globalSeq (ls_header s)))
          });
     if \<not> restored then Some (emptyRecovery\<lparr>rv_status := RecoveryCorrupt\<rparr>, b1)
     else do {
       (st, reader, b2, lastApplied) \<leftarrow> replayTail journalDir snapshotSeq (newJournalReader journalDir) b1 snapshotSeq;
       let result = emptyRecovery\<lparr>rv_status := st, rv_lastSeq := lastApplied, rv_hasJournalSegment := hasOpenSegment reader\<rparr>;
       Some (if rv_hasJournalSegment result
             then result\<lparr>rv_resumeSegmentPath := jr_currentPath reader, rv_resumeOffset := jr_offset reader,
                    rv_resumeSegmentCreatedCounter := jr_currentCreatedCounter reader\<rparr>
             else result, b2)
     }
   }"

section \<open>Replaying commands\<close>

text \<open>The abstract book after a command; the events of \<^const>\<open>adispatch\<close> do not matter here.\<close>

definition astate :: "BookConfig \<Rightarrow> BookSpec \<Rightarrow> Command \<Rightarrow> BookSpec" where
  "astate cfg A cmd = fst (adispatch cfg A 0 cmd)"

lemma adispatch_state: "fst (adispatch cfg A sq cmd) = astate cfg A cmd"
  by (simp add: astate_def adispatch_def split: CommandKind.split prod.split)

definition replayable :: "BookConfig \<Rightarrow> CommandKind \<Rightarrow> Command \<Rightarrow> bool" where
  "replayable cfg k c \<longleftrightarrow> k = c_kind c \<and> cmd_ok cfg c"

lemma toNewOrder_sel [simp]: "n_type (toNewOrder c) = c_type c" "n_price (toNewOrder c) = c_price c"
  by (simp_all add: toNewOrder_def)

lemma applyRecord_refines:
  assumes inv: "book_inv b" and ok: "cmd_ok (ob_cfg b) c" and r: "rec_of r = (s, kind_code (c_kind c), Some c)"
  obtains b' where "applyRecord b r = Some b'" "book_inv b'" "ob_cfg b' = ob_cfg b" "absb b' = astate (ob_cfg b) (absb b) c"
proof (cases "c_kind c")
  case New
  have tick: "n_type (toNewOrder c) = Limit \<Longrightarrow> on_tick (ob_cfg b) (n_price (toNewOrder c))" using ok New by (simp add: cmd_ok_def)
  obtain b' res ts vs where b': "submitEx b (toNewOrder c) (emptyTrades 64) None = Some (res, b', foldl push (emptyTrades 64) ts, None)"
    "book_inv b'" "ob_cfg b' = ob_cfg b" "asubmit (ob_cfg b) (absb b) (toNewOrder c) = (res, absb b', ts, vs)"
    by (rule submitEx_inv [OF inv tick, of "emptyTrades 64" None]) auto
  show thesis by (rule that [OF _ b'(2,3)])
    (use r b' New in \<open>simp_all add: applyRecord_def kind_of_code_def rec_of_def submit_def astate_def adispatch_def cmd_order_def\<close>)
next
  case Cancel
  obtain b' res where b': "cancel b (c_id c) = Some (res, b')" "book_inv b'" "ob_cfg b' = ob_cfg b" "acancel (absb b) (c_id c) = (res, absb b')"
    by (rule cancel_inv [OF inv])
  show thesis by (rule that [OF _ b'(2,3)]) (use r b' Cancel in \<open>simp_all add: applyRecord_def kind_of_code_def rec_of_def astate_def adispatch_def\<close>)
next
  case Replace
  let ?fresh = "(toNewOrder c)\<lparr>n_id := c_newId c\<rparr>"
  have tick: "n_type ?fresh = Limit \<Longrightarrow> on_tick (ob_cfg b) (n_price ?fresh)" using ok Replace by (simp add: cmd_ok_def)
  obtain b' res cr ts vs where b': "replace b (c_id c) ?fresh (emptyTrades 64) None = Some (res, cr, b', foldl push (emptyTrades 64) ts, None)"
    "book_inv b'" "ob_cfg b' = ob_cfg b" "areplace (ob_cfg b) (absb b) (c_id c) ?fresh = (res, cr, absb b', ts, vs)"
    by (rule replace_inv [OF inv tick, of "c_id c" "emptyTrades 64" None]) auto
  show thesis by (rule that [OF _ b'(2,3)])
    (use r b' Replace in \<open>simp_all add: applyRecord_def kind_of_code_def rec_of_def astate_def adispatch_def cmd_order_def Let_def\<close>)
qed

text \<open>The replay loop over a journal that ends cleanly or in a torn record.\<close>

definition recovery_status :: "ReadResult \<Rightarrow> RecoveryStatus" where
  "recovery_status f = (if rr_status f = EndOfJournal then RecoveryOk else TornTail)"

definition tail_of :: "Seq \<Rightarrow> (Seq \<times> CommandKind \<times> Command) list \<Rightarrow> (Seq \<times> CommandKind \<times> Command) list" where
  "tail_of snapshotSeq ks = filter (\<lambda>(s, k, c). s > snapshotSeq) ks"

lemma replayTail_drains:
  assumes "drains d r recs f r'" "clean f" "recs = map read_back ks" "book_inv b" "\<forall>(s, k, c) \<in> set ks. replayable (ob_cfg b) k c"
  shows "\<exists>b'. replayTail d sq r b l = Some (recovery_status f, r', b', last (l # map fst (tail_of sq ks))) \<and> book_inv b' \<and>
    ob_cfg b' = ob_cfg b \<and> absb b' = foldl (astate (ob_cfg b)) (absb b) (map (\<lambda>(s, k, c). c) (tail_of sq ks))"
  using assms
proof (induction arbitrary: ks b l rule: drains.induct)
  case (fin r res r')
  then have "ks = []" by simp
  then show ?case using fin by (subst replayTail.simps) (auto simp: clean_def recovery_status_def tail_of_def)
next
  case (more r res r1 rs f r')
  obtain s k c ks' where ks: "ks = (s, k, c) # ks'" "rec_of res = read_back (s, k, c)" "rs = map read_back ks'"
    using more.prems(2) by (cases ks) auto
  have kc: "k = c_kind c" "cmd_ok (ob_cfg b) c" using more.prems(4) ks(1) by (simp_all add: replayable_def)
  have seq: "rr_globalSeq res = s" using ks(2) by (simp add: rec_of_def read_back_def)
  show ?case
  proof (cases "s \<le> sq")
    case True
    have "replayTail d sq r b l = replayTail d sq r1 b l" using more.hyps(1,2) True seq by (subst replayTail.simps) simp
    then show ?thesis using more.IH [OF more.prems(1) ks(3) more.prems(3), of l] more.prems(4) True ks(1) by (simp add: tail_of_def)
  next
    case False
    obtain b1 where b1: "applyRecord b res = Some b1" "book_inv b1" "ob_cfg b1 = ob_cfg b" "absb b1 = astate (ob_cfg b) (absb b) c"
      by (rule applyRecord_refines [OF more.prems(3) kc(2)]) (use ks(2) kc(1) in \<open>simp_all add: read_back_def\<close>)
    have "replayTail d sq r b l = replayTail d sq r1 b1 s" using more.hyps(1,2) False seq b1(1) by (subst replayTail.simps) simp
    then show ?thesis using more.IH [OF more.prems(1) ks(3) b1(2), of s] more.prems(4) False ks(1) b1(3,4) by (auto simp: tail_of_def)
  qed
qed

section \<open>Restoring a snapshot\<close>

lemma rest_in_last:
  assumes "\<forall>y \<in> set rs. prio s y r"
  shows "rest_in s r rs = rs @ [r]"
proof -
  have "\<forall>y \<in> set rs. \<not> better s (v_price r) (v_price y)" using assms prio_better by blast
  then show ?thesis by (simp add: rest_in_def takeWhile_eq_all_conv [THEN iffD2] dropWhile_eq_Nil_conv [THEN iffD2])
qed

lemma recordOrder_resting: "resting_of (recordOrder (record_of r) (v_side r)) (or_seq (record_of r)) (or_remaining (record_of r)) = r"
  "oside_of_code (or_side (record_of r)) = Some (v_side r)"
  by (simp_all add: resting_of_def recordOrder_def record_of_def)

lemma restore_one:
  assumes ok: "book_ok b" and r: "order_wf (ob_cfg b) s q r" "\<forall>y \<in> set (spec_side (absb b) s). prio s y r"
    "length (spec_orders (absb b)) < cfg_maxOrders (ob_cfg b)" "v_id r \<notin> v_id ` set (spec_orders (absb b))"
  obtains b' where "restoreResting b (recordOrder (record_of r) (v_side r)) (or_remaining (record_of r)) (or_seq (record_of r)) = Some (True, b')"
    "book_ok b'" "ob_cfg b' = ob_cfg b" "absb b' = set_spec_side (absb b) s (spec_side (absb b) s @ [r])"
proof -
  let ?o = "recordOrder (record_of r) (v_side r)"
  have o: "n_price ?o = v_price r" "n_id ?o = v_id r" "n_side ?o = s" using r(1) by (simp_all add: recordOrder_def record_of_def order_wf_def)
  have "find_order (absb b) (v_id r) = None" using r(4) by (simp add: find_order_None)
  then have ar: "arestore (ob_cfg b) (absb b) ?o (or_remaining (record_of r)) (or_seq (record_of r)) =
      (True, set_spec_side (absb b) s (spec_side (absb b) s @ [r]))"
    using r(3) rest_in_last [OF r(2)] by (simp add: arestore_def o recordOrder_resting)
  show thesis using restoreResting_refines [OF ok, of ?o "or_remaining (record_of r)" "or_seq (record_of r)"] r(1) ar that
    by (auto simp: o order_wf_def)
qed

lemma set_spec_side_twice: "set_spec_side (set_spec_side A s x) s y = set_spec_side A s y"
  by (simp add: set_spec_side_def)

lemma restore_side:
  assumes "book_ok b" "\<forall>r \<in> set rs. order_wf (ob_cfg b) s q r" "sorted_wrt (prio s) (spec_side (absb b) s @ rs)"
    "length (spec_orders (absb b)) + length rs \<le> cfg_maxOrders (ob_cfg b)" "distinct (map v_id (spec_orders (absb b) @ rs))"
  shows "\<exists>b'. (\<forall>rest. restoreOrders b (map record_of rs @ rest) = restoreOrders b' rest) \<and> book_ok b' \<and> ob_cfg b' = ob_cfg b \<and>
    absb b' = set_spec_side (absb b) s (spec_side (absb b) s @ rs)"
  using assms
proof (induction rs arbitrary: b)
  case Nil
  then show ?case by (intro exI [of _ b]) (auto simp: set_spec_side_def spec_side_def)
next
  case (Cons r rs)
  obtain b1 where b1: "restoreResting b (recordOrder (record_of r) (v_side r)) (or_remaining (record_of r)) (or_seq (record_of r)) = Some (True, b1)"
    "book_ok b1" "ob_cfg b1 = ob_cfg b" "absb b1 = set_spec_side (absb b) s (spec_side (absb b) s @ [r])"
    by (rule restore_one [OF Cons.prems(1), of s q r]) (use Cons.prems in \<open>auto simp: sorted_wrt_append\<close>)
  have perm: "set (spec_orders (absb b1)) = insert r (set (spec_orders (absb b)))" "length (spec_orders (absb b1)) = Suc (length (spec_orders (absb b)))"
    "distinct (map v_id (spec_orders (absb b1) @ rs)) \<longleftrightarrow> distinct (map v_id (spec_orders (absb b) @ r # rs))"
    unfolding b1(4) by (auto simp: spec_orders_def set_spec_side_def spec_side_def)
  have "\<exists>b'. (\<forall>rest. restoreOrders b1 (map record_of rs @ rest) = restoreOrders b' rest) \<and> book_ok b' \<and> ob_cfg b' = ob_cfg b1 \<and>
      absb b' = set_spec_side (absb b1) s (spec_side (absb b1) s @ rs)"
    by (rule Cons.IH [OF b1(2)]) (use Cons.prems perm b1(3,4) in \<open>simp_all add: spec_side_set\<close>)
  then obtain b' where b': "\<forall>rest. restoreOrders b1 (map record_of rs @ rest) = restoreOrders b' rest" "book_ok b'" "ob_cfg b' = ob_cfg b1"
      "absb b' = set_spec_side (absb b1) s (spec_side (absb b1) s @ rs)" by blast
  have "absb b' = set_spec_side (absb b) s (spec_side (absb b) s @ r # rs)" unfolding b'(4) b1(4) by (simp add: set_spec_side_twice)
  then show ?case using b' b1(1,3) recordOrder_resting(2) [of r] by (intro exI [of _ b']) simp
qed

definition aempty :: BookSpec where
  "aempty = \<lparr>sp_bids = [], sp_asks = [], sp_seq = 0, sp_nextTradeId = 0\<rparr>"

lemma restore_all:
  assumes cfg: "cfg_ok cfg" and wf: "spec_wf cfg A"
  shows "\<exists>b'. restoreOrders (newOrderBook cfg) (map record_of (spec_orders A)) = Some (True, b') \<and> book_ok b' \<and> ob_cfg b' = cfg \<and>
    absb b' = A\<lparr>sp_seq := 0, sp_nextTradeId := 0\<rparr>"
proof -
  let ?b = "newOrderBook cfg"
  note new = newOrderBook_ok [OF cfg]
  have side: "\<forall>r \<in> set (spec_side A s). order_wf cfg s (sp_seq A) r" "sorted_wrt (prio s) (spec_side A s)" for s
    using wf by (simp_all add: spec_wf_def side_wf_def)
  have ids: "distinct (map v_id (sp_bids A @ sp_asks A))" and len: "length (sp_bids A) + length (sp_asks A) \<le> cfg_maxOrders cfg"
    using wf by (simp_all add: spec_wf_def spec_orders_def)
  have "\<exists>b'. (\<forall>rest. restoreOrders ?b (map record_of (sp_bids A) @ rest) = restoreOrders b' rest) \<and> book_ok b' \<and> ob_cfg b' = ob_cfg ?b \<and>
      absb b' = set_spec_side (absb ?b) Buy (spec_side (absb ?b) Buy @ sp_bids A)"
    by (rule restore_side [where q = "sp_seq A"]) (use new side [of Buy] ids len in \<open>simp_all add: spec_side_def spec_orders_def\<close>)
  then obtain b1 where b1: "\<And>rest. restoreOrders ?b (map record_of (sp_bids A) @ rest) = restoreOrders b1 rest" "book_ok b1" "ob_cfg b1 = cfg"
      "absb b1 = \<lparr>sp_bids = sp_bids A, sp_asks = [], sp_seq = 0, sp_nextTradeId = 0\<rparr>"
    using new by (auto simp: spec_side_def set_spec_side_def)
  have "\<exists>b'. (\<forall>rest. restoreOrders b1 (map record_of (sp_asks A) @ rest) = restoreOrders b' rest) \<and> book_ok b' \<and> ob_cfg b' = ob_cfg b1 \<and>
      absb b' = set_spec_side (absb b1) Sell (spec_side (absb b1) Sell @ sp_asks A)"
    by (rule restore_side [where q = "sp_seq A"]) (use b1 side [of Sell] ids len in \<open>simp_all add: spec_side_def spec_orders_def\<close>)
  then obtain b2 where b2: "\<And>rest. restoreOrders b1 (map record_of (sp_asks A) @ rest) = restoreOrders b2 rest" "book_ok b2" "ob_cfg b2 = cfg"
      "absb b2 = \<lparr>sp_bids = sp_bids A, sp_asks = sp_asks A, sp_seq = 0, sp_nextTradeId = 0\<rparr>"
    using b1 by (auto simp: spec_side_def set_spec_side_def)
  moreover have "\<lparr>sp_bids = sp_bids A, sp_asks = sp_asks A, sp_seq = 0, sp_nextTradeId = 0\<rparr> = A\<lparr>sp_seq := 0, sp_nextTradeId := 0\<rparr>" by (cases A) simp
  moreover have "restoreOrders b1 (map record_of (sp_asks A)) = Some (True, b2)" using b2(1) [of "[]"] by simp
  ultimately show ?thesis using b1(1) [of "map record_of (sp_asks A)"] by (intro exI [of _ b2]) (simp add: spec_orders_def)
qed

text \<open>
  What the snapshot directory may hold at recovery: no valid snapshot, or one of the book after the first \<open>m\<close> commands.
\<close>

definition snapshot_holds :: "dir \<Rightarrow> BookConfig \<Rightarrow> BookSpec \<Rightarrow> nat \<Rightarrow> bool" where
  "snapshot_holds sd cfg A m \<longleftrightarrow>
     loadNewestValid sd = Some None \<and> m = 0 \<and> A = aempty \<or>
     (\<exists>sb. loadNewestValid sd = Some (Some (snapshot_of sb (int m) cfg)) \<and> absb sb = A \<and> spec_wf cfg A \<and> in_i64 (int m) \<and>
        in_i64 (sp_seq A) \<and> in_i64 (sp_nextTradeId A))"

definition recovered :: "RecoveryStatus \<Rightarrow> JournalReader \<Rightarrow> Seq \<Rightarrow> RecoveryResult" where
  "recovered st reader l =
     (let result = emptyRecovery\<lparr>rv_status := st, rv_lastSeq := l, rv_hasJournalSegment := hasOpenSegment reader\<rparr>
      in if rv_hasJournalSegment result
         then result\<lparr>rv_resumeSegmentPath := jr_currentPath reader, rv_resumeOffset := jr_offset reader,
                rv_resumeSegmentCreatedCounter := jr_currentCreatedCounter reader\<rparr>
         else result)"

lemma recover_replay:
  assumes cfg: "cfg_ok cfg" and sn: "snapshot_holds sd cfg A m"
  shows "\<exists>b1. book_inv b1 \<and> ob_cfg b1 = cfg \<and> absb b1 = A \<and>
    recover jd sd (newOrderBook cfg) =
      (case replayTail jd (int m) (newJournalReader jd) b1 (int m) of None \<Rightarrow> None | Some (st, reader, b2, l) \<Rightarrow> Some (recovered st reader l, b2))"
proof -
  note new = newOrderBook_ok [OF cfg] newOrderBook_inv [OF cfg]
  from sn consider "loadNewestValid sd = Some None" "m = 0" "A = aempty"
    | sb where "loadNewestValid sd = Some (Some (snapshot_of sb (int m) cfg))" "absb sb = A" "spec_wf cfg A" "in_i64 (int m)"
        "in_i64 (sp_seq A)" "in_i64 (sp_nextTradeId A)"
    unfolding snapshot_holds_def by blast
  then show ?thesis
  proof cases
    case 1
    then show ?thesis using new by (intro exI [of _ "newOrderBook cfg"]) (simp add: recover_def recovered_def Let_def aempty_def split: option.split)
  next
    case (2 sb)
    obtain b' where b': "restoreOrders (newOrderBook cfg) (map record_of (spec_orders A)) = Some (True, b')" "book_ok b'" "ob_cfg b' = cfg"
        "absb b' = A\<lparr>sp_seq := 0, sp_nextTradeId := 0\<rparr>"
      using restore_all [OF cfg 2(3)] by blast
    let ?b1 = "restoreCounters b' (sp_seq A) (sp_nextTradeId A)"
    have rc: "book_ok ?b1" "absb ?b1 = A" using restoreCounters_refines [OF b'(2), of "sp_seq A" "sp_nextTradeId A"] b'(4) by simp_all
    have c: "ob_cfg ?b1 = cfg" using b'(3) by (simp add: restoreCounters_def)
    have sb: "ob_seq sb = sp_seq A" "ob_nextTradeId sb = sp_nextTradeId A" using 2(2) by auto
    have h: "sint (sh_bookSeq (ls_header (snapshot_of sb (int m) cfg))) = sp_seq A" "sint (sh_nextTradeId (ls_header (snapshot_of sb (int m) cfg))) = sp_nextTradeId A"
      "sint (sh_globalSeq (ls_header (snapshot_of sb (int m) cfg))) = int m" "ls_orders (snapshot_of sb (int m) cfg) = map record_of (spec_orders A)"
      using 2(2,4-6) sb sint_of_int64 [OF 2(4)] by (simp_all add: snapshot_of_def snapshotHeaderOf_def sint_of_int64)
    have "book_inv ?b1" using rc c 2(3) by (simp add: book_inv_def)
    then show ?thesis using rc c b'(1) 2(1) h
      by (intro exI [of _ ?b1]) (simp add: recover_def recovered_def Let_def split: option.split)
  qed
qed

text \<open>The sequence numbers of a journal count from one.\<close>

lemma tail_of_drop:
  assumes "map fst ks = map (\<lambda>i. 1 + int i) [0..<length ks]" "m \<le> length ks"
  shows "tail_of (int m) ks = drop m ks" "last (int m # map fst (drop m ks)) = int (length ks)"
proof -
  have nth: "fst (ks ! i) = 1 + int i" if "i < length ks" for i
    using arg_cong [OF assms(1), of "\<lambda>xs. xs ! i"] that by simp
  have lo: "fst x \<le> int m" if x: "x \<in> set (take m ks)" for x
  proof -
    obtain i where "i < m" "i < length ks" "x = ks ! i" using x by (auto simp: in_set_conv_nth)
    then show ?thesis using nth [of i] by simp
  qed
  have hi: "int m < fst x" if x: "x \<in> set (drop m ks)" for x
  proof -
    obtain i where "i < length ks - m" "x = ks ! (m + i)" using x by (auto simp: in_set_conv_nth)
    then show ?thesis using nth [of "m + i"] by simp
  qed
  have "filter (\<lambda>(s, k, c). s > int m) (take m ks) = []" "filter (\<lambda>(s, k, c). s > int m) (drop m ks) = drop m ks"
    using lo hi by (force simp: filter_empty_conv filter_id_conv)+
  moreover have "filter (\<lambda>(s, k, c). s > int m) ks = filter (\<lambda>(s, k, c). s > int m) (take m ks @ drop m ks)" by simp
  ultimately show "tail_of (int m) ks = drop m ks" unfolding tail_of_def filter_append by simp
  show "last (int m # map fst (drop m ks)) = int (length ks)"
  proof (cases "m = length ks")
    case False
    then have "drop m ks \<noteq> []" using assms(2) by simp
    then have "last (map fst (drop m ks)) = fst (last ks)" by (simp add: last_map)
    also have "\<dots> = int (length ks)" using nth [of "length ks - 1"] assms(2) False by (cases "ks = []") (simp_all add: last_conv_nth)
    finally show ?thesis using \<open>drop m ks \<noteq> []\<close> by simp
  qed simp
qed

lemma recover_run:
  assumes cfg: "cfg_ok cfg" and dr: "drains jd (newJournalReader jd) (map read_back ks) f r" "clean f"
    and ks: "\<forall>(s, k, c) \<in> set ks. replayable cfg k c" "map fst ks = map (\<lambda>i. 1 + int i) [0..<length ks]" "m \<le> length ks"
    and sn: "snapshot_holds sd cfg (foldl (astate cfg) aempty (map (\<lambda>(s, k, c). c) (take m ks))) m"
  shows "\<exists>b'. recover jd sd (newOrderBook cfg) = Some (recovered (recovery_status f) r (int (length ks)), b') \<and> book_inv b' \<and> ob_cfg b' = cfg \<and>
    absb b' = foldl (astate cfg) aempty (map (\<lambda>(s, k, c). c) ks)"
proof -
  obtain b1 where b1: "book_inv b1" "ob_cfg b1 = cfg" "absb b1 = foldl (astate cfg) aempty (map (\<lambda>(s, k, c). c) (take m ks))"
    "recover jd sd (newOrderBook cfg) =
      (case replayTail jd (int m) (newJournalReader jd) b1 (int m) of None \<Rightarrow> None | Some (st, reader, b2, l) \<Rightarrow> Some (recovered st reader l, b2))"
    using recover_replay [OF cfg sn] by blast
  note td = tail_of_drop [OF ks(2,3)]
  obtain b' where b': "replayTail jd (int m) (newJournalReader jd) b1 (int m) = Some (recovery_status f, r, b', int (length ks))" "book_inv b'" "ob_cfg b' = cfg"
      "absb b' = foldl (astate cfg) (absb b1) (map (\<lambda>(s, k, c). c) (drop m ks))"
    using replayTail_drains [OF dr refl b1(1), of "int m" "int m"] ks(1) b1(2) unfolding td by auto
  have "map (\<lambda>(s, k, c). c) ks = map (\<lambda>(s, k, c). c) (take m ks) @ map (\<lambda>(s, k, c). c) (drop m ks)"
    unfolding map_append [symmetric] append_take_drop_id ..
  then have "absb b' = foldl (astate cfg) aempty (map (\<lambda>(s, k, c). c) ks)" using b'(4) b1(3) by (simp only: foldl_append)
  then show ?thesis using b' b1(4) by simp
qed

lemma dispatch_run_state:
  assumes "mt_inv mt" "\<forall>c \<in> set cs. cmd_ok (ob_cfg (mt_book mt)) c"
  shows "\<exists>mt' es. run_with dispatch mt cs = Some (mt', es) \<and> mt_inv mt' \<and> ob_cfg (mt_book mt') = ob_cfg (mt_book mt) \<and>
    absb (mt_book mt') = foldl (astate (ob_cfg (mt_book mt))) (absb (mt_book mt)) cs"
  using assms
proof (induction cs arbitrary: mt)
  case (Cons c cs)
  obtain A' es where ad: "adispatch (ob_cfg (mt_book mt)) (absb (mt_book mt)) (mt_dispatchSeq mt + 1) c = (A', es)" by fastforce
  then have A': "A' = astate (ob_cfg (mt_book mt)) (absb (mt_book mt)) c" using adispatch_state by (metis fst_conv)
  obtain mt1 where m: "dispatch mt c = Some (mt1, es)" "mt_inv mt1" "absb (mt_book mt1) = A'" "ob_cfg (mt_book mt1) = ob_cfg (mt_book mt)"
    using dispatch_refines [OF Cons.prems(1) _ ad] Cons.prems(2) by auto
  then show ?case using Cons.IH [OF m(2)] Cons.prems(2) A' by auto
qed simp

section \<open>sequencer/snapshot\_thread.hpp\<close>

partial_function (option) replayUpTo :: "dir \<Rightarrow> JournalReader \<Rightarrow> OrderBook \<Rightarrow> Seq \<Rightarrow> OrderBook option" where
  "replayUpTo d reader shadow targetSeq =
     (let (r, reader1) = jr_next d reader
      in if rr_status r \<noteq> RdOk \<or> rr_globalSeq r > targetSeq then Some shadow
         else do {
           shadow1 \<leftarrow> applyRecord shadow r;
           replayUpTo d reader1 shadow1 targetSeq
         })"

text \<open>
  \<^verbatim>\<open>SnapshotThread::replayUpTo\<close> and \<^verbatim>\<open>RecoveryManager::applyRecord\<close> hold the same switch over the kind of a record, so \<^const>\<open>applyRecord\<close>
  models both. The journal directory is read and the snapshot directory is written.
\<close>

definition snapshotNowSync :: "env \<Rightarrow> dir \<Rightarrow> SnapshotWriter \<Rightarrow> BookConfig \<Rightarrow> Seq \<Rightarrow> (bool \<times> SnapshotWriter) option" where
  "snapshotNowSync io journalDir sw cfg targetSeq = do {
     shadow \<leftarrow> replayUpTo journalDir (newJournalReader journalDir) (newOrderBook cfg) targetSeq;
     sw_write io sw shadow targetSeq cfg
   }"

text \<open>One turn of the background loop: \<open>lastDone\<close> is the last target that was written.\<close>

definition snapshotTurn :: "env \<Rightarrow> dir \<Rightarrow> SnapshotWriter \<Rightarrow> BookConfig \<Rightarrow> Seq \<Rightarrow> Seq \<Rightarrow> (Seq \<times> nat \<times> SnapshotWriter) option" where
  "snapshotTurn io journalDir sw cfg target lastDone =
     (if target > lastDone
      then do {
        (ok, sw1) \<leftarrow> snapshotNowSync io journalDir sw cfg target;
        Some (if ok then (target, 1, sw1) else (lastDone, 0, sw1))
      }
      else Some (lastDone, 0, sw))"

lemma replayUpTo_drains:
  assumes "drains d r recs f r'" "recs = map read_back ks" "book_inv b" "\<forall>(s, k, c) \<in> set ks. replayable (ob_cfg b) k c"
  shows "\<exists>b'. replayUpTo d r b sq = Some b' \<and> book_inv b' \<and> ob_cfg b' = ob_cfg b \<and>
    absb b' = foldl (astate (ob_cfg b)) (absb b) (map (\<lambda>(s, k, c). c) (takeWhile (\<lambda>(s, k, c). s \<le> sq) ks))"
  using assms
proof (induction arbitrary: ks b rule: drains.induct)
  case (fin r res r')
  then show ?case by (subst replayUpTo.simps) simp
next
  case (more r res r1 rs f r')
  obtain s k c ks' where ks: "ks = (s, k, c) # ks'" "rec_of res = read_back (s, k, c)" "rs = map read_back ks'"
    using more.prems(1) by (cases ks) auto
  have kc: "k = c_kind c" "cmd_ok (ob_cfg b) c" using more.prems(3) ks(1) by (simp_all add: replayable_def)
  have seq: "rr_globalSeq res = s" using ks(2) by (simp add: rec_of_def read_back_def)
  show ?case
  proof (cases "s \<le> sq")
    case True
    obtain b1 where b1: "applyRecord b res = Some b1" "book_inv b1" "ob_cfg b1 = ob_cfg b" "absb b1 = astate (ob_cfg b) (absb b) c"
      by (rule applyRecord_refines [OF more.prems(2) kc(2)]) (use ks(2) kc(1) in \<open>simp_all add: read_back_def\<close>)
    have "replayUpTo d r b sq = replayUpTo d r1 b1 sq" using more.hyps(1,2) True seq b1(1) by (subst replayUpTo.simps) simp
    then show ?thesis using more.IH [OF ks(3) b1(2)] more.prems(3) True ks(1) b1(3,4) by auto
  next
    case False
    then have "replayUpTo d r b sq = Some b" using more.hyps(1,2) seq by (subst replayUpTo.simps) simp
    then show ?thesis using False ks(1) more.prems(2) by simp
  qed
qed

lemma takeWhile_seqs:
  assumes "map fst ks = map (\<lambda>i. 1 + int i) [0..<length ks]" "m \<le> length ks"
  shows "takeWhile (\<lambda>(s, k, c). s \<le> int m) ks = take m ks"
proof -
  have nth: "fst (ks ! i) = 1 + int i" if "i < length ks" for i
    using arg_cong [OF assms(1), of "\<lambda>xs. xs ! i"] that by simp
  show ?thesis
  proof (rule takeWhile_eq_take_P_nth)
    show "(\<lambda>(s, k, c). s \<le> int m) (ks ! i)" if "i < m" "i < length ks" for i using nth [OF that(2)] that(1) by (simp add: case_prod_beta)
    show "\<not> (\<lambda>(s, k, c). s \<le> int m) (ks ! m)" if "m < length ks" using nth [OF that] by (simp add: case_prod_beta)
  qed
qed

text \<open>The snapshot thread leaves a snapshot of the book after the first \<open>m\<close> commands of the journal.\<close>

lemma snapshot_taken:
  assumes cfg: "cfg_ok cfg" "cfg_fits cfg" and dr: "drains jd (newJournalReader jd) (map read_back ks) f r"
    and ks: "\<forall>(s, k, c) \<in> set ks. replayable cfg k c" "map fst ks = map (\<lambda>i. 1 + int i) [0..<length ks]" "m \<le> length ks" "in_i64 (int m)"
    and A: "A = foldl (astate cfg) aempty (map (\<lambda>(s, k, c). c) (take m ks))" "\<forall>x \<in> set (spec_orders A). resting_fits x" "in_i64 (sp_seq A)" "in_i64 (sp_nextTradeId A)"
    and wr: "snapshotNowSync io jd sw cfg (int m) = Some (True, sw')" and d: "distinct (map fst (w_dir (sw_world sw)))" "0 < sw_retention sw"
      "\<forall>n \<in> set (snapshot_files (w_dir (sw_world sw))). n \<le> finalName (int m)"
  shows "snapshot_holds (w_dir (sw_world sw')) cfg A m"
proof -
  have new: "book_inv (newOrderBook cfg)" "ob_cfg (newOrderBook cfg) = cfg" "absb (newOrderBook cfg) = aempty"
    using newOrderBook_inv [OF cfg(1)] newOrderBook_ok [OF cfg(1)] by (simp_all add: aempty_def)
  obtain b where b: "replayUpTo jd (newJournalReader jd) (newOrderBook cfg) (int m) = Some b" "book_inv b" "ob_cfg b = cfg" "absb b = A"
    using replayUpTo_drains [OF dr refl new(1), of "int m"] ks(1) new(2,3) takeWhile_seqs [OF ks(2,3)] A(1) by auto
  have w: "sw_write io sw b (int m) cfg = Some (True, sw')" using wr b(1) by (simp add: snapshotNowSync_def)
  have wf: "spec_wf cfg A" using book_invD(2) [OF b(2)] b(3,4) by simp
  have "loadNewestValid (w_dir (sw_world sw')) = Some (Some (snapshot_of b (int m) cfg))"
    by (rule snapshot_loads [OF book_invD(1) [OF b(2)] cfg(2) _ _ w d]) (use A(2) b(4) wf in \<open>simp_all add: spec_wf_def\<close>)
  then show ?thesis using b(4) wf ks(4) A(3,4) unfolding snapshot_holds_def by blast
qed

end
