(* ===== verification/Persistence_Properties.thy ===== *)
theory Persistence_Properties
  imports Recovery "HOL-Library.Sublist"
begin

text \<open>
  The properties of the journal, the sequencer, the snapshots and recovery.
\<close>

section \<open>A small session\<close>

definition demo_world :: world where
  "demo_world = \<lparr>w_dir = [], w_calls = 0\<rparr>"

definition demo_sequencer :: "FsyncPolicy \<Rightarrow> nat \<Rightarrow> Sequencer" where
  "demo_sequencer policy groupSize =
     newSequencer (newJournalWriter demo_world 4096 policy groupSize) (newSpscRing (demo_cmd New 0 0 0 Buy) 2) 0"

definition demo_submit_op :: seq_op where
  "demo_submit_op = Submit [0, 0, 0, 0, 0] New (demo_cmd New 1 101 5 Sell)"

lemma ring_size_two [simp]: "ring_size 2"
  unfolding ring_size_def by (rule exI [of _ 1]) simp

lemma demo_sequencer_inv: "seq_inv (demo_sequencer policy groupSize) [] None"
  unfolding demo_sequencer_def by (rule new_seq_inv) (simp_all add: demo_world_def)

lemma demo_submit_ok: "op_ok (replayable demo_cfg) demo_submit_op"
  by (simp add: op_ok_def demo_submit_op_def cmd_fits_def demo_cmd_def in_i64_def replayable_def cmd_ok_def demo_on_tick)

lemma encodeRecord_length: "length pad = 5 \<Longrightarrow> length (encodeRecord pad s k c) = kRecordSize"
  by (simp add: encodeRecord_def Let_def kRecordSize_def kRecordFixedSize_def kCommandSize_def kRecordCrcSize_def)

text \<open>One command, acknowledged by a disk on which every call succeeds.\<close>

lemma demo_session:
  obtains sq' where "session (\<lambda>_. Done) (demo_sequencer policy groupSize) [demo_submit_op] = ([(1, New, demo_cmd New 1 101 5 Sell)], [], sq')"
    "sq_journal sq' = snd (jw_append (\<lambda>_. Done) [0, 0, 0, 0, 0] (newJournalWriter demo_world 4096 policy groupSize) 1 New (demo_cmd New 1 101 5 Sell))"
proof -
  let ?c = "demo_cmd New 1 101 5 Sell"
  have len: "length (encodeRecord [0, 0, 0, 0, 0] s k c) = kRecordSize" for s k c by (rule encodeRecord_length) simp
  have cl: "sr_tryClaim (newSpscRing (demo_cmd New 0 0 0 Buy) 2) = (Some 0, newSpscRing (demo_cmd New 0 0 0 Buy) 2)"
    by (simp add: sr_tryClaim_def newSpscRing_def sr_capacity_def ring_mask_def)
  have "fst (jw_append (\<lambda>_. Done) [0, 0, 0, 0, 0] (newJournalWriter demo_world 4096 policy groupSize) 1 New ?c)"
    by (simp add: jw_append_def newJournalWriter_def openSegment_def demo_world_def sys_create_def sys_write_def sys_fsync_def put_file_def
        tick_call_def Let_def len jw_sync_def)
  then obtain jw where ap: "jw_append (\<lambda>_. Done) [0, 0, 0, 0, 0] (newJournalWriter demo_world 4096 policy groupSize) 1 New ?c = (True, jw)"
    by (metis prod.collapse)
  let ?sq = "(demo_sequencer policy groupSize)\<lparr>sq_ring := sr_publish (sr_write (newSpscRing (demo_cmd New 0 0 0 Buy) 2) 0 ?c), sq_journal := jw, sq_seq := 1\<rparr>"
  show thesis by (rule that [of ?sq]) (simp_all add: demo_submit_op_def demo_sequencer_def newSequencer_def trySubmit_def cl ap Let_def)
qed

lemma crash_of_journal:
  assumes "journal_state dir init cur"
  obtains d where "crash_dir dir d"
proof -
  define d where "d = map (\<lambda>(n, f). (n, \<lparr>f_bytes = f_bytes f, f_synced = length (f_bytes f)\<rparr>)) (disk_of init cur)"
  have sy: "f_synced f \<le> length (f_bytes f)" if "(n, f) \<in> set (disk_of init cur)" for n f
    using that assms by (auto simp: journal_state_def disk_of_def closed_file_def current_file_def cursor_ok_def split: option.splits)
  have "list_all2 (\<lambda>(n, f) (n', g). crash_file f g) (disk_of init cur) d"
    using sy unfolding d_def by (auto simp: list_all2_map2 list_all2_same crash_file_def)
  moreover have "map fst d = map fst (disk_of init cur)" by (simp add: d_def case_prod_beta o_def del: disk_names)
  ultimately have "crash_dir (disk_of init cur) d" by (simp add: crash_dir_def)
  then show thesis using that assms by (simp add: journal_state_def)
qed

lemma crash_exists:
  assumes "seq_inv sq [] None" "list_all (op_ok P) ops" "length ops < 10 ^ 16" "session io sq ops = (acked, taken, sq')"
  obtains d where "crash_dir (w_dir (jw_world (sq_journal sq'))) d"
proof -
  have "session_end P sq [] None acked taken sq'" by (rule session_inv [OF assms(1,2) _ assms(4)]) (use assms(3) in simp)
  then obtain init cur where "journal_state (w_dir (jw_world (sq_journal sq'))) init cur" by (auto simp: session_end_def)
  then show thesis by (rule crash_of_journal) (rule that)
qed

lemma take_upt_min: "take n [0..<l] = [0..<min l n]"
  by (cases "n \<le> l") simp_all

text \<open>Recovery from a journal that reads back as \<open>ks\<close>, and a matching thread that executes \<open>ks\<close>.\<close>

lemma recover_as_run:
  assumes cfg: "cfg_ok cfg" and dr: "drains jd (newJournalReader jd) (map read_back ks) f r" "clean f"
    and ks: "\<forall>(s, k, c) \<in> set ks. replayable cfg k c" "map fst ks = map (\<lambda>i. 1 + int i) [0..<length ks]" "m \<le> length ks"
    and sn: "snapshot_holds sd cfg (foldl (astate cfg) aempty (map (\<lambda>(s, k, c). c) (take m ks))) m"
  shows "\<exists>res b mt es. recover jd sd (newOrderBook cfg) = Some (res, b) \<and> book_inv b \<and>
    run_with dispatch (newMatchingThread cfg) (map (\<lambda>(s, k, c). c) ks) = Some (mt, es) \<and>
    absb b = absb (mt_book mt) \<and> computeDigest b = computeDigest (mt_book mt) \<and>
    rv_status res \<noteq> RecoveryCorrupt \<and> rv_lastSeq res = int (length ks)"
proof -
  let ?res = "recovered (recovery_status f) r (int (length ks))"
  obtain b where b: "recover jd sd (newOrderBook cfg) = Some (?res, b)" "book_inv b" "absb b = foldl (astate cfg) aempty (map (\<lambda>(s, k, c). c) ks)"
    using recover_run [OF assms] by blast
  have new: "absb (mt_book (newMatchingThread cfg)) = aempty" "ob_cfg (mt_book (newMatchingThread cfg)) = cfg"
    using newOrderBook_ok [OF cfg] by (simp_all add: newMatchingThread_def aempty_def)
  have "\<forall>c \<in> set (map (\<lambda>(s, k, c). c) ks). cmd_ok (ob_cfg (mt_book (newMatchingThread cfg))) c" unfolding new(2) using ks(1) by (auto simp: replayable_def)
  from dispatch_run_state [OF newMatchingThread_inv [OF cfg] this] obtain mt es where
    mt: "run_with dispatch (newMatchingThread cfg) (map (\<lambda>(s, k, c). c) ks) = Some (mt, es)" "mt_inv mt" "absb (mt_book mt) = absb b"
    unfolding new b(3) by blast
  have "computeDigest b = computeDigest (mt_book mt)"
    using computeDigest_absb [OF book_invD(1) [OF b(2)]] computeDigest_absb [OF book_invD(1), of "mt_book mt"] mt(2,3) by (simp add: mt_inv_def)
  moreover have "rv_status ?res \<noteq> RecoveryCorrupt" "rv_lastSeq ?res = int (length ks)"
    by (simp_all add: recovered_def recovery_status_def emptyRecovery_def Let_def)
  ultimately show ?thesis using b(1,2) mt(1,3) by metis
qed

text \<open>What was submitted in a session, and that nothing else is acknowledged.\<close>

fun submitted :: "seq_op list \<Rightarrow> (CommandKind \<times> Command) list" where
  "submitted [] = []"
| "submitted (Submit pad k c # ops) = (k, c) # submitted ops"
| "submitted (Take # ops) = submitted ops"

lemma ops_submitted: "list_all (op_ok P) ops \<Longrightarrow> list_all (op_ok (\<lambda>k c. P k c \<and> (k, c) \<in> set (submitted ops))) ops"
proof -
  have "(k, c) \<in> set (submitted ops)" if "Submit pad k c \<in> set ops" for pad k c
    using that by (induction ops rule: submitted.induct) auto
  then show "list_all (op_ok P) ops \<Longrightarrow> ?thesis" by (auto simp: list_all_iff op_ok_def split: seq_op.splits)
qed

lemma session_submitted: "session io sq ops = (acked, taken, sq') \<Longrightarrow> subseq (map snd acked) (submitted ops)"
proof (induction io sq ops arbitrary: acked taken sq' rule: session.induct)
  case (2 io sq pad kind cmd ops)
  then show ?case by (auto simp: Let_def split: prod.splits Outcome.splits)
qed (auto simp: Let_def split: prod.splits)

section \<open>Properties\<close>

text \<open>
  C7: Crash recovery. Fewer than 10 to the 16 commands, with fields that fit their types and limit prices on the tick grid, are submitted to a fresh sequencer over a disk whose calls fail or write
  short as they please, until a first submission is refused for want of durability (where the caller must stop, as \<^verbatim>\<open>sequencer.hpp\<close> requires)
  or the machine crashes. The crash keeps every directory entry, and of every file the synced bytes and a prefix of what was
  written behind them. The recovered book, rebuilt from whatever the crash left of the journal and from a valid snapshot of a point whose
  commands are durable if there is one, is the book that a matching thread has after executing a prefix of the sequenced commands: the acknowledged ones,
  which are submitted commands in the order of submission, and at most one more submitted command, whose record was being written. The
  prefix contains every acknowledged command but those the fsync policy may leave unsynced. Recovery never reports corruption, and the
  sequence number it hands to the sequencer is the length of the prefix.
\<close>

theorem crash_recovery:
  assumes "cfg_ok cfg" "w_dir w = []" "ring_size cap" "list_all (op_ok (replayable cfg)) ops" "length ops < 10 ^ 16"
    and "session io (newSequencer (newJournalWriter w rollBytes policy groupSize) (newSpscRing c0 cap) 0) ops = (acked, taken, sq')"
    and "crash_dir (w_dir (jw_world (sq_journal sq'))) jd"
    and "m \<le> length acked - unsynced_bound (newJournalWriter w rollBytes policy groupSize)"
    and "snapshot_holds sd cfg (foldl (astate cfg) aempty (map (\<lambda>(s, k, c). c) (take m acked))) m"
  shows "\<exists>ks extra res b mt es. recover jd sd (newOrderBook cfg) = Some (res, b) \<and> book_inv b \<and>
    run_with dispatch (newMatchingThread cfg) (map (\<lambda>(s, k, c). c) ks) = Some (mt, es) \<and>
    absb b = absb (mt_book mt) \<and> computeDigest b = computeDigest (mt_book mt) \<and>
    rv_status res \<noteq> RecoveryCorrupt \<and> rv_lastSeq res = int (length ks) \<and>
    length extra \<le> 1 \<and> take (length ks) (acked @ extra) = ks \<and>
    subseq (map snd acked) (submitted ops) \<and> set (map snd extra) \<subseteq> set (submitted ops) \<and>
    length acked - unsynced_bound (newJournalWriter w rollBytes policy groupSize) \<le> length ks"
proof -
  let ?sq = "newSequencer (newJournalWriter w rollBytes policy groupSize) (newSpscRing c0 cap) 0"
  have inv: "seq_inv ?sq [] None" by (rule new_seq_inv [OF assms(2,3)])
  have jw: "sq_journal ?sq = newJournalWriter w rollBytes policy groupSize" by (simp add: newSequencer_def)
  from session_crash [OF inv ops_submitted [OF assms(4)] assms(5-7)] obtain extra n f r where
    x: "drains jd (newJournalReader jd) (map read_back (take n (acked @ extra))) f r" "clean f" "length extra \<le> 1"
      "\<forall>(s, k, c) \<in> set (acked @ extra). replayable cfg k c \<and> (k, c) \<in> set (submitted ops)" "map fst (acked @ extra) = map (\<lambda>i. 1 + int i) [0..<length (acked @ extra)]"
      "length acked \<le> n + unsynced_bound (newJournalWriter w rollBytes policy groupSize)"
    unfolding jw by blast
  define xs where "xs = acked @ extra"
  define ks where "ks = take n xs"
  have len: "length acked \<le> length xs" by (simp add: xs_def)
  have m: "m \<le> n" "m \<le> length acked" using assms(8) x(6) by linarith+
  then have tk: "take m ks = take m acked" "m \<le> length ks" by (simp_all add: ks_def xs_def)
  have rp: "\<forall>(s, k, c) \<in> set ks. replayable cfg k c" using x(4) unfolding ks_def xs_def by (blast dest: in_set_takeD)
  have sq: "map fst ks = map (\<lambda>i. 1 + int i) [0..<length ks]"
    using arg_cong [OF x(5) [folded xs_def], of "take n"] by (simp add: ks_def take_map take_upt_min)
  have "take (length ks) (acked @ extra) = ks" by (simp add: ks_def xs_def [symmetric] min_def)
  moreover have "set (map snd extra) \<subseteq> set (submitted ops)" using x(4) by fastforce
  moreover have "length acked - unsynced_bound (newJournalWriter w rollBytes policy groupSize) \<le> length ks" using x(6) len unfolding ks_def length_take by linarith
  ultimately show ?thesis
    using recover_as_run [OF assms(1) x(1) [folded xs_def, folded ks_def] x(2) rp sq tk(2), unfolded tk(1), OF assms(9)] x(3) session_submitted [OF assms(6)] by metis
qed

lemma no_snapshot: "snapshot_holds [] cfg aempty 0"
  by (simp add: snapshot_holds_def loadNewestValid_def snapshot_files_def)

theorem crash_recovery_witness:
  "\<exists>acked taken sq' jd ks res b mt es. session (\<lambda>_. Done) (demo_sequencer PerRecord 1) [demo_submit_op] = (acked, taken, sq') \<and>
     acked = [(1, New, demo_cmd New 1 101 5 Sell)] \<and> crash_dir (w_dir (jw_world (sq_journal sq'))) jd \<and>
     recover jd [] (newOrderBook demo_cfg) = Some (res, b) \<and> take 1 ks = acked \<and>
     run_with dispatch (newMatchingThread demo_cfg) (map (\<lambda>(s, k, c). c) ks) = Some (mt, es) \<and> absb b = absb (mt_book mt) \<and> rv_status res \<noteq> RecoveryCorrupt"
proof -
  let ?jw = "newJournalWriter demo_world 4096 PerRecord 1" and ?c = "demo_cmd New 1 101 5 Sell"
  obtain sq' where ss: "session (\<lambda>_. Done) (demo_sequencer PerRecord 1) [demo_submit_op] = ([(1, New, ?c)], [], sq')" by (rule demo_session)
  have ops: "list_all (op_ok (replayable demo_cfg)) [demo_submit_op]" using demo_submit_ok by simp
  obtain jd where jd: "crash_dir (w_dir (jw_world (sq_journal sq'))) jd" by (rule crash_exists [OF demo_sequencer_inv ops _ ss]) simp
  have u: "unsynced_bound ?jw = 0" by (simp add: unsynced_bound_def newJournalWriter_def)
  have pre: "w_dir demo_world = []" "ring_size 2" "length [demo_submit_op] < 10 ^ 16" "0 \<le> length [(1 :: int, New, ?c)] - unsynced_bound ?jw"
    "snapshot_holds [] demo_cfg (foldl (astate demo_cfg) aempty (map (\<lambda>(s, k, c). c) (take 0 [(1 :: int, New, ?c)]))) 0"
    using no_snapshot by (simp_all add: demo_world_def)
  from crash_recovery [OF demo_cfg_ok pre(1,2) ops pre(3) ss [unfolded demo_sequencer_def] jd pre(4,5)] obtain ks extra res b mt es where
    r: "recover jd [] (newOrderBook demo_cfg) = Some (res, b)"
    "run_with dispatch (newMatchingThread demo_cfg) (map (\<lambda>(s, k, c). c) ks) = Some (mt, es)" "absb b = absb (mt_book mt)" "rv_status res \<noteq> RecoveryCorrupt"
    "take (length ks) ([(1 :: int, New, ?c)] @ extra) = ks" "length [(1 :: int, New, ?c)] - unsynced_bound ?jw \<le> length ks" by blast
  have "take 1 ks = take 1 (take (length ks) ([(1, New, ?c)] @ extra))" by (simp only: r(5))
  also have "\<dots> = [(1, New, ?c)]" using r(6) u by (cases "length ks") (simp_all add: min_def)
  finally have "take 1 ks = [(1, New, ?c)]" .
  then show ?thesis using ss jd r(1-4) by blast
qed

text \<open>
  C8: Durability before acknowledgement. Fewer than 10 to the 16 commands, with fields that fit their types, are submitted to a fresh sequencer over a disk whose calls fail or write short as they
  please, until a submission is refused for want of durability (where the caller must stop) or the machine crashes; the crash keeps
  directory entries, synced bytes, and a prefix of what was written behind them. The journal reader then returns, numbered from
  one without a gap and without reporting corruption, a prefix of the acknowledged commands and at most one more submitted command. None
  of the acknowledged ones is missing but the last few that the fsync policy may leave unsynced, which is none at all when every record is
  synced. What the consumer took from the ring, followed by what is still in it, are exactly the acknowledged commands, which are
  submitted commands in the order of submission.
\<close>

theorem acknowledged_is_durable:
  assumes "w_dir w = []" "ring_size cap" "list_all (op_ok (\<lambda>_ _. True)) ops" "length ops < 10 ^ 16"
    and "session io (newSequencer (newJournalWriter w rollBytes policy groupSize) (newSpscRing c0 cap) 0) ops = (acked, taken, sq')"
    and "crash_dir (w_dir (jw_world (sq_journal sq'))) d"
  shows "\<exists>extra n f r. drains d (newJournalReader d) (map read_back (take n (acked @ extra))) f r \<and>
    rr_status f \<in> {EndOfJournal, TruncatedTail} \<and> length extra \<le> 1 \<and>
    map fst (acked @ extra) = map (\<lambda>i. 1 + int i) [0..<length (acked @ extra)] \<and>
    subseq (map snd acked) (submitted ops) \<and> set (map snd extra) \<subseteq> set (submitted ops) \<and>
    length acked \<le> n + (if policy = PerRecord then 0 else max 1 groupSize - 1) \<and>
    map (\<lambda>(s, k, c). c) acked = taken @ sr_contents (sq_ring sq')"
proof -
  have c0: "sr_contents (newSpscRing c0 cap) = []" by (simp add: sr_contents_def newSpscRing_def)
  have u: "unsynced_bound (newJournalWriter w rollBytes policy groupSize) = (if policy = PerRecord then 0 else max 1 groupSize - 1)"
    by (simp add: unsynced_bound_def newJournalWriter_def max_def)
  from session_crash [OF new_seq_inv [OF assms(1,2)] ops_submitted [OF assms(3)] assms(4-6)] obtain extra n f r where
    x: "drains d (newJournalReader d) (map read_back (take n (acked @ extra))) f r" "clean f" "length extra \<le> 1"
    "\<forall>(s, k, c) \<in> set (acked @ extra). True \<and> (k, c) \<in> set (submitted ops)" "map fst (acked @ extra) = map (\<lambda>i. 1 + int i) [0..<length (acked @ extra)]"
    "length acked \<le> n + unsynced_bound (newJournalWriter w rollBytes policy groupSize)"
    "map (\<lambda>(s, k, c). c) acked = taken @ sr_contents (sq_ring sq')"
    unfolding newSequencer_def Sequencer.select_convs c0 append_Nil by blast
  have "set (map snd extra) \<subseteq> set (submitted ops)" using x(4) by fastforce
  then show ?thesis using x session_submitted [OF assms(5)] unfolding u clean_def by blast
qed

theorem acknowledged_is_durable_witness:
  "\<exists>acked taken sq' d extra n f r. session (\<lambda>_. Done) (demo_sequencer PerRecord 1) [demo_submit_op] = (acked, taken, sq') \<and>
     acked = [(1, New, demo_cmd New 1 101 5 Sell)] \<and> crash_dir (w_dir (jw_world (sq_journal sq'))) d \<and>
     drains d (newJournalReader d) (map read_back (take n (acked @ extra))) f r \<and> 1 \<le> n"
proof -
  let ?c = "demo_cmd New 1 101 5 Sell"
  obtain sq' where ss: "session (\<lambda>_. Done) (demo_sequencer PerRecord 1) [demo_submit_op] = ([(1, New, ?c)], [], sq')" by (rule demo_session)
  have ops: "list_all (op_ok (\<lambda>_ _. True)) [demo_submit_op]" by (simp add: op_ok_def demo_submit_op_def cmd_fits_def demo_cmd_def in_i64_def)
  obtain d where d: "crash_dir (w_dir (jw_world (sq_journal sq'))) d" by (rule crash_exists [OF demo_sequencer_inv ops _ ss]) simp
  from acknowledged_is_durable [OF _ _ ops _ ss [unfolded demo_sequencer_def] d] obtain extra n f r where
    "drains d (newJournalReader d) (map read_back (take n ([(1, New, ?c)] @ extra))) f r" "1 \<le> n"
    by (auto simp: demo_world_def)
  with ss d show ?thesis by blast
qed

section \<open>Damage\<close>

lemma update_differs: "i < length xs \<Longrightarrow> xs ! i \<noteq> b \<Longrightarrow> xs[i := b] \<noteq> xs"
  by (metis nth_list_update_eq)

lemma getU32_changed:
  assumes "i < 4" "putU32 w ! i \<noteq> b"
  shows "getU32 ((putU32 w)[i := b] @ rest) \<noteq> w"
proof -
  let ?t = "(putU32 w)[i := b]"
  have len: "length ?t = 4" by simp
  have "putU32 (getU32 (?t @ rest)) = ?t" using u32.put_get [of "?t @ rest"] len by simp
  moreover have "?t \<noteq> putU32 w" by (rule update_differs) (use assms in simp_all)
  ultimately show ?thesis by metis
qed

text \<open>The checks of the reader on the bytes of a record, one of them changed: the length or the checksum does not fit.\<close>

lemma damaged_record_checks:
  assumes ok: "entry_ok e" and i: "i < kRecordSize" "entry_bytes e ! i \<noteq> b"
  shows "unat (getU32 (take kRecordFixedSize ((entry_bytes e)[i := b]))) \<noteq> kCommandSize \<or>
    crc32 (take (kRecordFixedSize + kCommandSize) ((entry_bytes e)[i := b])) \<noteq> getU32 (drop (kRecordFixedSize + kCommandSize) ((entry_bytes e)[i := b]))"
proof (cases "i < kRecordFixedSize + kCommandSize")
  case True
  have n: "length (entry_body e) = kRecordFixedSize + kCommandSize" by (rule entry_body_length [OF ok])
  have "(entry_bytes e)[i := b] = (entry_body e)[i := b] @ putU32 (crc32 (entry_body e))" using True n by (simp add: entry_bytes_body list_update_append)
  moreover have "entry_body e ! i \<noteq> b" using i(2) True n by (simp add: entry_bytes_body nth_append)
  ultimately show ?thesis using crc_changed [of i "entry_body e" b] True n wire_gets(2) [of "crc32 (entry_body e)" "[]"] by simp
next
  case False
  let ?k = "i - (kRecordFixedSize + kCommandSize)"
  have n: "length (entry_body e) = kRecordFixedSize + kCommandSize" by (rule entry_body_length [OF ok])
  have "(entry_bytes e)[i := b] = entry_body e @ (putU32 (crc32 (entry_body e)))[?k := b]" using False n by (simp add: entry_bytes_body list_update_append)
  moreover have "putU32 (crc32 (entry_body e)) ! ?k \<noteq> b" "?k < 4"
    using i False n by (simp_all add: entry_bytes_body nth_append kRecordSize_def kRecordCrcSize_def)
  ultimately show ?thesis using getU32_changed [of ?k "crc32 (entry_body e)" b "[]"] n by simp
qed

lemma readOneRecord_damaged:
  assumes at: "at_file d r (pre @ (entry_bytes e)[i := b] @ post)" and off: "jr_offset r = length pre" and ok: "entry_ok e"
    and i: "i < kRecordSize" "entry_bytes e ! i \<noteq> b"
  shows "readOneRecord d r = (no_record TruncatedTail (length pre), r)"
proof -
  let ?bs = "(entry_bytes e)[i := b]"
  obtain fd where fd: "jr_fd r = Some fd" "bytes_of d fd = pre @ ?bs @ post" "jr_fileSize r = length (pre @ ?bs @ post)"
    using at by (auto simp: at_file_def)
  have len: "length ?bs = kRecordSize" using entry_bytes_length [OF ok] by simp
  have total: "kRecordFixedSize + kCommandSize + kRecordCrcSize = kRecordSize" "kRecordFixedSize \<le> kRecordSize" "0 < kRecordSize"
    by (simp_all add: kRecordSize_def kRecordFixedSize_def)
  have fixed: "take kRecordFixedSize (drop (length pre) (bytes_of d fd)) = take kRecordFixedSize ?bs" using len total(2) by (simp add: fd)
  have buf: "take kRecordSize (drop (length pre) (bytes_of d fd)) = ?bs" using len by (simp add: fd)
  have sizes: "length pre \<noteq> jr_fileSize r" "\<not> length pre + kRecordFixedSize > jr_fileSize r" "\<not> length pre + kRecordSize > jr_fileSize r"
    using fd(3) len total by auto
  have stay: "torn r (length pre) = (no_record TruncatedTail (length pre), r)" using off by (simp add: torn_def)
  show ?thesis using damaged_record_checks [OF ok i] sizes stay len total
    by (auto simp: readOneRecord_def fd(1) off fixed buf Let_def)
qed

section \<open>Recovery ends without an open segment\<close>

lemma jr_next_end_closed: "jr_next d r = (res, r') \<Longrightarrow> rr_status res = EndOfJournal \<Longrightarrow> jr_fd r' = None"
proof (induction d r arbitrary: res r' rule: jr_next.induct)
  case (1 d r)
  obtain ready r1 where o: "(if jr_fd r = None then openNextSegment d r else (True, r)) = (ready, r1)" by fastforce
  obtain res2 r2 where rd: "readOneRecord d r1 = (res2, r2)" by fastforce
  show ?case
  proof (cases "ready \<and> rr_status res2 = EndOfJournal")
    case True
    then have "jr_next d (closeCurrent r2) = (res, r')" using "1.prems"(1) o rd by (subst (asm) jr_next.simps) simp
    from "1.IH" [OF o [symmetric] refl _ rd [symmetric] refl _ this "1.prems"(2)] True show ?thesis by simp
  next
    case False
    then show ?thesis using "1.prems" o rd openNextSegment_keeps(6) [of d r ready r1]
      by (subst (asm) jr_next.simps) (auto split: if_splits)
  qed
qed

lemma replayTail_ok_closed:
  assumes "replayTail d sq r b l = Some x" "fst x = RecoveryOk"
  shows "jr_fd (fst (snd x)) = None"
proof -
  have "fst x = RecoveryOk \<longrightarrow> jr_fd (fst (snd x)) = None"
    by (rule replayTail.raw_induct [OF _ assms(1)])
      (auto split: if_splits prod.splits bind_splits dest: jr_next_end_closed)
  then show ?thesis using assms(2) by simp
qed

lemma written_file:
  assumes wr: "sw_write io sw b sq cfg = Some (True, sw')" and buf: "snapshotBuf b sq cfg = Some img" and d: "distinct (map fst (w_dir (sw_world sw)))"
    and ret: "0 < sw_retention sw" and newest: "\<forall>n \<in> set (snapshot_files (w_dir (sw_world sw))). n \<le> finalName sq"
  shows "map_of (w_dir (sw_world sw')) (finalName sq) = Some \<lparr>f_bytes = img @ putU32 (crc32 img), f_synced = length img + kSnapshotTrailerSize\<rparr>"
proof -
  obtain w where w: "distinct (map fst (w_dir w))" "sw' = prune io (sw\<lparr>sw_world := w\<rparr>)"
    "map_of (w_dir w) (finalName sq) = Some \<lparr>f_bytes = img @ putU32 (crc32 img), f_synced = length img + kSnapshotTrailerSize\<rparr>"
    "set (map fst (w_dir w)) \<subseteq> insert (finalName sq) (set (map fst (w_dir (sw_world sw))))"
    by (rule sw_write_file [OF wr buf d])
  have mem: "finalName sq \<in> set (snapshot_files (w_dir (sw_world (sw\<lparr>sw_world := w\<rparr>))))"
    using w(3) by (simp add: snapshot_files_def) (metis domI dom_map_of_conv_image_fst)
  have new: "\<forall>n \<in> set (snapshot_files (w_dir (sw_world (sw\<lparr>sw_world := w\<rparr>)))). n \<le> finalName sq"
    using w(4) newest by (simp add: snapshot_files_def del: set_map) blast
  show ?thesis using prune_keeps(1) [OF _ _ mem new, of io] w ret by simp
qed

definition demo_entry :: entry where
  "demo_entry = Entry [0, 0, 0, 0, 0] 1 New (demo_cmd New 1 101 5 Sell)"

lemma demo_entry_ok: "entry_ok demo_entry"
  by (simp add: entry_ok_def demo_entry_def cmd_fits_def demo_cmd_def in_i64_def)

text \<open>A journal whose only segment has no record.\<close>

definition header_only :: dir where
  "header_only = [(segmentName 1, \<lparr>f_bytes = encodeSegmentHeader (seg_header 1 0), f_synced = kSegmentHeaderSize\<rparr>)]"

lemma header_only_drains:
  obtains f r where "drains header_only (newJournalReader header_only) (map read_back []) f r" "rr_status f = EndOfJournal"
proof -
  let ?s = "Segment 1 0 []" and ?r = "newJournalReader header_only"
  have n: "seg_name ?s = segmentName 1" by (simp add: seg_name_def)
  have ext: "extension (segmentName 1) = ''.jnl''" by (simp add: segmentName_def extension_def)
  have segs: "jr_segments ?r = [segmentName 1]" "jr_nextSegmentIdx ?r = 0" "jr_fd ?r = None"
    by (simp_all add: newJournalReader_def journal_files_def header_only_def ext)
  have "\<exists>f r'. drains header_only ?r (map entry_rec (sgm_entries ?s) @ []) f r' \<and> rr_status f = EndOfJournal"
  proof (rule drains_segment)
    fix r1 :: JournalReader
    assume "jr_segments r1 = jr_segments ?r" "jr_nextSegmentIdx r1 = Suc (jr_nextSegmentIdx ?r)" "jr_fd r1 = None"
    then show "\<exists>f r'. drains header_only r1 [] f r' \<and> rr_status f = EndOfJournal" using drains_end [of r1 header_only] segs by (intro exI conjI) auto
  qed (simp_all add: seg_ok_def in_i64_def n segs bytes_of_def seg_bytes_def, simp_all add: header_only_def)
  then show thesis using that by auto
qed

section \<open>More properties\<close>

lemma crc_bit_literal: "crc_bit = (\<lambda>r. if bit r 0 then drop_bit 1 r XOR 0xEDB88320 else drop_bit 1 r)"
  by (rule ext) (simp add: crc_bit_def kPoly_def and_one_iff xor.commute)

text \<open>
  C40: The checksum. The loop over the 256-entry table computes the CRC of the polynomial \<open>0xEDB88320\<close>: eight shifts of the
  register for every byte, with the polynomial folded in whenever a one falls out.
\<close>

theorem crc32_bitwise:
  "crc32 bytes = foldl (\<lambda>c b. ((\<lambda>r. if bit r 0 then drop_bit 1 r XOR 0xEDB88320 else drop_bit 1 r) ^^ 8) (c XOR ucast b)) 0xFFFFFFFF bytes XOR 0xFFFFFFFF"
  by (simp add: crc32_def crc_step_bits [abs_def] crc_bit_literal [symmetric])

text \<open>
  C14: Snapshot round trip. Whatever the disk does, once a snapshot is reported as written, recovery from it gives the book it was
  taken of: the same orders in the same priority, the same counters and the same digest, and the sequence number the snapshot was
  labelled with.
\<close>

theorem snapshot_roundtrip:
  assumes "book_inv b" "cfg_ok (ob_cfg b)" "cfg_fits (ob_cfg b)" "\<forall>x \<in> set (spec_orders (absb b)). resting_fits x"
    and "in_i64 (sp_seq (absb b))" "in_i64 (sp_nextTradeId (absb b))" "in_i64 (int m)"
    and "sw_write io sw b (int m) (ob_cfg b) = Some (True, sw')" "distinct (map fst (w_dir (sw_world sw)))" "0 < sw_retention sw"
    and "\<forall>n \<in> set (snapshot_files (w_dir (sw_world sw))). n \<le> finalName (int m)"
  shows "\<exists>res b'. recover [] (w_dir (sw_world sw')) (newOrderBook (ob_cfg b)) = Some (res, b') \<and> book_inv b' \<and> absb b' = absb b \<and>
    computeDigest b' = computeDigest b \<and> rv_status res = RecoveryOk \<and> rv_lastSeq res = int m"
proof -
  have wf: "spec_wf (ob_cfg b) (absb b)" by (rule book_invD(2) [OF assms(1)])
  have "loadNewestValid (w_dir (sw_world sw')) = Some (Some (snapshot_of b (int m) (ob_cfg b)))"
    by (rule snapshot_loads [OF book_invD(1) [OF assms(1)] assms(3,4) _ assms(8-11)]) (use wf in \<open>simp add: spec_wf_def\<close>)
  then have "snapshot_holds (w_dir (sw_world sw')) (ob_cfg b) (absb b) m" using wf assms(5-7) unfolding snapshot_holds_def by blast
  from recover_replay [OF assms(2) this, of "[]"] obtain b1 where b1: "book_inv b1" "absb b1 = absb b"
    "recover [] (w_dir (sw_world sw')) (newOrderBook (ob_cfg b)) =
      (case replayTail [] (int m) (newJournalReader []) b1 (int m) of None \<Rightarrow> None | Some (st, reader, b2, l) \<Rightarrow> Some (recovered st reader l, b2))" by blast
  have nx: "jr_next [] (newJournalReader []) = (no_record EndOfJournal 0, newJournalReader [])"
    by (subst jr_next.simps, subst openNextSegment.simps) (simp add: newJournalReader_def journal_files_def)
  have "recover [] (w_dir (sw_world sw')) (newOrderBook (ob_cfg b)) = Some (recovered RecoveryOk (newJournalReader []) (int m), b1)"
    unfolding b1(3) by (subst replayTail.simps) (simp add: nx)
  moreover have "computeDigest b1 = computeDigest b"
    using computeDigest_absb [OF book_invD(1) [OF b1(1)]] computeDigest_absb [OF book_invD(1) [OF assms(1)]] b1(2) by simp
  ultimately show ?thesis using b1(1,2) by (auto simp: recovered_def emptyRecovery_def Let_def)
qed

definition demo_snapshots :: SnapshotWriter where
  "demo_snapshots = \<lparr>sw_world = demo_world, sw_retention = 3\<rparr>"

lemma demo_write:
  obtains sw' where "sw_write (\<lambda>_. Done) demo_snapshots demo_book (int 1) demo_cfg = Some (True, sw')"
proof -
  obtain img where img: "snapshotBuf demo_book (int 1) demo_cfg = Some img" using book_buf [OF book_invD(1) [OF demo_book_facts(1)]] by blast
  show thesis by (rule that)
    (simp add: sw_write_def img [simplified] demo_snapshots_def demo_world_def sys_create_def sys_write_def sys_fsync_def sys_rename_def put_file_def tick_call_def Let_def
      kSnapshotTrailerSize_def)
qed

theorem snapshot_roundtrip_witness:
  "\<exists>sw' res b'. sw_write (\<lambda>_. Done) demo_snapshots demo_book (int 1) demo_cfg = Some (True, sw') \<and>
     recover [] (w_dir (sw_world sw')) (newOrderBook demo_cfg) = Some (res, b') \<and> absb b' = absb demo_book \<and> rv_lastSeq res = 1"
proof -
  obtain sw' where w: "sw_write (\<lambda>_. Done) demo_snapshots demo_book (int 1) (ob_cfg demo_book) = Some (True, sw')"
    by (rule demo_write [folded demo_book_facts(2)])
  have "\<exists>res b'. recover [] (w_dir (sw_world sw')) (newOrderBook (ob_cfg demo_book)) = Some (res, b') \<and> book_inv b' \<and> absb b' = absb demo_book \<and>
    computeDigest b' = computeDigest demo_book \<and> rv_status res = RecoveryOk \<and> rv_lastSeq res = int 1"
    by (rule snapshot_roundtrip [OF demo_book_facts(1) _ _ _ _ _ _ w])
      (use demo_cfg_ok in \<open>simp_all add: demo_book_facts demo_cfg_def cfg_fits_def in_i64_def kOrderRecordSize_def spec_orders_def resting_fits_def
        demo_snapshots_def demo_world_def snapshot_files_def\<close>)
  then show ?thesis using w unfolding demo_book_facts(2) by auto
qed

text \<open>
  Damaged snapshots are never loaded. After a snapshot was written, a change of any one byte of its file, header, orders or
  checksum, makes the reader reject the file.
\<close>

theorem snapshot_damage_rejected:
  assumes "book_inv b" "sw_write io sw b sq cfg = Some (True, sw')" "distinct (map fst (w_dir (sw_world sw)))" "0 < sw_retention sw"
    and "\<forall>n \<in> set (snapshot_files (w_dir (sw_world sw))). n \<le> finalName sq"
  shows "\<exists>f. map_of (w_dir (sw_world sw')) (finalName sq) = Some f \<and> f_synced f = length (f_bytes f) \<and>
    (\<forall>i x g d p. i < length (f_bytes f) \<longrightarrow> f_bytes f ! i \<noteq> x \<longrightarrow> f_bytes g = (f_bytes f)[i := x] \<longrightarrow> map_of d p = Some g \<longrightarrow> tryLoad d p = Some None)"
proof -
  obtain img where img: "snapshotBuf b sq cfg = Some img" using book_buf [OF book_invD(1) [OF assms(1)]] by blast
  have "map_of (w_dir (sw_world sw')) (finalName sq) = Some \<lparr>f_bytes = img @ putU32 (crc32 img), f_synced = length img + kSnapshotTrailerSize\<rparr>"
    by (rule written_file [OF assms(2) img assms(3-5)])
  moreover have "tryLoad d p = Some None"
    if "i < length (img @ putU32 (crc32 img))" "(img @ putU32 (crc32 img)) ! i \<noteq> x" "f_bytes g = (img @ putU32 (crc32 img))[i := x]" "map_of d p = Some g" for i x g d p
    by (rule tryLoad_corrupt [OF that(4,3,1,2)])
  ultimately show ?thesis by (simp add: kSnapshotTrailerSize_def)
qed

theorem snapshot_damage_rejected_witness:
  "\<exists>sw' f. sw_write (\<lambda>_. Done) demo_snapshots demo_book (int 1) demo_cfg = Some (True, sw') \<and>
     map_of (w_dir (sw_world sw')) (finalName (int 1)) = Some f \<and>
     tryLoad [(''x'', f\<lparr>f_bytes := (f_bytes f)[0 := f_bytes f ! 0 + 1]\<rparr>)] ''x'' = Some None"
proof -
  obtain sw' where w: "sw_write (\<lambda>_. Done) demo_snapshots demo_book (int 1) demo_cfg = Some (True, sw')" by (rule demo_write)
  have pre: "distinct (map fst (w_dir (sw_world demo_snapshots)))" "0 < sw_retention demo_snapshots"
    "\<forall>n \<in> set (snapshot_files (w_dir (sw_world demo_snapshots))). n \<le> finalName (int 1)"
    by (simp_all add: demo_snapshots_def demo_world_def snapshot_files_def)
  from snapshot_damage_rejected [OF demo_book_facts(1) w pre] obtain f where f: "map_of (w_dir (sw_world sw')) (finalName (int 1)) = Some f"
    "\<forall>i x g d p. i < length (f_bytes f) \<longrightarrow> f_bytes f ! i \<noteq> x \<longrightarrow> f_bytes g = (f_bytes f)[i := x] \<longrightarrow> map_of d p = Some g \<longrightarrow> tryLoad d p = Some None"
    by blast
  obtain img where img: "snapshotBuf demo_book (int 1) demo_cfg = Some img" using book_buf [OF book_invD(1) [OF demo_book_facts(1)]] by blast
  have "f_bytes f = img @ putU32 (crc32 img)" using written_file [OF w img pre] f(1) by auto
  then have "0 < length (f_bytes f)" by simp
  then have "tryLoad [(''x'', f\<lparr>f_bytes := (f_bytes f)[0 := f_bytes f ! 0 + 1]\<rparr>)] ''x'' = Some None"
    by (rule f(2) [rule_format, where g = "f\<lparr>f_bytes := (f_bytes f)[0 := f_bytes f ! 0 + 1]\<rparr>"]) simp_all
  with w f(1) show ?thesis by blast
qed

text \<open>
  C35: The blocking submit returns, on a ring that satisfies its invariant. If the consumer takes anything from the ring at all while the submitter spins, \<^verbatim>\<open>submit\<close>
  ends, and what it returns is the journal's word: zero if and only if the journal refused the record, and then nothing has changed but the
  journal; otherwise the command is journaled under the next sequence number, has that number, and is the last one in the ring, behind
  what the consumer has left there.
\<close>

theorem submit_blocking_returns:
  assumes "sr_inv (sq_ring sq)" "0 < takes k"
  shows "\<exists>s sq'. submit_blocking io pad takes sq kind cmd = Some (s, sq') \<and>
    (\<exists>ok. jw_append io pad (sq_journal sq) (sq_seq sq + 1) kind cmd = (ok, sq_journal sq') \<and>
      (if ok then s = sq_seq sq + 1 \<and> sq_seq sq' = s \<and> sr_inv (sq_ring sq') \<and> (\<exists>j. sr_contents (sq_ring sq') = drop j (sr_contents (sq_ring sq)) @ [cmd])
       else s = 0 \<and> sq_seq sq' = sq_seq sq \<and> sq_ring sq' = sq_ring sq))"
proof -
  obtain ok jw where a: "jw_append io pad (sq_journal sq) (sq_seq sq + 1) kind cmd = (ok, jw)" by fastforce
  have pos: "0 < sr_capacity (sq_ring sq)" using assms(1) ring_size_bound(1) by (auto simp: sr_inv_def dest: counters_bounds(3))
  obtain r j where "push_spin takes 0 (sq_ring sq) cmd = Some r" "sr_inv r" "sr_contents r = drop j (sr_contents (sq_ring sq)) @ [cmd]"
    using push_spin_returns [OF assms(1) pos, of takes 0 k cmd] assms(2) by auto
  then show ?thesis using a by (cases ok) (auto simp: submit_blocking_def Let_def)
qed

theorem submit_blocking_returns_witness:
  "\<exists>s sq'. submit_blocking (\<lambda>_. Done) [0, 0, 0, 0, 0] (\<lambda>n. n) (demo_sequencer PerRecord 1) New (demo_cmd New 1 101 5 Sell) = Some (s, sq')"
  using submit_blocking_returns [of "demo_sequencer PerRecord 1" "\<lambda>n. n" 1 "\<lambda>_. Done" "[0, 0, 0, 0, 0]" New "demo_cmd New 1 101 5 Sell"]
    demo_sequencer_inv [of PerRecord 1] by (auto simp: seq_inv_def)

text \<open>
  A damaged record ends the journal. A change of any one byte of a record that is on disk is noticed, and the reader then
  reports a torn tail in front of it, stays there, and returns none of the records behind it, in this segment or in later ones.
\<close>

theorem damaged_record_ends_journal:
  assumes "at_file d r (pre @ (entry_bytes e)[i := x] @ post)" "jr_offset r = length pre" "entry_ok e" "i < kRecordSize" "entry_bytes e ! i \<noteq> x"
  shows "jr_next d r = (no_record TruncatedTail (length pre), r)"
proof (rule jr_next_record)
  show "jr_fd r \<noteq> None" using assms(1) by (auto simp: at_file_def)
  show "readOneRecord d r = (no_record TruncatedTail (length pre), r)" by (rule readOneRecord_damaged [OF assms])
qed simp

theorem damaged_record_ends_journal_witness:
  "\<exists>d r. at_file d r ((entry_bytes demo_entry)[0 := 7]) \<and> jr_next d r = (no_record TruncatedTail 0, r)"
proof -
  define d where "d = [(''x'', \<lparr>f_bytes = (entry_bytes demo_entry)[0 := 7], f_synced = 0\<rparr>)]"
  define r where "r = (newJournalReader d)\<lparr>jr_fd := Some ''x'', jr_fileSize := length (entry_bytes demo_entry)\<rparr>"
  have at: "at_file d r ((entry_bytes demo_entry)[0 := 7])" by (simp add: at_file_def r_def d_def bytes_of_def)
  have "putU32 (of_nat kCommandSize) ! 0 \<noteq> 7" by code_simp
  then have "entry_bytes demo_entry ! 0 \<noteq> 7" by (simp add: entry_bytes_body entry_body_def nth_append)
  then have "jr_next d r = (no_record TruncatedTail (length ([] :: byte list)), r)"
    by (intro damaged_record_ends_journal [where pre = "[]" and post = "[]" and e = demo_entry and i = 0 and x = 7])
      (use at in \<open>simp_all add: r_def newJournalReader_def demo_entry_ok kRecordSize_def kRecordCrcSize_def\<close>)
  with at show ?thesis by auto
qed

text \<open>
  After a recovery that found the journal undamaged, the result says that there is no segment to resume, however many segments
  the directory has.
\<close>

theorem recovery_ok_forgets_segment:
  assumes "recover jd sd b = Some (res, b')" "rv_status res = RecoveryOk"
  shows "\<not> rv_hasJournalSegment res"
  using assms by (auto simp: recover_def Let_def hasOpenSegment_def emptyRecovery_def split: bind_splits if_splits option.splits prod.splits dest: replayTail_ok_closed)

theorem recovery_ok_forgets_segment_witness:
  "\<exists>res b. recover header_only [] (newOrderBook demo_cfg) = Some (res, b) \<and> journal_files header_only \<noteq> [] \<and> \<not> rv_hasJournalSegment res"
proof -
  obtain f r where dr: "drains header_only (newJournalReader header_only) (map read_back []) f r" "rr_status f = EndOfJournal" by (rule header_only_drains)
  have "clean f" using dr(2) by (simp add: clean_def)
  from recover_run [OF demo_cfg_ok dr(1) this, of 0 "[]"] no_snapshot obtain b where
    "recover header_only [] (newOrderBook demo_cfg) = Some (recovered (recovery_status f) r 0, b)" by auto
  moreover have "rv_status (recovered (recovery_status f) r 0) = RecoveryOk" using dr(2) by (simp add: recovered_def recovery_status_def emptyRecovery_def Let_def)
  moreover have "journal_files header_only \<noteq> []" by (simp add: journal_files_def header_only_def segmentName_def extension_def)
  ultimately show ?thesis using recovery_ok_forgets_segment by blast
qed

text \<open>
  Under the group policy an acknowledgement is no promise. A command is acknowledged, the machine crashes, and the journal
  that is left contains no record at all.
\<close>

theorem group_ack_can_be_lost:
  "\<exists>sq' d f r. session (\<lambda>_. Done) (demo_sequencer Group 8) [demo_submit_op] = ([(1, New, demo_cmd New 1 101 5 Sell)], [], sq') \<and>
     crash_dir (w_dir (jw_world (sq_journal sq'))) d \<and> drains d (newJournalReader d) [] f r \<and> rr_status f = EndOfJournal"
proof -
  let ?c = "demo_cmd New 1 101 5 Sell"
  obtain sq' where ss: "session (\<lambda>_. Done) (demo_sequencer Group 8) [demo_submit_op] = ([(1, New, ?c)], [], sq')"
    "sq_journal sq' = snd (jw_append (\<lambda>_. Done) [0, 0, 0, 0, 0] (newJournalWriter demo_world 4096 Group 8) 1 New ?c)" by (rule demo_session)
  have len: "length (encodeRecord [0, 0, 0, 0, 0] s k c) = kRecordSize" for s k c by (rule encodeRecord_length) simp
  have "w_dir (jw_world (sq_journal sq')) =
     [(segmentName 1, \<lparr>f_bytes = encodeSegmentHeader (seg_header 1 0) @ encodeRecord [0, 0, 0, 0, 0] 1 New ?c, f_synced = kSegmentHeaderSize\<rparr>)]"
    unfolding ss(2) by (simp add: jw_append_def newJournalWriter_def openSegment_def demo_world_def sys_create_def sys_write_def sys_fsync_def put_file_def
        tick_call_def Let_def len seg_header_def)
  then have "crash_dir (w_dir (jw_world (sq_journal sq'))) header_only"
    by (simp add: crash_dir_def header_only_def crash_file_def)
  moreover obtain f r where "drains header_only (newJournalReader header_only) [] f r" "rr_status f = EndOfJournal" using header_only_drains by auto
  ultimately show ?thesis using ss(1) by blast
qed

end
