(* ===== verification/Gateway_Properties.thy ===== *)
theory Gateway_Properties
  imports Gateway_Laws Persistence_Properties
begin

text \<open>
  The properties of the gateway, on its own and together with the journal, recovery and the matching thread.
\<close>

section \<open>A small gateway\<close>

definition demo_token :: Token where "demo_token = replicate 32 1"

definition demo_gateway :: GatewayServer where
  "demo_gateway = newGatewayServer [newShardCtx 1 (demo_sequencer PerRecord 1)] [7 \<mapsto> demo_token] 100 103"

definition demo_pads :: "nat \<Rightarrow> Seq \<Rightarrow> byte list" where "demo_pads = (\<lambda>k s. [0, 0, 0, 0, 0])"

definition demo_login :: LoginMsg where "demo_login = \<lparr>lg_participantId = 7, lg_token = demo_token, lg_clientSeqNum = 5\<rparr>"

definition demo_new :: NewOrderMsg where
  "demo_new = \<lparr>no_clientSeqNum = 6, no_orderId = 1, no_instrumentId = 1, no_side = Sell, no_orderType = WLimit, no_price = 101, no_quantity = 5, no_timeInForce = Day\<rparr>"

definition demo_sell :: Command where
  "demo_sell = \<lparr>c_id = 1, c_newId = 0, c_price = 101, c_quantity = 5, c_participant = 7, c_kind = New, c_side = Sell, c_type = Limit\<rparr>"

text \<open>A read that brings exactly one frame.\<close>

lemma onRead_frame:
  assumes d: "\<not> fd_terminal (cs_decoder cs)" "fd_buf (cs_decoder cs) = []" "msg_ok (cs_decoder cs) m"
    and st: "decodedStep io pads gw sid (cs\<lparr>cs_missedHeartbeats := 0, cs_decoder := (cs_decoder cs)\<lparr>fd_buf := encode m\<rparr>\<rparr>) = (True, gw1, cs1)" "\<not> cs_closed cs1"
  shows "onRead io pads gw sid cs (encode m) = (gw1, doRead cs1)"
proof -
  let ?cs = "cs\<lparr>cs_missedHeartbeats := 0, cs_decoder := (cs_decoder cs)\<lparr>fd_buf := encode m\<rparr>\<rparr>"
  have len: "length (encode m) \<le> kCapacity" using fd.enc_size(1) [OF d(3)] by (simp add: kCapacity_def kFrameHeaderSize_def kMaxFrame_def)
  have fed: "feed (cs_decoder cs) (encode m) = (True, (cs_decoder cs)\<lparr>fd_buf := encode m\<rparr>)" using d(1,2) len by (simp add: feed_def)
  have "fd_next ((cs_decoder cs)\<lparr>fd_buf := encode m\<rparr>) = (ROk m, (cs_decoder cs)\<lparr>fd_buf := []\<rparr>)" using fd_next_frame [of "(cs_decoder cs)\<lparr>fd_buf := encode m\<rparr>" m "[]"] d by simp
  then have dec: "cs_decoder cs1 = (cs_decoder cs)\<lparr>fd_buf := []\<rparr>" using decodedStep_decoder [OF st(1)] by simp
  have "fd_next (cs_decoder cs1) = (RIncomplete, cs_decoder cs1)" using d(1) by (simp add: dec fd_next_def kFrameHeaderSize_def)
  then have "decodedStep io pads gw1 sid cs1 = (False, gw1, cs1)" by (simp add: decodedStep_def)
  then have "processDecoded io pads gw1 sid cs1 = (gw1, cs1)" by (subst processDecoded.simps) simp
  then have "processDecoded io pads gw sid ?cs = (gw1, cs1)" using st(1) by (subst processDecoded.simps) simp
  then show ?thesis using fed st(2) by (simp add: onRead_def)
qed

definition demo_session_of :: "SessionState \<Rightarrow> ParticipantId \<Rightarrow> 64 word \<Rightarrow> byte list list \<Rightarrow> ClientSession" where
  "demo_session_of st p n out = (session_start (newClientSession [1] 100 103))\<lparr>cs_state := st, cs_participantId := p, cs_lastClientSeq := n,
     cs_authTimer := (st = AwaitingLogin), cs_pendingWrites := out, cs_writing := (out \<noteq> [])\<rparr>"

lemmas demo_session_simps = demo_session_of_def session_start_def doRead_def armHeartbeatTimer_def armAuthTimeout_def newClientSession_def newFrameDecoder_def

lemma demo_shards: "gw_shardCtxs demo_gateway = [newShardCtx 1 (demo_sequencer PerRecord 1)]" "gw_auth demo_gateway = [7 \<mapsto> demo_token]"
  "gw_instruments demo_gateway = [1]" "gw_minPrice demo_gateway = 100" "gw_maxPrice demo_gateway = 103" "gw_sessions demo_gateway = []" "gw_log demo_gateway = []"
  by (simp_all add: demo_gateway_def newGatewayServer_def newShardCtx_def instrumentSet_def is_add_def is_contains_def kMaxInstruments_def)

lemma demo_authenticate: "authenticate [7 \<mapsto> demo_token] 7 demo_token"
  by code_simp

lemma demo_first: "gw_step io pads demo_gateway (demo_gateway\<lparr>gw_sessions := [demo_session_of AwaitingLogin 0 0 []]\<rparr>)"
  using gw_step.accept [of io pads demo_gateway] by (simp add: doAccept_def demo_shards demo_session_simps)

lemma demo_frames:
  "length (encode (DLogin demo_login)) = 53" "length (encode (DNewOrder demo_new)) = 44"
  by (simp_all add: encoder_defs demo_login_def demo_token_def demo_new_def writeHeader_def)

definition demo_ack :: "byte list" where "demo_ack = encodeLoginAck \<lparr>la_serverSeq = 0, la_status = 0\<rparr>"

lemma demo_second:
  "gw_step io pads (demo_gateway\<lparr>gw_sessions := [demo_session_of AwaitingLogin 0 0 []]\<rparr>) (demo_gateway\<lparr>gw_sessions := [demo_session_of Authenticated 7 5 [demo_ack]]\<rparr>)"
proof -
  let ?gw = "demo_gateway\<lparr>gw_sessions := [demo_session_of AwaitingLogin 0 0 []]\<rparr>"
  let ?cs = "(demo_session_of AwaitingLogin 0 0 [])\<lparr>cs_reading := False\<rparr>"
  have ok: "msg_ok (cs_decoder ?cs) (DLogin demo_login)" by (simp add: demo_login_def demo_token_def in_i64_def)
  have "loginAckSeq ?gw = 0" by (simp add: loginAckSeq_def demo_shards newShardCtx_def demo_sequencer_def newSequencer_def)
  then have st: "decodedStep io pads ?gw 0 (?cs\<lparr>cs_missedHeartbeats := 0, cs_decoder := (cs_decoder ?cs)\<lparr>fd_buf := encode (DLogin demo_login)\<rparr>\<rparr>)
      = (True, ?gw, (demo_session_of Authenticated 7 5 [demo_ack])\<lparr>cs_reading := False\<rparr>)"
    using fd_next_frame [of "(cs_decoder ?cs)\<lparr>fd_buf := encode (DLogin demo_login)\<rparr>" "DLogin demo_login" "[]"] ok demo_authenticate
    by (simp add: decodedStep_def awaitingStep_def handleLogin_def demo_session_simps sendFrame_def doWrite_def Let_def demo_login_def demo_shards demo_ack_def)
  have "onRead io pads ?gw 0 ?cs (encode (DLogin demo_login)) = (?gw, doRead ((demo_session_of Authenticated 7 5 [demo_ack])\<lparr>cs_reading := False\<rparr>))"
    by (rule onRead_frame [OF _ _ ok st]) (simp_all add: demo_session_simps)
  moreover have "doRead ((demo_session_of Authenticated 7 5 [demo_ack])\<lparr>cs_reading := False\<rparr>) = demo_session_of Authenticated 7 5 [demo_ack]"
    by (simp add: demo_session_simps)
  ultimately show ?thesis
    using gw_step.read [of 0 ?gw "encode (DLogin demo_login)" io pads] demo_frames fd.enc_size(2) [of "DLogin demo_login"]
    by (simp add: putSession_def kReadChunk_def demo_session_simps)
qed

lemma demo_trySubmit:
  obtains sq where "trySubmit (\<lambda>_. Done) [0, 0, 0, 0, 0] (demo_sequencer PerRecord 1) kind c = (\<lparr>ts_outcome = Sequenced, ts_seq = 1\<rparr>, sq)"
proof -
  have cl: "sr_tryClaim (sq_ring (demo_sequencer PerRecord 1)) = (Some 0, sq_ring (demo_sequencer PerRecord 1))"
    by (simp add: sr_tryClaim_def newSpscRing_def sr_capacity_def ring_mask_def demo_sequencer_def newSequencer_def)
  have "ts_outcome (fst (trySubmit (\<lambda>_. Done) [0, 0, 0, 0, 0] (demo_sequencer PerRecord 1) kind c)) \<noteq> DurabilityFailure"
    by (rule trySubmit_done [OF demo_sequencer_inv]) simp_all
  with cl that show thesis
    by (auto simp: trySubmit_def Let_def demo_sequencer_def newSequencer_def split: prod.splits if_splits)
qed

lemma demo_new_order:
  assumes "gw_shardCtxs gw = [ctx]" "sx_instrumentId ctx = 1" "sx_sequencer ctx = demo_sequencer PerRecord 1"
    "checkClientSeq cs n 1 = (True, cs\<lparr>cs_lastClientSeq := n\<rparr>)" "cs_participantId cs = p"
  obtains gw1 where "handleNewOrder (\<lambda>_ _. Done) demo_pads gw sid cs (demo_new\<lparr>no_clientSeqNum := n\<rparr>) =
      (gw1, sendNewAckIfApplicable (cs\<lparr>cs_lastClientSeq := n\<rparr>) (demo_sell\<lparr>c_participant := p\<rparr>) 1)"
    "gw_log gw1 = gw_log gw @ [(sid, n, 0, demo_sell\<lparr>c_participant := p\<rparr>, 1)]" "gw_sessions gw1 = gw_sessions gw" "length (gw_shardCtxs gw1) = 1"
proof -
  let ?cmd = "demo_sell\<lparr>c_participant := p\<rparr>"
  obtain sq where sq: "trySubmit (\<lambda>_. Done) [0, 0, 0, 0, 0] (demo_sequencer PerRecord 1) New ?cmd = (\<lparr>ts_outcome = Sequenced, ts_seq = 1\<rparr>, sq)"
    by (rule demo_trySubmit)
  have cmd: "zeroCommand\<lparr>c_id := 1, c_newId := 0, c_price := 101, c_quantity := 5, c_participant := p, c_kind := New, c_side := Sell,
      c_type := wireType (demo_new\<lparr>no_clientSeqNum := n\<rparr>)\<rparr> = ?cmd"
    by (simp add: zeroCommand_def demo_sell_def wireType_def demo_new_def)
  have kd: "c_kind demo_sell = New" by (simp add: demo_sell_def)
  have seq0: "sq_seq (demo_sequencer PerRecord 1) = 0" by (simp add: demo_sequencer_def newSequencer_def)
  obtain gw1 where sub: "submitOrPend (\<lambda>_ _. Done) demo_pads gw sid (cs\<lparr>cs_lastClientSeq := n\<rparr>) ?cmd 0 = (gw1, sendNewAckIfApplicable (cs\<lparr>cs_lastClientSeq := n\<rparr>) ?cmd 1)"
      "gw_log gw1 = gw_log gw @ [(sid, n, 0, ?cmd, 1)]" "gw_sessions gw1 = gw_sessions gw" "length (gw_shardCtxs gw1) = 1"
    using sq kd assms(1,3) by (simp add: submitOrPend_def registerRoute_def shardSubmit_def demo_pads_def logSequenced_def Let_def seq0)
  have idx: "shardIndexFor gw 1 = 0" using assms(1,2) by (simp add: shardIndexFor_def)
  have "handleNewOrder (\<lambda>_ _. Done) demo_pads gw sid cs (demo_new\<lparr>no_clientSeqNum := n\<rparr>) = (gw1, sendNewAckIfApplicable (cs\<lparr>cs_lastClientSeq := n\<rparr>) ?cmd 1)"
    using sub(1) idx cmd assms(4,5) by (simp add: handleNewOrder_def demo_new_def)
  then show thesis using sub that by blast
qed

lemma demo_new_six: "demo_new\<lparr>no_clientSeqNum := 6\<rparr> = demo_new" "demo_sell\<lparr>c_participant := 7\<rparr> = demo_sell"
  by (simp_all add: demo_new_def demo_sell_def)

lemma demo_third:
  obtains gw' cs' where "gw_step (\<lambda>_ _. Done) demo_pads (demo_gateway\<lparr>gw_sessions := [demo_session_of Authenticated 7 5 [demo_ack]]\<rparr>) gw'"
    "gw_log gw' = [(0, 6, 0, demo_sell, 1)]" "gw_sessions gw' = [cs']" "cs_state cs' = Authenticated" "\<not> cs_hasPending cs'" "length (gw_shardCtxs gw') = 1"
proof -
  let ?gw = "demo_gateway\<lparr>gw_sessions := [demo_session_of Authenticated 7 5 [demo_ack]]\<rparr>"
  let ?cs = "(demo_session_of Authenticated 7 5 [demo_ack])\<lparr>cs_reading := False\<rparr>"
  let ?in = "?cs\<lparr>cs_missedHeartbeats := 0, cs_decoder := (cs_decoder ?cs)\<lparr>fd_buf := encode (DNewOrder demo_new)\<rparr>\<rparr>"
  let ?cs1 = "sendNewAckIfApplicable (?cs\<lparr>cs_lastClientSeq := 6\<rparr>) demo_sell 1"
  have ok: "msg_ok (cs_decoder ?cs) (DNewOrder demo_new)" by (simp add: demo_new_def in_i64_def demo_session_simps is_contains_def price_ok_def)
  have "fd_next (cs_decoder ?in) = (ROk (DNewOrder demo_new), (cs_decoder ?in)\<lparr>fd_buf := []\<rparr>)"
    by (rule fd_next_frame) (use ok in \<open>simp_all add: demo_session_simps price_ok_def\<close>)
  then have nx: "fd_next (cs_decoder ?in) = (ROk (DNewOrder demo_new), cs_decoder ?cs)" by (simp add: demo_session_simps)
  obtain gw1 where new: "handleNewOrder (\<lambda>_ _. Done) demo_pads ?gw 0 ?cs demo_new = (gw1, ?cs1)"
      "gw_log gw1 = gw_log ?gw @ [(0, 6, 0, demo_sell, 1)]" "gw_sessions gw1 = gw_sessions ?gw" "length (gw_shardCtxs gw1) = 1"
    by (rule demo_new_order [of ?gw "newShardCtx 1 (demo_sequencer PerRecord 1)" ?cs 6 7 0])
      (simp_all add: demo_shards newShardCtx_def demo_session_simps checkClientSeq_def demo_new_six)
  have open1: "cs_state ?cs1 = Authenticated" "\<not> cs_hasPending ?cs1" "\<not> cs_closed ?cs1" "\<not> cs_readSuspended ?cs1"
    by (simp_all add: sendNewAckIfApplicable_def sendFrame_def doWrite_def demo_session_simps Let_def)
  have shape: "?cs\<lparr>cs_missedHeartbeats := 0\<rparr> = ?cs" "cs_state (demo_session_of Authenticated 7 5 [demo_ack]) = Authenticated" by (simp_all add: demo_session_simps)
  have st: "decodedStep (\<lambda>_ _. Done) demo_pads ?gw 0 ?in = (True, gw1, ?cs1)"
    using nx new(1) open1 shape by (simp add: decodedStep_def authenticatedStep_def Let_def)
  have "onRead (\<lambda>_ _. Done) demo_pads ?gw 0 ?cs (encode (DNewOrder demo_new)) = (gw1, doRead ?cs1)"
    by (rule onRead_frame [OF _ _ ok st]) (use open1 in \<open>simp_all add: demo_session_simps\<close>)
  then have "gw_step (\<lambda>_ _. Done) demo_pads ?gw (putSession 0 (gw1, doRead ?cs1))"
    using gw_step.read [of 0 ?gw "encode (DNewOrder demo_new)" "\<lambda>_ _. Done" demo_pads] demo_frames fd.enc_size(2) [of "DNewOrder demo_new"]
    by (simp add: kReadChunk_def demo_session_simps)
  then show thesis by (rule that [where cs' = "doRead ?cs1"]) (use new demo_shards open1 in \<open>simp_all add: putSession_def doRead_def\<close>)
qed

lemma demo_run:
  obtains gw' cs' where "(gw_step (\<lambda>_ _. Done) demo_pads)\<^sup>*\<^sup>* demo_gateway gw'"
    "gw_log gw' = [(0, 6, 0, demo_sell, 1)]" "gw_sessions gw' = [cs']" "cs_state cs' = Authenticated" "\<not> cs_hasPending cs'" "length (gw_shardCtxs gw') = 1"
proof -
  let ?io = "\<lambda>_ _. Done"
  let ?gw = "demo_gateway\<lparr>gw_sessions := [demo_session_of Authenticated 7 5 [demo_ack]]\<rparr>"
  have r: "(gw_step ?io demo_pads)\<^sup>*\<^sup>* demo_gateway ?gw"
    using r_into_rtranclp [of "gw_step ?io demo_pads", OF demo_first] demo_second by (rule rtranclp.rtrancl_into_rtrancl)
  show thesis by (rule demo_third) (rule that [OF rtranclp.rtrancl_into_rtrancl [OF r]])
qed

section \<open>The gateway\<close>

lemma reach_inv:
  assumes "(gw_step io pads)\<^sup>*\<^sup>* (newGatewayServer shards auth minPrice maxPrice) gw"
  shows "gw_inv gw" "kept io pads (newGatewayServer shards auth minPrice maxPrice) gw"
  using gw_reach_inv [OF assms newGatewayServer_inv] by simp_all

lemma reach_server:
  assumes "(gw_step io pads)\<^sup>*\<^sup>* (newGatewayServer shards auth minPrice maxPrice) gw"
  shows "gw_auth gw = auth" "gw_minPrice gw = minPrice" "gw_maxPrice gw = maxPrice" "map sx_instrumentId (gw_shardCtxs gw) = map sx_instrumentId shards"
  using gw_reach_settings [OF assms] by (simp_all add: settings_def newGatewayServer_def)

text \<open>
  C10: In every state the gateway can reach, whatever the clients send and however the ring, the timers and the routers are
  scheduled, as long as reads complete only while their session is open (the code also delivers a read that completed
  before the session was closed, which the steps here leave out), the client sequence numbers of the commands
  sequenced for a session are consecutive: none is sequenced twice and none is skipped. While the session is open, the last number it has accepted is the last one sequenced, or, when a command
  waits for room in a ring, the one of that command.
\<close>

theorem gateway_client_sequence:
  assumes "(gw_step io pads)\<^sup>*\<^sup>* (newGatewayServer shards auth minPrice maxPrice) gw" "sid < length (gw_sessions gw)"
  shows "\<exists>start n. seqs_of gw sid = map (\<lambda>i. start + 1 + of_nat i) [0..<n] \<and>
    (cs_state (gw_sessions gw ! sid) = Authenticated \<longrightarrow>
       cs_lastClientSeq (gw_sessions gw ! sid) = start + of_nat n + (if cs_hasPending (gw_sessions gw ! sid) then 1 else 0))"
  using reach_inv(1) [OF assms(1)] assms(2) by (simp add: gw_inv_def client_inv_def numbers_inv_def following_def)

theorem gateway_client_sequence_witness:
  "\<exists>gw. (gw_step (\<lambda>_ _. Done) demo_pads)\<^sup>*\<^sup>* demo_gateway gw \<and> seqs_of gw 0 = [6] \<and> cs_lastClientSeq (gw_sessions gw ! 0) = 6"
proof -
  obtain gw cs where r: "(gw_step (\<lambda>_ _. Done) demo_pads)\<^sup>*\<^sup>* demo_gateway gw" "gw_log gw = [(0, 6, 0, demo_sell, 1)]" "gw_sessions gw = [cs]" "cs_state cs = Authenticated"
    "\<not> cs_hasPending cs" by (rule demo_run)
  have s: "seqs_of gw 0 = [6]" using r(2) by (simp add: seqs_of_def log_of_def)
  have "0 < length (gw_sessions gw)" using r(3) by simp
  from gateway_client_sequence [OF r(1) [unfolded demo_gateway_def] this] obtain start n where
    n: "[6] = map (\<lambda>i. start + 1 + word_of_nat i) [0..<n]" "cs_lastClientSeq cs = start + word_of_nat n"
    unfolding s r(3) nth_Cons_0 if_not_P [OF r(5)] add_0_right by (elim exE conjE) (use r(4) in simp)
  have "n = 1" using arg_cong [OF n(1), of length] by simp
  then have "start + 1 = 6" using n(1) by simp
  then have "cs_lastClientSeq cs = 6" using n(2) \<open>n = 1\<close> by simp
  then show ?thesis using r(1,3) s by (intro exI [of _ gw]) simp
qed

text \<open>
  C11: Every command that is sequenced carries the participant of the session it came in on, that participant has a credential,
  and the session had logged in: nothing is ever sequenced for a session that waits for its login. Reads are taken to complete only
  while their session is open.
\<close>

theorem gateway_authenticated:
  assumes "(gw_step io pads)\<^sup>*\<^sup>* (newGatewayServer shards auth minPrice maxPrice) gw" "(sid, n, k, c, q) \<in> set (gw_log gw)"
  shows "sid < length (gw_sessions gw) \<and> cs_state (gw_sessions gw ! sid) \<noteq> AwaitingLogin \<and>
    c_participant c = cs_participantId (gw_sessions gw ! sid) \<and> c_participant c \<in> dom auth"
proof -
  have inv: "gw_inv gw" by (rule reach_inv(1) [OF assms(1)])
  have sid: "sid < length (gw_sessions gw)" using inv assms(2) by (auto simp: gw_inv_def)
  then have "client_inv gw sid (gw_sessions gw ! sid)" using inv by (simp add: gw_inv_def)
  moreover have "(sid, n, k, c, q) \<in> set (log_of gw sid)" using assms(2) by (simp add: log_of_def)
  ultimately show ?thesis using sid reach_server [OF assms(1)] by (auto simp: client_inv_def identity_inv_def phase_inv_def)
qed

theorem gateway_authenticated_witness:
  "\<exists>gw. (gw_step (\<lambda>_ _. Done) demo_pads)\<^sup>*\<^sup>* demo_gateway gw \<and> gw_log gw = [(0, 6, 0, demo_sell, 1)] \<and> cs_participantId (gw_sessions gw ! 0) = 7"
proof -
  obtain gw cs where r: "(gw_step (\<lambda>_ _. Done) demo_pads)\<^sup>*\<^sup>* demo_gateway gw" "gw_log gw = [(0, 6, 0, demo_sell, 1)]" by (rule demo_run)
  have "c_participant demo_sell = cs_participantId (gw_sessions gw ! 0)"
    using gateway_authenticated [OF r(1) [unfolded demo_gateway_def], of 0 6 0 demo_sell 1] r(2) by simp
  then show ?thesis using r by (intro exI [of _ gw]) (simp add: demo_sell_def)
qed

text \<open>
  C12: What reaches a sequencer is well typed: its fields fit their machine integers, and a new order or a replacement has a
  positive quantity and a price in the configured band, apart from a market order without a price. The band check of the
  decoder guards the commands of the read handler and of the retry of a waiting command alike. Reads are taken to complete
  only while their session is open; a read delivered after the session was closed is not among the steps.
\<close>

theorem gateway_commands_typed:
  assumes "(gw_step io pads)\<^sup>*\<^sup>* (newGatewayServer shards auth minPrice maxPrice) gw" "(sid, n, k, c, q) \<in> set (gw_log gw)"
  shows "cmd_fits c \<and> (c_kind c = Cancel \<or> 0 < c_quantity c \<and> (c_price c \<in> {minPrice..maxPrice} \<or> c_type c = Market \<and> c_price c = 0))"
proof -
  have inv: "gw_inv gw" by (rule reach_inv(1) [OF assms(1)])
  have sid: "sid < length (gw_sessions gw)" using inv assms(2) by (auto simp: gw_inv_def)
  then have "client_inv gw sid (gw_sessions gw ! sid)" using inv by (simp add: gw_inv_def)
  moreover have "(sid, n, k, c, q) \<in> set (log_of gw sid)" using assms(2) by (simp add: log_of_def)
  ultimately have "cmd_typed gw c" by (auto simp: client_inv_def identity_inv_def)
  then show ?thesis using reach_server [OF assms(1)] by (auto simp: cmd_typed_def)
qed

theorem gateway_commands_typed_witness:
  "\<exists>gw. (gw_step (\<lambda>_ _. Done) demo_pads)\<^sup>*\<^sup>* demo_gateway gw \<and> gw_log gw = [(0, 6, 0, demo_sell, 1)] \<and> cmd_fits demo_sell"
proof -
  obtain gw cs where r: "(gw_step (\<lambda>_ _. Done) demo_pads)\<^sup>*\<^sup>* demo_gateway gw" "gw_log gw = [(0, 6, 0, demo_sell, 1)]" by (rule demo_run)
  have "cmd_fits demo_sell" using gateway_commands_typed [OF r(1) [unfolded demo_gateway_def], of 0 6 0 demo_sell 1] r(2) by simp
  then show ?thesis using r by blast
qed






section \<open>Logging in\<close>

lemma or_zero: "or (x :: 'a :: len word) y = 0 \<longleftrightarrow> x = 0 \<and> y = 0"
  by (auto simp: bit_eq_iff bit_simps)

lemma xor_zero: "xor (x :: 'a :: len word) y = 0 \<longleftrightarrow> x = y"
  by (auto simp: bit_eq_iff bit_simps)

lemma foldl_or: "foldl (\<lambda>d k. or d (f k)) (d :: byte) ks = 0 \<longleftrightarrow> d = 0 \<and> (\<forall>k \<in> set ks. f k = 0)"
  by (induction ks arbitrary: d) (auto simp: or_zero)

lemma authenticate_iff:
  assumes "\<forall>t \<in> ran creds. length t = 32" "length token = 32"
  shows "authenticate creds i token \<longleftrightarrow> creds i = Some token"
proof (cases "creds i")
  case (Some t)
  then have "length t = 32" using assms(1) by (auto simp: ran_def)
  then have "(\<forall>k<32. t ! k = token ! k) \<longleftrightarrow> t = token" using assms(2) by (auto simp: list_eq_iff_nth_eq)
  then show ?thesis using Some by (simp add: authenticate_def foldl_or xor_zero Ball_def)
qed (simp add: authenticate_def)

text \<open>
  A login is accepted exactly when the participant has a credential and the token is that credential, byte for byte, although
  the comparison is written so that its time does not depend on where they differ. An accepted session answers with an
  acknowledgement, stops the login timer and takes the participant and the sequence number of the message; any other login is
  answered with a reject and the session is closed.
\<close>

theorem login_accepts_exactly:
  assumes "\<not> cs_closed cs" "\<forall>t \<in> ran (gw_auth gw). length t = 32" "length (lg_token m) = 32"
  shows "handleLogin gw cs m =
    (if gw_auth gw (lg_participantId m) = Some (lg_token m)
     then sendFrame (cs\<lparr>cs_participantId := lg_participantId m, cs_lastClientSeq := lg_clientSeqNum m, cs_state := Authenticated, cs_authTimer := False\<rparr>)
       (encodeLoginAck \<lparr>la_serverSeq = loginAckSeq gw, la_status = 0\<rparr>)
     else (sendFrame cs (encodeLoginReject \<lparr>lr_reason = reason_code AuthFailed, lr_reserved = 0\<rparr>))
       \<lparr>cs_closed := True, cs_state := Closing, cs_authTimer := False, cs_heartbeatTimer := False\<rparr>)"
proof -
  have "\<not> cs_closed (sendLoginReject cs AuthFailed)" using assms(1) by (simp add: sendLoginReject_def sendFrame_def doWrite_def Let_def)
  then show ?thesis using authenticate_iff [OF assms(2,3), of "lg_participantId m"] by (simp add: handleLogin_def Let_def closeSession_def) (simp add: sendLoginReject_def)
qed

theorem login_accepts_exactly_witness:
  "cs_state (handleLogin demo_gateway (demo_session_of AwaitingLogin 0 0 []) demo_login) = Authenticated \<and>
   cs_state (handleLogin demo_gateway (demo_session_of AwaitingLogin 0 0 []) (demo_login\<lparr>lg_token := replicate 31 1 @ [2]\<rparr>)) = Closing"
proof -
  have t: "\<forall>t \<in> ran (gw_auth demo_gateway). length t = 32" by (simp add: demo_shards demo_token_def)
  have d: "demo_token \<noteq> replicate 31 1 @ [2]" unfolding demo_token_def by code_simp
  have o: "\<not> cs_closed (demo_session_of AwaitingLogin 0 0 [])" by (simp add: demo_session_simps)
  show ?thesis using login_accepts_exactly [OF o t, of demo_login] login_accepts_exactly [OF o t, of "demo_login\<lparr>lg_token := replicate 31 1 @ [2]\<rparr>"] d
    by (simp add: demo_login_def demo_shards) (simp add: demo_token_def)
qed

section \<open>Reading\<close>

lemma closeSession_closed [simp]: "cs_closed (closeSession cs)"
  by (simp add: closeSession_def)

lemma decodedStep_stops:
  assumes "decodedStep io pads gw sid cs = (False, gw', cs')"
  shows "cs_closed cs' \<or> cs_readSuspended cs' \<or> fst (fd_next (cs_decoder cs')) = RIncomplete"
proof (cases "fst (fd_next (cs_decoder cs))")
  case RIncomplete
  then have "fd_next (cs_decoder cs) = (RIncomplete, cs_decoder cs)" by (auto simp: fd_next_def fail_def Let_def split: if_splits sum.splits option.splits)
  then show ?thesis using assms by (simp add: decodedStep_def)
next
  case (RInvalid r)
  then show ?thesis using assms by (auto simp: decodedStep_def case_prod_beta Let_def)
next
  case (ROk msg)
  then show ?thesis using assms
    by (auto simp: decodedStep_def awaitingStep_def authenticatedStep_def case_prod_beta Let_def split: if_splits DecodedMessage.splits prod.splits)
qed

text \<open>
  The loop over the frames of a read ends, and it ends because nothing more can be done: the session is closed, or it waits
  for room in a ring, or what is left in the buffer is not a complete frame. When a read has been processed, no complete frame is left
  behind in a session that goes on reading.
\<close>

theorem processDecoded_exhausts:
  "case processDecoded io pads gw sid cs of (gw', cs') \<Rightarrow> cs_closed cs' \<or> cs_readSuspended cs' \<or> fst (fd_next (cs_decoder cs')) = RIncomplete"
proof (induction io pads gw sid cs rule: processDecoded.induct)
  case (1 io pads gw sid cs)
  obtain go gw1 cs1 where st: "decodedStep io pads gw sid cs = (go, gw1, cs1)" by (cases "decodedStep io pads gw sid cs") auto
  show ?case
  proof (cases go)
    case True
    then show ?thesis using 1 [OF st [symmetric] refl refl] st by (subst processDecoded.simps) simp
  next
    case False
    then show ?thesis using decodedStep_stops [of io pads gw sid cs gw1 cs1] st by (subst processDecoded.simps) simp
  qed
qed

section \<open>A write that stops short\<close>

definition short_env :: env where
  "short_env n = (if n = 3 then Short 1 else Done)"

definition torn_dir :: dir where
  "torn_dir = [(segmentName 1, \<lparr>f_bytes = encodeSegmentHeader (seg_header 1 0) @ 48 # encodeRecord [0, 0, 0, 0, 0] 1 New demo_sell,
     f_synced = kSegmentHeaderSize + 1 + kRecordSize\<rparr>)]"

lemma record_head: "encodeRecord pad s k c = 48 # 0 # 0 # 0 # drop 4 (encodeRecord pad s k c)"
proof -
  have "putU32 (of_nat kCommandSize) = [48, 0, 0, 0]" by code_simp
  then show ?thesis by (simp add: encodeRecord_def Let_def)
qed

lemma shifted_length: "getU32 (48 # 48 # 0 # 0 # xs) = 12336"
  by (simp add: getU32_def upt_rec)

lemma torn_drains:
  obtains f r where "drains torn_dir (newJournalReader torn_dir) [] f r" "rr_status f = TruncatedTail"
proof -
  let ?r = "newJournalReader torn_dir" and ?rec = "encodeRecord [0, 0, 0, 0, 0] 1 New demo_sell"
  have ext: "extension (segmentName 1) = ''.jnl''" by (simp add: segmentName_def extension_def)
  have segs: "jr_segments ?r = [segmentName 1]" "jr_nextSegmentIdx ?r = 0" "jr_fd ?r = None"
    by (simp_all add: newJournalReader_def journal_files_def torn_dir_def ext)
  have len: "length ?rec = kRecordSize" by (rule encodeRecord_length) simp
  have there: "map_of torn_dir (segmentName 1) = Some \<lparr>f_bytes = encodeSegmentHeader (seg_header 1 0) @ 48 # ?rec, f_synced = kSegmentHeaderSize + 1 + kRecordSize\<rparr>"
    by (simp add: torn_dir_def)
  let ?r1 = "?r\<lparr>jr_nextSegmentIdx := 1, jr_currentPath := segmentName 1, jr_fd := Some (segmentName 1), jr_fileSize := kSegmentHeaderSize + 1 + kRecordSize,
    jr_currentFirstSeq := 1, jr_currentCreatedCounter := 0, jr_offset := kSegmentHeaderSize\<rparr>"
  have op: "openNextSegment torn_dir ?r = (True, ?r1)"
    by (subst openNextSegment.simps) (simp add: segs openSegmentAtIndex_def there decodeSegmentHeader_header len Let_def seg_header_sel)
  have "unat (getU32 (take kRecordFixedSize (48 # ?rec))) \<noteq> kCommandSize"
    by (subst record_head) (simp add: shifted_length kRecordFixedSize_def kCommandSize_def)
  then have "readOneRecord torn_dir ?r1 = torn ?r1 kSegmentHeaderSize"
    by (simp add: readOneRecord_def Let_def bytes_of_def there len kRecordSize_def)
  then have "jr_next torn_dir ?r1 = torn ?r1 kSegmentHeaderSize" by (auto simp: torn_def intro: jr_next_record)
  then have "jr_next torn_dir ?r = torn ?r1 kSegmentHeaderSize" using jr_next_open [OF segs(3) op] by simp
  then show thesis by (intro that drains.fin) (auto simp: torn_def)
qed

text \<open>
  C39: After a failed append the sequencer must not be used again. A write to the journal stops after one byte and the command
  is refused; the next command is acknowledged as number 1 and synced, but the stray byte stands before its record, so the
  journal, read back without any crash, ends before it and the acknowledged command is lost.
\<close>

theorem short_write_loses_acknowledged:
  "\<exists>sq1 sq2 f r. trySubmit short_env [0, 0, 0, 0, 0] (demo_sequencer PerRecord 1) New demo_sell = (\<lparr>ts_outcome = DurabilityFailure, ts_seq = 0\<rparr>, sq1) \<and>
     trySubmit short_env [0, 0, 0, 0, 0] sq1 New demo_sell = (\<lparr>ts_outcome = Sequenced, ts_seq = 1\<rparr>, sq2) \<and>
     drains (w_dir (jw_world (sq_journal sq2))) (newJournalReader (w_dir (jw_world (sq_journal sq2)))) [] f r \<and> rr_status f = TruncatedTail"
proof -
  let ?rec = "encodeRecord [0, 0, 0, 0, 0] 1 New demo_sell"
  have len: "length ?rec = kRecordSize" by (rule encodeRecord_length) simp
  have hd: "take 1 ?rec = [48]" by (subst record_head) simp
  have cl: "sr_tryClaim (newSpscRing (demo_cmd New 0 0 0 Buy) 2) = (Some 0, newSpscRing (demo_cmd New 0 0 0 Buy) 2)"
    by (simp add: sr_tryClaim_def newSpscRing_def sr_capacity_def ring_mask_def)
  let ?jw1 = "snd (jw_append short_env [0, 0, 0, 0, 0] (newJournalWriter demo_world 4096 PerRecord 1) 1 New demo_sell)"
  let ?jw2 = "snd (jw_append short_env [0, 0, 0, 0, 0] ?jw1 1 New demo_sell)"
  have ap: "\<not> fst (jw_append short_env [0, 0, 0, 0, 0] (newJournalWriter demo_world 4096 PerRecord 1) 1 New demo_sell)"
      "fst (jw_append short_env [0, 0, 0, 0, 0] ?jw1 1 New demo_sell)" "w_dir (jw_world ?jw2) = torn_dir"
    by (simp_all add: jw_append_def newJournalWriter_def openSegment_def demo_world_def sys_create_def sys_write_def sys_fsync_def put_file_def
        tick_call_def Let_def len jw_sync_def short_env_def hd [simplified] kRecordSize_def kRecordFixedSize_def kCommandSize_def kRecordCrcSize_def kSegmentHeaderSize_def torn_dir_def seg_header_def)
  have "trySubmit short_env [0, 0, 0, 0, 0] (demo_sequencer PerRecord 1) New demo_sell =
      (\<lparr>ts_outcome = DurabilityFailure, ts_seq = 0\<rparr>, (demo_sequencer PerRecord 1)\<lparr>sq_journal := ?jw1\<rparr>)"
    using ap(1) cl by (simp add: trySubmit_def demo_sequencer_def newSequencer_def Let_def case_prod_beta)
  moreover obtain sq2 where "trySubmit short_env [0, 0, 0, 0, 0] ((demo_sequencer PerRecord 1)\<lparr>sq_journal := ?jw1\<rparr>) New demo_sell =
      (\<lparr>ts_outcome = Sequenced, ts_seq = 1\<rparr>, sq2)" "sq_journal sq2 = ?jw2"
    using ap(2) cl by (simp add: trySubmit_def demo_sequencer_def newSequencer_def Let_def case_prod_beta)
  moreover obtain f r where "drains torn_dir (newJournalReader torn_dir) [] f r" "rr_status f = TruncatedTail" by (rule torn_drains)
  ultimately show ?thesis using ap(3) by metis
qed

section \<open>Routes\<close>

lemma submitOrPend_routes:
  assumes "k < length (gw_shardCtxs gw)" "ts_outcome (fst (shardSubmit io pads (registerRoute gw k (routedId cmd) sid (cs_lastClientSeq cs)) k (c_kind cmd) cmd)) \<noteq> DurabilityFailure"
  shows "sx_routes (gw_shardCtxs (fst (submitOrPend io pads gw sid cs cmd (int k))) ! k) =
      (sx_routes (gw_shardCtxs gw ! k))(routedId cmd \<mapsto> \<lparr>rt_session = sid, rt_clientSeqNum = cs_lastClientSeq cs\<rparr>)"
    "k < length (gw_shardCtxs (fst (submitOrPend io pads gw sid cs cmd (int k))))"
  using assms by (auto simp: submitOrPend_def shardSubmit_def registerRoute_def logSequenced_def Let_def case_prod_beta split: Outcome.split)

lemma routeReject_erases:
  assumes "k < length (gw_shardCtxs gw)" "sx_routes (gw_shardCtxs gw ! k) i \<noteq> None"
  shows "sx_routes (gw_shardCtxs (routeReject expired gw k i reason s) ! k) i = None"
  using assms by (auto simp: routeReject_def eraseRoute_def dropRoute_def postFrame_def Let_def)

text \<open>
  C38: The route of an order follows whoever names its id last. A session that sends a new order under the id of another client's
  live order takes over the route before the engine has seen the command, and when the engine rejects the duplicate the route is
  erased: a later fill of the order that is still resting is posted to nobody and counted as dropped.
\<close>

theorem route_takeover:
  assumes "k < length (gw_shardCtxs gw)" "shardIndexFor gw (no_instrumentId m) = int k"
    and "no_clientSeqNum m = cs_lastClientSeq cs + 1" "cs_lastClientSeq cs < no_clientSeqNum m"
    and "handleNewOrder io pads gw sid cs m = (gw1, cs1)" "\<not> cs_closed cs1"
    and "st \<noteq> Ok"
  shows "sx_routes (gw_shardCtxs gw1 ! k) (no_orderId m) = Some \<lparr>rt_session = sid, rt_clientSeqNum = no_clientSeqNum m\<rparr> \<and>
    (let gw2 = routeOne expired k gw1 (statusEvent (no_orderId m) st g) in
       sx_routes (gw_shardCtxs gw2 ! k) (no_orderId m) = None \<and>
       routeExecReport expired gw2 k (no_orderId m) ty q l p tid s = dropRoute gw2 k)"
proof -
  let ?cmd = "zeroCommand\<lparr>c_id := no_orderId m, c_newId := 0, c_price := no_price m, c_quantity := no_quantity m,
    c_participant := cs_participantId cs, c_kind := New, c_side := no_side m, c_type := wireType m\<rparr>"
  let ?cs = "cs\<lparr>cs_lastClientSeq := no_clientSeqNum m\<rparr>"
  let ?r = "fst (shardSubmit io pads (registerRoute gw k (routedId ?cmd) sid (cs_lastClientSeq ?cs)) k (c_kind ?cmd) ?cmd)"
  have "checkClientSeq cs (no_clientSeqNum m) (no_orderId m) = (True, ?cs)" using assms(3,4) by (auto simp: checkClientSeq_def)
  then have sub: "submitOrPend io pads gw sid ?cs ?cmd (int k) = (gw1, cs1)"
    using assms(2,5) by (simp add: handleNewOrder_def Let_def)
  have "ts_outcome ?r \<noteq> DurabilityFailure"
  proof
    assume "ts_outcome ?r = DurabilityFailure"
    then have "cs1 = closeSession (sendReject ?cs (routedId ?cmd) EngineReject 0)" using sub by (simp add: submitOrPend_def Let_def case_prod_beta)
    then show False using assms(6) by simp
  qed
  note rt = submitOrPend_routes [OF assms(1) this, unfolded sub fst_conv]
  have id: "routedId ?cmd = no_orderId m" by (simp add: routedId_def)
  have r1: "sx_routes (gw_shardCtxs gw1 ! k) (no_orderId m) = Some \<lparr>rt_session = sid, rt_clientSeqNum = no_clientSeqNum m\<rparr>" using rt(1) id by simp
  have "sx_routes (gw_shardCtxs (routeOne expired k gw1 (statusEvent (no_orderId m) st g)) ! k) (no_orderId m) = None"
    using routeReject_erases [OF rt(2), of "no_orderId m"] r1 assms(7) by (simp add: routeOne_def statusEvent_def)
  then show ?thesis using r1 by (simp add: Let_def routeExecReport_def)
qed

theorem route_takeover_witness:
  "\<exists>gw1 cs1. sx_routes (gw_shardCtxs (registerRoute demo_gateway 0 1 0 9) ! 0) 1 = Some \<lparr>rt_session = 0, rt_clientSeqNum = 9\<rparr> \<and>
     handleNewOrder (\<lambda>_ _. Done) demo_pads (registerRoute demo_gateway 0 1 0 9) 1 (demo_session_of Authenticated 7 5 []) demo_new = (gw1, cs1) \<and>
     sx_routes (gw_shardCtxs gw1 ! 0) 1 = Some \<lparr>rt_session = 1, rt_clientSeqNum = 6\<rparr>"
proof -
  let ?gw = "registerRoute demo_gateway 0 1 0 9" and ?cs = "demo_session_of Authenticated 7 5 []"
  obtain ctx where ctx: "gw_shardCtxs ?gw = [ctx]" "sx_instrumentId ctx = 1" "sx_sequencer ctx = demo_sequencer PerRecord 1"
    "sx_routes ctx 1 = Some \<lparr>rt_session = 0, rt_clientSeqNum = 9\<rparr>"
    by (simp add: registerRoute_def demo_shards newShardCtx_def)
  obtain gw1 where h: "handleNewOrder (\<lambda>_ _. Done) demo_pads ?gw 1 ?cs demo_new = (gw1, sendNewAckIfApplicable (?cs\<lparr>cs_lastClientSeq := 6\<rparr>) demo_sell 1)"
    by (rule demo_new_order [OF ctx(1-3), of ?cs 6 7 1]) (simp_all add: demo_session_simps checkClientSeq_def demo_new_six)
  have k: "0 < length (gw_shardCtxs ?gw)" "shardIndexFor ?gw (no_instrumentId demo_new) = int 0" using ctx(1,2) by (simp_all add: shardIndexFor_def demo_new_def)
  have n: "no_clientSeqNum demo_new = cs_lastClientSeq ?cs + 1" "cs_lastClientSeq ?cs < no_clientSeqNum demo_new" by (simp_all add: demo_new_def demo_session_simps)
  have o: "\<not> cs_closed (sendNewAckIfApplicable (?cs\<lparr>cs_lastClientSeq := 6\<rparr>) demo_sell 1)"
    by (simp add: sendNewAckIfApplicable_def sendFrame_def doWrite_def demo_session_simps Let_def)
  have "sx_routes (gw_shardCtxs gw1 ! 0) 1 = Some \<lparr>rt_session = 1, rt_clientSeqNum = 6\<rparr>"
    using route_takeover [OF k n h o, of RejectedDuplicateId] by (simp add: demo_new_def)
  then show ?thesis using ctx(1,4) h by simp
qed

section \<open>A read after the close\<close>

text \<open>
  C37: A read that has already completed when the session is closed is still delivered, and the loop over its frames only asks
  whether the session is waiting for its login. A session that never logged in and was closed, by the login timer for example,
  is not: a new order in that read is sequenced for participant 0, on a server that has no credentials at all.
\<close>

theorem late_read_unauthenticated:
  "\<exists>gw1 cs1. onRead (\<lambda>_ _. Done) demo_pads (demo_gateway\<lparr>gw_auth := Map.empty\<rparr>) 0
       ((onAuthTimeout (demo_session_of AwaitingLogin 0 0 []))\<lparr>cs_reading := False\<rparr>) (encode (DNewOrder (demo_new\<lparr>no_clientSeqNum := 1\<rparr>))) = (gw1, cs1) \<and>
     gw_log gw1 = [(0, 1, 0, demo_sell\<lparr>c_participant := 0\<rparr>, 1)]"
proof -
  let ?gw = "demo_gateway\<lparr>gw_auth := Map.empty\<rparr>" and ?m = "demo_new\<lparr>no_clientSeqNum := 1\<rparr>"
  let ?cs = "(onAuthTimeout (demo_session_of AwaitingLogin 0 0 []))\<lparr>cs_reading := False\<rparr>"
  let ?in = "?cs\<lparr>cs_missedHeartbeats := 0, cs_decoder := (cs_decoder ?cs)\<lparr>fd_buf := encode (DNewOrder ?m)\<rparr>\<rparr>"
  note cs = onAuthTimeout_def closeSession_def demo_session_simps
  have ok: "msg_ok (cs_decoder ?cs) (DNewOrder ?m)" by (simp add: demo_new_def in_i64_def cs price_ok_def)
  have "length (encode (DNewOrder ?m)) \<le> kCapacity" using fd.enc_size(1) [OF ok] by (simp add: kCapacity_def kFrameHeaderSize_def kMaxFrame_def)
  then have fed: "feed (cs_decoder ?cs) (encode (DNewOrder ?m)) = (True, cs_decoder ?in)" by (simp add: feed_def cs)
  have nx: "fd_next (cs_decoder ?in) = (ROk (DNewOrder ?m), (cs_decoder ?in)\<lparr>fd_buf := []\<rparr>)"
    by (rule fd_next_frame) (use ok in \<open>simp_all add: cs price_ok_def\<close>)
  let ?cs1 = "?in\<lparr>cs_decoder := (cs_decoder ?in)\<lparr>fd_buf := []\<rparr>\<rparr>"
  obtain gw1 where h: "handleNewOrder (\<lambda>_ _. Done) demo_pads ?gw 0 ?cs1 ?m = (gw1, sendNewAckIfApplicable (?cs1\<lparr>cs_lastClientSeq := 1\<rparr>) (demo_sell\<lparr>c_participant := 0\<rparr>) 1)"
      "gw_log gw1 = gw_log ?gw @ [(0, 1, 0, demo_sell\<lparr>c_participant := 0\<rparr>, 1)]"
    by (rule demo_new_order [of ?gw "newShardCtx 1 (demo_sequencer PerRecord 1)" ?cs1 1 0 0]) (simp_all add: demo_shards newShardCtx_def cs checkClientSeq_def)
  have st: "cs_state ?cs1 \<noteq> AwaitingLogin" "cs_closed (sendNewAckIfApplicable (?cs1\<lparr>cs_lastClientSeq := 1\<rparr>) (demo_sell\<lparr>c_participant := 0\<rparr>) 1)"
    by (simp_all add: cs sendNewAckIfApplicable_def sendFrame_def)
  have "decodedStep (\<lambda>_ _. Done) demo_pads ?gw 0 ?in = (False, gw1, sendNewAckIfApplicable (?cs1\<lparr>cs_lastClientSeq := 1\<rparr>) (demo_sell\<lparr>c_participant := 0\<rparr>) 1)"
    unfolding decodedStep_def nx Let_def prod.case Result.case authenticatedStep_def DecodedMessage.case h(1) using st by simp
  then have "processDecoded (\<lambda>_ _. Done) demo_pads ?gw 0 ?in = (gw1, sendNewAckIfApplicable (?cs1\<lparr>cs_lastClientSeq := 1\<rparr>) (demo_sell\<lparr>c_participant := 0\<rparr>) 1)"
    by (subst processDecoded.simps) simp
  then show ?thesis using h(2) fed st(2) by (simp add: onRead_def demo_shards)
qed

section \<open>Cancel/replace\<close>

definition demo_replace :: CancelReplaceMsg where
  "demo_replace = \<lparr>cr_clientSeqNum = 6, cr_orderId = 1, cr_instrumentId = 1, cr_newPrice = 102, cr_newQuantity = 4\<rparr>"

definition demo_replaced :: Command where
  "demo_replaced = \<lparr>c_id = 1, c_newId = 1, c_price = 102, c_quantity = 4, c_participant = 7, c_kind = Replace, c_side = Buy, c_type = Limit\<rparr>"

text \<open>
  C36: A cancel/replace through the gateway turns a sell order into a buy order. The message has no side and the session leaves the side of
  the command at its default; the matching thread cancels the resting sell and rests the replacement as a bid.
\<close>

theorem cancel_replace_flips_side:
  "\<exists>gw1 cs1 mt es. handleCancelReplace (\<lambda>_ _. Done) demo_pads demo_gateway 0 (demo_session_of Authenticated 7 5 []) demo_replace = (gw1, cs1) \<and>
     gw_log gw1 = [(0, 6, 0, demo_replaced, 1)] \<and>
     run_with dispatch (newMatchingThread demo_cfg) [demo_sell, demo_replaced] = Some (mt, es) \<and>
     sp_asks (absb (mt_book mt)) = [] \<and> map (\<lambda>r. (v_id r, v_side r, v_price r, v_remaining r)) (sp_bids (absb (mt_book mt))) = [(1, Buy, 102, 4)]"
proof -
  let ?cs = "demo_session_of Authenticated 7 5 []"
  obtain sq where sq: "trySubmit (\<lambda>_. Done) [0, 0, 0, 0, 0] (demo_sequencer PerRecord 1) Replace demo_replaced = (\<lparr>ts_outcome = Sequenced, ts_seq = 1\<rparr>, sq)"
    by (rule demo_trySubmit)
  have kd: "c_kind demo_replaced = Replace" by (simp add: demo_replaced_def)
  have seq0: "sq_seq (demo_sequencer PerRecord 1) = 0" by (simp add: demo_sequencer_def newSequencer_def)
  obtain gw1 cs1 where sub: "submitOrPend (\<lambda>_ _. Done) demo_pads demo_gateway 0 (?cs\<lparr>cs_lastClientSeq := 6\<rparr>) demo_replaced 0 = (gw1, cs1)"
      "gw_log gw1 = [(0, 6, 0, demo_replaced, 1)]"
    using sq kd by (simp add: submitOrPend_def registerRoute_def shardSubmit_def demo_pads_def logSequenced_def Let_def seq0 demo_shards newShardCtx_def)
  have cmd: "zeroCommand\<lparr>c_id := 1, c_newId := 1, c_price := 102, c_quantity := 4, c_participant := 7, c_kind := Replace, c_type := Limit\<rparr> = demo_replaced"
    by (simp add: zeroCommand_def demo_replaced_def)
  have "checkClientSeq ?cs 6 1 = (True, ?cs\<lparr>cs_lastClientSeq := 6\<rparr>)" "cs_participantId ?cs = 7" "shardIndexFor demo_gateway 1 = 0"
    by (simp_all add: checkClientSeq_def demo_session_simps shardIndexFor_def demo_shards newShardCtx_def)
  then have h: "handleCancelReplace (\<lambda>_ _. Done) demo_pads demo_gateway 0 ?cs demo_replace = (gw1, cs1)"
    using sub(1) cmd by (simp add: handleCancelReplace_def demo_replace_def)
  have new: "absb (mt_book (newMatchingThread demo_cfg)) = aempty" "ob_cfg (mt_book (newMatchingThread demo_cfg)) = demo_cfg"
    using newOrderBook_ok [OF demo_cfg_ok] by (simp_all add: newMatchingThread_def aempty_def)
  have "\<forall>c \<in> set [demo_sell, demo_replaced]. cmd_ok (ob_cfg (mt_book (newMatchingThread demo_cfg))) c" by (simp add: cmd_ok_def new demo_on_tick)
  from dispatch_run_state [OF newMatchingThread_inv [OF demo_cfg_ok] this] obtain mt es where
    mt: "run_with dispatch (newMatchingThread demo_cfg) [demo_sell, demo_replaced] = Some (mt, es)"
      "absb (mt_book mt) = foldl (astate demo_cfg) aempty [demo_sell, demo_replaced]" unfolding new by blast
  have "(let A = foldl (astate demo_cfg) aempty [demo_sell, demo_replaced] in
      (sp_asks A, map (\<lambda>r. (v_id r, v_side r, v_price r, v_remaining r)) (sp_bids A))) = ([], [(1, Buy, 102, 4)])"
    by code_simp
  then show ?thesis using h sub(2) mt by (auto simp: Let_def)
qed

end
