(* ===== verification/Ring_Properties.thy ===== *)
theory Ring_Properties
  imports Spsc_Ring
begin

text \<open>
  The properties of the single-producer single-consumer ring.
\<close>

section \<open>Two runs\<close>

definition wrapped_ring :: "nat SpscRing" where
  "wrapped_ring = \<lparr>sr_storage = [7, 8], sr_head = - 1, sr_tail = - 1, sr_cachedTail = - 1, sr_cachedHead = - 1\<rparr>"

lemma wrapped_ring_inv: "sr_inv wrapped_ring"
proof -
  obtain p where m: "(- 1 :: 64 word) = of_nat p" by (rule word_nat_cases)
  have "counters wrapped_ring p p False False"
    unfolding counters_def wrapped_ring_def sr_capacity_def ring_size_def SpscRing.select_convs m
    by (intro conjI exI [of _ 1] exI [of _ p]) simp_all
  then show ?thesis unfolding sr_inv_def by blast
qed

lemma ring_size_2 [simp]: "ring_size 2"
  unfolding ring_size_def by (rule exI [of _ 1]) simp

text \<open>The producer is in the middle of its second value while the consumer holds the slot of the first.\<close>

definition overlap :: "nat ring_threads" where
  "overlap = \<lparr>th_ring = \<lparr>sr_storage = [5, 0], sr_head = 1, sr_tail = 0, sr_cachedTail = 0, sr_cachedHead = 1\<rparr>,
     th_producer = PClaimed 1 6, th_consumer = CPeeked 0, th_sent = [5], th_got = []\<rparr>"

lemma overlap_reached: "ring_step\<^sup>*\<^sup>* (start_threads (newSpscRing 0 2)) overlap"
proof -
  let ?r0 = "newSpscRing 0 2 :: nat SpscRing"
  let ?s0 = "start_threads ?r0"
  let ?s1 = "?s0\<lparr>th_ring := ?r0, th_producer := PClaimed 0 5\<rparr>"
  let ?s2 = "?s1\<lparr>th_ring := sr_write (th_ring ?s1) 0 5, th_producer := PWritten 5\<rparr>"
  let ?s3 = "?s2\<lparr>th_ring := sr_publish (th_ring ?s2), th_producer := PIdle, th_sent := th_sent ?s2 @ [5]\<rparr>"
  let ?s4 = "?s3\<lparr>th_ring := (th_ring ?s3)\<lparr>sr_cachedHead := 1\<rparr>, th_consumer := CPeeked 0\<rparr>"
  have "ring_step ?s0 ?s1" by (rule ring_step.claim) (simp_all add: start_threads_def newSpscRing_def sr_tryClaim_def sr_capacity_def ring_mask_def)
  moreover have "ring_step ?s1 ?s2" by (rule ring_step.wrt) simp
  moreover have "ring_step ?s2 ?s3" by (rule ring_step.publ) simp
  moreover have "ring_step ?s3 ?s4"
    by (rule ring_step.peek)
      (simp_all add: start_threads_def newSpscRing_def sr_tryPeek_def sr_capacity_def ring_mask_def sr_write_def sr_publish_def Let_def)
  moreover have "ring_step ?s4 (?s4\<lparr>th_ring := th_ring ?s4, th_producer := PClaimed 1 6\<rparr>)"
    by (rule ring_step.claim)
      (simp_all add: start_threads_def newSpscRing_def sr_tryClaim_def sr_capacity_def ring_mask_def sr_write_def sr_publish_def Let_def word_le_nat_alt)
  moreover have "?s4\<lparr>th_ring := th_ring ?s4, th_producer := PClaimed 1 6\<rparr> = overlap"
    by (simp add: overlap_def start_threads_def newSpscRing_def sr_write_def sr_publish_def numeral_2_eq_2)
  ultimately show ?thesis by (auto intro: converse_rtranclp_into_rtranclp)
qed

section \<open>Properties\<close>

text \<open>
  C13: The ring under every interleaving. Producer and consumer run concurrently, and each of their loads, slot accesses and
  stores is a step of its own. In every reachable state what the consumer has read is a prefix of what the producer has
  published, at most a capacity of values is in flight, and the slot the producer is about to write is never the slot the
  consumer is about to read; both are slots of the buffer.
\<close>

theorem spsc_concurrent:
  assumes "ring_size c" "ring_step\<^sup>*\<^sup>* (start_threads (newSpscRing d c)) s"
  shows "take (length (th_got s)) (th_sent s) = th_got s \<and> length (th_sent s) \<le> length (th_got s) + c \<and>
    (\<forall>i v. th_producer s = PClaimed i v \<longrightarrow> i < c \<and> th_consumer s \<noteq> CPeeked i) \<and> (\<forall>j. th_consumer s = CPeeked j \<longrightarrow> j < c)"
proof -
  have inv: "threads_inv s" by (rule ring_reach_inv [OF assms(2) start_inv [OF assms(1)]])
  have cap: "sr_capacity (th_ring s) = c" using ring_reach_capacity [OF assms(2)] by (simp add: start_threads_def newSpscRing_def sr_capacity_def)
  show ?thesis using threads_safe [OF inv] unfolding cap by blast
qed

theorem spsc_concurrent_witness:
  "ring_step\<^sup>*\<^sup>* (start_threads (newSpscRing 0 2)) overlap \<and> th_producer overlap = PClaimed 1 6 \<and> th_consumer overlap \<noteq> CPeeked 1"
  using spsc_concurrent [OF ring_size_2 overlap_reached] overlap_reached by (simp add: overlap_def)

text \<open>
  C34: Nothing gets stuck. From every reachable state the consumer, whatever it is in the middle of, can take every value that was
  published, without the help of the producer.
\<close>

theorem spsc_consumer_drains:
  assumes "ring_size c" "ring_step\<^sup>*\<^sup>* (start_threads (newSpscRing d c)) s"
  shows "\<exists>t. ring_step\<^sup>*\<^sup>* s t \<and> th_sent t = th_sent s \<and> th_got t = th_sent s"
  by (rule consumer_drains [OF ring_reach_inv [OF assms(2) start_inv [OF assms(1)]]])

theorem spsc_consumer_drains_witness: "\<exists>t. ring_step\<^sup>*\<^sup>* overlap t \<and> th_sent t = [5] \<and> th_got t = [5]"
  using spsc_consumer_drains [OF ring_size_2 overlap_reached] by (simp add: overlap_def)

text \<open>
  The ring is a bounded queue for every sequence of pushes and pops, from every state of its cursors, the wrap around of the
  64-bit cursors included: what was in it and was accepted comes out in the same order, what has not come out is still there, and
  there is never more of it than the capacity.
\<close>

theorem spsc_fifo:
  assumes "sr_inv r" "fifo_run sr_push sr_pop r ops = (ins, outs, r')"
  shows "sr_contents r @ ins = outs @ sr_contents r' \<and> sr_inv r' \<and> length (sr_contents r') \<le> sr_capacity r"
  by (rule sr.run_fifo [OF assms])

theorem spsc_fifo_witness:
  "\<exists>r'. fifo_run sr_push sr_pop wrapped_ring [Push 1, Push 2, Push 3, Pop, Push 4] = ([1, 2, 4], [1], r') \<and> sr_contents r' = [2, 4]"
proof -
  let ?run = "fifo_run sr_push sr_pop wrapped_ring [Push 1, Push 2, Push 3, Pop, Push 4]"
  have "fst ?run = [1, 2, 4] \<and> fst (snd ?run) = [1]"
    by (simp add: wrapped_ring_def sr_push_def sr_pop_def sr_tryClaim_def sr_tryPeek_def sr_write_def sr_publish_def sr_consume_def
        sr_capacity_def ring_mask_def Let_def word_le_nat_alt)
  then obtain r' where r: "?run = ([1, 2, 4], [1], r')" by (metis prod.collapse)
  then show ?thesis using spsc_fifo [OF wrapped_ring_inv r] by (simp add: sr_contents_def wrapped_ring_def)
qed

end
