(* ===== verification/Publisher.thy ===== *)
theory Publisher
  imports Mirror_Properties Feed_Codec Recovery
begin

text \<open>
  The market-data publisher (\<^verbatim>\<open>marketdata/publisher.hpp\<close>, \<^verbatim>\<open>marketdata/mirror_digest.hpp\<close>, \<^verbatim>\<open>marketdata/snapshot_source.hpp\<close>) that turns the
  outbound events of a matching thread into feed messages, and the subscriber of the visualiser (\<^verbatim>\<open>viz/ladder.hpp\<close>, \<^verbatim>\<open>viz/md_client.hpp\<close>) that
  turns feed messages back into price levels.
\<close>

section \<open>marketdata/mirror\_digest.hpp\<close>

definition mirrorRecord :: "Side \<Rightarrow> MirrorOrder \<Rightarrow> OrderRecord" where
  "mirrorRecord side x =
     \<lparr>or_id = m_id x, or_price = m_price x, or_quantity = m_quantity x, or_remaining = m_remaining x,
      or_participant = m_participant x, or_seq = m_seq x, or_side = side_code side\<rparr>"

definition digestOf :: "BookMirror \<Rightarrow> StateDigest" where
  "digestOf M =
     (let body = concat (map (\<lambda>(side, x). encodeOrderRecord (mirrorRecord side x)) (forEachOrder M))
      in \<lparr>dg_lastSeq = bm_lastSeq M, dg_nextTradeId = bm_tradeCount M, dg_restingOrders = mirror_restingOrders M, dg_bodyCrc32 = crc32 body\<rparr>)"

section \<open>marketdata/snapshot\_source.hpp\<close>

definition restedUpdate :: "Order \<Rightarrow> OrderUpdate" where
  "restedUpdate x = \<lparr>u_orderId = o_id x, u_price = o_price x, u_quantity = o_quantity x, u_remaining = o_remaining x,
     u_participant = o_participant x, u_seq = o_seq x\<rparr>"

definition loadMirrorFromBook :: "OrderBook \<Rightarrow> BookMirror \<Rightarrow> BookMirror option" where
  "loadMirrorFromBook b M = do {
     bids \<leftarrow> walkSide b Buy;
     asks \<leftarrow> walkSide b Sell;
     let M1 = foldl (\<lambda>M x. applyOrderUpdate M Rested Buy (restedUpdate x)) (mirror_clear M) bids;
     let M2 = foldl (\<lambda>M x. applyOrderUpdate M Rested Sell (restedUpdate x)) M1 asks;
     Some (seedCounters M2 (ob_seq b) (ob_nextTradeId b))
   }"

section \<open>marketdata/publisher.hpp\<close>

text \<open>
  A publisher hands every frame to every sink. The functions below return the messages in the order in which they are
  published; the bytes a sink receives are their encodings.
\<close>

definition publishMsg :: "DecodedFeedMessage \<Rightarrow> byte list" where
  "publishMsg m = feed_encode m"

record Publisher =
  pb_instrumentId :: InstrumentId
  pb_mirror :: BookMirror
  pb_bidTotals :: "Price \<rightharpoonup> Quantity"
  pb_askTotals :: "Price \<rightharpoonup> Quantity"
  pb_feedSeq :: "64 word"

definition newPublisher :: "InstrumentId \<Rightarrow> Publisher" where
  "newPublisher i = \<lparr>pb_instrumentId = i, pb_mirror = emptyMirror, pb_bidTotals = Map.empty, pb_askTotals = Map.empty, pb_feedSeq = 0\<rparr>"

definition nextFeedSeq :: "Publisher \<Rightarrow> 64 word \<times> Publisher" where
  "nextFeedSeq pb = (pb_feedSeq pb + 1, pb\<lparr>pb_feedSeq := pb_feedSeq pb + 1\<rparr>)"

definition totals_of :: "Publisher \<Rightarrow> Side \<Rightarrow> (Price \<rightharpoonup> Quantity)" where
  "totals_of pb side = (case side of Buy \<Rightarrow> pb_bidTotals pb | Sell \<Rightarrow> pb_askTotals pb)"

definition set_totals :: "Publisher \<Rightarrow> Side \<Rightarrow> (Price \<rightharpoonup> Quantity) \<Rightarrow> Publisher" where
  "set_totals pb side t = (case side of Buy \<Rightarrow> pb\<lparr>pb_bidTotals := t\<rparr> | Sell \<Rightarrow> pb\<lparr>pb_askTotals := t\<rparr>)"

definition diffLevel :: "Publisher \<Rightarrow> Side \<Rightarrow> Price \<Rightarrow> Publisher \<times> DecodedFeedMessage list" where
  "diffLevel pb side price =
     (let totals = totals_of pb side;
          newTotal = levelTotal (pb_mirror pb) side price;
          oldTotal = (case totals price of None \<Rightarrow> 0 | Some q \<Rightarrow> q)
      in if newTotal = oldTotal then (pb, [])
         else
           (let action = (if oldTotal = 0 then L2Add else if newTotal = 0 then L2Delete else L2Modify);
                pb1 = set_totals pb side (if newTotal = 0 then totals(price := None) else totals(price \<mapsto> newTotal));
                (n, pb2) = nextFeedSeq pb1
            in (pb2, [FL2Delta \<lparr>l2_instrumentId = pb_instrumentId pb2, l2_feedSeq = n, l2_side = side_code side, l2_action = l2_code action,
                  l2_price = price, l2_totalQty = newTotal, l2_orderCount = levelOrderCount (pb_mirror pb2) side price\<rparr>])))"

definition publishTrade :: "Publisher \<Rightarrow> Trade \<Rightarrow> Publisher \<times> DecodedFeedMessage list" where
  "publishTrade pb t =
     (let (n1, pb1) = nextFeedSeq pb;
          tick = FTradeTick \<lparr>tk_instrumentId = pb_instrumentId pb, tk_feedSeq = n1, tk_tradeId = t_id t, tk_aggressorId = t_aggressorId t,
            tk_passiveId = t_passiveId t, tk_price = t_price t, tk_quantity = t_quantity t, tk_aggressorSide = side_code (t_aggressorSide t)\<rparr>;
          passiveSide = opposite (t_aggressorSide t);
          (n2, pb2) = nextFeedSeq pb1;
          fill = FL3Fill \<lparr>lf_instrumentId = pb_instrumentId pb, lf_feedSeq = n2, lf_orderId = t_passiveId t, lf_tradeId = t_id t, lf_price = t_price t,
            lf_quantity = t_quantity t, lf_remaining = remainingOf (pb_mirror pb) (t_passiveId t)\<rparr>;
          (pb3, ms) = diffLevel pb2 passiveSide (t_price t)
      in (pb3, tick # fill # ms))"

fun l3_action_of :: "UpdateAction \<Rightarrow> L3Action option" where
  "l3_action_of Rested = Some L3Rested"
| "l3_action_of Cancelled = Some L3Cancelled"
| "l3_action_of Replaced = Some L3Replaced"
| "l3_action_of Rejected = None"

definition publishUpdate :: "Publisher \<Rightarrow> OutboundEvent \<Rightarrow> OrderUpdate \<Rightarrow> Publisher \<times> DecodedFeedMessage list" where
  "publishUpdate pb ev u =
     (case l3_action_of (e_action ev) of
        None \<Rightarrow> (pb, [])
      | Some action \<Rightarrow>
          (let (n, pb1) = nextFeedSeq pb;
               m = FL3Order \<lparr>l3_instrumentId = pb_instrumentId pb, l3_feedSeq = n, l3_action = l3_code action, l3_orderId = u_orderId u,
                 l3_side = side_code (e_side ev), l3_price = u_price u, l3_quantity = u_quantity u, l3_remaining = u_remaining u,
                 l3_participant = u_participant u\<rparr>;
               (pb2, ms) = diffLevel pb1 (e_side ev) (u_price u)
           in (pb2, m # ms)))"

definition applyAndPublish :: "Publisher \<Rightarrow> OutboundEvent \<Rightarrow> Publisher \<times> DecodedFeedMessage list" where
  "applyAndPublish pb ev =
     (let pb1 = pb\<lparr>pb_mirror := mirror_apply (pb_mirror pb) ev\<rparr>
      in case e_payload ev of
           PTrade t \<Rightarrow> publishTrade pb1 t
         | POrderUpdate u \<Rightarrow> publishUpdate pb1 ev u
         | PStatusChange sc \<Rightarrow> (pb1, []))"

definition restedMsg :: "InstrumentId \<Rightarrow> 64 word \<Rightarrow> Side \<Rightarrow> MirrorOrder \<Rightarrow> DecodedFeedMessage" where
  "restedMsg i n side x =
     FL3Order \<lparr>l3_instrumentId = i, l3_feedSeq = n, l3_action = l3_code L3Rested, l3_orderId = m_id x, l3_side = side_code side,
       l3_price = m_price x, l3_quantity = m_quantity x, l3_remaining = m_remaining x, l3_participant = m_participant x\<rparr>"

fun publishRested :: "Publisher \<Rightarrow> (Side \<times> MirrorOrder) list \<Rightarrow> Publisher \<times> DecodedFeedMessage list" where
  "publishRested pb [] = (pb, [])"
| "publishRested pb ((side, x) # xs) =
     (let (n, pb1) = nextFeedSeq pb; (pb2, ms) = publishRested pb1 xs in (pb2, restedMsg (pb_instrumentId pb) n side x # ms))"

definition seedLevelTotals :: "Publisher \<Rightarrow> Publisher" where
  "seedLevelTotals pb =
     foldl (\<lambda>pb (side, x). set_totals pb side ((totals_of pb side)(m_price x \<mapsto> levelTotal (pb_mirror pb) side (m_price x)))) pb (forEachOrder (pb_mirror pb))"

text \<open>\<open>source\<close> is the snapshot source, if one is set: a function that rebuilds a mirror.\<close>

definition resync :: "(BookMirror \<Rightarrow> BookMirror) option \<Rightarrow> Publisher \<Rightarrow> Publisher \<times> DecodedFeedMessage list" where
  "resync source pb =
     (let M = mirror_clear (pb_mirror pb);
          pb1 = pb\<lparr>pb_mirror := (case source of None \<Rightarrow> M | Some f \<Rightarrow> f M), pb_bidTotals := Map.empty, pb_askTotals := Map.empty\<rparr>;
          (n, pb2) = nextFeedSeq pb1;
          start = FSnapshotStart \<lparr>ss_instrumentId = pb_instrumentId pb, ss_feedSeq = n, ss_restingOrders = of_nat (mirror_restingOrders (pb_mirror pb2))\<rparr>;
          (pb3, orders) = publishRested pb2 (forEachOrder (pb_mirror pb2));
          pb4 = seedLevelTotals pb3;
          (k, pb5) = nextFeedSeq pb4;
          fin = FSnapshotEnd \<lparr>se_instrumentId = pb_instrumentId pb, se_feedSeq = k, se_crc32 = dg_bodyCrc32 (digestOf (pb_mirror pb5))\<rparr>
      in (pb5, start # orders @ [fin]))"

fun burstRested :: "InstrumentId \<Rightarrow> 64 word \<Rightarrow> (Side \<times> MirrorOrder) list \<Rightarrow> DecodedFeedMessage list" where
  "burstRested i n [] = []"
| "burstRested i n ((side, x) # xs) = restedMsg i (n + 1) side x # burstRested i (n + 1) xs"

definition emitSnapshotBurst :: "InstrumentId \<Rightarrow> BookMirror \<Rightarrow> DecodedFeedMessage list" where
  "emitSnapshotBurst i M =
     (let xs = forEachOrder M; n = 1 + of_nat (length xs)
      in FSnapshotStart \<lparr>ss_instrumentId = i, ss_feedSeq = 1, ss_restingOrders = of_nat (mirror_restingOrders M)\<rparr> #
         burstRested i 1 xs @
         [FSnapshotEnd \<lparr>se_instrumentId = i, se_feedSeq = n + 1, se_crc32 = dg_bodyCrc32 (digestOf M)\<rparr>])"

text \<open>
  \<^verbatim>\<open>pump\<close> until the ring is empty: the argument lists what the successive calls of \<^verbatim>\<open>tryPeekChecked\<close> return, an event or a lap.
\<close>

datatype peeked = PeekOk OutboundEvent | PeekLapped

fun pump :: "(BookMirror \<Rightarrow> BookMirror) option \<Rightarrow> Publisher \<Rightarrow> peeked list \<Rightarrow> nat \<times> Publisher \<times> DecodedFeedMessage list" where
  "pump source pb [] = (0, pb, [])"
| "pump source pb (PeekLapped # ps) =
     (let (pb1, ms1) = resync source pb; (n, pb2, ms2) = pump source pb1 ps in (Suc n, pb2, ms1 @ ms2))"
| "pump source pb (PeekOk ev # ps) =
     (let (pb1, ms1) = applyAndPublish pb ev; (n, pb2, ms2) = pump source pb1 ps in (Suc n, pb2, ms1 @ ms2))"

section \<open>viz/ladder.hpp\<close>

record LevelAgg =
  ag_qty :: Quantity
  ag_orders :: "32 word"

record TradePrint =
  tp_price :: Price
  tp_qty :: Quantity
  tp_aggressorSide :: byte

text \<open>The ordered maps of the two sides are association lists from the best price to the worst.\<close>

type_synonym AggLevels = "(Price \<times> LevelAgg) list"

record Ladder =
  ld_bids :: AggLevels
  ld_asks :: AggLevels
  ld_trades :: "TradePrint list"
  ld_tradeCount :: "64 word"
  ld_inBurst :: bool

definition emptyLadder :: Ladder where
  "emptyLadder = \<lparr>ld_bids = [], ld_asks = [], ld_trades = [], ld_tradeCount = 0, ld_inBurst = False\<rparr>"

definition kMaxTrades :: nat where "kMaxTrades = 50"

fun agg_put :: "Side \<Rightarrow> AggLevels \<Rightarrow> Price \<Rightarrow> LevelAgg \<Rightarrow> AggLevels" where
  "agg_put s [] p a = [(p, a)]"
| "agg_put s ((q, b) # ls) p a =
     (if p = q then (q, a) # ls
      else if better s p q then (p, a) # (q, b) # ls
      else (q, b) # agg_put s ls p a)"

definition agg_at :: "AggLevels \<Rightarrow> Price \<Rightarrow> LevelAgg" where
  "agg_at levels p = (case map_of levels p of None \<Rightarrow> \<lparr>ag_qty = 0, ag_orders = 0\<rparr> | Some a \<Rightarrow> a)"

definition onSnapshotStart :: "Ladder \<Rightarrow> Ladder" where
  "onSnapshotStart l = l\<lparr>ld_inBurst := True, ld_bids := [], ld_asks := []\<rparr>"

definition onSnapshotEnd :: "Ladder \<Rightarrow> Ladder" where
  "onSnapshotEnd l = l\<lparr>ld_inBurst := False\<rparr>"

definition agg_add :: "Side \<Rightarrow> AggLevels \<Rightarrow> Price \<Rightarrow> Quantity \<Rightarrow> AggLevels" where
  "agg_add s levels p q = (let a = agg_at levels p in agg_put s levels p \<lparr>ag_qty = wrap64 (ag_qty a + q), ag_orders = ag_orders a + 1\<rparr>)"

definition onL3Order :: "Ladder \<Rightarrow> L3OrderMsg \<Rightarrow> Ladder" where
  "onL3Order l m =
     (if \<not> ld_inBurst l \<or> l3_action m \<noteq> l3_code L3Rested then l
      else if l3_side m = side_code Buy then l\<lparr>ld_bids := agg_add Buy (ld_bids l) (l3_price m) (l3_remaining m)\<rparr>
      else l\<lparr>ld_asks := agg_add Sell (ld_asks l) (l3_price m) (l3_remaining m)\<rparr>)"

definition applyLevel :: "Side \<Rightarrow> AggLevels \<Rightarrow> L2DeltaMsg \<Rightarrow> AggLevels" where
  "applyLevel s levels m =
     (if l2_action m = l2_code L2Delete then AList.delete (l2_price m) levels
      else agg_put s levels (l2_price m) \<lparr>ag_qty = l2_totalQty m, ag_orders = l2_orderCount m\<rparr>)"

definition onL2Delta :: "Ladder \<Rightarrow> L2DeltaMsg \<Rightarrow> Ladder" where
  "onL2Delta l m =
     (if l2_side m = side_code Buy then l\<lparr>ld_bids := applyLevel Buy (ld_bids l) m\<rparr>
      else l\<lparr>ld_asks := applyLevel Sell (ld_asks l) m\<rparr>)"

definition onTrade :: "Ladder \<Rightarrow> TradeTickMsg \<Rightarrow> Ladder" where
  "onTrade l t =
     (let ts = ld_trades l @ [\<lparr>tp_price = tk_price t, tp_qty = tk_quantity t, tp_aggressorSide = tk_aggressorSide t\<rparr>]
      in l\<lparr>ld_trades := drop (length ts - kMaxTrades) ts, ld_tradeCount := ld_tradeCount l + 1\<rparr>)"

definition topLevels :: "nat \<Rightarrow> AggLevels \<Rightarrow> (Price \<times> Quantity \<times> 32 word) list" where
  "topLevels n levels = map (\<lambda>(p, a). (p, ag_qty a, ag_orders a)) (take n levels)"

definition topBids :: "Ladder \<Rightarrow> nat \<Rightarrow> (Price \<times> Quantity \<times> 32 word) list" where
  "topBids l n = topLevels n (ld_bids l)"

definition topAsks :: "Ladder \<Rightarrow> nat \<Rightarrow> (Price \<times> Quantity \<times> 32 word) list" where
  "topAsks l n = topLevels n (ld_asks l)"

section \<open>viz/md\_client.hpp\<close>

record MdClient =
  md_decoder :: FeedDecoder
  md_ladder :: Ladder
  md_lastSeq :: "64 word"
  md_connected :: bool
  md_instrumentFilter :: InstrumentId

definition newMdClient :: "InstrumentId \<Rightarrow> MdClient" where
  "newMdClient i = \<lparr>md_decoder = newFeedDecoder, md_ladder = emptyLadder, md_lastSeq = 0, md_connected = False, md_instrumentFilter = i\<rparr>"

definition onConnected :: "MdClient \<Rightarrow> MdClient" where
  "onConnected c = c\<lparr>md_connected := True, md_decoder := newFeedDecoder\<rparr>"

definition md_fail :: "MdClient \<Rightarrow> MdClient" where
  "md_fail c = c\<lparr>md_connected := False\<rparr>"

fun instrumentOf :: "DecodedFeedMessage \<Rightarrow> InstrumentId" where
  "instrumentOf (FSnapshotStart m) = ss_instrumentId m"
| "instrumentOf (FSnapshotEnd m) = se_instrumentId m"
| "instrumentOf (FL3Order m) = l3_instrumentId m"
| "instrumentOf (FL2Delta m) = l2_instrumentId m"
| "instrumentOf (FTradeTick m) = tk_instrumentId m"
| "instrumentOf (FL3Fill m) = lf_instrumentId m"

definition md_dispatch :: "MdClient \<Rightarrow> DecodedFeedMessage \<Rightarrow> MdClient" where
  "md_dispatch c msg =
     (if md_instrumentFilter c \<noteq> 0 \<and> instrumentOf msg \<noteq> md_instrumentFilter c then c
      else
        (case msg of
           FSnapshotStart m \<Rightarrow> c\<lparr>md_ladder := onSnapshotStart (md_ladder c), md_lastSeq := ss_feedSeq m\<rparr>
         | FSnapshotEnd m \<Rightarrow> c\<lparr>md_ladder := onSnapshotEnd (md_ladder c), md_lastSeq := se_feedSeq m\<rparr>
         | FL3Order m \<Rightarrow> c\<lparr>md_ladder := onL3Order (md_ladder c) m, md_lastSeq := l3_feedSeq m\<rparr>
         | FL2Delta m \<Rightarrow> c\<lparr>md_ladder := onL2Delta (md_ladder c) m, md_lastSeq := l2_feedSeq m\<rparr>
         | FTradeTick m \<Rightarrow> c\<lparr>md_ladder := onTrade (md_ladder c) m, md_lastSeq := tk_feedSeq m\<rparr>
         | FL3Fill m \<Rightarrow> c\<lparr>md_lastSeq := lf_feedSeq m\<rparr>))"

lemma fe_next_shrinks: "fe_next d = (Got m, d') \<Longrightarrow> length (fe_buf d') < length (fe_buf d)"
  by (auto simp: fe_next_def fe_fail_def fe_consume_def Let_def kFrameHeaderSize_def split: if_splits option.splits)

function md_drain :: "MdClient \<Rightarrow> MdClient" where
  "md_drain c =
     (case fe_next (md_decoder c) of
        (Wait, d) \<Rightarrow> c\<lparr>md_decoder := d\<rparr>
      | (Bad, d) \<Rightarrow> md_fail (c\<lparr>md_decoder := d\<rparr>)
      | (Got msg, d) \<Rightarrow> md_drain (md_dispatch (c\<lparr>md_decoder := d\<rparr>) msg))"
  by auto

lemma md_dispatch_decoder [simp]: "md_decoder (md_dispatch c msg) = md_decoder c"
  by (simp add: md_dispatch_def split: DecodedFeedMessage.split)

termination md_drain
  by (relation "measure (\<lambda>c. length (fe_buf (md_decoder c)))") (auto dest!: sym [of "(Got _, _)"] fe_next_shrinks)

declare md_drain.simps [simp del]

definition md_onRead :: "MdClient \<Rightarrow> byte list \<Rightarrow> MdClient" where
  "md_onRead c data =
     (let (ok, d) = fe_feed (md_decoder c) data
      in if \<not> ok then md_fail (c\<lparr>md_decoder := d\<rparr>) else md_drain (c\<lparr>md_decoder := d\<rparr>))"

definition kMdReadChunk :: nat where "kMdReadChunk = 4096"

end
