(* ===== verification/Publisher_Levels.thy ===== *)
theory Publisher_Levels
  imports Publisher
begin

text \<open>
  The level totals of the publisher and the ladder of a subscriber: what one event changes in the mirror, what is published for it, and that a
  ladder that applies it shows the mirror again.
\<close>

section \<open>The levels of a book\<close>

definition lvl :: "BookSpec \<Rightarrow> Side \<Rightarrow> Price \<Rightarrow> Resting list" where
  "lvl A s p = filter (\<lambda>r. v_price r = p) (spec_side A s)"

definition qty_at :: "BookSpec \<Rightarrow> Side \<Rightarrow> Price \<Rightarrow> Quantity" where
  "qty_at A s p = sum_list (map v_remaining (lvl A s p))"

text \<open>Every order has an open quantity and no level's total leaves 64 bits.\<close>

definition small :: "BookSpec \<Rightarrow> bool" where
  "small A \<longleftrightarrow> (\<forall>s. \<forall>r \<in> set (spec_side A s). 0 < v_remaining r) \<and> (\<forall>s p. qty_at A s p < 2 ^ 63)"

lemma sum_list_pos: "(\<And>x. x \<in> set xs \<Longrightarrow> 0 < f x) \<Longrightarrow> 0 \<le> sum_list (map f xs) \<and> (sum_list (map f xs) = (0 :: int) \<longleftrightarrow> xs = [])"
  by (induction xs) (fastforce simp: add_pos_nonneg)+

lemma qty_at_pos: "small A \<Longrightarrow> 0 \<le> qty_at A s p" "small A \<Longrightarrow> qty_at A s p = 0 \<longleftrightarrow> lvl A s p = []"
  using sum_list_pos [of "lvl A s p" v_remaining] by (auto simp: small_def qty_at_def lvl_def)

lemma foldl_total: "foldl (\<lambda>total x. wrap64 (total + m_remaining x)) a xs = (if xs = [] then a else wrap64 (a + sum_list (map m_remaining xs)))"
  by (induction xs arbitrary: a) (auto simp: add.assoc [symmetric])

lemma lookup_rep:
  assumes "mirror_rep M A"
  shows "map_of (levels_of M s) p = (if lvl A s p = [] then None else Some (map mirror_of (lvl A s p)))"
  using levels_lookup [OF mirror_repD(2) [OF assms, of s], of p]
  by (simp add: mirror_repD(3) [OF assms] filter_map comp_def lvl_def Let_def)

lemma levelTotal_rep:
  assumes "mirror_rep M A" "small A"
  shows "levelTotal M s p = qty_at A s p"
proof -
  have "in_i64 (qty_at A s p)" using assms(2) qty_at_pos [OF assms(2), of s p] by (simp add: in_i64_def small_def)
  then show ?thesis
    by (auto simp: levelTotal_def levelTotalIn_def lookup_rep [OF assms(1)] foldl_total comp_def qty_at_def wrap64_id)
qed

lemma levelOrderCount_rep: "mirror_rep M A \<Longrightarrow> levelOrderCount M s p = of_nat (length (lvl A s p))"
  by (simp add: levelOrderCount_def levelOrderCountIn_def lookup_rep)

section \<open>The levels of a ladder\<close>

definition ladder_side :: "Ladder \<Rightarrow> Side \<Rightarrow> AggLevels" where
  "ladder_side l s = (case s of Buy \<Rightarrow> ld_bids l | Sell \<Rightarrow> ld_asks l)"

abbreviation agg_sorted :: "Side \<Rightarrow> AggLevels \<Rightarrow> bool" where
  "agg_sorted s ls \<equiv> sorted_wrt (better s) (map fst ls)"

lemma agg_put_keys: "set (map fst (agg_put s ls p a)) = insert p (set (map fst ls))"
  by (induction s ls p a rule: agg_put.induct) auto

lemma agg_put_sorted: "agg_sorted s ls \<Longrightarrow> agg_sorted s (agg_put s ls p a)"
proof (induction s ls p a rule: agg_put.induct)
  case (2 s q b ls p a)
  then show ?case using better_trans [of s p q] better_total [of p q s] agg_put_keys [of s ls p a] by auto
qed simp

lemma agg_put_lookup: "agg_sorted s ls \<Longrightarrow> map_of (agg_put s ls p a) = (map_of ls)(p \<mapsto> a)"
proof (induction s ls p a rule: agg_put.induct)
  case (2 s q b ls p a)
  then show ?case by (auto simp: fun_eq_iff)
qed (simp add: fun_eq_iff)

lemma agg_delete_sorted: "agg_sorted s ls \<Longrightarrow> agg_sorted s (AList.delete p ls)"
  by (induction ls) (auto simp: AList.delete_eq)

definition agg_of :: "Resting list \<Rightarrow> LevelAgg option" where
  "agg_of rs = (if rs = [] then None else Some \<lparr>ag_qty = sum_list (map v_remaining rs), ag_orders = of_nat (length rs)\<rparr>)"

text \<open>A ladder shows a book when each side is sorted and has the total and the number of orders of every level.\<close>

definition ladder_shows :: "Ladder \<Rightarrow> BookSpec \<Rightarrow> bool" where
  "ladder_shows l A \<longleftrightarrow> \<not> ld_inBurst l \<and>
     (\<forall>s. agg_sorted s (ladder_side l s) \<and> (\<forall>p. map_of (ladder_side l s) p = agg_of (lvl A s p)))"

lemma ladder_showsD:
  "ladder_shows l A \<Longrightarrow> \<not> ld_inBurst l" "ladder_shows l A \<Longrightarrow> agg_sorted s (ladder_side l s)"
  "ladder_shows l A \<Longrightarrow> map_of (ladder_side l s) p = agg_of (lvl A s p)"
  by (simp_all add: ladder_shows_def)

lemma ladder_side_onL2Delta:
  "l2_side m = side_code s \<Longrightarrow> ladder_side (onL2Delta l m) t = (if t = s then applyLevel s (ladder_side l s) m else ladder_side l t)"
  "ld_inBurst (onL2Delta l m) = ld_inBurst l"
  by (cases s; cases t; simp add: ladder_side_def onL2Delta_def) (simp add: onL2Delta_def)

lemma onL2Delta_shows:
  assumes l: "ladder_shows l A" and side: "l2_side m = side_code s"
    and rest: "\<And>t q. (t, q) \<noteq> (s, l2_price m) \<Longrightarrow> lvl B t q = lvl A t q"
    and act: "l2_action m = l2_code L2Delete \<longleftrightarrow> lvl B s (l2_price m) = []"
    and tot: "l2_totalQty m = qty_at B s (l2_price m)" "l2_orderCount m = of_nat (length (lvl B s (l2_price m)))"
  shows "ladder_shows (onL2Delta l m) B"
proof -
  have "agg_sorted t (ladder_side (onL2Delta l m) t)" for t
    using ladder_showsD(2) [OF l, of t] agg_put_sorted agg_delete_sorted
    by (auto simp: ladder_side_onL2Delta(1) [OF side] applyLevel_def)
  moreover have "map_of (ladder_side (onL2Delta l m) t) q = agg_of (lvl B t q)" for t q
  proof (cases "(t, q) = (s, l2_price m)")
    case True
    then show ?thesis using act tot agg_put_lookup [OF ladder_showsD(2) [OF l, of s]]
      by (auto simp: ladder_side_onL2Delta(1) [OF side] applyLevel_def agg_of_def qty_at_def delete_conv')
  next
    case False
    then have "map_of (ladder_side (onL2Delta l m) t) q = map_of (ladder_side l t) q"
      using agg_put_lookup [OF ladder_showsD(2) [OF l, of s]] by (auto simp: ladder_side_onL2Delta(1) [OF side] applyLevel_def delete_conv')
    then show ?thesis using rest [OF False] ladder_showsD(3) [OF l] by simp
  qed
  ultimately show ?thesis using ladder_showsD(1) [OF l] by (simp add: ladder_shows_def ladder_side_onL2Delta(2))
qed

section \<open>The totals of a publisher\<close>

definition totals_ok :: "Publisher \<Rightarrow> BookSpec \<Rightarrow> bool" where
  "totals_ok pb A \<longleftrightarrow> (\<forall>s p. totals_of pb s p = (if lvl A s p = [] then None else Some (qty_at A s p)))"

lemma set_totals_simps [simp]:
  "totals_of (set_totals pb s t) s' = (if s' = s then t else totals_of pb s')" "pb_mirror (set_totals pb s t) = pb_mirror pb"
  "pb_instrumentId (set_totals pb s t) = pb_instrumentId pb" "pb_feedSeq (set_totals pb s t) = pb_feedSeq pb"
  by (cases s; cases s'; simp add: totals_of_def set_totals_def)+

lemma totals_of_upd [simp]: "totals_of (pb\<lparr>pb_feedSeq := n\<rparr>) s = totals_of pb s" "totals_of (pb\<lparr>pb_mirror := M\<rparr>) s = totals_of pb s"
  by (cases s; simp add: totals_of_def)+

definition ladder_msg :: "Ladder \<Rightarrow> DecodedFeedMessage \<Rightarrow> Ladder" where
  "ladder_msg l msg =
     (case msg of
        FSnapshotStart m \<Rightarrow> onSnapshotStart l
      | FSnapshotEnd m \<Rightarrow> onSnapshotEnd l
      | FL3Order m \<Rightarrow> onL3Order l m
      | FL2Delta m \<Rightarrow> onL2Delta l m
      | FTradeTick m \<Rightarrow> onTrade l m
      | FL3Fill m \<Rightarrow> l)"

text \<open>One feed message of the level that changed keeps the totals and the ladder at the book.\<close>

lemma diffLevel_shows:
  assumes rep: "mirror_rep (pb_mirror pb) B" and sm: "small A" "small B" and tot: "totals_ok pb A" and l: "ladder_shows l A"
    and rest: "\<And>t q. (t, q) \<noteq> (s, p) \<Longrightarrow> lvl B t q = lvl A t q" and ch: "lvl B s p = lvl A s p \<or> qty_at B s p \<noteq> qty_at A s p"
    and d: "diffLevel pb s p = (pb', ms)"
  shows "totals_ok pb' B \<and> ladder_shows (foldl ladder_msg l ms) B \<and> pb_mirror pb' = pb_mirror pb"
proof -
  have old: "(case totals_of pb s p of None \<Rightarrow> 0 | Some q \<Rightarrow> q) = qty_at A s p"
    using tot qty_at_pos(2) [OF sm(1), of s p] by (simp add: totals_ok_def)
  note zero = qty_at_pos(2) [OF sm(1), of s p] qty_at_pos(2) [OF sm(2), of s p] and new = levelTotal_rep [OF rep sm(2), of s p]
  show ?thesis
  proof (cases "qty_at B s p = qty_at A s p")
    case True
    then have same: "lvl B t q = lvl A t q" for t q using ch rest [of t q] by (cases "(t, q) = (s, p)") auto
    then have "qty_at B t q = qty_at A t q" for t q by (simp add: qty_at_def)
    moreover have "pb' = pb" "ms = []" using d True by (simp_all add: diffLevel_def new old)
    ultimately show ?thesis using tot l same by (simp add: totals_ok_def ladder_shows_def)
  next
    case False
    define pb1 where "pb1 = set_totals pb s (if qty_at B s p = 0 then (totals_of pb s)(p := None) else (totals_of pb s)(p \<mapsto> qty_at B s p))"
    define m where "m = \<lparr>l2_instrumentId = pb_instrumentId pb, l2_feedSeq = pb_feedSeq pb + 1, l2_side = side_code s,
      l2_action = l2_code (if qty_at A s p = 0 then L2Add else if qty_at B s p = 0 then L2Delete else L2Modify),
      l2_price = p, l2_totalQty = qty_at B s p, l2_orderCount = levelOrderCount (pb_mirror pb) s p\<rparr>"
    have r: "pb' = pb1\<lparr>pb_feedSeq := pb_feedSeq pb + 1\<rparr>" "ms = [FL2Delta m]"
      using d False by (simp_all add: diffLevel_def new old nextFeedSeq_def Let_def pb1_def m_def)
    have "ladder_shows (onL2Delta l m) B"
      by (rule onL2Delta_shows [OF l, of m s]) (use False rest zero levelOrderCount_rep [OF rep] in \<open>auto simp: m_def\<close>)
    moreover have "totals_ok pb1 B"
      using tot zero rest by (auto simp: totals_ok_def pb1_def qty_at_def)
    ultimately show ?thesis using r by (simp add: totals_ok_def ladder_msg_def pb1_def)
  qed
qed

section \<open>What an event does to a book\<close>

definition restedOrder :: "Side \<Rightarrow> OrderUpdate \<Rightarrow> Resting" where
  "restedOrder s u = \<lparr>v_id = u_orderId u, v_price = u_price u, v_quantity = u_quantity u, v_remaining = u_remaining u,
     v_participant = u_participant u, v_seq = u_seq u, v_side = s\<rparr>"

definition event_effect :: "BookSpec \<Rightarrow> OutboundEvent \<Rightarrow> BookSpec" where
  "event_effect A ev =
     (case e_payload ev of
        PTrade t \<Rightarrow> areduce A (t_passiveId t) (t_quantity t)
      | POrderUpdate u \<Rightarrow>
          (case e_action ev of
             Rested \<Rightarrow> set_spec_side A (e_side ev) (rest_in (e_side ev) (restedOrder (e_side ev) u) (spec_side A (e_side ev)))
           | Cancelled \<Rightarrow> drop_order A (u_orderId u)
           | Replaced \<Rightarrow> drop_order A (u_orderId u)
           | Rejected \<Rightarrow> A)
      | PStatusChange sc \<Rightarrow> A)"

text \<open>The order with this id, if there is one, rests on this side at this price.\<close>

definition only_at :: "BookSpec \<Rightarrow> OrderId \<Rightarrow> Side \<Rightarrow> Price \<Rightarrow> bool" where
  "only_at A k s p \<longleftrightarrow> (\<forall>t. \<forall>r \<in> set (spec_side A t). v_id r = k \<longrightarrow> t = s \<and> v_price r = p)"

definition event_ok :: "BookSpec \<Rightarrow> OutboundEvent \<Rightarrow> bool" where
  "event_ok A ev \<longleftrightarrow>
     (case e_payload ev of
        PTrade t \<Rightarrow> 0 < t_quantity t \<and> only_at A (t_passiveId t) (opposite (t_aggressorSide t)) (t_price t)
      | POrderUpdate u \<Rightarrow>
          (case e_action ev of
             Rested \<Rightarrow> find_order A (u_orderId u) = None \<and> 0 < u_remaining u
           | Rejected \<Rightarrow> True
           | _ \<Rightarrow> only_at A (u_orderId u) (e_side ev) (u_price u))
      | PStatusChange sc \<Rightarrow> True)"

text \<open>The level an event can change.\<close>

definition event_level :: "OutboundEvent \<Rightarrow> (Side \<times> Price) option" where
  "event_level ev =
     (case e_payload ev of
        PTrade t \<Rightarrow> Some (opposite (t_aggressorSide t), t_price t)
      | POrderUpdate u \<Rightarrow> if e_action ev = Rejected then None else Some (e_side ev, u_price u)
      | PStatusChange sc \<Rightarrow> None)"

lemma restedOrder_update: "victimUpdate (restedOrder s u) = u"
  by (simp add: victimUpdate_def restedOrder_def)

lemma event_effect_rep:
  assumes rep: "mirror_rep M A" and ok: "event_ok A ev"
  shows "mirror_rep (mirror_apply M ev) (event_effect A ev)"
proof (cases "e_payload ev")
  case (PTrade t)
  have "mirror_rep (applyTrade M t) (areduce A (t_passiveId t) (t_quantity t))"
    by (rule mirror_rep_cong [OF reduce_rep [OF rep]]) (simp_all add: applyTrade_def Let_def)
  then show ?thesis using PTrade by (simp add: mirror_apply_def event_effect_def)
next
  case (POrderUpdate u)
  let ?M = "if u_seq u > bm_lastSeq M then M\<lparr>bm_lastSeq := u_seq u\<rparr> else M"
  have M: "mirror_rep ?M A" by (rule seq_step_rep [OF rep])
  have "mirror_rep (mirror_insert ?M (e_side ev) u) (event_effect A ev)" if "e_action ev = Rested"
  proof -
    have "find_order A (v_id (restedOrder (e_side ev) u)) = None" "v_side (restedOrder (e_side ev) u) = e_side ev"
      using ok that POrderUpdate by (simp_all add: event_ok_def restedOrder_def)
    from insert_rep [OF M this] show ?thesis using that POrderUpdate unfolding restedOrder_update event_effect_def by simp
  qed
  then show ?thesis using M erase_rep [OF M, of "u_orderId u"] POrderUpdate
    by (cases "e_action ev") (simp_all add: mirror_apply_def applyOrderUpdate_def event_effect_def Let_def del: if_split)
next
  case (PStatusChange sc)
  then show ?thesis using rep by (simp add: mirror_apply_def event_effect_def)
qed

section \<open>The level of an event\<close>

lemma lvl_drop: "lvl (drop_order A k) s p = filter (\<lambda>r. v_id r \<noteq> k) (lvl A s p)"
  by (simp add: lvl_def spec_side_drop conj_commute)

lemma insert_in_split: "\<exists>xs ys. rs = xs @ ys \<and> rest_in s r rs = xs @ r # ys"
  unfolding rest_in_def using takeWhile_dropWhile_id [of "\<lambda>y. \<not> better s (v_price r) (v_price y)" rs, symmetric] by blast

lemma lvl_rest:
  "lvl (set_spec_side A s (rest_in s r (spec_side A s))) t p = (if t = s \<and> p = v_price r then filter (\<lambda>y. v_price y = p) (rest_in s r (spec_side A s)) else lvl A t p)"
proof -
  have "filter P (rest_in s r rs) = filter P rs" if "\<not> P r" for P rs using that insert_in_split [of rs s r] by auto
  then show ?thesis by (auto simp: lvl_def)
qed

lemma sum_rest_in: "sum_list (map v_remaining (filter P (rest_in s r rs))) = sum_list (map v_remaining (filter P rs)) + (if P r then v_remaining r else 0)"
  using insert_in_split [of rs s r] by auto

lemma lvl_areduce: "ids_wf A \<Longrightarrow> lvl (areduce A k q) s p = lred k q (lvl A s p)"
proof -
  have "filter (\<lambda>r. v_price r = p) (lred k q xs) = lred k q (filter (\<lambda>r. v_price r = p) xs)" for xs by (induction xs) auto
  then show "ids_wf A \<Longrightarrow> lvl (areduce A k q) s p = lred k q (lvl A s p)" by (simp add: lvl_def spec_side_areduce)
qed

lemma lred_sum:
  assumes "\<forall>r \<in> set xs. 0 < v_remaining r" "0 < q"
  shows "sum_list (map v_remaining (lred k q xs)) \<le> sum_list (map v_remaining xs) \<and>
    (k \<in> v_id ` set xs \<longrightarrow> sum_list (map v_remaining (lred k q xs)) < sum_list (map v_remaining xs)) \<and> (\<forall>r \<in> set (lred k q xs). 0 < v_remaining r)"
  using assms by (induction xs) auto

lemma filter_sum:
  assumes "\<forall>r \<in> set xs. 0 < v_remaining r"
  shows "sum_list (map v_remaining (filter (\<lambda>r. v_id r \<noteq> k) xs)) \<le> sum_list (map v_remaining xs) \<and>
    (k \<in> v_id ` set xs \<longrightarrow> sum_list (map v_remaining (filter (\<lambda>r. v_id r \<noteq> k) xs)) < sum_list (map v_remaining xs))"
  using assms by (induction xs) auto

lemma only_at_fresh: "only_at A k s p \<Longrightarrow> (t, q) \<noteq> (s, p) \<Longrightarrow> k \<notin> v_id ` set (lvl A t q)"
  by (auto simp: only_at_def lvl_def)

lemma lvl_pos: "small A \<Longrightarrow> \<forall>r \<in> set (lvl A s p). 0 < v_remaining r"
  by (auto simp: small_def lvl_def)

lemma small_le:
  assumes "small A" "\<And>s p. qty_at B s p \<le> qty_at A s p" "\<And>s r. r \<in> set (spec_side B s) \<Longrightarrow> 0 < v_remaining r"
  shows "small B"
proof -
  have "qty_at B s p < 2 ^ 63" for s p
  proof -
    have "qty_at A s p < 2 ^ 63" using assms(1) by (simp add: small_def)
    with assms(2) [of s p] show ?thesis by (rule order.strict_trans1)
  qed
  then show ?thesis using assms(3) by (auto simp: small_def)
qed

lemma drop_level:
  assumes "small A" "only_at A k s p"
  shows "(t, q) \<noteq> (s, p) \<Longrightarrow> lvl (drop_order A k) t q = lvl A t q"
    "lvl (drop_order A k) t q = lvl A t q \<or> qty_at (drop_order A k) t q \<noteq> qty_at A t q" "small (drop_order A k)"
proof -
  show "(t, q) \<noteq> (s, p) \<Longrightarrow> lvl (drop_order A k) t q = lvl A t q"
    using only_at_fresh [OF assms(2), of t q] by (fastforce simp: lvl_drop filter_id_conv)
  show "lvl (drop_order A k) t q = lvl A t q \<or> qty_at (drop_order A k) t q \<noteq> qty_at A t q"
    using filter_sum [OF lvl_pos [OF assms(1)], of k t q] by (fastforce simp: lvl_drop qty_at_def filter_id_conv)
  have "qty_at (drop_order A k) t q \<le> qty_at A t q" for t q
    using filter_sum [OF lvl_pos [OF assms(1)], of k t q] by (simp add: qty_at_def lvl_drop)
  then show "small (drop_order A k)" by (rule small_le [OF assms(1)]) (use assms(1) in \<open>auto simp: spec_side_drop small_def\<close>)
qed

lemma areduce_level:
  assumes "small A" "ids_wf A" "only_at A k s p" "0 < n"
  shows "(t, q) \<noteq> (s, p) \<Longrightarrow> lvl (areduce A k n) t q = lvl A t q"
    "lvl (areduce A k n) t q = lvl A t q \<or> qty_at (areduce A k n) t q \<noteq> qty_at A t q" "small (areduce A k n)"
proof -
  show "(t, q) \<noteq> (s, p) \<Longrightarrow> lvl (areduce A k n) t q = lvl A t q"
    using only_at_fresh [OF assms(3), of t q] by (simp add: lvl_areduce [OF assms(2)] lred_fresh)
  show "lvl (areduce A k n) t q = lvl A t q \<or> qty_at (areduce A k n) t q \<noteq> qty_at A t q"
    using lred_sum [OF lvl_pos [OF assms(1)] assms(4), of k t q] lred_fresh [of k "lvl A t q" n]
    by (cases "k \<in> v_id ` set (lvl A t q)") (auto simp: lvl_areduce [OF assms(2)] qty_at_def)
  have "qty_at (areduce A k n) t q \<le> qty_at A t q" for t q
    using lred_sum [OF lvl_pos [OF assms(1)] assms(4), of k t q] by (simp add: qty_at_def lvl_areduce [OF assms(2)])
  moreover have "\<forall>r \<in> set (spec_side (areduce A k n) t). 0 < v_remaining r" for t
    using lred_sum [of "spec_side A t" n k] assms(1,4) by (simp add: spec_side_areduce [OF assms(2)] small_def)
  ultimately show "small (areduce A k n)" by (intro small_le [OF assms(1)]) auto
qed

lemma event_effect_level:
  assumes sm: "small A" and ids: "ids_wf A" and ok: "event_ok A ev"
  shows "event_level ev \<noteq> Some (s, p) \<Longrightarrow> lvl (event_effect A ev) s p = lvl A s p"
    "lvl (event_effect A ev) s p = lvl A s p \<or> qty_at (event_effect A ev) s p \<noteq> qty_at A s p"
proof -
  have "(event_level ev \<noteq> Some (s, p) \<longrightarrow> lvl (event_effect A ev) s p = lvl A s p) \<and>
    (lvl (event_effect A ev) s p = lvl A s p \<or> qty_at (event_effect A ev) s p \<noteq> qty_at A s p)"
  proof (cases "e_payload ev")
    case (PTrade t)
    then show ?thesis using ok areduce_level(1,2) [OF sm ids, of "t_passiveId t" "opposite (t_aggressorSide t)" "t_price t" "t_quantity t" s p]
      by (auto simp: event_ok_def event_effect_def event_level_def)
  next
    case (POrderUpdate u)
    have "?thesis" if "e_action ev = Rested"
      using that ok POrderUpdate sum_rest_in [of "\<lambda>y. v_price y = p" "e_side ev" "restedOrder (e_side ev) u" "spec_side A (e_side ev)"]
      by (auto simp: event_ok_def event_effect_def event_level_def lvl_rest qty_at_def restedOrder_def) (simp add: lvl_def)
    then show ?thesis using ok POrderUpdate drop_level(1,2) [OF sm, of "u_orderId u" "e_side ev" "u_price u" s p]
      by (cases "e_action ev") (auto simp: event_ok_def event_effect_def event_level_def)
  next
    case (PStatusChange sc)
    then show ?thesis by (simp add: event_effect_def)
  qed
  then show "event_level ev \<noteq> Some (s, p) \<Longrightarrow> lvl (event_effect A ev) s p = lvl A s p"
    "lvl (event_effect A ev) s p = lvl A s p \<or> qty_at (event_effect A ev) s p \<noteq> qty_at A s p" by auto
qed

section \<open>One event of the publisher\<close>

definition published :: "Publisher \<Rightarrow> Ladder \<Rightarrow> BookSpec \<Rightarrow> bool" where
  "published pb l A \<longleftrightarrow> mirror_rep (pb_mirror pb) A \<and> totals_ok pb A \<and> ladder_shows l A"

lemma ladder_trade_shows: "ladder_shows l A \<Longrightarrow> ladder_shows (onTrade l t) A"
proof -
  have "ladder_side (onTrade l t) = ladder_side l" by (simp add: fun_eq_iff ladder_side_def onTrade_def Let_def split: Side.split)
  then show "ladder_shows l A \<Longrightarrow> ladder_shows (onTrade l t) A" by (simp add: ladder_shows_def onTrade_def Let_def)
qed

lemma ladder_order_shows: "ladder_shows l A \<Longrightarrow> onL3Order l m = l"
  by (simp add: ladder_shows_def onL3Order_def)

lemma lvl_same_shows:
  assumes "\<And>s p. lvl B s p = lvl A s p"
  shows "ladder_shows l B = ladder_shows l A" "totals_ok pb B = totals_ok pb A"
  by (simp_all add: ladder_shows_def totals_ok_def qty_at_def assms)

lemma diffLevel_event:
  assumes sm: "small A" "small (event_effect A ev)" and ids: "ids_wf A" and ok: "event_ok A ev" and lev: "event_level ev = Some (s, p)"
    and pb: "mirror_rep (pb_mirror pb) (event_effect A ev)" "totals_ok pb A" "ladder_shows l A" and d: "diffLevel pb s p = (pb', ms)"
  shows "published pb' (foldl ladder_msg l ms) (event_effect A ev)"
proof -
  have "totals_ok pb' (event_effect A ev) \<and> ladder_shows (foldl ladder_msg l ms) (event_effect A ev) \<and> pb_mirror pb' = pb_mirror pb"
    by (rule diffLevel_shows [OF pb(1) sm pb(2,3) event_effect_level(1) [OF sm(1) ids ok] event_effect_level(2) [OF sm(1) ids ok] d]) (use lev in auto)
  then show ?thesis using pb(1) by (simp add: published_def)
qed

lemma applyAndPublish_shows:
  assumes sm: "small A" "small (event_effect A ev)" and ok: "event_ok A ev" and pb: "published pb l A" and ap: "applyAndPublish pb ev = (pb', ms)"
  shows "published pb' (foldl ladder_msg l ms) (event_effect A ev)"
proof -
  note ids = mirror_repD(1) [of "pb_mirror pb" A]
  have P: "mirror_rep (pb_mirror pb) A" "totals_ok pb A" "ladder_shows l A" using pb by (simp_all add: published_def)
  define pb1 where "pb1 = pb\<lparr>pb_mirror := mirror_apply (pb_mirror pb) ev\<rparr>"
  have rep1: "mirror_rep (pb_mirror (pb1\<lparr>pb_feedSeq := n\<rparr>)) (event_effect A ev)" and tot1: "totals_ok (pb1\<lparr>pb_feedSeq := n\<rparr>) A" for n
    using event_effect_rep [OF P(1) ok] P(2) by (simp_all add: pb1_def totals_ok_def)
  note diff = diffLevel_event [OF sm ids [OF P(1)] ok _ rep1 tot1]
  have same: "published pb1 l (event_effect A ev)" if "event_level ev = None"
  proof -
    have "lvl (event_effect A ev) s p = lvl A s p" for s p using event_effect_level(1) [OF sm(1) ids [OF P(1)] ok] that by simp
    from lvl_same_shows [OF this] show ?thesis using rep1 [of "pb_feedSeq pb1"] tot1 [of "pb_feedSeq pb1"] P(3) by (simp add: published_def)
  qed
  show ?thesis
  proof (cases "e_payload ev")
    case (PTrade t)
    obtain ms2 where d: "diffLevel (pb1\<lparr>pb_feedSeq := pb_feedSeq pb1 + 1 + 1\<rparr>) (opposite (t_aggressorSide t)) (t_price t) = (pb', ms2)"
        "\<exists>x y. ms = FTradeTick x # FL3Fill y # ms2"
      using ap PTrade by (auto simp: applyAndPublish_def publishTrade_def nextFeedSeq_def Let_def pb1_def split: prod.splits)
    then show ?thesis using diff [OF _ ladder_trade_shows [OF P(3)] d(1)] PTrade by (auto simp: ladder_msg_def event_level_def)
  next
    case (POrderUpdate u)
    show ?thesis
    proof (cases "e_action ev = Rejected")
      case True
      then show ?thesis using same ap POrderUpdate by (simp add: applyAndPublish_def publishUpdate_def pb1_def event_level_def)
    next
      case False
      then obtain ms2 where d: "diffLevel (pb1\<lparr>pb_feedSeq := pb_feedSeq pb1 + 1\<rparr>) (e_side ev) (u_price u) = (pb', ms2)" "\<exists>x. ms = FL3Order x # ms2"
        using ap POrderUpdate by (cases "e_action ev") (auto simp: applyAndPublish_def publishUpdate_def nextFeedSeq_def Let_def pb1_def split: prod.splits)
      then show ?thesis using diff [OF _ P(3) d(1)] False POrderUpdate by (auto simp: ladder_msg_def event_level_def ladder_order_shows [OF P(3)])
    qed
  next
    case (PStatusChange sc)
    then show ?thesis using same ap by (simp add: applyAndPublish_def pb1_def event_level_def)
  qed
qed

end
