(* ===== verification/Publisher_Events.thy ===== *)
theory Publisher_Events
  imports Publisher_Levels
begin

text \<open>
  The events of whole commands are such that every level total fits its counter, so the publisher never goes wrong; whole runs.
\<close>

section \<open>The events of a command\<close>

fun events_ok :: "BookSpec \<Rightarrow> OutboundEvent list \<Rightarrow> bool" where
  "events_ok A [] \<longleftrightarrow> True"
| "events_ok A (e # es) \<longleftrightarrow> event_ok A e \<and> small (event_effect A e) \<and> events_ok (event_effect A e) es"

lemma events_ok_append: "events_ok A (es @ fs) \<longleftrightarrow> events_ok A es \<and> events_ok (foldl event_effect A es) fs"
  by (induction es arbitrary: A) auto

definition removal :: "OutboundEvent \<Rightarrow> bool" where
  "removal e \<longleftrightarrow> (case e_payload e of PTrade t \<Rightarrow> True | POrderUpdate u \<Rightarrow> e_action e = Cancelled | PStatusChange sc \<Rightarrow> False)"

text \<open>Each order of the smaller book is in the larger one, with at least what is left of it.\<close>

definition within :: "BookSpec \<Rightarrow> BookSpec \<Rightarrow> bool" where
  "within B A \<longleftrightarrow> (\<forall>s. \<forall>r \<in> set (spec_side B s). \<exists>r' \<in> set (spec_side A s). v_id r' = v_id r \<and> v_price r' = v_price r)"

lemma within_refl [simp]: "within A A"
  by (auto simp: within_def)

lemma within_trans: "within C B \<Longrightarrow> within B A \<Longrightarrow> within C A"
  unfolding within_def by metis

lemma within_only_at: "within B A \<Longrightarrow> only_at A k s p \<Longrightarrow> only_at B k s p"
  unfolding within_def only_at_def by metis

lemma lred_from: "r \<in> set (lred k q xs) \<Longrightarrow> \<exists>r' \<in> set xs. v_id r' = v_id r \<and> v_price r' = v_price r"
  by (induction xs) (auto split: if_splits)

lemma removal_within:
  assumes "ids_wf A" "removal e"
  shows "within (event_effect A e) A"
  using assms lred_from
  by (fastforce simp: within_def removal_def event_effect_def spec_side_areduce spec_side_drop split: OutboundPayload.splits)

lemma removal_keeps:
  assumes "within B A" "removal e" "event_ok A e"
  shows "event_ok B e"
  using assms within_only_at [OF assms(1)] by (auto simp: removal_def event_ok_def split: OutboundPayload.splits)

lemma removal_small:
  assumes "small A" "ids_wf A" "removal e" "event_ok A e"
  shows "small (event_effect A e)"
  using assms areduce_level(3) drop_level(3) by (auto simp: removal_def event_ok_def event_effect_def split: OutboundPayload.splits)

lemma removals_ok:
  assumes "mirror_rep M A" "small A" "\<forall>e \<in> set es. removal e \<and> event_ok A e"
  shows "events_ok A es \<and> small (foldl event_effect A es) \<and> within (foldl event_effect A es) A \<and>
    mirror_rep (foldl mirror_apply M es) (foldl event_effect A es)"
  using assms
proof (induction es arbitrary: A M)
  case (Cons e es)
  let ?B = "event_effect A e"
  note ids = mirror_repD(1) [OF Cons.prems(1)]
  have w: "within ?B A" using removal_within [OF ids] Cons.prems(3) by simp
  have sm: "small ?B" using removal_small [OF Cons.prems(2) ids] Cons.prems(3) by simp
  have "\<forall>f \<in> set es. removal f \<and> event_ok ?B f" using removal_keeps [OF w] Cons.prems(3) by simp
  from Cons.IH [OF event_effect_rep [OF Cons.prems(1)] sm this] show ?case
    using Cons.prems(3) sm within_trans [OF _ w] by simp
qed simp

lemma mirror_rep_unique:
  assumes "mirror_rep M A" "mirror_rep M B"
  shows "spec_side A s = spec_side B s"
proof -
  have "map mirror_of (spec_side A s) = map mirror_of (spec_side B s)" using mirror_repD(3) [OF assms(1), of s] mirror_repD(3) [OF assms(2), of s] by simp
  moreover have "\<forall>r \<in> set (spec_side A s). v_side r = s" "\<forall>r \<in> set (spec_side B s). v_side r = s"
    using mirror_repD(1) [OF assms(1)] mirror_repD(1) [OF assms(2)] by (simp_all add: ids_wf_def)
  moreover have "xs = ys" if "map mirror_of xs = map mirror_of ys" "\<forall>r \<in> set xs. v_side r = s" "\<forall>r \<in> set ys. v_side r = s" for xs ys
    using that by (induction xs arbitrary: ys) (auto simp: mirror_of_def)
  ultimately show ?thesis by blast
qed

lemma lvl_cong: "(\<And>s. spec_side A s = spec_side B s) \<Longrightarrow> lvl A = lvl B"
  by (simp add: lvl_def fun_eq_iff)

lemma small_cong: "(\<And>s. spec_side A s = spec_side B s) \<Longrightarrow> small A = small B"
  using lvl_cong [of A B] by (simp add: small_def qty_at_def)

section \<open>A submission\<close>

lemma only_at_member:
  assumes "ids_wf A" "r \<in> set (spec_side A s)"
  shows "only_at A (v_id r) s (v_price r)"
  unfolding only_at_def
proof (intro allI ballI impI)
  fix t x assume x: "x \<in> set (spec_side A t)" "v_id x = v_id r"
  have "t = s" using other_side_id [OF assms x(1)] x(2) by auto
  moreover have "x = r" if "x \<in> set (spec_side A s)" using ids_wf_side [OF assms(1), of s] that assms(2) x(2) by (auto simp: distinct_map inj_on_def)
  ultimately show "t = s \<and> v_price x = v_price r" using x(1) by simp
qed

lemma trade_events_removals:
  assumes wf: "spec_wf cfg A"
    and am: "amatch (cfg_stp cfg) ord tid remaining (spec_side A (opposite (n_side ord))) = (ts, vs, left, rem', oc)"
  shows "\<forall>e \<in> set (trade_events sq ts vs). removal e \<and> event_ok A e"
proof
  fix e assume e: "e \<in> set (trade_events sq ts vs)"
  have ids: "ids_wf A" and pos: "\<And>s r. r \<in> set (spec_side A s) \<Longrightarrow> 0 < v_remaining r \<and> v_side r = s"
    using wf spec_wf_ids by (auto simp: spec_wf_def side_wf_def order_wf_def)
  have at: "only_at A (v_id r) (opposite (n_side ord)) (v_price r)" if "r \<in> set (spec_side A (opposite (n_side ord)))" for r
    by (rule only_at_member [OF ids that])
  from e consider (trade) t where "e = tradeEvent t sq" "t \<in> set ts" | (victim) v where "e = orderUpdateEvent Cancelled (v_side v) (victimUpdate v) sq Ok" "v \<in> set vs"
    by (auto simp: trade_events_def dest: in_set_takeD)
  then show "removal e \<and> event_ok A e"
  proof cases
    case trade
    then obtain r n where "r \<in> set (spec_side A (opposite (n_side ord)))" "t = trade_with ord n r (t_quantity t)" "0 < t_quantity t"
      using amatch_trades [OF am] pos by blast
    moreover from this(2) have "t_passiveId t = v_id r" "t_price t = v_price r" "t_aggressorSide t = n_side ord"
      by (simp_all add: trade_with_def) (metis Trade.select_convs)+
    ultimately show ?thesis using trade at by (simp add: removal_def event_ok_def tradeEvent_def)
  next
    case victim
    then have "v \<in> set (spec_side A (opposite (n_side ord)))" using amatch_victims(1) [OF am] by blast
    then show ?thesis using victim at [of v] pos [of v] by (simp add: removal_def event_ok_def orderUpdateEvent_def victimUpdate_def)
  qed
qed

definition neutral :: "OutboundEvent \<Rightarrow> bool" where
  "neutral e \<longleftrightarrow> (case e_payload e of PTrade t \<Rightarrow> False | POrderUpdate u \<Rightarrow> e_action e = Rejected | PStatusChange sc \<Rightarrow> True)"

lemma neutral_ok: "neutral e \<Longrightarrow> event_ok A e" "neutral e \<Longrightarrow> event_effect A e = A"
  by (auto simp: neutral_def event_ok_def event_effect_def split: OutboundPayload.splits)

lemma neutrals_ok: "\<forall>e \<in> set es. neutral e \<Longrightarrow> small A \<Longrightarrow> events_ok A es \<and> foldl event_effect A es = A"
  by (induction es) (auto simp: neutral_ok)

lemma neutral_events [simp]: "neutral (statusEvent k st sq)" "neutral (orderUpdateEvent Rejected s u sq st)"
  by (simp_all add: neutral_def statusEvent_def orderUpdateEvent_def)

lemma rested_facts:
  assumes "asubmit cfg A ord = (r, A', ts, vs)" "r_rested r"
  shows "find_order A (n_id ord) = None \<and> 0 < r_remaining r"
  using assms(1)
proof (cases rule: asubmit_cases)
  case (rejected st)
  then show ?thesis using assms(2) by (simp add: submit_result_def emptyResult_def)
next
  case (matched left rem' oc)
  then show ?thesis using assms(2) submit_guard_NoneD(3) [OF matched(1)] by simp
qed

lemma find_order_None_sides: "find_order A k = None \<longleftrightarrow> (\<forall>s. \<forall>r \<in> set (spec_side A s). v_id r \<noteq> k)"
proof -
  have "x \<in> set (spec_side A s) \<Longrightarrow> x \<in> set (spec_side A Buy) \<or> x \<in> set (spec_side A Sell)" for x s by (cases s) simp_all
  then show ?thesis by (fastforce simp: find_order_None spec_orders_sides)
qed

lemma emit_event_ok:
  assumes "asubmit cfg A ord = (r, A', ts, vs)" "within B A"
  shows "\<exists>e. emitOrderUpdate sq (n_id ord) (n_side ord) r = [e] \<and> event_ok B e"
proof (cases "r_rested r")
  case True
  note f = rested_facts [OF assms(1) True]
  then have "find_order B (n_id ord) = None" using assms(2) by (fastforce simp: within_def find_order_None_sides)
  then show ?thesis using f True by (simp add: emitOrderUpdate_def Let_def event_ok_def orderUpdateEvent_def resultUpdate_def)
qed (simp add: emitOrderUpdate_def Let_def neutral_ok)

lemma submit_events_ok:
  assumes sync: "mirror_sync M A" and wf: "spec_wf cfg A" and sm: "small A" "small A'" and sub: "asubmit cfg A ord = (r, A', ts, vs)"
    and room: "length ts \<le> kTradeBufCapacity" "length vs \<le> kTradeBufCapacity" and sts: "sts = [] \<or> (\<exists>k st. sts = [statusEvent k st sq])"
  shows "events_ok A (trade_events sq ts vs @ sts @ emitOrderUpdate sq (n_id ord) (n_side ord) r) \<and>
    (\<forall>s. spec_side (foldl event_effect A (trade_events sq ts vs @ sts @ emitOrderUpdate sq (n_id ord) (n_side ord) r)) s = spec_side A' s)"
proof -
  have rep: "mirror_rep M A" using sync by (simp add: mirror_sync_def)
  define B where "B = foldl event_effect A (trade_events sq ts vs)"
  have rm: "\<forall>e \<in> set (trade_events sq ts vs). removal e \<and> event_ok A e"
    using sub
  proof (cases rule: asubmit_cases)
    case (rejected st)
    then show ?thesis by (simp add: trade_events_def)
  next
    case (matched left rem' oc)
    then show ?thesis using trade_events_removals [OF wf matched(2)] by blast
  qed
  note R = removals_ok [OF rep sm(1) rm, folded B_def]
  have nt: "\<forall>e \<in> set sts. neutral e" and skip: "foldl mirror_apply N sts = N" for N using sts by auto
  have N: "events_ok B sts \<and> foldl event_effect B sts = B" using neutrals_ok [OF nt] R by blast
  obtain e where e: "emitOrderUpdate sq (n_id ord) (n_side ord) r = [e]" "event_ok B e" using emit_event_ok [OF sub] R by blast
  let ?M2 = "foldl mirror_apply M (trade_events sq ts vs)"
  have "mirror_rep (mirror_apply ?M2 e) (event_effect B e)" using R by (intro event_effect_rep [OF _ e(2)]) simp
  moreover have "mirror_rep (mirror_apply ?M2 e) A'"
    using submit_events_sync [OF sync wf sub room skip, of sq] e(1) by (simp add: skip mirror_sync_def)
  ultimately have same: "spec_side (event_effect B e) s = spec_side A' s" for s by (intro mirror_rep_unique)
  have "small (event_effect B e)" using small_cong [OF same] sm(2) by simp
  then show ?thesis using R N e same by (simp add: events_ok_append B_def [symmetric])
qed

section \<open>Bounded quantities\<close>

definition qbound :: "Quantity \<Rightarrow> BookSpec \<Rightarrow> bool" where
  "qbound Q A \<longleftrightarrow> (\<forall>s. \<forall>r \<in> set (spec_side A s). v_quantity r \<le> Q)"

lemma sum_list_bound: "(\<And>x. x \<in> set xs \<Longrightarrow> f x \<le> (Q :: int)) \<Longrightarrow> sum_list (map f xs) \<le> int (length xs) * Q"
  by (induction xs) (fastforce simp: algebra_simps)+

lemma small_of_wf:
  assumes wf: "spec_wf cfg A" and q: "qbound Q A" "0 \<le> Q" "int (cfg_maxOrders cfg) * Q < 2 ^ 63"
  shows "small A"
proof -
  have r: "0 < v_remaining r \<and> v_remaining r \<le> Q" if "r \<in> set (spec_side A s)" for r s
    using wf q(1) that by (force simp: spec_wf_def side_wf_def order_wf_def qbound_def)
  have "qty_at A s p < 2 ^ 63" for s p
  proof -
    have "length (lvl A s p) \<le> length (spec_side A s)" by (simp add: lvl_def)
    also have "\<dots> \<le> cfg_maxOrders cfg" using wf by (cases s) (simp_all add: spec_wf_def spec_orders_sides)
    finally have "int (length (lvl A s p)) * Q \<le> int (cfg_maxOrders cfg) * Q" using q(2) by (simp add: mult_right_mono)
    moreover have "qty_at A s p \<le> int (length (lvl A s p)) * Q" unfolding qty_at_def by (rule sum_list_bound) (use r in \<open>auto simp: lvl_def\<close>)
    ultimately show ?thesis using q(3) by linarith
  qed
  then show ?thesis using r by (auto simp: small_def)
qed

lemma asubmit_qbound:
  assumes sub: "asubmit cfg A ord = (r, A', ts, vs)" and q: "qbound Q A" "n_quantity ord \<le> Q"
  shows "qbound Q A'"
  using sub
proof (cases rule: asubmit_cases)
  case (rejected st)
  then show ?thesis using q(1) by simp
next
  case (matched left rem' oc)
  let ?opp = "opposite (n_side ord)"
  have "v_quantity ` set left \<subseteq> v_quantity ` set (spec_side A ?opp)"
  proof -
    obtain gone rest where g: "spec_side A ?opp = gone @ rest"
        "left = rest \<or> (\<exists>r rest' q. rest = r # rest' \<and> left = r\<lparr>v_remaining := v_remaining r - q\<rparr> # rest' \<and> 0 < q \<and> q < v_remaining r)"
      using amatch_priority [OF matched(2)] by blast
    then show ?thesis by auto
  qed
  then have o: "\<forall>x \<in> set (spec_side A' ?opp). v_quantity x \<le> Q" using q(1) matched(3) by (auto simp: qbound_def)
  have "\<forall>x \<in> set (spec_side A' (n_side ord)). v_quantity x \<le> Q" using q matched(7) by (auto simp: qbound_def set_rest_in resting_of_def split: if_splits)
  then show ?thesis using o opposite_cases [of _ ord] unfolding qbound_def by metis
qed

lemma drop_qbound: "qbound Q A \<Longrightarrow> qbound Q (drop_order A k)"
  by (auto simp: qbound_def spec_side_drop)

lemma adispatch_qbound:
  assumes ad: "adispatch cfg A sq cmd = (A', es)" and q: "qbound Q A" "c_quantity cmd \<le> Q"
  shows "qbound Q A'"
proof -
  have n: "n_quantity (cmd_order cmd) \<le> Q" using q(2) by (simp add: cmd_order_def toNewOrder_def)
  show ?thesis
  proof (cases "c_kind cmd")
    case New
    then show ?thesis using ad asubmit_qbound [OF _ q(1) n] by (auto simp: adispatch_def split: prod.splits)
  next
    case Cancel
    then show ?thesis using ad q(1) drop_qbound by (auto simp: adispatch_def acancel_def split: prod.splits option.splits)
  next
    case Replace
    then show ?thesis using ad q(1) asubmit_qbound [OF _ drop_qbound [OF q(1)] n] asubmit_qbound [OF _ q(1) n]
      by (auto simp: adispatch_def areplace_def acancel_def split: prod.splits option.splits)
  qed
qed

section \<open>The events of a command, in their order\<close>

lemma cancel_event_ok:
  assumes rep: "mirror_rep M A" and sm: "small A" and f: "find_order A k = Some x"
  shows "event_ok A (orderUpdateEvent Cancelled (r_side (cancel_result x)) (resultUpdate k (cancel_result x)) sq Ok)"
    "event_effect A (orderUpdateEvent Cancelled (r_side (cancel_result x)) (resultUpdate k (cancel_result x)) sq Ok) = drop_order A k"
    "small (drop_order A k)"
proof -
  note x = mirror_rep_found [OF rep f]
  have at: "only_at A k (v_side x) (v_price x)" using only_at_member [OF mirror_repD(1) [OF rep] x(1)] x(2) by simp
  show "small (drop_order A k)" by (rule drop_level(3) [OF sm at])
  show "event_effect A (orderUpdateEvent Cancelled (r_side (cancel_result x)) (resultUpdate k (cancel_result x)) sq Ok) = drop_order A k"
    by (simp add: event_effect_def orderUpdateEvent_def resultUpdate_def)
  show "event_ok A (orderUpdateEvent Cancelled (r_side (cancel_result x)) (resultUpdate k (cancel_result x)) sq Ok)"
    using at by (simp add: event_ok_def orderUpdateEvent_def resultUpdate_def cancel_result_def)
qed

lemma adispatch_events_ok:
  assumes sync: "mirror_sync M A" and wf: "spec_wf cfg A" and cap: "cfg_maxOrders cfg \<le> kTradeBufCapacity"
    and sm: "small A" "small A'" and ad: "adispatch cfg A sq cmd = (A', es)"
  shows "events_ok A es \<and> (\<forall>s. spec_side (foldl event_effect A es) s = spec_side A' s)"
proof (cases "c_kind cmd")
  case New
  obtain r B ts vs where s: "asubmit cfg A (cmd_order cmd) = (r, B, ts, vs)" by (cases "asubmit cfg A (cmd_order cmd)")
  have "length (spec_orders A) \<le> kTradeBufCapacity" using wf cap by (simp add: spec_wf_def)
  then have room: "length ts \<le> kTradeBufCapacity" "length vs \<le> kTradeBufCapacity" using asubmit_lengths [OF s] by simp_all
  have "n_id (cmd_order cmd) = c_id cmd" "n_side (cmd_order cmd) = c_side cmd" using New by (simp_all add: cmd_order_def toNewOrder_def)
  moreover have B: "B = A'" using ad by (simp add: adispatch_def New s)
  let ?sts = "if r_status r \<noteq> Ok then [statusEvent (c_id cmd) (r_status r) sq] else []"
  have "?sts = [] \<or> (\<exists>k st. ?sts = [statusEvent k st sq])" by auto
  from submit_events_ok [OF sync wf sm(1) _ s room this] B sm(2) ad calculation show ?thesis by (simp add: adispatch_def New s del: foldl_append)
next
  case Cancel
  have rep: "mirror_rep M A" using sync by (simp add: mirror_sync_def)
  show ?thesis
  proof (cases "find_order A (c_id cmd)")
    case None
    then show ?thesis using ad sm(1) by (auto simp: adispatch_def Cancel acancel_def emptyResult_def neutral_ok)
  next
    case (Some x)
    have "r_status (cancel_result x) = Ok" by (simp add: cancel_result_def)
    then show ?thesis using ad sm cancel_event_ok [OF rep sm(1) Some] Some
      by (auto simp: adispatch_def Cancel acancel_def neutral_ok)
  qed
next
  case Replace
  show ?thesis
  proof (cases "replace_guard cfg A (c_id cmd) (cmd_order cmd)")
    case (Some st)
    then show ?thesis using ad sm(1) by (auto simp: adispatch_def Replace areplace_def trade_events_def neutral_ok)
  next
    case None
    obtain x where x: "find_order A (c_id cmd) = Some x" using None by (auto simp: replace_guard_def split: if_splits)
    let ?A1 = "drop_order A (c_id cmd)"
    have rep: "mirror_rep M A" using sync by (simp add: mirror_sync_def)
    have ac: "acancel A (c_id cmd) = (cancel_result x, ?A1)" using x by (simp add: acancel_def)
    obtain r2 A2 ts2 vs2 where s: "asubmit cfg ?A1 (cmd_order cmd) = (r2, A2, ts2, vs2)" by (cases "asubmit cfg ?A1 (cmd_order cmd)")
    have wf1: "spec_wf cfg ?A1" using acancel_wf [OF wf, of "c_id cmd"] ac by simp
    have "length (spec_orders ?A1) \<le> kTradeBufCapacity" using wf1 cap by (simp add: spec_wf_def)
    then have room: "length ts2 \<le> kTradeBufCapacity" "length vs2 \<le> kTradeBufCapacity" using asubmit_lengths [OF s] by simp_all
    have "n_id (cmd_order cmd) = c_newId cmd" "n_side (cmd_order cmd) = c_side cmd" using Replace by (simp_all add: cmd_order_def toNewOrder_def)
    moreover have A2: "A2 = A'" using ad by (simp add: adispatch_def Replace areplace_def None ac s)
    note C = cancel_event_ok [OF rep sm(1) x]
    have "[statusEvent (c_newId cmd) (r_status r2) sq] = [] \<or> (\<exists>k st. [statusEvent (c_newId cmd) (r_status r2) sq] = [statusEvent k st sq])" by auto
    from submit_events_ok [OF cancel_events_sync [OF sync wf x, of sq] wf1 C(3) _ s room this] A2 sm(2) C ad calculation show ?thesis
      by (auto simp: adispatch_def Replace areplace_def None ac s)
  qed
qed

section \<open>Books with the same orders\<close>

definition same_sides :: "BookSpec \<Rightarrow> BookSpec \<Rightarrow> bool" where
  "same_sides A B \<longleftrightarrow> (\<forall>s. spec_side A s = spec_side B s)"

lemma same_sides_refl [simp]: "same_sides A A"
  by (simp add: same_sides_def)

lemma same_sides_trans: "same_sides A B \<Longrightarrow> same_sides B C \<Longrightarrow> same_sides A C"
  by (simp add: same_sides_def)

lemma same_sides_find: "same_sides A B \<Longrightarrow> find_order A = find_order B"
  by (simp add: same_sides_def find_order_def spec_orders_sides fun_eq_iff)

lemma same_sides_ok: "same_sides A B \<Longrightarrow> event_ok A e = event_ok B e"
  using same_sides_find [of A B] by (simp add: event_ok_def only_at_def same_sides_def split: OutboundPayload.split UpdateAction.split)

lemma same_sides_small: "same_sides A B \<Longrightarrow> small A = small B"
  using small_cong [of A B] by (simp add: same_sides_def)

lemma same_sides_effect: "same_sides A B \<Longrightarrow> same_sides (event_effect A e) (event_effect B e)"
  using same_sides_find [of A B]
  by (simp add: event_effect_def areduce_def same_sides_def spec_side_drop split: OutboundPayload.split UpdateAction.split option.split)

lemma same_sides_events:
  assumes "same_sides A B"
  shows "events_ok A es = events_ok B es" "same_sides (foldl event_effect A es) (foldl event_effect B es)"
proof -
  have "events_ok A es = events_ok B es \<and> same_sides (foldl event_effect A es) (foldl event_effect B es)"
    using assms
  proof (induction es arbitrary: A B)
    case (Cons e es)
    from Cons.IH [OF same_sides_effect [OF Cons.prems, of e]] show ?case
      using same_sides_ok [OF Cons.prems, of e] same_sides_small [OF same_sides_effect [OF Cons.prems, of e]] by simp
  qed simp
  then show "events_ok A es = events_ok B es" "same_sides (foldl event_effect A es) (foldl event_effect B es)" by auto
qed

section \<open>Numbers within 64 bits\<close>

definition fits_order :: "Resting \<Rightarrow> bool" where
  "fits_order r \<longleftrightarrow> in_i64 (v_id r) \<and> in_i64 (v_price r) \<and> in_i64 (v_quantity r) \<and> in_i64 (v_remaining r) \<and> in_i64 (v_participant r)"

definition fits_book :: "BookSpec \<Rightarrow> bool" where
  "fits_book A \<longleftrightarrow> (\<forall>s. \<forall>r \<in> set (spec_side A s). fits_order r)"

definition fits_event :: "OutboundEvent \<Rightarrow> bool" where
  "fits_event e \<longleftrightarrow>
     (case e_payload e of
        PTrade t \<Rightarrow> in_i64 (t_id t) \<and> in_i64 (t_aggressorId t) \<and> in_i64 (t_passiveId t) \<and> in_i64 (t_price t) \<and> in_i64 (t_quantity t)
      | POrderUpdate u \<Rightarrow> e_action e = Rejected \<or> fits_order (restedOrder (e_side e) u)
      | PStatusChange sc \<Rightarrow> True)"

lemma fits_bookD: "fits_book A \<Longrightarrow> r \<in> set (spec_side A s) \<Longrightarrow> fits_order r"
  by (simp add: fits_book_def)

lemma reduced_fits: "fits_order r \<Longrightarrow> 0 < q \<Longrightarrow> q < v_remaining r \<Longrightarrow> fits_order (r\<lparr>v_remaining := v_remaining r - q\<rparr>)"
  by (simp add: fits_order_def in_i64_def)

lemma lred_fits:
  assumes "\<forall>r \<in> set xs. fits_order r" "0 < q"
  shows "\<forall>r \<in> set (lred k q xs). fits_order r"
  using assms by (induction xs) (simp_all add: reduced_fits)

lemma effect_fits:
  assumes "fits_book A" "ids_wf A" "event_ok A e" "fits_event e"
  shows "fits_book (event_effect A e)"
proof (cases "e_payload e")
  case (PTrade t)
  then have "\<forall>r \<in> set (lred (t_passiveId t) (t_quantity t) (spec_side A s)). fits_order r" for s
    using assms by (intro lred_fits) (auto simp: fits_book_def event_ok_def)
  then show ?thesis using PTrade assms(2) by (simp add: fits_book_def event_effect_def spec_side_areduce)
next
  case (POrderUpdate u)
  then show ?thesis using assms by (cases "e_action e") (auto simp: fits_book_def event_effect_def spec_side_drop fits_event_def set_rest_in split: if_splits)
qed (use assms in \<open>auto simp: event_effect_def\<close>)

lemma fits_victimUpdate: "fits_order (restedOrder s (victimUpdate r)) = fits_order r"
  by (simp add: fits_order_def restedOrder_def victimUpdate_def)

lemma trade_events_fit:
  assumes wf: "spec_wf cfg A" and fits: "fits_book A" "in_i64 (n_id ord)" and n: "0 \<le> tid" "tid + int (length ts) < 2 ^ 63"
    and am: "amatch (cfg_stp cfg) ord tid remaining (spec_side A (opposite (n_side ord))) = (ts, vs, left, rem', oc)"
  shows "\<forall>e \<in> set (trade_events sq ts vs). fits_event e"
proof
  fix e assume "e \<in> set (trade_events sq ts vs)"
  then consider (trade) t where "e = tradeEvent t sq" "t \<in> set ts" | (victim) v where "e = orderUpdateEvent Cancelled (v_side v) (victimUpdate v) sq Ok" "v \<in> set vs"
    by (auto simp: trade_events_def dest: in_set_takeD)
  then show "fits_event e"
  proof cases
    case trade
    have pos: "0 < v_remaining r" if "r \<in> set (spec_side A (opposite (n_side ord)))" for r using wf that by (auto simp: spec_wf_def side_wf_def order_wf_def)
    obtain r k where r: "r \<in> set (spec_side A (opposite (n_side ord)))" "t = trade_with ord k r (t_quantity t)" "0 < t_quantity t" "t_quantity t \<le> v_remaining r"
      using amatch_trades [OF am pos] trade(2) by blast
    have "t_id t \<in> (\<lambda>k. tid + int k) ` {0..<length ts}" using arg_cong [OF amatch_trade_ids [OF am], of set] trade(2) by auto
    then have "in_i64 (t_id t)" using n by (auto simp: in_i64_def)
    moreover have "t_aggressorId t = n_id ord" "t_passiveId t = v_id r" "t_price t = v_price r" using arg_cong [OF r(2), of t_aggressorId] arg_cong [OF r(2), of t_passiveId] arg_cong [OF r(2), of t_price]
      by (simp_all add: trade_with_def)
    moreover have "fits_order r" by (rule fits_bookD [OF fits(1) r(1)])
    ultimately show ?thesis using trade(1) fits(2) r(3,4) by (simp add: fits_event_def tradeEvent_def fits_order_def in_i64_def)
  next
    case victim
    then have "v \<in> set (spec_side A (opposite (n_side ord)))" using amatch_victims(1) [OF am] by blast
    then show ?thesis using victim fits_bookD [OF fits(1)] by (simp add: fits_event_def orderUpdateEvent_def fits_victimUpdate)
  qed
qed

lemma neutral_fits: "neutral e \<Longrightarrow> fits_event e"
  by (auto simp: neutral_def fits_event_def split: OutboundPayload.splits)

definition order_fits :: "NewOrder \<Rightarrow> bool" where
  "order_fits ord \<longleftrightarrow> in_i64 (n_id ord) \<and> in_i64 (n_price ord) \<and> in_i64 (n_quantity ord) \<and> in_i64 (n_participant ord)"

lemma submit_events_fit:
  assumes wf: "spec_wf cfg A" and fits: "fits_book A" "order_fits ord" and sub: "asubmit cfg A ord = (r, A', ts, vs)"
    and n: "0 \<le> sp_nextTradeId A" "sp_nextTradeId A' < 2 ^ 63" and sts: "\<forall>e \<in> set sts. neutral e"
  shows "\<forall>e \<in> set (trade_events sq ts vs @ sts @ emitOrderUpdate sq (n_id ord) (n_side ord) r). fits_event e"
  using sub
proof (cases rule: asubmit_cases)
  case (rejected st)
  then have "\<not> r_rested r" by (simp add: submit_result_def emptyResult_def)
  then show ?thesis using rejected sts by (auto simp: trade_events_def emitOrderUpdate_def Let_def neutral_fits)
next
  case (matched left rem' oc)
  have te: "\<forall>e \<in> set (trade_events sq ts vs). fits_event e"
    by (rule trade_events_fit [OF wf fits(1) _ n(1) _ matched(2)]) (use fits(2) n(2) matched(8) in \<open>simp_all add: order_fits_def\<close>)
  have pos: "0 < v_remaining x" if "x \<in> set (spec_side A (opposite (n_side ord)))" for x using wf that by (auto simp: spec_wf_def side_wf_def order_wf_def)
  have "0 \<le> sum_list (map t_quantity ts)" using amatch_trades [OF matched(2) pos] by (intro sum_list_nonneg) force
  moreover have "0 \<le> n_quantity ord" using submit_guard_NoneD(1) [OF matched(1)] by simp
  ultimately have "0 \<le> rem' \<and> rem' \<le> n_quantity ord" using amatch_conserves [OF matched(2)] by simp
  then have "fits_order (restedOrder (r_side r) (resultUpdate (n_id ord) r))"
    using fits(2) asubmit_result [OF sub] matched(4) by (simp add: fits_order_def restedOrder_def resultUpdate_def order_fits_def in_i64_def)
  then show ?thesis using te sts by (auto simp: emitOrderUpdate_def Let_def neutral_fits) (simp add: fits_event_def orderUpdateEvent_def)
qed

section \<open>A run\<close>

lemma submit_trade_ids: "asubmit cfg A ord = (r, A', ts, vs) \<Longrightarrow> sp_nextTradeId A \<le> sp_nextTradeId A'"
  by (erule asubmit_cases) auto

lemma adispatch_trade_ids:
  assumes "adispatch cfg A sq cmd = (A', es)"
  shows "sp_nextTradeId A \<le> sp_nextTradeId A'"
proof (cases "c_kind cmd")
  case New
  then show ?thesis using assms submit_trade_ids by (auto simp: adispatch_def split: prod.splits)
next
  case Cancel
  then show ?thesis using assms by (auto simp: adispatch_def acancel_def drop_order_def split: prod.splits option.splits)
next
  case Replace
  have "sp_nextTradeId (drop_order A k) = sp_nextTradeId A" for k by (simp add: drop_order_def)
  then show ?thesis using Replace assms submit_trade_ids
    by (fastforce simp: adispatch_def areplace_def acancel_def split: prod.splits option.splits)
qed

lemma cmd_order_fits: "cmd_fits cmd \<Longrightarrow> order_fits (cmd_order cmd)"
  by (simp add: cmd_fits_def order_fits_def cmd_order_def toNewOrder_def)

lemma cancel_event_fits:
  assumes "mirror_rep M A" "fits_book A" "find_order A k = Some x"
  shows "fits_event (orderUpdateEvent Cancelled (r_side (cancel_result x)) (resultUpdate k (cancel_result x)) sq Ok)"
  using mirror_rep_found [OF assms(1,3)] fits_bookD [OF assms(2)]
  by (auto simp: fits_event_def orderUpdateEvent_def fits_order_def restedOrder_def resultUpdate_def cancel_result_def)

lemma adispatch_fits:
  assumes rep: "mirror_rep M A" and wf: "spec_wf cfg A" and fits: "fits_book A" "cmd_fits cmd"
    and n: "0 \<le> sp_nextTradeId A" "sp_nextTradeId A' < 2 ^ 63" and ad: "adispatch cfg A sq cmd = (A', es)"
  shows "\<forall>e \<in> set es. fits_event e"
proof (cases "c_kind cmd")
  case New
  obtain r B ts vs where s: "asubmit cfg A (cmd_order cmd) = (r, B, ts, vs)" by (cases "asubmit cfg A (cmd_order cmd)")
  have "B = A'" using New ad by (simp add: adispatch_def s)
  moreover have "n_id (cmd_order cmd) = c_id cmd" "n_side (cmd_order cmd) = c_side cmd" using New by (simp_all add: cmd_order_def toNewOrder_def)
  ultimately show ?thesis
    using submit_events_fit [OF wf fits(1) cmd_order_fits [OF fits(2)] s n(1), of "if r_status r \<noteq> Ok then [statusEvent (c_id cmd) (r_status r) sq] else []" sq] n(2) ad
    by (auto simp: adispatch_def New s)
next
  case Cancel
  then show ?thesis using ad cancel_event_fits [OF rep fits(1)]
    by (auto simp: adispatch_def acancel_def neutral_fits split: option.splits if_splits prod.splits)
next
  case Replace
  show ?thesis
  proof (cases "replace_guard cfg A (c_id cmd) (cmd_order cmd)")
    case (Some st)
    then show ?thesis using ad by (auto simp: adispatch_def Replace areplace_def trade_events_def neutral_fits)
  next
    case None
    obtain x where x: "find_order A (c_id cmd) = Some x" using None by (auto simp: replace_guard_def split: if_splits)
    let ?A1 = "drop_order A (c_id cmd)"
    have ac: "acancel A (c_id cmd) = (cancel_result x, ?A1)" using x by (simp add: acancel_def)
    obtain r2 A2 ts2 vs2 where s: "asubmit cfg ?A1 (cmd_order cmd) = (r2, A2, ts2, vs2)" by (cases "asubmit cfg ?A1 (cmd_order cmd)")
    have wf1: "spec_wf cfg ?A1" using acancel_wf [OF wf, of "c_id cmd"] ac by simp
    have f1: "fits_book ?A1" using fits(1) by (auto simp: fits_book_def spec_side_drop)
    have n1: "0 \<le> sp_nextTradeId ?A1" using n(1) by (simp add: drop_order_def)
    have "A2 = A'" using Replace ad by (simp add: adispatch_def areplace_def None ac s)
    moreover have "n_id (cmd_order cmd) = c_newId cmd" "n_side (cmd_order cmd) = c_side cmd" using Replace by (simp_all add: cmd_order_def toNewOrder_def)
    ultimately show ?thesis
      using submit_events_fit [OF wf1 f1 cmd_order_fits [OF fits(2)] s n1, of "[statusEvent (c_newId cmd) (r_status r2) sq]" sq] n(2) ad
        cancel_event_fits [OF rep fits(1) x, of sq]
      by (auto simp: adispatch_def Replace areplace_def None ac s)
  qed
qed

text \<open>The limits under which the numbers of the feed stay within 64 bits.\<close>

definition feed_cfg :: "BookConfig \<Rightarrow> Quantity \<Rightarrow> bool" where
  "feed_cfg cfg Q \<longleftrightarrow> cfg_ok cfg \<and> cfg_maxOrders cfg \<le> kTradeBufCapacity \<and> 0 \<le> Q \<and> int (cfg_maxOrders cfg) * Q < 2 ^ 63"

definition feed_cmd :: "BookConfig \<Rightarrow> Quantity \<Rightarrow> Command \<Rightarrow> bool" where
  "feed_cmd cfg Q c \<longleftrightarrow> cmd_ok cfg c \<and> cmd_fits c \<and> c_quantity c \<le> Q"

text \<open>The mirror is level with the engine, and the book is within the limits.\<close>

definition tracks :: "BookConfig \<Rightarrow> Quantity \<Rightarrow> BookMirror \<Rightarrow> MatchingThread \<Rightarrow> bool" where
  "tracks cfg Q M mt \<longleftrightarrow> mt_inv mt \<and> ob_cfg (mt_book mt) = cfg \<and> mirror_sync M (absb (mt_book mt)) \<and> qbound Q (absb (mt_book mt)) \<and>
     fits_book (absb (mt_book mt)) \<and> 0 \<le> ob_nextTradeId (mt_book mt)"

lemma tracksD:
  assumes "tracks cfg Q M mt"
  shows "mt_inv mt" "ob_cfg (mt_book mt) = cfg" "mirror_sync M (absb (mt_book mt))" "mirror_rep M (absb (mt_book mt))" "spec_wf cfg (absb (mt_book mt))"
    "feed_cfg cfg Q \<Longrightarrow> small (absb (mt_book mt))" "fits_book (absb (mt_book mt))"
proof -
  show T: "mt_inv mt" "ob_cfg (mt_book mt) = cfg" "mirror_sync M (absb (mt_book mt))" "fits_book (absb (mt_book mt))" using assms by (simp_all add: tracks_def)
  show "mirror_rep M (absb (mt_book mt))" using T(3) by (simp add: mirror_sync_def)
  show wf: "spec_wf cfg (absb (mt_book mt))" using book_invD(2) [OF mt_invD(1) [OF T(1)]] T(2) by simp
  show "feed_cfg cfg Q \<Longrightarrow> small (absb (mt_book mt))" using small_of_wf [OF wf, of Q] assms by (simp add: tracks_def feed_cfg_def)
qed

lemma same_sides_fits: "same_sides A B \<Longrightarrow> fits_book A = fits_book B"
  by (simp add: same_sides_def fits_book_def)

lemma events_fit:
  assumes "mirror_rep M A" "fits_book A" "events_ok A es" "\<forall>e \<in> set es. fits_event e"
  shows "fits_book (foldl event_effect A es)"
  using assms
proof (induction es arbitrary: M A)
  case (Cons e es)
  have ok: "event_ok A e" "fits_event e" using Cons.prems(3,4) by simp_all
  show ?case using Cons.IH [OF event_effect_rep [OF Cons.prems(1) ok(1)] effect_fits [OF Cons.prems(2) mirror_repD(1) [OF Cons.prems(1)] ok]] Cons.prems(3,4) by simp
qed simp

text \<open>The events of a stretch of a run, for the book before and after it.\<close>

definition stretch :: "BookSpec \<Rightarrow> OutboundEvent list \<Rightarrow> BookSpec \<Rightarrow> bool" where
  "stretch A es B \<longleftrightarrow> events_ok A es \<and> same_sides (foldl event_effect A es) B \<and> (\<forall>e \<in> set es. fits_event e)"

lemma stretch_append: "stretch A es B \<Longrightarrow> stretch B fs C \<Longrightarrow> stretch A (es @ fs) C"
  using same_sides_events [of "foldl event_effect A es" B fs] same_sides_trans by (auto simp: stretch_def events_ok_append)

lemma dispatch_stretch:
  assumes tr: "tracks cfg Q M mt" and cfg: "feed_cfg cfg Q" and c: "feed_cmd cfg Q c" and d: "dispatch mt c = Some (mt1, es)"
    and n: "ob_nextTradeId (mt_book mt1) < 2 ^ 63"
  shows "tracks cfg Q (foldl mirror_apply M es) mt1 \<and> stretch (absb (mt_book mt)) es (absb (mt_book mt1))"
proof -
  let ?A = "absb (mt_book mt)" and ?B = "absb (mt_book mt1)"
  note T = tracksD [OF tr]
  have C: "cmd_ok cfg c" "cmd_fits c" "c_quantity c \<le> Q" "cfg_maxOrders cfg \<le> kTradeBufCapacity" "0 \<le> Q" "int (cfg_maxOrders cfg) * Q < 2 ^ 63"
    using c cfg by (simp_all add: feed_cmd_def feed_cfg_def)
  have s: "mt_inv mt1" "ob_cfg (mt_book mt1) = cfg" "astep_mt (mt_abs mt) c = (mt_abs mt1, es)" using dispatch_step [OF T(1), of c] C(1) T(2) d by auto
  have ad: "adispatch cfg ?A (mt_dispatchSeq mt + 1) c = (?B, es)" using s(3) T(2) by (auto simp: astep_mt_def mt_abs_def split: prod.splits)
  have q: "qbound Q ?A" "0 \<le> sp_nextTradeId ?A" using tr by (simp_all add: tracks_def)
  have qb: "qbound Q ?B" by (rule adispatch_qbound [OF ad q(1) C(3)])
  have sm: "small ?A" "small ?B" using small_of_wf [OF _ qb C(5,6)] book_invD(2) [OF mt_invD(1) [OF s(1)]] s(2) T(6) [OF cfg] by simp_all
  have ev: "events_ok ?A es" "same_sides (foldl event_effect ?A es) ?B" using adispatch_events_ok [OF T(3,5) C(4) sm ad] by (simp_all add: same_sides_def)
  have fit: "\<forall>e \<in> set es. fits_event e" by (rule adispatch_fits [OF T(4,5,7) C(2) q(2) _ ad]) (use n in simp)
  have "fits_book ?B" using events_fit [OF T(4,7) ev(1) fit] same_sides_fits [OF ev(2)] by simp
  then show ?thesis using s(1,2) adispatch_sync [OF T(3,5) C(4) ad] qb adispatch_trade_ids [OF ad] q(2) ev fit
    by (simp add: tracks_def stretch_def)
qed

lemma dispatch_trade_ids: "mt_inv mt \<Longrightarrow> cmd_ok (ob_cfg (mt_book mt)) c \<Longrightarrow> dispatch mt c = Some (mt1, es) \<Longrightarrow>
    ob_nextTradeId (mt_book mt) \<le> ob_nextTradeId (mt_book mt1) \<and> mt_inv mt1 \<and> ob_cfg (mt_book mt1) = ob_cfg (mt_book mt)"
  using dispatch_step [of mt c] adispatch_trade_ids by (fastforce simp: astep_mt_def mt_abs_def split: prod.splits)

lemma run_trade_ids: "mt_inv mt \<Longrightarrow> \<forall>c \<in> set cs. cmd_ok (ob_cfg (mt_book mt)) c \<Longrightarrow> run_with dispatch mt cs = Some (mt', es) \<Longrightarrow>
    ob_nextTradeId (mt_book mt) \<le> ob_nextTradeId (mt_book mt')"
proof (induction cs arbitrary: mt es)
  case (Cons c cs)
  obtain mt1 es1 es2 where s: "dispatch mt c = Some (mt1, es1)" "run_with dispatch mt1 cs = Some (mt', es2)" using Cons.prems(3) by (auto simp: bind_eq_Some_conv)
  note d = dispatch_trade_ids [OF Cons.prems(1) _ s(1)]
  show ?case using d Cons.IH [OF _ _ s(2)] Cons.prems(2) by force
qed simp

lemma run_stretch:
  assumes "tracks cfg Q M mt" "feed_cfg cfg Q" "\<forall>c \<in> set cs. feed_cmd cfg Q c" "run_with dispatch mt cs = Some (mt', es)"
    "ob_nextTradeId (mt_book mt') < 2 ^ 63"
  shows "tracks cfg Q (foldl mirror_apply M es) mt' \<and> stretch (absb (mt_book mt)) es (absb (mt_book mt'))"
  using assms
proof (induction cs arbitrary: M mt es)
  case Nil
  then show ?case by (simp add: stretch_def)
next
  case (Cons c cs)
  obtain mt1 es1 es2 where s: "dispatch mt c = Some (mt1, es1)" "run_with dispatch mt1 cs = Some (mt', es2)" "es = es1 @ es2"
    using Cons.prems(4) by (auto simp: bind_eq_Some_conv)
  have ok: "cmd_ok cfg d" if "d \<in> set (c # cs)" for d using Cons.prems(3) that by (auto simp: feed_cmd_def)
  note T = tracksD [OF Cons.prems(1)]
  have m: "mt_inv mt1" "ob_cfg (mt_book mt1) = cfg" using dispatch_trade_ids [OF T(1) _ s(1)] ok T(2) by simp_all
  have "ob_nextTradeId (mt_book mt1) \<le> ob_nextTradeId (mt_book mt')" using run_trade_ids [OF m(1) _ s(2)] ok m(2) by simp
  then have "ob_nextTradeId (mt_book mt1) < 2 ^ 63" using Cons.prems(5) by (rule order.strict_trans1)
  from dispatch_stretch [OF Cons.prems(1,2) _ s(1) this]
  have one: "tracks cfg Q (foldl mirror_apply M es1) mt1" "stretch (absb (mt_book mt)) es1 (absb (mt_book mt1))" using Cons.prems(3) by simp_all
  from Cons.IH [OF one(1) Cons.prems(2) _ s(2) Cons.prems(5)]
  show ?case using stretch_append [OF one(2)] Cons.prems(3) by (simp add: s(3))
qed

lemma tracks_new: "cfg_ok cfg \<Longrightarrow> 0 \<le> Q \<Longrightarrow> tracks cfg Q emptyMirror (newMatchingThread cfg)"
proof -
  assume c: "cfg_ok cfg" "0 \<le> Q"
  have "ob_cfg (mt_book (newMatchingThread cfg)) = cfg" "ob_nextTradeId (mt_book (newMatchingThread cfg)) = 0"
    "\<And>s. spec_side (absb (mt_book (newMatchingThread cfg))) s = []"
    using newOrderBook_ok [OF c(1)] by (simp_all add: newMatchingThread_def spec_side_def flip: absb_counters)
  then show ?thesis using newMatchingThread_inv [OF c(1)] emptyMirror_sync [OF c(1)] by (simp add: tracks_def qbound_def fits_book_def)
qed

section \<open>What a publisher sends\<close>

lemma applyAndPublish_keeps:
  "applyAndPublish pb ev = (pb', ms) \<Longrightarrow> pb_mirror pb' = mirror_apply (pb_mirror pb) ev \<and> pb_instrumentId pb' = pb_instrumentId pb"
  by (auto simp: applyAndPublish_def publishTrade_def publishUpdate_def diffLevel_def nextFeedSeq_def Let_def
      split: OutboundPayload.splits option.splits if_splits)

lemma pump_keeps:
  "pump source pb (map PeekOk es) = (n, pb', ms) \<Longrightarrow> pb_mirror pb' = foldl mirror_apply (pb_mirror pb) es \<and> pb_instrumentId pb' = pb_instrumentId pb"
  by (induction es arbitrary: pb n ms) (auto split: prod.splits dest!: applyAndPublish_keeps)

lemma published_cong:
  assumes "same_sides A B" "mirror_rep (pb_mirror pb) B" "published pb l A"
  shows "published pb l B"
proof -
  have "lvl B s p = lvl A s p" for s p using assms(1) lvl_cong [of A B] by (simp add: same_sides_def)
  from lvl_same_shows [OF this] show ?thesis using assms(2,3) by (simp add: published_def)
qed

lemma remainingOf_fits:
  assumes "mirror_rep M A" "fits_book A"
  shows "in_i64 (remainingOf M k)"
proof -
  have "in_i64 (remainingIn (levels_of M s) p k)" for s p
  proof (cases "find (\<lambda>x. m_id x = k) (map mirror_of (lvl A s p))")
    case None
    then show ?thesis by (simp add: remainingIn_def lookup_rep [OF assms(1)] in_i64_def)
  next
    case (Some x)
    then obtain r where "r \<in> set (lvl A s p)" "x = mirror_of r" by (auto simp: find_Some_iff) (metis nth_mem)
    then have "in_i64 (m_remaining x)" using fits_bookD [OF assms(2), of r s] by (simp add: lvl_def fits_order_def)
    then show ?thesis using Some by (auto simp: remainingIn_def lookup_rep [OF assms(1)] in_i64_def)
  qed
  moreover have "in_i64 0" by (simp add: in_i64_def)
  ultimately show ?thesis by (auto simp: remainingOf_def split: option.split)
qed

lemma diffLevel_fits:
  assumes "mirror_rep (pb_mirror pb) A" "small A" "in_i64 p" "diffLevel pb s p = (pb', ms)"
  shows "\<forall>m \<in> set ms. feed_ok m"
proof -
  have "in_i64 (levelTotal (pb_mirror pb) s p)" using assms(2) qty_at_pos(1) [OF assms(2), of s p] by (simp add: levelTotal_rep [OF assms(1,2)] in_i64_def small_def)
  then show ?thesis using assms(3,4) by (auto simp: diffLevel_def nextFeedSeq_def Let_def split: if_splits)
qed

lemma applyAndPublish_fits:
  assumes rep: "mirror_rep (pb_mirror pb) A" and ok: "event_ok A ev" and fits: "fits_event ev" "fits_book (event_effect A ev)" and sm: "small (event_effect A ev)"
    and ap: "applyAndPublish pb ev = (pb', ms)"
  shows "\<forall>m \<in> set ms. feed_ok m"
proof -
  define pb1 where "pb1 = pb\<lparr>pb_mirror := mirror_apply (pb_mirror pb) ev\<rparr>"
  have rep1: "mirror_rep (pb_mirror (pb1\<lparr>pb_feedSeq := n\<rparr>)) (event_effect A ev)" for n using event_effect_rep [OF rep ok] by (simp add: pb1_def)
  note diff = diffLevel_fits [OF rep1 sm] and rem = remainingOf_fits [OF rep1 fits(2)]
  show ?thesis
  proof (cases "e_payload ev")
    case (PTrade t)
    then have t: "in_i64 (t_id t)" "in_i64 (t_aggressorId t)" "in_i64 (t_passiveId t)" "in_i64 (t_price t)" "in_i64 (t_quantity t)" using fits(1) by (simp_all add: fits_event_def)
    obtain ms2 where d: "diffLevel (pb1\<lparr>pb_feedSeq := pb_feedSeq pb1 + 1 + 1\<rparr>) (opposite (t_aggressorSide t)) (t_price t) = (pb', ms2)"
      by (cases "diffLevel (pb1\<lparr>pb_feedSeq := pb_feedSeq pb1 + 1 + 1\<rparr>) (opposite (t_aggressorSide t)) (t_price t)")
        (use ap PTrade in \<open>auto simp: applyAndPublish_def publishTrade_def nextFeedSeq_def Let_def pb1_def\<close>)
    from ap PTrade d show ?thesis using diff [OF t(4) d] t rem [of "pb_feedSeq pb1" "t_passiveId t"]
      by (auto simp: applyAndPublish_def publishTrade_def nextFeedSeq_def Let_def pb1_def)
  next
    case (POrderUpdate u)
    show ?thesis
    proof (cases "e_action ev = Rejected")
      case True
      then show ?thesis using ap POrderUpdate by (auto simp: applyAndPublish_def publishUpdate_def)
    next
      case False
      then have u: "fits_order (restedOrder (e_side ev) u)" using fits(1) POrderUpdate by (simp add: fits_event_def)
      obtain pb2 ms2 where d: "diffLevel (pb1\<lparr>pb_feedSeq := pb_feedSeq pb1 + 1\<rparr>) (e_side ev) (u_price u) = (pb2, ms2)" by fastforce
      have "in_i64 (u_price u)" using u by (simp add: fits_order_def restedOrder_def)
      from diff [OF this d] show ?thesis using ap POrderUpdate d u False
        by (cases "e_action ev") (auto simp: applyAndPublish_def publishUpdate_def nextFeedSeq_def Let_def pb1_def fits_order_def restedOrder_def)
    qed
  next
    case (PStatusChange sc)
    then show ?thesis using ap by (simp add: applyAndPublish_def)
  qed
qed

lemma pump_shows:
  assumes "published pb l A" "small A" "fits_book A" "events_ok A es" "\<forall>e \<in> set es. fits_event e" "pump source pb (map PeekOk es) = (n, pb', ms)"
  shows "published pb' (foldl ladder_msg l ms) (foldl event_effect A es) \<and> (\<forall>m \<in> set ms. feed_ok m)"
  using assms
proof (induction es arbitrary: pb l A n ms)
  case (Cons e es)
  obtain pb1 ms1 where p: "applyAndPublish pb e = (pb1, ms1)" by fastforce
  obtain n2 ms2 where q: "pump source pb1 (map PeekOk es) = (n2, pb', ms2)" "ms = ms1 @ ms2" using Cons.prems(6) p by (auto split: prod.splits)
  have ok: "event_ok A e" "small (event_effect A e)" "events_ok (event_effect A e) es" "fits_event e" using Cons.prems(4,5) by simp_all
  have rep: "mirror_rep (pb_mirror pb) A" using Cons.prems(1) by (simp add: published_def)
  have f: "fits_book (event_effect A e)" by (rule effect_fits [OF Cons.prems(3) mirror_repD(1) [OF rep] ok(1,4)])
  from applyAndPublish_shows [OF Cons.prems(2) ok(2,1) Cons.prems(1) p] show ?case
    using Cons.IH [OF _ ok(2) f ok(3) _ q(1)] applyAndPublish_fits [OF rep ok(1,4) f ok(2) p] Cons.prems(5) q(2) by auto
qed simp

text \<open>A publisher that is level with the engine stays level with it over a run, and its feed keeps the ladder level too.\<close>

lemma run_published:
  assumes tr: "tracks cfg Q (pb_mirror pb) mt" and cfg: "feed_cfg cfg Q" and cs: "\<forall>c \<in> set cs. feed_cmd cfg Q c"
    and run: "run_with dispatch mt cs = Some (mt', es)" "ob_nextTradeId (mt_book mt') < 2 ^ 63"
    and pb: "published pb l (absb (mt_book mt))" and pm: "pump source pb (map PeekOk es) = (n, pb', ms)"
  shows "published pb' (foldl ladder_msg l ms) (absb (mt_book mt')) \<and> (\<forall>m \<in> set ms. feed_ok m) \<and> tracks cfg Q (pb_mirror pb') mt'"
proof -
  note R = run_stretch [OF tr cfg cs run] and T = tracksD [OF tr]
  have mir: "pb_mirror pb' = foldl mirror_apply (pb_mirror pb) es" using pump_keeps [OF pm] by simp
  have st: "events_ok (absb (mt_book mt)) es" "same_sides (foldl event_effect (absb (mt_book mt)) es) (absb (mt_book mt'))" "\<forall>e \<in> set es. fits_event e"
    using R by (simp_all add: stretch_def)
  have P: "published pb' (foldl ladder_msg l ms) (foldl event_effect (absb (mt_book mt)) es)" "\<forall>m \<in> set ms. feed_ok m"
    using pump_shows [OF pb T(6) [OF cfg] T(7) st(1,3) pm] by simp_all
  have tr': "tracks cfg Q (pb_mirror pb') mt'" using R mir by simp
  show ?thesis using published_cong [OF st(2) tracksD(4) [OF tr'] P(1)] P(2) tr' by simp
qed

end
