(* ===== verification/Publisher_Client.thy ===== *)
theory Publisher_Client
  imports Publisher_Events
begin

text \<open>
  Snapshot bursts, resynchronisation, the byte stream of the feed and its numbering, and the subscriber at the end of it.
\<close>

section \<open>A snapshot\<close>

definition snapshot_orders :: "InstrumentId \<Rightarrow> (Side \<times> MirrorOrder) list \<Rightarrow> DecodedFeedMessage list \<Rightarrow> bool" where
  "snapshot_orders i zs ms \<longleftrightarrow> list_all2 (\<lambda>(s, x) m. \<exists>n. m = restedMsg i n s x) zs ms"

lemma publishRested_orders: "publishRested pb zs = (pb', ms) \<Longrightarrow> snapshot_orders (pb_instrumentId pb) zs ms"
proof (induction pb zs arbitrary: ms rule: publishRested.induct)
  case (2 pb side x xs)
  obtain ms2 where p: "publishRested (pb\<lparr>pb_feedSeq := pb_feedSeq pb + 1\<rparr>) xs = (pb', ms2)" "ms = restedMsg (pb_instrumentId pb) (pb_feedSeq pb + 1) side x # ms2"
    using "2.prems" by (auto simp: nextFeedSeq_def split: prod.splits)
  show ?case using "2.IH" [OF _ refl, of _ _ ms2] p by (auto simp: nextFeedSeq_def snapshot_orders_def)
qed (simp add: snapshot_orders_def)

lemma burstRested_orders: "snapshot_orders i zs (burstRested i n zs)"
  by (induction i n zs rule: burstRested.induct) (auto simp: snapshot_orders_def)

lemma publishRested_keeps:
  "publishRested pb zs = (pb', ms) \<Longrightarrow> pb' = pb\<lparr>pb_feedSeq := pb_feedSeq pb + of_nat (length zs)\<rparr> \<and> length ms = length zs"
proof (induction pb zs arbitrary: pb' ms rule: publishRested.induct)
  case (2 pb side x xs)
  obtain ms2 where p: "publishRested (pb\<lparr>pb_feedSeq := pb_feedSeq pb + 1\<rparr>) xs = (pb', ms2)" "ms = restedMsg (pb_instrumentId pb) (pb_feedSeq pb + 1) side x # ms2"
    using "2.prems" by (auto simp: nextFeedSeq_def split: prod.splits)
  show ?case using "2.IH" [OF _ refl, of _ _ pb' ms2] p by (auto simp: nextFeedSeq_def add.assoc)
qed simp

abbreviation agg_all :: "Side \<Rightarrow> AggLevels \<Rightarrow> MirrorOrder list \<Rightarrow> AggLevels" where
  "agg_all s \<equiv> foldl (\<lambda>ls x. agg_add s ls (m_price x) (m_remaining x))"

lemma burst_sides:
  assumes "snapshot_orders i zs ms" "ld_inBurst l"
  shows "ld_inBurst (foldl ladder_msg l ms) \<and> ladder_side (foldl ladder_msg l ms) s = agg_all s (ladder_side l s) (map snd (filter (\<lambda>z. fst z = s) zs))"
  using assms
proof (induction zs arbitrary: ms l)
  case (Cons z zs)
  obtain t x where z: "z = (t, x)" by (cases z)
  obtain n ms2 where m: "ms = restedMsg i n t x # ms2" "snapshot_orders i zs ms2"
    using Cons.prems(1) by (auto simp: z snapshot_orders_def list_all2_Cons1)
  let ?l = "ladder_msg l (restedMsg i n t x)"
  have l: "ld_inBurst ?l" "ladder_side ?l s = (if s = t then agg_add s (ladder_side l s) (m_price x) (m_remaining x) else ladder_side l s)"
    using Cons.prems(2) by (cases t; cases s; simp add: ladder_msg_def restedMsg_def onL3Order_def ladder_side_def)+
  show ?case using Cons.IH [OF m(2) l(1)] l(2) by (simp add: m(1) z)
qed (simp add: snapshot_orders_def)

lemma agg_all_levels:
  "agg_sorted s (agg_all s [] xs) \<and> (\<forall>p. map_of (agg_all s [] xs) p =
     (let ys = filter (\<lambda>x. m_price x = p) xs
      in if ys = [] then None else Some \<lparr>ag_qty = wrap64 (sum_list (map m_remaining ys)), ag_orders = of_nat (length ys)\<rparr>))"
proof (induction xs rule: rev_induct)
  case (snoc x xs)
  then have s: "agg_sorted s (agg_all s [] xs)" by simp
  show ?case using snoc agg_put_sorted [OF s] agg_put_lookup [OF s]
    by (auto simp: agg_add_def Let_def agg_at_def filter_empty_conv)
qed simp

lemma snapshot_shows:
  assumes rep: "mirror_rep M A" and sm: "small A" and ms: "snapshot_orders i (forEachOrder M) ms"
  shows "ladder_shows (foldl ladder_msg l (FSnapshotStart a # ms @ [FSnapshotEnd b])) A"
proof -
  define l1 where "l1 = ladder_msg l (FSnapshotStart a)"
  define l2 where "l2 = foldl ladder_msg l1 ms"
  have l1: "ld_inBurst l1" "ladder_side l1 s = []" for s by (cases s; simp add: l1_def ladder_msg_def onSnapshotStart_def ladder_side_def)+
  have o: "map snd (filter (\<lambda>z. fst z = s) (forEachOrder M)) = map mirror_of (spec_side A s)" for s
    by (cases s) (simp_all add: forEachOrder_rep [OF rep] filter_map comp_def spec_side_def)
  have side: "ladder_side l2 s = agg_all s [] (map mirror_of (spec_side A s))" for s
    using burst_sides [OF ms l1(1), of s] by (simp add: l2_def l1(2) o)
  have "agg_sorted s (ladder_side l2 s)" for s using agg_all_levels by (simp add: side)
  moreover have "map_of (ladder_side l2 s) p = agg_of (lvl A s p)" for s p
  proof -
    have "in_i64 (qty_at A s p)" using sm qty_at_pos(1) [OF sm, of s p] by (simp add: in_i64_def small_def)
    then show ?thesis using agg_all_levels [of s "map mirror_of (spec_side A s)"]
      by (simp add: side agg_of_def Let_def filter_map comp_def lvl_def [symmetric] qty_at_def wrap64_id)
  qed
  moreover have "ladder_side (onSnapshotEnd l2) = ladder_side l2" by (simp add: fun_eq_iff ladder_side_def onSnapshotEnd_def split: Side.split)
  ultimately show ?thesis by (simp add: ladder_shows_def ladder_msg_def [of _ "FSnapshotEnd b"] l1_def [symmetric] l2_def [symmetric]) (simp add: onSnapshotEnd_def)
qed

lemma burst_shows:
  assumes "mirror_rep M A" "small A"
  shows "ladder_shows (foldl ladder_msg l (emitSnapshotBurst i M)) A"
  unfolding emitSnapshotBurst_def Let_def by (rule snapshot_shows [OF assms burstRested_orders])

section \<open>Resynchronisation\<close>

lemma seedLevelTotals_ok:
  assumes rep: "mirror_rep (pb_mirror pb) A" and sm: "small A" and empty: "\<And>s. totals_of pb s = Map.empty"
  shows "totals_ok (seedLevelTotals pb) A \<and> pb_mirror (seedLevelTotals pb) = pb_mirror pb \<and> pb_feedSeq (seedLevelTotals pb) = pb_feedSeq pb \<and>
    pb_instrumentId (seedLevelTotals pb) = pb_instrumentId pb"
proof -
  let ?f = "\<lambda>pb (side, x). set_totals pb side ((totals_of pb side)(m_price x \<mapsto> levelTotal (pb_mirror pb) side (m_price x)))"
  have f: "pb_mirror (foldl ?f pb zs) = pb_mirror pb \<and> pb_feedSeq (foldl ?f pb zs) = pb_feedSeq pb \<and> pb_instrumentId (foldl ?f pb zs) = pb_instrumentId pb \<and>
    totals_of (foldl ?f pb zs) s p = (if \<exists>x. (s, x) \<in> set zs \<and> m_price x = p then Some (levelTotal (pb_mirror pb) s p) else totals_of pb s p)" for zs s p
    by (induction zs arbitrary: pb) (auto split: prod.splits)
  have "(\<exists>x. (s, x) \<in> set (forEachOrder (pb_mirror pb)) \<and> m_price x = p) \<longleftrightarrow> lvl A s p \<noteq> []" for s p
    by (cases s) (auto simp: forEachOrder_rep [OF rep] lvl_def spec_side_def filter_empty_conv)
  then show ?thesis using f [of "forEachOrder (pb_mirror pb)"] empty unfolding seedLevelTotals_def totals_ok_def
    by (simp add: levelTotal_rep [OF rep sm])
qed

lemma resync_shows:
  assumes rep: "mirror_rep (f (mirror_clear (pb_mirror pb))) A" and sm: "small A" and rs: "resync (Some f) pb = (pb', ms)"
  shows "published pb' (foldl ladder_msg l ms) A" "pb_mirror pb' = f (mirror_clear (pb_mirror pb))" "pb_instrumentId pb' = pb_instrumentId pb"
proof -
  define pb1 where "pb1 = pb\<lparr>pb_mirror := f (mirror_clear (pb_mirror pb)), pb_bidTotals := Map.empty, pb_askTotals := Map.empty, pb_feedSeq := pb_feedSeq pb + 1\<rparr>"
  obtain pb3 orders where p: "publishRested pb1 (forEachOrder (pb_mirror pb1)) = (pb3, orders)" by fastforce
  have pb3: "pb3 = pb1\<lparr>pb_feedSeq := pb_feedSeq pb1 + of_nat (length (forEachOrder (pb_mirror pb1)))\<rparr>" using publishRested_keeps [OF p] by simp
  obtain a b where r: "pb' = (seedLevelTotals pb3)\<lparr>pb_feedSeq := pb_feedSeq (seedLevelTotals pb3) + 1\<rparr>" "ms = FSnapshotStart a # orders @ [FSnapshotEnd b]"
    using rs p by (auto simp: resync_def nextFeedSeq_def Let_def pb1_def split: prod.splits)
  have "mirror_rep (pb_mirror pb3) A" using rep by (simp add: pb3 pb1_def)
  moreover have "totals_of pb3 s = Map.empty" for s by (cases s) (simp_all add: pb3 pb1_def totals_of_def)
  ultimately have s: "totals_ok (seedLevelTotals pb3) A" "pb_mirror (seedLevelTotals pb3) = pb_mirror pb3" "pb_instrumentId (seedLevelTotals pb3) = pb_instrumentId pb3"
    using seedLevelTotals_ok [OF _ sm] by auto
  have "mirror_rep (pb_mirror pb1) A" using rep by (simp add: pb1_def)
  from snapshot_shows [OF this sm publishRested_orders [OF p]] have "ladder_shows (foldl ladder_msg l ms) A" by (simp add: r(2))
  then show "published pb' (foldl ladder_msg l ms) A" using s rep by (simp add: published_def r(1) totals_ok_def pb3 pb1_def)
  show "pb_mirror pb' = f (mirror_clear (pb_mirror pb))" "pb_instrumentId pb' = pb_instrumentId pb" using s by (simp_all add: r(1) pb3 pb1_def)
qed

lemma rest_in_snoc: "\<forall>y \<in> set rs. \<not> better s (v_price r) (v_price y) \<Longrightarrow> rest_in s r rs = rs @ [r]"
  by (simp add: rest_in_def takeWhile_eq_all_conv dropWhile_eq_Nil_conv)

lemma load_side_rep:
  assumes "mirror_rep M A" "sorted_wrt (prio s) (spec_side A s @ rs)" "\<forall>r \<in> set rs. v_side r = s \<and> find_order A (v_id r) = None" "distinct (map v_id rs)"
  shows "\<exists>B. mirror_rep (foldl (\<lambda>M r. applyOrderUpdate M Rested s (victimUpdate r)) M rs) B \<and> spec_side B s = spec_side A s @ rs \<and>
    spec_side B (opposite s) = spec_side A (opposite s)"
  using assms
proof (induction rs arbitrary: M A)
  case (Cons r rs)
  let ?B = "set_spec_side A s (spec_side A s @ [r])"
  have ne: "opposite s \<noteq> s" by (cases s) auto
  have "\<not> better s (v_price r) (v_price y)" if "y \<in> set (spec_side A s)" for y
    using Cons.prems(2) that better_trans [of s "v_price r" "v_price y" "v_price r"] by (auto simp: sorted_wrt_append prio_def)
  then have ri: "rest_in s r (spec_side A s) = spec_side A s @ [r]" by (intro rest_in_snoc) simp
  have M: "mirror_rep (if u_seq (victimUpdate r) > bm_lastSeq M then M\<lparr>bm_lastSeq := u_seq (victimUpdate r)\<rparr> else M) A" by (rule seq_step_rep [OF Cons.prems(1)])
  have rep: "mirror_rep (applyOrderUpdate M Rested s (victimUpdate r)) ?B"
    using insert_rep [OF M, of r s] Cons.prems(3) unfolding ri by (simp add: applyOrderUpdate_def Let_def)
  have "find_order ?B (v_id q) = None" if "q \<in> set rs" for q
  proof -
    have "v_id q \<noteq> v_id r" using Cons.prems(4) that by (auto simp: image_iff)
    then show ?thesis using Cons.prems(3) that ne by (auto simp: find_order_None spec_orders_set [of _ s])
  qed
  from Cons.IH [OF rep _ _ ] this show ?case using Cons.prems(2-4) ne by simp
qed auto

lemma loadMirrorFromBook_sync:
  assumes "book_inv b" "0 \<le> ob_seq b"
  shows "\<exists>M'. loadMirrorFromBook b M = Some M' \<and> mirror_sync M' (absb b)"
proof -
  have ok: "book_ok b" and wf: "spec_wf (ob_cfg b) (absb b)" using book_invD [OF assms(1)] by auto
  obtain xs ys where w: "walkSide b Buy = Some xs" "walkSide b Sell = Some ys" "map victimOf xs = sp_bids (absb b)" "map victimOf ys = sp_asks (absb b)"
    by (rule walkBook_absb [OF ok])
  have u: "restedUpdate x = victimUpdate (victimOf x)" for x by (simp add: restedUpdate_def victimUpdate_def victimOf_def)
  have fold: "foldl (\<lambda>M x. applyOrderUpdate M Rested s (restedUpdate x)) N zs = foldl (\<lambda>M r. applyOrderUpdate M Rested s (victimUpdate r)) N (map victimOf zs)" for s N zs
    by (simp add: u foldl_map)
  define E where "E = \<lparr>sp_bids = [], sp_asks = [], sp_seq = 0, sp_nextTradeId = 0\<rparr>"
  have E: "mirror_rep (mirror_clear M) E"
    by (auto simp: mirror_rep_def mirror_clear_def E_def ids_wf_def spec_side_def spec_orders_def find_order_def levels_of_def)
  have S: "sorted_wrt (prio s) (spec_side (absb b) s)" "\<forall>r \<in> set (spec_side (absb b) s). v_side r = s" "distinct (map v_id (spec_side (absb b) s))" for s
    using wf ids_wf_side [OF spec_wf_ids [OF wf], of s] by (auto simp: spec_wf_def side_wf_def order_wf_def)
  obtain B where B: "mirror_rep (foldl (\<lambda>M r. applyOrderUpdate M Rested Buy (victimUpdate r)) (mirror_clear M) (sp_bids (absb b))) B"
      "spec_side B Buy = sp_bids (absb b)" "spec_side B Sell = []"
    using load_side_rep [OF E, of Buy "sp_bids (absb b)"] S [of Buy] by (auto simp: E_def spec_side_def find_order_def spec_orders_def)
  have fresh: "find_order B (v_id r) = None" if "r \<in> set (sp_asks (absb b))" for r
  proof -
    have "v_id x \<noteq> v_id r" if "x \<in> set (sp_bids (absb b))" for x
      using other_side_id [OF spec_wf_ids [OF wf], of x Buy r Sell] that \<open>r \<in> set (sp_asks (absb b))\<close> by (simp add: spec_side_def)
    then show ?thesis using B(2,3) by (fastforce simp: find_order_None spec_orders_sides)
  qed
  obtain C where C: "mirror_rep (foldl (\<lambda>M r. applyOrderUpdate M Rested Sell (victimUpdate r))
        (foldl (\<lambda>M r. applyOrderUpdate M Rested Buy (victimUpdate r)) (mirror_clear M) (sp_bids (absb b))) (sp_asks (absb b))) C"
      "spec_side C Sell = sp_asks (absb b)" "spec_side C Buy = sp_bids (absb b)"
    using load_side_rep [OF B(1), of Sell "sp_asks (absb b)"] S [of Sell] B(2,3) fresh by (auto simp: spec_side_def)
  define M' where "M' = seedCounters (foldl (\<lambda>M r. applyOrderUpdate M Rested Sell (victimUpdate r))
        (foldl (\<lambda>M r. applyOrderUpdate M Rested Buy (victimUpdate r)) (mirror_clear M) (sp_bids (absb b))) (sp_asks (absb b))) (ob_seq b) (ob_nextTradeId b)"
  have "spec_side (absb b) s = spec_side C s" for s using C(2,3) by (cases s) (simp_all add: spec_side_def)
  then have "mirror_rep M' (absb b)" by (intro mirror_rep_cong [OF C(1)]) (simp_all add: M'_def seedCounters_def)
  then have "mirror_sync M' (absb b)" using assms(2) by (simp add: mirror_sync_def M'_def seedCounters_def absb_counters)
  moreover have "loadMirrorFromBook b M = Some M'" by (simp add: loadMirrorFromBook_def w fold M'_def)
  ultimately show ?thesis by blast
qed

section \<open>The depth of a book\<close>

text \<open>One row for every price with an order, best price first: the price, what is open there and in how many orders.\<close>

definition depth :: "Resting list \<Rightarrow> (Price \<times> Quantity \<times> 32 word) list" where
  "depth rs = map (\<lambda>p. let ys = filter (\<lambda>r. v_price r = p) rs in (p, sum_list (map v_remaining ys), of_nat (length ys))) (remdups_adj (map v_price rs))"

lemma sorted_unique:
  assumes "sorted_wrt (better s) xs" "sorted_wrt (better s) ys" "set xs = set ys"
  shows "xs = ys"
  using assms
proof (induction xs arbitrary: ys)
  case (Cons x xs)
  then obtain y zs where ys: "ys = y # zs" by (cases ys) auto
  have asym: "\<not> better s q p" if "better s p q" for p q using better_trans [OF that, of p] by auto
  have "x = y"
  proof (rule ccontr)
    assume ne: "x \<noteq> y"
    have "x \<in> set zs" "y \<in> set xs" using Cons.prems(3) ne by (auto simp: ys)
    then have "better s y x" "better s x y" using Cons.prems(1,2) by (simp_all add: ys)
    then show False using asym by blast
  qed
  moreover have "x \<notin> set xs" "x \<notin> set zs" using Cons.prems(1,2) \<open>x = y\<close> by (auto simp: ys)
  then have "set xs = set zs" using Cons.prems(3) \<open>x = y\<close> by (auto simp: ys)
  ultimately show ?case using Cons.IH [of zs] Cons.prems(1,2) by (simp add: ys)
qed simp

lemma remdups_adj_sorted:
  "sorted_wrt (\<lambda>p q. better s p q \<or> p = q) xs \<Longrightarrow> sorted_wrt (better s) (remdups_adj xs)"
  by (induction xs rule: remdups_adj.induct) (auto dest: better_trans)

lemma sorted_better_distinct: "sorted_wrt (better s) xs \<Longrightarrow> distinct xs"
  by (induction xs) auto

lemma ladder_keys:
  assumes l: "ladder_shows l A" and wf: "spec_wf cfg A"
  shows "map fst (ladder_side l s) = remdups_adj (map v_price (spec_side A s))"
proof (rule sorted_unique)
  show "agg_sorted s (ladder_side l s)" by (rule ladder_showsD(2) [OF l])
  have "sorted_wrt (\<lambda>r q. better s (v_price r) (v_price q) \<or> v_price r = v_price q) (spec_side A s)"
    by (rule sorted_wrt_mono_rel [of _ "prio s"]) (use wf in \<open>auto simp: spec_wf_def side_wf_def prio_def\<close>)
  then show "sorted_wrt (better s) (remdups_adj (map v_price (spec_side A s)))" by (intro remdups_adj_sorted) (simp add: sorted_wrt_map)
  have "p \<in> fst ` set (ladder_side l s) \<longleftrightarrow> p \<in> v_price ` set (spec_side A s)" for p
  proof -
    have "p \<in> fst ` set (ladder_side l s) \<longleftrightarrow> map_of (ladder_side l s) p \<noteq> None" by (simp add: map_of_eq_None_iff)
    also have "\<dots> \<longleftrightarrow> lvl A s p \<noteq> []" using ladder_showsD(3) [OF l, of s p] by (simp add: agg_of_def)
    finally show ?thesis by (auto simp: lvl_def filter_empty_conv)
  qed
  then show "set (map fst (ladder_side l s)) = set (remdups_adj (map v_price (spec_side A s)))" by (simp add: set_eq_iff)
qed

lemma ladder_depth:
  assumes l: "ladder_shows l A" and wf: "spec_wf cfg A"
  shows "topLevels n (ladder_side l s) = take n (depth (spec_side A s))"
proof -
  let ?ls = "ladder_side l s"
  note keys = ladder_keys [OF assms, of s]
  have "distinct (map fst ?ls)" using sorted_better_distinct ladder_showsD(2) [OF l, of s] by blast
  then have row: "(case z of (p, a) \<Rightarrow> (p, ag_qty a, ag_orders a)) =
      (let ys = filter (\<lambda>r. v_price r = fst z) (spec_side A s) in (fst z, sum_list (map v_remaining ys), of_nat (length ys)))" if "z \<in> set ?ls" for z
  proof -
    have "map_of ?ls (fst z) = Some (snd z)" using that \<open>distinct (map fst ?ls)\<close> by (intro map_of_is_SomeI) simp_all
    then show ?thesis using ladder_showsD(3) [OF l, of s "fst z"] by (cases z) (auto simp: agg_of_def lvl_def Let_def split: if_splits)
  qed
  have "map (\<lambda>(p, a). (p, ag_qty a, ag_orders a)) ?ls = depth (spec_side A s)"
    unfolding depth_def keys [symmetric] map_map comp_def by (rule map_cong [OF refl row])
  then show ?thesis unfolding topLevels_def take_map [symmetric] by simp
qed

section \<open>The client\<close>

lemma md_dispatch_upd: "md_dispatch (c\<lparr>md_decoder := d\<rparr>) m = (md_dispatch c m)\<lparr>md_decoder := d\<rparr>"
  by (cases m) (simp_all add: md_dispatch_def)

lemma foldl_md_dispatch_upd: "foldl md_dispatch (c\<lparr>md_decoder := d\<rparr>) ms = (foldl md_dispatch c ms)\<lparr>md_decoder := d\<rparr>"
  by (induction ms arbitrary: c) (simp_all add: md_dispatch_upd)

lemma md_drain_drains:
  "drain_with fe_next (md_decoder c) = Some (ms, d) \<Longrightarrow> md_drain c = (foldl md_dispatch c ms)\<lparr>md_decoder := d\<rparr>"
proof (induction c arbitrary: ms rule: md_drain.induct)
  case (1 c)
  obtain r d1 where r: "fe_next (md_decoder c) = (r, d1)" by fastforce
  show ?case
  proof (cases r)
    case (Got m)
    then obtain ms1 where m: "drain_with fe_next d1 = Some (ms1, d)" "ms = m # ms1"
      using "1.prems" r by (subst (asm) drain_with.simps) (auto simp: bind_eq_Some_conv)
    have "drain_with fe_next (md_decoder (md_dispatch (c\<lparr>md_decoder := d1\<rparr>) m)) = Some (ms1, d)" using m(1) by simp
    from "1.IH" [OF r [symmetric] Got this] show ?thesis
      by (subst md_drain.simps) (simp add: r Got m(2) md_dispatch_upd foldl_md_dispatch_upd)
  next
    case Wait
    then have "ms = []" "d1 = d" using "1.prems" r by (subst (asm) drain_with.simps; simp)+
    then show ?thesis by (subst md_drain.simps) (simp add: r Wait)
  next
    case Bad
    then show ?thesis using "1.prems" r by (subst (asm) drain_with.simps) simp
  qed
qed

lemma md_reads:
  "receive_with fe_feed fe_next (md_decoder c) reads = Some (ms, d) \<Longrightarrow> foldl md_onRead c reads = (foldl md_dispatch c ms)\<lparr>md_decoder := d\<rparr>"
proof (induction reads arbitrary: c ms)
  case (Cons x xs)
  obtain d1 where f: "fe_feed (md_decoder c) x = (True, d1)" using Cons.prems by (cases "fe_feed (md_decoder c) x") (auto split: if_splits)
  obtain ms1 d2 ms2 where s: "drain_with fe_next d1 = Some (ms1, d2)" "receive_with fe_feed fe_next d2 xs = Some (ms2, d)" "ms = ms1 @ ms2"
    using Cons.prems f by (auto simp: bind_eq_Some_conv)
  have "md_onRead c x = (foldl md_dispatch c ms1)\<lparr>md_decoder := d2\<rparr>"
    using md_drain_drains [of "c\<lparr>md_decoder := d1\<rparr>" ms1 d2] s(1) by (simp add: md_onRead_def f foldl_md_dispatch_upd)
  then show ?case using Cons.IH [of "(foldl md_dispatch c ms1)\<lparr>md_decoder := d2\<rparr>" ms2] s(2,3) by (simp add: foldl_md_dispatch_upd)
qed simp

lemma md_ladder_dispatch:
  assumes "\<forall>m \<in> set ms. instrumentOf m = i" "md_instrumentFilter c \<in> {0, i}"
  shows "md_ladder (foldl md_dispatch c ms) = foldl ladder_msg (md_ladder c) ms \<and> md_connected (foldl md_dispatch c ms) = md_connected c"
  using assms
proof (induction ms arbitrary: c)
  case (Cons m ms)
  have "md_ladder (md_dispatch c m) = ladder_msg (md_ladder c) m" "md_instrumentFilter (md_dispatch c m) = md_instrumentFilter c"
      "md_connected (md_dispatch c m) = md_connected c"
    using Cons.prems by (cases m; auto simp: md_dispatch_def ladder_msg_def)+
  then show ?case using Cons by simp
qed simp

lemma client_shows:
  assumes "\<forall>m \<in> set ms. feed_ok m \<and> instrumentOf m = i" "md_instrumentFilter c \<in> {0, i}" "md_connected c" "md_decoder c = newFeedDecoder"
    "concat reads = concat (map publishMsg ms)" "\<forall>x \<in> set reads. length x \<le> 188"
  shows "md_ladder (foldl md_onRead c reads) = foldl ladder_msg (md_ladder c) ms \<and> md_connected (foldl md_onRead c reads)"
proof -
  have "receive_with fe_feed fe_next newFeedDecoder reads = Some (ms, newFeedDecoder\<lparr>fe_buf := []\<rparr>)"
  proof (rule fe.receive_stream [of newFeedDecoder ms reads])
    show "fe_buf newFeedDecoder @ concat reads = concat (map feed_encode ms)"
      using assms(5) by (simp add: newFeedDecoder_def publishMsg_def [abs_def])
    show "\<forall>c\<in>set reads. length c + (kFrameHeaderSize + kMaxFrame) \<le> feed_kCapacity"
      using assms(6) by (simp add: kFrameHeaderSize_def kMaxFrame_def feed_kCapacity_def)
    show "\<forall>m\<in>set ms. feed_ok m" using assms(1) by blast
  qed (simp_all add: newFeedDecoder_def pending_def)
  from md_reads [of c reads ms, unfolded assms(4), OF this] show ?thesis
    using md_ladder_dispatch [of ms i c] assms(1-3) by simp
qed

section \<open>The messages of a publisher\<close>

fun feedSeqOf :: "DecodedFeedMessage \<Rightarrow> 64 word" where
  "feedSeqOf (FSnapshotStart m) = ss_feedSeq m"
| "feedSeqOf (FSnapshotEnd m) = se_feedSeq m"
| "feedSeqOf (FL3Order m) = l3_feedSeq m"
| "feedSeqOf (FL2Delta m) = l2_feedSeq m"
| "feedSeqOf (FTradeTick m) = tk_feedSeq m"
| "feedSeqOf (FL3Fill m) = lf_feedSeq m"

text \<open>The messages are of one instrument and their numbers go up by one from the publisher's counter to its new value.\<close>

fun numbered :: "InstrumentId \<Rightarrow> 64 word \<Rightarrow> DecodedFeedMessage list \<Rightarrow> bool" where
  "numbered i n [] \<longleftrightarrow> True"
| "numbered i n (m # ms) \<longleftrightarrow> instrumentOf m = i \<and> feedSeqOf m = n + 1 \<and> numbered i (n + 1) ms"

lemma numbered_append: "numbered i n (ms @ ns) \<longleftrightarrow> numbered i n ms \<and> numbered i (n + of_nat (length ms)) ns"
  by (induction ms arbitrary: n) (auto simp: add.assoc)

definition emits :: "Publisher \<Rightarrow> Publisher \<times> DecodedFeedMessage list \<Rightarrow> bool" where
  "emits pb r \<longleftrightarrow> (case r of (pb', ms) \<Rightarrow> numbered (pb_instrumentId pb) (pb_feedSeq pb) ms \<and>
     pb_instrumentId pb' = pb_instrumentId pb \<and> pb_feedSeq pb' = pb_feedSeq pb + of_nat (length ms))"

lemma diffLevel_emits: "emits pb (diffLevel pb s p)"
  by (simp add: emits_def diffLevel_def nextFeedSeq_def Let_def)

lemma publishRested_emits: "emits pb (publishRested pb zs)"
proof (induction pb zs rule: publishRested.induct)
  case (2 pb side x xs)
  then show ?case by (auto simp: emits_def nextFeedSeq_def restedMsg_def add.assoc split: prod.splits)
qed (simp add: emits_def)

lemma applyAndPublish_emits: "emits pb (applyAndPublish pb ev)"
proof -
  let ?pb = "pb\<lparr>pb_mirror := mirror_apply (pb_mirror pb) ev\<rparr>"
  have "emits pb (publishTrade ?pb t)" for t
    using diffLevel_emits [of "?pb\<lparr>pb_feedSeq := pb_feedSeq pb + 1 + 1\<rparr>" "opposite (t_aggressorSide t)" "t_price t"]
    by (auto simp: emits_def publishTrade_def nextFeedSeq_def Let_def add.assoc split: prod.splits)
  moreover have "emits pb (publishUpdate ?pb ev u)" for u
    using diffLevel_emits [of "?pb\<lparr>pb_feedSeq := pb_feedSeq pb + 1\<rparr>" "e_side ev" "u_price u"]
    by (auto simp: emits_def publishUpdate_def nextFeedSeq_def Let_def add.assoc split: prod.splits option.splits)
  ultimately show ?thesis by (auto simp: applyAndPublish_def Let_def split: OutboundPayload.splits) (simp add: emits_def)
qed

lemma seedLevelTotals_keeps: "pb_feedSeq (seedLevelTotals pb) = pb_feedSeq pb" "pb_instrumentId (seedLevelTotals pb) = pb_instrumentId pb"
proof -
  let ?f = "\<lambda>pb (side, x). set_totals pb side ((totals_of pb side)(m_price x \<mapsto> levelTotal (pb_mirror pb) side (m_price x)))"
  have "pb_feedSeq (foldl ?f pb zs) = pb_feedSeq pb \<and> pb_instrumentId (foldl ?f pb zs) = pb_instrumentId pb" for zs
    by (induction zs arbitrary: pb) (auto split: prod.splits)
  from this [of "forEachOrder (pb_mirror pb)"]
  show "pb_feedSeq (seedLevelTotals pb) = pb_feedSeq pb" "pb_instrumentId (seedLevelTotals pb) = pb_instrumentId pb" by (simp_all add: seedLevelTotals_def)
qed

lemma resync_emits: "emits pb (resync source pb)"
proof -
  define pb1 where "pb1 = pb\<lparr>pb_mirror := (case source of None \<Rightarrow> mirror_clear (pb_mirror pb) | Some f \<Rightarrow> f (mirror_clear (pb_mirror pb))),
    pb_bidTotals := Map.empty, pb_askTotals := Map.empty, pb_feedSeq := pb_feedSeq pb + 1\<rparr>"
  obtain pb3 orders where p: "publishRested pb1 (forEachOrder (pb_mirror pb1)) = (pb3, orders)" by fastforce
  have "emits pb1 (pb3, orders)" using publishRested_emits [of pb1] p by metis
  then show ?thesis using p unfolding resync_def pb1_def emits_def
    by (auto simp: nextFeedSeq_def Let_def seedLevelTotals_keeps numbered_append add.assoc split: prod.splits)
qed

lemma pump_emits: "pump source pb ps = (n, pb', ms) \<Longrightarrow> emits pb (pb', ms) \<and> n = length ps"
proof (induction source pb ps arbitrary: n ms rule: pump.induct)
  case (2 source pb ps)
  obtain pb1 ms1 where r: "resync source pb = (pb1, ms1)" by fastforce
  obtain k ms2 where q: "pump source pb1 ps = (k, pb', ms2)" "ms = ms1 @ ms2" "n = Suc k" using "2.prems" r by (auto split: prod.splits)
  show ?case using "2.IH" [OF r [symmetric] refl q(1)] resync_emits [of pb source] r q(2,3) by (auto simp: emits_def numbered_append)
next
  case (3 source pb ev ps)
  obtain pb1 ms1 where r: "applyAndPublish pb ev = (pb1, ms1)" by fastforce
  obtain k ms2 where q: "pump source pb1 ps = (k, pb', ms2)" "ms = ms1 @ ms2" "n = Suc k" using "3.prems" r by (auto split: prod.splits)
  show ?case using "3.IH" [OF r [symmetric] refl q(1)] applyAndPublish_emits [of pb ev] r q(2,3) by (auto simp: emits_def numbered_append)
qed (simp add: emits_def)

lemma burst_numbered: "numbered i 0 (emitSnapshotBurst i M)"
proof -
  have "numbered i n (burstRested i n zs) \<and> length (burstRested i n zs) = length zs" for n zs
    by (induction i n zs rule: burstRested.induct) (simp_all add: restedMsg_def)
  then show ?thesis by (simp add: emitSnapshotBurst_def Let_def numbered_append)
qed

lemma numbered_instrument: "numbered i n ms \<Longrightarrow> m \<in> set ms \<Longrightarrow> instrumentOf m = i"
  by (induction ms arbitrary: n) auto

end
