(* ===== verification/Publisher_Properties.thy ===== *)
theory Publisher_Properties
  imports Publisher_Client
begin

text \<open>
  The properties of the market-data path from the matching thread to the ladder of a subscriber.
\<close>

lemma adispatch_trade_count:
  assumes wf: "spec_wf cfg A" and ad: "adispatch cfg A sq cmd = (A', es)"
  shows "sp_nextTradeId A' \<le> sp_nextTradeId A + int (cfg_maxOrders cfg)"
proof -
  have sub: "sp_nextTradeId B' \<le> sp_nextTradeId B + int (cfg_maxOrders cfg)" if "spec_wf cfg B" "asubmit cfg B ord = (r, B', ts, vs)" for B B' ord r ts vs
    using that(2) asubmit_lengths(1) [OF that(2)] that(1) by (cases rule: asubmit_cases) (auto simp: spec_wf_def)
  have nt: "sp_nextTradeId (drop_order A k) = sp_nextTradeId A" for k by (simp add: drop_order_def)
  show ?thesis
  proof (cases "c_kind cmd")
    case New
    then show ?thesis using ad sub [OF wf] by (auto simp: adispatch_def split: prod.splits)
  next
    case Cancel
    then show ?thesis using ad nt by (auto simp: adispatch_def acancel_def split: prod.splits option.splits)
  next
    case Replace
    then show ?thesis using ad sub [OF wf] sub [OF drop_order_wf [OF wf]] nt
      by (fastforce simp: adispatch_def areplace_def acancel_def split: prod.splits option.splits)
  qed
qed

lemma run_trade_count:
  "mt_inv mt \<Longrightarrow> \<forall>c \<in> set cs. cmd_ok (ob_cfg (mt_book mt)) c \<Longrightarrow> run_with dispatch mt cs = Some (mt', es) \<Longrightarrow>
   ob_nextTradeId (mt_book mt') \<le> ob_nextTradeId (mt_book mt) + int (length cs) * int (cfg_maxOrders (ob_cfg (mt_book mt)))"
proof (induction cs arbitrary: mt es)
  case (Cons c cs)
  obtain mt1 es1 es2 where s: "dispatch mt c = Some (mt1, es1)" "run_with dispatch mt1 cs = Some (mt', es2)" using Cons.prems(3) by (auto simp: bind_eq_Some_conv)
  have c: "cmd_ok (ob_cfg (mt_book mt)) c" using Cons.prems(2) by simp
  have d: "mt_inv mt1" "ob_cfg (mt_book mt1) = ob_cfg (mt_book mt)" "astep_mt (mt_abs mt) c = (mt_abs mt1, es1)"
    using dispatch_step [OF Cons.prems(1) c] s(1) by auto
  have "adispatch (ob_cfg (mt_book mt)) (absb (mt_book mt)) (mt_dispatchSeq mt + 1) c = (absb (mt_book mt1), es1)"
    using d(3) by (auto simp: astep_mt_def mt_abs_def split: prod.splits)
  from adispatch_trade_count [OF book_invD(2) [OF mt_invD(1) [OF Cons.prems(1)]] this]
  have "ob_nextTradeId (mt_book mt1) \<le> ob_nextTradeId (mt_book mt) + int (cfg_maxOrders (ob_cfg (mt_book mt)))" by simp
  moreover have "ob_nextTradeId (mt_book mt') \<le> ob_nextTradeId (mt_book mt1) + int (length cs) * int (cfg_maxOrders (ob_cfg (mt_book mt)))"
    using Cons.IH [OF d(1) _ s(2)] Cons.prems(2) d(2) by simp
  ultimately show ?case by (simp add: algebra_simps)
qed simp

lemma snapshot_orders_member:
  "snapshot_orders i zs ms \<Longrightarrow> m \<in> set ms \<Longrightarrow> \<exists>s x n. (s, x) \<in> set zs \<and> m = restedMsg i n s x"
  unfolding snapshot_orders_def by (induction rule: list_all2_induct) auto

lemma snapshot_orders_fit:
  assumes "mirror_rep M A" "fits_book A" "snapshot_orders i (forEachOrder M) ms"
  shows "\<forall>m \<in> set ms. feed_ok m"
proof
  fix m assume "m \<in> set ms"
  then obtain s x n where m: "(s, x) \<in> set (forEachOrder M)" "m = restedMsg i n s x"
    using snapshot_orders_member [OF assms(3)] by blast
  then obtain r where "x = mirror_of r" "r \<in> set (spec_side A s)" by (auto simp: forEachOrder_rep [OF assms(1)] spec_side_def)
  then show "feed_ok m" using fits_bookD [OF assms(2), of r s] m(2) by (simp add: restedMsg_def fits_order_def mirror_of_def)
qed

lemma burst_fits: "mirror_rep M A \<Longrightarrow> fits_book A \<Longrightarrow> \<forall>m \<in> set (emitSnapshotBurst i M). feed_ok m"
  using snapshot_orders_fit [OF _ _ burstRested_orders] by (auto simp: emitSnapshotBurst_def Let_def)

lemma resync_fits:
  assumes "mirror_rep (f (mirror_clear (pb_mirror pb))) A" "fits_book A" "resync (Some f) pb = (pb', ms)"
  shows "\<forall>m \<in> set ms. feed_ok m"
proof -
  define pb1 where "pb1 = pb\<lparr>pb_mirror := f (mirror_clear (pb_mirror pb)), pb_bidTotals := Map.empty, pb_askTotals := Map.empty, pb_feedSeq := pb_feedSeq pb + 1\<rparr>"
  obtain pb3 orders where p: "publishRested pb1 (forEachOrder (pb_mirror pb1)) = (pb3, orders)" by fastforce
  have "mirror_rep (pb_mirror pb1) A" using assms(1) by (simp add: pb1_def)
  from snapshot_orders_fit [OF this assms(2) publishRested_orders [OF p]] show ?thesis
    using assms(3) p by (auto simp: resync_def nextFeedSeq_def Let_def pb1_def split: prod.splits)
qed

lemma published_new: "cfg_ok cfg \<Longrightarrow> published (newPublisher i) emptyLadder (absb (mt_book (newMatchingThread cfg)))"
proof -
  assume c: "cfg_ok cfg"
  have "lvl (absb (mt_book (newMatchingThread cfg))) s p = []" for s p
    using newOrderBook_ok [OF c] by (simp add: newMatchingThread_def lvl_def spec_side_def)
  then show ?thesis using tracksD(4) [OF tracks_new [OF c, of 0]]
    by (auto simp: published_def newPublisher_def totals_ok_def totals_of_def ladder_shows_def emptyLadder_def ladder_side_def agg_of_def split: Side.split)
qed

lemma run_tracks:
  assumes "feed_cfg cfg Q" "\<forall>c \<in> set cs. feed_cmd cfg Q c" "int (length cs) * int (cfg_maxOrders cfg) < 2 ^ 63"
    "run_with dispatch (newMatchingThread cfg) cs = Some (mt, es)" "pump source (newPublisher i) (map PeekOk es) = (n, pb, ms)"
  shows "tracks cfg Q (pb_mirror pb) mt \<and> published pb (foldl ladder_msg emptyLadder ms) (absb (mt_book mt)) \<and> pb_instrumentId pb = i \<and>
    ob_nextTradeId (mt_book mt) \<le> int (length cs) * int (cfg_maxOrders cfg)"
proof -
  have C: "cfg_ok cfg" "0 \<le> Q" using assms(1) by (simp_all add: feed_cfg_def)
  note T = tracks_new [OF C]
  have z: "ob_nextTradeId (mt_book (newMatchingThread cfg)) = 0" using newOrderBook_ok [OF C(1)] by (simp add: newMatchingThread_def flip: absb_counters)
  have b: "ob_nextTradeId (mt_book mt) \<le> int (length cs) * int (cfg_maxOrders cfg)"
    using run_trade_count [OF tracksD(1) [OF T] _ assms(4)] assms(2) tracksD(2) [OF T] z by (simp add: feed_cmd_def)
  then have "ob_nextTradeId (mt_book mt) < 2 ^ 63" using assms(3) by (rule order.strict_trans1)
  moreover have "tracks cfg Q (pb_mirror (newPublisher i)) (newMatchingThread cfg)" using T by (simp add: newPublisher_def)
  ultimately show ?thesis using run_published [OF _ assms(1,2,4) _ published_new [OF C(1)] assms(5)] pump_keeps [OF assms(5)] b by (simp add: newPublisher_def)
qed

lemma run_two_parts:
  assumes cfg: "feed_cfg cfg Q" and cs: "\<forall>c \<in> set (cs1 @ cs2). feed_cmd cfg Q c" and few: "int (length (cs1 @ cs2)) * int (cfg_maxOrders cfg) < 2 ^ 63"
    and run1: "run_with dispatch (newMatchingThread cfg) cs1 = Some (mt1, es1)" and run2: "run_with dispatch mt1 cs2 = Some (mt2, es2)"
    and pb1: "pump source (newPublisher i) (map PeekOk es1) = (n1, pb1, ms1)"
  shows "tracks cfg Q (pb_mirror pb1) mt1" "published pb1 (foldl ladder_msg emptyLadder ms1) (absb (mt_book mt1))" "pb_instrumentId pb1 = i"
    "\<forall>c \<in> set cs2. feed_cmd cfg Q c" "ob_nextTradeId (mt_book mt2) < 2 ^ 63"
proof -
  have "int (length cs1) * int (cfg_maxOrders cfg) \<le> int (length (cs1 @ cs2)) * int (cfg_maxOrders cfg)" by (intro mult_right_mono) auto
  then have few1: "int (length cs1) * int (cfg_maxOrders cfg) < 2 ^ 63" using few by (rule order.strict_trans1)
  have c1: "\<forall>c \<in> set cs1. feed_cmd cfg Q c" using cs by auto
  show c2: "\<forall>c \<in> set cs2. feed_cmd cfg Q c" using cs by auto
  note T1 = run_tracks [OF cfg c1 few1 run1 pb1]
  then show tr1: "tracks cfg Q (pb_mirror pb1) mt1" and "published pb1 (foldl ladder_msg emptyLadder ms1) (absb (mt_book mt1))" "pb_instrumentId pb1 = i" by auto
  have "ob_nextTradeId (mt_book mt2) \<le> int (length (cs1 @ cs2)) * int (cfg_maxOrders cfg)"
    using run_trade_count [OF tracksD(1) [OF tr1] _ run2] tracksD(2) [OF tr1] c2 T1 by (simp add: feed_cmd_def algebra_simps)
  then show "ob_nextTradeId (mt_book mt2) < 2 ^ 63" using few by (rule order.strict_trans1)
qed

lemma ladder_side_tops:
  "topBids l k = topLevels k (ladder_side l Buy)" "topAsks l k = topLevels k (ladder_side l Sell)" "sp_bids A = spec_side A Buy" "sp_asks A = spec_side A Sell"
  by (simp_all add: topBids_def topAsks_def ladder_side_def spec_side_def)

text \<open>
  C15: A subscriber sees the book. Take a book of at most 1024 orders and commands with limit prices on the tick grid and quantities so
  bounded that no level total overflows, let a client connect after the first part of them, with whatever ladder it has left from earlier, and get the snapshot burst and then the frames the publisher sends for the
  rest, cut into reads of at most 188 bytes in any way. Then the client is still connected and both sides of its ladder are the
  depth of the engine's book: every price with a resting order, best first, with the open quantity and the number of orders there.
\<close>

theorem subscriber_sees_book:
  assumes cfg: "feed_cfg cfg Q" and cs: "\<forall>c \<in> set (cs1 @ cs2). feed_cmd cfg Q c" and few: "int (length (cs1 @ cs2)) * int (cfg_maxOrders cfg) < 2 ^ 63"
    and run1: "run_with dispatch (newMatchingThread cfg) cs1 = Some (mt1, es1)" and run2: "run_with dispatch mt1 cs2 = Some (mt2, es2)"
    and pb1: "pump source (newPublisher i) (map PeekOk es1) = (n1, pb1, ms1)" and pb2: "pump source pb1 (map PeekOk es2) = (n2, pb2, ms2)"
    and c: "md_instrumentFilter c \<in> {0, i}" and reads: "concat reads = concat (map publishMsg (emitSnapshotBurst i (pb_mirror pb1) @ ms2))" "\<forall>x \<in> set reads. length x \<le> 188"
  shows "let c' = foldl md_onRead (onConnected c) reads; A = absb (mt_book mt2) in
    md_connected c' \<and> topBids (md_ladder c') k = take k (depth (sp_bids A)) \<and> topAsks (md_ladder c') k = take k (depth (sp_asks A))"
proof -
  note R = run_two_parts [OF cfg cs few run1 run2 pb1] and T = tracksD [OF R(1)]
  let ?b = "emitSnapshotBurst i (pb_mirror pb1)" and ?l0 = "md_ladder (onConnected c)"
  have l1: "published pb1 (foldl ladder_msg ?l0 ?b) (absb (mt_book mt1))" using R(2) burst_shows [OF T(4) T(6) [OF cfg]] by (simp add: published_def)
  from run_published [OF R(1) cfg R(4) run2 R(5) l1 pb2]
  have P: "published pb2 (foldl ladder_msg ?l0 (?b @ ms2)) (absb (mt_book mt2))" "\<forall>m \<in> set ms2. feed_ok m" "tracks cfg Q (pb_mirror pb2) mt2" by simp_all
  have "\<forall>m \<in> set (?b @ ms2). feed_ok m \<and> instrumentOf m = i"
    using P(2) burst_fits [OF T(4,7)] numbered_instrument [OF burst_numbered] pump_emits [OF pb2] numbered_instrument [of i] R(3)
    by (auto simp: emits_def)
  from client_shows [OF this, of "onConnected c" reads] c reads
  have C: "md_ladder (foldl md_onRead (onConnected c) reads) = foldl ladder_msg ?l0 (?b @ ms2)" "md_connected (foldl md_onRead (onConnected c) reads)"
    by (simp_all add: onConnected_def)
  have "ladder_shows (foldl ladder_msg ?l0 (?b @ ms2)) (absb (mt_book mt2))" using P(1) by (simp only: published_def)
  from ladder_depth [OF this tracksD(5) [OF P(3)]] show ?thesis using C(2) unfolding Let_def C(1) ladder_side_tops by blast
qed

lemma demo_feed_cfg: "feed_cfg demo_cfg 1000"
  by (simp add: feed_cfg_def demo_cfg_ok) (simp add: demo_cfg_def kTradeBufCapacity_def)

lemma demo_feed_cmd: "oid \<in> {1 .. 1000} \<Longrightarrow> p \<in> {1 .. 1000} \<Longrightarrow> q \<in> {1 .. 1000} \<Longrightarrow> feed_cmd demo_cfg 1000 (demo_cmd k oid p q s)"
  by (simp add: feed_cmd_def demo_cmd_ok cmd_fits_def in_i64_def) (simp add: demo_cmd_def)

abbreviation bytewise :: "byte list \<Rightarrow> byte list list" where
  "bytewise \<equiv> map (\<lambda>x. [x])"

lemma bytewise_reads: "concat (bytewise xs) = xs" "\<forall>x \<in> set (bytewise xs). length x \<le> 188"
  by (induction xs) simp_all

abbreviation demo_cs1 :: "Command list" where
  "demo_cs1 \<equiv> [demo_cmd New 1 101 5 Sell, demo_cmd New 2 100 3 Buy]"

abbreviation demo_cs2 :: "Command list" where
  "demo_cs2 \<equiv> [demo_cmd New 3 101 2 Buy]"

lemma demo_feed_cmds: "\<forall>c \<in> set (demo_cs1 @ demo_cs2). feed_cmd demo_cfg 1000 c" "int (length (demo_cs1 @ demo_cs2)) * int (cfg_maxOrders demo_cfg) < 2 ^ 63"
  by (simp add: demo_feed_cmd) (simp add: demo_cfg_def)

lemma demo_feed_run:
  obtains mt1 es1 mt2 es2 where "run_with dispatch (newMatchingThread demo_cfg) demo_cs1 = Some (mt1, es1)" "run_with dispatch mt1 demo_cs2 = Some (mt2, es2)"
proof -
  obtain a es where 1: "dispatch (newMatchingThread demo_cfg) (demo_cmd New 1 101 5 Sell) = Some (a, es)" "mt_inv a" "ob_cfg (mt_book a) = demo_cfg"
    using dispatch_step [OF demo_thread(1), of "demo_cmd New 1 101 5 Sell"] demo_cmd_ok demo_thread(2) by auto
  obtain b fs where 2: "dispatch a (demo_cmd New 2 100 3 Buy) = Some (b, fs)" "mt_inv b" "ob_cfg (mt_book b) = demo_cfg"
    using dispatch_step [OF 1(2), of "demo_cmd New 2 100 3 Buy"] demo_cmd_ok 1(3) by auto
  obtain c gs where 3: "dispatch b (demo_cmd New 3 101 2 Buy) = Some (c, gs)"
    using dispatch_step [OF 2(2), of "demo_cmd New 3 101 2 Buy"] demo_cmd_ok 2(3) by auto
  show ?thesis by (rule that [of b "es @ fs" c gs]) (use 1 2 3 in simp_all)
qed

theorem subscriber_sees_book_witness:
  "\<exists>mt1 es1 mt2 es2 n1 pb1 ms1 n2 pb2 ms2.
     run_with dispatch (newMatchingThread demo_cfg) demo_cs1 = Some (mt1, es1) \<and> run_with dispatch mt1 demo_cs2 = Some (mt2, es2) \<and>
     pump None (newPublisher 7) (map PeekOk es1) = (n1, pb1, ms1) \<and> pump None pb1 (map PeekOk es2) = (n2, pb2, ms2) \<and>
     topBids (md_ladder (foldl md_onRead (onConnected (newMdClient 7)) (bytewise (concat (map publishMsg (emitSnapshotBurst 7 (pb_mirror pb1) @ ms2)))))) 10 =
       take 10 (depth (sp_bids (absb (mt_book mt2))))"
proof -
  obtain mt1 es1 mt2 es2 where r: "run_with dispatch (newMatchingThread demo_cfg) demo_cs1 = Some (mt1, es1)" "run_with dispatch mt1 demo_cs2 = Some (mt2, es2)"
    by (rule demo_feed_run)
  obtain n1 pb1 ms1 where p1: "pump None (newPublisher 7) (map PeekOk es1) = (n1, pb1, ms1)" by (cases "pump None (newPublisher 7) (map PeekOk es1)")
  obtain n2 pb2 ms2 where p2: "pump None pb1 (map PeekOk es2) = (n2, pb2, ms2)" by (cases "pump None pb1 (map PeekOk es2)")
  have "md_instrumentFilter (newMdClient 7) \<in> {0, 7}" by (simp add: newMdClient_def)
  note subscriber_sees_book [OF demo_feed_cfg demo_feed_cmds r p1 p2 this bytewise_reads, of 10, unfolded Let_def]
  then show ?thesis by (intro exI conjI) (rule r p1 p2 | elim conjE, assumption)+
qed

text \<open>
  C16: After a lap the feed recovers. Take a book of at most 1024 orders, whose trades and victims thus fit the buffers of the matching
  thread, and commands with limit prices on the tick grid and quantities so bounded that no level total overflows, and not so many
  that a counter could. Whatever the
  publisher and its totals held, when the publisher is lapped and rebuilds its mirror from the book as it stands, and then reads the
  events of exactly the commands that follow, a connected client with an empty decoder, whatever its ladder, that reads these frames in
  pieces of at most 188 bytes ends with the depth of the engine's book.
\<close>

theorem lapped_feed_recovers:
  assumes cfg: "feed_cfg cfg Q" and cs: "\<forall>c \<in> set (cs1 @ cs2). feed_cmd cfg Q c" and few: "int (length (cs1 @ cs2)) * int (cfg_maxOrders cfg) < 2 ^ 63"
    and run1: "run_with dispatch (newMatchingThread cfg) cs1 = Some (mt1, es1)" and run2: "run_with dispatch mt1 cs2 = Some (mt2, es2)"
    and pm: "pump (Some (\<lambda>M. the (loadMirrorFromBook (mt_book mt1) M))) pb (PeekLapped # map PeekOk es2) = (n, pb', ms)"
    and c: "md_instrumentFilter c \<in> {0, pb_instrumentId pb}" "md_connected c" "md_decoder c = newFeedDecoder"
    and reads: "concat reads = concat (map publishMsg ms)" "\<forall>x \<in> set reads. length x \<le> 188"
  shows "let c' = foldl md_onRead c reads; A = absb (mt_book mt2) in
    topBids (md_ladder c') k = take k (depth (sp_bids A)) \<and> topAsks (md_ladder c') k = take k (depth (sp_asks A))"
proof -
  obtain n0 pb0 ms0 where p0: "pump None (newPublisher 0) (map PeekOk es1) = (n0, pb0, ms0)" by (cases "pump None (newPublisher 0) (map PeekOk es1)")
  note R = run_two_parts [OF cfg cs few run1 run2 p0] and T = tracksD [OF R(1)]
  let ?f = "\<lambda>M. the (loadMirrorFromBook (mt_book mt1) M)"
  have "0 \<le> ob_seq (mt_book mt1)" using T(3) by (simp add: mirror_sync_def)
  from loadMirrorFromBook_sync [OF mt_invD(1) [OF T(1)] this]
  have sync: "mirror_sync (?f M) (absb (mt_book mt1))" for M by (metis option.sel)
  then have rep: "mirror_rep (?f M) (absb (mt_book mt1))" for M by (simp add: mirror_sync_def)
  obtain pb1 ms1 where rs: "resync (Some ?f) pb = (pb1, ms1)" by fastforce
  obtain n2 ms2 where pm2: "pump (Some ?f) pb1 (map PeekOk es2) = (n2, pb', ms2)" "ms = ms1 @ ms2" using pm rs by (auto split: prod.splits)
  have tr1: "tracks cfg Q (pb_mirror pb1) mt1" using R(1) sync resync_shows(2) [OF rep T(6) [OF cfg] rs] by (simp add: tracks_def)
  from run_published [OF tr1 cfg R(4) run2 R(5) resync_shows(1) [OF rep T(6) [OF cfg] rs, of "md_ladder c"] pm2(1)]
  have P: "published pb' (foldl ladder_msg (md_ladder c) ms) (absb (mt_book mt2))" "\<forall>m \<in> set ms2. feed_ok m" "tracks cfg Q (pb_mirror pb') mt2" using pm2(2) by simp_all
  have "\<forall>m \<in> set ms. feed_ok m \<and> instrumentOf m = pb_instrumentId pb"
    using P(2) resync_fits [OF rep T(7) rs] pump_emits [OF pm] numbered_instrument [of "pb_instrumentId pb"] pm2(2)
    by (auto simp: emits_def)
  from client_shows [OF this c reads] have C: "md_ladder (foldl md_onRead c reads) = foldl ladder_msg (md_ladder c) ms" by simp
  have "ladder_shows (foldl ladder_msg (md_ladder c) ms) (absb (mt_book mt2))" using P(1) by (simp only: published_def)
  from ladder_depth [OF this tracksD(5) [OF P(3)]] show ?thesis unfolding Let_def C ladder_side_tops by blast
qed

theorem lapped_feed_recovers_witness:
  "\<exists>mt1 es1 mt2 es2 n pb ms.
     run_with dispatch (newMatchingThread demo_cfg) demo_cs1 = Some (mt1, es1) \<and> run_with dispatch mt1 demo_cs2 = Some (mt2, es2) \<and>
     pump (Some (\<lambda>M. the (loadMirrorFromBook (mt_book mt1) M))) (newPublisher 7) (PeekLapped # map PeekOk es2) = (n, pb, ms) \<and>
     topAsks (md_ladder (foldl md_onRead (onConnected (newMdClient 7)) (bytewise (concat (map publishMsg ms))))) 10 = take 10 (depth (sp_asks (absb (mt_book mt2))))"
proof -
  obtain mt1 es1 mt2 es2 where r: "run_with dispatch (newMatchingThread demo_cfg) demo_cs1 = Some (mt1, es1)" "run_with dispatch mt1 demo_cs2 = Some (mt2, es2)"
    by (rule demo_feed_run)
  obtain n pb ms where p: "pump (Some (\<lambda>M. the (loadMirrorFromBook (mt_book mt1) M))) (newPublisher 7) (PeekLapped # map PeekOk es2) = (n, pb, ms)"
    by (cases "pump (Some (\<lambda>M. the (loadMirrorFromBook (mt_book mt1) M))) (newPublisher 7) (PeekLapped # map PeekOk es2)")
  have "md_instrumentFilter (onConnected (newMdClient 7)) \<in> {0, pb_instrumentId (newPublisher 7)}" "md_connected (onConnected (newMdClient 7))"
    "md_decoder (onConnected (newMdClient 7)) = newFeedDecoder" by (simp_all add: newMdClient_def onConnected_def newPublisher_def)
  note lapped_feed_recovers [OF demo_feed_cfg demo_feed_cmds r p this bytewise_reads, of 10, unfolded Let_def]
  then show ?thesis by (intro exI conjI) (rule r p | elim conjE, assumption)+
qed

text \<open>
  C23: The feed has no gaps. Whatever the publisher reads from the ring, events and laps, it counts each of them once, its messages
  are of its own instrument and carry consecutive sequence numbers that go on from its counter.
\<close>

theorem feed_numbers_consecutive:
  "case pump source pb ps of (n, pb', ms) \<Rightarrow>
     n = length ps \<and> map instrumentOf ms = replicate (length ms) (pb_instrumentId pb) \<and>
     map feedSeqOf ms = map (\<lambda>k. pb_feedSeq pb + of_nat (Suc k)) [0..<length ms] \<and> pb_feedSeq pb' = pb_feedSeq pb + of_nat (length ms)"
proof -
  obtain n pb' ms where p: "pump source pb ps = (n, pb', ms)" by (cases "pump source pb ps")
  have "instrumentOf (ms ! k) = i \<and> feedSeqOf (ms ! k) = a + of_nat (Suc k)" if "numbered i a ms" "k < length ms" for i a k
    using that
  proof (induction ms arbitrary: a k)
    case (Cons m ms)
    show ?case using Cons by (cases k) (auto simp: algebra_simps)
  qed simp
  then show ?thesis using pump_emits [OF p] by (auto simp: p emits_def intro!: nth_equalityI)
qed

text \<open>
  C22: The digest of the mirror is the digest of the engine: for every run over a book of at most 1024 orders, with every limit price on
  the tick grid, a consumer that folds the outbound events into a mirror computes the same last sequence number, trade counter,
  order count and checksum as the recovery code computes from the book. A larger book can make more trades in one command than the
  thread publishes.
\<close>

theorem mirror_digest_matches:
  assumes "cfg_ok cfg" "cfg_maxOrders cfg \<le> kTradeBufCapacity" "\<forall>c \<in> set cmds. cmd_ok cfg c"
    "run_with dispatch (newMatchingThread cfg) cmds = Some (mt, es)"
  shows "computeDigest (mt_book mt) = Some (digestOf (foldl mirror_apply emptyMirror es))"
proof -
  let ?M = "foldl mirror_apply emptyMirror es" and ?A = "absb (mt_book mt)"
  have cfg: "ob_cfg (mt_book (newMatchingThread cfg)) = cfg" using newOrderBook_ok [OF assms(1)] by (simp add: newMatchingThread_def)
  have sync: "mirror_sync ?M ?A"
    by (rule run_sync [OF newMatchingThread_inv [OF assms(1)] _ _ assms(4) emptyMirror_sync [OF assms(1)]]) (use assms cfg in simp_all)
  then have rep: "mirror_rep ?M ?A" by (simp add: mirror_sync_def)
  have "mt_inv mt" using mt.run_total [OF newMatchingThread_inv [OF assms(1)], of cmds] assms(3,4) cfg by auto
  then have "computeDigest (mt_book mt) = Some (adigest ?A)" by (intro computeDigest_absb book_invD(1) mt_invD(1))
  moreover have "mirrorRecord s (mirror_of r) = record_of r" if "r \<in> set (spec_side ?A s)" for s r
    using mirror_repD(1) [OF rep] that by (auto simp: mirrorRecord_def record_of_def mirror_of_def ids_wf_def)
  then have "map (\<lambda>(side, x). encodeOrderRecord (mirrorRecord side x)) (forEachOrder ?M) = map (encodeOrderRecord \<circ> record_of) (spec_orders ?A)"
    by (simp add: forEachOrder_rep [OF rep] spec_orders_def spec_side_def)
  ultimately show ?thesis
    using sync restingOrders_rep [OF rep] by (simp add: digestOf_def adigest_def Let_def mirror_sync_def)
qed

theorem mirror_digest_matches_witness:
  "\<exists>mt es. run_with dispatch (newMatchingThread demo_cfg) demo_cs1 = Some (mt, es) \<and> computeDigest (mt_book mt) = Some (digestOf (foldl mirror_apply emptyMirror es))"
proof -
  obtain mt es where r: "run_with dispatch (newMatchingThread demo_cfg) demo_cs1 = Some (mt, es)" using demo_feed_run by metis
  have "cfg_maxOrders demo_cfg \<le> kTradeBufCapacity" by (simp add: demo_cfg_def kTradeBufCapacity_def)
  from mirror_digest_matches [OF demo_cfg_ok this _ r] show ?thesis using r demo_cmd_ok by auto
qed

text \<open>
  C24: A snapshot burst that arrives in one read breaks the connection: the client reads up to 4096 bytes at a time into a decoder that
  holds 256, and the burst of a book with four or more resting orders is longer than that.
\<close>

theorem burst_in_one_read_fails:
  assumes "4 \<le> length (forEachOrder M)"
  shows "\<not> md_connected (md_onRead (onConnected c) (concat (map publishMsg (emitSnapshotBurst i M))))"
proof -
  have "length (concat (map publishMsg (burstRested i n zs))) = 59 * length zs" for n zs
    by (induction i n zs rule: burstRested.induct) (simp_all add: publishMsg_def restedMsg_def feed_encoder_defs feed_writeHeader_same)
  then have "length (concat (map publishMsg (emitSnapshotBurst i M))) = 46 + 59 * length (forEachOrder M)"
    by (simp add: emitSnapshotBurst_def Let_def publishMsg_def feed_encoder_defs feed_writeHeader_same)
  then have "256 < length (concat (map publishMsg (emitSnapshotBurst i M)))" using assms by simp
  then show ?thesis by (simp add: md_onRead_def fe_feed_def onConnected_def newFeedDecoder_def feed_kCapacity_def md_fail_def Let_def split: prod.split)
qed

definition demo_mirror :: BookMirror where
  "demo_mirror = foldl (\<lambda>M k. applyOrderUpdate M Rested Buy \<lparr>u_orderId = k, u_price = 100 - k, u_quantity = 5, u_remaining = 5, u_participant = 1, u_seq = k\<rparr>)
     emptyMirror [1, 2, 3, 4]"

theorem burst_in_one_read_fails_witness:
  "4 \<le> length (forEachOrder demo_mirror) \<and> \<not> md_connected (md_onRead (onConnected (newMdClient 7)) (concat (map publishMsg (emitSnapshotBurst 7 demo_mirror))))"
proof -
  have "4 \<le> length (forEachOrder demo_mirror)" by code_simp
  then show ?thesis using burst_in_one_read_fails by blast
qed

lemma levels_push_lookup:
  "levels_wf s ls \<Longrightarrow> map_of (levels_push s ls p x) p = Some ((case map_of ls p of None \<Rightarrow> [] | Some xs \<Rightarrow> xs) @ [x])"
proof (induction s ls p x rule: levels_push.induct)
  case (2 s q xs ls p x)
  have "map_of ls p = None" if "better s p q"
    using "2.prems" better_trans [OF that, of p] by (force simp: map_of_eq_None_iff)
  then show ?case using 2 by auto
qed simp

text \<open>
  C25: Resynchronising from a book that is ahead of the ring counts orders twice. If an order that came to rest after the lap is already in
  the book the publisher loads, its event is still in the ring, and when the publisher gets to it the level's total has the order twice.
\<close>

theorem resync_counts_twice:
  assumes rep: "mirror_rep (f (mirror_clear (pb_mirror pb))) A" and sm: "small A" and r: "r \<in> set (spec_side A s)"
    and pm: "pump (Some f) pb [PeekLapped, PeekOk (orderUpdateEvent Rested s (victimUpdate r) sq Ok)] = (n, pb', ms)"
    and fit: "qty_at A s (v_price r) + v_remaining r < 2 ^ 63"
  shows "levelTotal (pb_mirror pb') s (v_price r) = qty_at A s (v_price r) + v_remaining r"
proof -
  let ?M = "f (mirror_clear (pb_mirror pb))"
  obtain pb1 ms1 where rs: "resync (Some f) pb = (pb1, ms1)" by fastforce
  obtain ms2 where ap: "applyAndPublish pb1 (orderUpdateEvent Rested s (victimUpdate r) sq Ok) = (pb', ms2)" using pm rs by (auto split: prod.splits)
  let ?M1 = "if u_seq (victimUpdate r) > bm_lastSeq ?M then ?M\<lparr>bm_lastSeq := u_seq (victimUpdate r)\<rparr> else ?M"
  have "pb_mirror pb' = mirror_insert ?M1 s (victimUpdate r)"
    using applyAndPublish_keeps [OF ap] resync_shows(2) [OF rep sm rs] by (simp add: applyOrderUpdate_def Let_def)
  moreover have "levels_of ?M1 s = levels_of ?M s" by simp
  ultimately have "levels_of (pb_mirror pb') s = levels_push s (levels_of ?M s) (v_price r) (mirror_of r)"
    by (simp add: mirror_insert_def Let_def victimUpdate_def mirror_of_def)
  then have look: "map_of (levels_of (pb_mirror pb') s) (v_price r) = Some (map mirror_of (lvl A s (v_price r)) @ [mirror_of r])"
    using levels_push_lookup [OF mirror_repD(2) [OF rep, of s], of "v_price r" "mirror_of r"] by (simp add: lookup_rep [OF rep])
  have "0 < v_remaining r" using sm r by (auto simp: small_def)
  then have "in_i64 (qty_at A s (v_price r) + v_remaining r)" using fit qty_at_pos(1) [OF sm, of s "v_price r"] by (simp add: in_i64_def)
  then show ?thesis by (simp add: levelTotal_def levelTotalIn_def look foldl_total comp_def wrap64_id qty_at_def add.commute)
qed

definition demo_resting :: Resting where
  "demo_resting = \<lparr>v_id = 1, v_price = 100, v_quantity = 5, v_remaining = 5, v_participant = 1, v_seq = 1, v_side = Buy\<rparr>"

definition demo_one :: BookSpec where
  "demo_one = \<lparr>sp_bids = [demo_resting], sp_asks = [], sp_seq = 1, sp_nextTradeId = 0\<rparr>"

lemma demo_one_rep: "mirror_rep (mirror_insert emptyMirror Buy (victimUpdate demo_resting)) demo_one"
proof -
  let ?E = "\<lparr>sp_bids = [], sp_asks = [], sp_seq = 1, sp_nextTradeId = 0\<rparr>"
  have E: "mirror_rep emptyMirror ?E"
    by (auto simp: mirror_rep_def emptyMirror_def ids_wf_def spec_side_def spec_orders_def find_order_def levels_of_def)
  have "set_spec_side ?E Buy (rest_in Buy demo_resting (spec_side ?E Buy)) = demo_one" by (simp add: demo_one_def rest_in_def spec_side_def set_spec_side_def)
  then show ?thesis using insert_rep [OF E, of demo_resting Buy] by (simp add: find_order_def spec_orders_def demo_resting_def)
qed

theorem resync_counts_twice_witness:
  "\<exists>n pb ms. pump (Some (\<lambda>M. mirror_insert emptyMirror Buy (victimUpdate demo_resting))) (newPublisher 7)
      [PeekLapped, PeekOk (orderUpdateEvent Rested Buy (victimUpdate demo_resting) 1 Ok)] = (n, pb, ms) \<and> levelTotal (pb_mirror pb) Buy 100 = 10"
proof -
  let ?f = "\<lambda>M :: BookMirror. mirror_insert emptyMirror Buy (victimUpdate demo_resting)"
  let ?ps = "[PeekLapped, PeekOk (orderUpdateEvent Rested Buy (victimUpdate demo_resting) 1 Ok)]"
  obtain n pb ms where p: "pump (Some ?f) (newPublisher 7) ?ps = (n, pb, ms)" by (cases "pump (Some ?f) (newPublisher 7) ?ps")
  have q: "qty_at demo_one s p = (if s = Buy \<and> p = 100 then 5 else 0)" for s p
    by (cases s) (simp_all add: qty_at_def lvl_def demo_one_def spec_side_def demo_resting_def)
  have sm: "small demo_one" unfolding small_def q by (auto simp: demo_one_def spec_side_def demo_resting_def)
  have "demo_resting \<in> set (spec_side demo_one Buy)" by (simp add: demo_one_def spec_side_def)
  from resync_counts_twice [of ?f "newPublisher 7", OF demo_one_rep sm this p] have "levelTotal (pb_mirror pb) Buy 100 = 10"
    by (simp add: q) (simp add: demo_resting_def)
  then show ?thesis using p by blast
qed

text \<open>
  After a restart the feed misses what happens to recovered orders. A publisher starts with an empty mirror also when the
  book was recovered. When a recovered order is then cancelled, the book loses it, but the frames the publisher sends leave both
  sides of every ladder as they were, so that a client goes on showing the order.
\<close>

theorem restart_feed_stale:
  assumes inv: "mt_inv mt" and x: "find_order (absb (mt_book mt)) (c_id cmd) = Some x" and cmd: "c_kind cmd = Cancel" and d: "dispatch mt cmd = Some (mt', es)"
    and pm: "pump source (newPublisher i) (map PeekOk es) = (n, pb, ms)" and c: "\<not> ld_inBurst (md_ladder c)"
  shows "find_order (absb (mt_book mt')) (c_id cmd) = None \<and> topBids (md_ladder (foldl md_dispatch c ms)) k = topBids (md_ladder c) k \<and>
    topAsks (md_ladder (foldl md_dispatch c ms)) k = topAsks (md_ladder c) k"
proof -
  have ok: "cmd_ok (ob_cfg (mt_book mt)) cmd" using cmd by (simp add: cmd_ok_def)
  have "astep_mt (mt_abs mt) cmd = (mt_abs mt', es)" using dispatch_step [OF inv ok] d by auto
  then have "adispatch (ob_cfg (mt_book mt)) (absb (mt_book mt)) (mt_dispatchSeq mt + 1) cmd = (absb (mt_book mt'), es)"
    by (auto simp: astep_mt_def mt_abs_def split: prod.splits)
  moreover have "r_status (cancel_result x) = Ok" by (simp add: cancel_result_def)
  ultimately have A: "absb (mt_book mt') = drop_order (absb (mt_book mt)) (c_id cmd)"
    and es: "\<exists>sq. es = [statusEvent (c_id cmd) Ok sq, orderUpdateEvent Cancelled (r_side (cancel_result x)) (resultUpdate (c_id cmd) (cancel_result x)) sq Ok]"
    using x cmd by (auto simp: adispatch_def acancel_def)
  have "distinct (map v_id (spec_orders (absb (mt_book mt))))" using book_invD(2) [OF mt_invD(1) [OF inv]] by (simp add: spec_wf_def)
  then have gone: "find_order (absb (mt_book mt')) (c_id cmd) = None" by (simp add: A find_order_drop)
  have "\<exists>m. ms = [FL3Order m]"
    using pm es by (auto simp: applyAndPublish_def statusEvent_def orderUpdateEvent_def publishUpdate_def diffLevel_def nextFeedSeq_def newPublisher_def mirror_apply_def
        applyOrderUpdate_def mirror_erase_def emptyMirror_def levelTotal_def levelTotalIn_def levels_of_def totals_of_def Let_def split: prod.splits Side.splits if_splits)
  then show ?thesis using gone c by (auto simp: md_dispatch_def onL3Order_def)
qed

theorem restart_feed_stale_witness:
  "\<exists>mt es mt' fs n pb ms. run_with dispatch (newMatchingThread demo_cfg) [demo_cmd New 1 101 5 Sell] = Some (mt, es) \<and>
     dispatch mt (demo_cmd Cancel 1 0 0 Buy) = Some (mt', fs) \<and> pump None (newPublisher 7) (map PeekOk fs) = (n, pb, ms) \<and> find_order (absb (mt_book mt')) 1 = None \<and>
     topAsks (md_ladder (foldl md_dispatch (newMdClient 7) ms)) 10 = topAsks (md_ladder (newMdClient 7)) 10"
proof -
  let ?c = "demo_cmd New 1 101 5 Sell" and ?k = "demo_cmd Cancel 1 0 0 Buy"
  obtain mt es where m: "dispatch (newMatchingThread demo_cfg) ?c = Some (mt, es)" "mt_inv mt" "astep_mt (mt_abs (newMatchingThread demo_cfg)) ?c = (mt_abs mt, es)" "ob_cfg (mt_book mt) = demo_cfg"
    using dispatch_step [OF demo_thread(1), of ?c] demo_cmd_ok demo_thread(2) by auto
  obtain mt' fs where f: "dispatch mt ?k = Some (mt', fs)" using dispatch_step [OF m(2), of ?k] demo_cmd_ok m(4) by auto
  obtain n pb ms where p: "pump None (newPublisher 7) (map PeekOk fs) = (n, pb, ms)" by (cases "pump None (newPublisher 7) (map PeekOk fs)")
  have "absb (mt_book (newMatchingThread demo_cfg)) = aempty" using newOrderBook_ok [OF demo_cfg_ok] by (simp add: newMatchingThread_def aempty_def)
  moreover have "find_order (fst (adispatch demo_cfg aempty 1 ?c)) 1 \<noteq> None" by code_simp
  ultimately obtain x where x: "find_order (absb (mt_book mt)) 1 = Some x"
    using m(3) demo_thread(2,3) by (auto simp: astep_mt_def mt_abs_def split: prod.splits)
  have k: "c_kind ?k = Cancel" "c_id ?k = 1" "\<not> ld_inBurst (md_ladder (newMdClient 7))" by (simp_all add: demo_cmd_def newMdClient_def emptyLadder_def)
  from restart_feed_stale [OF m(2) _ k(1) f p k(3), of x 10] x k(2) show ?thesis using m(1) f p by fastforce
qed

end
