(* ===== verification/Feed_Server.thy ===== *)
theory Feed_Server
  imports Feed_Codec
begin

text \<open>
  The server of the market-data feed (\<^verbatim>\<open>marketdata/feed_server.hpp\<close>): its sessions, their write queues, and the broadcast to all of them.
\<close>

section \<open>marketdata/feed\_server.hpp, the session\<close>

record FeedSession =
  fs_maxQueueBytes :: nat
  fs_pending :: "byte list list"
  fs_queuedBytes :: nat
  fs_writing :: bool
  fs_closed :: bool

definition newFeedSession :: "nat \<Rightarrow> FeedSession" where
  "newFeedSession maxQueueBytes = \<lparr>fs_maxQueueBytes = maxQueueBytes, fs_pending = [], fs_queuedBytes = 0, fs_writing = False, fs_closed = False\<rparr>"

definition fs_close :: "FeedSession \<Rightarrow> FeedSession" where
  "fs_close s = s\<lparr>fs_closed := True\<rparr>"

text \<open>Starts writing the frame at the front, if there is one.\<close>

definition fs_doWrite :: "FeedSession \<Rightarrow> FeedSession" where
  "fs_doWrite s = (if fs_pending s = [] then s\<lparr>fs_writing := False\<rparr> else s\<lparr>fs_writing := True\<rparr>)"

definition fs_enqueue :: "FeedSession \<Rightarrow> byte list \<Rightarrow> FeedSession" where
  "fs_enqueue s data =
     (if fs_closed s then s
      else if fs_queuedBytes s + length data > fs_maxQueueBytes s then fs_close s
      else
        (let s1 = s\<lparr>fs_pending := fs_pending s @ [data], fs_queuedBytes := fs_queuedBytes s + length data\<rparr>
         in if \<not> fs_writing s1 then fs_doWrite s1 else s1))"

text \<open>The completion of a write of \<open>n\<close> bytes; \<^const>\<open>None\<close> is \<^verbatim>\<open>pop_front\<close> on an empty queue.\<close>

definition fs_onWritten :: "FeedSession \<Rightarrow> bool \<Rightarrow> nat \<Rightarrow> FeedSession option" where
  "fs_onWritten s failed n =
     (if failed then Some (fs_close s)
      else if fs_pending s = [] then None
      else Some (fs_doWrite (s\<lparr>fs_queuedBytes := fs_queuedBytes s - n, fs_pending := tl (fs_pending s)\<rparr>)))"

text \<open>What the subscriber sends is thrown away; a failed read closes the session.\<close>

definition fs_onRead :: "FeedSession \<Rightarrow> bool \<Rightarrow> FeedSession" where
  "fs_onRead s failed = (if failed then fs_close s else s)"

section \<open>The server\<close>

text \<open>
  A session lives on while a handler refers to it, also after the server has dropped it, so that the model keeps every session that was
  ever accepted; \<open>fv_sessions\<close> holds the positions of those in \<^verbatim>\<open>sessions_\<close>. One field of a connection is not a member of a class:
  \<open>cn_written\<close> is what the socket was given, the frames whose write has succeeded.
\<close>

record FeedConn =
  cn_session :: FeedSession
  cn_written :: "byte list list"

record FeedServer =
  fv_maxQueueBytes :: nat
  fv_conns :: "FeedConn list"
  fv_sessions :: "nat list"

definition kDefaultMaxQueueBytes :: nat where "kDefaultMaxQueueBytes = 4 * 1024 * 1024"

definition newFeedServer :: "nat \<Rightarrow> FeedServer" where
  "newFeedServer maxQueueBytes = \<lparr>fv_maxQueueBytes = maxQueueBytes, fv_conns = [], fv_sessions = []\<rparr>"

definition cn_enqueue :: "FeedConn \<Rightarrow> byte list \<Rightarrow> FeedConn" where
  "cn_enqueue c data = c\<lparr>cn_session := fs_enqueue (cn_session c) data\<rparr>"

text \<open>The handler of \<^verbatim>\<open>async_accept\<close>: the burst goes to the new session before it joins the others.\<close>

definition onAccept :: "FeedServer \<Rightarrow> bool \<Rightarrow> byte list list \<Rightarrow> FeedServer" where
  "onAccept sv failed burst =
     (if failed then sv
      else
        (let c = \<lparr>cn_session = newFeedSession (fv_maxQueueBytes sv), cn_written = []\<rparr>;
             c1 = foldl cn_enqueue c burst
         in sv\<lparr>fv_conns := fv_conns sv @ [c1], fv_sessions := fv_sessions sv @ [length (fv_conns sv)]\<rparr>))"

fun broadcastLoop :: "FeedConn list \<Rightarrow> nat list \<Rightarrow> byte list \<Rightarrow> FeedConn list \<times> nat list" where
  "broadcastLoop cs [] data = (cs, [])"
| "broadcastLoop cs (i # is) data =
     (if fs_closed (cn_session (cs ! i)) then broadcastLoop cs is data
      else (let (cs', js) = broadcastLoop (cs[i := cn_enqueue (cs ! i) data]) is data in (cs', i # js)))"

definition broadcast :: "FeedServer \<Rightarrow> byte list \<Rightarrow> FeedServer" where
  "broadcast sv data = (let (cs, js) = broadcastLoop (fv_conns sv) (fv_sessions sv) data in sv\<lparr>fv_conns := cs, fv_sessions := js\<rparr>)"

text \<open>
  What can happen: a connection is accepted and gets a burst, a frame is broadcast, a write of a session completes, which
  on success has written the whole frame, or its read completes.
\<close>

datatype feed_event = Accepted bool "byte list list" | Broadcast "byte list" | Written nat bool | ReadDone nat bool

definition feed_step :: "FeedServer \<Rightarrow> feed_event \<Rightarrow> FeedServer option" where
  "feed_step sv ev =
     (case ev of
        Accepted failed burst \<Rightarrow> Some (onAccept sv failed burst)
      | Broadcast data \<Rightarrow> Some (broadcast sv data)
      | Written i failed \<Rightarrow>
          (if i < length (fv_conns sv) \<and> fs_writing (cn_session (fv_conns sv ! i))
           then (let c = fv_conns sv ! i; s = cn_session c in
             map_option (\<lambda>s'. sv\<lparr>fv_conns := (fv_conns sv)[i := c\<lparr>cn_session := s', cn_written := (if failed then cn_written c else cn_written c @ [hd (fs_pending s)])\<rparr>]\<rparr>)
               (fs_onWritten s failed (length (hd (fs_pending s)))))
           else Some sv)
      | ReadDone i failed \<Rightarrow>
          (if i < length (fv_conns sv)
           then Some (sv\<lparr>fv_conns := (fv_conns sv)[i := (fv_conns sv ! i)\<lparr>cn_session := fs_onRead (cn_session (fv_conns sv ! i)) failed\<rparr>]\<rparr>)
           else Some sv))"

fun feed_run :: "FeedServer \<Rightarrow> feed_event list \<Rightarrow> FeedServer option" where
  "feed_run sv [] = Some sv"
| "feed_run sv (e # es) = Option.bind (feed_step sv e) (\<lambda>sv'. feed_run sv' es)"

section \<open>What the subscribers are owed\<close>

text \<open>
  The streams that the subscribers should see, read off the events alone: one for every accepted connection, with its burst
  first and every later broadcast after it.
\<close>

definition offer :: "byte list list list \<Rightarrow> feed_event \<Rightarrow> byte list list list" where
  "offer streams ev =
     (case ev of
        Accepted failed burst \<Rightarrow> (if failed then streams else streams @ [burst])
      | Broadcast data \<Rightarrow> map (\<lambda>stream. stream @ [data]) streams
      | Written i failed \<Rightarrow> streams
      | ReadDone i failed \<Rightarrow> streams)"

definition offers :: "feed_event list \<Rightarrow> byte list list list" where
  "offers es = foldl offer [] es"

section \<open>A connection\<close>

definition conn_inv :: "byte list list \<Rightarrow> FeedConn \<Rightarrow> bool" where
  "conn_inv stream c \<longleftrightarrow>
     (let s = cn_session c in
       (\<exists>lost. stream = cn_written c @ fs_pending s @ lost \<and> (\<not> fs_closed s \<longrightarrow> lost = [])) \<and>
       fs_queuedBytes s = sum_list (map length (fs_pending s)) \<and> fs_queuedBytes s \<le> fs_maxQueueBytes s \<and>
       (fs_writing s \<longleftrightarrow> fs_pending s \<noteq> []))"

lemma conn_new: "conn_inv [] \<lparr>cn_session = newFeedSession m, cn_written = []\<rparr>"
  by (simp add: conn_inv_def newFeedSession_def Let_def)

lemma conn_enqueue:
  assumes "conn_inv stream c"
  shows "conn_inv (stream @ [data]) (cn_enqueue c data)"
  using assms by (auto simp: conn_inv_def cn_enqueue_def fs_enqueue_def fs_close_def fs_doWrite_def Let_def)

lemma conn_burst: "conn_inv stream c \<Longrightarrow> conn_inv (stream @ burst) (foldl cn_enqueue c burst)"
proof (induction burst arbitrary: stream c)
  case (Cons data burst)
  from Cons.IH [OF conn_enqueue [OF Cons.prems], of data] show ?case by simp
qed simp

lemma conn_read: "conn_inv stream c \<Longrightarrow> conn_inv stream (c\<lparr>cn_session := fs_onRead (cn_session c) failed\<rparr>)"
  by (auto simp: conn_inv_def fs_onRead_def fs_close_def Let_def)

lemma conn_closed: "conn_inv stream c \<Longrightarrow> fs_closed (cn_session c) \<Longrightarrow> conn_inv (stream @ [data]) c"
  by (auto simp: conn_inv_def Let_def)

lemma conn_written:
  assumes "conn_inv stream c" "fs_writing (cn_session c)"
  shows "\<exists>s. fs_onWritten (cn_session c) failed (length (hd (fs_pending (cn_session c)))) = Some s \<and>
    conn_inv stream (c\<lparr>cn_session := s, cn_written := (if failed then cn_written c else cn_written c @ [hd (fs_pending (cn_session c))])\<rparr>)"
proof (cases "fs_pending (cn_session c)")
  case Nil
  then show ?thesis using assms by (simp add: conn_inv_def Let_def)
next
  case (Cons f fr)
  then show ?thesis using assms by (auto simp: conn_inv_def fs_onWritten_def fs_close_def fs_doWrite_def Let_def)
qed

definition server_inv :: "byte list list list \<Rightarrow> FeedServer \<Rightarrow> bool" where
  "server_inv streams sv \<longleftrightarrow> list_all2 conn_inv streams (fv_conns sv) \<and> distinct (fv_sessions sv) \<and> (\<forall>i \<in> set (fv_sessions sv). i < length (fv_conns sv)) \<and>
     (\<forall>i < length (fv_conns sv). \<not> fs_closed (cn_session (fv_conns sv ! i)) \<longrightarrow> i \<in> set (fv_sessions sv))"

lemma server_conn: "server_inv streams sv \<Longrightarrow> i < length (fv_conns sv) \<Longrightarrow> conn_inv (streams ! i) (fv_conns sv ! i)"
  by (auto simp: server_inv_def list_all2_conv_all_nth)

lemma broadcastLoop_effect:
  assumes "distinct is" "\<forall>i \<in> set is. i < length cs" "broadcastLoop cs is data = (cs', js)"
  shows "length cs' = length cs \<and> js = filter (\<lambda>i. \<not> fs_closed (cn_session (cs ! i))) is \<and>
    (\<forall>i < length cs. cs' ! i = (if i \<in> set js then cn_enqueue (cs ! i) data else cs ! i))"
  using assms
proof (induction cs "is" data arbitrary: cs' js rule: broadcastLoop.induct)
  case (2 cs i "is" data)
  show ?case
  proof (cases "fs_closed (cn_session (cs ! i))")
    case True
    then show ?thesis using "2.IH"(1) [OF True] "2.prems" by auto
  next
    case False
    let ?cs = "cs[i := cn_enqueue (cs ! i) data]"
    obtain ks where k: "broadcastLoop ?cs is data = (cs', ks)" "js = i # ks" using "2.prems"(3) False by (auto split: prod.splits)
    from "2.IH"(2) [OF False _ _ k(1)] "2.prems"(1,2)
    have ih: "length cs' = length cs" "ks = filter (\<lambda>j. \<not> fs_closed (cn_session (?cs ! j))) is"
      "\<forall>j < length cs. cs' ! j = (if j \<in> set ks then cn_enqueue (?cs ! j) data else ?cs ! j)" by auto
    have "?cs ! j = cs ! j" if "j \<in> set is" for j using that "2.prems"(1) by (cases "j = i") simp_all
    then have "ks = filter (\<lambda>j. \<not> fs_closed (cn_session (cs ! j))) is" using ih(2) by (metis (mono_tags, lifting) filter_cong)
    then show ?thesis using ih(1,3) k(2) False "2.prems"(1,2) by (auto simp: nth_list_update)
  qed
qed simp

lemma fs_enqueue_closed: "fs_closed s \<Longrightarrow> fs_enqueue s data = s"
  by (simp add: fs_enqueue_def)

lemma broadcast_inv:
  assumes "server_inv streams sv"
  shows "server_inv (map (\<lambda>stream. stream @ [data]) streams) (broadcast sv data)"
proof -
  obtain cs js where b: "broadcastLoop (fv_conns sv) (fv_sessions sv) data = (cs, js)" by fastforce
  have e: "length cs = length (fv_conns sv)" "js = filter (\<lambda>i. \<not> fs_closed (cn_session (fv_conns sv ! i))) (fv_sessions sv)"
    "\<forall>i < length (fv_conns sv). cs ! i = (if i \<in> set js then cn_enqueue (fv_conns sv ! i) data else fv_conns sv ! i)"
    using broadcastLoop_effect [OF _ _ b] assms by (auto simp: server_inv_def)
  have cl: "fs_closed (cn_session (fv_conns sv ! i))" if "i < length (fv_conns sv)" "i \<notin> set js" for i
    using that e(2) assms by (auto simp: server_inv_def)
  have len: "length streams = length (fv_conns sv)" using assms by (auto simp: server_inv_def list_all2_lengthD)
  have "conn_inv (streams ! i @ [data]) (cs ! i)" if "i < length (fv_conns sv)" for i
    using that e(3) cl [OF that] server_conn [OF assms that] conn_enqueue conn_closed by simp
  then have "list_all2 conn_inv (map (\<lambda>stream. stream @ [data]) streams) cs" using e(1) len by (simp add: list_all2_conv_all_nth)
  moreover have "i \<in> set js" if "i < length cs" "\<not> fs_closed (cn_session (cs ! i))" for i
    using that cl [of i] e(1,3) by (cases "i \<in> set js") simp_all
  ultimately show ?thesis using assms e b unfolding server_inv_def by (auto simp: broadcast_def)
qed

lemma update_inv:
  assumes "server_inv streams sv" "i < length (fv_conns sv)" "conn_inv (streams ! i) c" "fs_closed (cn_session (fv_conns sv ! i)) \<Longrightarrow> fs_closed (cn_session c)"
  shows "server_inv streams (sv\<lparr>fv_conns := (fv_conns sv)[i := c]\<rparr>)"
  using assms unfolding server_inv_def list_all2_conv_all_nth by (auto simp: nth_list_update)

lemma feed_step_inv:
  assumes "server_inv streams sv"
  shows "\<exists>sv'. feed_step sv ev = Some sv' \<and> server_inv (offer streams ev) sv'"
proof (cases ev)
  case (Accepted failed burst)
  have "conn_inv burst (foldl cn_enqueue \<lparr>cn_session = newFeedSession (fv_maxQueueBytes sv), cn_written = []\<rparr> burst)" using conn_burst [OF conn_new] by simp
  then show ?thesis using assms Accepted
    by (auto simp: feed_step_def onAccept_def offer_def server_inv_def Let_def nth_append less_Suc_eq list_all2_appendI)
next
  case (Broadcast data)
  then show ?thesis using broadcast_inv [OF assms] by (simp add: feed_step_def offer_def)
next
  case (Written i failed)
  show ?thesis
  proof (cases "i < length (fv_conns sv) \<and> fs_writing (cn_session (fv_conns sv ! i))")
    case True
    then have c: "conn_inv (streams ! i) (fv_conns sv ! i)" using server_conn [OF assms] by simp
    from conn_written [OF c, of failed] True obtain s where s: "fs_onWritten (cn_session (fv_conns sv ! i)) failed (length (hd (fs_pending (cn_session (fv_conns sv ! i))))) = Some s"
      "conn_inv (streams ! i) ((fv_conns sv ! i)\<lparr>cn_session := s, cn_written := (if failed then cn_written (fv_conns sv ! i) else cn_written (fv_conns sv ! i) @ [hd (fs_pending (cn_session (fv_conns sv ! i)))])\<rparr>)"
      by blast
    have "fs_closed (cn_session (fv_conns sv ! i)) \<Longrightarrow> fs_closed s" using s(1) by (auto simp: fs_onWritten_def fs_close_def fs_doWrite_def split: if_splits)
    then show ?thesis using update_inv [OF assms _ s(2)] True s(1) Written by (simp add: feed_step_def offer_def Let_def)
  qed (use assms Written in \<open>auto simp: feed_step_def offer_def\<close>)
next
  case (ReadDone i failed)
  show ?thesis
  proof (cases "i < length (fv_conns sv)")
    case True
    then have "conn_inv (streams ! i) (fv_conns sv ! i)" by (rule server_conn [OF assms])
    from update_inv [OF assms True conn_read [OF this, of failed]] show ?thesis using True ReadDone by (simp add: feed_step_def offer_def fs_onRead_def fs_close_def)
  qed (use assms ReadDone in \<open>auto simp: feed_step_def offer_def\<close>)
qed

lemma feed_run_inv: "server_inv streams sv \<Longrightarrow> \<exists>sv'. feed_run sv es = Some sv' \<and> server_inv (foldl offer streams es) sv'"
proof (induction es arbitrary: streams sv)
  case (Cons e es)
  obtain sv1 where "feed_step sv e = Some sv1" "server_inv (offer streams e) sv1" using feed_step_inv [OF Cons.prems] by blast
  then show ?case using Cons.IH by simp
qed simp

lemma newFeedServer_inv: "server_inv [] (newFeedServer m)"
  by (simp add: server_inv_def newFeedServer_def)

text \<open>
  C20: The feed server never gives a subscriber a stream with a hole. Over every sequence of accepted connections, broadcasts, completed
  and failed writes and reads, no handler takes from an empty queue. Every accepted connection is owed its burst and then every frame
  broadcast since it was accepted; what its session has written is a prefix of that, and while the session is open the rest, all of
  it, is in its queue, within its budget, and being written.
\<close>

theorem feed_session_delivers:
  "\<exists>sv. feed_run (newFeedServer m) es = Some sv \<and>
     list_all2 (\<lambda>stream c. let s = cn_session c in
        (\<exists>rest. stream = cn_written c @ rest \<and> (fs_closed s \<or> rest = fs_pending s)) \<and>
        sum_list (map length (fs_pending s)) \<le> fs_maxQueueBytes s \<and> (fs_writing s \<longleftrightarrow> fs_pending s \<noteq> [])) (offers es) (fv_conns sv)"
proof -
  obtain sv where sv: "feed_run (newFeedServer m) es = Some sv" "server_inv (offers es) sv"
    using feed_run_inv [OF newFeedServer_inv] unfolding offers_def by blast
  then have "list_all2 conn_inv (offers es) (fv_conns sv)" by (simp add: server_inv_def)
  then have "list_all2 (\<lambda>stream c. let s = cn_session c in
        (\<exists>rest. stream = cn_written c @ rest \<and> (fs_closed s \<or> rest = fs_pending s)) \<and>
        sum_list (map length (fs_pending s)) \<le> fs_maxQueueBytes s \<and> (fs_writing s \<longleftrightarrow> fs_pending s \<noteq> [])) (offers es) (fv_conns sv)"
    by (rule list_all2_mono) (auto simp: conn_inv_def Let_def)
  then show ?thesis using sv(1) by blast
qed

section \<open>Sessions do not disturb each other\<close>

text \<open>The events that concern the session at position \<open>i\<close>, applied to its connection alone.\<close>

definition conn_event :: "nat \<Rightarrow> FeedConn \<Rightarrow> feed_event \<Rightarrow> FeedConn" where
  "conn_event i c ev =
     (case ev of
        Accepted failed burst \<Rightarrow> c
      | Broadcast data \<Rightarrow> cn_enqueue c data
      | Written j failed \<Rightarrow>
          (if j = i \<and> fs_writing (cn_session c)
           then c\<lparr>cn_session := the (fs_onWritten (cn_session c) failed (length (hd (fs_pending (cn_session c))))),
                  cn_written := (if failed then cn_written c else cn_written c @ [hd (fs_pending (cn_session c))])\<rparr>
           else c)
      | ReadDone j failed \<Rightarrow> (if j = i then c\<lparr>cn_session := fs_onRead (cn_session c) failed\<rparr> else c))"

lemma feed_step_conn:
  assumes inv: "server_inv streams sv" and i: "i < length (fv_conns sv)" and st: "feed_step sv ev = Some sv'"
  shows "i < length (fv_conns sv') \<and> fv_conns sv' ! i = conn_event i (fv_conns sv ! i) ev"
proof (cases ev)
  case (Accepted failed burst)
  then show ?thesis using st i by (auto simp: feed_step_def onAccept_def conn_event_def Let_def nth_append split: if_splits)
next
  case (Broadcast data)
  obtain cs js where b: "broadcastLoop (fv_conns sv) (fv_sessions sv) data = (cs, js)" by fastforce
  have e: "length cs = length (fv_conns sv)" "js = filter (\<lambda>i. \<not> fs_closed (cn_session (fv_conns sv ! i))) (fv_sessions sv)"
    "cs ! i = (if i \<in> set js then cn_enqueue (fv_conns sv ! i) data else fv_conns sv ! i)"
    using broadcastLoop_effect [OF _ _ b] inv i by (auto simp: server_inv_def)
  have "cn_enqueue (fv_conns sv ! i) data = fv_conns sv ! i" if "i \<notin> set js"
  proof -
    have "fs_closed (cn_session (fv_conns sv ! i))" using that e(2) inv i by (auto simp: server_inv_def)
    then show ?thesis by (simp add: cn_enqueue_def fs_enqueue_closed)
  qed
  then show ?thesis using Broadcast st i e b by (auto simp: feed_step_def broadcast_def conn_event_def)
next
  case (Written j failed)
  then show ?thesis using st i by (auto simp: feed_step_def conn_event_def Let_def nth_list_update split: if_splits)
next
  case (ReadDone j failed)
  then show ?thesis using st i by (auto simp: feed_step_def conn_event_def nth_list_update split: if_splits)
qed

text \<open>
  C21: A slow subscriber does not disturb the others: from the moment it is accepted, a session goes through exactly the states it
  would go through alone, under the broadcasts and its own reads and writes, whatever the other sessions do.
\<close>

theorem feed_sessions_independent:
  assumes "feed_run (newFeedServer m) es = Some sv" "i < length (fv_conns sv)" "feed_run sv fs = Some sv'"
  shows "fv_conns sv' ! i = foldl (conn_event i) (fv_conns sv ! i) fs"
proof -
  have "server_inv (offers es) sv" using feed_run_inv [OF newFeedServer_inv [of m], of es] assms(1) by (simp add: offers_def)
  then obtain streams where "server_inv streams sv" by blast
  then show ?thesis using assms(2,3)
  proof (induction fs arbitrary: streams sv)
    case (Cons e fs)
    obtain sv1 where s: "feed_step sv e = Some sv1" "feed_run sv1 fs = Some sv'" using Cons.prems(3) by (auto simp: bind_eq_Some_conv)
    have "server_inv (offer streams e) sv1" using feed_step_inv [OF Cons.prems(1), of e] s(1) by simp
    from Cons.IH [OF this _ s(2)] show ?case using feed_step_conn [OF Cons.prems(1,2) s(1)] by simp
  qed simp
qed

theorem feed_sessions_independent_witness:
  "\<exists>sv sv'. feed_run (newFeedServer 10) [Accepted False [[1, 2]], Accepted False []] = Some sv \<and>
     feed_run sv [Broadcast [3], Written 1 False, ReadDone 0 True, Broadcast [4]] = Some sv' \<and>
     fv_conns sv' ! 1 = foldl (conn_event 1) (fv_conns sv ! 1) [Broadcast [3], Written 1 False, ReadDone 0 True, Broadcast [4]] \<and>
     cn_written (fv_conns sv' ! 1) = [[3]] \<and> fs_pending (cn_session (fv_conns sv' ! 1)) = [[4]]"
proof -
  let ?a = "[Accepted False [[1, 2]], Accepted False []]" and ?b = "[Broadcast [3], Written 1 False, ReadDone 0 True, Broadcast [4]]"
  obtain sv where sv: "feed_run (newFeedServer 10) ?a = Some sv" "server_inv (foldl offer [] ?a) sv" using feed_run_inv [OF newFeedServer_inv] by blast
  obtain sv' where sv': "feed_run sv ?b = Some sv'" using feed_run_inv [OF sv(2)] by blast
  have conns: "fv_conns sv = [\<lparr>cn_session = \<lparr>fs_maxQueueBytes = 10, fs_pending = [[1, 2]], fs_queuedBytes = 2, fs_writing = True, fs_closed = False\<rparr>, cn_written = []\<rparr>,
      \<lparr>cn_session = newFeedSession 10, cn_written = []\<rparr>]"
    using sv(1) by (auto simp: feed_step_def onAccept_def newFeedServer_def newFeedSession_def cn_enqueue_def fs_enqueue_def fs_doWrite_def Let_def)
  then have "1 < length (fv_conns sv)" by simp
  from feed_sessions_independent [OF sv(1) this sv'] have r: "fv_conns sv' ! 1 = foldl (conn_event 1) (fv_conns sv ! 1) ?b" .
  moreover have "cn_written (foldl (conn_event 1) (fv_conns sv ! 1) ?b) = [[3]]" "fs_pending (cn_session (foldl (conn_event 1) (fv_conns sv ! 1) ?b)) = [[4]]"
    by (simp_all add: conns conn_event_def newFeedSession_def cn_enqueue_def fs_enqueue_def fs_onWritten_def fs_doWrite_def Let_def)
  ultimately show ?thesis using sv(1) sv' by metis
qed

end
