(* ===== verification/Multicast_Ring.thy ===== *)
theory Multicast_Ring
  imports Spsc_Ring
begin

text \<open>
  The outbound ring (\<^verbatim>\<open>ipc/multicast_ring.hpp\<close>): one producer, several consumers, of which some gate the producer and the others may be lapped;
  first the operations, then the producer and the consumers as threads whose steps interleave.
\<close>

section \<open>ipc/multicast\_ring.hpp\<close>

text \<open>
  The capacity is the length of \<open>mc_storage\<close>, the number of consumers the length of \<open>mc_tails\<close>, and the gating mask a field.
\<close>

record 'a MulticastRing =
  mc_storage :: "'a list"
  mc_head :: "64 word"
  mc_tails :: "64 word list"
  mc_lappedCounts :: "64 word list"
  mc_cachedMinTail :: "64 word"
  mc_cachedHead :: "64 word list"
  mc_gatingMask :: "32 word"

datatype PeekStatus = PeekEmpty | PeekOkay | PeekLap

definition mc_capacity :: "'a MulticastRing \<Rightarrow> nat" where
  "mc_capacity r = length (mc_storage r)"

definition newMulticastRing :: "'a \<Rightarrow> nat \<Rightarrow> nat \<Rightarrow> 32 word \<Rightarrow> 'a MulticastRing" where
  "newMulticastRing def consumers capacity gatingMask =
     \<lparr>mc_storage = replicate capacity def, mc_head = 0, mc_tails = replicate consumers 0, mc_lappedCounts = replicate consumers 0,
      mc_cachedMinTail = 0, mc_cachedHead = replicate consumers 0, mc_gatingMask = gatingMask\<rparr>"

definition gating :: "'a MulticastRing \<Rightarrow> nat \<Rightarrow> bool" where
  "gating r i \<longleftrightarrow> bit (mc_gatingMask r) i"

text \<open>One turn of the loop over the cursors.\<close>

definition scanCursor :: "'a MulticastRing \<Rightarrow> nat \<Rightarrow> 64 word \<Rightarrow> 64 word" where
  "scanCursor r i m = (if \<not> gating r i then m else min m (mc_tails r ! i))"

definition scanResult :: "'a MulticastRing \<Rightarrow> 64 word \<Rightarrow> 64 word" where
  "scanResult r m = (if m = - 1 then mc_head r else m)"

definition minConsumerCursor :: "'a MulticastRing \<Rightarrow> 64 word" where
  "minConsumerCursor r = scanResult r (foldl (\<lambda>m i. scanCursor r i m) (- 1) [0..<length (mc_tails r)])"

definition hasRoom :: "'a MulticastRing \<Rightarrow> bool" where
  "hasRoom r \<longleftrightarrow> \<not> mc_head r - mc_cachedMinTail r \<ge> of_nat (mc_capacity r)"

definition mc_tryClaim :: "'a MulticastRing \<Rightarrow> nat option \<times> 'a MulticastRing" where
  "mc_tryClaim r =
     (if \<not> hasRoom r
      then
        (let r' = r\<lparr>mc_cachedMinTail := minConsumerCursor r\<rparr>
         in if \<not> hasRoom r' then (None, r') else (Some (ring_mask (mc_capacity r') (mc_head r')), r'))
      else (Some (ring_mask (mc_capacity r) (mc_head r)), r))"

definition mc_publish :: "'a MulticastRing \<Rightarrow> 'a MulticastRing" where
  "mc_publish r = r\<lparr>mc_head := mc_head r + 1\<rparr>"

definition mc_write :: "'a MulticastRing \<Rightarrow> nat \<Rightarrow> 'a \<Rightarrow> 'a MulticastRing" where
  "mc_write r i v = r\<lparr>mc_storage := (mc_storage r)[i := v]\<rparr>"

text \<open>The check both peeks begin with: is anything there, as far as the cached head or else the head itself says?\<close>

definition refreshHead :: "'a MulticastRing \<Rightarrow> nat \<Rightarrow> bool \<times> 'a MulticastRing" where
  "refreshHead r i =
     (let tail = mc_tails r ! i
      in if tail = mc_cachedHead r ! i
         then (let r' = r\<lparr>mc_cachedHead := (mc_cachedHead r)[i := mc_head r]\<rparr> in (tail \<noteq> mc_head r, r'))
         else (True, r))"

definition mc_tryPeek :: "'a MulticastRing \<Rightarrow> nat \<Rightarrow> nat option \<times> 'a MulticastRing" where
  "mc_tryPeek r i =
     (let (some, r') = refreshHead r i
      in if some then (Some (ring_mask (mc_capacity r) (mc_tails r ! i)), r') else (None, r'))"

definition mc_consume :: "'a MulticastRing \<Rightarrow> nat \<Rightarrow> 'a MulticastRing" where
  "mc_consume r i = r\<lparr>mc_tails := (mc_tails r)[i := mc_tails r ! i + 1]\<rparr>"

definition lapse :: "'a MulticastRing \<Rightarrow> nat \<Rightarrow> 64 word \<Rightarrow> 'a MulticastRing" where
  "lapse r i newTail = r\<lparr>mc_tails := (mc_tails r)[i := newTail], mc_cachedHead := (mc_cachedHead r)[i := newTail],
     mc_lappedCounts := (mc_lappedCounts r)[i := mc_lappedCounts r ! i + 1]\<rparr>"

definition overrun :: "'a MulticastRing \<Rightarrow> nat \<Rightarrow> bool" where
  "overrun r i \<longleftrightarrow> mc_head r - mc_tails r ! i \<ge> of_nat (mc_capacity r)"

text \<open>With no other thread running, the head is the same at both checks.\<close>

definition mc_tryPeekChecked :: "'a MulticastRing \<Rightarrow> nat \<Rightarrow> PeekStatus \<times> 'a option \<times> 'a MulticastRing" where
  "mc_tryPeekChecked r i =
     (let (some, r') = refreshHead r i
      in if \<not> some then (PeekEmpty, None, r')
         else if overrun r' i then (PeekLap, None, lapse r' i (mc_head r'))
         else
           (let out = mc_storage r' ! ring_mask (mc_capacity r') (mc_tails r' ! i)
            in if overrun r' i then (PeekLap, None, lapse r' i (mc_head r')) else (PeekOkay, Some out, r')))"

definition lag :: "'a MulticastRing \<Rightarrow> nat \<Rightarrow> 64 word" where
  "lag r i = mc_head r - mc_tails r ! i"

section \<open>The threads\<close>

text \<open>
  A slot is a list of machine words, and its assignment and its copy are not atomic: a producer writes it and a consumer
  copies it one word at a time. Every load or store of a cursor is a step of its own, too.
  \<open>mr_pos\<close>, \<open>mr_sent\<close> and \<open>mr_got\<close> are not variables of the program: the consumers' cursors as counters that do not wrap, the
  values published, and what each consumer was given, with the position it was at.
\<close>

datatype 'w mc_producer = PdIdle | PdScan "'w list" nat "64 word" | PdWriting "'w list" nat

datatype 'w mc_consumer = CnIdle | CnCheck | CnCopy "'w list" | CnLapse "64 word" | CnOk "'w list" | CnRead "'w list"

record 'w mc_threads =
  mr_ring :: "'w list MulticastRing"
  mr_producer :: "'w mc_producer"
  mr_consumers :: "'w mc_consumer list"
  mr_pos :: "nat list"
  mr_sent :: "'w list list"
  mr_got :: "(nat \<times> 'w list) list list"

definition claimSlot :: "'w mc_threads \<Rightarrow> nat" where
  "claimSlot s = ring_mask (mc_capacity (mr_ring s)) (mc_head (mr_ring s))"

definition peekSlot :: "'w mc_threads \<Rightarrow> nat \<Rightarrow> nat" where
  "peekSlot s i = ring_mask (mc_capacity (mr_ring s)) (mc_tails (mr_ring s) ! i)"

definition set_consumer :: "'w mc_threads \<Rightarrow> nat \<Rightarrow> 'w mc_consumer \<Rightarrow> 'w mc_threads" where
  "set_consumer s i c = s\<lparr>mr_consumers := (mr_consumers s)[i := c]\<rparr>"

text \<open>A consumer takes a value: it moves its cursor past it.\<close>

definition take_value :: "'w mc_threads \<Rightarrow> nat \<Rightarrow> 'w list \<Rightarrow> 'w mc_threads" where
  "take_value s i v = set_consumer (s\<lparr>mr_ring := mc_consume (mr_ring s) i, mr_pos := (mr_pos s)[i := Suc (mr_pos s ! i)],
     mr_got := (mr_got s)[i := mr_got s ! i @ [(mr_pos s ! i, v)]]\<rparr>) i CnIdle"

text \<open>The consumers in \<open>checked\<close> use \<^verbatim>\<open>tryPeekChecked\<close>, the others \<^verbatim>\<open>tryPeek\<close>. \<open>w\<close> is the number of words in a slot.\<close>

inductive mc_step :: "nat \<Rightarrow> (nat \<Rightarrow> bool) \<Rightarrow> 'w mc_threads \<Rightarrow> 'w mc_threads \<Rightarrow> bool" for w :: nat and checked :: "nat \<Rightarrow> bool" where
  claim: "mr_producer s = PdIdle \<Longrightarrow> length v = w \<Longrightarrow> hasRoom (mr_ring s) \<Longrightarrow> mc_step w checked s (s\<lparr>mr_producer := PdWriting v 0\<rparr>)"
| scan: "mr_producer s = PdIdle \<Longrightarrow> length v = w \<Longrightarrow> \<not> hasRoom (mr_ring s) \<Longrightarrow> mc_step w checked s (s\<lparr>mr_producer := PdScan v 0 (- 1)\<rparr>)"
| scan_next: "mr_producer s = PdScan v i m \<Longrightarrow> i < length (mc_tails (mr_ring s)) \<Longrightarrow>
    mc_step w checked s (s\<lparr>mr_producer := PdScan v (Suc i) (scanCursor (mr_ring s) i m)\<rparr>)"
| scanned: "mr_producer s = PdScan v i m \<Longrightarrow> i = length (mc_tails (mr_ring s)) \<Longrightarrow>
    r = (mr_ring s)\<lparr>mc_cachedMinTail := scanResult (mr_ring s) m\<rparr> \<Longrightarrow>
    mc_step w checked s (s\<lparr>mr_ring := r, mr_producer := (if hasRoom r then PdWriting v 0 else PdIdle)\<rparr>)"
| wrt: "mr_producer s = PdWriting v k \<Longrightarrow> k < w \<Longrightarrow>
    mc_step w checked s (s\<lparr>mr_ring := mc_write (mr_ring s) (claimSlot s) ((mc_storage (mr_ring s) ! claimSlot s)[k := v ! k]), mr_producer := PdWriting v (Suc k)\<rparr>)"
| publ: "mr_producer s = PdWriting v w \<Longrightarrow> mc_step w checked s (s\<lparr>mr_ring := mc_publish (mr_ring s), mr_producer := PdIdle, mr_sent := mr_sent s @ [v]\<rparr>)"
| peek_empty: "i < length (mr_consumers s) \<Longrightarrow> mr_consumers s ! i = CnIdle \<Longrightarrow> refreshHead (mr_ring s) i = (False, r) \<Longrightarrow> mc_step w checked s (s\<lparr>mr_ring := r\<rparr>)"
| peek: "i < length (mr_consumers s) \<Longrightarrow> mr_consumers s ! i = CnIdle \<Longrightarrow> refreshHead (mr_ring s) i = (True, r) \<Longrightarrow>
    mc_step w checked s (set_consumer (s\<lparr>mr_ring := r\<rparr>) i (if checked i then CnCheck else CnRead []))"
| chk: "i < length (mr_consumers s) \<Longrightarrow> mr_consumers s ! i = CnCheck \<Longrightarrow>
    mc_step w checked s (set_consumer s i (if overrun (mr_ring s) i then CnLapse (mc_head (mr_ring s)) else CnCopy []))"
| copy: "i < length (mr_consumers s) \<Longrightarrow> mr_consumers s ! i = CnCopy out \<Longrightarrow> length out < w \<Longrightarrow>
    mc_step w checked s (set_consumer s i (CnCopy (out @ [mc_storage (mr_ring s) ! peekSlot s i ! length out])))"
| rechk: "i < length (mr_consumers s) \<Longrightarrow> mr_consumers s ! i = CnCopy out \<Longrightarrow> length out = w \<Longrightarrow>
    mc_step w checked s (set_consumer s i (if overrun (mr_ring s) i then CnLapse (mc_head (mr_ring s)) else CnOk out))"
| lapsed: "i < length (mr_consumers s) \<Longrightarrow> mr_consumers s ! i = CnLapse h \<Longrightarrow>
    mc_step w checked s (set_consumer (s\<lparr>mr_ring := lapse (mr_ring s) i h, mr_pos := (mr_pos s)[i := unat h]\<rparr>) i CnIdle)"
| took: "i < length (mr_consumers s) \<Longrightarrow> mr_consumers s ! i = CnOk out \<Longrightarrow> mc_step w checked s (take_value s i out)"
| read: "i < length (mr_consumers s) \<Longrightarrow> mr_consumers s ! i = CnRead out \<Longrightarrow> length out < w \<Longrightarrow>
    mc_step w checked s (set_consumer s i (CnRead (out @ [mc_storage (mr_ring s) ! peekSlot s i ! length out])))"
| have_read: "i < length (mr_consumers s) \<Longrightarrow> mr_consumers s ! i = CnRead out \<Longrightarrow> length out = w \<Longrightarrow> mc_step w checked s (take_value s i out)"

definition start_multicast :: "'w list MulticastRing \<Rightarrow> 'w mc_threads" where
  "start_multicast r = \<lparr>mr_ring = r, mr_producer = PdIdle, mr_consumers = replicate (length (mc_tails r)) CnIdle,
     mr_pos = replicate (length (mc_tails r)) 0, mr_sent = [], mr_got = replicate (length (mc_tails r)) []\<rparr>"

end
