(* ===== verification/Multicast_Laws.thy ===== *)
theory Multicast_Laws
  imports Multicast_Ring
begin

text \<open>
  The invariant of the threads on a multicast ring, and that every step keeps it.
\<close>

section \<open>One consumer\<close>

definition busy :: "'w mc_consumer \<Rightarrow> bool" where
  "busy c \<longleftrightarrow> (case c of CnIdle \<Rightarrow> False | CnLapse h \<Rightarrow> False | _ \<Rightarrow> True)"

text \<open>What a consumer was given: in the order of the positions, all below its own, and, for a consumer that checks or gates, the values that were sent.\<close>

definition got_ok :: "'w list list \<Rightarrow> bool \<Rightarrow> bool \<Rightarrow> nat \<Rightarrow> (nat \<times> 'w list) list \<Rightarrow> bool" where
  "got_ok sent checked g q got \<longleftrightarrow> (\<forall>z \<in> set got. fst z < q \<and> (checked \<or> g \<longrightarrow> snd z = sent ! fst z)) \<and> sorted_wrt (<) (map fst got)"

lemma got_publish: "got_ok sent checked g q got \<Longrightarrow> q \<le> length sent \<Longrightarrow> got_ok (sent @ [v]) checked g q got"
  by (fastforce simp: got_ok_def nth_append)

lemma got_later: "got_ok sent checked g q got \<Longrightarrow> q \<le> q' \<Longrightarrow> got_ok sent checked g q' got"
  by (auto simp: got_ok_def)

lemma got_took: "got_ok sent checked g q got \<Longrightarrow> (checked \<or> g \<Longrightarrow> out = sent ! q) \<Longrightarrow> got_ok sent checked g (Suc q) (got @ [(q, out)])"
  by (auto simp: got_ok_def sorted_wrt_append less_SucI)

text \<open>
  A consumer at position \<open>q\<close> that has seen the head at \<open>h\<close>, for the values \<open>sent\<close>. What it has copied so far is right as long as
  the producer has not reached its slot again; a gating consumer's slot is safe in any case.
\<close>

definition cons_inv :: "nat \<Rightarrow> nat \<Rightarrow> 'w list list \<Rightarrow> bool \<Rightarrow> bool \<Rightarrow> 'w mc_consumer \<Rightarrow> nat \<Rightarrow> nat \<Rightarrow> (nat \<times> 'w list) list \<Rightarrow> bool" where
  "cons_inv w cap sent g checked c q h got \<longleftrightarrow>
     q \<le> h \<and> h \<le> length sent \<and> (busy c \<longrightarrow> q < h) \<and>
     (case c of
        CnIdle \<Rightarrow> True
      | CnCheck \<Rightarrow> checked
      | CnCopy out \<Rightarrow> checked \<and> length out \<le> w \<and> (length sent < q + cap \<longrightarrow> out = take (length out) (sent ! q))
      | CnLapse n \<Rightarrow> checked \<and> q \<le> unat n \<and> unat n \<le> length sent
      | CnOk out \<Rightarrow> checked \<and> out = sent ! q
      | CnRead out \<Rightarrow> \<not> checked \<and> length out \<le> w \<and> (g \<longrightarrow> out = take (length out) (sent ! q))) \<and>
     got_ok sent checked g q got \<and> (\<not> checked \<longrightarrow> map fst got = [0..<q])"

lemma cons_new: "cons_inv w cap [] g checked CnIdle 0 0 []"
  by (simp add: cons_inv_def busy_def got_ok_def)

lemma cons_publish:
  assumes "cons_inv w cap sent g checked c q h got"
  shows "cons_inv w cap (sent @ [v]) g checked c q h got"
proof -
  have q: "q \<le> length sent" "busy c \<Longrightarrow> (sent @ [v]) ! q = sent ! q" using assms by (auto simp: cons_inv_def nth_append)
  have "got_ok (sent @ [v]) checked g q got" using assms q(1) by (intro got_publish) (simp_all add: cons_inv_def)
  then show ?thesis using assms q(2) unfolding cons_inv_def by (cases c) (simp_all add: busy_def)
qed

lemma cons_seen: "cons_inv w cap sent g checked CnIdle q h got \<Longrightarrow> cons_inv w cap sent g checked CnIdle q (length sent) got"
  by (simp add: cons_inv_def busy_def)

lemma cons_peek: "cons_inv w cap sent g checked CnIdle q h got \<Longrightarrow> q < h \<Longrightarrow> cons_inv w cap sent g checked (if checked then CnCheck else CnRead []) q h got"
  by (simp add: cons_inv_def busy_def)

lemma cons_took:
  assumes "cons_inv w cap sent g checked c q h got" "c = CnOk out \<or> c = CnRead out \<and> (g \<longrightarrow> out = sent ! q)"
  shows "cons_inv w cap sent g checked CnIdle (Suc q) h (got @ [(q, out)])"
proof -
  have q: "q < h" "h \<le> length sent" "checked \<or> g \<longrightarrow> out = sent ! q" using assms by (auto simp: cons_inv_def busy_def)
  have "got_ok sent checked g (Suc q) (got @ [(q, out)])" using assms(1) q(3) by (intro got_took) (simp_all add: cons_inv_def)
  then show ?thesis using assms(1) q(1,2) unfolding cons_inv_def by (simp add: busy_def)
qed

lemma cons_lapsed:
  assumes "cons_inv w cap sent g checked (CnLapse n) q h got"
  shows "cons_inv w cap sent g checked CnIdle (unat n) (unat n) got"
proof -
  have c: "checked" "q \<le> unat n" "unat n \<le> length sent" "got_ok sent checked g q got" using assms by (auto simp: cons_inv_def)
  have "got_ok sent checked g (unat n) got" by (rule got_later [OF c(4,2)])
  then show ?thesis using c(1,3) by (simp add: cons_inv_def busy_def)
qed

lemma cons_copy:
  assumes "cons_inv w cap sent g checked (CnCopy out) q h got" "length out < w" "length sent < q + cap \<Longrightarrow> out @ [x] = take (Suc (length out)) (sent ! q)"
  shows "cons_inv w cap sent g checked (CnCopy (out @ [x])) q h got"
  using assms unfolding cons_inv_def busy_def mc_consumer.case length_append_singleton Suc_le_eq by blast

lemma cons_read:
  assumes "cons_inv w cap sent g checked (CnRead out) q h got" "length out < w" "g \<Longrightarrow> out @ [x] = take (Suc (length out)) (sent ! q)"
  shows "cons_inv w cap sent g checked (CnRead (out @ [x])) q h got"
  using assms unfolding cons_inv_def busy_def mc_consumer.case length_append_singleton Suc_le_eq by blast

section \<open>All threads\<close>

definition writing :: "'w mc_producer \<Rightarrow> bool" where
  "writing d \<longleftrightarrow> (case d of PdWriting v k \<Rightarrow> True | _ \<Rightarrow> False)"

text \<open>The slots that hold the value of a position, for \<open>p\<close> published values.\<close>

definition intact :: "nat \<Rightarrow> nat \<Rightarrow> bool \<Rightarrow> nat \<Rightarrow> bool" where
  "intact cap p wr j \<longleftrightarrow> j < p \<and> (p < j + cap \<or> p = j + cap \<and> \<not> wr)"

definition prod_inv :: "nat \<Rightarrow> nat \<Rightarrow> nat \<Rightarrow> nat \<Rightarrow> (nat \<Rightarrow> bool) \<Rightarrow> nat list \<Rightarrow> 'w list \<Rightarrow> 'w mc_producer \<Rightarrow> bool" where
  "prod_inv w cap p cm g pos cell d \<longleftrightarrow>
     (case d of
        PdIdle \<Rightarrow> True
      | PdScan v i m \<Rightarrow> length v = w \<and> i \<le> length pos \<and> (m = - 1 \<or> cm \<le> unat m \<and> unat m \<le> p) \<and> (\<forall>j < i. g j \<longrightarrow> unat m \<le> pos ! j)
      | PdWriting v k \<Rightarrow> length v = w \<and> k \<le> w \<and> p < cm + cap \<and> take k cell = take k v)"

definition mc_inv :: "nat \<Rightarrow> nat \<Rightarrow> (nat \<Rightarrow> bool) \<Rightarrow> nat \<Rightarrow> nat list \<Rightarrow> 'w mc_threads \<Rightarrow> bool" where
  "mc_inv w cap checked cm hs s \<longleftrightarrow>
     (let r = mr_ring s; p = length (mr_sent s); n = length (mr_consumers s) in
       ring_size cap \<and> mc_capacity r = cap \<and> (\<forall>x \<in> set (mc_storage r). length x = w) \<and> (\<forall>v \<in> set (mr_sent s). length v = w) \<and>
       mc_head r = of_nat p \<and> mc_cachedMinTail r = of_nat cm \<and> mc_tails r = map of_nat (mr_pos s) \<and> mc_cachedHead r = map of_nat hs \<and>
       length (mr_pos s) = n \<and> length hs = n \<and> length (mr_got s) = n \<and>
       cm \<le> p \<and> p \<le> cm + cap \<and> (\<forall>i < n. gating r i \<longrightarrow> cm \<le> mr_pos s ! i) \<and>
       prod_inv w cap p cm (gating r) (mr_pos s) (mc_storage r ! (p mod cap)) (mr_producer s) \<and>
       (\<forall>j. intact cap p (writing (mr_producer s)) j \<longrightarrow> mc_storage r ! (j mod cap) = mr_sent s ! j) \<and>
       (\<forall>i < n. cons_inv w cap (mr_sent s) (gating r i) (checked i) (mr_consumers s ! i) (mr_pos s ! i) (hs ! i) (mr_got s ! i)))"

lemma mc_invD:
  assumes "mc_inv w cap checked cm hs s"
  shows "ring_size cap" "mc_capacity (mr_ring s) = cap" "\<forall>x \<in> set (mc_storage (mr_ring s)). length x = w" "\<forall>v \<in> set (mr_sent s). length v = w"
    "mc_head (mr_ring s) = of_nat (length (mr_sent s))" "mc_cachedMinTail (mr_ring s) = of_nat cm" "mc_tails (mr_ring s) = map of_nat (mr_pos s)"
    "mc_cachedHead (mr_ring s) = map of_nat hs" "length (mr_pos s) = length (mr_consumers s)" "length hs = length (mr_consumers s)"
    "length (mr_got s) = length (mr_consumers s)" "cm \<le> length (mr_sent s)" "length (mr_sent s) \<le> cm + cap"
    "i < length (mr_consumers s) \<Longrightarrow> gating (mr_ring s) i \<Longrightarrow> cm \<le> mr_pos s ! i"
    "prod_inv w cap (length (mr_sent s)) cm (gating (mr_ring s)) (mr_pos s) (mc_storage (mr_ring s) ! (length (mr_sent s) mod cap)) (mr_producer s)"
    "intact cap (length (mr_sent s)) (writing (mr_producer s)) j \<Longrightarrow> mc_storage (mr_ring s) ! (j mod cap) = mr_sent s ! j"
    "i < length (mr_consumers s) \<Longrightarrow> cons_inv w cap (mr_sent s) (gating (mr_ring s) i) (checked i) (mr_consumers s ! i) (mr_pos s ! i) (hs ! i) (mr_got s ! i)"
  using assms by (simp_all add: mc_inv_def Let_def)

lemma mc_pos_le:
  assumes "mc_inv w cap checked cm hs s" "i < length (mr_consumers s)"
  shows "mr_pos s ! i \<le> length (mr_sent s)" "hs ! i \<le> length (mr_sent s)" "mr_pos s ! i \<le> hs ! i"
  using mc_invD(17) [OF assms] by (simp_all add: cons_inv_def)

lemma forward: "xs ! i \<le> (q :: nat) \<Longrightarrow> j < length xs \<Longrightarrow> n \<le> xs ! j \<Longrightarrow> n \<le> xs[i := q] ! j"
  by (cases "j = i") auto

text \<open>A step of one consumer: it may move its cursor and what it has seen of the head forward.\<close>

lemma consumer_inv:
  assumes inv: "mc_inv w cap checked cm hs s" and i: "i < length (mr_consumers s)"
    and c: "cons_inv w cap (mr_sent s) (gating (mr_ring s) i) (checked i) c q h got" and q: "mr_pos s ! i \<le> q"
    and r: "mc_storage r = mc_storage (mr_ring s)" "mc_head r = mc_head (mr_ring s)" "mc_cachedMinTail r = mc_cachedMinTail (mr_ring s)"
      "mc_gatingMask r = mc_gatingMask (mr_ring s)" "mc_tails r = (mc_tails (mr_ring s))[i := of_nat q]" "mc_cachedHead r = (mc_cachedHead (mr_ring s))[i := of_nat h]"
  shows "mc_inv w cap checked cm (hs[i := h])
    (set_consumer (s\<lparr>mr_ring := r, mr_pos := (mr_pos s)[i := q], mr_got := (mr_got s)[i := got]\<rparr>) i c)"
proof -
  note D = mc_invD [OF inv]
  have g: "gating r = gating (mr_ring s)" "mc_capacity r = mc_capacity (mr_ring s)" using r by (simp_all add: gating_def mc_capacity_def fun_eq_iff)
  have "prod_inv w cap (length (mr_sent s)) cm (gating (mr_ring s)) ((mr_pos s)[i := q]) (mc_storage (mr_ring s) ! (length (mr_sent s) mod cap)) (mr_producer s)"
    using D(15) forward [OF q] unfolding prod_inv_def by (cases "mr_producer s") auto
  moreover have "cm \<le> (mr_pos s)[i := q] ! j" if "j < length (mr_consumers s)" "gating (mr_ring s) j" for j
    using D(14) [OF that] q that D(9) by (cases "j = i") auto
  moreover have "cons_inv w cap (mr_sent s) (gating (mr_ring s) j) (checked j) ((mr_consumers s)[i := c] ! j) ((mr_pos s)[i := q] ! j) (hs[i := h] ! j) ((mr_got s)[i := got] ! j)"
    if "j < length (mr_consumers s)" for j
    using D(17) [OF that] c that D(9-11) by (cases "j = i") simp_all
  ultimately show ?thesis using D r g i by (simp add: mc_inv_def Let_def map_update set_consumer_def)
qed

text \<open>Cursors as counters.\<close>

lemma cursor_ge:
  assumes "ring_size cap" "q \<le> p" "p < 2 ^ 64"
  shows "(of_nat p - of_nat q :: 64 word) \<ge> of_nat cap \<longleftrightarrow> q + cap \<le> p"
proof -
  have "unat (of_nat p - of_nat q :: 64 word) = p - q" by (rule cursor_minus) (use assms in simp_all)
  moreover have "unat (of_nat cap :: 64 word) = cap" using ring_size_bound [OF assms(1)] by (simp add: unat_of_nat)
  ultimately show ?thesis using assms(2) by (auto simp: word_le_nat_alt)
qed

lemma hasRoom_iff: "mc_inv w cap checked cm hs s \<Longrightarrow> length (mr_sent s) < 2 ^ 64 \<Longrightarrow> hasRoom (mr_ring s) \<longleftrightarrow> length (mr_sent s) < cm + cap"
  using cursor_ge [of cap cm "length (mr_sent s)"] mc_invD(1,2,5,6,12) [of w cap checked cm hs s] by (simp add: hasRoom_def not_le)

lemma overrun_iff:
  assumes "mc_inv w cap checked cm hs s" "length (mr_sent s) < 2 ^ 64" "i < length (mr_consumers s)"
  shows "overrun (mr_ring s) i \<longleftrightarrow> mr_pos s ! i + cap \<le> length (mr_sent s)"
proof -
  note D = mc_invD [OF assms(1)]
  have "mc_tails (mr_ring s) ! i = of_nat (mr_pos s ! i)" using D(7,9) assms(3) by simp
  then show ?thesis using cursor_ge [OF D(1) mc_pos_le(1) [OF assms(1,3)] assms(2)] D(2,5) by (simp add: overrun_def)
qed

lemma claimSlot_pos: "mc_inv w cap checked cm hs s \<Longrightarrow> claimSlot s = length (mr_sent s) mod cap"
  using mc_invD(1,2,5) [of w cap checked cm hs s] by (simp add: claimSlot_def ring_mask_mod)

lemma peekSlot_pos: "mc_inv w cap checked cm hs s \<Longrightarrow> i < length (mr_consumers s) \<Longrightarrow> peekSlot s i = mr_pos s ! i mod cap"
  using mc_invD(1,2,7,9) [of w cap checked cm hs s] by (simp add: peekSlot_def ring_mask_mod)

lemma word_of_nat_eq: "p < 2 ^ 64 \<Longrightarrow> q < 2 ^ 64 \<Longrightarrow> (of_nat q :: 64 word) = of_nat p \<longleftrightarrow> q = p"
proof -
  assume "p < 2 ^ 64" "q < 2 ^ 64"
  then have "unat (of_nat p :: 64 word) = p" "unat (of_nat q :: 64 word) = q" by (simp_all add: unat_of_nat)
  then show ?thesis by metis
qed

section \<open>Every step\<close>

lemma intact_iff: "intact cap p True j \<longleftrightarrow> j < p \<and> p < j + cap" "intact cap p False j \<longleftrightarrow> j < p \<and> p \<le> j + cap"
  by (auto simp: intact_def)

lemma producer_inv:
  assumes inv: "mc_inv w cap checked cm hs s" and d: "prod_inv w cap (length (mr_sent s)) cm (gating (mr_ring s)) (mr_pos s) (mc_storage (mr_ring s) ! (length (mr_sent s) mod cap)) d"
    and wr: "writing (mr_producer s) \<Longrightarrow> writing d"
  shows "mc_inv w cap checked cm hs (s\<lparr>mr_producer := d\<rparr>)"
proof -
  have "mc_storage (mr_ring s) ! (j mod cap) = mr_sent s ! j" if "intact cap (length (mr_sent s)) (writing d) j" for j
    using mc_invD(16) [OF inv, of j] that wr by (auto simp: intact_def)
  then show ?thesis using mc_invD [OF inv] d by (simp add: mc_inv_def Let_def)
qed

lemma scanCursor_le: "scanCursor r i m \<le> m" "gating r i \<Longrightarrow> scanCursor r i m \<le> mc_tails r ! i"
  by (simp_all add: scanCursor_def)

lemma scan_next_inv:
  assumes inv: "mc_inv w cap checked cm hs s" and p: "length (mr_sent s) < 2 ^ 64 - 1" and d: "mr_producer s = PdScan v i m" "i < length (mc_tails (mr_ring s))"
  shows "mc_inv w cap checked cm hs (s\<lparr>mr_producer := PdScan v (Suc i) (scanCursor (mr_ring s) i m)\<rparr>)"
proof (rule producer_inv [OF inv])
  note D = mc_invD [OF inv]
  let ?m = "scanCursor (mr_ring s) i m"
  have i: "i < length (mr_pos s)" "i < length (mr_consumers s)" using d(2) D(7,9) by simp_all
  have old: "length v = w" "m = - 1 \<or> cm \<le> unat m \<and> unat m \<le> length (mr_sent s)" "\<forall>j < i. gating (mr_ring s) j \<longrightarrow> unat m \<le> mr_pos s ! j"
    using D(15) d(1) by (simp_all add: prod_inv_def)
  have pos: "mr_pos s ! i \<le> length (mr_sent s)" using mc_pos_le [OF inv i(2)] by simp
  then have tail: "unat (mc_tails (mr_ring s) ! i) = mr_pos s ! i" using D(7) i(1) p by (simp add: unat_of_nat)
  have "?m = - 1 \<or> cm \<le> unat ?m \<and> unat ?m \<le> length (mr_sent s)"
    using old(2) D(14) [OF i(2)] tail pos by (auto simp: scanCursor_def min_def)
  moreover have "unat ?m \<le> mr_pos s ! j" if "j < Suc i" "gating (mr_ring s) j" for j
  proof (cases "j = i")
    case True
    then show ?thesis using scanCursor_le(2) [of "mr_ring s" i m] that(2) tail by (simp add: word_le_nat_alt)
  next
    case False
    then have "unat m \<le> mr_pos s ! j" using that old(3) by simp
    then show ?thesis using scanCursor_le(1) [of "mr_ring s" i m] by (simp add: word_le_nat_alt)
  qed
  ultimately show "prod_inv w cap (length (mr_sent s)) cm (gating (mr_ring s)) (mr_pos s) (mc_storage (mr_ring s) ! (length (mr_sent s) mod cap)) (PdScan v (Suc i) ?m)"
    using old(1) i(1) by (simp add: prod_inv_def)
qed (use d in \<open>simp add: writing_def\<close>)

lemma unat_minus_one_word64: "unat (- 1 :: 64 word) = 2 ^ 64 - 1"
  by (simp add: unsigned_minus_1_eq_mask mask_eq_exp_minus_1)

lemma scanned_inv:
  assumes inv: "mc_inv w cap checked cm hs s" and p: "length (mr_sent s) < 2 ^ 64 - 1" and d: "mr_producer s = PdScan v i m" "i = length (mc_tails (mr_ring s))"
    and r: "r = (mr_ring s)\<lparr>mc_cachedMinTail := scanResult (mr_ring s) m\<rparr>"
  shows "\<exists>cm'. mc_inv w cap checked cm' hs (s\<lparr>mr_ring := r, mr_producer := (if hasRoom r then PdWriting v 0 else PdIdle)\<rparr>)"
proof -
  note D = mc_invD [OF inv]
  let ?p = "length (mr_sent s)"
  have old: "length v = w" "m = - 1 \<or> cm \<le> unat m \<and> unat m \<le> ?p" "\<forall>j < i. gating (mr_ring s) j \<longrightarrow> unat m \<le> mr_pos s ! j"
    using D(15) d(1) by (simp_all add: prod_inv_def)
  have n: "i = length (mr_consumers s)" using d(2) D(7,9) by simp
  define cm' where "cm' = (if m = - 1 then ?p else unat m)"
  have res: "scanResult (mr_ring s) m = of_nat cm'" using D(5) by (simp add: scanResult_def cm'_def)
  have cm': "cm \<le> cm'" "cm' \<le> ?p" using old(2) D(12) by (auto simp: cm'_def)
  have gate: "cm' \<le> mr_pos s ! j" if "j < length (mr_consumers s)" "gating (mr_ring s) j" for j
  proof (cases "m = - 1")
    case True
    have "mr_pos s ! j \<le> ?p" using mc_pos_le [OF inv that(1)] by simp
    moreover have "unat m \<le> mr_pos s ! j" using old(3) that n by simp
    ultimately show ?thesis using True p unat_minus_one_word64 by (simp add: cm'_def)
  next
    case False
    then show ?thesis using old(3) that n by (simp add: cm'_def)
  qed
  let ?s = "s\<lparr>mr_ring := r\<rparr>"
  have "mc_inv w cap checked cm' hs (?s\<lparr>mr_producer := PdIdle\<rparr>)"
  proof -
    have "gating r = gating (mr_ring s)" by (simp add: r gating_def fun_eq_iff)
    then show ?thesis using D cm' gate d(1) by (simp add: mc_inv_def Let_def r res mc_capacity_def prod_inv_def writing_def)
  qed
  moreover from hasRoom_iff [OF this] have "hasRoom r \<longleftrightarrow> ?p < cm' + cap" using p by simp
  ultimately show ?thesis using producer_inv [of w cap checked cm' hs "?s\<lparr>mr_producer := PdIdle\<rparr>" "PdWriting v 0"] old(1)
    by (cases "hasRoom r") (auto simp: prod_inv_def writing_def)
qed

lemma write_inv:
  assumes inv: "mc_inv w cap checked cm hs s" and d: "mr_producer s = PdWriting v k" "k < w"
  shows "mc_inv w cap checked cm hs (s\<lparr>mr_ring := mc_write (mr_ring s) (claimSlot s) ((mc_storage (mr_ring s) ! claimSlot s)[k := v ! k]), mr_producer := PdWriting v (Suc k)\<rparr>)"
proof -
  note D = mc_invD [OF inv]
  let ?p = "length (mr_sent s)" and ?st = "mc_storage (mr_ring s)"
  let ?c = "?p mod cap"
  have slot: "claimSlot s = ?c" by (rule claimSlot_pos [OF inv])
  have c: "?c < length ?st" using D(2) ring_size_bound [OF D(1)] by (simp add: mc_capacity_def)
  have old: "length v = w" "?p < cm + cap" "take k (?st ! ?c) = take k v" using D(15) d by (simp_all add: prod_inv_def)
  have len: "length (?st ! ?c) = w" using D(3) c by simp
  have "take (Suc k) ((?st ! ?c)[k := v ! k]) = take (Suc k) v"
    using old(1,3) len d(2) by (simp add: take_Suc_conv_app_nth)
  moreover have "?st[?c := x] ! (j mod cap) = mr_sent s ! j" if "intact cap ?p True j" for j x
  proof -
    have "j mod cap \<noteq> ?c" using mod_window [of j ?p cap] that by (auto simp: intact_iff)
    moreover have "intact cap ?p (writing (mr_producer s)) j" using that d(1) by (simp add: writing_def)
    ultimately show ?thesis using D(16) by simp
  qed
  moreover have "\<forall>x \<in> set (?st[?c := (?st ! ?c)[k := v ! k]]). length x = w" using D(3) len by (auto dest!: set_update_subset_insert [THEN subsetD])
  ultimately show ?thesis using D old d(2) c
    by (simp add: mc_inv_def Let_def slot mc_write_def mc_capacity_def prod_inv_def writing_def gating_def)
qed

lemma publish_inv:
  assumes inv: "mc_inv w cap checked cm hs s" and d: "mr_producer s = PdWriting v w"
  shows "mc_inv w cap checked cm hs (s\<lparr>mr_ring := mc_publish (mr_ring s), mr_producer := PdIdle, mr_sent := mr_sent s @ [v]\<rparr>)"
proof -
  note D = mc_invD [OF inv]
  let ?p = "length (mr_sent s)" and ?st = "mc_storage (mr_ring s)"
  have c: "?p mod cap < length ?st" using D(2) ring_size_bound [OF D(1)] by (simp add: mc_capacity_def)
  have old: "length v = w" "?p < cm + cap" "take w (?st ! (?p mod cap)) = take w v" using D(15) d by (simp_all add: prod_inv_def)
  then have cell: "?st ! (?p mod cap) = v" using D(3) c by simp
  have "?st ! (j mod cap) = (mr_sent s @ [v]) ! j" if "intact cap (Suc ?p) False j" for j
  proof (cases "j = ?p")
    case True
    then show ?thesis using cell by (simp add: nth_append)
  next
    case False
    then have "j < ?p" "intact cap ?p (writing (mr_producer s)) j" using that d by (auto simp: intact_iff writing_def)
    then show ?thesis using D(16) by (simp add: nth_append)
  qed
  moreover have "cons_inv w cap (mr_sent s @ [v]) (gating (mr_ring s) i) (checked i) (mr_consumers s ! i) (mr_pos s ! i) (hs ! i) (mr_got s ! i)"
    if "i < length (mr_consumers s)" for i using cons_publish [OF D(17) [OF that]] .
  ultimately show ?thesis using D old
    by (simp add: mc_inv_def Let_def mc_publish_def mc_capacity_def prod_inv_def writing_def gating_def add.commute)
qed

section \<open>The steps of a consumer\<close>

lemma refresh_cases:
  assumes inv: "mc_inv w cap checked cm hs s" and p: "length (mr_sent s) < 2 ^ 64 - 1" and i: "i < length (mr_consumers s)" "mr_consumers s ! i = CnIdle"
    and r: "refreshHead (mr_ring s) i = (some, r)"
  obtains h where "hs ! i \<le> h" "h \<le> length (mr_sent s)" "some \<longleftrightarrow> mr_pos s ! i < h" "r = (mr_ring s)\<lparr>mc_cachedHead := (mc_cachedHead (mr_ring s))[i := of_nat h]\<rparr>"
proof -
  note D = mc_invD [OF inv] and P = mc_pos_le [OF inv i(1)]
  have t: "mc_tails (mr_ring s) ! i = of_nat (mr_pos s ! i)" "mc_cachedHead (mr_ring s) ! i = of_nat (hs ! i)" using D(7-10) i(1) by simp_all
  have e: "mc_tails (mr_ring s) ! i = mc_cachedHead (mr_ring s) ! i \<longleftrightarrow> mr_pos s ! i = hs ! i"
    "mc_tails (mr_ring s) ! i = mc_head (mr_ring s) \<longleftrightarrow> mr_pos s ! i = length (mr_sent s)"
    unfolding t D(5) by (rule word_of_nat_eq; use P p in linarith)+
  show thesis
  proof (cases "mr_pos s ! i = hs ! i")
    case True
    then have "some \<longleftrightarrow> mr_pos s ! i < length (mr_sent s)" "r = (mr_ring s)\<lparr>mc_cachedHead := (mc_cachedHead (mr_ring s))[i := mc_head (mr_ring s)]\<rparr>"
      using r e P by (auto simp: refreshHead_def)
    then show thesis using that [of "length (mr_sent s)"] P D(5) by simp
  next
    case False
    then have "some" "r = mr_ring s" using r e by (auto simp: refreshHead_def)
    moreover have "(mc_cachedHead (mr_ring s))[i := of_nat (hs ! i)] = mc_cachedHead (mr_ring s)" using t(2) by (metis list_update_id)
    ultimately show thesis using that [of "hs ! i"] P False by simp
  qed
qed

lemma same_consumer:
  assumes inv: "mc_inv w cap checked cm hs s" and i: "i < length (mr_consumers s)"
    and c: "cons_inv w cap (mr_sent s) (gating (mr_ring s) i) (checked i) c (mr_pos s ! i) (hs ! i) (mr_got s ! i)"
  shows "mc_inv w cap checked cm hs (set_consumer s i c)"
proof -
  note D = mc_invD [OF inv]
  have "mc_inv w cap checked cm (hs[i := hs ! i])
    (set_consumer (s\<lparr>mr_ring := mr_ring s, mr_pos := (mr_pos s)[i := mr_pos s ! i], mr_got := (mr_got s)[i := mr_got s ! i]\<rparr>) i c)"
    by (rule consumer_inv [OF inv i c]) (use D(7-10) i in \<open>simp_all add: map_update [symmetric]\<close>)
  then show ?thesis by (simp add: set_consumer_def)
qed

lemma refresh_inv:
  assumes inv: "mc_inv w cap checked cm hs s" and p: "length (mr_sent s) < 2 ^ 64 - 1" and i: "i < length (mr_consumers s)" "mr_consumers s ! i = CnIdle"
    and r: "refreshHead (mr_ring s) i = (some, r)" and c: "c = CnIdle \<or> some \<and> c = (if checked i then CnCheck else CnRead [])"
  shows "\<exists>hs'. mc_inv w cap checked cm hs' (set_consumer (s\<lparr>mr_ring := r\<rparr>) i c)"
proof -
  note D = mc_invD [OF inv]
  obtain h where h: "hs ! i \<le> h" "h \<le> length (mr_sent s)" "some \<longleftrightarrow> mr_pos s ! i < h" "r = (mr_ring s)\<lparr>mc_cachedHead := (mc_cachedHead (mr_ring s))[i := of_nat h]\<rparr>"
    by (rule refresh_cases [OF inv p i r])
  have idle: "cons_inv w cap (mr_sent s) (gating (mr_ring s) i) (checked i) CnIdle (mr_pos s ! i) h (mr_got s ! i)"
    using D(17) [OF i(1)] h(1,2) by (simp add: i(2) cons_inv_def busy_def)
  have ci: "cons_inv w cap (mr_sent s) (gating (mr_ring s) i) (checked i) c (mr_pos s ! i) h (mr_got s ! i)"
  proof (cases "c = CnIdle")
    case True
    then show ?thesis using idle by simp
  next
    case False
    then have c': "c = (if checked i then CnCheck else CnRead [])" and q: "mr_pos s ! i < h" using c h(3) by simp_all
    show ?thesis unfolding c' by (rule cons_peek [OF idle q])
  qed
  have "mc_inv w cap checked cm (hs[i := h])
    (set_consumer (s\<lparr>mr_ring := r, mr_pos := (mr_pos s)[i := mr_pos s ! i], mr_got := (mr_got s)[i := mr_got s ! i]\<rparr>) i c)"
    by (rule consumer_inv [OF inv i(1) ci]) (use D(7,9) i h(4) in \<open>simp_all add: map_update [symmetric]\<close>)
  then show ?thesis by (auto simp: set_consumer_def)
qed

lemma copy_word:
  assumes inv: "mc_inv w cap checked cm hs s" and i: "i < length (mr_consumers s)" and q: "intact cap (length (mr_sent s)) (writing (mr_producer s)) (mr_pos s ! i)"
    and out: "length out < w" "out = take (length out) (mr_sent s ! (mr_pos s ! i))"
  shows "out @ [mc_storage (mr_ring s) ! peekSlot s i ! length out] = take (Suc (length out)) (mr_sent s ! (mr_pos s ! i))"
proof -
  have "length (mr_sent s ! (mr_pos s ! i)) = w" using mc_invD(4) [OF inv] q by (auto simp: intact_def)
  then show ?thesis using out mc_invD(16) [OF inv q] peekSlot_pos [OF inv i] by (simp add: take_Suc_conv_app_nth)
qed

lemma gating_intact:
  assumes inv: "mc_inv w cap checked cm hs s" and i: "i < length (mr_consumers s)" "gating (mr_ring s) i" "mr_pos s ! i < length (mr_sent s)"
  shows "intact cap (length (mr_sent s)) (writing (mr_producer s)) (mr_pos s ! i)"
proof -
  note D = mc_invD [OF inv]
  have "writing (mr_producer s) \<Longrightarrow> length (mr_sent s) < cm + cap" using D(15) by (cases "mr_producer s") (simp_all add: writing_def prod_inv_def)
  then show ?thesis using D(13) D(14) [OF i(1,2)] i(3) by (force simp: intact_def)
qed

lemma copy_inv:
  assumes inv: "mc_inv w cap checked cm hs s" and i: "i < length (mr_consumers s)" "mr_consumers s ! i = CnCopy out" "length out < w"
  shows "mc_inv w cap checked cm hs (set_consumer s i (CnCopy (out @ [mc_storage (mr_ring s) ! peekSlot s i ! length out])))"
proof (rule same_consumer [OF inv i(1)])
  let ?q = "mr_pos s ! i"
  have old: "checked i" "?q < hs ! i" "hs ! i \<le> length (mr_sent s)" "length (mr_sent s) < ?q + cap \<longrightarrow> out = take (length out) (mr_sent s ! ?q)"
    and c: "cons_inv w cap (mr_sent s) (gating (mr_ring s) i) (checked i) (CnCopy out) ?q (hs ! i) (mr_got s ! i)"
    using mc_invD(17) [OF inv i(1)] unfolding i(2) by (auto simp: cons_inv_def busy_def)
  have "out @ [mc_storage (mr_ring s) ! peekSlot s i ! length out] = take (Suc (length out)) (mr_sent s ! ?q)" if "length (mr_sent s) < ?q + cap"
    by (rule copy_word [OF inv i(1) _ i(3)]) (use old that in \<open>simp_all add: intact_def\<close>)
  from cons_copy [OF c i(3) this] show "cons_inv w cap (mr_sent s) (gating (mr_ring s) i) (checked i) (CnCopy (out @ [mc_storage (mr_ring s) ! peekSlot s i ! length out])) ?q (hs ! i) (mr_got s ! i)" .
qed

lemma read_inv:
  assumes inv: "mc_inv w cap checked cm hs s" and i: "i < length (mr_consumers s)" "mr_consumers s ! i = CnRead out" "length out < w"
  shows "mc_inv w cap checked cm hs (set_consumer s i (CnRead (out @ [mc_storage (mr_ring s) ! peekSlot s i ! length out])))"
proof (rule same_consumer [OF inv i(1)])
  let ?q = "mr_pos s ! i"
  have old: "?q < length (mr_sent s)" "gating (mr_ring s) i \<longrightarrow> out = take (length out) (mr_sent s ! ?q)"
    and c: "cons_inv w cap (mr_sent s) (gating (mr_ring s) i) (checked i) (CnRead out) ?q (hs ! i) (mr_got s ! i)"
    using mc_invD(17) [OF inv i(1)] unfolding i(2) by (auto simp: cons_inv_def busy_def)
  have "out @ [mc_storage (mr_ring s) ! peekSlot s i ! length out] = take (Suc (length out)) (mr_sent s ! ?q)" if "gating (mr_ring s) i"
    using copy_word [OF inv i(1) gating_intact [OF inv i(1) that old(1)] i(3)] old(2) that by blast
  from cons_read [OF c i(3) this] show "cons_inv w cap (mr_sent s) (gating (mr_ring s) i) (checked i) (CnRead (out @ [mc_storage (mr_ring s) ! peekSlot s i ! length out])) ?q (hs ! i) (mr_got s ! i)" .
qed

lemma check_inv:
  assumes inv: "mc_inv w cap checked cm hs s" and p: "length (mr_sent s) < 2 ^ 64 - 1" and i: "i < length (mr_consumers s)"
    and c: "mr_consumers s ! i = CnCheck \<and> c = CnCopy [] \<or> mr_consumers s ! i = CnCopy out \<and> length out = w \<and> c = CnOk out"
  shows "mc_inv w cap checked cm hs (set_consumer s i (if overrun (mr_ring s) i then CnLapse (mc_head (mr_ring s)) else c))"
proof (rule same_consumer [OF inv i])
  note D = mc_invD [OF inv] and P = mc_pos_le [OF inv i]
  let ?q = "mr_pos s ! i"
  have ov: "overrun (mr_ring s) i \<longleftrightarrow> ?q + cap \<le> length (mr_sent s)" by (rule overrun_iff [OF inv _ i]) (use p in simp)
  have head: "unat (mc_head (mr_ring s)) = length (mr_sent s)" using D(5) p by (simp add: unat_of_nat)
  have ci: "cons_inv w cap (mr_sent s) (gating (mr_ring s) i) (checked i) (mr_consumers s ! i) ?q (hs ! i) (mr_got s ! i)" by (rule D(17) [OF i])
  have "mr_sent s ! ?q = out" if "mr_consumers s ! i = CnCopy out" "length out = w" "\<not> overrun (mr_ring s) i"
  proof -
    have "?q < length (mr_sent s)" "out = take w (mr_sent s ! ?q)" using ci that ov by (auto simp: cons_inv_def busy_def)
    then show ?thesis using D(4) by simp
  qed
  then show "cons_inv w cap (mr_sent s) (gating (mr_ring s) i) (checked i) (if overrun (mr_ring s) i then CnLapse (mc_head (mr_ring s)) else c) ?q (hs ! i) (mr_got s ! i)"
    using ci c P head by (auto simp: cons_inv_def busy_def)
qed

lemma lapsed_inv:
  assumes inv: "mc_inv w cap checked cm hs s" and i: "i < length (mr_consumers s)" "mr_consumers s ! i = CnLapse h"
  shows "mc_inv w cap checked cm (hs[i := unat h]) (set_consumer (s\<lparr>mr_ring := lapse (mr_ring s) i h, mr_pos := (mr_pos s)[i := unat h]\<rparr>) i CnIdle)"
proof -
  have c: "cons_inv w cap (mr_sent s) (gating (mr_ring s) i) (checked i) (CnLapse h) (mr_pos s ! i) (hs ! i) (mr_got s ! i)" using mc_invD(17) [OF inv i(1)] i(2) by simp
  have le: "mr_pos s ! i \<le> unat h" using c by (simp add: cons_inv_def)
  have "mc_inv w cap checked cm (hs[i := unat h])
    (set_consumer (s\<lparr>mr_ring := lapse (mr_ring s) i h, mr_pos := (mr_pos s)[i := unat h], mr_got := (mr_got s)[i := mr_got s ! i]\<rparr>) i CnIdle)"
    by (rule consumer_inv [OF inv i(1) cons_lapsed [OF c] le]) (simp_all add: lapse_def)
  then show ?thesis by (simp add: set_consumer_def)
qed

lemma take_inv:
  assumes inv: "mc_inv w cap checked cm hs s" and i: "i < length (mr_consumers s)"
    and c: "mr_consumers s ! i = CnOk out \<or> mr_consumers s ! i = CnRead out \<and> length out = w"
  shows "mc_inv w cap checked cm hs (take_value s i out)"
proof -
  note D = mc_invD [OF inv]
  let ?q = "mr_pos s ! i"
  have ci: "cons_inv w cap (mr_sent s) (gating (mr_ring s) i) (checked i) (mr_consumers s ! i) ?q (hs ! i) (mr_got s ! i)" by (rule D(17) [OF i])
  have "mr_consumers s ! i = CnOk out \<or> mr_consumers s ! i = CnRead out \<and> (gating (mr_ring s) i \<longrightarrow> out = mr_sent s ! ?q)"
  proof (cases "mr_consumers s ! i = CnOk out")
    case False
    then have r: "mr_consumers s ! i = CnRead out" "length out = w" using c by auto
    then have "?q < length (mr_sent s)" "gating (mr_ring s) i \<longrightarrow> out = take w (mr_sent s ! ?q)" using ci by (auto simp: cons_inv_def busy_def)
    then show ?thesis using r(1) D(4) by simp
  qed simp
  note t = cons_took [OF ci this]
  have "mc_inv w cap checked cm (hs[i := hs ! i])
    (set_consumer (s\<lparr>mr_ring := mc_consume (mr_ring s) i, mr_pos := (mr_pos s)[i := Suc ?q], mr_got := (mr_got s)[i := mr_got s ! i @ [(?q, out)]]\<rparr>) i CnIdle)"
    by (rule consumer_inv [OF inv i t]) (use D(7-10) i in \<open>simp_all add: mc_consume_def map_update [symmetric] add.commute\<close>)
  then show ?thesis by (simp add: take_value_def set_consumer_def)
qed

end
