(* ===== verification/Multicast_Properties.thy ===== *)
theory Multicast_Properties
  imports Multicast_Laws
begin

text \<open>
  What the consumers of a multicast ring are given, and who can hold its producer up.
\<close>

section \<open>Every reachable state\<close>

lemma mc_step_inv:
  assumes "mc_step w checked s s'" "mc_inv w cap checked cm hs s" "length (mr_sent s) < 2 ^ 64 - 1"
  shows "\<exists>cm' hs'. mc_inv w cap checked cm' hs' s'"
  using assms
proof (induction rule: mc_step.induct)
  case (claim s v)
  have "length (mr_sent s) < cm + cap" using hasRoom_iff [OF claim.prems(1)] claim by simp
  then have "mc_inv w cap checked cm hs (s\<lparr>mr_producer := PdWriting v 0\<rparr>)"
    using claim by (intro producer_inv) (simp_all add: prod_inv_def writing_def)
  then show ?case by blast
next
  case (scan s v)
  have "mc_inv w cap checked cm hs (s\<lparr>mr_producer := PdScan v 0 (- 1)\<rparr>)"
    using scan by (intro producer_inv) (simp_all add: prod_inv_def writing_def)
  then show ?case by blast
next
  case (scan_next s v i m)
  from scan_next_inv [OF scan_next.prems scan_next.hyps] show ?case by blast
next
  case (scanned s v i m r)
  from scanned_inv [OF scanned.prems scanned.hyps] show ?case by blast
next
  case (wrt s v k)
  from write_inv [OF wrt.prems(1) wrt.hyps] show ?case by blast
next
  case (publ s v)
  from publish_inv [OF publ.prems(1) publ.hyps] show ?case by blast
next
  case (peek_empty i s r)
  have "set_consumer (s\<lparr>mr_ring := r\<rparr>) i CnIdle = s\<lparr>mr_ring := r\<rparr>" using peek_empty.hyps(2) by (simp add: set_consumer_def flip: peek_empty.hyps(2))
  then show ?case using refresh_inv [OF peek_empty.prems peek_empty.hyps, of CnIdle] by auto
next
  case (peek i s r)
  from refresh_inv [OF peek.prems peek.hyps, of "if checked i then CnCheck else CnRead []"] show ?case by blast
next
  case (chk i s)
  from check_inv [OF chk.prems chk.hyps(1), of "CnCopy []"] chk.hyps(2) show ?case by blast
next
  case (copy i s out)
  from copy_inv [OF copy.prems(1) copy.hyps] show ?case by blast
next
  case (rechk i s out)
  from check_inv [OF rechk.prems rechk.hyps(1), of "CnOk out" out] rechk.hyps(2,3) show ?case by blast
next
  case (lapsed i s h)
  from lapsed_inv [OF lapsed.prems(1) lapsed.hyps] show ?case by blast
next
  case (took i s out)
  from take_inv [OF took.prems(1) took.hyps(1), of out] took.hyps(2) show ?case by blast
next
  case (read i s out)
  from read_inv [OF read.prems(1) read.hyps] show ?case by blast
next
  case (have_read i s out)
  from take_inv [OF have_read.prems(1) have_read.hyps(1), of out] have_read.hyps(2,3) show ?case by blast
qed

lemma refreshHead_same: "refreshHead r i = (b, r') \<Longrightarrow> mc_gatingMask r' = mc_gatingMask r"
  by (auto simp: refreshHead_def Let_def split: if_splits)

lemma mc_step_grows:
  assumes "mc_step w checked s s'"
  shows "length (mr_sent s) \<le> length (mr_sent s')" "length (mr_consumers s') = length (mr_consumers s)" "mc_gatingMask (mr_ring s') = mc_gatingMask (mr_ring s)"
  using assms by (induction rule: mc_step.induct)
    (auto simp: set_consumer_def take_value_def mc_write_def mc_publish_def mc_consume_def lapse_def refreshHead_same)

lemma mc_start_inv:
  assumes "ring_size cap" "length d = w"
  shows "mc_inv w cap checked 0 (replicate n 0) (start_multicast (newMulticastRing d n cap gm))"
  using assms by (simp add: mc_inv_def Let_def start_multicast_def newMulticastRing_def mc_capacity_def prod_inv_def intact_def cons_new)

lemma mc_reachable_inv:
  assumes "(mc_step w checked)\<^sup>*\<^sup>* (start_multicast (newMulticastRing d n cap gm)) s" "ring_size cap" "length d = w" "length (mr_sent s) < 2 ^ 64 - 1"
  shows "(\<exists>cm hs. mc_inv w cap checked cm hs s) \<and> length (mr_consumers s) = n \<and> mc_gatingMask (mr_ring s) = gm"
  using assms(1,4)
proof (induction rule: rtranclp_induct)
  case base
  have "length (mr_consumers (start_multicast (newMulticastRing d n cap gm))) = n" "mc_gatingMask (mr_ring (start_multicast (newMulticastRing d n cap gm))) = gm"
    by (simp_all add: start_multicast_def newMulticastRing_def)
  then show ?case using mc_start_inv [OF assms(2,3)] by blast
next
  case (step s s')
  then have p: "length (mr_sent s) < 2 ^ 64 - 1" using mc_step_grows(1) [OF step.hyps(2)] by simp
  then obtain cm hs where "mc_inv w cap checked cm hs s" using step.IH by blast
  then show ?case using mc_step_inv [OF step.hyps(2)] mc_step_grows [OF step.hyps(2)] step.IH p by metis
qed

lemma got_prefix:
  assumes "got_ok sent checked g q got" "checked \<or> g" "map fst got = [0..<q]" "q \<le> length sent"
  shows "map snd got = take q sent"
proof (rule nth_equalityI)
  have len: "length got = q" using arg_cong [OF assms(3), of length] by simp
  then show l: "length (map snd got) = length (take q sent)" using assms(4) by simp
  fix k assume k: "k < length (map snd got)"
  have "fst (got ! k) = [0..<q] ! k" using k by (simp flip: assms(3))
  then have "fst (got ! k) = k" using k len by simp
  then show "map snd got ! k = take q sent ! k" using assms(1,2) k len by (auto simp: got_ok_def dest!: bspec [OF _ nth_mem])
qed

section \<open>What the consumers are given\<close>

text \<open>
  C17: A gating consumer that uses \<^verbatim>\<open>tryPeek\<close> gets every published value, in order, whole and unchanged, under every
  interleaving of the threads, although slots are written and read word by word and the other consumers go at their own pace. The steps of the
  threads are those of a sequentially consistent memory; the orderings they need are the release of a cursor and its acquire, which the code has.
\<close>

theorem multicast_gating_delivers:
  assumes "ring_size cap" "length d = w" "(mc_step w checked)\<^sup>*\<^sup>* (start_multicast (newMulticastRing d n cap gm)) s"
    and "length (mr_sent s) < 2 ^ 64 - 1" "i < n" "bit gm i" "\<not> checked i"
  shows "map snd (mr_got s ! i) = take (mr_pos s ! i) (mr_sent s) \<and> mr_pos s ! i \<le> length (mr_sent s)"
proof -
  obtain cm hs where inv: "mc_inv w cap checked cm hs s" "length (mr_consumers s) = n" "mc_gatingMask (mr_ring s) = gm"
    using mc_reachable_inv [OF assms(3,1,2,4)] by blast
  have i: "i < length (mr_consumers s)" using inv(2) assms(5) by simp
  have g: "gating (mr_ring s) i" using inv(3) assms(6) by (simp add: gating_def)
  have le: "mr_pos s ! i \<le> length (mr_sent s)" by (rule mc_pos_le(1) [OF inv(1) i])
  have c: "got_ok (mr_sent s) (checked i) (gating (mr_ring s) i) (mr_pos s ! i) (mr_got s ! i)" "\<not> checked i \<longrightarrow> map fst (mr_got s ! i) = [0..<mr_pos s ! i]"
    using mc_invD(17) [OF inv(1) i] unfolding cons_inv_def by blast+
  show ?thesis using got_prefix [OF c(1)] c(2) g assms(7) le by simp
qed

text \<open>
  C18: A consumer that uses \<^verbatim>\<open>tryPeekChecked\<close> is never given a torn or stale value, whether it gates or not: each value it takes is the
  one that was published at the position it was at, and it only moves forward. What it loses when the producer laps it is skipped, not
  mixed. This is for sequentially consistent memory, where the words of the copy are read before the head is loaded again, and for
  fewer than 2 to the 64 values: an acquire load, which is all the code has there, does not order the plain reads in front of it, so
  that on a weaker machine the check could come before the copy.
\<close>

theorem multicast_checked_never_torn:
  assumes "ring_size cap" "length d = w" "(mc_step w checked)\<^sup>*\<^sup>* (start_multicast (newMulticastRing d n cap gm)) s"
    and "length (mr_sent s) < 2 ^ 64 - 1" "i < n" "checked i"
  shows "sorted_wrt (<) (map fst (mr_got s ! i)) \<and> list_all (\<lambda>(q, v). q < length (mr_sent s) \<and> v = mr_sent s ! q) (mr_got s ! i)"
proof -
  obtain cm hs where inv: "mc_inv w cap checked cm hs s" "length (mr_consumers s) = n"
    using mc_reachable_inv [OF assms(3,1,2,4)] by blast
  have i: "i < length (mr_consumers s)" using inv(2) assms(5) by simp
  have le: "mr_pos s ! i \<le> length (mr_sent s)" by (rule mc_pos_le(1) [OF inv(1) i])
  have "got_ok (mr_sent s) (checked i) (gating (mr_ring s) i) (mr_pos s ! i) (mr_got s ! i)" using mc_invD(17) [OF inv(1) i] unfolding cons_inv_def by blast
  then show ?thesis using le assms(6) by (fastforce simp: got_ok_def list_all_iff)
qed

section \<open>Who can hold the producer up\<close>

lemma scan_steps:
  assumes "mr_producer s = PdScan v i m" "i \<le> length (mc_tails (mr_ring s))"
  shows "(mc_step w checked)\<^sup>*\<^sup>* s (s\<lparr>mr_producer := PdScan v (length (mc_tails (mr_ring s))) (foldl (\<lambda>m j. scanCursor (mr_ring s) j m) m [i..<length (mc_tails (mr_ring s))])\<rparr>)"
  using assms
proof (induction "length (mc_tails (mr_ring s)) - i" arbitrary: s i m)
  case 0
  then have e: "i = length (mc_tails (mr_ring s))" by simp
  have "s\<lparr>mr_producer := mr_producer s\<rparr> = s" by simp
  then show ?case unfolding 0 e by simp
next
  case (Suc k)
  let ?n = "length (mc_tails (mr_ring s))" and ?s = "s\<lparr>mr_producer := PdScan v (Suc i) (scanCursor (mr_ring s) i m)\<rparr>"
  have i: "i < ?n" using Suc.hyps(2) by simp
  have "mc_step w checked s ?s" by (rule mc_step.scan_next [OF Suc.prems(1) i])
  moreover have "(mc_step w checked)\<^sup>*\<^sup>* ?s (?s\<lparr>mr_producer := PdScan v (length (mc_tails (mr_ring ?s))) (foldl (\<lambda>m j. scanCursor (mr_ring ?s) j m) (scanCursor (mr_ring s) i m) [Suc i..<length (mc_tails (mr_ring ?s))])\<rparr>)"
    by (rule Suc.hyps(1)) (use Suc.hyps(2) i in simp_all)
  ultimately show ?case using i by (simp add: upt_conv_Cons converse_rtranclp_into_rtranclp)
qed

lemma scan_fold:
  fixes r :: "'a MulticastRing"
  defines "f \<equiv> foldl (\<lambda>m j. scanCursor r j m) (- 1)"
  shows "f js = - 1 \<or> (\<exists>j \<in> set js. gating r j \<and> f js = mc_tails r ! j)"
proof (induction js rule: rev_induct)
  case (snoc j js)
  then show ?case by (auto simp: f_def scanCursor_def min_def)
qed (simp add: f_def)

text \<open>
  C19: Only a gating consumer can hold the producer up: in any reachable state in which the producer is idle and no gating consumer is a
  full ring behind, the producer's own steps of \<^verbatim>\<open>tryClaim\<close> end with a slot to write, however far behind the other consumers are.
\<close>

theorem multicast_producer_not_stalled:
  assumes "ring_size cap" "length d = w" "(mc_step w checked)\<^sup>*\<^sup>* (start_multicast (newMulticastRing d n cap gm)) s"
    and "length (mr_sent s) < 2 ^ 64 - 1" "mr_producer s = PdIdle" "length v = w" "list_all (\<lambda>i. bit gm i \<longrightarrow> length (mr_sent s) < mr_pos s ! i + cap) [0..<n]"
  shows "\<exists>m. (mc_step w checked)\<^sup>*\<^sup>* s (s\<lparr>mr_ring := (mr_ring s)\<lparr>mc_cachedMinTail := m\<rparr>, mr_producer := PdWriting v 0\<rparr>)"
proof (cases "hasRoom (mr_ring s)")
  case True
  have "s\<lparr>mr_ring := (mr_ring s)\<lparr>mc_cachedMinTail := mc_cachedMinTail (mr_ring s)\<rparr>, mr_producer := PdWriting v 0\<rparr> = s\<lparr>mr_producer := PdWriting v 0\<rparr>" by simp
  then show ?thesis using mc_step.claim [where checked = checked, OF assms(5,6) True] by (metis r_into_rtranclp)
next
  case False
  obtain cm hs where inv: "mc_inv w cap checked cm hs s" "length (mr_consumers s) = n" "mc_gatingMask (mr_ring s) = gm"
    using mc_reachable_inv [OF assms(3,1,2,4)] by blast
  note D = mc_invD [OF inv(1)]
  let ?r = "mr_ring s" and ?p = "length (mr_sent s)"
  have n: "length (mc_tails ?r) = n" using D(7,9) inv(2) by simp
  define m where "m = foldl (\<lambda>m j. scanCursor ?r j m) (- 1) [0..<n]"
  define r where "r = ?r\<lparr>mc_cachedMinTail := scanResult ?r m\<rparr>"
  let ?s1 = "s\<lparr>mr_producer := PdScan v 0 (- 1)\<rparr>" and ?s2 = "s\<lparr>mr_producer := PdScan v n m\<rparr>"
  have s1: "mc_step w checked s ?s1" by (rule mc_step.scan [OF assms(5,6) False])
  have s2: "(mc_step w checked)\<^sup>*\<^sup>* ?s1 ?s2" using scan_steps [of ?s1 v 0 "- 1" w checked] n by (simp add: m_def)
  have s3: "mc_step w checked ?s2 (?s2\<lparr>mr_ring := r, mr_producer := (if hasRoom r then PdWriting v 0 else PdIdle)\<rparr>)"
    by (rule mc_step.scanned [of _ v n m]) (simp_all add: n r_def)
  have "\<exists>q. scanResult ?r m = of_nat q \<and> q \<le> ?p \<and> ?p < q + cap"
  proof (cases "m = - 1")
    case True
    then show ?thesis using D(5) ring_size_bound [OF assms(1)] by (auto simp: scanResult_def)
  next
    case False
    then obtain j where j: "j < n" "gating ?r j" "m = mc_tails ?r ! j" using scan_fold [of ?r "[0..<n]"] by (auto simp: m_def)
    then have "m = of_nat (mr_pos s ! j)" "mr_pos s ! j \<le> ?p" "?p < mr_pos s ! j + cap"
      using D(7,9) inv(2,3) mc_pos_le [OF inv(1)] assms(7) by (simp_all add: gating_def list_all_iff)
    then show ?thesis using False by (auto simp: scanResult_def)
  qed
  then obtain q where q: "scanResult ?r m = of_nat q" "q \<le> ?p" "?p < q + cap" by blast
  have "hasRoom r" using cursor_ge [OF assms(1) q(2)] assms(4) D(2,5) q(1,3) by (simp add: hasRoom_def r_def mc_capacity_def)
  then have "(mc_step w checked)\<^sup>*\<^sup>* s (?s2\<lparr>mr_ring := r, mr_producer := PdWriting v 0\<rparr>)" using s1 s2 s3 by simp
  then show ?thesis by (auto simp: r_def)
qed

section \<open>A run\<close>

text \<open>A ring of two one-word slots, whose first consumer gates and whose second one uses \<^verbatim>\<open>tryPeekChecked\<close>.\<close>

definition demo_ring :: "nat mc_threads" where
  "demo_ring = start_multicast (newMulticastRing [0] 2 2 1)"

lemma demo_published:
  "(mc_step 1 (\<lambda>i. i = 1))\<^sup>*\<^sup>* demo_ring (demo_ring\<lparr>mr_ring := (newMulticastRing [0] 2 2 1)\<lparr>mc_storage := [[7], [0]], mc_head := 1\<rparr>, mr_sent := [[7]]\<rparr>)"
proof -
  let ?c = "\<lambda>i :: nat. i = 1"
  let ?s1 = "demo_ring\<lparr>mr_producer := PdWriting [7] 0\<rparr>"
  let ?s2 = "demo_ring\<lparr>mr_ring := (newMulticastRing [0] 2 2 1)\<lparr>mc_storage := [[7], [0]]\<rparr>, mr_producer := PdWriting [7] 1\<rparr>"
  let ?s3 = "demo_ring\<lparr>mr_ring := (newMulticastRing [0] 2 2 1)\<lparr>mc_storage := [[7], [0]], mc_head := 1\<rparr>, mr_sent := [[7]]\<rparr>"
  note defs = demo_ring_def start_multicast_def newMulticastRing_def hasRoom_def mc_capacity_def claimSlot_def ring_mask_def mc_write_def mc_publish_def
  have "mc_step 1 ?c demo_ring ?s1" by (rule mc_step.claim) (simp_all add: defs)
  moreover have "mc_step 1 ?c ?s1 ?s2" using mc_step.wrt [of ?s1 "[7]" 0 1 ?c] by (simp add: defs numeral_2_eq_2)
  moreover have "mc_step 1 ?c ?s2 ?s3" using mc_step.publ [of ?s2 "[7]" 1 ?c] by (simp add: defs)
  ultimately show ?thesis by (meson converse_rtranclp_into_rtranclp r_into_rtranclp)
qed

lemma demo_consumed:
  "\<exists>s. (mc_step 1 (\<lambda>i. i = 1))\<^sup>*\<^sup>* demo_ring s \<and> mr_producer s = PdIdle \<and> mr_sent s = [[7]] \<and> mr_pos s = [1, 1] \<and> mr_got s = [[(0, [7])], [(0, [7])]]"
proof -
  let ?c = "\<lambda>i :: nat. i = 1"
  let ?r = "(newMulticastRing [0 :: nat] 2 2 1)\<lparr>mc_storage := [[7], [0]], mc_head := 1\<rparr>"
  define s3 where "s3 = demo_ring\<lparr>mr_ring := ?r, mr_sent := [[7]]\<rparr>"
  define s4 where "s4 = set_consumer (s3\<lparr>mr_ring := ?r\<lparr>mc_cachedHead := [1, 0]\<rparr>\<rparr>) 0 (CnRead [])"
  define s5 where "s5 = set_consumer s4 0 (CnRead [7])"
  define s6 where "s6 = take_value s5 0 [7]"
  define s7 where "s7 = set_consumer (s6\<lparr>mr_ring := ?r\<lparr>mc_tails := [1, 0], mc_cachedHead := [1, 1]\<rparr>\<rparr>) 1 CnCheck"
  define s8 where "s8 = set_consumer s7 1 (CnCopy [])"
  define s9 where "s9 = set_consumer s8 1 (CnCopy [7])"
  define s10 where "s10 = set_consumer s9 1 (CnOk [7])"
  define s11 where "s11 = take_value s10 1 [7]"
  note defs = demo_ring_def start_multicast_def newMulticastRing_def mc_capacity_def peekSlot_def ring_mask_def refreshHead_def overrun_def
    set_consumer_def take_value_def mc_consume_def
  note states = s3_def s4_def s5_def s6_def s7_def s8_def s9_def s10_def s11_def
  have le: "\<not> (2 :: 64 word) \<le> 1" by code_simp
  have "mc_step 1 ?c s3 s4" using mc_step.peek [of 0 s3 "?r\<lparr>mc_cachedHead := [1, 0]\<rparr>" 1 ?c] by (simp add: defs states numeral_2_eq_2)
  moreover have "mc_step 1 ?c s4 s5" using mc_step.read [of 0 s4 "[]" 1 ?c] by (simp add: defs states numeral_2_eq_2)
  moreover have "mc_step 1 ?c s5 s6" using mc_step.have_read [of 0 s5 "[7]" 1 ?c] by (simp add: defs states numeral_2_eq_2)
  moreover have "mc_step 1 ?c s6 s7" using mc_step.peek [of 1 s6 "?r\<lparr>mc_tails := [1, 0], mc_cachedHead := [1, 1]\<rparr>" 1 ?c] by (simp add: defs states numeral_2_eq_2)
  moreover have "mc_step 1 ?c s7 s8" using mc_step.chk [of 1 s7 1 ?c] by (simp add: defs states numeral_2_eq_2 le)
  moreover have "mc_step 1 ?c s8 s9" using mc_step.copy [of 1 s8 "[]" 1 ?c] by (simp add: defs states numeral_2_eq_2)
  moreover have "mc_step 1 ?c s9 s10" using mc_step.rechk [of 1 s9 "[7]" 1 ?c] by (simp add: defs states numeral_2_eq_2 le)
  moreover have "mc_step 1 ?c s10 s11" using mc_step.took [of 1 s10 "[7]" 1 ?c] by (simp add: defs states numeral_2_eq_2)
  moreover have "(mc_step 1 ?c)\<^sup>*\<^sup>* demo_ring s3" unfolding s3_def by (rule demo_published)
  ultimately have "(mc_step 1 ?c)\<^sup>*\<^sup>* demo_ring s11" by (meson rtranclp.rtrancl_into_rtrancl)
  moreover have "mr_producer s11 = PdIdle \<and> mr_sent s11 = [[7]] \<and> mr_pos s11 = [1, 1] \<and> mr_got s11 = [[(0, [7])], [(0, [7])]]"
    by (simp add: defs states numeral_2_eq_2)
  ultimately show ?thesis by blast
qed

lemma demo_size: "ring_size 2"
  by (auto simp: ring_size_def intro: exI [of _ 1])

theorem multicast_gating_delivers_witness:
  "\<exists>s. (mc_step 1 (\<lambda>i. i = 1))\<^sup>*\<^sup>* demo_ring s \<and> mr_sent s = [[7]] \<and> mr_pos s ! 0 = 1 \<and> map snd (mr_got s ! 0) = take 1 [[7]]"
proof -
  obtain s where s: "(mc_step 1 (\<lambda>i. i = 1))\<^sup>*\<^sup>* demo_ring s" "mr_sent s = [[7]]" "mr_pos s = [1, 1]" using demo_consumed by blast
  have "map snd (mr_got s ! 0) = take (mr_pos s ! 0) (mr_sent s) \<and> mr_pos s ! 0 \<le> length (mr_sent s)"
    by (rule multicast_gating_delivers [OF demo_size _ s(1) [unfolded demo_ring_def]]) (simp_all add: s)
  then show ?thesis using s by auto
qed

theorem multicast_checked_never_torn_witness:
  "\<exists>s. (mc_step 1 (\<lambda>i. i = 1))\<^sup>*\<^sup>* demo_ring s \<and> mr_got s ! 1 = [(0, [7])] \<and> list_all (\<lambda>(q, v). q < length (mr_sent s) \<and> v = mr_sent s ! q) (mr_got s ! 1)"
proof -
  obtain s where s: "(mc_step 1 (\<lambda>i. i = 1))\<^sup>*\<^sup>* demo_ring s" "mr_sent s = [[7]]" "mr_got s = [[(0, [7])], [(0, [7])]]" using demo_consumed by blast
  have "sorted_wrt (<) (map fst (mr_got s ! 1)) \<and> list_all (\<lambda>(q, v). q < length (mr_sent s) \<and> v = mr_sent s ! q) (mr_got s ! 1)"
    by (rule multicast_checked_never_torn [OF demo_size _ s(1) [unfolded demo_ring_def]]) (simp_all add: s)
  then show ?thesis using s by auto
qed

theorem multicast_producer_not_stalled_witness:
  "\<exists>s m. (mc_step 1 (\<lambda>i. i = 1))\<^sup>*\<^sup>* demo_ring s \<and> mr_producer s = PdIdle \<and>
     (mc_step 1 (\<lambda>i. i = 1))\<^sup>*\<^sup>* s (s\<lparr>mr_ring := (mr_ring s)\<lparr>mc_cachedMinTail := m\<rparr>, mr_producer := PdWriting [8] 0\<rparr>)"
proof -
  obtain s where s: "(mc_step 1 (\<lambda>i. i = 1))\<^sup>*\<^sup>* demo_ring s" "mr_producer s = PdIdle" "mr_sent s = [[7]]" "mr_pos s = [1, 1]" using demo_consumed by blast
  have "\<exists>m. (mc_step 1 (\<lambda>i. i = 1))\<^sup>*\<^sup>* s (s\<lparr>mr_ring := (mr_ring s)\<lparr>mc_cachedMinTail := m\<rparr>, mr_producer := PdWriting [8] 0\<rparr>)"
    by (rule multicast_producer_not_stalled [OF demo_size _ s(1) [unfolded demo_ring_def] _ s(2)]) (simp_all add: s upt_rec)
  then show ?thesis using s by blast
qed

section \<open>A gating consumer that checks\<close>

text \<open>
  The check is \<open>\<ge>\<close>, and a gating consumer is at times exactly a full ring behind: with \<^verbatim>\<open>tryPeekChecked\<close> it is then told that it was
  lapped and skips the whole ring, although no slot was overwritten.
\<close>

lemma full_ring_laps_gating_consumer:
  "let r = mc_publish (mc_write (mc_publish (mc_write (newMulticastRing 0 1 2 1) 0 (7 :: nat))) 1 8)
   in fst (mc_tryPeekChecked r 0) = PeekLap \<and> gating r 0 \<and> fst (mc_tryClaim r) = None"
  by code_simp

section \<open>The operations as runs of one thread\<close>

text \<open>
  The steps of a thread that no other thread interrupts are the operations of the ring: \<^const>\<open>mc_tryClaim\<close>, with
  \<^const>\<open>minConsumerCursor\<close> as its loop, \<^const>\<open>mc_tryPeek\<close> and \<^const>\<open>mc_tryPeekChecked\<close>.
\<close>

lemma scan_alone:
  assumes "mr_producer s = PdScan v i m" "i \<le> length (mc_tails (mr_ring s))"
  shows "(mc_step w checked)\<^sup>*\<^sup>* s (s\<lparr>mr_producer := PdScan v (length (mc_tails (mr_ring s))) (foldl (\<lambda>m i. scanCursor (mr_ring s) i m) m [i..<length (mc_tails (mr_ring s))])\<rparr>)"
  using assms
proof (induction "length (mc_tails (mr_ring s)) - i" arbitrary: s i m)
  case 0
  then have "i = length (mc_tails (mr_ring s))" by simp
  then have "s\<lparr>mr_producer := PdScan v (length (mc_tails (mr_ring s))) (foldl (\<lambda>m i. scanCursor (mr_ring s) i m) m [i..<length (mc_tails (mr_ring s))])\<rparr> = s"
    using 0 by (cases s) simp
  then show ?case by simp
next
  case (Suc n)
  let ?t = "s\<lparr>mr_producer := PdScan v (Suc i) (scanCursor (mr_ring s) i m)\<rparr>"
  have lt: "i < length (mc_tails (mr_ring s))" using Suc.hyps(2) by simp
  have "mc_step w checked s ?t" by (rule mc_step.scan_next [OF Suc.prems(1) lt])
  moreover have "(mc_step w checked)\<^sup>*\<^sup>* ?t (?t\<lparr>mr_producer := PdScan v (length (mc_tails (mr_ring ?t))) (foldl (\<lambda>m i. scanCursor (mr_ring ?t) i m) (scanCursor (mr_ring s) i m) [Suc i..<length (mc_tails (mr_ring ?t))])\<rparr>)"
    by (rule Suc.hyps(1)) (use Suc.hyps(2) lt in simp_all)
  ultimately show ?case using lt by (simp add: upt_conv_Cons converse_rtranclp_into_rtranclp)
qed

lemma tryClaim_alone:
  assumes "mr_producer s = PdIdle" "length v = w" "mc_tryClaim (mr_ring s) = (at, r)"
  shows "(mc_step w checked)\<^sup>*\<^sup>* s (s\<lparr>mr_ring := r, mr_producer := (case at of None \<Rightarrow> PdIdle | Some _ \<Rightarrow> PdWriting v 0)\<rparr>)"
    "at = Some j \<Longrightarrow> j = claimSlot (s\<lparr>mr_ring := r\<rparr>)"
proof -
  show "at = Some j \<Longrightarrow> j = claimSlot (s\<lparr>mr_ring := r\<rparr>)" using assms(3) by (auto simp: mc_tryClaim_def claimSlot_def Let_def split: if_splits)
  show "(mc_step w checked)\<^sup>*\<^sup>* s (s\<lparr>mr_ring := r, mr_producer := (case at of None \<Rightarrow> PdIdle | Some _ \<Rightarrow> PdWriting v 0)\<rparr>)"
  proof (cases "hasRoom (mr_ring s)")
    case True
    then have "r = mr_ring s" "at \<noteq> None" using assms(3) by (auto simp: mc_tryClaim_def)
    then show ?thesis using mc_step.claim [OF assms(1,2) True, of checked] by auto
  next
    case False
    let ?n = "length (mc_tails (mr_ring s))" and ?m = "foldl (\<lambda>m i. scanCursor (mr_ring s) i m) (- 1) [0..<length (mc_tails (mr_ring s))]"
    let ?s1 = "s\<lparr>mr_producer := PdScan v 0 (- 1)\<rparr>" and ?s2 = "s\<lparr>mr_producer := PdScan v ?n ?m\<rparr>"
    let ?r = "(mr_ring s)\<lparr>mc_cachedMinTail := scanResult (mr_ring s) ?m\<rparr>"
    have "mc_step w checked s ?s1" by (rule mc_step.scan [OF assms(1,2) False])
    moreover have "(mc_step w checked)\<^sup>*\<^sup>* ?s1 ?s2" using scan_alone [of ?s1 v 0 "- 1" w checked] by simp
    moreover have "mc_step w checked ?s2 (s\<lparr>mr_ring := ?r, mr_producer := (if hasRoom ?r then PdWriting v 0 else PdIdle)\<rparr>)"
      using mc_step.scanned [of ?s2 v ?n ?m ?r w checked] by simp
    moreover have "r = ?r" "at = None \<longleftrightarrow> \<not> hasRoom ?r" using assms(3) False by (auto simp: mc_tryClaim_def minConsumerCursor_def Let_def split: if_splits)
    ultimately show ?thesis by (auto split: option.splits intro: converse_rtranclp_into_rtranclp rtranclp.rtrancl_into_rtrancl)
  qed
qed

lemma copies_alone:
  assumes "i < length (mr_consumers s)" "length (mc_storage (mr_ring s) ! peekSlot s i) = w" "k \<le> w" "C = CnCopy \<or> C = CnRead"
  shows "(mc_step w checked)\<^sup>*\<^sup>* (set_consumer s i (C [])) (set_consumer s i (C (take k (mc_storage (mr_ring s) ! peekSlot s i))))"
  using assms(3)
proof (induction k)
  case (Suc k)
  let ?v = "mc_storage (mr_ring s) ! peekSlot s i"
  let ?t = "set_consumer s i (C (take k ?v))"
  have t: "i < length (mr_consumers ?t)" "mr_consumers ?t ! i = C (take k ?v)" "length (take k ?v) < w" "peekSlot ?t i = peekSlot s i" "mr_ring ?t = mr_ring s"
    using assms(1,2) Suc.prems by (simp_all add: set_consumer_def peekSlot_def)
  have upd: "set_consumer ?t i c = set_consumer s i c" for c by (simp add: set_consumer_def)
  have v: "take k ?v @ [?v ! length (take k ?v)] = take (Suc k) ?v" using assms(2) Suc.prems by (simp add: take_Suc_conv_app_nth)
  from assms(4) have "mc_step w checked ?t (set_consumer s i (C (take (Suc k) ?v)))"
  proof
    assume C: "C = CnCopy"
    from mc_step.copy [OF t(1-3) [unfolded C], of checked] show ?thesis using t(4,5) upd v C by simp
  next
    assume C: "C = CnRead"
    from mc_step.read [OF t(1-3) [unfolded C], of checked] show ?thesis using t(4,5) upd v C by simp
  qed
  then show ?case using Suc by (meson Suc_leD rtranclp.rtrancl_into_rtrancl)
qed simp

lemma tryPeek_alone:
  assumes "i < length (mr_consumers s)" "mr_consumers s ! i = CnIdle" "\<not> checked i"
    "length (mc_storage (mr_ring s) ! peekSlot s i) = w" "mc_tryPeek (mr_ring s) i = (at, r)"
  shows "(mc_step w checked)\<^sup>*\<^sup>* s (set_consumer (s\<lparr>mr_ring := r\<rparr>) i (case at of None \<Rightarrow> CnIdle | Some j \<Rightarrow> CnRead (mc_storage r ! j)))"
proof -
  obtain some where f: "refreshHead (mr_ring s) i = (some, r)" "at = (if some then Some (peekSlot s i) else None)"
    using assms(5) by (auto simp: mc_tryPeek_def peekSlot_def split: prod.splits if_splits)
  have r: "mc_storage r = mc_storage (mr_ring s)" "mc_tails r = mc_tails (mr_ring s)" using f(1) by (auto simp: refreshHead_def Let_def split: if_splits)
  show ?thesis
  proof (cases some)
    case True
    let ?s1 = "s\<lparr>mr_ring := r\<rparr>"
    have at: "peekSlot ?s1 i = peekSlot s i" using r by (simp add: peekSlot_def mc_capacity_def)
    have "(mc_step w checked)\<^sup>*\<^sup>* (set_consumer ?s1 i (CnRead [])) (set_consumer ?s1 i (CnRead (take w (mc_storage (mr_ring ?s1) ! peekSlot ?s1 i))))"
      by (rule copies_alone) (use assms(1,4) at r in simp_all)
    moreover have "mc_step w checked s (set_consumer ?s1 i (CnRead []))" using mc_step.peek [OF assms(1,2), of r w checked] f(1) True assms(3) by simp
    ultimately show ?thesis using f(2) True at r assms(4) by (simp add: converse_rtranclp_into_rtranclp)
  next
    case False
    have "set_consumer (s\<lparr>mr_ring := r\<rparr>) i CnIdle = s\<lparr>mr_ring := r\<rparr>" using list_update_id [of "mr_consumers s" i] assms(2) by (simp add: set_consumer_def)
    then show ?thesis using mc_step.peek_empty [OF assms(1,2), of r w checked] f False by auto
  qed
qed

lemma tryPeekChecked_alone:
  assumes "i < length (mr_consumers s)" "mr_consumers s ! i = CnIdle" "checked i"
    "length (mc_storage (mr_ring s) ! peekSlot s i) = w" "mc_tryPeekChecked (mr_ring s) i = (st, out, r)"
  shows "\<exists>s'. (mc_step w checked)\<^sup>*\<^sup>* s s' \<and> mr_ring s' = r \<and> mr_consumers s' = (mr_consumers s)[i := (case out of None \<Rightarrow> CnIdle | Some v \<Rightarrow> CnOk v)]"
proof -
  obtain some r1 where f: "refreshHead (mr_ring s) i = (some, r1)" by fastforce
  let ?t = "s\<lparr>mr_ring := r1\<rparr>" and ?h = "mc_head r1"
  let ?s1 = "set_consumer ?t i CnCheck"
  have s1: "i < length (mr_consumers ?s1)" "mr_consumers ?s1 ! i = CnCheck" "mr_ring ?s1 = r1" using assms(1) by (simp_all add: set_consumer_def)
  have r: "mc_storage r1 = mc_storage (mr_ring s)" "mc_tails r1 = mc_tails (mr_ring s)" using f(1) by (auto simp: refreshHead_def Let_def split: if_splits)
  have at: "peekSlot ?t i = peekSlot s i" using r by (simp add: peekSlot_def mc_capacity_def)
  have upd: "set_consumer (set_consumer t i c) i c' = set_consumer t i c'" for t :: "'a mc_threads" and c c' by (simp add: set_consumer_def)
  consider (empty) "\<not> some" | (lap) "some" "overrun r1 i" | (okay) "some" "\<not> overrun r1 i" by blast
  then show ?thesis
  proof cases
    case empty
    then have "mc_step w checked s ?t" using mc_step.peek_empty [OF assms(1,2), of r1 w checked] f by simp
    moreover have "out = None" "r = r1" using empty f assms(5) by (auto simp: mc_tryPeekChecked_def)
    ultimately show ?thesis using list_update_id [of "mr_consumers s" i] assms(2) by (intro exI [of _ ?t]) simp
  next
    case lap
    let ?s2 = "set_consumer ?t i (CnLapse ?h)" and ?s3 = "set_consumer (s\<lparr>mr_ring := lapse r1 i ?h, mr_pos := (mr_pos s)[i := unat ?h]\<rparr>) i CnIdle"
    have "mc_step w checked s ?s1" using mc_step.peek [OF assms(1,2), of r1 w checked] f lap(1) assms(3) by simp
    moreover have "mc_step w checked ?s1 ?s2" using mc_step.chk [OF s1(1,2), of w checked] lap(2) s1(3) by (simp add: upd)
    moreover have "mc_step w checked ?s2 ?s3" using mc_step.lapsed [of i ?s2 ?h w checked] assms(1) by (simp add: set_consumer_def)
    ultimately have "(mc_step w checked)\<^sup>*\<^sup>* s ?s3" by (meson converse_rtranclp_into_rtranclp r_into_rtranclp)
    moreover have "out = None" "r = lapse r1 i ?h" using lap f assms(5) by (auto simp: mc_tryPeekChecked_def)
    ultimately show ?thesis by (intro exI [of _ ?s3]) (simp add: set_consumer_def)
  next
    case okay
    let ?v = "mc_storage r1 ! peekSlot s i"
    have "mc_step w checked s ?s1" using mc_step.peek [OF assms(1,2), of r1 w checked] f okay(1) assms(3) by simp
    moreover have "mc_step w checked ?s1 (set_consumer ?t i (CnCopy []))" using mc_step.chk [OF s1(1,2), of w checked] okay(2) s1(3) by (simp add: upd)
    moreover have "(mc_step w checked)\<^sup>*\<^sup>* (set_consumer ?t i (CnCopy [])) (set_consumer ?t i (CnCopy ?v))"
      using copies_alone [of i ?t w w CnCopy checked] assms(1,4) at r by simp
    moreover have "mc_step w checked (set_consumer ?t i (CnCopy ?v)) (set_consumer ?t i (CnOk ?v))"
      using mc_step.rechk [of i "set_consumer ?t i (CnCopy ?v)" ?v w checked] assms(1,4) okay(2) r by (simp add: set_consumer_def)
    ultimately have "(mc_step w checked)\<^sup>*\<^sup>* s (set_consumer ?t i (CnOk ?v))" by (meson converse_rtranclp_into_rtranclp rtranclp.rtrancl_into_rtrancl)
    moreover have "out = Some ?v" "r = r1" using f okay assms(5) r by (auto simp: mc_tryPeekChecked_def peekSlot_def mc_capacity_def)
    ultimately show ?thesis by (intro exI [of _ "set_consumer ?t i (CnOk ?v)"]) (simp add: set_consumer_def)
  qed
qed

end
