(* ===== verification/Shard_Recovery.thy ===== *)
theory Shard_Recovery
  imports Persistence_Properties
begin

text \<open>
  A shard (\<^verbatim>\<open>runtime/shard.hpp\<close>): its parts, and its start on a journal and a snapshot directory that an earlier run has left. First what a crash
  leaves of a journal directory and where the reader stops in it, then the writer that resumes there, then the whole restart.
\<close>

section \<open>runtime/shard.hpp\<close>

text \<open>
  \<open>shd_world\<close> is the journal directory as the file system has it; the writer holds it from the constructor on. The sequencer refers to the
  writer and the ring, so that once it exists they are the ones in \<open>shd_seqr\<close>. The matching thread's start and the snapshot thread are no
  part of the state.
\<close>

record Shard =
  shd_instrumentId :: InstrumentId
  shd_cfg :: BookConfig
  shd_inRing :: "Command SpscRing"
  shd_matching :: MatchingThread
  shd_journal :: JournalWriter
  shd_seqr :: "Sequencer option"
  shd_recoveredSeq :: Seq

definition kDefaultRollBytes :: nat where "kDefaultRollBytes = 256 * 1024 * 1024"

definition newShard :: "InstrumentId \<Rightarrow> BookConfig \<Rightarrow> Command SpscRing \<Rightarrow> world \<Rightarrow> Shard" where
  "newShard instrumentId cfg inRing w =
     \<lparr>shd_instrumentId = instrumentId, shd_cfg = cfg, shd_inRing = inRing, shd_matching = newMatchingThread cfg,
      shd_journal = newJournalWriter w kDefaultRollBytes PerRecord 1, shd_seqr = None, shd_recoveredSeq = 0\<rparr>"

text \<open>\<^verbatim>\<open>MatchingThread::restoreBeforeStart\<close> with the recovery as its argument.\<close>

definition restoreBeforeStart :: "MatchingThread \<Rightarrow> (OrderBook \<Rightarrow> ('r \<times> OrderBook) option) \<Rightarrow> ('r \<times> MatchingThread) option" where
  "restoreBeforeStart mt f = map_option (\<lambda>(r, b). (r, mt\<lparr>mt_book := b\<rparr>)) (f (mt_book mt))"

text \<open>The result of \<^verbatim>\<open>resumeFrom\<close> is not looked at.\<close>

definition recoverAndStart :: "env \<Rightarrow> dir \<Rightarrow> Shard \<Rightarrow> Shard option" where
  "recoverAndStart io snapshotDir sh = do {
     (rr, mt1) \<leftarrow> restoreBeforeStart (shd_matching sh) (recover (w_dir (jw_world (shd_journal sh))) snapshotDir);
     let mt2 = restoreDispatchSeq mt1 (rv_lastSeq rr);
     let jw = (if rv_hasJournalSegment rr
               then snd (resumeFrom io (shd_journal sh) (rv_resumeSegmentPath rr) (rv_resumeOffset rr) (rv_resumeSegmentCreatedCounter rr) (rv_lastSeq rr))
               else shd_journal sh);
     let seqr = newSequencer jw (shd_inRing sh) (rv_lastSeq rr);
     Some (sh\<lparr>shd_matching := mt2, shd_journal := jw, shd_seqr := Some seqr, shd_recoveredSeq := rv_lastSeq rr\<rparr>)
   }"

section \<open>A directory after a crash\<close>

text \<open>What is in a file after a crash is on stable storage.\<close>

definition settled :: "dir \<Rightarrow> segment list \<Rightarrow> (segment \<times> nat) option \<Rightarrow> bool" where
  "settled d init cur \<longleftrightarrow> journal_state d init (map_option (\<lambda>(s, k). (s, k, k)) cur)"

definition whole_entries :: "segment list \<Rightarrow> (segment \<times> nat) option \<Rightarrow> entry list" where
  "whole_entries init cur = entries_of init @ (case cur of None \<Rightarrow> [] | Some (s, k) \<Rightarrow> take (whole k) (sgm_entries s))"

lemma crash_dir_append: "crash_dir (d1 @ d2) e \<Longrightarrow> \<exists>e1 e2. e = e1 @ e2 \<and> crash_dir d1 e1 \<and> crash_dir d2 e2"
  by (auto simp: crash_dir_def list_all2_append1 append_eq_map_conv map_eq_append_conv) (metis list_all2_lengthD append_eq_append_conv length_map)

lemma crash_closed_files: "crash_dir (map closed_file init) e \<Longrightarrow> e = map closed_file init"
proof (induction init arbitrary: e)
  case (Cons s init)
  then obtain x e' where e: "e = x # e'" "crash_file (snd (closed_file s)) (snd x)" "fst x = fst (closed_file s)" "crash_dir (map closed_file init) e'"
    by (cases e) (auto simp: crash_dir_def case_prod_beta)
  then have "x = closed_file s" by (auto simp: crash_file_def closed_file_def prod_eq_iff)
  then show ?case using Cons.IH [OF e(4)] e(1) by simp
qed (simp add: crash_dir_def)

lemma crash_settles:
  assumes st: "journal_state d init cur" and cr: "crash_dir d e"
  obtains cur' where "settled e init cur'" "durable init cur \<le> length (whole_entries init cur')"
    "whole_entries init cur' = take (length (whole_entries init cur')) (written init cur)"
proof (cases cur)
  case None
  then have "e = d" using st cr crash_closed_files [of init e] by (simp add: journal_state_def disk_of_def)
  then show thesis using that [of None] st None by (simp add: settled_def whole_entries_def)
next
  case (Some p)
  obtain s k j where p: "cur = Some (s, k, j)" using Some by (cases p) auto
  have d: "d = map closed_file init @ [(seg_name s, \<lparr>f_bytes = take k (seg_bytes s), f_synced = j\<rparr>)]" using st p by (simp add: journal_state_def disk_current)
  note F = journal_facts [OF st [unfolded p]]
  obtain e1 e2 where e: "e = e1 @ e2" "crash_dir (map closed_file init) e1" "crash_dir [(seg_name s, \<lparr>f_bytes = take k (seg_bytes s), f_synced = j\<rparr>)] e2"
    using crash_dir_append [OF cr [unfolded d]] by blast
  obtain k' where k': "j \<le> k'" "k' \<le> k" "e2 = [(seg_name s, \<lparr>f_bytes = take k' (seg_bytes s), f_synced = k'\<rparr>)]"
    using e(3) F(3) by (auto simp: crash_dir_def crash_file_def list_all2_Cons1 min_absorb1 min_absorb2)
  have "e = disk_of init (Some (s, k', k'))" using e(1) crash_closed_files [OF e(2)] k'(3) by (simp add: disk_current)
  then have "settled e init (Some (s, k'))" using st p k'(1,2) by (auto simp: settled_def journal_state_def)
  moreover have "whole k' \<le> length (sgm_entries s)" by (rule whole_le [OF F(1)]) (use k'(2) F(3) in simp)
  ultimately show thesis using that [of "Some (s, k')"] whole_mono [OF k'(1)] p by (simp add: whole_entries_def)
qed

definition as_cursor :: "(segment \<times> nat) option \<Rightarrow> (segment \<times> nat \<times> nat) option" where
  "as_cursor cur = map_option (\<lambda>(s, k). (s, k, k)) cur"

lemma as_cursor_simps [simp]: "as_cursor None = None" "as_cursor (Some (s, k)) = Some (s, k, k)"
  by (simp_all add: as_cursor_def)

definition cut_at :: "segment list \<Rightarrow> (segment \<times> nat) option \<Rightarrow> nat" where
  "cut_at init cur = (case cur of None \<Rightarrow> length (seg_bytes (last init)) | Some (s, k) \<Rightarrow> k)"

lemma settled_image:
  assumes "settled d init cur"
  shows "journal_image d (segments init (as_cursor cur)) (cut_at init cur)"
proof -
  have st: "journal_state d init (as_cursor cur)" using assms by (simp add: settled_def as_cursor_def)
  have sync: "crash_file f f" if "(n, f) \<in> set d" for n f
    using that st by (cases cur) (auto simp: journal_state_def disk_of_def closed_file_def current_file_def crash_file_def)
  have "crash_dir d d" using sync by (auto simp: crash_dir_def list_all2_same)
  from crash_image [OF st this] obtain k where k: "journal_image d (segments init (as_cursor cur)) k"
    "\<And>s j' k'. as_cursor cur = Some (s, k', j') \<Longrightarrow> j' \<le> k" "as_cursor cur = None \<Longrightarrow> init \<noteq> [] \<Longrightarrow> k = length (seg_bytes (last init))"
    by metis
  show ?thesis
  proof (cases cur)
    case None
    then show ?thesis using k(1,3) by (cases "init = []") (simp_all add: cut_at_def journal_image_def)
  next
    case (Some p)
    obtain s j where p: "cur = Some (s, j)" using Some by (cases p) auto
    have "bytes_of d (seg_name s) = take k (seg_bytes s)" "k \<le> length (seg_bytes s)" using k(1) p by (simp_all add: journal_image_def)
    moreover have "bytes_of d (seg_name s) = take j (seg_bytes s)" "j \<le> length (seg_bytes s)"
      using disk_files(2) [of init "Some (s, j, j)" s j j] st p by (simp_all add: journal_state_def bytes_of_def)
    ultimately have "k = j" by (metis length_take min.absorb2)
    then show ?thesis using k(1) p by (simp add: cut_at_def)
  qed
qed

lemma settled_readable:
  assumes "settled d init cur"
  shows "readable (segments init (as_cursor cur)) (cut_at init cur) = whole_entries init cur"
proof (cases cur)
  case None
  have "\<forall>s \<in> set init. seg_ok s" using assms None by (simp add: settled_def journal_state_def names_ok_def)
  then show ?thesis using None whole_full [of "last init"]
    by (cases init rule: rev_cases) (simp_all add: readable_def whole_entries_def cut_at_def)
next
  case (Some p)
  then show ?thesis by (cases p) (simp add: readable_def whole_entries_def cut_at_def)
qed

text \<open>What the reader gets from it, and where it stops.\<close>

definition torn_at :: "(segment \<times> nat) option \<Rightarrow> (string \<times> nat) option" where
  "torn_at cur = (case cur of None \<Rightarrow> None
     | Some (s, k) \<Rightarrow> if kSegmentHeaderSize \<le> k \<and> k \<noteq> kSegmentHeaderSize + whole k * kRecordSize
         then Some (seg_name s, kSegmentHeaderSize + whole k * kRecordSize) else None)"

definition stops_at :: "JournalReader \<Rightarrow> (string \<times> nat) option \<Rightarrow> bool" where
  "stops_at r at \<longleftrightarrow> (case at of None \<Rightarrow> \<not> hasOpenSegment r | Some (path, off) \<Rightarrow> hasOpenSegment r \<and> jr_currentPath r = path \<and> jr_offset r = off)"

lemma settled_reads:
  assumes "settled d init cur"
  obtains f r where "drains d (newJournalReader d) (map read_back (map entry_key (whole_entries init cur))) f r" "clean f" "stops_at r (torn_at cur)"
proof -
  have st: "journal_state d init (as_cursor cur)" using assms by (simp add: settled_def as_cursor_def)
  then have "consec 0 (entries_of (segments init (as_cursor cur)))" by (simp add: journal_state_def written_def)
  from image_reads [OF settled_image [OF assms] this] obtain f r where
    r: "drains d (newJournalReader d) (map entry_rec (whole_entries init cur)) f r" "clean f" "all_read (segments init (as_cursor cur)) (cut_at init cur) r"
    unfolding settled_readable [OF assms] by blast
  have full: "kSegmentHeaderSize + whole (length (seg_bytes s)) * kRecordSize = length (seg_bytes s)" if "seg_ok s" for s
    using whole_full [OF that] seg_bytes_length [OF that] by simp
  have "stops_at r (torn_at cur)"
  proof (cases cur)
    case None
    have "\<forall>s \<in> set init. seg_ok s" using st None by (simp add: journal_state_def names_ok_def)
    then show ?thesis using r(3) None full [of "last init"]
      by (cases "init = []") (auto simp: all_read_def ends_at_def stops_at_def torn_at_def hasOpenSegment_def cut_at_def)
  next
    case (Some p)
    then show ?thesis using r(3) by (cases p) (auto simp: all_read_def ends_at_def stops_at_def torn_at_def hasOpenSegment_def cut_at_def)
  qed
  moreover have "map entry_rec (whole_entries init cur) = map read_back (map entry_key (whole_entries init cur))" by (simp add: entry_rec_key)
  ultimately show thesis using that r(1,2) by metis
qed

section \<open>The writer after a restart\<close>

definition cut_segment :: "segment \<Rightarrow> nat \<Rightarrow> segment" where
  "cut_segment s n = Segment (sgm_first s) (sgm_counter s) (take n (sgm_entries s))"

lemma cut_segment_simps [simp]:
  "sgm_first (cut_segment s n) = sgm_first s" "sgm_entries (cut_segment s n) = take n (sgm_entries s)" "seg_name (cut_segment s n) = seg_name s"
  by (simp_all add: cut_segment_def seg_name_def)

lemma cut_segment_ok: "seg_ok s \<Longrightarrow> seg_ok (cut_segment s n)"
  by (auto simp: cut_segment_def seg_ok_def dest: in_set_takeD)

lemma cut_segment_bytes:
  assumes "seg_ok s" "kSegmentHeaderSize \<le> k" "k \<le> length (seg_bytes s)"
  shows "seg_bytes (cut_segment s (whole k)) = take (kSegmentHeaderSize + whole k * kRecordSize) (take k (seg_bytes s))"
    "length (seg_bytes (cut_segment s (whole k))) = kSegmentHeaderSize + whole k * kRecordSize" "kSegmentHeaderSize + whole k * kRecordSize \<le> k"
proof -
  obtain m where m: "k = kSegmentHeaderSize + whole k * kRecordSize + m" "whole k \<le> length (sgm_entries s)"
    "take k (seg_bytes s) = encodeSegmentHeader (seg_header (sgm_first s) (sgm_counter s)) @
       concat (map entry_bytes (take (whole k) (sgm_entries s))) @ take m (concat (map entry_bytes (drop (whole k) (sgm_entries s))))"
    by (rule seg_cut [OF assms])
  show len: "length (seg_bytes (cut_segment s (whole k))) = kSegmentHeaderSize + whole k * kRecordSize"
    using seg_bytes_length [OF cut_segment_ok [OF assms(1)], of "whole k"] m(2) by simp
  have "take k (seg_bytes s) = seg_bytes (cut_segment s (whole k)) @ take m (concat (map entry_bytes (drop (whole k) (sgm_entries s))))"
    using m(3) by (simp add: seg_bytes_def cut_segment_def)
  then show "seg_bytes (cut_segment s (whole k)) = take (kSegmentHeaderSize + whole k * kRecordSize) (take k (seg_bytes s))" using len by simp
  show "kSegmentHeaderSize + whole k * kRecordSize \<le> k" using m(1) by linarith
qed

text \<open>The current segment cut behind its last whole record.\<close>

lemma cut_state:
  assumes st: "journal_state d init (Some (s, k, k))" and k: "kSegmentHeaderSize \<le> k"
  shows "journal_state (disk_of init (Some (cut_segment s (whole k), length (seg_bytes (cut_segment s (whole k))), length (seg_bytes (cut_segment s (whole k))))))
    init (Some (cut_segment s (whole k), length (seg_bytes (cut_segment s (whole k))), length (seg_bytes (cut_segment s (whole k)))))"
proof -
  note F = journal_facts [OF st]
  have "names_ok (init @ [cut_segment s (whole k)])" using st cut_segment_ok [OF F(1)] by (auto simp: journal_state_def names_ok_def)
  moreover have "consec 0 (entries_of init @ take (whole k) (sgm_entries s))"
    using st consec_append [of 0 "entries_of init @ take (whole k) (sgm_entries s)" "drop (whole k) (sgm_entries s)"] by (simp add: journal_state_def)
  ultimately show ?thesis using st cut_segment_bytes(2) [OF F(1) k F(3)] by (simp add: journal_state_def)
qed

definition restarted :: "world \<Rightarrow> JournalWriter" where
  "restarted w = newJournalWriter w kDefaultRollBytes PerRecord 1"

lemma restarted_simps [simp]:
  "jw_world (restarted w) = w" "jw_fd (restarted w) = None" "jw_pendingUnsynced (restarted w) = 0" "jw_policy (restarted w) = PerRecord"
  "jw_groupSize (restarted w) = 1" "jw_rollBytes (restarted w) = kDefaultRollBytes"
  by (simp_all add: restarted_def newJournalWriter_def)

lemma restarted_inv: "journal_state (w_dir w) init cur \<Longrightarrow> vacant cur \<Longrightarrow> writer_inv (restarted w) init cur"
  by (cases cur) (auto simp: writer_inv_def at_end_def roomy_def)

lemma restart_clean:
  assumes st: "settled (w_dir w) init cur" and torn: "torn_at cur = None"
  shows "\<exists>init' cur'. writer_inv (restarted w) init' cur' \<and> written init' cur' = whole_entries init cur"
proof (cases cur)
  case None
  then have "journal_state (w_dir w) init None" using st by (simp add: settled_def)
  then show ?thesis using restarted_inv [of w init None] None by (intro exI [of _ init] exI [of _ None]) (simp add: whole_entries_def)
next
  case (Some p)
  obtain s k where p: "cur = Some (s, k)" using Some by (cases p) auto
  have js: "journal_state (w_dir w) init (Some (s, k, k))" using st p by (simp add: settled_def)
  note F = journal_facts [OF js]
  show ?thesis
  proof (cases "kSegmentHeaderSize \<le> k")
    case False
    then have "sgm_entries s = []" using js by (simp add: journal_state_def)
    then show ?thesis using restarted_inv [OF js] p by (intro exI [of _ init] exI [of _ "Some (s, k, k)"]) (simp add: whole_entries_def)
  next
    case True
    let ?s = "cut_segment s (whole k)"
    note C = cut_segment_bytes [OF F(1) True F(3)]
    have k: "k = length (seg_bytes ?s)" using torn True p C(2) by (simp add: torn_at_def split: if_splits)
    have "seg_bytes ?s = take k (seg_bytes s)" using C(1) k C(2) by simp
    then have d: "w_dir w = disk_of init (Some (?s, length (seg_bytes ?s), length (seg_bytes ?s)))"
      using js k by (simp add: journal_state_def disk_current)
    have js': "journal_state (w_dir w) init (Some (?s, length (seg_bytes ?s), length (seg_bytes ?s)))" using cut_state [OF js True] d by simp
    show ?thesis
    proof (cases "sgm_entries ?s = []")
      case True
      then show ?thesis using restarted_inv [OF js'] p by (intro exI [of _ init] exI) (auto simp: whole_entries_def)
    next
      case False
      from restarted_inv [OF journal_close [OF js' False]] show ?thesis
        using p by (intro exI [of _ "init @ [?s]"] exI [of _ None]) (simp add: whole_entries_def)
    qed
  qed
qed

lemma restart_torn:
  assumes st: "settled (w_dir w) init cur" and torn: "torn_at cur = Some (path, off)" and io: "\<forall>n < 3. io (w_calls w + n) = Done"
  shows "\<exists>init' cur'. writer_inv (snd (resumeFrom io (restarted w) path off c l)) init' cur' \<and> written init' cur' = whole_entries init cur"
proof -
  obtain s k where p: "cur = Some (s, k)" and k: "kSegmentHeaderSize \<le> k" and at: "path = seg_name s" "off = kSegmentHeaderSize + whole k * kRecordSize"
    using torn by (auto simp: torn_at_def split: option.splits if_splits)
  have js: "journal_state (w_dir w) init (Some (s, k, k))" using st p by (simp add: settled_def)
  note F = journal_facts [OF js]
  let ?s = "cut_segment s (whole k)"
  note C = cut_segment_bytes [OF F(1) k F(3)]
  have w: "w_dir w = disk_of init (Some (s, k, k))" and nm: "names_ok (segments init (Some (s, k, k)))" using js by (simp_all add: journal_state_def)
  have there: "map_of (w_dir w) (seg_name s) = Some \<lparr>f_bytes = take k (seg_bytes s), f_synced = k\<rparr>" using disk_files(2) [OF nm refl] w by simp
  define w2 where "w2 = put_file (tick_call (tick_call w)) (seg_name s) \<lparr>f_bytes = seg_bytes ?s, f_synced = off\<rparr>"
  have open1: "sys_open io w path = (True, tick_call w)" using io there at by (auto simp: sys_open_def dest: spec [of _ 0])
  have cut: "sys_truncate io (tick_call w) path off = (True, w2)"
    using io there at C by (auto simp: sys_truncate_def w2_def tick_call_def Let_def dest: spec [of _ 1])
  have seek: "sys_seek io w2 path = (True, tick_call w2)"
    using io by (auto simp: sys_seek_def w2_def tick_call_def put_file_def dest: spec [of _ 2])
  define jw where "jw = (restarted w)\<lparr>jw_world := tick_call w2, jw_fd := Some path, jw_currentPath := path, jw_bytesInSegment := off,
    jw_createdCounter := c + 1, jw_lastSeq := l\<rparr>"
  have r: "snd (resumeFrom io (restarted w) path off c l) = jw"
    using open1 cut seek by (simp add: resumeFrom_def jw_close_def Let_def jw_def)
  have "w_dir w2 = disk_of init (Some (?s, length (seg_bytes ?s), length (seg_bytes ?s)))"
    using disk_update_current [OF nm] w C(2) at by (simp add: w2_def put_file_def tick_call_def disk_current)
  then have "journal_state (w_dir (jw_world jw)) init (Some (?s, length (seg_bytes ?s), length (seg_bytes ?s)))"
    using cut_state [OF js k] by (simp add: jw_def tick_call_def)
  moreover have "kSegmentHeaderSize + kRecordSize \<le> kDefaultRollBytes"
    by (simp add: kSegmentHeaderSize_def kRecordSize_def kRecordFixedSize_def kCommandSize_def kRecordCrcSize_def kDefaultRollBytes_def)
  ultimately have "writer_inv jw init (Some (?s, length (seg_bytes ?s), length (seg_bytes ?s)))"
    using C(2) at by (simp add: writer_inv_def at_end_def roomy_def jw_def)
  then show ?thesis unfolding r using p by (intro exI [of _ init] exI) (auto simp: whole_entries_def)
qed

section \<open>The shard after a restart\<close>

text \<open>The commands that a settled journal holds.\<close>

definition journal_holds :: "dir \<Rightarrow> (Seq \<times> CommandKind \<times> Command) list \<Rightarrow> bool" where
  "journal_holds d ks \<longleftrightarrow> (\<exists>init cur. settled d init cur \<and> ks = map entry_key (whole_entries init cur))"

lemma holds_empty: "journal_holds [] []"
  unfolding journal_holds_def by (rule exI [of _ "[]"], rule exI [of _ None]) (simp add: settled_def journal_state_def disk_of_def names_ok_def whole_entries_def)

lemma crash_holds:
  assumes "journal_state d init cur" "crash_dir d e"
  obtains n where "journal_holds e (map entry_key (take n (written init cur)))" "durable init cur \<le> n" "n \<le> length (written init cur)"
proof -
  obtain cur' where c: "settled e init cur'" "durable init cur \<le> length (whole_entries init cur')"
      "whole_entries init cur' = take (length (whole_entries init cur')) (written init cur)"
    by (rule crash_settles [OF assms])
  then have "length (whole_entries init cur') \<le> length (written init cur)" by (metis length_take min.cobounded1)
  then show thesis using that c unfolding journal_holds_def by metis
qed

lemma holds_numbers:
  assumes "journal_holds d ks"
  shows "map fst ks = map (\<lambda>i. 1 + int i) [0..<length ks]"
proof -
  obtain init cur where st: "settled d init cur" "ks = map entry_key (whole_entries init cur)" using assms by (auto simp: journal_holds_def)
  have "consec 0 (whole_entries init cur)"
  proof (cases cur)
    case None
    then show ?thesis using st(1) by (simp add: settled_def journal_state_def whole_entries_def)
  next
    case (Some p)
    obtain s k where p: "cur = Some (s, k)" using Some by (cases p) auto
    then show ?thesis using st(1) consec_append [of 0 "entries_of init @ take (whole k) (sgm_entries s)" "drop (whole k) (sgm_entries s)"]
      by (simp add: settled_def journal_state_def whole_entries_def)
  qed
  then show ?thesis using consec_seqs [of 0 "whole_entries init cur"] st(2) by (simp add: entry_key_def o_def)
qed

text \<open>The snapshot directory holds a snapshot of the book after some of the commands in the journal, or none.\<close>

definition snapshot_of_log :: "BookConfig \<Rightarrow> dir \<Rightarrow> (Seq \<times> CommandKind \<times> Command) list \<Rightarrow> bool" where
  "snapshot_of_log cfg sd ks \<longleftrightarrow> (\<exists>m \<le> length ks. snapshot_holds sd cfg (foldl (astate cfg) aempty (map (\<lambda>(s, k, c). c) (take m ks))) m)"

lemma shard_restarts:
  assumes cfg: "cfg_ok cfg" and jh: "journal_holds (w_dir w) ks" and ok: "\<forall>(s, k, c) \<in> set ks. replayable cfg k c" and sn: "snapshot_of_log cfg sd ks"
    and io: "\<forall>n < 3. io (w_calls w + n) = Done" and cap: "ring_size cap"
  obtains sh sq init cur where "recoverAndStart io sd (newShard i cfg (newSpscRing c0 cap) w) = Some sh" "shd_seqr sh = Some sq"
    "seq_inv sq init cur" "map entry_key (written init cur) = ks" "sr_contents (sq_ring sq) = []" "jw_policy (sq_journal sq) = PerRecord"
    "shd_recoveredSeq sh = int (length ks)" "mt_inv (shd_matching sh)" "mt_dispatchSeq (shd_matching sh) = int (length ks)"
    "ob_cfg (mt_book (shd_matching sh)) = cfg" "absb (mt_book (shd_matching sh)) = foldl (astate cfg) aempty (map (\<lambda>(s, k, c). c) ks)"
proof -
  obtain init cur where st: "settled (w_dir w) init cur" "ks = map entry_key (whole_entries init cur)" using jh by (auto simp: journal_holds_def)
  obtain f r where dr: "drains (w_dir w) (newJournalReader (w_dir w)) (map read_back ks) f r" "clean f" "stops_at r (torn_at cur)"
    by (rule settled_reads [OF st(1), folded st(2)])
  obtain m where m: "m \<le> length ks" "snapshot_holds sd cfg (foldl (astate cfg) aempty (map (\<lambda>(s, k, c). c) (take m ks))) m" using sn by (auto simp: snapshot_of_log_def)
  let ?rr = "recovered (recovery_status f) r (int (length ks))"
  obtain b where b: "recover (w_dir w) sd (newOrderBook cfg) = Some (?rr, b)" "book_inv b" "ob_cfg b = cfg"
    "absb b = foldl (astate cfg) aempty (map (\<lambda>(s, k, c). c) ks)"
    using recover_run [OF cfg dr(1,2) ok holds_numbers [OF jh] m] by blast
  define jw where "jw = (if hasOpenSegment r then snd (resumeFrom io (restarted w) (jr_currentPath r) (jr_offset r) (jr_currentCreatedCounter r) (int (length ks))) else restarted w)"
  have "\<exists>init' cur'. writer_inv jw init' cur' \<and> written init' cur' = whole_entries init cur"
  proof (cases "torn_at cur")
    case None
    then show ?thesis using restart_clean [OF st(1)] dr(3) by (simp add: jw_def stops_at_def)
  next
    case (Some p)
    then show ?thesis using restart_torn [OF st(1) _ io] dr(3) by (cases p) (simp add: jw_def stops_at_def)
  qed
  then obtain init' cur' where wr: "writer_inv jw init' cur'" "written init' cur' = whole_entries init cur" by blast
  let ?sq = "newSequencer jw (newSpscRing c0 cap) (int (length ks))"
  have set: "jw_policy jw = PerRecord" "jw_groupSize jw = 1"
    by (auto simp: jw_def resumeFrom_def jw_close_def Let_def split: prod.splits)
  have ring: "sr_inv (newSpscRing c0 cap)" "sr_contents (newSpscRing c0 cap) = []"
    using counters_new [OF cap, of c0] by (auto simp: sr_inv_def sr_contents_def newSpscRing_def)
  have sq: "seq_inv ?sq init' cur'" using wr ring set st(2) by (simp add: seq_inv_def newSequencer_def)
  define sh where "sh = (newShard i cfg (newSpscRing c0 cap) w)\<lparr>shd_matching := (newMatchingThread cfg)\<lparr>mt_book := b, mt_dispatchSeq := int (length ks)\<rparr>,
    shd_journal := jw, shd_seqr := Some ?sq, shd_recoveredSeq := int (length ks)\<rparr>"
  have rr: "rv_lastSeq ?rr = int (length ks)" "rv_hasJournalSegment ?rr = hasOpenSegment r"
    "hasOpenSegment r \<Longrightarrow> rv_resumeSegmentPath ?rr = jr_currentPath r \<and> rv_resumeOffset ?rr = jr_offset r \<and> rv_resumeSegmentCreatedCounter ?rr = jr_currentCreatedCounter r"
    by (simp_all add: recovered_def emptyRecovery_def Let_def)
  have sh: "recoverAndStart io sd (newShard i cfg (newSpscRing c0 cap) w) = Some sh"
    using b(1) rr unfolding recoverAndStart_def newShard_def restoreBeforeStart_def
    by (cases "hasOpenSegment r") (simp_all add: newMatchingThread_def restoreDispatchSeq_def sh_def jw_def restarted_def newShard_def newJournalWriter_def Let_def)
  have "mt_inv (newMatchingThread cfg)" by (rule newMatchingThread_inv [OF cfg])
  then have mt: "mt_inv (shd_matching sh)" using b(2) by (simp add: sh_def mt_inv_def)
  have seqr: "shd_seqr sh = Some ?sq" "shd_recoveredSeq sh = int (length ks)" "mt_dispatchSeq (shd_matching sh) = int (length ks)" "mt_book (shd_matching sh) = b"
    by (simp_all add: sh_def)
  show thesis by (rule that [OF sh seqr(1) sq]) (use wr st(2) ring set seqr mt b in \<open>simp_all add: newSequencer_def\<close>)
qed

end
