(* ===== verification/Shard_Properties.thy ===== *)
theory Shard_Properties
  imports Shard_Recovery
begin

text \<open>
  A shard over any number of restarts.
\<close>

section \<open>Restart after restart\<close>










section \<open>A life\<close>





end
