(* ===== verification/Spec2Isabelle.thy ===== *)
theory Spec2Isabelle
  imports Book_Properties Dispatch_Properties Mirror_Properties Protocol_Properties Feed_Properties
    Gateway_Properties Ring_Properties Publisher_Properties Feed_Server Multicast_Properties Shard_Properties
begin

text \<open>
  A verification library for the velox order-matching engine.

  \<^bold>\<open>The program.\<close> Clients send binary frames over TCP to a gateway (\<^verbatim>\<open>src/gateway\<close>, \<^verbatim>\<open>src/protocol\<close>). A session decodes a frame, checks it and
  submits a command to the sequencer of one shard (\<^verbatim>\<open>src/sequencer\<close>, \<^verbatim>\<open>src/runtime/shard.hpp\<close>), which writes the command to a
  journal, numbers it and puts it into a single-producer single-consumer ring (\<^verbatim>\<open>src/ipc\<close>). The matching thread of the shard
  (\<^verbatim>\<open>src/runtime/matching_thread.hpp\<close>) takes commands from that ring, executes them on its order book (\<^verbatim>\<open>src/engine\<close>, \<^verbatim>\<open>src/book\<close>) and
  publishes events into a multicast ring. From there the gateway routes execution reports to the sessions, and the market-data
  publisher (\<^verbatim>\<open>src/marketdata\<close>) mirrors the book and sends a feed, which the visualiser (\<^verbatim>\<open>src/viz\<close>) turns back into price levels.
  Snapshots and the journal restore the book after a crash (\<^verbatim>\<open>src/recovery\<close>).

  \<^bold>\<open>Conventions of the model.\<close> A struct or class is a record, an enumeration a datatype, and each function or handler one
  definition with the source's name, prefixed where names clash (\<open>jw_\<close> journal writer, \<open>jr_\<close> journal reader, \<open>fd_\<close> frame decoder, \<open>sr_\<close>
  inbound ring, \<open>mc_\<close> multicast ring, \<open>fs_\<close> feed session, \<open>gw_\<close> gateway, \<open>cs_\<close> client session, \<open>mt_\<close> matching thread, \<open>ob_\<close> order book). An outer
  \<^const>\<open>None\<close> is undefined behaviour, an exception or a loop that does not end; theorems that an operation succeeds show that it is not
  \<^const>\<open>None\<close>. Bytes, cursors, checksums, bit sets and hash values are machine words. Prices, quantities and sequence numbers
  are \<^typ>\<open>int\<close>, with the 64-bit bound as a hypothesis where a sum could exceed it (\<open>no_overflow\<close>, \<open>feed_cfg\<close>); counters that would need
  2 to the 63 commands to overflow are unbounded.

  \<^bold>\<open>The theories, from the bottom up.\<close>

  \<^item> \<open>Velox_Prelude\<close>, \<open>Velox_Types\<close>: shared lemmas on lists, options and words; \<^verbatim>\<open>common/types.hpp\<close>, orders, trades and the caller's buffers.

  \<^item> \<open>Object_Pool\<close>, \<open>Price_Level\<close>, \<open>Level_Map\<close>, \<open>Order_Id_Map\<close>: the free list, the intrusive lists, the level array with its two-level bit set, and the
  open-addressing table. The pool and the table are interpretations of the locales \<open>slot_allocator\<close> and \<open>id_index\<close>.

  \<^item> \<open>Order_Book\<close> is \<^verbatim>\<open>engine/order_book.cpp\<close> over these structures. \<open>Book_Spec\<close> is the abstract book, two lists in price-time order;
  \<open>Book_Rep\<close> (the representation), \<open>Book_Match\<close>, \<open>Book_Steps\<close>, \<open>Book_Refinement\<close>, \<open>Book_Laws\<close> prove that every operation terminates and implements the abstract
  one; \<open>Book_Properties\<close> states what follows: correctness of submit, cancel and replace, price-time priority, conservation of quantity,
  fill-or-kill, untouched books on rejection, and where a replace loses an order.

  \<^item> \<open>Matching_Thread\<close>, \<open>Dispatch_Properties\<close>: the dispatch loop, as an interpretation of the locale \<open>command_processor\<close>; runs never get stuck and leave
  well-formed, uncrossed books; what is published of the trades.

  \<^item> \<open>Book_Mirror\<close>, \<open>Book_Walk\<close>, \<open>Mirror_Properties\<close>: the mirror that rebuilds the book from events.

  \<^item> \<open>Wire_Codec\<close>, \<open>Frame_Decoder\<close>, \<open>Protocol_Properties\<close>, \<open>Feed_Codec\<close>, \<open>Feed_Properties\<close>: both wire formats, through the locales \<open>wire_field\<close> and \<open>framed_decoder\<close>:
  round trips under arbitrary fragmentation, and exactly which bytes are accepted.

  \<^item> \<open>Spsc_Ring\<close>, \<open>Ring_Properties\<close>, \<open>Multicast_Ring\<close>, \<open>Multicast_Laws\<close>, \<open>Multicast_Properties\<close>: the rings, their operations as functions (\<open>bounded_fifo\<close>) and
  their threads as step relations in which every load and store of a cursor and every word of a slot is a step of its own; the operations
  are the uninterrupted runs of these steps. Nothing is lost, reordered or torn, and only gating consumers hold up a producer.

  \<^item> \<open>Crc32\<close>, \<open>Disk_Model\<close>, \<open>Journal_Writer\<close>, \<open>Journal_Reader\<close>, \<open>Journal_Laws\<close>, \<open>Journal_Crash\<close>: the journal over a model of files, with the invariant of writer and
  reader and what can be read after a crash. \<open>Sequencing\<close>, \<open>Snapshots\<close>, \<open>Recovery\<close>, \<open>Persistence_Properties\<close>: sequencer, snapshots, recovery; what is
  acknowledged is durable, and recovery gives the book of the sequenced commands. \<open>Shard_Recovery\<close>, \<open>Shard_Properties\<close>: the start of a shard on what an
  earlier run left, and that this can be repeated any number of times.

  \<^item> \<open>Gateway\<close>, \<open>Gateway_Laws\<close>, \<open>Gateway_Properties\<close>: all handlers of a session and the routers as one transition system; client sequence numbers,
  authentication, typing of commands, and the way from a client's frame to the recovered book.

  \<^item> \<open>Publisher\<close>, \<open>Publisher_Levels\<close>, \<open>Publisher_Events\<close>, \<open>Publisher_Client\<close>, \<open>Publisher_Properties\<close>, \<open>Feed_Server\<close>: the market-data path up to the ladder of a
  subscriber, and the write queues of the feed server.

  \<^bold>\<open>Assumptions.\<close> The theorems name theirs as hypotheses; those that come from the model are these.

  \<^item> Limit prices are on the tick grid wherever \<open>on_tick\<close> or \<open>cmd_ok\<close> occurs. The code does not check this, and off the grid the book trades through
  limits (\<open>off_tick_trade_through\<close>).

  \<^item> Files (\<open>Disk_Model\<close>): a system call succeeds, fails, or writes short, as the parameter \<open>io\<close> says for each call. A crash (\<open>crash_dir\<close>) keeps all
  directory entries, of each file the synced bytes, and a prefix of what was written behind them. The first is an idealisation: the
  journal writer never syncs its directory.

  \<^item> A session with the sequencer (\<open>session\<close>) ends at the first durability failure, as the sequencer demands of its caller. The gateway does not
  obey; the properties of the gateway therefore assume a disk without failures, and \<open>short_write_loses_acknowledged\<close> shows what happens otherwise.

  \<^item> Memory is sequentially consistent. For the inbound ring and for gating consumers acquire and release provide the orderings that
  are used. For the second check of \<^verbatim>\<open>tryPeekChecked\<close> they do not.

  \<^item> In the gateway a read may complete on a session that is already closing, since a handler can be queued when the socket is closed; what
  excludes such reads says so, and \<open>late_read_unauthenticated\<close> shows what they can do.

  \<^item> Segment names sort like their numbers, which holds below 10 to the 16; the feed needs books of at most 1024 orders, the capacity
  of the matching thread's trade buffer.

  \<^bold>\<open>Loops and fuel.\<close> Matching, scanning and probing loops are recursive functions on the heap with termination proofs or partial functions
  into \<^typ>\<open>'a option\<close>, and the refinement theorems show that they return. Reading a journal and spinning on a full ring are partial
  functions, too; that they return is part of the theorems on them. No fuel is used.

  \<^bold>\<open>Not modelled\<close> are the administration service and the audit writer, which live on a database, the HTTP and WebSocket parts of the
  visualiser, the command-line programs, pinning of threads and other platform calls, telemetry, benchmarks and tests. Sockets, timers
  and name resolution are the events that complete them.
\<close>

end
